(* ===== verification/Prelude.thy ===== *)
theory Prelude
  imports Main "HOL-Library.Word"
begin

unbundle bit_operations_syntax

text \<open>
  Shared vocabulary of the development: why a computation of the C code may stop without
  returning (\<open>stop\<close>), computations that may stop (\<open>'a res\<close>), the machine word types, checked
  array accesses, and the generic lemmas on results, lists and words that the component theories
  use.  The C code is modelled as a debug build (\<open>NDEBUG\<close> undefined): a failed \<open>assert\<close> is the
  value \<open>Inl AssertFailed\<close>, a failed \<open>ensure\<close> of error.h is \<open>Inl EnsureFailed\<close>, a call of
  \<open>exit_with_error\<close>, \<open>exit_after_c_error\<close> or \<open>exit\<close> is \<open>Inl ExitError\<close>.
\<close>

section \<open>Computations that may stop\<close>

datatype stop =
    AssertFailed        \<comment> \<open>a debug assertion failed\<close>
  | EnsureFailed        \<comment> \<open>a runtime check of error.h failed\<close>
  | ExitError           \<comment> \<open>the process logged an error and exited\<close>
  | BadAccess           \<comment> \<open>an access outside an array or through an invalid pointer\<close>
  | UndefinedBehaviour  \<comment> \<open>an operation the C standard leaves undefined\<close>
  | ScheduleEnd         \<comment> \<open>the modelled schedule ended before the operation returned\<close>

type_synonym 'a res = "stop + 'a"

definition bindR :: "'a res \<Rightarrow> ('a \<Rightarrow> 'b res) \<Rightarrow> 'b res" where
  "bindR m f = (case m of Inl e \<Rightarrow> Inl e | Inr x \<Rightarrow> f x)"

definition assert_that :: "bool \<Rightarrow> 'a res \<Rightarrow> 'a res" where
  "assert_that c k = (if c then k else Inl AssertFailed)"

definition ensure_that :: "bool \<Rightarrow> 'a res \<Rightarrow> 'a res" where
  "ensure_that c k = (if c then k else Inl EnsureFailed)"

definition seqR :: "unit res \<Rightarrow> 'a res \<Rightarrow> 'a res" where
  "seqR m k = bindR m (\<lambda>_. k)"

named_theorems res_simps \<open>evaluation of computations that may stop\<close>

lemma bindR_simps [simp]:
  "bindR (Inl e) f = Inl e"
  "bindR (Inr x) f = f x"
  by (simp_all add: bindR_def)

lemma bindR_eq_Inr: "bindR m f = Inr y \<longleftrightarrow> (\<exists>x. m = Inr x \<and> f x = Inr y)"
  by (cases m) auto

lemma bindR_eq_Inl: "bindR m f = Inl e \<longleftrightarrow> m = Inl e \<or> (\<exists>x. m = Inr x \<and> f x = Inl e)"
  by (cases m) auto

lemma bindR_assoc: "bindR (bindR m f) g = bindR m (\<lambda>x. bindR (f x) g)"
  by (cases m) auto

lemma assert_that_simps [simp]:
  "assert_that True k = k"
  "assert_that False k = Inl AssertFailed"
  by (simp_all add: assert_that_def)

lemma assert_that_eq_Inr: "assert_that c k = Inr y \<longleftrightarrow> c \<and> k = Inr y"
  by (simp add: assert_that_def)

lemma ensure_that_simps [simp]:
  "ensure_that True k = k"
  "ensure_that False k = Inl EnsureFailed"
  by (simp_all add: ensure_that_def)

lemma ensure_that_eq_Inr: "ensure_that c k = Inr y \<longleftrightarrow> c \<and> k = Inr y"
  by (simp add: ensure_that_def)

lemma seqR_simps [simp]:
  "seqR (Inl e) k = Inl e"
  "seqR (Inr u) k = k"
  by (simp_all add: seqR_def)

lemma seqR_eq_Inr: "seqR m k = Inr y \<longleftrightarrow> m = Inr () \<and> k = Inr y"
  by (cases m) auto

lemmas res_eq_Inr [res_simps] =
  bindR_eq_Inr assert_that_eq_Inr ensure_that_eq_Inr seqR_eq_Inr

section \<open>Machine types\<close>

type_synonym u8 = "8 word"
type_synonym u16 = "16 word"
type_synonym u32 = "32 word"
type_synonym u64 = "64 word"

text \<open>\<open>size_t\<close> values are naturals below \<open>2 ^ 64\<close>; \<open>SIZE_MAX\<close> is the largest one.\<close>

definition SIZE_MAX :: nat where
  "SIZE_MAX = 2 ^ 64 - 1"

definition size_wrap :: "nat \<Rightarrow> nat" where
  "size_wrap n = n mod 2 ^ 64"

lemma size_wrap_id [simp]: "n < 2 ^ 64 \<Longrightarrow> size_wrap n = n"
  by (simp add: size_wrap_def)

section \<open>Checked array accesses\<close>

definition array_read :: "'a list \<Rightarrow> nat \<Rightarrow> 'a res" where
  "array_read xs i = (if i < length xs then Inr (xs ! i) else Inl BadAccess)"

definition array_write :: "'a list \<Rightarrow> nat \<Rightarrow> 'a \<Rightarrow> 'a list res" where
  "array_write xs i v = (if i < length xs then Inr (xs[i := v]) else Inl BadAccess)"

lemma array_read_in [simp]: "i < length xs \<Longrightarrow> array_read xs i = Inr (xs ! i)"
  by (simp add: array_read_def)

lemma array_write_in [simp]: "i < length xs \<Longrightarrow> array_write xs i v = Inr (xs[i := v])"
  by (simp add: array_write_def)

lemma array_read_eq_Inr [res_simps]: "array_read xs i = Inr v \<longleftrightarrow> i < length xs \<and> v = xs ! i"
  by (auto simp: array_read_def)

lemma array_write_eq_Inr [res_simps]:
  "array_write xs i v = Inr ys \<longleftrightarrow> i < length xs \<and> ys = xs[i := v]"
  by (auto simp: array_write_def)

section \<open>Bits of machine words\<close>

lemma low_mask_eq: "2 ^ n - 1 = (mask n :: 'a::len word)"
  by (simp add: mask_eq_exp_minus_1)

lemma bit_imp_less_length: "bit (w :: 'a::len word) n \<Longrightarrow> n < LENGTH('a)"
  by (rule bit_imp_le_length)

section \<open>Positions inside blocks\<close>

lemma block_decompose:
  fixes n d :: nat
  assumes "0 < d"
  obtains q r where "n = r + q * d" "r < d" "n div d = q" "n mod d = r"
  using assms that [of "n mod d" "n div d"] by simp

lemma add_div_mod_small:
  fixes n d j :: nat
  assumes "n mod d + j < d"
  shows "(n + j) div d = n div d" and "(n + j) mod d = n mod d + j"
proof -
  from assms have d: "0 < d" by simp
  obtain q r where n: "n = r + q * d" "r < d" "n div d = q" "n mod d = r"
    by (rule block_decompose [OF d])
  have "n + j = (r + j) + q * d" and "r + j < d" using n assms by simp_all
  then show "(n + j) div d = n div d" and "(n + j) mod d = n mod d + j"
    using n d by (simp_all only: div_mult_self1 mod_mult_self1 div_less mod_less)
qed

lemma add_div_mod_carry:
  fixes n d j :: nat
  assumes "d \<le> n mod d + j" and "j < d"
  shows "(n + j) div d = n div d + 1" and "(n + j) mod d = n mod d + j - d"
proof -
  from assms have d: "0 < d" by simp
  obtain q r where n: "n = r + q * d" "r < d" "n div d = q" "n mod d = r"
    by (rule block_decompose [OF d])
  have "n + j = (r + j - d) + (q + 1) * d" and "r + j - d < d" using n assms by simp_all
  then show "(n + j) div d = n div d + 1" and "(n + j) mod d = n mod d + j - d"
    using n d by (simp_all only: div_mult_self1 mod_mult_self1 div_less mod_less)
qed

lemma next_block_distance:
  fixes p b d :: nat
  assumes "p div d = b div d + 1" and "0 < d"
  shows "b \<le> p" and "p - b = p mod d + (d - b mod d)"
proof -
  obtain q r where b: "b = r + q * d" "r < d" "b div d = q" "b mod d = r"
    by (rule block_decompose [OF assms(2)])
  obtain q' r' where p: "p = r' + q' * d" "r' < d" "p div d = q'" "p mod d = r'"
    by (rule block_decompose [OF assms(2)])
  from assms(1) b p have "q' = q + 1" by simp
  with b p show "b \<le> p" and "p - b = p mod d + (d - b mod d)" by simp_all
qed

lemma same_block_distance:
  fixes p b d :: nat
  assumes "p div d = b div d"
  shows "p < b \<longleftrightarrow> p mod d < b mod d" and "p - b = p mod d - b mod d"
proof -
  have "p = b div d * d + p mod d" and "b = b div d * d + b mod d"
    using assms div_mult_mod_eq [of p d] by simp_all
  then show "p < b \<longleftrightarrow> p mod d < b mod d" and "p - b = p mod d - b mod d"
    by linarith+
qed

lemma far_block_distance:
  fixes p b d :: nat
  assumes "b div d + 1 < p div d" and "0 < d"
  shows "b \<le> p" and "d \<le> p - b"
proof -
  obtain q r where b: "b = r + q * d" "r < d" "b div d = q" "b mod d = r"
    by (rule block_decompose [OF assms(2)])
  obtain q' r' where p: "p = r' + q' * d" "r' < d" "p div d = q'" "p mod d = r'"
    by (rule block_decompose [OF assms(2)])
  from assms(1) b p have "(q + 2) * d \<le> q' * d" by (intro mult_le_mono1) simp
  with b p show "b \<le> p" and "d \<le> p - b" by (simp_all only: distrib_right)
qed

lemma block_index:
  fixes k r p :: nat
  assumes "k * r \<le> p" and "p < k * r + r"
  shows "p div r = k" and "p mod r = p - k * r"
proof -
  define j where "j = p - k * r"
  have p: "p = j + k * r" and "j < r" using assms by (simp_all add: j_def)
  then show "p div r = k" and "p mod r = p - k * r" by simp_all
qed

end
