(* ===== verification/Bits.thy ===== *)
theory Bits
  imports Prelude
begin

text \<open>
  Model of src/bits.h and src/bits.c: machine word primitives, encoded powers of two, chained
  64-bit additions and subtractions, and the production and consumption of random bits.  A
  \<open>word_t\<close> is a 64-bit word (\<open>size_t\<close> of the supported 64-bit targets).  Bit searches and
  population counts are the portable loops of the source, whose results the compiler builtins of
  the other preprocessor branch are documented to equal.
\<close>

unbundle bit_operations_syntax

section \<open>Definitions\<close>

type_synonym word_t = "64 word"

definition BITS_PER_WORD :: nat where
  "BITS_PER_WORD = 64"

definition DIV_CEIL :: "nat \<Rightarrow> nat \<Rightarrow> nat" where
  "DIV_CEIL num denom = num div denom + (if num mod denom \<noteq> 0 then 1 else 0)"

definition bit_broadcast :: "bool \<Rightarrow> word_t" where
  "bit_broadcast value = (if value then -1 else 0)"

text \<open>The loop of \<open>count_trailing_zeros\<close>: \<open>fuel\<close> is the number of remaining iterations.\<close>

fun ctz_loop :: "nat \<Rightarrow> nat \<Rightarrow> word_t \<Rightarrow> nat" where
  "ctz_loop 0 bit_idx w = 0"
| "ctz_loop (Suc fuel) bit_idx w =
     (if w AND 1 \<noteq> 0 then bit_idx else ctz_loop fuel (Suc bit_idx) (drop_bit 1 w))"

definition count_trailing_zeros :: "word_t \<Rightarrow> nat res" where
  "count_trailing_zeros w = assert_that (w \<noteq> 0) (Inr (ctz_loop BITS_PER_WORD 0 w))"

fun popcount_loop :: "nat \<Rightarrow> nat \<Rightarrow> word_t \<Rightarrow> nat" where
  "popcount_loop 0 population w = population"
| "popcount_loop (Suc fuel) population w =
     popcount_loop fuel (population + unat (w AND 1)) (drop_bit 1 w)"

definition population_count :: "word_t \<Rightarrow> nat" where
  "population_count w = popcount_loop BITS_PER_WORD 0 w"

text \<open>
  \<open>pow2_t\<close> holds the base-2 logarithm in a 5-bit field.  Decoding shifts the \<open>int\<close> literal 1, so
  that a logarithm of 31 overflows \<open>int\<close>.
\<close>

record pow2 =
  log2 :: "5 word"

definition pow2_encode :: "u32 \<Rightarrow> pow2 res" where
  "pow2_encode power_of_two =
     assert_that (population_count (ucast power_of_two) = 1)
       (bindR (count_trailing_zeros (ucast power_of_two))
         (\<lambda>n. Inr \<lparr>log2 = of_nat n\<rparr>))"

definition pow2_decode :: "pow2 \<Rightarrow> u32 res" where
  "pow2_decode encoded =
     (if unat (log2 encoded) < 31 then Inr (push_bit (unat (log2 encoded)) 1)
      else Inl UndefinedBehaviour)"

definition add_with_carry_u64 :: "bool \<Rightarrow> u64 \<Rightarrow> u64 \<Rightarrow> bool \<times> u64" where
  "add_with_carry_u64 carry augend addend =
     (let new_addend = addend + of_bool carry;
          inc_carry = (new_addend < addend);
          sum = augend + new_addend;
          add_carry = (sum < augend)
      in (inc_carry \<or> add_carry, sum))"

definition subtract_with_carry_u64 :: "bool \<Rightarrow> u64 \<Rightarrow> u64 \<Rightarrow> bool \<times> u64" where
  "subtract_with_carry_u64 carry minuend subtrahend =
     (let new_subtrahend = subtrahend + of_bool carry;
          inc_carry = (new_subtrahend < subtrahend);
          difference = minuend - new_subtrahend;
          sub_carry = (difference > minuend)
      in (inc_carry \<or> sub_carry, difference))"

definition BITS_PER_ENTROPY_WORD :: nat where
  "BITS_PER_ENTROPY_WORD = 64"

text \<open>
  \<open>generate_entropy\<close>: \<open>rand_max\<close> is the C library's \<open>RAND_MAX\<close> and \<open>rnd k\<close> the result of the
  \<open>k\<close>-th call of \<open>rand()\<close>.  \<open>fuel\<close> bounds the number of loop iterations; the caller passes one
  more than the number of output bits and every iteration produces at least one bit.
\<close>

fun generate_entropy_loop ::
    "nat \<Rightarrow> nat \<Rightarrow> (nat \<Rightarrow> u64) \<Rightarrow> nat \<Rightarrow> nat \<Rightarrow> nat \<Rightarrow> u64 list \<Rightarrow> u64 list res" where
  "generate_entropy_loop 0 bits_per_rand rnd len calls bits_so_far output = Inl ScheduleEnd"
| "generate_entropy_loop (Suc fuel) bits_per_rand rnd len calls bits_so_far output =
     (if bits_so_far < len * BITS_PER_ENTROPY_WORD then
        let wrd = bits_so_far div BITS_PER_ENTROPY_WORD;
            offset = bits_so_far mod BITS_PER_ENTROPY_WORD;
            entropy = rnd calls;
            local_bits = BITS_PER_ENTROPY_WORD - offset
        in bindR (array_read output wrd) (\<lambda>old.
           bindR (array_write output wrd (old OR push_bit offset entropy)) (\<lambda>output1.
           bindR (if local_bits < bits_per_rand \<and> wrd + 1 < len
                  then array_write output1 (wrd + 1) (drop_bit local_bits entropy)
                  else Inr output1) (\<lambda>output2.
           generate_entropy_loop fuel bits_per_rand rnd len (Suc calls)
             (bits_so_far + bits_per_rand) output2)))
      else Inr output)"

definition generate_entropy :: "u64 \<Rightarrow> (nat \<Rightarrow> u64) \<Rightarrow> u64 list \<Rightarrow> nat \<Rightarrow> u64 list res" where
  "generate_entropy rand_max rnd output len =
     bindR (count_trailing_zeros rand_max) (\<lambda>zeros.
     ensure_that (zeros = 0)
       (let bits_per_rand = population_count rand_max
        in ensure_that (bits_per_rand \<le> BITS_PER_ENTROPY_WORD)
             (if len \<le> length output
              then generate_entropy_loop (len * BITS_PER_ENTROPY_WORD + 1) bits_per_rand rnd len 0 0
                     (replicate len 0 @ drop len output)
              else Inl BadAccess)))"

text \<open>One iteration of the output loop of \<open>entropy_to_bits\<close>.\<close>

definition entropy_word :: "nat \<Rightarrow> nat \<Rightarrow> u64 list \<Rightarrow> nat \<Rightarrow> u64 res" where
  "entropy_word bits_per_output next_input_bit inputs num_inputs =
     (let input_word = next_input_bit div BITS_PER_ENTROPY_WORD;
          input_offset = next_input_bit mod BITS_PER_ENTROPY_WORD;
          bits_so_far = BITS_PER_ENTROPY_WORD - input_offset
      in assert_that (input_word < num_inputs)
         (bindR (array_read inputs input_word) (\<lambda>lo.
          bindR (if bits_so_far < bits_per_output
                 then assert_that (input_word + 1 < num_inputs)
                        (bindR (array_read inputs (input_word + 1)) (\<lambda>hi.
                         Inr (drop_bit input_offset lo OR push_bit bits_so_far hi)))
                 else Inr (drop_bit input_offset lo)) (\<lambda>r.
          Inr (if bits_per_output < BITS_PER_ENTROPY_WORD
               then r AND (push_bit bits_per_output 1 - 1) else r)))))"

text \<open>The output loop, on the number of outputs that remain to be written.\<close>

fun entropy_to_bits_loop ::
    "nat \<Rightarrow> nat \<Rightarrow> nat \<Rightarrow> nat \<Rightarrow> u64 list \<Rightarrow> u64 list \<Rightarrow> nat \<Rightarrow> (u64 list \<times> nat) res" where
  "entropy_to_bits_loop 0 output_word bits_per_output next_input_bit outputs inputs num_inputs =
     Inr (outputs, next_input_bit)"
| "entropy_to_bits_loop (Suc todo) output_word bits_per_output next_input_bit outputs inputs num_inputs =
     bindR (entropy_word bits_per_output next_input_bit inputs num_inputs) (\<lambda>r.
     bindR (array_write outputs output_word r) (\<lambda>outputs'.
     entropy_to_bits_loop todo (Suc output_word) bits_per_output
       (next_input_bit + bits_per_output) outputs' inputs num_inputs))"

definition entropy_to_bits ::
    "nat \<Rightarrow> u64 list \<Rightarrow> nat \<Rightarrow> nat \<Rightarrow> u64 list \<Rightarrow> nat \<Rightarrow> (u64 list \<times> nat) res" where
  "entropy_to_bits bits_per_output outputs num_outputs consumed_input_bits inputs num_inputs =
     assert_that (bits_per_output \<le> BITS_PER_ENTROPY_WORD)
       (let remaining_input_bits =
              size_wrap (2 ^ 64 + num_inputs * BITS_PER_ENTROPY_WORD - consumed_input_bits)
        in assert_that (remaining_input_bits \<ge> size_wrap (num_outputs * bits_per_output))
             (entropy_to_bits_loop num_outputs 0 bits_per_output consumed_input_bits
                outputs inputs num_inputs))"

section \<open>Trailing zeros and population counts\<close>

lemma and_one_nonzero_iff: "(w :: 'a::len word) AND 1 \<noteq> 0 \<longleftrightarrow> bit w 0"
  by (simp add: and_one_eq odd_iff_mod_2_eq_one bit_0)

lemma ctz_loop_correct:
  assumes "\<exists>i < fuel. bit w i"
  shows "ctz_loop fuel n w = n + (LEAST i. bit w i)"
  using assms
proof (induction fuel arbitrary: n w)
  case 0
  then show ?case by simp
next
  case (Suc fuel)
  show ?case
  proof (cases "bit w 0")
    case True
    then show ?thesis by (simp add: and_one_nonzero_iff Least_eq_0)
  next
    case False
    from Suc.prems False obtain i where i: "i < fuel" "bit w (Suc i)"
      by (metis less_Suc_eq_0_disj)
    then have "\<exists>i < fuel. bit (drop_bit 1 w) i" by (auto simp: bit_drop_bit_eq)
    from Suc.IH [OF this] False
    have "ctz_loop (Suc fuel) n w = Suc n + (LEAST i. bit w (Suc i))"
      by (simp add: and_one_nonzero_iff bit_drop_bit_eq)
    moreover have "(LEAST i. bit w i) = Suc (LEAST i. bit w (Suc i))"
      using i(2) False by (rule Least_Suc)
    ultimately show ?thesis by simp
  qed
qed

lemma nonzero_word_has_bit: "(w :: word_t) \<noteq> 0 \<Longrightarrow> \<exists>i < 64. bit w i"
proof (rule ccontr)
  assume nz: "w \<noteq> 0" and "\<not> (\<exists>i < 64. bit w i)"
  then have "w = 0" by (intro bit_word_eqI) auto
  with nz show False by simp
qed

lemma count_trailing_zeros_Least:
  "w \<noteq> 0 \<Longrightarrow> count_trailing_zeros w = Inr (LEAST i. bit w i)"
  using ctz_loop_correct [OF nonzero_word_has_bit, of w 0]
  by (simp add: count_trailing_zeros_def BITS_PER_WORD_def)

lemma count_trailing_zeros_spec:
  assumes "w \<noteq> 0"
  obtains n where "count_trailing_zeros w = Inr n" "n < 64" "bit w n" "\<And>i. i < n \<Longrightarrow> \<not> bit w i"
proof -
  from nonzero_word_has_bit [OF assms] obtain i where "bit w i" by blast
  then have "bit w (LEAST i. bit w i)" by (rule LeastI)
  moreover from this have "(LEAST i. bit w i) < 64"
    using bit_imp_less_length [of w] by simp
  ultimately show ?thesis
    using that [OF count_trailing_zeros_Least [OF assms]] not_less_Least by blast
qed

lemma popcount_loop_correct:
  "popcount_loop fuel p w = p + card {i. i < fuel \<and> bit w i}"
proof (induction fuel arbitrary: p w)
  case 0
  then show ?case by simp
next
  case (Suc fuel)
  let ?S = "{i. i < fuel \<and> bit w (Suc i)}"
  have split: "{i. i < Suc fuel \<and> bit w i} = (if bit w 0 then {0} else {}) \<union> Suc ` ?S"
    by (auto simp: less_Suc_eq_0_disj)
  have "card {i. i < Suc fuel \<and> bit w i} = (if bit w 0 then 1 else 0) + card ?S"
    unfolding split by (subst card_Un_disjoint) (auto simp: card_image)
  moreover have "unat (w AND 1) = (if bit w 0 then 1 else 0)"
    by (simp add: and_one_eq mod_2_eq_odd bit_0)
  ultimately show ?case
    by (simp add: Suc.IH bit_drop_bit_eq)
qed

lemma population_count_eq_card: "population_count w = card {i. bit w i}"
proof -
  have "{i. i < 64 \<and> bit w i} = {i. bit w i}"
    using bit_imp_less_length [of w] by auto
  then show ?thesis
    by (simp add: population_count_def BITS_PER_WORD_def popcount_loop_correct)
qed

section \<open>Encoded powers of two\<close>

lemma bit_exp_word_iff: "bit (2 ^ k :: 'a::len word) i \<longleftrightarrow> i = k \<and> k < LENGTH('a)"
  by (auto simp: bit_simps)

lemma ucast_exp: "k < 32 \<Longrightarrow> (ucast (2 ^ k :: u32) :: word_t) = 2 ^ k"
  by (rule bit_word_eqI) (auto simp: bit_simps)

lemma population_count_power: "k < 64 \<Longrightarrow> population_count (2 ^ k) = 1"
  by (simp add: population_count_eq_card bit_exp_word_iff)

lemma count_trailing_zeros_power: "k < 64 \<Longrightarrow> count_trailing_zeros (2 ^ k) = Inr k"
proof -
  assume k: "k < 64"
  then have b: "bit (2 ^ k :: word_t) = (\<lambda>i. i = k)"
    by (auto simp: bit_exp_word_iff fun_eq_iff)
  then have "(2 ^ k :: word_t) \<noteq> 0"
    by (metis bit_0_eq bot_apply bot_bool_def)
  then show ?thesis
    by (simp add: count_trailing_zeros_Least b Least_equality)
qed

lemma pow2_encode_power: "k < 32 \<Longrightarrow> pow2_encode (2 ^ k) = Inr \<lparr>log2 = of_nat k\<rparr>"
  by (simp add: pow2_encode_def ucast_exp population_count_power count_trailing_zeros_power
      del: One_nat_def)

section \<open>Chained additions and subtractions\<close>

lemma unat_u64_less: "unat (a :: u64) < 2 ^ 64"
  using unsigned_less [of a] by simp

lemma unat_add_u64:
  "unat ((a :: u64) + b) = (if unat a + unat b < 2 ^ 64 then unat a + unat b
                             else unat a + unat b - 2 ^ 64)"
  using unat_u64_less [of a] unat_u64_less [of b]
  by (auto simp: unat_word_ariths mod_if)

lemma unat_sub_u64:
  "unat ((a :: u64) - b) = (if unat b \<le> unat a then unat a - unat b
                             else unat a + 2 ^ 64 - unat b)"
  using unat_u64_less [of b] by (simp add: unat_sub_if')

lemma unat_of_bool_u64: "unat (of_bool c :: u64) = of_bool c"
  by (cases c) simp_all

lemmas u64_arith = word_less_nat_alt word_le_nat_alt unat_add_u64 unat_sub_u64 unat_of_bool_u64

section \<open>Random bits\<close>

text \<open>Bit \<open>p\<close> of an array of 64-bit words.\<close>

definition nth_bit :: "u64 list \<Rightarrow> nat \<Rightarrow> bool" where
  "nth_bit ws p = bit (ws ! (p div 64)) (p mod 64)"

lemma nth_bit_update:
  assumes "i < length ws"
  shows "nth_bit (ws[i := v]) p = (if p div 64 = i then bit v (p mod 64) else nth_bit ws p)"
  using assms by (auto simp: nth_bit_def nth_list_update)

text \<open>What one iteration of \<open>generate_entropy\<close> does to the bits of the output.\<close>

lemma entropy_step_bit:
  fixes out :: "u64 list" and entropy :: u64
  assumes b: "b < len * 64" and len: "len \<le> length out"
    and fresh: "\<forall>p. b \<le> p \<and> p < len * 64 \<longrightarrow> \<not> nth_bit out p"
    and small: "\<forall>i \<ge> r. \<not> bit entropy i" and r: "r \<le> 64"
    and p: "p < len * 64"
    and out1: "out1 = out[b div 64 := out ! (b div 64) OR push_bit (b mod 64) entropy]"
    and out2: "out2 = (if 64 - b mod 64 < r \<and> b div 64 + 1 < len
                       then out1[b div 64 + 1 := drop_bit (64 - b mod 64) entropy] else out1)"
  shows "nth_bit out2 p = (if p < b then nth_bit out p else bit entropy (p - b))"
proof -
  have w: "b div 64 < length out" using b len by linarith
  have p1: "nth_bit out1 q = (if q div 64 = b div 64
       then nth_bit out q \<or> (b mod 64 \<le> q mod 64 \<and> bit entropy (q mod 64 - b mod 64))
       else nth_bit out q)" for q
    using w by (auto simp: out1 nth_bit_update bit_simps nth_bit_def)
  have nx: "b div 64 + 1 < len \<Longrightarrow> b div 64 + 1 < length out1"
    using len by (simp add: out1)
  consider "p div 64 < b div 64" | "p div 64 = b div 64" | "p div 64 = b div 64 + 1"
    | "p div 64 > b div 64 + 1" by linarith
  then show ?thesis
  proof cases
    case 1
    then have "p < b" by (meson div_le_mono leD leI)
    with 1 show ?thesis using nx by (auto simp: out2 p1 nth_bit_update)
  next
    case 2
    have "nth_bit out2 p = nth_bit out1 p"
      using nx by (cases "b div 64 + 1 < len") (auto simp: out2 nth_bit_update 2)
    then have e: "nth_bit out2 p =
        (nth_bit out p \<or> (b mod 64 \<le> p mod 64 \<and> bit entropy (p mod 64 - b mod 64)))"
      by (simp only: p1 2 refl if_True)
    show ?thesis
    proof (cases "p < b")
      case True
      then have "p mod 64 < b mod 64" using same_block_distance(1) [OF 2] by simp
      with e True show ?thesis by simp
    next
      case False
      then have "b mod 64 \<le> p mod 64" using same_block_distance(1) [OF 2] by simp
      with e False fresh p same_block_distance(2) [OF 2] show ?thesis by simp
    qed
  next
    case 3
    have ge: "\<not> p < b" and d: "p - b = 64 - b mod 64 + p mod 64"
      using next_block_distance [OF 3] by (simp, simp only: add.commute)
    have far: "\<not> bit entropy (p - b)" if "\<not> 64 - b mod 64 < r"
      using small that d by simp
    have o: "\<not> nth_bit out p" using fresh p ge by simp
    have "nth_bit out1 p = nth_bit out p" using p1 [of p] 3 by simp
    moreover have "b div 64 + 1 < len" using 3 p by linarith
    ultimately show ?thesis
      using ge d o small far nx 3
      by (cases "64 - b mod 64 < r") (simp_all add: out2 nth_bit_update bit_drop_bit_eq)
  next
    case 4
    then have "b \<le> p" and "r \<le> p - b" using r far_block_distance [of b 64 p] by auto
    with 4 show ?thesis using nx fresh p small by (auto simp: out2 p1 nth_bit_update)
  qed
qed

text \<open>The bits the loop has to produce: bit \<open>p\<close> comes from bit \<open>p mod r\<close> of call \<open>p div r\<close>.\<close>

definition rand_bit :: "nat \<Rightarrow> (nat \<Rightarrow> u64) \<Rightarrow> nat \<Rightarrow> bool" where
  "rand_bit r rnd p = bit (rnd (p div r)) (p mod r)"

lemma generate_entropy_loop_bits:
  assumes "0 < r" "r \<le> 64" "len \<le> length out" "b = k * r" "len * 64 < b + fuel" "0 < fuel"
    and "\<forall>k. \<forall>i \<ge> r. \<not> bit (rnd k) i"
    and "\<forall>p < len * 64. nth_bit out p = (p < b \<and> rand_bit r rnd p)"
  shows "\<exists>out'. generate_entropy_loop fuel r rnd len k b out = Inr out' \<and> length out' = length out \<and>
           (\<forall>p < len * 64. nth_bit out' p = rand_bit r rnd p)"
  using assms
proof (induction fuel arbitrary: k b out)
  case 0
  then show ?case by simp
next
  case (Suc fuel)
  show ?case
  proof (cases "b < len * 64")
    case False
    with Suc.prems show ?thesis by (auto simp: BITS_PER_ENTROPY_WORD_def)
  next
    case True
    define out1 where "out1 = out[b div 64 := out ! (b div 64) OR push_bit (b mod 64) (rnd k)]"
    define out2 where "out2 = (if 64 - b mod 64 < r \<and> b div 64 + 1 < len
                       then out1[b div 64 + 1 := drop_bit (64 - b mod 64) (rnd k)] else out1)"
    have w: "b div 64 < length out" using True Suc.prems(3) by linarith
    have step: "generate_entropy_loop (Suc fuel) r rnd len k b out
                = generate_entropy_loop fuel r rnd len (Suc k) (b + r) out2"
      using True w Suc.prems(3)
      by (simp add: BITS_PER_ENTROPY_WORD_def out1_def out2_def Let_def)
    have bits: "nth_bit out2 p = (p < b + r \<and> rand_bit r rnd p)" if p: "p < len * 64" for p
    proof -
      have "nth_bit out2 p = (if p < b then nth_bit out p else bit (rnd k) (p - b))"
        by (rule entropy_step_bit [OF True Suc.prems(3) _ _ Suc.prems(2) p out1_def out2_def])
          (use Suc.prems in auto)
      moreover have "bit (rnd k) (p - b) = (p < b + r \<and> rand_bit r rnd p)" if "\<not> p < b"
      proof (cases "p < b + r")
        case True
        with that Suc.prems(4) block_index [of k r p] show ?thesis by (simp add: rand_bit_def)
      next
        case False
        with Suc.prems(7) show ?thesis by simp
      qed
      ultimately show ?thesis
        using Suc.prems(8) p by auto
    qed
    have fuel: "0 < fuel" using True Suc.prems(5) by linarith
    have len2: "len \<le> length out2" using Suc.prems(3) by (simp add: out1_def out2_def)
    have "\<exists>out'. generate_entropy_loop fuel r rnd len (Suc k) (b + r) out2 = Inr out' \<and>
            length out' = length out2 \<and> (\<forall>p < len * 64. nth_bit out' p = rand_bit r rnd p)"
      by (rule Suc.IH) (use Suc.prems bits fuel len2 in auto)
    then show ?thesis using step by (auto simp: out1_def out2_def)
  qed
qed

text \<open>What one output word of \<open>entropy_to_bits\<close> holds.\<close>

lemma entropy_word_bits:
  assumes "bpo \<le> 64" "0 < bpo" "n + bpo \<le> num_inputs * 64" "num_inputs \<le> length inputs"
  shows "\<exists>r. entropy_word bpo n inputs num_inputs = Inr r \<and>
           (\<forall>j. bit r j = (j < bpo \<and> nth_bit inputs (n + j)))"
proof -
  have iw: "n div 64 < num_inputs" using assms by linarith
  have hi: "n div 64 + 1 < num_inputs" if "64 - n mod 64 < bpo"
    using assms that div_mult_mod_eq [of n 64] by linarith
  have idx: "(n + j) div 64 = (if j < 64 - n mod 64 then n div 64 else n div 64 + 1)
           \<and> (n + j) mod 64 = (if j < 64 - n mod 64 then n mod 64 + j else j - (64 - n mod 64))"
    if "j < 64" for j
    using that add_div_mod_small [of n 64 j] add_div_mod_carry [of 64 n j] by auto
  have mask: "bit (if bpo < 64 then r AND mask bpo else r) j = (j < bpo \<and> bit r j)" for r :: u64 and j
    using assms(1) bit_imp_less_length [of r j] by (auto simp: bit_simps)
  show ?thesis
  proof (cases "64 - n mod 64 < bpo")
    case True
    let ?r = "drop_bit (n mod 64) (inputs ! (n div 64)) OR push_bit (64 - n mod 64) (inputs ! (n div 64 + 1))"
    have "entropy_word bpo n inputs num_inputs = Inr (if bpo < 64 then ?r AND mask bpo else ?r)"
      using True iw hi assms(4) by (simp add: entropy_word_def BITS_PER_ENTROPY_WORD_def low_mask_eq Let_def)
    moreover have "bit ?r j = nth_bit inputs (n + j)" if "j < bpo" for j
      using idx [of j] assms(1) that
      by (auto simp: nth_bit_def bit_simps dest: bit_imp_less_length)
    ultimately show ?thesis using mask [of ?r] by auto
  next
    case False
    let ?r = "drop_bit (n mod 64) (inputs ! (n div 64))"
    have "entropy_word bpo n inputs num_inputs = Inr (if bpo < 64 then ?r AND mask bpo else ?r)"
      using False iw assms(4) by (simp add: entropy_word_def BITS_PER_ENTROPY_WORD_def low_mask_eq Let_def)
    moreover have "bit ?r j = nth_bit inputs (n + j)" if "j < bpo" for j
      using idx [of j] assms(1) that False by (simp add: nth_bit_def bit_simps)
    ultimately show ?thesis using mask [of ?r] by auto
  qed
qed

lemma entropy_to_bits_loop_bits:
  assumes "bpo \<le> 64" "0 < bpo" "n + todo * bpo \<le> num_inputs * 64" "num_inputs \<le> length inputs"
    and "w + todo \<le> length outs"
  shows "\<exists>outs'. entropy_to_bits_loop todo w bpo n outs inputs num_inputs = Inr (outs', n + todo * bpo) \<and>
           length outs' = length outs \<and>
           (\<forall>k. (k < w \<or> w + todo \<le> k) \<longrightarrow> outs' ! k = outs ! k) \<and>
           (\<forall>k < todo. \<forall>j. bit (outs' ! (w + k)) j = (j < bpo \<and> nth_bit inputs (n + k * bpo + j)))"
  using assms
proof (induction todo arbitrary: w n outs)
  case 0
  then show ?case by simp
next
  case (Suc todo)
  from Suc.prems entropy_word_bits [of bpo n num_inputs inputs]
  obtain r where r: "entropy_word bpo n inputs num_inputs = Inr r"
    "\<forall>j. bit r j = (j < bpo \<and> nth_bit inputs (n + j))" by auto
  have "\<exists>outs'. entropy_to_bits_loop todo (Suc w) bpo (n + bpo) (outs[w := r]) inputs num_inputs
             = Inr (outs', (n + bpo) + todo * bpo) \<and> length outs' = length (outs[w := r]) \<and>
           (\<forall>k. (k < Suc w \<or> Suc w + todo \<le> k) \<longrightarrow> outs' ! k = outs[w := r] ! k) \<and>
           (\<forall>k < todo. \<forall>j. bit (outs' ! (Suc w + k)) j = (j < bpo \<and> nth_bit inputs (n + bpo + k * bpo + j)))"
    by (rule Suc.IH) (use Suc.prems in auto)
  then obtain outs' where o: "entropy_to_bits_loop todo (Suc w) bpo (n + bpo) (outs[w := r]) inputs num_inputs
             = Inr (outs', (n + bpo) + todo * bpo)" "length outs' = length outs"
     "\<forall>k. (k < Suc w \<or> Suc w + todo \<le> k) \<longrightarrow> outs' ! k = outs[w := r] ! k"
     "\<forall>k < todo. \<forall>j. bit (outs' ! (Suc w + k)) j = (j < bpo \<and> nth_bit inputs (n + bpo + k * bpo + j))"
    by auto
  have "bit (outs' ! (w + k)) j = (j < bpo \<and> nth_bit inputs (n + k * bpo + j))" if "k < Suc todo" for k j
  proof (cases k)
    case 0
    with o(3) r(2) Suc.prems(5) show ?thesis by simp
  next
    case (Suc k')
    with o(4) that show ?thesis by (simp add: ac_simps)
  qed
  moreover have "outs' ! k = outs ! k" if "k < w \<or> w + Suc todo \<le> k" for k
    using o(3) that by auto
  ultimately show ?case
    using o(1,2) r(1) Suc.prems(5) by (auto simp: ac_simps)
qed

section \<open>Properties\<close>

text \<open>Chained addition is exact: the result word and the carry that
  \<open>add_with_carry_u64\<close> returns represent the 65-bit sum of both terms and the incoming carry.\<close>

theorem add_with_carry_u64_exact:
  "case add_with_carry_u64 carry augend addend of (carry_out, out) \<Rightarrow>
     unat out + 2 ^ 64 * of_bool carry_out = unat augend + unat addend + of_bool carry"
  using unat_u64_less [of augend] unat_u64_less [of addend]
  by (cases carry) (auto simp: add_with_carry_u64_def Let_def u64_arith)

text \<open>Chained subtraction is exact: the result plus the subtrahend and the incoming
  borrow equals the minuend, up to the borrow that \<open>subtract_with_carry_u64\<close> reports.\<close>

theorem subtract_with_carry_u64_exact:
  "case subtract_with_carry_u64 carry minuend subtrahend of (carry_out, out) \<Rightarrow>
     unat out + unat subtrahend + of_bool carry = unat minuend + 2 ^ 64 * of_bool carry_out"
  using unat_u64_less [of minuend] unat_u64_less [of subtrahend]
  by (cases carry) (auto simp: subtract_with_carry_u64_def Let_def u64_arith)

text \<open>Encoding a power of two below \<open>2 ^ 31\<close> and decoding it gives it back, while the
  largest power of two that the encoder accepts, \<open>2 ^ 31\<close>, has no defined decoding.\<close>

theorem pow2_roundtrip:
  "(k < 31 \<longrightarrow> bindR (pow2_encode (2 ^ k)) pow2_decode = Inr (2 ^ k)) \<and>
   bindR (pow2_encode (2 ^ 31)) pow2_decode = Inl UndefinedBehaviour"
proof
  show "k < 31 \<longrightarrow> bindR (pow2_encode (2 ^ k)) pow2_decode = Inr (2 ^ k)"
    using pow2_encode_power [of k] by (simp add: pow2_decode_def unat_of_nat)
  show "bindR (pow2_encode (2 ^ 31)) pow2_decode = Inl UndefinedBehaviour"
    using pow2_encode_power [of 31] by (simp add: pow2_decode_def)
qed

theorem pow2_roundtrip_witness:
  "(12 :: nat) < 31 \<and> bindR (pow2_encode (2 ^ 12)) pow2_decode = Inr (2 ^ 12)"
  using pow2_roundtrip [of 12] by simp

text \<open>\<open>generate_entropy\<close> returns, and lays the random bits out without gap or overlap: with
  \<open>r\<close> random bits per call of \<open>rand()\<close> (\<open>RAND_MAX = 2 ^ r - 1\<close>), bit \<open>p\<close> of the output is bit
  \<open>p mod r\<close> of the result of call number \<open>p div r\<close>.\<close>

theorem generate_entropy_bits:
  assumes "0 < r" and "r \<le> 64" and "len \<le> length output"
    and "\<forall>k. \<forall>i \<ge> r. \<not> bit (rnd k) i"
  shows "\<exists>out. generate_entropy (mask r) rnd output len = Inr out \<and> length out = length output \<and>
           (\<forall>p < len * 64. bit (out ! (p div 64)) (p mod 64) = bit (rnd (p div r)) (p mod r))"
proof -
  have nz: "mask r \<noteq> (0 :: u64)" using assms(1,2) by (simp add: mask_eq_0_iff)
  have "(LEAST i. bit (mask r :: u64) i) = 0"
    using assms(1,2) by (intro Least_eq_0) (simp add: bit_mask_iff)
  moreover have "{i. bit (mask r :: u64) i} = {..<r}" using assms(2) by (auto simp: bit_mask_iff)
  ultimately have e: "generate_entropy (mask r) rnd output len =
      generate_entropy_loop (len * 64 + 1) r rnd len 0 0 (replicate len 0 @ drop len output)"
    using assms nz
    by (simp add: generate_entropy_def count_trailing_zeros_Least population_count_eq_card
        BITS_PER_ENTROPY_WORD_def del: generate_entropy_loop.simps)
  have "p < len * 64 \<Longrightarrow> \<not> nth_bit (replicate len 0 @ drop len output) p" for p
    by (simp add: nth_bit_def nth_append less_mult_imp_div_less)
  with generate_entropy_loop_bits [of r len "replicate len 0 @ drop len output" 0 0 "len * 64 + 1" rnd]
    assms e show ?thesis
    by (simp add: nth_bit_def rand_bit_def del: generate_entropy_loop.simps)
qed

theorem generate_entropy_bits_witness:
  "\<exists>out. generate_entropy (mask 31) (\<lambda>k. 5) [7, 7, 7] 2 = Inr out \<and> length out = 3 \<and>
     (\<forall>p < 128. bit (out ! (p div 64)) (p mod 64) = bit (5 :: u64) (p mod 31))"
proof -
  have "\<forall>k :: nat. \<forall>i \<ge> 31. \<not> bit (5 :: u64) i"
  proof (intro allI impI)
    fix i :: nat assume "31 \<le> i"
    have "(5 :: u64) = 5 AND mask 3" by (simp add: mask_numeral)
    then have "bit (5 :: u64) i \<Longrightarrow> i < 3" by (metis bit_and_iff bit_mask_iff)
    with \<open>31 \<le> i\<close> show "\<not> bit (5 :: u64) i" by auto
  qed
  then show ?thesis
    using generate_entropy_bits [of 31 2 "[7, 7, 7]" "\<lambda>k. 5"] by (simp add: numeral_3_eq_3)
qed

text \<open>\<open>entropy_to_bits\<close> consumes the entropy in order and exactly once: bit \<open>j\<close> of output
  word \<open>k\<close> is input bit \<open>consumed + k * bits_per_output + j\<close>, higher bits are zero, and the
  tracker advances by the number of bits handed out.\<close>

theorem entropy_to_bits_exact:
  assumes "bpo \<le> 64" and "0 < bpo" and "num_outputs \<le> length outputs"
    and "num_inputs \<le> length inputs" and "num_inputs * 64 < 2 ^ 64"
    and "consumed + num_outputs * bpo \<le> num_inputs * 64"
  shows "\<exists>outs. entropy_to_bits bpo outputs num_outputs consumed inputs num_inputs
             = Inr (outs, consumed + num_outputs * bpo) \<and>
           (\<forall>k < num_outputs. \<forall>j. bit (outs ! k) j \<longleftrightarrow>
              j < bpo \<and> bit (inputs ! ((consumed + k * bpo + j) div 64)) ((consumed + k * bpo + j) mod 64))"
proof -
  have "2 ^ 64 + num_inputs * 64 - consumed = (num_inputs * 64 - consumed) + 2 ^ 64"
    using assms(6) by linarith
  then have "size_wrap (2 ^ 64 + num_inputs * 64 - consumed) = num_inputs * 64 - consumed"
    using assms(5) by (simp only: size_wrap_def mod_add_self2) simp
  moreover have "size_wrap (num_outputs * bpo) = num_outputs * bpo"
    using assms(5,6) by (intro size_wrap_id) linarith
  moreover have "num_outputs * bpo \<le> num_inputs * 64 - consumed" using assms(6) by linarith
  ultimately have "entropy_to_bits bpo outputs num_outputs consumed inputs num_inputs =
      entropy_to_bits_loop num_outputs 0 bpo consumed outputs inputs num_inputs"
    using assms(1,6) by (simp add: entropy_to_bits_def BITS_PER_ENTROPY_WORD_def)
  with entropy_to_bits_loop_bits [OF assms(1,2,6,4), of 0 outputs] assms(3) show ?thesis
    by (auto simp: nth_bit_def)
qed

theorem entropy_to_bits_exact_witness:
  "\<exists>outs. entropy_to_bits 53 [0, 0] 2 20 [3, 4, 5] 3 = Inr (outs, 126) \<and>
     (\<forall>k < 2. \<forall>j. bit (outs ! k) j \<longleftrightarrow>
        j < 53 \<and> bit ([3, 4, 5 :: u64] ! ((20 + k * 53 + j) div 64)) ((20 + k * 53 + j) mod 64))"
  using entropy_to_bits_exact [of 53 2 "[0, 0]" 3 "[3, 4, 5]" 20] by simp

end
