(* ===== verification/BitArray.thy ===== *)
theory BitArray
  imports Bits
begin

text \<open>
  Model of src/bit_array.h: arrays of bits packed into 64-bit words.  An array is the list of its
  words; a read or write outside of it is \<open>BadAccess\<close>, every \<open>assert\<close> of the source is a branch.
  Loops over words recurse on the number of words that remain.  The specification side reads bit
  \<open>i\<close> of an array with \<open>nth_bit\<close>.
\<close>

unbundle bit_operations_syntax

section \<open>Definitions\<close>

definition BIT_ARRAY_WORDS :: "nat \<Rightarrow> nat" where
  "BIT_ARRAY_WORDS len = DIV_CEIL len BITS_PER_WORD"

record bit_pos =
  bp_word :: nat
  bp_offset :: nat

definition NO_BIT_POS :: bit_pos where
  "NO_BIT_POS = \<lparr>bp_word = SIZE_MAX, bp_offset = SIZE_MAX\<rparr>"

definition bit_pos_to_index :: "bit_pos \<Rightarrow> nat res" where
  "bit_pos_to_index b =
     assert_that (bp_word b \<noteq> SIZE_MAX)
       (assert_that (bp_offset b < BITS_PER_WORD)
         (Inr (size_wrap (bp_word b * BITS_PER_WORD + bp_offset b))))"

definition index_to_bit_pos :: "nat \<Rightarrow> bit_pos res" where
  "index_to_bit_pos i =
     assert_that (i \<noteq> SIZE_MAX)
       (Inr \<lparr>bp_word = i div BITS_PER_WORD, bp_offset = i mod BITS_PER_WORD\<rparr>)"

definition BIT_ARRAY_START :: bit_pos where
  "BIT_ARRAY_START = \<lparr>bp_word = 0, bp_offset = 0\<rparr>"

definition bit_array_end :: "nat \<Rightarrow> bit_pos res" where
  "bit_array_end len = assert_that (len \<noteq> SIZE_MAX) (index_to_bit_pos len)"

definition bit_array_get :: "word_t list \<Rightarrow> nat \<Rightarrow> bit_pos \<Rightarrow> bool res" where
  "bit_array_get bit_array len b =
     bindR (bit_pos_to_index b) (\<lambda>i.
     assert_that (i < len)
       (bindR (array_read bit_array (bp_word b)) (\<lambda>w.
        Inr (w AND push_bit (bp_offset b) 1 \<noteq> 0))))"

definition bit_array_set :: "word_t list \<Rightarrow> nat \<Rightarrow> bit_pos \<Rightarrow> bool \<Rightarrow> word_t list res" where
  "bit_array_set bit_array len b value =
     bindR (bit_pos_to_index b) (\<lambda>i.
     assert_that (i < len)
       (bindR (array_read bit_array (bp_word b)) (\<lambda>w.
        array_write bit_array (bp_word b)
          (if value then w OR push_bit (bp_offset b) 1
           else w AND NOT (push_bit (bp_offset b) 1)))))"

fun bit_array_count_loop :: "nat \<Rightarrow> nat \<Rightarrow> word_t list \<Rightarrow> bool \<Rightarrow> nat \<Rightarrow> nat res" where
  "bit_array_count_loop 0 wrd bit_array value result = Inr result"
| "bit_array_count_loop (Suc todo) wrd bit_array value result =
     bindR (array_read bit_array wrd) (\<lambda>w.
       let target = (if \<not> value then NOT w else w)
       in bit_array_count_loop todo (Suc wrd) bit_array value (result + population_count target))"

definition bit_array_count :: "word_t list \<Rightarrow> nat \<Rightarrow> bool \<Rightarrow> nat res" where
  "bit_array_count bit_array len value =
     (let num_full_words = len div BITS_PER_WORD;
          remaining_bits = len mod BITS_PER_WORD
      in bindR (bit_array_count_loop num_full_words 0 bit_array value 0) (\<lambda>result.
         if remaining_bits > 0 then
           bindR (array_read bit_array num_full_words) (\<lambda>w.
             let target = (if \<not> value then NOT w else w);
                 target' = target AND (push_bit remaining_bits 1 - 1)
             in Inr (result + population_count target'))
         else Inr result))"

fun range_alleq_loop :: "nat \<Rightarrow> nat \<Rightarrow> word_t list \<Rightarrow> bit_pos \<Rightarrow> bit_pos \<Rightarrow> bool \<Rightarrow> bool res" where
  "range_alleq_loop 0 wrd bit_array start stop value = Inr True"
| "range_alleq_loop (Suc todo) wrd bit_array start stop value =
     (if wrd = bp_word stop \<and> bp_offset stop = 0 then Inr True
      else bindR (array_read bit_array wrd) (\<lambda>w.
        let t1 = (if value then NOT w else w);
            t2 = (if wrd = bp_word stop then t1 AND (push_bit (bp_offset stop) 1 - 1) else t1);
            t3 = (if wrd = bp_word start then drop_bit (bp_offset start) t2 else t2)
        in if t3 \<noteq> 0 then Inr False
           else range_alleq_loop todo (Suc wrd) bit_array start stop value))"

definition bit_array_range_alleq ::
    "word_t list \<Rightarrow> nat \<Rightarrow> bit_pos \<Rightarrow> bit_pos \<Rightarrow> bool \<Rightarrow> bool res" where
  "bit_array_range_alleq bit_array len start stop value =
     bindR (bit_pos_to_index start) (\<lambda>s.
     assert_that (s < len \<or> (bp_word start = bp_word stop \<and> bp_offset start = bp_offset stop))
       (bindR (bit_pos_to_index stop) (\<lambda>e.
        assert_that (e \<le> len)
          (range_alleq_loop (Suc (bp_word stop) - bp_word start) (bp_word start)
             bit_array start stop value))))"

fun range_set_loop ::
    "nat \<Rightarrow> nat \<Rightarrow> word_t list \<Rightarrow> bit_pos \<Rightarrow> bit_pos \<Rightarrow> word_t \<Rightarrow> word_t list res" where
  "range_set_loop 0 wrd bit_array start stop broadcast = Inr bit_array"
| "range_set_loop (Suc todo) wrd bit_array start stop broadcast =
     (if (wrd > bp_word start \<or> bp_offset start = 0) \<and> wrd < bp_word stop then
        bindR (array_write bit_array wrd broadcast) (\<lambda>bit_array'.
        range_set_loop todo (Suc wrd) bit_array' start stop broadcast)
      else if wrd = bp_word stop \<and> bp_offset stop = 0 then Inr bit_array
      else bindR (array_read bit_array wrd) (\<lambda>current.
        let start_offset = (if wrd = bp_word start then bp_offset start else 0);
            end_offset = (if wrd = bp_word stop then bp_offset stop else BITS_PER_WORD)
        in if start_offset > end_offset
           then range_set_loop todo (Suc wrd) bit_array start stop broadcast
           else let offset_delta = end_offset - start_offset;
                    fill_mask = push_bit start_offset (push_bit offset_delta 1 - 1)
                in if offset_delta \<ge> BITS_PER_WORD then Inl UndefinedBehaviour
                   else bindR (array_write bit_array wrd
                                 ((broadcast AND fill_mask) OR (current AND NOT fill_mask)))
                          (\<lambda>bit_array'.
                           range_set_loop todo (Suc wrd) bit_array' start stop broadcast)))"

definition bit_array_range_set ::
    "word_t list \<Rightarrow> nat \<Rightarrow> bit_pos \<Rightarrow> bit_pos \<Rightarrow> bool \<Rightarrow> word_t list res" where
  "bit_array_range_set bit_array len start stop value =
     bindR (bit_pos_to_index start) (\<lambda>s.
     assert_that (s < len \<or> (bp_word start = bp_word stop \<and> bp_offset start = bp_offset stop))
       (bindR (bit_pos_to_index stop) (\<lambda>e.
        assert_that (e \<le> len)
          (range_set_loop (Suc (bp_word stop) - bp_word start) (bp_word start)
             bit_array start stop (bit_broadcast value)))))"

text \<open>The word that ends the scan of \<open>bit_array_find_first\<close>, from word \<open>wrd\<close> on.\<close>

fun find_word_loop :: "nat \<Rightarrow> nat \<Rightarrow> word_t list \<Rightarrow> word_t \<Rightarrow> nat res" where
  "find_word_loop 0 wrd bit_array empty_word = Inr wrd"
| "find_word_loop (Suc todo) wrd bit_array empty_word =
     bindR (array_read bit_array wrd) (\<lambda>w.
       if w \<noteq> empty_word then Inr wrd
       else find_word_loop todo (Suc wrd) bit_array empty_word)"

definition bit_array_find_first :: "word_t list \<Rightarrow> nat \<Rightarrow> bool \<Rightarrow> bit_pos res" where
  "bit_array_find_first bit_array len value =
     (let empty_word = bit_broadcast (\<not> value);
          end_word = BIT_ARRAY_WORDS len
      in bindR (find_word_loop end_word 0 bit_array empty_word) (\<lambda>wrd.
         if wrd = end_word then Inr NO_BIT_POS
         else let num_full_words = len div BITS_PER_WORD;
                  remaining_bits = len mod BITS_PER_WORD
              in bindR (array_read bit_array wrd) (\<lambda>w.
                 let found_word = (if \<not> value then NOT w else w);
                     partial = (wrd = num_full_words \<and> remaining_bits \<noteq> 0);
                     found_word' = (if partial then found_word AND (push_bit remaining_bits 1 - 1)
                                    else found_word)
                 in if partial \<and> found_word' = 0 then Inr NO_BIT_POS
                    else bindR (count_trailing_zeros found_word') (\<lambda>offset.
                         Inr \<lparr>bp_word = wrd, bp_offset = offset\<rparr>))))"

text \<open>The search inside the word of \<open>previous\<close>, \<open>None\<close> when it finds nothing.\<close>

definition find_next_in_word ::
    "word_t list \<Rightarrow> nat \<Rightarrow> bit_pos \<Rightarrow> bool \<Rightarrow> bit_pos option res" where
  "find_next_in_word bit_array len previous value =
     (let num_full_words = len div BITS_PER_WORD;
          remaining_bits = len mod BITS_PER_WORD;
          previous_incomplete = (bp_word previous = num_full_words);
          previous_bits = (if previous_incomplete then remaining_bits else BITS_PER_WORD)
      in if bp_offset previous \<noteq> size_wrap (previous_bits + 2 ^ 64 - 1) then
           bindR (array_read bit_array (bp_word previous)) (\<lambda>w.
             let p1 = (if \<not> value then NOT w else w);
                 p2 = (if previous_incomplete then p1 AND (push_bit remaining_bits 1 - 1) else p1);
                 dropped_bits = bp_offset previous + 1;
                 p3 = drop_bit dropped_bits p2
             in if dropped_bits \<ge> BITS_PER_WORD then Inl UndefinedBehaviour
                else if p3 \<noteq> 0 then
                  bindR (count_trailing_zeros p3) (\<lambda>extra_offset.
                  Inr (Some \<lparr>bp_word = bp_word previous, bp_offset = dropped_bits + extra_offset\<rparr>))
                else Inr None)
         else Inr None)"

definition bit_array_find_next ::
    "word_t list \<Rightarrow> nat \<Rightarrow> bit_pos \<Rightarrow> bool \<Rightarrow> bool \<Rightarrow> bit_pos res" where
  "bit_array_find_next bit_array len previous wraparound value =
     bindR (bit_pos_to_index previous) (\<lambda>i.
     assert_that (i < len)
       (bindR (find_next_in_word bit_array len previous value) (\<lambda>in_word.
        case in_word of
          Some pos \<Rightarrow> Inr pos
        | None \<Rightarrow>
            let num_words = BIT_ARRAY_WORDS len;
                word_offset = bp_word previous + 1
            in bindR (if bp_word previous \<noteq> num_words - 1
                      then bit_array_find_first (drop word_offset bit_array)
                             (len - word_offset * BITS_PER_WORD) value
                      else Inr NO_BIT_POS) (\<lambda>pos.
               if bp_word pos \<noteq> SIZE_MAX then Inr (pos\<lparr>bp_word := bp_word pos + word_offset\<rparr>)
               else if \<not> wraparound then Inr NO_BIT_POS
               else bit_array_find_first bit_array (i + 1) value))))"

section \<open>Positions and valid arrays\<close>

definition pos_index :: "bit_pos \<Rightarrow> nat" where
  "pos_index b = bp_word b * 64 + bp_offset b"

definition valid_array :: "word_t list \<Rightarrow> nat \<Rightarrow> bool" where
  "valid_array bit_array len \<longleftrightarrow> BIT_ARRAY_WORDS len \<le> length bit_array \<and> len < SIZE_MAX"

definition valid_pos :: "nat \<Rightarrow> bit_pos \<Rightarrow> bool" where
  "valid_pos len b \<longleftrightarrow> bp_offset b < 64 \<and> pos_index b < len"

lemmas bit_array_consts = BITS_PER_WORD_def BIT_ARRAY_WORDS_def DIV_CEIL_def

lemma BIT_ARRAY_WORDS_gt: "i < len \<Longrightarrow> i div 64 < BIT_ARRAY_WORDS len"
proof -
  assume "i < len"
  then have "i div 64 \<le> len div 64" by (simp add: div_le_mono)
  moreover have "len mod 64 = 0 \<Longrightarrow> i div 64 < len div 64"
    using \<open>i < len\<close> by (metis add.right_neutral div_less_iff_less_mult div_mult_mod_eq zero_less_numeral)
  ultimately show ?thesis by (auto simp: bit_array_consts)
qed

lemma BIT_ARRAY_WORDS_ge: "len \<le> BIT_ARRAY_WORDS len * 64"
proof (rule ccontr)
  assume "\<not> len \<le> BIT_ARRAY_WORDS len * 64"
  then have "BIT_ARRAY_WORDS len * 64 < len" by simp
  from BIT_ARRAY_WORDS_gt [OF this] show False by simp
qed

lemma BIT_ARRAY_WORDS_le: "len \<le> w * 64 \<Longrightarrow> BIT_ARRAY_WORDS len \<le> w"
proof -
  assume le: "len \<le> w * 64"
  then have "len div 64 \<le> w" using div_le_mono [OF le, of 64] by simp
  moreover have "len mod 64 \<noteq> 0 \<Longrightarrow> len div 64 \<noteq> w"
    using le div_mult_mod_eq [of len 64] by linarith
  ultimately show ?thesis by (auto simp: bit_array_consts)
qed

lemma BIT_ARRAY_WORDS_mono: "m \<le> n \<Longrightarrow> BIT_ARRAY_WORDS m \<le> BIT_ARRAY_WORDS n"
  using BIT_ARRAY_WORDS_ge [of n] by (intro BIT_ARRAY_WORDS_le) simp

lemma valid_array_word: "valid_array a len \<Longrightarrow> i < len \<Longrightarrow> i div 64 < length a"
  using BIT_ARRAY_WORDS_gt [of i len] by (simp add: valid_array_def)

lemma pos_index_div_mod:
  "bp_offset b < 64 \<Longrightarrow> pos_index b div 64 = bp_word b \<and> pos_index b mod 64 = bp_offset b"
  by (simp add: pos_index_def)

lemma nth_bit_pos: "bp_offset b < 64 \<Longrightarrow> nth_bit a (pos_index b) = bit (a ! bp_word b) (bp_offset b)"
  by (simp add: nth_bit_def pos_index_div_mod)

lemma nth_bit_word: "j < 64 \<Longrightarrow> nth_bit a (w * 64 + j) = bit (a ! w) j"
  by (simp add: nth_bit_def)

lemma bit_pos_to_index_ok:
  assumes "bp_offset b < 64" and "pos_index b < SIZE_MAX"
  shows "bit_pos_to_index b = Inr (pos_index b)"
  using assms by (auto simp: bit_pos_to_index_def pos_index_def SIZE_MAX_def BITS_PER_WORD_def)

lemma valid_pos_index:
  "valid_array a len \<Longrightarrow> valid_pos len b \<Longrightarrow>
     bit_pos_to_index b = Inr (pos_index b) \<and> pos_index b < len \<and> bp_word b < length a"
  using bit_pos_to_index_ok [of b] valid_array_word [of a len "pos_index b"] pos_index_div_mod [of b]
  by (auto simp: valid_pos_def valid_array_def)

lemma bit_single_mask: "(w :: word_t) AND 2 ^ j \<noteq> 0 \<longleftrightarrow> bit w j"
  by (simp add: bit_iff_and_push_bit_not_eq_0)

lemma bit_and_low_mask: "bit (w AND mask r :: word_t) j \<longleftrightarrow> bit w j \<and> j < r"
  using bit_imp_less_length [of w j] by (auto simp: bit_simps)

lemma word_zero_iff_bits: "(w :: word_t) = 0 \<longleftrightarrow> (\<forall>j < 64. \<not> bit w j)"
  using nonzero_word_has_bit by auto

lemma bit_flip: "j < 64 \<Longrightarrow> bit (if v then NOT w else (w :: word_t)) j \<longleftrightarrow> bit w j \<noteq> v"
  by (simp add: bit_not_iff)

lemma bit_flip': "j < 64 \<Longrightarrow> bit (if \<not> v then NOT w else (w :: word_t)) j \<longleftrightarrow> bit w j = v"
  by (simp add: bit_not_iff)

lemma bit_broadcast_bits: "j < 64 \<Longrightarrow> bit (bit_broadcast v) j = v"
  by (simp add: bit_broadcast_def)

section \<open>Single bits\<close>

lemma bit_array_get_correct:
  "valid_array a len \<Longrightarrow> valid_pos len b \<Longrightarrow> bit_array_get a len b = Inr (nth_bit a (pos_index b))"
  using valid_pos_index [of a len b]
  by (simp add: bit_array_get_def bit_single_mask nth_bit_pos valid_pos_def)

lemma bit_array_set_correct:
  assumes "valid_array a len" and "valid_pos len b"
  shows "\<exists>a'. bit_array_set a len b v = Inr a' \<and> length a' = length a \<and>
           (\<forall>i. nth_bit a' i = (if i = pos_index b then v else nth_bit a i))"
proof -
  let ?w = "a ! bp_word b"
  let ?w' = "if v then ?w OR 2 ^ bp_offset b else ?w AND NOT (2 ^ bp_offset b)"
  have o: "bp_offset b < 64" using assms(2) by (simp add: valid_pos_def)
  have "bit_array_set a len b v = Inr (a[bp_word b := ?w'])"
    using valid_pos_index [OF assms] by (simp add: bit_array_set_def)
  moreover have "nth_bit (a[bp_word b := ?w']) i = (if i = pos_index b then v else nth_bit a i)" for i
  proof -
    have "i = pos_index b \<longleftrightarrow> i div 64 = bp_word b \<and> i mod 64 = bp_offset b"
      using pos_index_div_mod [OF o] by (metis div_mult_mod_eq)
    then show ?thesis
      using valid_pos_index [OF assms] o
      by (auto simp: nth_bit_def nth_list_update bit_simps)
  qed
  ultimately show ?thesis by simp
qed

section \<open>Counting\<close>

definition count_bits :: "word_t list \<Rightarrow> bool \<Rightarrow> nat \<Rightarrow> nat" where
  "count_bits a v n = card {i. i < n \<and> nth_bit a i = v}"

lemma count_bits_step:
  assumes "k \<le> 64"
  shows "count_bits a v (w * 64 + k) = count_bits a v (w * 64) + card {j. j < k \<and> bit (a ! w) j = v}"
proof -
  let ?J = "{j. j < k \<and> bit (a ! w) j = v}"
  have "{i. i < w * 64 + k \<and> nth_bit a i = v} = {i. i < w * 64 \<and> nth_bit a i = v} \<union> (\<lambda>j. w * 64 + j) ` ?J"
  proof (intro set_eqI iffI)
    fix i assume "i \<in> {i. i < w * 64 + k \<and> nth_bit a i = v}"
    then have i: "i < w * 64 + k" "nth_bit a i = v" by simp_all
    show "i \<in> {i. i < w * 64 \<and> nth_bit a i = v} \<union> (\<lambda>j. w * 64 + j) ` ?J"
    proof (cases "i < w * 64")
      case False
      then obtain j where j: "i = w * 64 + j" by (metis le_add_diff_inverse not_less)
      with i assms have "j \<in> ?J" by (simp add: nth_bit_word)
      with j show ?thesis by simp
    qed (use i in simp)
  qed (use assms in \<open>auto simp: nth_bit_word\<close>)
  moreover have "card ((\<lambda>j. w * 64 + j) ` ?J) = card ?J" by (rule card_image) (simp add: inj_on_def)
  moreover have "card ({i. i < w * 64 \<and> nth_bit a i = v} \<union> (\<lambda>j. w * 64 + j) ` ?J)
      = card {i. i < w * 64 \<and> nth_bit a i = v} + card ((\<lambda>j. w * 64 + j) ` ?J)"
    by (rule card_Un_disjoint) auto
  ultimately show ?thesis
    unfolding count_bits_def by simp
qed

lemma population_count_flip:
  "population_count (if \<not> v then NOT w else w) = card {j. j < 64 \<and> bit w j = v}"
proof -
  have "bit (if \<not> v then NOT w else w) j \<longleftrightarrow> j < 64 \<and> bit w j = v" for j
    using bit_imp_less_length [of "if \<not> v then NOT w else w" j] bit_flip' [of j v w] by auto
  then show ?thesis by (simp only: population_count_eq_card)
qed

lemma population_count_flip_mask:
  assumes "r \<le> 64"
  shows "population_count ((if \<not> v then NOT w else w) AND mask r) = card {j. j < r \<and> bit w j = v}"
proof -
  have "{j. bit ((if \<not> v then NOT w else w) AND mask r) j} = {j. j < r \<and> bit w j = v}"
    using assms bit_flip' [of _ v w] by (auto simp: bit_and_low_mask simp del: if_not_P)
  then show ?thesis by (simp only: population_count_eq_card)
qed

lemma bit_array_count_loop_correct:
  "w + n \<le> length a \<Longrightarrow> bit_array_count_loop n w a v (count_bits a v (w * 64))
     = Inr (count_bits a v ((w + n) * 64))"
proof (induction n arbitrary: w)
  case 0
  then show ?case by simp
next
  case (Suc n)
  have "count_bits a v (w * 64) + population_count (if \<not> v then NOT (a ! w) else a ! w)
        = count_bits a v (Suc w * 64)"
    using count_bits_step [of 64 a v w] by (simp only: population_count_flip) (simp add: add.commute)
  with Suc.IH [of "Suc w"] Suc.prems show ?case by (simp add: Let_def)
qed

lemma bit_array_count_correct:
  assumes "valid_array a len"
  shows "bit_array_count a len v = Inr (count_bits a v len)"
proof -
  let ?q = "len div 64" and ?r = "len mod 64"
  have q: "?q \<le> length a" using assms by (auto simp: valid_array_def bit_array_consts split: if_splits)
  have loop: "bit_array_count_loop ?q 0 a v 0 = Inr (count_bits a v (?q * 64))"
    using bit_array_count_loop_correct [of 0 ?q a v] q by (simp add: count_bits_def)
  have len: "?q * 64 + ?r = len" by simp
  show ?thesis
  proof (cases "?r = 0")
    case True
    then show ?thesis using loop len by (simp add: bit_array_count_def BITS_PER_WORD_def Let_def)
  next
    case False
    then have "?q < length a"
      using assms by (auto simp: valid_array_def bit_array_consts split: if_splits)
    moreover have "count_bits a v (?q * 64) + population_count ((if \<not> v then NOT (a ! ?q) else a ! ?q) AND mask ?r)
        = count_bits a v len"
      using count_bits_step [of ?r a v ?q] len by (simp add: population_count_flip_mask)
    ultimately show ?thesis
      using False loop by (simp add: bit_array_count_def BITS_PER_WORD_def Let_def low_mask_eq)
  qed
qed

section \<open>Ranges\<close>

text \<open>Bit \<open>j\<close> of word \<open>w\<close> lies in the range from \<open>start\<close> to \<open>stop\<close>.\<close>

definition covered :: "bit_pos \<Rightarrow> bit_pos \<Rightarrow> nat \<Rightarrow> nat \<Rightarrow> bool" where
  "covered start stop w j \<longleftrightarrow>
     (w = bp_word start \<longrightarrow> bp_offset start \<le> j) \<and> (w = bp_word stop \<longrightarrow> j < bp_offset stop)"

lemma covered_iff:
  assumes "bp_word start \<le> w" "w \<le> bp_word stop" "bp_offset start < 64" "bp_offset stop < 64" "j < 64"
  shows "covered start stop w j \<longleftrightarrow> pos_index start \<le> w * 64 + j \<and> w * 64 + j < pos_index stop"
proof -
  have "pos_index start \<le> w * 64 + j \<longleftrightarrow> (w = bp_word start \<longrightarrow> bp_offset start \<le> j)"
    using assms by (cases "w = bp_word start") (simp_all add: pos_index_def)
  moreover have "w * 64 + j < pos_index stop \<longleftrightarrow> (w = bp_word stop \<longrightarrow> j < bp_offset stop)"
    using assms by (cases "w = bp_word stop") (simp_all add: pos_index_def)
  ultimately show ?thesis by (simp add: covered_def)
qed

lemma covered_iff_bit:
  assumes "bp_word start \<le> i div 64" "i div 64 \<le> bp_word stop" "bp_offset start < 64" "bp_offset stop < 64"
  shows "covered start stop (i div 64) (i mod 64) \<longleftrightarrow> pos_index start \<le> i \<and> i < pos_index stop"
  using covered_iff [OF assms, of "i mod 64"] by simp

lemma word_or_later: "w * 64 \<le> i \<longleftrightarrow> (\<exists>j < 64. i = w * 64 + j) \<or> Suc w * 64 \<le> (i :: nat)"
proof
  assume "w * 64 \<le> i"
  then show "(\<exists>j < 64. i = w * 64 + j) \<or> Suc w * 64 \<le> i"
    by (cases "Suc w * 64 \<le> i") (auto intro!: exI [of _ "i - w * 64"])
qed auto

lemma alleq_word_correct:
  fixes w :: word_t
  assumes "t1 = (if v then NOT w else w)"
    and "t2 = (if n = bp_word stop then t1 AND mask (bp_offset stop) else t1)"
    and "t3 = (if n = bp_word start then drop_bit (bp_offset start) t2 else t2)"
  shows "t3 = 0 \<longleftrightarrow> (\<forall>j < 64. covered start stop n j \<longrightarrow> bit w j = v)"
proof -
  have t1: "bit t1 j \<longleftrightarrow> j < 64 \<and> bit w j \<noteq> v" for j
    using bit_imp_less_length [of t1 j] bit_flip [of j v w] assms(1) by auto
  have t2: "bit t2 j \<longleftrightarrow> (n = bp_word stop \<longrightarrow> j < bp_offset stop) \<and> j < 64 \<and> bit w j \<noteq> v" for j
    by (auto simp: assms(2) bit_and_low_mask t1)
  have "t3 = 0 \<longleftrightarrow> (\<forall>j. \<not> bit t3 j)"
    by (auto intro: bit_word_eqI)
  also have "\<dots> \<longleftrightarrow> (\<forall>j. (n = bp_word start \<longrightarrow> bp_offset start \<le> j) \<longrightarrow> \<not> bit t2 j)"
    by (simp add: assms(3) bit_drop_bit_eq) (metis le_add1 le_add_diff_inverse)
  also have "\<dots> \<longleftrightarrow> (\<forall>j < 64. covered start stop n j \<longrightarrow> bit w j = v)"
    by (auto simp: t2 covered_def)
  finally show ?thesis .
qed

lemma range_word_exists:
  assumes "valid_array a len" "pos_index stop \<le> len" "bp_offset stop < 64"
    and "w \<le> bp_word stop" "\<not> (w = bp_word stop \<and> bp_offset stop = 0)"
  shows "w < length a"
proof -
  have "w * 64 < pos_index stop"
    using assms(3-5) by (cases "w = bp_word stop") (auto simp: pos_index_def)
  then have "w * 64 < len" using assms(2) by simp
  with valid_array_word [OF assms(1), of "w * 64"] show ?thesis by simp
qed

lemma range_alleq_loop_correct:
  assumes "valid_array a len" "pos_index stop \<le> len" "bp_offset start < 64" "bp_offset stop < 64"
    and "bp_word start \<le> w" "todo = Suc (bp_word stop) - w"
  shows "range_alleq_loop todo w a start stop v =
           Inr (\<forall>i. w * 64 \<le> i \<and> pos_index start \<le> i \<and> i < pos_index stop \<longrightarrow> nth_bit a i = v)"
  using assms
proof (induction todo arbitrary: w)
  case 0
  then have "pos_index stop \<le> w * 64" by (simp add: pos_index_def)
  then show ?case by auto
next
  case (Suc todo)
  then have w: "w \<le> bp_word stop" by simp
  show ?case
  proof (cases "w = bp_word stop \<and> bp_offset stop = 0")
    case True
    then show ?thesis by (auto simp: pos_index_def)
  next
    case False
    have len: "w < length a"
      by (rule range_word_exists [OF Suc.prems(1,2,4) w False])
    define t1 where "t1 = (if v then NOT (a ! w) else a ! w)"
    define t2 where "t2 = (if w = bp_word stop then t1 AND mask (bp_offset stop) else t1)"
    define t3 where "t3 = (if w = bp_word start then drop_bit (bp_offset start) t2 else t2)"
    have unf: "range_alleq_loop (Suc todo) w a start stop v =
        (if t3 \<noteq> 0 then Inr False else range_alleq_loop todo (Suc w) a start stop v)"
      by (simp only: range_alleq_loop.simps False if_False array_read_in [OF len] bindR_simps
          Let_def push_bit_of_1 low_mask_eq t1_def t2_def t3_def)
    let ?R = "\<lambda>i. pos_index start \<le> i \<and> i < pos_index stop"
    have zero: "t3 = 0 \<longleftrightarrow> (\<forall>j < 64. ?R (w * 64 + j) \<longrightarrow> nth_bit a (w * 64 + j) = v)"
      using alleq_word_correct [OF t1_def t2_def t3_def] covered_iff [OF Suc.prems(5) w Suc.prems(3,4)]
      by (simp add: nth_bit_word)
    have "(\<forall>i. w * 64 \<le> i \<and> ?R i \<longrightarrow> nth_bit a i = v) \<longleftrightarrow>
        t3 = 0 \<and> (\<forall>i. Suc w * 64 \<le> i \<and> ?R i \<longrightarrow> nth_bit a i = v)"
      unfolding zero word_or_later [of w] by blast
    moreover have "range_alleq_loop todo (Suc w) a start stop v =
        Inr (\<forall>i. Suc w * 64 \<le> i \<and> ?R i \<longrightarrow> nth_bit a i = v)"
      by (rule Suc.IH) (use Suc.prems in auto)
    ultimately show ?thesis unfolding unf by auto
  qed
qed

lemma range_set_word_correct:
  fixes current fill :: word_t
  assumes "so < 64" "eo \<le> 64" "so \<le> eo" "eo - so < 64"
    and "fill = push_bit so (mask (eo - so))" and "j < 64"
  shows "bit ((bit_broadcast v AND fill) OR (current AND NOT fill)) j =
           (if so \<le> j \<and> j < eo then v else bit current j)"
proof -
  have "bit fill j \<longleftrightarrow> so \<le> j \<and> j < eo"
    using assms by (auto simp: bit_simps)
  then show ?thesis
    using assms(6) by (auto simp: bit_or_iff bit_and_iff bit_not_iff bit_broadcast_bits)
qed

text \<open>The words that the fill loop writes, as one function of the word number.\<close>

definition fill_word :: "bit_pos \<Rightarrow> bit_pos \<Rightarrow> bool \<Rightarrow> nat \<Rightarrow> word_t \<Rightarrow> word_t \<Rightarrow> bool" where
  "fill_word start stop v w old new \<longleftrightarrow>
     (\<forall>j < 64. bit new j = (if covered start stop w j then v else bit old j))"

lemma range_set_loop_step:
  assumes "w < length a" "\<not> (w = bp_word stop \<and> bp_offset stop = 0)"
    and "bp_offset start < 64" "bp_offset stop < 64" "bp_word start \<le> w" "w \<le> bp_word stop"
  shows "\<exists>nw. fill_word start stop v w (a ! w) nw \<and>
           range_set_loop (Suc todo) w a start stop (bit_broadcast v) =
           range_set_loop todo (Suc w) (a[w := nw]) start stop (bit_broadcast v)"
proof (cases "(w > bp_word start \<or> bp_offset start = 0) \<and> w < bp_word stop")
  case True
  then have "range_set_loop (Suc todo) w a start stop (bit_broadcast v) =
      range_set_loop todo (Suc w) (a[w := bit_broadcast v]) start stop (bit_broadcast v)"
    by (simp only: range_set_loop.simps if_True array_write_in [OF assms(1)] bindR_simps simp_thms)
  moreover have "fill_word start stop v w (a ! w) (bit_broadcast v)"
    using True by (auto simp: fill_word_def covered_def bit_broadcast_bits)
  ultimately show ?thesis by blast
next
  case False
  define so where "so = (if w = bp_word start then bp_offset start else 0)"
  define eo where "eo = (if w = bp_word stop then bp_offset stop else BITS_PER_WORD)"
  have so: "so < 64" and eo: "eo \<le> 64" using assms(3,4) by (simp_all add: so_def eo_def BITS_PER_WORD_def)
  have cov: "covered start stop w j \<longleftrightarrow> so \<le> j \<and> j < eo" if "j < 64" for j
    using that by (auto simp: covered_def so_def eo_def BITS_PER_WORD_def)
  show ?thesis
  proof (cases "so > eo")
    case True
    then have "range_set_loop (Suc todo) w a start stop (bit_broadcast v) =
        range_set_loop todo (Suc w) a start stop (bit_broadcast v)"
      using False
      by (simp only: range_set_loop.simps False assms(2) if_False if_True array_read_in [OF assms(1)]
          bindR_simps Let_def so_def [symmetric] eo_def [symmetric])
    moreover have "fill_word start stop v w (a ! w) (a ! w)"
      using True by (auto simp: fill_word_def cov)
    ultimately show ?thesis by (metis list_update_id)
  next
    case se: False
    have d: "\<not> eo - so \<ge> BITS_PER_WORD"
      using False assms(4-6) so by (auto simp: so_def eo_def BITS_PER_WORD_def split: if_splits)
    define fill :: word_t where "fill = push_bit so (mask (eo - so))"
    define nw where "nw = (bit_broadcast v AND fill) OR (a ! w AND NOT fill)"
    have "range_set_loop (Suc todo) w a start stop (bit_broadcast v) =
        range_set_loop todo (Suc w) (a[w := nw]) start stop (bit_broadcast v)"
      by (simp only: range_set_loop.simps False assms(2) if_False array_read_in [OF assms(1)]
          bindR_simps Let_def so_def [symmetric] eo_def [symmetric] se d array_write_in [OF assms(1)]
          push_bit_of_1 low_mask_eq fill_def [symmetric] nw_def [symmetric])
    moreover have "bit nw j = (if so \<le> j \<and> j < eo then v else bit (a ! w) j)" if "j < 64" for j
      unfolding nw_def
      by (rule range_set_word_correct [OF so eo _ _ fill_def that]) (use se d in \<open>simp_all add: BITS_PER_WORD_def\<close>)
    then have "fill_word start stop v w (a ! w) nw"
      by (simp add: fill_word_def cov)
    ultimately show ?thesis by blast
  qed
qed

lemma range_set_loop_correct:
  assumes "valid_array a len" "pos_index stop \<le> len" "bp_offset start < 64" "bp_offset stop < 64"
    and "bp_word start \<le> w" "todo = Suc (bp_word stop) - w"
  shows "\<exists>a'. range_set_loop todo w a start stop (bit_broadcast v) = Inr a' \<and> length a' = length a \<and>
           (\<forall>i. nth_bit a' i = (if w * 64 \<le> i \<and> pos_index start \<le> i \<and> i < pos_index stop then v
                                   else nth_bit a i))"
  using assms
proof (induction todo arbitrary: w a)
  case 0
  then have "pos_index stop \<le> w * 64" by (simp add: pos_index_def)
  then show ?case by auto
next
  case (Suc todo)
  then have w: "w \<le> bp_word stop" by simp
  show ?case
  proof (cases "w = bp_word stop \<and> bp_offset stop = 0")
    case True
    then show ?thesis by (auto simp: pos_index_def)
  next
    case False
    have len: "w < length a" by (rule range_word_exists [OF Suc.prems(1,2,4) w False])
    obtain nw where nw: "fill_word start stop v w (a ! w) nw"
      and step: "range_set_loop (Suc todo) w a start stop (bit_broadcast v) =
           range_set_loop todo (Suc w) (a[w := nw]) start stop (bit_broadcast v)"
      using range_set_loop_step [OF len False Suc.prems(3-5) w] by blast
    let ?R = "\<lambda>i. pos_index start \<le> i \<and> i < pos_index stop"
    have "\<exists>a'. range_set_loop todo (Suc w) (a[w := nw]) start stop (bit_broadcast v) = Inr a' \<and>
        length a' = length (a[w := nw]) \<and>
        (\<forall>i. nth_bit a' i = (if Suc w * 64 \<le> i \<and> ?R i then v else nth_bit (a[w := nw]) i))"
      by (rule Suc.IH) (use Suc.prems in \<open>auto simp: valid_array_def\<close>)
    moreover have "nth_bit (a[w := nw]) i =
        (if i div 64 = w \<and> ?R i then v else nth_bit a i)" for i
    proof (cases "i div 64 = w")
      case True
      then have "nth_bit (a[w := nw]) i = (if covered start stop w (i mod 64) then v else nth_bit a i)"
        using nw len by (simp add: nth_bit_def fill_word_def)
      with True covered_iff_bit [of start i stop] Suc.prems(3-5) w show ?thesis by simp
    next
      case False
      with len show ?thesis by (simp add: nth_bit_update)
    qed
    moreover have "w * 64 \<le> i \<longleftrightarrow> i div 64 = w \<or> Suc w * 64 \<le> i" for i
      using word_or_later [of w i] by auto
    ultimately show ?thesis using step by (auto simp del: range_set_loop.simps)
  qed
qed

section \<open>Searches\<close>

text \<open>
  \<open>first_at a v lo hi pos\<close>: \<open>pos\<close> is the first position from \<open>lo\<close> to below \<open>hi\<close> that holds \<open>v\<close>;
  \<open>none_at\<close>: there is no such position.
\<close>

definition none_at :: "word_t list \<Rightarrow> bool \<Rightarrow> nat \<Rightarrow> nat \<Rightarrow> bool" where
  "none_at a v lo hi \<longleftrightarrow> (\<forall>i. lo \<le> i \<and> i < hi \<longrightarrow> nth_bit a i \<noteq> v)"

definition first_at :: "word_t list \<Rightarrow> bool \<Rightarrow> nat \<Rightarrow> nat \<Rightarrow> bit_pos \<Rightarrow> bool" where
  "first_at a v lo hi pos \<longleftrightarrow>
     bp_offset pos < 64 \<and> lo \<le> pos_index pos \<and> pos_index pos < hi \<and>
     nth_bit a (pos_index pos) = v \<and> none_at a v lo (pos_index pos)"

definition search_result :: "word_t list \<Rightarrow> bool \<Rightarrow> nat \<Rightarrow> nat \<Rightarrow> bit_pos \<Rightarrow> bool" where
  "search_result a v lo hi pos \<longleftrightarrow> (pos = NO_BIT_POS \<and> none_at a v lo hi) \<or> first_at a v lo hi pos"

lemma none_at_append: "none_at a v lo mid \<Longrightarrow> none_at a v mid hi \<Longrightarrow> none_at a v lo hi"
  unfolding none_at_def by (metis not_less)

lemma first_at_append: "none_at a v lo mid \<Longrightarrow> lo \<le> mid \<Longrightarrow> first_at a v mid hi pos \<Longrightarrow> first_at a v lo hi pos"
  using none_at_append [of a v lo mid] by (auto simp: first_at_def)

lemma first_at_mono: "first_at a v lo mid pos \<Longrightarrow> mid \<le> hi \<Longrightarrow> first_at a v lo hi pos"
  by (auto simp: first_at_def)

lemma none_at_broadcast_word: "a ! w = bit_broadcast (\<not> v) \<Longrightarrow> none_at a v (w * 64) (Suc w * 64)"
  unfolding none_at_def
proof (intro allI impI)
  fix i assume w: "a ! w = bit_broadcast (\<not> v)" and "w * 64 \<le> i \<and> i < Suc w * 64"
  then obtain j where "j < 64" "i = w * 64 + j" using word_or_later [of w i] by auto
  then show "nth_bit a i \<noteq> v" by (simp add: nth_bit_word w bit_broadcast_bits)
qed

lemma find_word_loop_correct:
  assumes "w + todo \<le> length a"
  shows "\<exists>w'. find_word_loop todo w a (bit_broadcast (\<not> v)) = Inr w' \<and> w \<le> w' \<and> w' \<le> w + todo \<and>
           none_at a v (w * 64) (w' * 64) \<and> (w' < w + todo \<longrightarrow> a ! w' \<noteq> bit_broadcast (\<not> v))"
  using assms
proof (induction todo arbitrary: w)
  case 0
  then show ?case by (auto simp: none_at_def)
next
  case (Suc todo)
  show ?case
  proof (cases "a ! w = bit_broadcast (\<not> v)")
    case True
    from Suc.IH [of "Suc w"] Suc.prems obtain w'
      where "find_word_loop todo (Suc w) a (bit_broadcast (\<not> v)) = Inr w'" "Suc w \<le> w'"
        "w' \<le> Suc w + todo" "none_at a v (Suc w * 64) (w' * 64)"
        "w' < Suc w + todo \<longrightarrow> a ! w' \<noteq> bit_broadcast (\<not> v)" by auto
    with True Suc.prems none_at_append [OF none_at_broadcast_word [OF True]] show ?thesis by auto
  next
    case False
    with Suc.prems show ?thesis by (auto simp: none_at_def)
  qed
qed

text \<open>The first set bit of a word whose bits mark the matches among the low \<open>n\<close> bits of word \<open>w\<close>.\<close>

lemma first_match_in_word:
  assumes m: "\<And>j. bit m j \<longleftrightarrow> lo \<le> j \<and> j < n \<and> bit (a ! w) j = v" and n: "n \<le> 64"
  shows "(m = 0 \<longrightarrow> none_at a v (w * 64 + lo) (w * 64 + n)) \<and>
         (m \<noteq> 0 \<longrightarrow> (\<exists>k. count_trailing_zeros m = Inr k \<and>
            first_at a v (w * 64 + lo) (w * 64 + n) \<lparr>bp_word = w, bp_offset = k\<rparr>))"
proof -
  have none: "none_at a v (w * 64 + lo) (w * 64 + k) \<longleftrightarrow> (\<forall>j. j < k \<longrightarrow> \<not> bit m j)" if "k \<le> n" for k
  proof -
    have "none_at a v (w * 64 + lo) (w * 64 + k) \<longleftrightarrow>
        (\<forall>j. lo \<le> j \<and> j < k \<longrightarrow> nth_bit a (w * 64 + j) \<noteq> v)"
    proof
      assume r: "\<forall>j. lo \<le> j \<and> j < k \<longrightarrow> nth_bit a (w * 64 + j) \<noteq> v"
      show "none_at a v (w * 64 + lo) (w * 64 + k)"
        unfolding none_at_def
      proof (intro allI impI)
        fix i assume i: "w * 64 + lo \<le> i \<and> i < w * 64 + k"
        then obtain j where j: "i = w * 64 + j" by (metis add_leD1 le_add_diff_inverse)
        with i r show "nth_bit a i \<noteq> v" by simp
      qed
    qed (simp add: none_at_def)
    with that n m show ?thesis by (auto simp: nth_bit_word)
  qed
  have "\<exists>k. count_trailing_zeros m = Inr k \<and>
        first_at a v (w * 64 + lo) (w * 64 + n) \<lparr>bp_word = w, bp_offset = k\<rparr>" if "m \<noteq> 0"
  proof -
    obtain k where k: "count_trailing_zeros m = Inr k" "k < 64" "bit m k" "\<And>i. i < k \<Longrightarrow> \<not> bit m i"
      using count_trailing_zeros_spec [OF \<open>m \<noteq> 0\<close>] by blast
    with m [of k] none [of k] n show ?thesis
      by (auto simp: first_at_def pos_index_def nth_bit_word)
  qed
  with none [of n] show ?thesis by auto
qed

lemma bit_array_find_first_correct:
  assumes "valid_array a len"
  shows "\<exists>pos. bit_array_find_first a len v = Inr pos \<and> search_result a v 0 len pos"
proof -
  let ?n_end = "BIT_ARRAY_WORDS len" and ?q = "len div 64" and ?r = "len mod 64"
  have e: "?n_end \<le> length a" using assms by (simp add: valid_array_def)
  have len: "len = ?q * 64 + ?r" by simp
  obtain w where w: "find_word_loop ?n_end 0 a (bit_broadcast (\<not> v)) = Inr w" "w \<le> ?n_end"
      "none_at a v 0 (w * 64)" "w < ?n_end \<longrightarrow> a ! w \<noteq> bit_broadcast (\<not> v)"
    using find_word_loop_correct [of 0 ?n_end a v] e by auto
  show ?thesis
  proof (cases "w = ?n_end")
    case True
    have "len \<le> ?n_end * 64" by (rule BIT_ARRAY_WORDS_ge)
    with w(3) True have "none_at a v 0 len" by (auto simp: none_at_def)
    with True w(1) show ?thesis
      by (simp add: bit_array_find_first_def search_result_def)
  next
    case False
    with w(2) e have wl: "w < length a" by simp
    define part where "part = (w = ?q \<and> ?r \<noteq> 0)"
    define f where "f = (if \<not> v then NOT (a ! w) else a ! w)"
    define m where "m = (if part then f AND mask ?r else f)"
    define n where "n = (if part then ?r else 64)"
    have n: "n \<le> 64" "w * 64 + n \<le> len" "part \<longrightarrow> w * 64 + n = len"
      using False w(2) len by (auto simp: n_def part_def bit_array_consts split: if_splits)
    have unf: "bit_array_find_first a len v = (if part \<and> m = 0 then Inr NO_BIT_POS
        else bindR (count_trailing_zeros m) (\<lambda>offset. Inr \<lparr>bp_word = w, bp_offset = offset\<rparr>))"
      using False w(1) wl
      by (simp only: bit_array_find_first_def Let_def BITS_PER_WORD_def bindR_simps if_False
          array_read_in push_bit_of_1 low_mask_eq part_def f_def m_def)
    have f: "bit f j \<longleftrightarrow> j < 64 \<and> bit (a ! w) j = v" for j
      using bit_imp_less_length [of f j] bit_flip' [of j v "a ! w"] by (auto simp: f_def)
    have m: "bit m j \<longleftrightarrow> 0 \<le> j \<and> j < n \<and> bit (a ! w) j = v" for j
      by (auto simp: m_def n_def bit_and_low_mask f)
    note * = first_match_in_word [of m 0 n a w v, OF m n(1)]
    show ?thesis
    proof (cases "m = 0")
      case True
      with f have "part"
        using w(4) False w(2) bit_broadcast_bits [of _ "\<not> v"]
        by (cases part) (auto simp: m_def intro!: bit_word_eqI)
      then have "none_at a v 0 len"
        using * True n(3) none_at_append [OF w(3), of len] by simp
      with True \<open>part\<close> unf show ?thesis by (simp add: search_result_def)
    next
      case False
      with * obtain k where k: "count_trailing_zeros m = Inr k"
        "first_at a v (w * 64) (w * 64 + n) \<lparr>bp_word = w, bp_offset = k\<rparr>" by auto
      then have "first_at a v 0 len \<lparr>bp_word = w, bp_offset = k\<rparr>"
        using first_at_append [OF w(3)] first_at_mono n(2) by blast
      with False k(1) unf show ?thesis by (simp add: search_result_def)
    qed
  qed
qed

lemma find_next_in_word_correct:
  assumes "valid_array a len" and "valid_pos len p"
  shows "\<exists>r. find_next_in_word a len p v = Inr r \<and>
           (case r of None \<Rightarrow> none_at a v (pos_index p + 1) (min len (Suc (bp_word p) * 64))
                    | Some q \<Rightarrow> first_at a v (pos_index p + 1) (min len (Suc (bp_word p) * 64)) q)"
proof -
  let ?w = "bp_word p" and ?o = "bp_offset p" and ?q = "len div 64" and ?r = "len mod 64"
  have wl: "?w < length a" and il: "pos_index p < len" using valid_pos_index [OF assms] by auto
  have o: "?o < 64" using assms(2) by (simp add: valid_pos_def)
  have pi: "pos_index p = ?w * 64 + ?o" by (simp add: pos_index_def)
  have len: "len = ?q * 64 + ?r" by simp
  have wq: "?w \<le> ?q" using il pos_index_div_mod [OF o] by (metis div_le_mono less_imp_le_nat)
  define inc where "inc = (?w = ?q)"
  define n where "n = (if inc then ?r else 64)"
  have hi: "min len (Suc ?w * 64) = ?w * 64 + n"
  proof (cases inc)
    case True
    then show ?thesis using len mod_less_divisor [of 64 len] by (simp add: n_def inc_def min_def)
  next
    case False
    then have "Suc ?w \<le> ?q" using wq by (simp add: inc_def)
    then have "Suc ?w * 64 \<le> ?q * 64" by (rule mult_le_mono1)
    then have "Suc ?w * 64 \<le> len" using div_times_less_eq_dividend [of len 64] by linarith
    then show ?thesis using False by (simp add: n_def min_def)
  qed
  have n: "n \<le> 64" "?o < n" using hi il pi o by (auto simp: n_def min_def split: if_splits)
  have sw: "size_wrap (n + 2 ^ 64 - 1) = n - 1"
  proof -
    have "n + 2 ^ 64 - 1 = (n - 1) + 2 ^ 64" using n by simp
    then show ?thesis using n by (simp only: size_wrap_def mod_add_self2) simp
  qed
  define f where "f = (if \<not> v then NOT (a ! ?w) else a ! ?w)"
  define m2 where "m2 = (if inc then f AND mask ?r else f)"
  define m3 where "m3 = drop_bit (?o + 1) m2"
  have f: "bit f j \<longleftrightarrow> j < 64 \<and> bit (a ! ?w) j = v" for j
    using bit_imp_less_length [of f j] bit_flip' [of j v "a ! ?w"] by (auto simp: f_def)
  have m2: "bit m2 j \<longleftrightarrow> j < n \<and> bit (a ! ?w) j = v" for j
    using n(1) by (auto simp: m2_def n_def bit_and_low_mask f)
  show ?thesis
  proof (cases "?o = n - 1")
    case True
    then have "find_next_in_word a len p v = Inr None"
      by (simp only: find_next_in_word_def Let_def BITS_PER_WORD_def inc_def [symmetric] n_def [symmetric] sw
          if_False simp_thms)
    moreover have "none_at a v (pos_index p + 1) (?w * 64 + n)"
      using True n pi by (auto simp: none_at_def)
    ultimately show ?thesis using hi by simp
  next
    case False
    then have drop: "\<not> 64 \<le> ?o + 1" using n by simp
    have unf: "find_next_in_word a len p v =
        (if m3 \<noteq> 0 then bindR (count_trailing_zeros m3)
           (\<lambda>e. Inr (Some \<lparr>bp_word = ?w, bp_offset = ?o + 1 + e\<rparr>)) else Inr None)"
      using False
      by (simp only: find_next_in_word_def Let_def BITS_PER_WORD_def inc_def [symmetric] n_def [symmetric] sw
          if_True simp_thms array_read_in [OF wl] bindR_simps push_bit_of_1 low_mask_eq drop if_False
          f_def [symmetric] m2_def [symmetric] m3_def [symmetric])
    have m3: "bit m3 j \<longleftrightarrow> ?o + 1 + j < n \<and> bit (a ! ?w) (?o + 1 + j) = v" for j
      by (simp add: m3_def bit_drop_bit_eq m2)
    have nth: "nth_bit a (pos_index p + 1 + j) = v \<longleftrightarrow> bit m3 j" if "?o + 1 + j < n" for j
      using nth_bit_word [of "?o + 1 + j" a ?w] that n(1) m3 [of j] pi by (simp add: add.assoc)
    have none: "none_at a v (pos_index p + 1) (pos_index p + 1 + k)" if "\<forall>j < k. \<not> bit m3 j" "?o + 1 + k \<le> n" for k
      unfolding none_at_def
    proof (intro allI impI)
      fix i assume i: "pos_index p + 1 \<le> i \<and> i < pos_index p + 1 + k"
      then obtain j where j: "i = pos_index p + 1 + j" using le_Suc_ex by blast
      with i that nth [of j] show "nth_bit a i \<noteq> v" by simp
    qed
    show ?thesis
    proof (cases "m3 = 0")
      case True
      have "pos_index p + 1 + (n - (?o + 1)) = ?w * 64 + n" using n pi by simp
      with none [of "n - (?o + 1)"] True n(2) have "none_at a v (pos_index p + 1) (?w * 64 + n)" by simp
      with True unf hi show ?thesis by simp
    next
      case nz: False
      obtain k where k: "count_trailing_zeros m3 = Inr k" "bit m3 k" "\<And>i. i < k \<Longrightarrow> \<not> bit m3 i"
        using count_trailing_zeros_spec [OF nz] by blast
      let ?p = "\<lparr>bp_word = ?w, bp_offset = ?o + 1 + k\<rparr>"
      have kn: "?o + 1 + k < n" using k(2) m3 by simp
      have "pos_index ?p = pos_index p + 1 + k" by (simp add: pos_index_def)
      with kn n(1) nth [OF kn] k none [of k] pi have "first_at a v (pos_index p + 1) (?w * 64 + n) ?p"
        by (simp add: first_at_def)
      with nz unf k(1) hi show ?thesis by simp
    qed
  qed
qed

lemma nth_bit_drop: "n \<le> length a \<Longrightarrow> nth_bit (drop n a) i = nth_bit a (n * 64 + i)"
  by (simp add: nth_bit_def)

lemma search_result_drop:
  assumes "search_result (drop n a) v 0 (len - n * 64) pos" "n * 64 \<le> len" "n \<le> length a"
    and "len < SIZE_MAX"
  shows "if bp_word pos \<noteq> SIZE_MAX then first_at a v (n * 64) len (pos\<lparr>bp_word := bp_word pos + n\<rparr>)
         else none_at a v (n * 64) len"
proof -
  have none: "none_at (drop n a) v 0 k \<longleftrightarrow> none_at a v (n * 64) (n * 64 + k)" for k
    using assms(3) by (auto simp: none_at_def nth_bit_drop le_iff_add)
  from assms(1) consider "pos = NO_BIT_POS" "none_at (drop n a) v 0 (len - n * 64)"
    | "first_at (drop n a) v 0 (len - n * 64) pos" by (auto simp: search_result_def)
  then show ?thesis
  proof cases
    case 1
    with none [of "len - n * 64"] assms(2) show ?thesis by (simp add: NO_BIT_POS_def)
  next
    case 2
    let ?p = "pos\<lparr>bp_word := bp_word pos + n\<rparr>"
    have p: "pos_index ?p = n * 64 + pos_index pos" by (simp add: pos_index_def)
    from 2 have "bp_word pos < SIZE_MAX"
      using assms(4) by (auto simp: first_at_def pos_index_def)
    moreover have "first_at a v (n * 64) len ?p"
      using 2 none [of "pos_index pos"] assms(3)
      unfolding first_at_def p by (simp add: nth_bit_drop less_diff_conv add.commute)
    ultimately show ?thesis by simp
  qed
qed

text \<open>What \<open>bit_array_find_next\<close> returns, with and without wraparound.\<close>

definition next_result :: "word_t list \<Rightarrow> bool \<Rightarrow> nat \<Rightarrow> nat \<Rightarrow> bool \<Rightarrow> bit_pos \<Rightarrow> bool" where
  "next_result a v i len wraparound pos \<longleftrightarrow>
     first_at a v (i + 1) len pos \<or>
     (none_at a v (i + 1) len \<and>
      (if wraparound then search_result a v 0 (i + 1) pos else pos = NO_BIT_POS))"

lemma bit_array_find_next_correct:
  assumes "valid_array a len" and "valid_pos len p"
  shows "\<exists>pos. bit_array_find_next a len p wrap v = Inr pos \<and> next_result a v (pos_index p) len wrap pos"
proof -
  let ?w = "bp_word p" and ?i = "pos_index p"
  have idx: "bit_pos_to_index p = Inr ?i" "?i < len" "?w < length a" using valid_pos_index [OF assms] by auto
  have o: "bp_offset p < 64" using assms(2) by (simp add: valid_pos_def)
  have i: "?w * 64 \<le> ?i" "?i < Suc ?w * 64" using o by (simp_all add: pos_index_def)
  have wrap: "\<exists>pos. bit_array_find_first a (?i + 1) v = Inr pos \<and> search_result a v 0 (?i + 1) pos"
  proof (rule bit_array_find_first_correct)
    have "BIT_ARRAY_WORDS (?i + 1) \<le> BIT_ARRAY_WORDS len"
      by (rule BIT_ARRAY_WORDS_mono) (use idx(2) in simp)
    then show "valid_array a (?i + 1)" using assms(1) idx(2) by (simp add: valid_array_def)
  qed
  obtain r where r: "find_next_in_word a len p v = Inr r"
    and rc: "case r of None \<Rightarrow> none_at a v (?i + 1) (min len (Suc ?w * 64))
                    | Some q \<Rightarrow> first_at a v (?i + 1) (min len (Suc ?w * 64)) q"
    using find_next_in_word_correct [OF assms] by blast
  show ?thesis
  proof (cases r)
    case (Some q)
    with rc have "first_at a v (?i + 1) len q" using first_at_mono by fastforce
    with Some r idx show ?thesis by (simp add: bit_array_find_next_def next_result_def)
  next
    case None
    with rc have none: "none_at a v (?i + 1) (min len (Suc ?w * 64))" by simp
    define rest where "rest = (if ?w \<noteq> BIT_ARRAY_WORDS len - 1
        then bit_array_find_first (drop (?w + 1) a) (len - (?w + 1) * BITS_PER_WORD) v else Inr NO_BIT_POS)"
    have unf: "bit_array_find_next a len p wrap v = bindR rest (\<lambda>pos.
        if bp_word pos \<noteq> SIZE_MAX then Inr (pos\<lparr>bp_word := bp_word pos + (?w + 1)\<rparr>)
        else if \<not> wrap then Inr NO_BIT_POS else bit_array_find_first a (?i + 1) v)"
      by (simp only: bit_array_find_next_def rest_def Let_def r None idx bindR_simps assert_that_simps
          option.case)
    have "\<exists>pos. rest = Inr pos \<and>
        (if bp_word pos \<noteq> SIZE_MAX then first_at a v (?i + 1) len (pos\<lparr>bp_word := bp_word pos + (?w + 1)\<rparr>)
         else none_at a v (?i + 1) len)"
    proof (cases "?w = BIT_ARRAY_WORDS len - 1")
      case True
      then have "Suc ?w = BIT_ARRAY_WORDS len"
        using BIT_ARRAY_WORDS_gt [OF idx(2)] pos_index_div_mod [OF o] by simp
      then have "min len (Suc ?w * 64) = len" using BIT_ARRAY_WORDS_ge [of len] by (simp add: min_def)
      with none True show ?thesis by (simp add: rest_def NO_BIT_POS_def)
    next
      case False
      then have "Suc ?w < BIT_ARRAY_WORDS len"
        using BIT_ARRAY_WORDS_gt [OF idx(2)] pos_index_div_mod [OF o] by simp
      then have sl: "Suc ?w * 64 \<le> len" by (auto simp: bit_array_consts split: if_splits)
      have "BIT_ARRAY_WORDS (len - Suc ?w * 64) \<le> length (drop (Suc ?w) a)"
        using assms(1) sl by (auto simp: valid_array_def bit_array_consts split: if_splits)
      then have "valid_array (drop (Suc ?w) a) (len - Suc ?w * 64)"
        using assms(1) by (auto simp: valid_array_def)
      from bit_array_find_first_correct [OF this, of v] obtain pos where
        pos: "bit_array_find_first (drop (Suc ?w) a) (len - Suc ?w * 64) v = Inr pos"
          "search_result (drop (Suc ?w) a) v 0 (len - Suc ?w * 64) pos" by blast
      have "none_at a v (?i + 1) (Suc ?w * 64)" using none sl by (simp add: min_def split: if_splits)
      moreover have "?i + 1 \<le> Suc ?w * 64" using i(2) by simp
      moreover have "len < SIZE_MAX" using assms(1) by (simp add: valid_array_def)
      note search_result_drop [OF pos(2) sl _ this]
      ultimately show ?thesis
        using pos(1) False idx(3) first_at_append none_at_append
        by (auto simp: rest_def BITS_PER_WORD_def split: if_splits)
    qed
    then show ?thesis
      using unf wrap by (auto simp: next_result_def split: if_splits)
  qed
qed

lemma start_bound:
  "bp_word b * 64 \<le> i \<and> pos_index b \<le> i \<and> X \<longleftrightarrow> pos_index b \<le> i \<and> X"
  by (auto simp: pos_index_def)

lemma first_at_Least:
  assumes "first_at a v lo hi pos"
  shows "(LEAST k. lo \<le> k \<and> k < hi \<and> nth_bit a k = v) = pos_index pos"
proof (rule Least_equality)
  fix k assume "lo \<le> k \<and> k < hi \<and> nth_bit a k = v"
  with assms show "pos_index pos \<le> k" by (auto simp: first_at_def none_at_def intro: leI)
qed (use assms in \<open>simp add: first_at_def\<close>)

section \<open>The bit array as a store of booleans\<close>

text \<open>
  What a client of a store of booleans relies on: reads return the contents, a write changes the
  contents at one position only and keeps the store valid.
\<close>

locale bool_store =
  fixes lookup :: "'s \<Rightarrow> 'p \<Rightarrow> bool res"
    and assign :: "'s \<Rightarrow> 'p \<Rightarrow> bool \<Rightarrow> 's res"
    and contents :: "'s \<Rightarrow> 'p \<Rightarrow> bool"
    and valid :: "'s \<Rightarrow> bool"
    and addressable :: "'p \<Rightarrow> bool"
  assumes lookup_contents: "valid s \<Longrightarrow> addressable p \<Longrightarrow> lookup s p = Inr (contents s p)"
    and assign_contents: "valid s \<Longrightarrow> addressable p \<Longrightarrow>
      \<exists>s'. assign s p v = Inr s' \<and> valid s' \<and>
        (\<forall>q. addressable q \<longrightarrow> contents s' q = (if q = p then v else contents s q))"
begin

lemma assign_then_lookup:
  assumes "valid s" "addressable p" "addressable q"
  shows "bindR (assign s p v) (\<lambda>s'. lookup s' q) = (if q = p then Inr v else lookup s q)"
proof -
  from assign_contents [OF assms(1,2), of v] obtain s' where
    "assign s p v = Inr s'" "valid s'" "contents s' q = (if q = p then v else contents s q)"
    using assms(3) by blast
  with assms lookup_contents show ?thesis by simp
qed

lemma assign_twice_lookup:
  assumes "valid s" "addressable p" "addressable q" "addressable r"
  shows "bindR (bindR (assign s p v) (\<lambda>s'. assign s' q u)) (\<lambda>s''. lookup s'' r) =
    (if r = q then Inr u else if r = p then Inr v else lookup s r)"
proof -
  from assign_contents [OF assms(1,2), of v] obtain s' where
    "assign s p v = Inr s'" "valid s'" "contents s' r = (if r = p then v else contents s r)"
    using assms(4) by blast
  with assms assign_then_lookup [of s' q r u] lookup_contents show ?thesis by simp
qed

end

interpretation bit_store:
  bool_store "\<lambda>a. bit_array_get a len" "\<lambda>a. bit_array_set a len" "\<lambda>a b. nth_bit a (pos_index b)"
    "\<lambda>a. valid_array a len" "valid_pos len" for len
proof
  fix a :: "word_t list" and p v
  assume a: "valid_array a len" and p: "valid_pos len p"
  show "bit_array_get a len p = Inr (nth_bit a (pos_index p))"
    by (rule bit_array_get_correct [OF a p])
  obtain a' where a': "bit_array_set a len p v = Inr a'" "length a' = length a"
    "\<forall>i. nth_bit a' i = (if i = pos_index p then v else nth_bit a i)"
    using bit_array_set_correct [OF a p] by blast
  have "pos_index q = pos_index p \<longleftrightarrow> q = p" if "valid_pos len q" for q
    using that p pos_index_div_mod [of q] pos_index_div_mod [of p] by (auto simp: valid_pos_def)
  with a a' show "\<exists>s'. bit_array_set a len p v = Inr s' \<and> valid_array s' len \<and>
      (\<forall>q. valid_pos len q \<longrightarrow> nth_bit s' (pos_index q) = (if q = p then v else nth_bit a (pos_index q)))"
    by (auto simp: valid_array_def)
qed

section \<open>Properties\<close>

text \<open>A read after two writes of single bits returns the last value written to that position,
  or the original bit where neither write went: \<open>bit_array_set\<close> changes exactly one bit.\<close>

theorem bit_array_get_set:
  assumes "valid_array a len" and "valid_pos len p" and "valid_pos len q" and "valid_pos len r"
  shows "bindR (bindR (bit_array_set a len p v) (\<lambda>a'. bit_array_set a' len q u))
            (\<lambda>a''. bit_array_get a'' len r) =
         (if r = q then Inr u else if r = p then Inr v else bit_array_get a len r)"
  by (rule bit_store.assign_twice_lookup [OF assms])

theorem bit_array_get_set_witness:
  "bindR (bindR (bit_array_set [5, 0] 70 \<lparr>bp_word = 1, bp_offset = 3\<rparr> True)
      (\<lambda>a'. bit_array_set a' 70 \<lparr>bp_word = 0, bp_offset = 0\<rparr> False))
      (\<lambda>a''. bit_array_get a'' 70 \<lparr>bp_word = 1, bp_offset = 3\<rparr>) = Inr True"
  using bit_array_get_set [of "[5, 0]" 70 "\<lparr>bp_word = 1, bp_offset = 3\<rparr>"
      "\<lparr>bp_word = 0, bp_offset = 0\<rparr>" "\<lparr>bp_word = 1, bp_offset = 3\<rparr>" True False]
  by (simp add: valid_array_def valid_pos_def pos_index_def bit_array_consts SIZE_MAX_def)

text \<open>\<open>bit_array_count\<close> returns the number of positions below the length that hold the
  value, whatever the padding bits of the last word are.\<close>

theorem bit_array_count_exact:
  assumes "valid_array a len"
  shows "bit_array_count a len v = Inr (card {i. i < len \<and> bit (a ! (i div 64)) (i mod 64) = v})"
  using bit_array_count_correct [OF assms, of v] by (simp add: count_bits_def nth_bit_def)

theorem bit_array_count_exact_witness:
  "bit_array_count [5, 1] 66 True = Inr (card {i. i < 66 \<and> bit ([5, 1 :: word_t] ! (i div 64)) (i mod 64) = True})"
  by (rule bit_array_count_exact) (simp add: valid_array_def bit_array_consts SIZE_MAX_def)

lemma bit_array_range_alleq_correct:
  assumes "valid_array a len" and "valid_pos len start \<or> start = stop"
    and "bp_offset stop < 64" and "pos_index stop \<le> len"
  shows "bit_array_range_alleq a len start stop v =
           Inr (\<forall>i. pos_index start \<le> i \<and> i < pos_index stop \<longrightarrow> nth_bit a i = v)"
proof -
  have o: "bp_offset start < 64" and s: "pos_index start \<le> len"
    using assms(2-4) by (auto simp: valid_pos_def)
  have m: "len < SIZE_MAX" using assms(1) by (simp add: valid_array_def)
  have "bit_pos_to_index start = Inr (pos_index start)" "bit_pos_to_index stop = Inr (pos_index stop)"
    using o s m assms(3,4) by (simp_all add: bit_pos_to_index_ok)
  moreover have "pos_index start < len \<or> bp_word start = bp_word stop \<and> bp_offset start = bp_offset stop"
    using assms(2) by (auto simp: valid_pos_def)
  ultimately show ?thesis
    using range_alleq_loop_correct [OF assms(1,4) o assms(3) order_refl refl, of v] assms(4)
    by (simp only: bit_array_range_alleq_def bindR_simps assert_that_simps start_bound simp_thms)
qed

text \<open>\<open>bit_array_range_alleq\<close> decides whether every bit from \<open>start\<close> (included) to \<open>stop\<close>
  (excluded) holds the value.\<close>

theorem bit_array_range_alleq_exact:
  assumes "valid_array a len" and "valid_pos len start \<or> start = stop"
    and "bp_offset stop < 64" and "pos_index stop \<le> len"
  shows "bit_array_range_alleq a len start stop v =
           Inr (\<forall>i. pos_index start \<le> i \<and> i < pos_index stop \<longrightarrow> nth_bit a i = v)"
  using assms by (rule bit_array_range_alleq_correct)

theorem bit_array_range_alleq_exact_witness:
  "bit_array_range_alleq [7, 0] 70 \<lparr>bp_word = 0, bp_offset = 3\<rparr> \<lparr>bp_word = 1, bp_offset = 6\<rparr> False =
     Inr (\<forall>i. 3 \<le> i \<and> i < 70 \<longrightarrow> nth_bit [7, 0] i = False)"
  using bit_array_range_alleq_exact [of "[7, 0]" 70 "\<lparr>bp_word = 0, bp_offset = 3\<rparr>" "\<lparr>bp_word = 1, bp_offset = 6\<rparr>" False]
  by (simp add: valid_array_def valid_pos_def pos_index_def bit_array_consts SIZE_MAX_def)

lemma bit_array_range_set_correct:
  assumes "valid_array a len" and "valid_pos len start \<or> start = stop"
    and "bp_offset stop < 64" and "pos_index stop \<le> len"
  shows "\<exists>a'. bit_array_range_set a len start stop v = Inr a' \<and> length a' = length a \<and>
           (\<forall>i. nth_bit a' i = (if pos_index start \<le> i \<and> i < pos_index stop then v else nth_bit a i))"
proof -
  have o: "bp_offset start < 64" and s: "pos_index start \<le> len"
    using assms(2-4) by (auto simp: valid_pos_def)
  have m: "len < SIZE_MAX" using assms(1) by (simp add: valid_array_def)
  have "bit_pos_to_index start = Inr (pos_index start)" "bit_pos_to_index stop = Inr (pos_index stop)"
    using o s m assms(3,4) by (simp_all add: bit_pos_to_index_ok)
  moreover have "pos_index start < len \<or> bp_word start = bp_word stop \<and> bp_offset start = bp_offset stop"
    using assms(2) by (auto simp: valid_pos_def)
  ultimately show ?thesis
    using range_set_loop_correct [OF assms(1,4) o assms(3) order_refl refl, of v] assms(4)
    by (simp only: bit_array_range_set_def bindR_simps assert_that_simps start_bound simp_thms)
qed

text \<open>\<open>bit_array_range_set\<close> never shifts out of range, sets every bit from \<open>start\<close> to \<open>stop\<close>
  to the value and leaves every other bit, padding included, unchanged.\<close>

theorem bit_array_range_set_exact:
  assumes "valid_array a len" and "valid_pos len start \<or> start = stop"
    and "bp_offset stop < 64" and "pos_index stop \<le> len"
  shows "\<exists>a'. bit_array_range_set a len start stop v = Inr a' \<and> length a' = length a \<and>
           (\<forall>i. nth_bit a' i = (if pos_index start \<le> i \<and> i < pos_index stop then v else nth_bit a i))"
  using assms by (rule bit_array_range_set_correct)

theorem bit_array_range_set_exact_witness:
  "\<exists>a'. bit_array_range_set [7, 0] 70 \<lparr>bp_word = 0, bp_offset = 60\<rparr> \<lparr>bp_word = 1, bp_offset = 2\<rparr> True = Inr a' \<and>
     length a' = length [7, 0 :: word_t] \<and>
     (\<forall>i. nth_bit a' i = (if 60 \<le> i \<and> i < 66 then True else nth_bit [7, 0] i))"
  using bit_array_range_set_exact [of "[7, 0]" 70 "\<lparr>bp_word = 0, bp_offset = 60\<rparr>" "\<lparr>bp_word = 1, bp_offset = 2\<rparr>" True]
  by (simp add: valid_array_def valid_pos_def pos_index_def bit_array_consts SIZE_MAX_def)

text \<open>C31. \<open>bit_array_find_next\<close> returns the first position after \<open>previous\<close> that holds the value;
  if there is none it returns \<open>NO_BIT_POS\<close>, or with wraparound the first such position from the
  start of the array up to and including \<open>previous\<close>, if any.  Padding bits are never reported.\<close>

theorem bit_array_find_next_exact:
  assumes "valid_array a len" and "valid_pos len previous"
  shows "\<exists>pos. bit_array_find_next a len previous wraparound v = Inr pos \<and>
    (let i = pos_index previous; holds = (\<lambda>k. k < len \<and> nth_bit a k = v) in
     if \<exists>k > i. holds k then bp_offset pos < 64 \<and> pos_index pos = (LEAST k. i < k \<and> holds k)
     else if wraparound \<and> (\<exists>k. holds k) then bp_offset pos < 64 \<and> pos_index pos = (LEAST k. holds k)
     else pos = NO_BIT_POS)"
proof -
  let ?i = "pos_index previous" and ?h = "\<lambda>k. k < len \<and> nth_bit a k = v"
  have il: "?i < len" using assms(2) by (simp add: valid_pos_def)
  obtain pos where pos: "bit_array_find_next a len previous wraparound v = Inr pos"
    "next_result a v ?i len wraparound pos" using bit_array_find_next_correct [OF assms] by blast
  from pos(2) consider (after) "first_at a v (?i + 1) len pos"
    | (wrapped) "none_at a v (?i + 1) len" "wraparound" "first_at a v 0 (?i + 1) pos"
    | (absent) "none_at a v (?i + 1) len" "pos = NO_BIT_POS" "wraparound \<longrightarrow> none_at a v 0 (?i + 1)"
    unfolding next_result_def search_result_def by (auto split: if_splits)
  then show ?thesis
  proof cases
    case after
    then have "(LEAST k. ?i < k \<and> ?h k) = pos_index pos"
      using first_at_Least [OF after] by (simp add: Suc_le_eq)
    moreover have "?i < pos_index pos \<and> ?h (pos_index pos)" and "bp_offset pos < 64"
      using after by (simp_all add: first_at_def)
    moreover from this(1) have "\<exists>k > ?i. ?h k" by blast
    ultimately show ?thesis
      by (intro exI [of _ pos] conjI pos(1)) (simp only: Let_def if_True simp_thms)
  next
    case wrapped
    then have "(LEAST k. ?h k) = pos_index pos"
      using il first_at_Least [OF first_at_mono [OF wrapped(3)], of len] by simp
    moreover have "(\<exists>k > ?i. ?h k) = False" using wrapped(1) by (auto simp: none_at_def)
    moreover have "?h (pos_index pos)" and "bp_offset pos < 64" using wrapped(3) il by (simp_all add: first_at_def)
    moreover from this(1) have "\<exists>k. ?h k" by blast
    ultimately show ?thesis using wrapped(2)
      by (intro exI [of _ pos] conjI pos(1)) (simp only: Let_def if_True if_False simp_thms)
  next
    case absent
    have "(\<exists>k > ?i. ?h k) = False" using absent(1) by (auto simp: none_at_def)
    moreover have "(wraparound \<and> (\<exists>k. ?h k)) = False"
      using absent(1,3)
      by (auto simp: none_at_def less_Suc_eq_le Suc_le_eq) (meson linorder_not_le)+
    ultimately show ?thesis using absent(2)
      by (intro exI [of _ pos] conjI pos(1)) (simp only: Let_def if_False simp_thms)
  qed
qed

theorem bit_array_find_next_exact_witness:
  "\<exists>pos. bit_array_find_next [8, 2] 70 \<lparr>bp_word = 0, bp_offset = 3\<rparr> False True = Inr pos \<and>
    (let i = 3; holds = (\<lambda>k. k < 70 \<and> nth_bit [8, 2] k = True) in
     if \<exists>k > i. holds k then bp_offset pos < 64 \<and> pos_index pos = (LEAST k. i < k \<and> holds k)
     else if False \<and> (\<exists>k. holds k) then bp_offset pos < 64 \<and> pos_index pos = (LEAST k. holds k)
     else pos = NO_BIT_POS)"
  using bit_array_find_next_exact [of "[8, 2]" 70 "\<lparr>bp_word = 0, bp_offset = 3\<rparr>" False True]
  by (simp add: valid_array_def valid_pos_def pos_index_def bit_array_consts SIZE_MAX_def)

end
