(* ===== verification/FutureStatus.thy ===== *)
theory FutureStatus
  imports Prelude
begin

text \<open>
  The status word of a future: future/type.h, future/state.h, future/outcome.h, future/status.h
  and the checks and local updates of future/status_ops.[ch].

  The enumerations are stored in bitfields of 4, 3 and 3 bits.  Their datatypes have one
  constructor for every value the bitfield can hold: the enumerators of the source, \<open>NUM_TYPES\<close>,
  \<open>NUM_STATES\<close>, \<open>NUM_OUTCOMES\<close> included, and the values above them, which every \<open>switch\<close> of the
  source sends to its \<open>default\<close> branch.  \<open>as_word\<close> and \<open>as_bitfield\<close> are the two views of
  \<open>union future_status_word_u\<close> under the little-endian bitfield layout that status.h relies on.
\<close>

section \<open>Enumerations\<close>

datatype future_type =
    TYPE_INVALID | TYPE_NETWORK_CONNECT | TYPE_NETWORK_DISCONNECT | TYPE_NETWORK_SEND
  | TYPE_NETWORK_RECV | TYPE_CUSTOM | TYPE_JOIN | TYPE_UNORDERED | TYPE_TIMER_ONCE
  | TYPE_TIMER_REPEAT | NUM_TYPES | TYPE_11 | TYPE_12 | TYPE_13 | TYPE_14 | TYPE_15

datatype future_state =
    STATE_UNINITIALIZED | STATE_WAITING | STATE_PROCESSING | STATE_CANCELING | STATE_RESULT
  | NUM_STATES | STATE_6 | STATE_7

datatype future_outcome =
    OUTCOME_UNKNOWN | OUTCOME_SUCCESS | OUTCOME_FAILURE_DEPENDENCY | OUTCOME_FAILURE_INTERNAL
  | OUTCOME_FAILURE_CANCELED | NUM_OUTCOMES | OUTCOME_6 | OUTCOME_7

fun future_type_has_dependencies :: "future_type \<Rightarrow> bool res" where
  "future_type_has_dependencies TYPE_INVALID = Inr False"
| "future_type_has_dependencies TYPE_CUSTOM = Inr False"
| "future_type_has_dependencies TYPE_TIMER_ONCE = Inr False"
| "future_type_has_dependencies TYPE_TIMER_REPEAT = Inr False"
| "future_type_has_dependencies TYPE_NETWORK_CONNECT = Inr True"
| "future_type_has_dependencies TYPE_NETWORK_DISCONNECT = Inr True"
| "future_type_has_dependencies TYPE_NETWORK_SEND = Inr True"
| "future_type_has_dependencies TYPE_NETWORK_RECV = Inr True"
| "future_type_has_dependencies TYPE_JOIN = Inr True"
| "future_type_has_dependencies TYPE_UNORDERED = Inr True"
| "future_type_has_dependencies _ = Inl ExitError"

fun future_type_has_processing :: "future_type \<Rightarrow> bool res" where
  "future_type_has_processing TYPE_NETWORK_CONNECT = Inr True"
| "future_type_has_processing TYPE_NETWORK_DISCONNECT = Inr True"
| "future_type_has_processing TYPE_NETWORK_SEND = Inr True"
| "future_type_has_processing TYPE_NETWORK_RECV = Inr True"
| "future_type_has_processing TYPE_CUSTOM = Inr True"
| "future_type_has_processing TYPE_TIMER_ONCE = Inr True"
| "future_type_has_processing TYPE_TIMER_REPEAT = Inr True"
| "future_type_has_processing TYPE_INVALID = Inr False"
| "future_type_has_processing TYPE_JOIN = Inr False"
| "future_type_has_processing TYPE_UNORDERED = Inr False"
| "future_type_has_processing _ = Inl ExitError"

fun future_type_uses_lazy_lock :: "future_type \<Rightarrow> bool res" where
  "future_type_uses_lazy_lock TYPE_INVALID = Inr False"
| "future_type_uses_lazy_lock TYPE_NETWORK_CONNECT = Inr False"
| "future_type_uses_lazy_lock TYPE_NETWORK_DISCONNECT = Inr False"
| "future_type_uses_lazy_lock TYPE_NETWORK_SEND = Inr False"
| "future_type_uses_lazy_lock TYPE_NETWORK_RECV = Inr False"
| "future_type_uses_lazy_lock TYPE_CUSTOM = Inr False"
| "future_type_uses_lazy_lock TYPE_TIMER_ONCE = Inr False"
| "future_type_uses_lazy_lock TYPE_JOIN = Inr True"
| "future_type_uses_lazy_lock TYPE_UNORDERED = Inr True"
| "future_type_uses_lazy_lock TYPE_TIMER_REPEAT = Inr True"
| "future_type_uses_lazy_lock _ = Inl ExitError"

fun future_type_uses_worker_thread :: "future_type \<Rightarrow> bool res" where
  "future_type_uses_worker_thread TYPE_NETWORK_CONNECT = Inr True"
| "future_type_uses_worker_thread TYPE_NETWORK_DISCONNECT = Inr True"
| "future_type_uses_worker_thread TYPE_NETWORK_SEND = Inr True"
| "future_type_uses_worker_thread TYPE_NETWORK_RECV = Inr True"
| "future_type_uses_worker_thread TYPE_CUSTOM = Inr True"
| "future_type_uses_worker_thread TYPE_JOIN = Inr False"
| "future_type_uses_worker_thread TYPE_UNORDERED = Inr False"
| "future_type_uses_worker_thread TYPE_TIMER_REPEAT = Inr False"
| "future_type_uses_worker_thread TYPE_INVALID = Inr False"
| "future_type_uses_worker_thread TYPE_TIMER_ONCE = Inr False"
| "future_type_uses_worker_thread _ = Inl ExitError"

section \<open>The status bitfield\<close>

definition MAX_DOWNSTREAM_COUNT :: u16 where
  "MAX_DOWNSTREAM_COUNT = 0xFFFF"

record future_status =
  downstream_count :: u16
  downstream_count_overflow :: bool
  available :: bool
  fstate :: future_state
  foutcome :: future_outcome
  ftype :: future_type
  notify_address :: bool
  notify_event_or_lazy_lock :: bool
  reserved :: "2 word"

text \<open>Numbers of the enumerators, in declaration order, and the enumerators in that order.\<close>

definition TYPES :: "future_type list" where
  "TYPES = [TYPE_INVALID, TYPE_NETWORK_CONNECT, TYPE_NETWORK_DISCONNECT, TYPE_NETWORK_SEND,
    TYPE_NETWORK_RECV, TYPE_CUSTOM, TYPE_JOIN, TYPE_UNORDERED, TYPE_TIMER_ONCE, TYPE_TIMER_REPEAT,
    NUM_TYPES, TYPE_11, TYPE_12, TYPE_13, TYPE_14, TYPE_15]"

definition STATES :: "future_state list" where
  "STATES = [STATE_UNINITIALIZED, STATE_WAITING, STATE_PROCESSING, STATE_CANCELING, STATE_RESULT,
    NUM_STATES, STATE_6, STATE_7]"

definition OUTCOMES :: "future_outcome list" where
  "OUTCOMES = [OUTCOME_UNKNOWN, OUTCOME_SUCCESS, OUTCOME_FAILURE_DEPENDENCY,
    OUTCOME_FAILURE_INTERNAL, OUTCOME_FAILURE_CANCELED, NUM_OUTCOMES, OUTCOME_6, OUTCOME_7]"

fun position :: "'a \<Rightarrow> 'a list \<Rightarrow> nat" where
  "position x [] = 0"
| "position x (y # ys) = (if x = y then 0 else Suc (position x ys))"

definition type_code :: "future_type \<Rightarrow> nat" where
  "type_code t = position t TYPES"

definition state_code :: "future_state \<Rightarrow> nat" where
  "state_code s = position s STATES"

definition outcome_code :: "future_outcome \<Rightarrow> nat" where
  "outcome_code x = position x OUTCOMES"

definition as_word :: "future_status \<Rightarrow> u32" where
  "as_word st = of_nat (unat (downstream_count st) + 2 ^ 16 *
     (of_bool (downstream_count_overflow st) + 2 *
     (of_bool (available st) + 2 *
     (state_code (fstate st) + 8 *
     (outcome_code (foutcome st) + 8 *
     (type_code (ftype st) + 16 *
     (of_bool (notify_address st) + 2 *
     (of_bool (notify_event_or_lazy_lock st) + 2 * unat (reserved st)))))))))"

definition as_bitfield :: "u32 \<Rightarrow> future_status" where
  "as_bitfield w = (let n = unat w in
    \<lparr>downstream_count = of_nat (n mod 2 ^ 16),
     downstream_count_overflow = odd (n div 2 ^ 16),
     available = odd (n div 2 ^ 17),
     fstate = STATES ! (n div 2 ^ 18 mod 8),
     foutcome = OUTCOMES ! (n div 2 ^ 21 mod 8),
     ftype = TYPES ! (n div 2 ^ 24 mod 16),
     notify_address = odd (n div 2 ^ 28),
     notify_event_or_lazy_lock = odd (n div 2 ^ 29),
     reserved = of_nat (n div 2 ^ 30 mod 4)\<rparr>)"

section \<open>Consistency check and local updates\<close>

definition future_status_debug_check :: "future_status \<Rightarrow> bool \<Rightarrow> unit res" where
  "future_status_debug_check st is_allocated =
    assert_that (is_allocated \<or> \<not> available st) (
    assert_that (\<not> downstream_count_overflow st) (
    assert_that (downstream_count st = 0 \<or> available st) (
    assert_that (downstream_count st \<le> MAX_DOWNSTREAM_COUNT) (
    assert_that (is_allocated \<noteq> (ftype st = TYPE_INVALID)) (
    bindR (future_type_has_dependencies (ftype st)) (\<lambda>has_dependencies.
    bindR (future_type_has_processing (ftype st)) (\<lambda>has_processing.
    bindR (future_type_uses_lazy_lock (ftype st)) (\<lambda>uses_lazy_lock.
    bindR (future_type_uses_worker_thread (ftype st)) (\<lambda>uses_worker.
    bindR (case fstate st of
        STATE_UNINITIALIZED \<Rightarrow> assert_that (\<not> is_allocated) (Inr (False, False))
      | STATE_WAITING \<Rightarrow> assert_that is_allocated (assert_that has_dependencies (Inr (False, uses_lazy_lock)))
      | STATE_PROCESSING \<Rightarrow> assert_that is_allocated (assert_that has_processing (Inr (False, uses_lazy_lock)))
      | STATE_CANCELING \<Rightarrow> assert_that is_allocated (assert_that uses_worker (Inr (True, False)))
      | STATE_RESULT \<Rightarrow> assert_that is_allocated (Inr (True, uses_lazy_lock))
      | _ \<Rightarrow> Inl AssertFailed) (\<lambda>(has_outcome, could_be_locked).
    seqR (case foutcome st of
        OUTCOME_UNKNOWN \<Rightarrow> assert_that (\<not> has_outcome) (Inr ())
      | OUTCOME_SUCCESS \<Rightarrow> assert_that has_outcome (assert_that (fstate st = STATE_RESULT) (Inr ()))
      | OUTCOME_FAILURE_DEPENDENCY \<Rightarrow> assert_that has_outcome (assert_that has_dependencies (Inr ()))
      | OUTCOME_FAILURE_INTERNAL \<Rightarrow> assert_that has_outcome (assert_that has_processing (Inr ()))
      | OUTCOME_FAILURE_CANCELED \<Rightarrow> assert_that has_outcome (Inr ())
      | _ \<Rightarrow> Inl AssertFailed) (
    seqR (if is_allocated then
            if uses_lazy_lock then
              (if notify_event_or_lazy_lock st then assert_that could_be_locked (Inr ()) else Inr ())
            else (if \<not> uses_worker then assert_that (\<not> notify_event_or_lazy_lock st) (Inr ()) else Inr ())
          else assert_that (\<not> notify_address st) (assert_that (\<not> notify_event_or_lazy_lock st) (Inr ()))) (
    assert_that (reserved st = 0) (Inr ())))))))))))))"

datatype downstream_count_policy = DOWNSTREAM_COUNT_CYCLE | DOWNSTREAM_COUNT_KEEP

definition prepare_downstream_count_inc ::
  "future_status \<Rightarrow> downstream_count_policy \<Rightarrow> future_status res" where
  "prepare_downstream_count_inc st count_policy =
    seqR (future_status_debug_check st True) (
    assert_that (fstate st \<noteq> STATE_RESULT) (
    ensure_that (\<not> downstream_count_overflow st) (
    case count_policy of
      DOWNSTREAM_COUNT_CYCLE \<Rightarrow>
        ensure_that (downstream_count st < MAX_DOWNSTREAM_COUNT) (
        Inr (st\<lparr>downstream_count := downstream_count st + 1\<rparr>))
    | DOWNSTREAM_COUNT_KEEP \<Rightarrow> Inr st)))"

definition prepare_downstream_count_dec ::
  "future_status \<Rightarrow> downstream_count_policy \<Rightarrow> future_status res" where
  "prepare_downstream_count_dec st count_policy =
    seqR (future_status_debug_check st True) (
    ensure_that (\<not> downstream_count_overflow st) (
    case count_policy of
      DOWNSTREAM_COUNT_CYCLE \<Rightarrow>
        ensure_that (downstream_count st \<ge> 1) (
        Inr (st\<lparr>downstream_count := downstream_count st - 1\<rparr>))
    | DOWNSTREAM_COUNT_KEEP \<Rightarrow> Inr st))"

definition future_status_eq :: "future_status \<Rightarrow> future_status \<Rightarrow> bool" where
  "future_status_eq s1 s2 \<longleftrightarrow> as_word s1 = as_word s2"

section \<open>The two views of the status word are inverse to each other\<close>

lemma type_code_less [simp]: "type_code t < 16"
  by (cases t) (simp_all add: type_code_def TYPES_def)

lemma state_code_less [simp]: "state_code s < 8"
  by (cases s) (simp_all add: state_code_def STATES_def)

lemma outcome_code_less [simp]: "outcome_code x < 8"
  by (cases x) (simp_all add: outcome_code_def OUTCOMES_def)

lemma type_of_code [simp]: "TYPES ! type_code t = t"
  by (cases t) (simp_all add: type_code_def TYPES_def)

lemma state_of_code [simp]: "STATES ! state_code s = s"
  by (cases s) (simp_all add: state_code_def STATES_def)

lemma outcome_of_code [simp]: "OUTCOMES ! outcome_code x = x"
  by (cases x) (simp_all add: outcome_code_def OUTCOMES_def)

lemma position_nth:
  "distinct xs \<Longrightarrow> n < length xs \<Longrightarrow> position (xs ! n) xs = n"
  by (induction xs arbitrary: n) (auto simp: nth_Cons split: nat.splits)

lemma code_of_type [simp]: "n < 16 \<Longrightarrow> type_code (TYPES ! n) = n"
  unfolding type_code_def by (rule position_nth) (simp_all add: TYPES_def)

lemma code_of_state [simp]: "n < 8 \<Longrightarrow> state_code (STATES ! n) = n"
  unfolding state_code_def by (rule position_nth) (simp_all add: STATES_def)

lemma code_of_outcome [simp]: "n < 8 \<Longrightarrow> outcome_code (OUTCOMES ! n) = n"
  unfolding outcome_code_def by (rule position_nth) (simp_all add: OUTCOMES_def)

text \<open>The numeric value of a status and the digits the bitfield view reads from it.\<close>

definition status_nat :: "future_status \<Rightarrow> nat" where
  "status_nat st = unat (downstream_count st) + 2 ^ 16 *
     (of_bool (downstream_count_overflow st) + 2 *
     (of_bool (available st) + 2 *
     (state_code (fstate st) + 8 *
     (outcome_code (foutcome st) + 8 *
     (type_code (ftype st) + 16 *
     (of_bool (notify_address st) + 2 *
     (of_bool (notify_event_or_lazy_lock st) + 2 * unat (reserved st))))))))"

lemma as_word_status_nat: "as_word st = of_nat (status_nat st)"
  by (simp add: as_word_def status_nat_def)

lemma digit_split:
  fixes r d q n e :: nat
  assumes "n = r + d * q" and "r < d"
  shows "n mod d = r" and "n div d = q" and "n div (d * e) = q div e"
  using assms by (simp_all add: div_mult2_eq)

lemma status_nat_digits:
  fixes st :: future_status
  defines "n \<equiv> status_nat st"
  shows "n mod 65536 = unat (downstream_count st)"
    and "n div 65536 mod 2 = of_bool (downstream_count_overflow st)"
    and "n div 131072 mod 2 = of_bool (available st)"
    and "n div 262144 mod 8 = state_code (fstate st)"
    and "n div 2097152 mod 8 = outcome_code (foutcome st)"
    and "n div 16777216 mod 16 = type_code (ftype st)"
    and "n div 268435456 mod 2 = of_bool (notify_address st)"
    and "n div 536870912 mod 2 = of_bool (notify_event_or_lazy_lock st)"
    and "n div 1073741824 = unat (reserved st)"
proof -
  define q8 where "q8 = unat (reserved st)"
  define q7 where "q7 = of_bool (notify_event_or_lazy_lock st) + 2 * q8"
  define q6 where "q6 = of_bool (notify_address st) + 2 * q7"
  define q5 where "q5 = type_code (ftype st) + 16 * q6"
  define q4 where "q4 = outcome_code (foutcome st) + 8 * q5"
  define q3 where "q3 = state_code (fstate st) + 8 * q4"
  define q2 where "q2 = of_bool (available st) + 2 * q3"
  define q1 where "q1 = of_bool (downstream_count_overflow st) + 2 * q2"
  have n: "n = unat (downstream_count st) + 65536 * q1"
    by (simp add: n_def status_nat_def q1_def q2_def q3_def q4_def q5_def q6_def q7_def q8_def)
  have dc: "unat (downstream_count st) < 65536"
    using unsigned_less [of "downstream_count st"] by simp
  note d1 = digit_split [OF n dc]
  have b: "of_bool P < (2 :: nat)" for P by simp
  note d2 = digit_split [OF q1_def b]
  note d3 = digit_split [OF q2_def b]
  note d4 = digit_split [OF q3_def state_code_less]
  note d5 = digit_split [OF q4_def outcome_code_less]
  note d6 = digit_split [OF q5_def type_code_less]
  note d7 = digit_split [OF q6_def b]
  note d8 = digit_split [OF q7_def b]
  have e1: "n div 131072 = q2" using d1(3) [of 2] d2(2) by simp
  have e2: "n div 262144 = q3" using d1(3) [of 4] d2(3) [of 2] d3(2) by simp
  have e3: "n div 2097152 = q4" using d1(3) [of 32] d2(3) [of 16] d3(3) [of 8] d4(2) by simp
  have e4: "n div 16777216 = q5"
    using d1(3) [of 256] d2(3) [of 128] d3(3) [of 64] d4(3) [of 8] d5(2) by simp
  have e5: "n div 268435456 = q6"
    using d1(3) [of 4096] d2(3) [of 2048] d3(3) [of 1024] d4(3) [of 128] d5(3) [of 16] d6(2) by simp
  have e6: "n div 536870912 = q7"
    using d1(3) [of 8192] d2(3) [of 4096] d3(3) [of 2048] d4(3) [of 256] d5(3) [of 32] d6(3) [of 2] d7(2)
    by simp
  have e7: "n div 1073741824 = q8"
    using d1(3) [of 16384] d2(3) [of 8192] d3(3) [of 4096] d4(3) [of 512] d5(3) [of 64] d6(3) [of 4]
      d7(3) [of 2] d8(2) by simp
  show "n mod 65536 = unat (downstream_count st)" by (rule d1)
  show "n div 65536 mod 2 = of_bool (downstream_count_overflow st)" by (simp only: d1 d2)
  show "n div 131072 mod 2 = of_bool (available st)" by (simp only: e1 d3)
  show "n div 262144 mod 8 = state_code (fstate st)" by (simp only: e2 d4)
  show "n div 2097152 mod 8 = outcome_code (foutcome st)" by (simp only: e3 d5)
  show "n div 16777216 mod 16 = type_code (ftype st)" by (simp only: e4 d6)
  show "n div 268435456 mod 2 = of_bool (notify_address st)" by (simp only: e5 d7)
  show "n div 536870912 mod 2 = of_bool (notify_event_or_lazy_lock st)" by (simp only: e6 d8)
  show "n div 1073741824 = unat (reserved st)" by (simp only: e7 q8_def)
qed

lemma status_nat_less: "status_nat st < 2 ^ 32"
proof -
  have "status_nat st div 1073741824 < 4"
    using status_nat_digits(9) [of st] unsigned_less [of "reserved st"] by simp
  then show ?thesis by (simp add: div_less_iff_less_mult)
qed

lemma unat_as_word: "unat (as_word st) = status_nat st"
  using status_nat_less [of st] by (simp add: as_word_status_nat unat_of_nat)

lemma odd_of_bool: "n mod 2 = of_bool b \<Longrightarrow> odd (n :: nat) = b"
  by (cases b) (simp_all add: odd_iff_mod_2_eq_one even_iff_mod_2_eq_zero)

lemma field_powers:
  "(2 :: nat) ^ 16 = 65536" "(2 :: nat) ^ 17 = 131072" "(2 :: nat) ^ 18 = 262144"
  "(2 :: nat) ^ 21 = 2097152" "(2 :: nat) ^ 24 = 16777216" "(2 :: nat) ^ 28 = 268435456"
  "(2 :: nat) ^ 29 = 536870912" "(2 :: nat) ^ 30 = 1073741824"
  by simp_all

lemma unat_u16_less: "unat (c :: u16) < 65536"
proof -
  have "unat c < 2 ^ LENGTH(16)" by (rule unsigned_less)
  then show ?thesis by simp
qed

lemma unat_u2_mod: "unat (c :: 2 word) mod 4 = unat c"
proof -
  have "unat c < 2 ^ LENGTH(2)" by (rule unsigned_less)
  then show ?thesis by simp
qed

lemma as_bitfield_as_word [simp]: "as_bitfield (as_word st) = st"
proof -
  note d = status_nat_digits [of st]
  note o = odd_of_bool [OF d(2)] odd_of_bool [OF d(3)] odd_of_bool [OF d(7)] odd_of_bool [OF d(8)]
  show ?thesis
    unfolding as_bitfield_def Let_def unat_as_word field_powers
    by (simp only: d(1,4,5,6,9) o unat_u2_mod type_of_code state_of_code outcome_of_code
        of_nat_unat ucast_id) simp
qed

lemma digits_compose:
  fixes n :: nat
  assumes "65536 * q1 + r0 = n" "2 * q2 + r1 = q1" "2 * q3 + r2 = q2" "8 * q4 + r3 = q3"
    "8 * q5 + r4 = q4" "16 * q6 + r5 = q5" "2 * q7 + r6 = q6" "2 * q8 + r7 = q7"
  shows "r0 + 65536 * (r1 + 2 * (r2 + 2 * (r3 + 8 * (r4 + 8 * (r5 + 16 * (r6 + 2 * (r7 + 2 * q8))))))) = n"
  by (simp flip: assms)

lemma as_word_as_bitfield [simp]: "as_word (as_bitfield w) = w"
proof -
  define n where "n = unat w"
  have n: "n < 4294967296" using unsigned_less [of w] by (simp add: n_def)
  then have r: "n div 1073741824 < 4" by (simp add: div_less_iff_less_mult)
  have o: "of_bool (odd m) = m mod 2" for m :: nat by (simp add: mod_2_eq_odd)
  have c: "n div 131072 = n div 65536 div 2" "n div 262144 = n div 131072 div 2"
    "n div 2097152 = n div 262144 div 8" "n div 16777216 = n div 2097152 div 8"
    "n div 268435456 = n div 16777216 div 16" "n div 536870912 = n div 268435456 div 2"
    "n div 1073741824 = n div 536870912 div 2"
    by (simp_all add: div_mult2_eq [symmetric])
  note s = mult_div_mod_eq [of 65536 n] mult_div_mod_eq [of 2 "n div 65536"] mult_div_mod_eq [of 2 "n div 131072"]
    mult_div_mod_eq [of 8 "n div 262144"] mult_div_mod_eq [of 8 "n div 2097152"]
    mult_div_mod_eq [of 16 "n div 16777216"] mult_div_mod_eq [of 2 "n div 268435456"]
    mult_div_mod_eq [of 2 "n div 536870912"]
  have "status_nat (as_bitfield w) = n mod 65536 + 65536 * (n div 65536 mod 2 + 2 * (n div 131072 mod 2 + 2 *
     (n div 262144 mod 8 + 8 * (n div 2097152 mod 8 + 8 * (n div 16777216 mod 16 + 16 *
     (n div 268435456 mod 2 + 2 * (n div 536870912 mod 2 + 2 * (n div 1073741824))))))))"
    using r by (simp add: status_nat_def as_bitfield_def Let_def n_def [symmetric] o unat_of_nat)
  also have "\<dots> = n" by (rule digits_compose [OF s [unfolded c [symmetric]]])
  finally show ?thesis by (simp add: as_word_status_nat n_def)
qed

lemma as_word_inject [simp]: "as_word s = as_word t \<longleftrightarrow> s = t"
  by (metis as_bitfield_as_word)

lemma as_bitfield_inject [simp]: "as_bitfield v = as_bitfield w \<longleftrightarrow> v = w"
  by (metis as_word_as_bitfield)

lemma future_status_eq_iff [simp]: "future_status_eq s t \<longleftrightarrow> s = t"
  by (simp add: future_status_eq_def)

section \<open>Which status words the check accepts\<close>

definition dependent_types :: "future_type set" where
  "dependent_types = {TYPE_NETWORK_CONNECT, TYPE_NETWORK_DISCONNECT, TYPE_NETWORK_SEND,
     TYPE_NETWORK_RECV, TYPE_JOIN, TYPE_UNORDERED}"

definition worker_types :: "future_type set" where
  "worker_types = {TYPE_NETWORK_CONNECT, TYPE_NETWORK_DISCONNECT, TYPE_NETWORK_SEND,
     TYPE_NETWORK_RECV, TYPE_CUSTOM}"

definition lazy_types :: "future_type set" where
  "lazy_types = {TYPE_JOIN, TYPE_UNORDERED, TYPE_TIMER_REPEAT}"

definition processing_types :: "future_type set" where
  "processing_types = worker_types \<union> {TYPE_TIMER_ONCE, TYPE_TIMER_REPEAT}"

definition proper_types :: "future_type set" where
  "proper_types = dependent_types \<union> processing_types"

lemmas type_sets = dependent_types_def worker_types_def lazy_types_def processing_types_def proper_types_def

text \<open>The combinations of type, state and outcome that make sense for a live future.\<close>

fun valid_stage :: "future_type \<Rightarrow> future_state \<Rightarrow> future_outcome \<Rightarrow> bool" where
  "valid_stage t STATE_WAITING x \<longleftrightarrow> t \<in> dependent_types \<and> x = OUTCOME_UNKNOWN"
| "valid_stage t STATE_PROCESSING x \<longleftrightarrow> t \<in> processing_types \<and> x = OUTCOME_UNKNOWN"
| "valid_stage t STATE_CANCELING x \<longleftrightarrow> t \<in> worker_types \<and>
     (x = OUTCOME_FAILURE_CANCELED \<or> x = OUTCOME_FAILURE_DEPENDENCY \<and> t \<in> dependent_types \<or>
      x = OUTCOME_FAILURE_INTERNAL \<and> t \<in> processing_types)"
| "valid_stage t STATE_RESULT x \<longleftrightarrow>
     (x = OUTCOME_SUCCESS \<or> x = OUTCOME_FAILURE_CANCELED \<or> x = OUTCOME_FAILURE_DEPENDENCY \<and> t \<in> dependent_types \<or>
      x = OUTCOME_FAILURE_INTERNAL \<and> t \<in> processing_types)"
| "valid_stage t _ x \<longleftrightarrow> False"

text \<open>The statuses of a live future: what every thread may observe between the start of an
  operation and its liberation.\<close>

definition valid_status :: "future_status \<Rightarrow> bool" where
  "valid_status st \<longleftrightarrow>
     ftype st \<in> proper_types \<and> \<not> downstream_count_overflow st \<and> reserved st = 0 \<and>
     (downstream_count st = 0 \<or> available st) \<and>
     (notify_event_or_lazy_lock st \<longrightarrow> ftype st \<in> lazy_types \<union> worker_types) \<and>
     valid_stage (ftype st) (fstate st) (foutcome st)"

lemma max_count_top [simp]: "c \<le> MAX_DOWNSTREAM_COUNT"
  using unat_u16_less [of c] by (simp add: MAX_DOWNSTREAM_COUNT_def word_le_nat_alt)

lemma debug_check_allocated [simp]:
  "future_status_debug_check st True = Inr () \<longleftrightarrow> valid_status st"
  unfolding future_status_debug_check_def valid_status_def
  by (cases "ftype st"; cases "fstate st"; simp add: type_sets; cases "foutcome st"; auto simp: assert_that_def)

lemma debug_check_liberated:
  "future_status_debug_check st False = Inr () \<longleftrightarrow> as_word st = 0"
proof -
  have z: "as_bitfield 0 = \<lparr>downstream_count = 0, downstream_count_overflow = False, available = False,
     fstate = STATE_UNINITIALIZED, foutcome = OUTCOME_UNKNOWN, ftype = TYPE_INVALID,
     notify_address = False, notify_event_or_lazy_lock = False, reserved = 0\<rparr>"
    by (simp add: as_bitfield_def TYPES_def STATES_def OUTCOMES_def)
  have "as_word st = 0 \<longleftrightarrow> st = as_bitfield 0"
    by (metis as_bitfield_as_word as_word_as_bitfield)
  also have "\<dots> \<longleftrightarrow> future_status_debug_check st False = Inr ()"
    unfolding z future_status_debug_check_def
    by (cases st; simp; cases "ftype st"; cases "fstate st"; cases "foutcome st"; auto simp: assert_that_def)
  finally show ?thesis by simp
qed

section \<open>Arithmetic of the downstream count on the whole word\<close>

lemma status_nat_count:
  "status_nat (st\<lparr>downstream_count := c\<rparr>) = status_nat st - unat (downstream_count st) + unat c"
  by (simp add: status_nat_def)

lemma status_nat_ge_count: "unat (downstream_count st) \<le> status_nat st"
  by (simp add: status_nat_def)

lemma count_less_max_iff: "c < MAX_DOWNSTREAM_COUNT \<longleftrightarrow> unat c < 65535"
  by (simp add: MAX_DOWNSTREAM_COUNT_def word_less_nat_alt)

lemma as_word_inc:
  assumes "downstream_count st \<noteq> MAX_DOWNSTREAM_COUNT"
  shows "as_word (st\<lparr>downstream_count := downstream_count st + 1\<rparr>) = as_word st + 1"
proof -
  have "downstream_count st < MAX_DOWNSTREAM_COUNT" using assms by (simp add: order_neq_le_trans)
  then have "unat (downstream_count st + 1) = unat (downstream_count st) + 1"
    by (simp add: count_less_max_iff unat_word_ariths)
  then show ?thesis
    using status_nat_ge_count [of st] by (simp add: as_word_status_nat status_nat_count)
qed

lemma max_count_minus: "c - 1 = MAX_DOWNSTREAM_COUNT \<longleftrightarrow> c = 0"
proof -
  have "MAX_DOWNSTREAM_COUNT = 0 - 1" by (simp add: MAX_DOWNSTREAM_COUNT_def)
  then show ?thesis by (metis diff_add_cancel)
qed

lemma as_word_dec:
  assumes "downstream_count st \<noteq> 0"
  shows "as_word (st\<lparr>downstream_count := downstream_count st - 1\<rparr>) = as_word st - 1"
proof -
  let ?s = "st\<lparr>downstream_count := downstream_count st - 1\<rparr>"
  have "downstream_count ?s \<noteq> MAX_DOWNSTREAM_COUNT"
    using assms max_count_minus by simp
  then have "as_word (?s\<lparr>downstream_count := downstream_count ?s + 1\<rparr>) = as_word ?s + 1"
    by (rule as_word_inc)
  then show ?thesis by simp
qed

lemma as_bitfield_inc:
  assumes "downstream_count (as_bitfield w) \<noteq> MAX_DOWNSTREAM_COUNT"
  shows "as_bitfield (w + 1) = (as_bitfield w)\<lparr>downstream_count := downstream_count (as_bitfield w) + 1\<rparr>"
  using as_word_inc [OF assms] by (metis as_bitfield_as_word as_word_as_bitfield)

lemma as_bitfield_dec:
  assumes "downstream_count (as_bitfield w) \<noteq> 0"
  shows "as_bitfield (w - 1) = (as_bitfield w)\<lparr>downstream_count := downstream_count (as_bitfield w) - 1\<rparr>"
  using as_word_dec [OF assms] by (metis as_bitfield_as_word as_word_as_bitfield)

text \<open>An increment of a saturated count sets the guard bit and nothing else.\<close>

lemma as_bitfield_inc_overflow:
  assumes "downstream_count (as_bitfield w) = MAX_DOWNSTREAM_COUNT"
    and "\<not> downstream_count_overflow (as_bitfield w)"
  shows "as_bitfield (w + 1) = (as_bitfield w)\<lparr>downstream_count := 0, downstream_count_overflow := True\<rparr>"
proof -
  let ?s = "as_bitfield w"
  have "status_nat (?s\<lparr>downstream_count := 0, downstream_count_overflow := True\<rparr>) = status_nat ?s + 1"
    using assms by (simp add: status_nat_def MAX_DOWNSTREAM_COUNT_def)
  then have "as_word (?s\<lparr>downstream_count := 0, downstream_count_overflow := True\<rparr>) = as_word ?s + 1"
    by (simp add: as_word_status_nat)
  then show ?thesis by (metis as_bitfield_as_word as_word_as_bitfield)
qed

section \<open>Evaluation\<close>

text \<open>The two views over binary integers, for the evaluation of concrete runs.\<close>

lemma as_word_code [code]:
  "as_word st = word_of_int (uint (downstream_count st) + 65536 *
     (of_bool (downstream_count_overflow st) + 2 *
     (of_bool (available st) + 2 *
     (int (state_code (fstate st)) + 8 *
     (int (outcome_code (foutcome st)) + 8 *
     (int (type_code (ftype st)) + 16 *
     (of_bool (notify_address st) + 2 *
     (of_bool (notify_event_or_lazy_lock st) + 2 * uint (reserved st)))))))))"
  by (simp add: as_word_def)

lemma uint_fields:
  "nat (uint w div numeral k mod numeral l) = unat w div numeral k mod numeral l"
  "odd (uint w div numeral k) = odd (unat w div numeral k)"
  "(word_of_int (uint w mod numeral l) :: 'b::len word) = of_nat (unat w mod numeral l)"
  "(word_of_int (uint w div numeral k mod numeral l) :: 'b::len word) = of_nat (unat w div numeral k mod numeral l)"
proof -
  have d: "uint w div numeral k = int (unat w div numeral k)"
    by (simp only: uint_nat zdiv_int of_nat_numeral)
  have m: "int n mod numeral l = int (n mod numeral l)" for n
    by (simp only: zmod_int of_nat_numeral)
  show "nat (uint w div numeral k mod numeral l) = unat w div numeral k mod numeral l"
    by (simp only: d m nat_int)
  show "odd (uint w div numeral k) = odd (unat w div numeral k)"
    by (simp only: d even_of_nat)
  show "(word_of_int (uint w mod numeral l) :: 'b word) = of_nat (unat w mod numeral l)"
    by (simp only: uint_nat m of_int_of_nat_eq)
  show "(word_of_int (uint w div numeral k mod numeral l) :: 'b word) = of_nat (unat w div numeral k mod numeral l)"
    by (simp only: d m of_int_of_nat_eq)
qed

lemma as_bitfield_code [code]:
  "as_bitfield w = (let n = uint w in
    \<lparr>downstream_count = word_of_int (n mod 65536),
     downstream_count_overflow = odd (n div 65536),
     available = odd (n div 131072),
     fstate = STATES ! nat (n div 262144 mod 8),
     foutcome = OUTCOMES ! nat (n div 2097152 mod 8),
     ftype = TYPES ! nat (n div 16777216 mod 16),
     notify_address = odd (n div 268435456),
     notify_event_or_lazy_lock = odd (n div 536870912),
     reserved = word_of_int (n div 1073741824 mod 4)\<rparr>)"
  unfolding as_bitfield_def Let_def field_powers by (simp only: uint_fields)

section \<open>Properties\<close>


text \<open>C26. \<open>future_status_debug_check\<close> accepts exactly the consistent statuses: for a live future,
  those whose type, state, outcome and flags make sense together; for a future in a recycling pool,
  the all-zero word only.\<close>

theorem debug_check_exact:
  "(future_status_debug_check st True = Inr () \<longleftrightarrow> valid_status st) \<and>
   (future_status_debug_check st False = Inr () \<longleftrightarrow> as_word st = 0)"
  by (simp add: debug_check_liberated)

end
