(* ===== verification/World.thy ===== *)
theory World
  imports FutureStatus
begin

text \<open>
  What one thread of the library sees: the futures in memory, the other threads and the operating
  system, and a small calculus for the computations of that thread.

  A computation of type \<open>'a comp\<close> runs in a \<open>world\<close>.  Everything that is decided outside the thread
  is listed in advance in \<open>schedule\<close>, in the order in which the thread consumes it: before each
  atomic access to a status word, the writes that other threads make to status words in the
  meantime (and whether a weak compare-exchange fails spuriously); the clock readings; the results
  of system calls.  A theorem that quantifies over worlds quantifies over every interleaving with
  other threads and over every behaviour of the operating system.  A schedule that ends, or does
  not have the kind of step the thread asks for next, gives \<open>Inl ScheduleEnd\<close>.

  \<open>trace\<close> records what the thread does to the outside, most recent first.
\<close>

section \<open>The data of a future\<close>

type_synonym fid = nat   \<comment> \<open>the address of a \<open>udipe_future_t\<close>\<close>
type_synonym fd = int

definition FD_INVALID :: fd where
  "FD_INVALID = -1"

record collective_upstream =
  upstream_array :: "fid list"      \<comment> \<open>\<open>array\<close> and its \<open>length\<close>\<close>
  upstream_remaining :: u32

datatype specific_state =
    Network "u8 list"
  | Custom "u8 list"
  | Join collective_upstream fd          \<comment> \<open>\<open>upstream\<close>, \<open>inpoll_latch\<close>\<close>
  | Unordered collective_upstream "u8 list" fd fd
      \<comment> \<open>\<open>upstream\<close>, \<open>payload\<close>, \<open>upstream_inpoll\<close>, \<open>inpoll_latch\<close>\<close>
  | TimerRepeat "u8 list" fd fd          \<comment> \<open>\<open>payload\<close>, \<open>timerfd\<close>, \<open>inpoll_latch\<close>\<close>

record udipe_future =
  specific :: specific_state
  context_id :: nat
  status_sync :: fd
  status_word :: u32

section \<open>The data of the allocator\<close>

type_synonym pid = nat   \<comment> \<open>the address of a \<open>future_pointer_page_t\<close>\<close>

record pointer_page =
  page_previous :: "pid option"
  page_next :: "pid option"
  page_futures :: "fid option list"

record pointer_cache =
  cache_bottom :: "pid option"
  cache_top :: "pid option"
  num_top_futures :: nat

record event_cache =
  cached_events :: "fd list"
  latest_index :: u8

record latched_inpoll_cache =
  cached_inpolls :: "fd list"
  latch_cache :: event_cache

text \<open>The thread-local cache of the running thread and the context-global cache.  \<open>storage_pages\<close> is
  the list of storage pages behind \<open>first_storage_page\<close>, each with the futures it holds.\<close>

record allocator_state =
  page_size :: nat                              \<comment> \<open>\<open>get_page_size()\<close>\<close>
  pages :: "pid \<Rightarrow> pointer_page option"         \<comment> \<open>the allocated pointer pages\<close>
  local_futures :: pointer_cache
  global_futures :: pointer_cache
  local_events :: event_cache
  local_inpolls :: latched_inpoll_cache
  storage_pages :: "fid list list"
  thread_slot :: "nat option"                   \<comment> \<open>the value of the thread-specific storage key\<close>
  refcount_and_reachability :: u64
  thread_caches :: "nat list option"            \<comment> \<open>the registered thread caches, \<open>None\<close> for \<open>NULL\<close>\<close>
  thread_caches_capacity :: nat

section \<open>Steps of the environment, effects of the thread\<close>

record timespec =
  tv_sec :: int
  tv_nsec :: int

datatype errno =
    EAGAIN | ETIMEDOUT | EINTR | ELOOP | EEXIST | ENOENT | EMFILE | ENFILE | EINVAL | ENODEV | ENOMEM
  | EBADF | EPERM | EFAULT | EOTHER

datatype step =
    Interference "(fid \<times> u32) list" bool
  | Clock timespec
  | Returns int errno
  | Events int errno "(bool \<times> u64) list"
      \<comment> \<open>per event: whether exactly the input flag is set, and the user data\<close>
  | Limits int errno u64 u64
      \<comment> \<open>a resource limit: the soft and the hard limit\<close>

datatype effect =
    Write fid u32 u32                \<comment> \<open>this thread changed a status word, old and new value\<close>
  | WakeAll fid | WakeSingle fid
  | EventSignal fd
  | EventReset fd
  | TimerSetOnce fd timespec | TimerSetRepeat fd timespec timespec
  | EpollCreate | EpollAdd fd fd u64 | EpollDel fd fd
  | CloseFd fd
  | PayloadSet fid "u8 list"
  | Unmap nat nat                    \<comment> \<open>address and size\<close>
  | SetRlimit u64 u64

record world =
  futures :: "fid \<Rightarrow> udipe_future"
  allocator :: allocator_state
  schedule :: "step list"
  trace :: "effect list"

section \<open>Computations\<close>

text \<open>An allocator in which nothing has been allocated yet.\<close>

definition empty_allocator :: allocator_state where
  "empty_allocator = \<lparr>page_size = 4096, pages = (\<lambda>_. None),
     local_futures = \<lparr>cache_bottom = None, cache_top = None, num_top_futures = 0\<rparr>,
     global_futures = \<lparr>cache_bottom = None, cache_top = None, num_top_futures = 0\<rparr>,
     local_events = \<lparr>cached_events = [-1, -1, -1, -1], latest_index = 0\<rparr>,
     local_inpolls = \<lparr>cached_inpolls = [-1, -1, -1, -1],
       latch_cache = \<lparr>cached_events = [-1, -1, -1, -1], latest_index = 0\<rparr>\<rparr>,
     storage_pages = [], thread_slot = None, refcount_and_reachability = 0x8000000000000000,
     thread_caches = Some [], thread_caches_capacity = 512\<rparr>"

type_synonym 'a comp = "world \<Rightarrow> ('a \<times> world) res"

definition retM :: "'a \<Rightarrow> 'a comp" where
  "retM x w = Inr (x, w)"

definition bindM :: "'a comp \<Rightarrow> ('a \<Rightarrow> 'b comp) \<Rightarrow> 'b comp" where
  "bindM m f w = bindR (m w) (\<lambda>(x, w'). f x w')"

definition seqM :: "unit comp \<Rightarrow> 'b comp \<Rightarrow> 'b comp" where
  "seqM m k = bindM m (\<lambda>_. k)"

definition stopM :: "stop \<Rightarrow> 'a comp" where
  "stopM e w = Inl e"

definition liftR :: "'a res \<Rightarrow> 'a comp" where
  "liftR r w = bindR r (\<lambda>x. Inr (x, w))"

definition assertM :: "bool \<Rightarrow> unit comp" where
  "assertM c = (if c then retM () else stopM AssertFailed)"

definition ensureM :: "bool \<Rightarrow> unit comp" where
  "ensureM c = (if c then retM () else stopM EnsureFailed)"

definition next_step :: "step comp" where
  "next_step w = (case schedule w of
     [] \<Rightarrow> Inl ScheduleEnd
   | s # ss \<Rightarrow> Inr (s, w\<lparr>schedule := ss\<rparr>))"

definition emit :: "effect \<Rightarrow> unit comp" where
  "emit e w = Inr ((), w\<lparr>trace := e # trace w\<rparr>)"

definition get_future :: "fid \<Rightarrow> udipe_future comp" where
  "get_future f w = Inr (futures w f, w)"

definition get_allocator :: "allocator_state comp" where
  "get_allocator w = Inr (allocator w, w)"

definition put_allocator :: "allocator_state \<Rightarrow> unit comp" where
  "put_allocator a w = Inr ((), w\<lparr>allocator := a\<rparr>)"

text \<open>Reading through a pointer that may be null.\<close>

definition derefM :: "'a option \<Rightarrow> 'a comp" where
  "derefM p = (case p of None \<Rightarrow> stopM BadAccess | Some x \<Rightarrow> retM x)"

definition set_future :: "fid \<Rightarrow> udipe_future \<Rightarrow> unit comp" where
  "set_future f fut w = Inr ((), w\<lparr>futures := (futures w)(f := fut)\<rparr>)"

definition set_specific :: "fid \<Rightarrow> specific_state \<Rightarrow> unit comp" where
  "set_specific f s w = Inr ((), w\<lparr>futures := (futures w)(f := (futures w f)\<lparr>specific := s\<rparr>)\<rparr>)"

definition set_word :: "fid \<Rightarrow> u32 \<Rightarrow> (fid \<Rightarrow> udipe_future) \<Rightarrow> fid \<Rightarrow> udipe_future" where
  "set_word f v fs = fs(f := (fs f)\<lparr>status_word := v\<rparr>)"

fun apply_writes :: "(fid \<times> u32) list \<Rightarrow> (fid \<Rightarrow> udipe_future) \<Rightarrow> fid \<Rightarrow> udipe_future" where
  "apply_writes [] fs = fs"
| "apply_writes ((f, v) # ws) fs = apply_writes ws (set_word f v fs)"

text \<open>The other threads run until this thread accesses a status word.\<close>

definition interference :: "bool comp" where
  "interference = bindM next_step (\<lambda>s. case s of
     Interference ws spurious \<Rightarrow>
       (\<lambda>w. Inr (spurious, w\<lparr>futures := apply_writes ws (futures w)\<rparr>))
   | _ \<Rightarrow> stopM ScheduleEnd)"

definition read_clock :: "timespec comp" where
  "read_clock = bindM next_step (\<lambda>s. case s of Clock t \<Rightarrow> retM t | _ \<Rightarrow> stopM ScheduleEnd)"

definition syscall :: "(int \<times> errno) comp" where
  "syscall = bindM next_step (\<lambda>s. case s of Returns r e \<Rightarrow> retM (r, e) | _ \<Rightarrow> stopM ScheduleEnd)"

definition poll_syscall :: "(int \<times> errno \<times> (bool \<times> u64) list) comp" where
  "poll_syscall = bindM next_step (\<lambda>s. case s of
     Events r e evs \<Rightarrow> retM (r, e, evs) | _ \<Rightarrow> stopM ScheduleEnd)"

definition limits_syscall :: "(int \<times> errno \<times> u64 \<times> u64) comp" where
  "limits_syscall = bindM next_step (\<lambda>s. case s of
     Limits r e cur mx \<Rightarrow> retM (r, e, cur, mx) | _ \<Rightarrow> stopM ScheduleEnd)"

section \<open>Reasoning about computations\<close>

text \<open>\<open>wp m Q E w\<close>: run from \<open>w\<close>, \<open>m\<close> either returns a value and a world that satisfy \<open>Q\<close>, or
  stops for a reason that satisfies \<open>E\<close>.\<close>

definition wp :: "'a comp \<Rightarrow> ('a \<Rightarrow> world \<Rightarrow> bool) \<Rightarrow> (stop \<Rightarrow> bool) \<Rightarrow> world \<Rightarrow> bool" where
  "wp m Q E w = (case m w of Inl e \<Rightarrow> E e | Inr (x, w') \<Rightarrow> Q x w')"

named_theorems wp_simps \<open>weakest preconditions of the primitive computations\<close>

lemma wp_ret [wp_simps]: "wp (retM x) Q E w \<longleftrightarrow> Q x w"
  by (simp add: wp_def retM_def)

lemma wp_bind [wp_simps]: "wp (bindM m f) Q E w \<longleftrightarrow> wp m (\<lambda>x. wp (f x) Q E) E w"
  by (auto simp: wp_def bindM_def split: sum.splits)

lemma wp_seq [wp_simps]: "wp (seqM m k) Q E w \<longleftrightarrow> wp m (\<lambda>_. wp k Q E) E w"
  by (simp add: seqM_def wp_bind)

lemma wp_stop [wp_simps]: "wp (stopM e) Q E w \<longleftrightarrow> E e"
  by (simp add: wp_def stopM_def)

lemma wp_lift [wp_simps]: "wp (liftR r) Q E w \<longleftrightarrow> (case r of Inl e \<Rightarrow> E e | Inr x \<Rightarrow> Q x w)"
  by (cases r) (simp_all add: wp_def liftR_def)

lemma wp_assert [wp_simps]: "wp (assertM c) Q E w \<longleftrightarrow> (if c then Q () w else E AssertFailed)"
  by (simp add: assertM_def wp_simps)

lemma wp_ensure [wp_simps]: "wp (ensureM c) Q E w \<longleftrightarrow> (if c then Q () w else E EnsureFailed)"
  by (simp add: ensureM_def wp_simps)

lemma wp_emit [wp_simps]: "wp (emit e) Q E w \<longleftrightarrow> Q () (w\<lparr>trace := e # trace w\<rparr>)"
  by (simp add: wp_def emit_def)

lemma wp_get_future [wp_simps]: "wp (get_future f) Q E w \<longleftrightarrow> Q (futures w f) w"
  by (simp add: wp_def get_future_def)

lemma wp_set_specific [wp_simps]:
  "wp (set_specific f s) Q E w \<longleftrightarrow>
     Q () (w\<lparr>futures := (futures w)(f := (futures w f)\<lparr>specific := s\<rparr>)\<rparr>)"
  by (simp add: wp_def set_specific_def)

lemma wp_get_allocator [wp_simps]: "wp get_allocator Q E w \<longleftrightarrow> Q (allocator w) w"
  by (simp add: wp_def get_allocator_def)

lemma wp_put_allocator [wp_simps]: "wp (put_allocator a) Q E w \<longleftrightarrow> Q () (w\<lparr>allocator := a\<rparr>)"
  by (simp add: wp_def put_allocator_def)

lemma wp_deref [wp_simps]:
  "wp (derefM p) Q E w \<longleftrightarrow> (case p of None \<Rightarrow> E BadAccess | Some x \<Rightarrow> Q x w)"
  by (cases p) (simp_all add: derefM_def wp_def retM_def stopM_def)

lemma wp_set_future [wp_simps]:
  "wp (set_future f fut) Q E w \<longleftrightarrow> Q () (w\<lparr>futures := (futures w)(f := fut)\<rparr>)"
  by (simp add: wp_def set_future_def)

lemma wp_if [wp_simps]:
  "wp (if c then a else b) Q E w \<longleftrightarrow> (if c then wp a Q E w else wp b Q E w)"
  by simp

lemma wp_prod [wp_simps]: "wp (case p of (a, b) \<Rightarrow> f a b) Q E w \<longleftrightarrow> (case p of (a, b) \<Rightarrow> wp (f a b) Q E w)"
  by (cases p) simp

lemma wp_next_step [wp_simps]:
  "wp next_step Q E w \<longleftrightarrow>
     (case schedule w of [] \<Rightarrow> E ScheduleEnd | s # ss \<Rightarrow> Q s (w\<lparr>schedule := ss\<rparr>))"
  by (simp add: wp_def next_step_def split: list.splits)

text \<open>The world after the other threads have made the writes of one interference step.\<close>

definition disturbed :: "(fid \<times> u32) list \<Rightarrow> step list \<Rightarrow> world \<Rightarrow> world" where
  "disturbed ws ss w = w\<lparr>schedule := ss, futures := apply_writes ws (futures w)\<rparr>"

lemma wp_interference [wp_simps]:
  "wp interference Q E w \<longleftrightarrow> (case schedule w of
     Interference ws sp # ss \<Rightarrow> Q sp (disturbed ws ss w) | _ \<Rightarrow> E ScheduleEnd)"
  by (auto simp: interference_def wp_bind wp_next_step wp_stop disturbed_def split: list.splits step.splits)
     (simp add: wp_def)+

lemma wp_read_clock [wp_simps]:
  "wp read_clock Q E w \<longleftrightarrow> (case schedule w of
     Clock t # ss \<Rightarrow> Q t (w\<lparr>schedule := ss\<rparr>) | _ \<Rightarrow> E ScheduleEnd)"
  by (auto simp: read_clock_def wp_simps split: list.splits step.splits)

lemma wp_syscall [wp_simps]:
  "wp syscall Q E w \<longleftrightarrow> (case schedule w of
     Returns r e # ss \<Rightarrow> Q (r, e) (w\<lparr>schedule := ss\<rparr>) | _ \<Rightarrow> E ScheduleEnd)"
  by (auto simp: syscall_def wp_simps split: list.splits step.splits)

lemma wp_poll_syscall [wp_simps]:
  "wp poll_syscall Q E w \<longleftrightarrow> (case schedule w of
     Events r e evs # ss \<Rightarrow> Q (r, e, evs) (w\<lparr>schedule := ss\<rparr>) | _ \<Rightarrow> E ScheduleEnd)"
  by (auto simp: poll_syscall_def wp_simps split: list.splits step.splits)

lemma wp_limits_syscall [wp_simps]:
  "wp limits_syscall Q E w \<longleftrightarrow> (case schedule w of
     Limits r e cur mx # ss \<Rightarrow> Q (r, e, cur, mx) (w\<lparr>schedule := ss\<rparr>) | _ \<Rightarrow> E ScheduleEnd)"
  by (auto simp: limits_syscall_def wp_simps split: list.splits step.splits)

lemma wp_mono:
  assumes "wp m Q E w" and "\<And>x w'. Q x w' \<Longrightarrow> Q' x w'" and "\<And>e. E e \<Longrightarrow> E' e"
  shows "wp m Q' E' w"
  using assms by (auto simp: wp_def split: sum.splits)

text \<open>The same rules for weakest preconditions as predicates, for goals in which the world is bound.\<close>

lemma wp_eta:
  "wp (retM x) Q E = Q x"
  "wp (bindM m f) Q E = wp m (\<lambda>x. wp (f x) Q E) E"
  "wp (seqM u k) Q E = wp u (\<lambda>_. wp k Q E) E"
  by (rule ext, simp add: wp_simps)+

lemma wp_total: "wp m Q (\<lambda>_. False) w \<longleftrightarrow> (\<exists>x w'. m w = Inr (x, w') \<and> Q x w')"
  by (auto simp: wp_def split: sum.splits)

lemma wp_conj:
  assumes "wp m Q E w" and "wp m Q' E' w"
  shows "wp m (\<lambda>x w'. Q x w' \<and> Q' x w') (\<lambda>e. E e \<and> E' e) w"
  using assms by (auto simp: wp_def split: sum.splits)

lemma wp_returns: "wp m Q E w \<Longrightarrow> m w = Inr (x, w') \<Longrightarrow> Q x w'"
  by (simp add: wp_def)

lemma wp_stops: "wp m Q E w \<Longrightarrow> m w = Inl e \<Longrightarrow> E e"
  by (simp add: wp_def)

lemma wp_iff_returns:
  "(\<forall>w. P w \<longrightarrow> wp m Q (\<lambda>_. True) w) \<longleftrightarrow> (\<forall>w x w'. P w \<and> m w = Inr (x, w') \<longrightarrow> Q x w')"
  by (auto simp: wp_def split: sum.splits)

section \<open>Memory under interference\<close>

lemma set_word_same [simp]: "status_word (set_word f v fs f) = v"
  by (simp add: set_word_def)

lemma set_word_other [simp]: "g \<noteq> f \<Longrightarrow> set_word f v fs g = fs g"
  by (simp add: set_word_def)

lemma set_word_rest [simp]:
  "specific (set_word f v fs g) = specific (fs g)"
  "status_sync (set_word f v fs g) = status_sync (fs g)"
  "context_id (set_word f v fs g) = context_id (fs g)"
  by (simp_all add: set_word_def)

lemma apply_writes_rest [simp]:
  "specific (apply_writes ws fs g) = specific (fs g)"
  "status_sync (apply_writes ws fs g) = status_sync (fs g)"
  "context_id (apply_writes ws fs g) = context_id (fs g)"
  by (induction ws fs rule: apply_writes.induct) simp_all

text \<open>After interference a status word is the old one or one of the values written to it.\<close>

lemma apply_writes_word:
  "status_word (apply_writes ws fs f) = status_word (fs f) \<or>
   (f, status_word (apply_writes ws fs f)) \<in> set ws"
proof (induction ws fs rule: apply_writes.induct)
  case (2 g v ws fs)
  then show ?case by (cases "g = f") auto
qed simp

end
