(* ===== verification/OsSync.thy ===== *)
theory OsSync
  imports World
begin

text \<open>
  The layer between the futures and the operating system: durations and timeouts (duration.h),
  stopwatches (stopwatch.h), waiting on and waking from a status word (address_wait.c), file
  descriptors (fd.h), events (event.h), timers (timer.h), epoll-based polling (inpoll.c) and
  latched polling (future/latched_inpoll.c), all in their Linux versions.  The results of system
  calls come from the schedule.
\<close>

section \<open>Durations and stopwatches\<close>

type_synonym udipe_duration_ns = u64

definition UDIPE_DURATION_DEFAULT :: udipe_duration_ns where
  "UDIPE_DURATION_DEFAULT = 0"

definition UDIPE_DURATION_MIN :: udipe_duration_ns where
  "UDIPE_DURATION_MIN = 1"

definition UDIPE_DURATION_MAX :: udipe_duration_ns where
  "UDIPE_DURATION_MAX = 0xFFFFFFFFFFFFFFFF"

definition UDIPE_MILLISECOND :: udipe_duration_ns where
  "UDIPE_MILLISECOND = 1000 * 1000"

definition UDIPE_SECOND :: udipe_duration_ns where
  "UDIPE_SECOND = 1000 * UDIPE_MILLISECOND"

text \<open>\<open>None\<close> is the \<open>NULL\<close> pointer, which the Unix calls read as an infinite timeout.\<close>

definition make_unix_timeout :: "udipe_duration_ns \<Rightarrow> timespec option res" where
  "make_unix_timeout timeout =
    assert_that (timeout \<noteq> UDIPE_DURATION_DEFAULT) (
    if timeout = UDIPE_DURATION_MAX then Inr None
    else if timeout = UDIPE_DURATION_MIN then Inr (Some \<lparr>tv_sec = 0, tv_nsec = 0\<rparr>)
    else Inr (Some \<lparr>tv_sec = uint (timeout div UDIPE_SECOND), tv_nsec = uint (timeout mod UDIPE_SECOND)\<rparr>))"

record stopwatch =
  last_time :: timespec

definition stopwatch_initialize :: "stopwatch comp" where
  "stopwatch_initialize = bindM read_clock (\<lambda>t. retM \<lparr>last_time = t\<rparr>)"

definition stopwatch_elapsed :: "timespec \<Rightarrow> timespec \<Rightarrow> udipe_duration_ns" where
  "stopwatch_elapsed start_time current_time = (
    let elapsed_time = word_of_int (tv_sec current_time - tv_sec start_time) * UDIPE_SECOND in
    if tv_nsec current_time \<ge> tv_nsec start_time
    then elapsed_time + word_of_int (tv_nsec current_time - tv_nsec start_time)
    else elapsed_time + UDIPE_SECOND - word_of_int (tv_nsec start_time - tv_nsec current_time))"

definition stopwatch_measure :: "stopwatch \<Rightarrow> (udipe_duration_ns \<times> stopwatch) comp" where
  "stopwatch_measure stopwatch =
    bindM read_clock (\<lambda>current_time.
    seqM (assertM (tv_sec current_time \<ge> tv_sec (last_time stopwatch))) (
    retM (stopwatch_elapsed (last_time stopwatch) current_time, \<lparr>last_time = current_time\<rparr>)))"

section \<open>Waiting on an address\<close>

definition wait_on_address :: "fid \<Rightarrow> u32 \<Rightarrow> udipe_duration_ns \<Rightarrow> bool comp" where
  "wait_on_address f expected timeout =
    seqM (assertM (timeout \<noteq> UDIPE_DURATION_DEFAULT)) (
    if timeout = UDIPE_DURATION_MIN then
      bindM interference (\<lambda>_.
      bindM (get_future f) (\<lambda>fut. retM (status_word fut \<noteq> expected)))
    else
      bindM (liftR (make_unix_timeout timeout)) (\<lambda>pdelay.
      bindM syscall (\<lambda>(result, errno).
      if result = 0 then retM True
      else if result = -1 then
        (case errno of
           EAGAIN \<Rightarrow> retM True
         | ETIMEDOUT \<Rightarrow> retM False
         | EINTR \<Rightarrow> retM False
         | _ \<Rightarrow> stopM ExitError)
      else stopM ExitError)))"

definition wake_by_address_all :: "fid \<Rightarrow> unit comp" where
  "wake_by_address_all f =
    seqM (emit (WakeAll f)) (
    bindM syscall (\<lambda>(result, errno).
    seqM (assertM (result \<ge> -1)) (
    if result < 0 then stopM ExitError else retM ())))"

definition wake_by_address_single :: "fid \<Rightarrow> unit comp" where
  "wake_by_address_single f =
    seqM (emit (WakeSingle f)) (
    bindM syscall (\<lambda>(result, errno).
    seqM (assertM (result \<ge> -1 \<and> result \<le> 1)) (
    if result < 0 then stopM ExitError else retM ())))"

section \<open>File descriptors, events and timers\<close>

definition close_virtual_fd :: "fd \<Rightarrow> fd comp" where
  "close_virtual_fd fd =
    seqM (ensureM (fd \<ge> 0)) (
    seqM (emit (CloseFd fd)) (
    bindM syscall (\<lambda>(result, errno).
    if result = -1 \<and> errno \<noteq> EINTR then stopM ExitError else retM FD_INVALID)))"

definition event_initialize :: "bool \<Rightarrow> fd comp" where
  "event_initialize signaled =
    bindM syscall (\<lambda>(maybe_eventfd, errno).
    if maybe_eventfd = -1 \<and> errno \<in> {EMFILE, ENFILE, EINVAL, ENODEV, ENOMEM} then stopM ExitError
    else seqM (ensureM (maybe_eventfd \<ge> 0)) (retM maybe_eventfd))"

definition event_signal :: "fd \<Rightarrow> unit comp" where
  "event_signal event =
    seqM (emit (EventSignal event)) (
    bindM syscall (\<lambda>(result, errno).
    if result < 0 then stopM ExitError else retM ()))"

definition event_reset :: "fd \<Rightarrow> unit comp" where
  "event_reset event =
    seqM (emit (EventReset event)) (
    bindM syscall (\<lambda>(result, errno).
    if result = -1 then (if errno = EAGAIN then retM () else stopM ExitError)
    else ensureM (result = 8)))"

definition event_finalize :: "fd \<Rightarrow> fd comp" where
  "event_finalize event = bindM (close_virtual_fd event) (\<lambda>_. retM FD_INVALID)"

definition timer_initialize :: "fd comp" where
  "timer_initialize =
    bindM syscall (\<lambda>(maybe_timerfd, errno).
    if maybe_timerfd = -1 \<and> errno \<in> {EMFILE, ENFILE, EINVAL, ENODEV, ENOMEM} then stopM ExitError
    else seqM (ensureM (maybe_timerfd \<ge> 0)) (retM maybe_timerfd))"

definition timer_set_once :: "fd \<Rightarrow> timespec \<Rightarrow> unit comp" where
  "timer_set_once timer deadline =
    seqM (assertM (tv_nsec deadline < 1000 * 1000 * 1000)) (
    seqM (emit (TimerSetOnce timer deadline)) (
    bindM syscall (\<lambda>(result, errno).
    if result < 0 then stopM ExitError else retM ())))"

definition linux_timer_set_repeat :: "fd \<Rightarrow> timespec \<Rightarrow> udipe_duration_ns \<Rightarrow> unit comp" where
  "linux_timer_set_repeat timer initial interval =
    seqM (assertM (tv_nsec initial < 1000 * 1000 * 1000)) (
    seqM (emit (TimerSetRepeat timer initial
       \<lparr>tv_sec = uint (interval div (1000 * 1000 * 1000)), tv_nsec = uint (interval mod (1000 * 1000 * 1000))\<rparr>)) (
    bindM syscall (\<lambda>(result, errno).
    if result < 0 then stopM ExitError else retM ())))"

definition timer_finalize :: "fd \<Rightarrow> fd comp" where
  "timer_finalize timer = bindM (close_virtual_fd timer) (\<lambda>_. retM FD_INVALID)"

section \<open>Polling\<close>

datatype inpoll_attach_result = INPOLL_ATTACH_SUCCESS | INPOLL_ATTACH_TOO_NESTED | INPOLL_ATTACH_REDUNDANT
datatype inpoll_detach_result = INPOLL_DETACH_SUCCESS | INPOLL_DETACH_NONEXISTENT

definition inpoll_initialize :: "fd comp" where
  "inpoll_initialize =
    seqM (emit EpollCreate) (
    bindM syscall (\<lambda>(result, errno).
    if result \<ge> 0 then retM result
    else seqM (assertM (result = -1)) (stopM ExitError)))"

definition inpoll_attach :: "fd \<Rightarrow> fd \<Rightarrow> u64 \<Rightarrow> inpoll_attach_result comp" where
  "inpoll_attach poll upstream_fd identifier =
    seqM (emit (EpollAdd poll upstream_fd identifier)) (
    bindM syscall (\<lambda>(result, errno).
    if result = 0 then retM INPOLL_ATTACH_SUCCESS
    else seqM (assertM (result = -1)) (
      case errno of
        ELOOP \<Rightarrow> retM INPOLL_ATTACH_TOO_NESTED
      | EEXIST \<Rightarrow> retM INPOLL_ATTACH_REDUNDANT
      | _ \<Rightarrow> stopM ExitError)))"

definition inpoll_detach :: "fd \<Rightarrow> fd \<Rightarrow> inpoll_detach_result comp" where
  "inpoll_detach poll upstream_fd =
    seqM (emit (EpollDel poll upstream_fd)) (
    bindM syscall (\<lambda>(result, errno).
    if result = 0 then retM INPOLL_DETACH_SUCCESS
    else seqM (assertM (result = -1)) (
      case errno of
        ENOENT \<Rightarrow> retM INPOLL_DETACH_NONEXISTENT
      | _ \<Rightarrow> stopM ExitError)))"

text \<open>Every turn of a polling loop consumes steps of the schedule, so that the length of the
  schedule bounds the number of turns.\<close>

definition with_fuel :: "(nat \<Rightarrow> 'a comp) \<Rightarrow> 'a comp" where
  "with_fuel body w = body (Suc (length (schedule w))) w"

text \<open>The loop of \<open>inpoll_wait\<close>.  The kernel reports as many events as its result says, at most
  \<open>num_identifiers\<close>.\<close>

fun inpoll_wait_loop :: "nat \<Rightarrow> nat \<Rightarrow> stopwatch \<Rightarrow> udipe_duration_ns \<Rightarrow> u64 list comp" where
  "inpoll_wait_loop 0 num_identifiers stopwatch timeout = stopM ScheduleEnd"
| "inpoll_wait_loop (Suc fuel) num_identifiers stopwatch timeout =
    bindM (liftR (make_unix_timeout timeout)) (\<lambda>pdelay.
    bindM poll_syscall (\<lambda>(result, errno, events).
    if result > 0 then
      seqM (ensureM (nat result \<le> num_identifiers)) (
      if length events \<noteq> nat result then stopM ScheduleEnd
      else seqM (ensureM (\<forall>(only_input, identifier) \<in> set events. only_input)) (
        retM (map snd events)))
    else
      seqM (assertM (result = -1)) (
      if errno = EINTR then
        bindM (stopwatch_measure stopwatch) (\<lambda>(elapsed_time, stopwatch').
        if elapsed_time \<ge> timeout then retM []
        else inpoll_wait_loop fuel num_identifiers stopwatch' (timeout - elapsed_time))
      else stopM ExitError)))"

definition INT_MAX :: int where
  "INT_MAX = 2147483647"

definition inpoll_wait :: "fd \<Rightarrow> nat \<Rightarrow> udipe_duration_ns \<Rightarrow> u64 list comp" where
  "inpoll_wait poll num_identifiers timeout =
    bindM stopwatch_initialize (\<lambda>stopwatch.
    seqM (ensureM (int num_identifiers \<le> INT_MAX)) (
    with_fuel (\<lambda>fuel. inpoll_wait_loop fuel num_identifiers stopwatch timeout)))"

definition inpoll_finalize :: "fd \<Rightarrow> fd comp" where
  "inpoll_finalize poll = close_virtual_fd poll"

definition INPOLL_LATCH_ID :: u64 where
  "INPOLL_LATCH_ID = 0xFFFFFFFFFFFFFFFF"

record inpoll_with_latch =
  inpoll_fd :: fd
  latch_fd :: fd

definition latched_inpoll_initialize :: "inpoll_with_latch comp" where
  "latched_inpoll_initialize =
    bindM (event_initialize False) (\<lambda>latch.
    bindM inpoll_initialize (\<lambda>inpoll.
    bindM (inpoll_attach inpoll latch INPOLL_LATCH_ID) (\<lambda>result.
    case result of
      INPOLL_ATTACH_SUCCESS \<Rightarrow> retM \<lparr>inpoll_fd = inpoll, latch_fd = latch\<rparr>
    | _ \<Rightarrow> stopM ExitError)))"

section \<open>Weakest preconditions of the operating system calls\<close>

lemmas duration_consts =
  UDIPE_DURATION_DEFAULT_def UDIPE_DURATION_MIN_def UDIPE_DURATION_MAX_def UDIPE_MILLISECOND_def UDIPE_SECOND_def

lemma unit_seconds [simp]: "UDIPE_SECOND = 1000000000"
  by (simp add: duration_consts)

lemma wp_with_fuel [wp_simps]:
  "wp (with_fuel body) Q E w \<longleftrightarrow> wp (body (Suc (length (schedule w)))) Q E w"
  by (simp add: wp_def with_fuel_def)

lemma wp_stopwatch_measure [wp_simps]:
  "wp (stopwatch_measure sw) Q E w \<longleftrightarrow> (case schedule w of
     Clock t # ss \<Rightarrow> (if tv_sec t \<ge> tv_sec (last_time sw)
        then Q (stopwatch_elapsed (last_time sw) t, \<lparr>last_time = t\<rparr>) (w\<lparr>schedule := ss\<rparr>)
        else E AssertFailed)
   | _ \<Rightarrow> E ScheduleEnd)"
  by (auto simp: stopwatch_measure_def wp_simps split: list.splits step.splits)

lemma wp_stopwatch_initialize [wp_simps]:
  "wp stopwatch_initialize Q E w \<longleftrightarrow> (case schedule w of
     Clock t # ss \<Rightarrow> Q \<lparr>last_time = t\<rparr> (w\<lparr>schedule := ss\<rparr>) | _ \<Rightarrow> E ScheduleEnd)"
  by (auto simp: stopwatch_initialize_def wp_simps split: list.splits step.splits)

text \<open>What is left of a timeout is never the special value that stands for the default.\<close>

lemma remaining_not_default:
  fixes t e :: u64
  assumes "\<not> t \<le> e"
  shows "t - e \<noteq> UDIPE_DURATION_DEFAULT"
  using assms by (auto simp: duration_consts)

lemma make_unix_timeout_total:
  "t \<noteq> UDIPE_DURATION_DEFAULT \<Longrightarrow> \<exists>r. make_unix_timeout t = Inr r"
  by (auto simp: make_unix_timeout_def)

section \<open>Polling under a well-behaved kernel\<close>

text \<open>The seconds of the clock never go back, and epoll returns a positive count or fails: it does
  not report a timeout.\<close>

fun clocks_from :: "int \<Rightarrow> step list \<Rightarrow> bool" where
  "clocks_from s [] \<longleftrightarrow> True"
| "clocks_from s (Clock t # ss) \<longleftrightarrow> s \<le> tv_sec t \<and> clocks_from (tv_sec t) ss"
| "clocks_from s (_ # ss) \<longleftrightarrow> clocks_from s ss"

definition no_poll_timeout :: "step list \<Rightarrow> bool" where
  "no_poll_timeout ss \<longleftrightarrow> (\<forall>s \<in> set ss. case s of Events r e evs \<Rightarrow> r > 0 \<or> r = -1 | _ \<Rightarrow> True)"

lemma no_poll_timeout_Cons [simp]:
  "no_poll_timeout (s # ss) \<longleftrightarrow>
     (case s of Events r e evs \<Rightarrow> r > 0 \<or> r = -1 | _ \<Rightarrow> True) \<and> no_poll_timeout ss"
  by (simp add: no_poll_timeout_def)

lemma inpoll_wait_loop_wp:
  assumes "timeout \<noteq> UDIPE_DURATION_DEFAULT"
    and "clocks_from (tv_sec (last_time sw)) (schedule w)" and "no_poll_timeout (schedule w)"
  shows "wp (inpoll_wait_loop fuel n sw timeout)
     (\<lambda>ids w'. length ids \<le> n \<and> futures w' = futures w \<and> trace w' = trace w)
     (\<lambda>e. e \<noteq> AssertFailed) w"
  using assms
proof (induction fuel arbitrary: sw timeout w)
  case (Suc fuel)
  obtain r where r: "make_unix_timeout timeout = Inr r"
    using make_unix_timeout_total [OF Suc.prems(1)] by blast
  show ?case
    using Suc.prems
    by (auto simp: wp_simps r split: list.splits step.splits
        intro!: wp_mono [OF Suc.IH] remaining_not_default)
qed (simp add: wp_simps)

section \<open>Properties\<close>

lemma uint_word_of_int_small: "0 \<le> x \<Longrightarrow> x < 2 ^ 64 \<Longrightarrow> uint (word_of_int x :: u64) = x"
  by (simp add: uint_word_of_int take_bit_eq_mod)

text \<open>The signed value that \<open>stopwatch_measure\<close> computes, before it is stored in 64 bits.\<close>

definition measured_ns :: "timespec \<Rightarrow> timespec \<Rightarrow> int" where
  "measured_ns s c = (tv_sec c - tv_sec s) * 1000000000 + (tv_nsec c - tv_nsec s)
     + (if tv_nsec c < tv_nsec s then 1000000000 else 0)"

lemma stopwatch_elapsed_int: "stopwatch_elapsed s c = word_of_int (measured_ns s c)"
  by (simp add: stopwatch_elapsed_def measured_ns_def Let_def)

text \<open>A timeout other than the default is translated without loss: \<open>NULL\<close> for the infinite
  timeout and for it only, zero for the instantaneous one, and otherwise a valid \<open>timespec\<close> of
  exactly that many nanoseconds.\<close>

theorem make_unix_timeout_exact:
  assumes "timeout \<noteq> UDIPE_DURATION_DEFAULT"
  shows "\<exists>r. make_unix_timeout timeout = Inr r \<and> (r = None \<longleftrightarrow> timeout = UDIPE_DURATION_MAX) \<and>
    (\<forall>ts. r = Some ts \<longrightarrow> 0 \<le> tv_nsec ts \<and> tv_nsec ts < 1000000000 \<and>
       tv_sec ts * 1000000000 + tv_nsec ts =
         (if timeout = UDIPE_DURATION_MIN then 0 else uint timeout))"
proof -
  have "uint (timeout div UDIPE_SECOND) * 1000000000 + uint (timeout mod UDIPE_SECOND) = uint timeout"
    and "uint (timeout mod UDIPE_SECOND) < 1000000000"
    by (simp_all add: uint_div_distrib uint_mod_distrib)
  then show ?thesis using assms by (auto simp: make_unix_timeout_def)
qed

theorem make_unix_timeout_exact_witness:
  "\<exists>r. make_unix_timeout 2500000001 = Inr r \<and> (r = None \<longleftrightarrow> 2500000001 = UDIPE_DURATION_MAX) \<and>
    (\<forall>ts. r = Some ts \<longrightarrow> 0 \<le> tv_nsec ts \<and> tv_nsec ts < 1000000000 \<and>
       tv_sec ts * 1000000000 + tv_nsec ts =
         (if 2500000001 = UDIPE_DURATION_MIN then 0 else uint (2500000001 :: u64)))"
  by (rule make_unix_timeout_exact) (simp add: UDIPE_DURATION_DEFAULT_def)

text \<open>The elapsed time that \<open>stopwatch_measure\<close> reports is the time between the two clock
  readings, plus one whole second whenever the nanosecond part of the second reading is below that
  of the first: the borrow is added although the seconds already contain it.\<close>

theorem stopwatch_measure_exact:
  assumes "0 \<le> tv_nsec s" "tv_nsec s < 1000000000" "0 \<le> tv_nsec c" "tv_nsec c < 1000000000"
    and "tv_sec s \<le> tv_sec c" "tv_sec c - tv_sec s \<le> 9000000000"
    and "schedule w = Clock c # ss"
  shows "\<exists>elapsed. stopwatch_measure \<lparr>last_time = s\<rparr> w = Inr ((elapsed, \<lparr>last_time = c\<rparr>), w\<lparr>schedule := ss\<rparr>) \<and>
    uint elapsed = (tv_sec c * 1000000000 + tv_nsec c) - (tv_sec s * 1000000000 + tv_nsec s)
      + (if tv_nsec c < tv_nsec s then 1000000000 else 0)"
proof -
  have "0 \<le> measured_ns s c" "measured_ns s c < 2 ^ 64"
    using assms by (auto simp: measured_ns_def)
  then have "uint (stopwatch_elapsed s c) = measured_ns s c"
    by (simp add: stopwatch_elapsed_int uint_word_of_int_small)
  then show ?thesis
    using assms(5,7)
    by (simp add: stopwatch_measure_def bindM_def seqM_def read_clock_def next_step_def assertM_def retM_def
        measured_ns_def left_diff_distrib)
qed

definition wrap_demo :: world where
  "wrap_demo = \<lparr>futures = (\<lambda>_. \<lparr>specific = Custom [], context_id = 0, status_sync = 0, status_word = 0\<rparr>), allocator = empty_allocator,
     schedule = [Clock \<lparr>tv_sec = 11, tv_nsec = 100000000\<rparr>], trace = []\<rparr>"

theorem stopwatch_measure_exact_witness:
  "\<exists>elapsed. stopwatch_measure \<lparr>last_time = \<lparr>tv_sec = 10, tv_nsec = 900000000\<rparr>\<rparr> wrap_demo =
      Inr ((elapsed, \<lparr>last_time = \<lparr>tv_sec = 11, tv_nsec = 100000000\<rparr>\<rparr>), wrap_demo\<lparr>schedule := []\<rparr>) \<and>
    uint elapsed = 200000000 + 1000000000"
  using stopwatch_measure_exact [of "\<lparr>tv_sec = 10, tv_nsec = 900000000\<rparr>" "\<lparr>tv_sec = 11, tv_nsec = 100000000\<rparr>"
      wrap_demo "[]"]
  by (simp add: wrap_demo_def)

text \<open>While the clock does not go back and epoll reports events or errors, \<open>inpoll_wait\<close> never
  fails an assertion (in particular, what is left of the timeout never becomes the default value),
  changes no memory, and returns at most \<open>num_identifiers\<close> identifiers.\<close>

theorem inpoll_wait_sound:
  assumes "timeout \<noteq> UDIPE_DURATION_DEFAULT" and "int n \<le> INT_MAX"
    and "clocks_from 0 (schedule w)" and "no_poll_timeout (schedule w)"
  shows "case inpoll_wait poll n timeout w of
      Inl e \<Rightarrow> e \<noteq> AssertFailed
    | Inr (ids, w') \<Rightarrow> length ids \<le> n \<and> futures w' = futures w \<and> trace w' = trace w"
proof -
  have "wp (inpoll_wait poll n timeout)
     (\<lambda>ids w'. length ids \<le> n \<and> futures w' = futures w \<and> trace w' = trace w) (\<lambda>e. e \<noteq> AssertFailed) w"
    using assms
    by (auto simp: inpoll_wait_def wp_simps simp del: inpoll_wait_loop.simps split: list.splits step.splits
        intro!: wp_mono [OF inpoll_wait_loop_wp])
  then show ?thesis by (simp add: wp_def)
qed

definition poll_demo :: world where
  "poll_demo = \<lparr>futures = (\<lambda>_. \<lparr>specific = Custom [], context_id = 0, status_sync = 0, status_word = 0\<rparr>), allocator = empty_allocator,
     schedule = [Clock \<lparr>tv_sec = 5, tv_nsec = 0\<rparr>, Events (-1) EINTR [],
       Clock \<lparr>tv_sec = 5, tv_nsec = 40\<rparr>, Events 2 EOTHER [(True, 3), (True, 7)]], trace = []\<rparr>"

theorem inpoll_wait_sound_witness:
  "case inpoll_wait 9 4 100 poll_demo of
      Inl e \<Rightarrow> e \<noteq> AssertFailed
    | Inr (ids, w') \<Rightarrow> length ids \<le> 4 \<and> futures w' = futures poll_demo \<and> trace w' = trace poll_demo"
  by (rule inpoll_wait_sound)
     (simp_all add: UDIPE_DURATION_DEFAULT_def INT_MAX_def poll_demo_def no_poll_timeout_def)

text \<open>When the timeout of \<open>inpoll_wait\<close> expires before any event, \<open>epoll_pwait2\<close> returns 0, which
  the code takes for an error: the debug assertion \<open>result == -1\<close> fails.\<close>

theorem inpoll_wait_timeout_fails:
  assumes "timeout \<noteq> UDIPE_DURATION_DEFAULT" and "int n \<le> INT_MAX"
    and "schedule w = Clock t # Events 0 e [] # ss"
  shows "inpoll_wait poll n timeout w = Inl AssertFailed"
proof -
  have "wp (inpoll_wait poll n timeout) (\<lambda>_ _. False) (\<lambda>e. e = AssertFailed) w"
    using assms make_unix_timeout_total [OF assms(1)] by (auto simp: inpoll_wait_def wp_simps)
  then show ?thesis by (auto simp: wp_def split: sum.splits)
qed

theorem inpoll_wait_timeout_fails_witness:
  "inpoll_wait 9 4 1000 (poll_demo\<lparr>schedule := [Clock \<lparr>tv_sec = 5, tv_nsec = 0\<rparr>, Events 0 EOTHER []]\<rparr>) =
     Inl AssertFailed"
  by (rule inpoll_wait_timeout_fails [where ss = "[]"])
     (simp_all add: UDIPE_DURATION_DEFAULT_def INT_MAX_def)

end
