(* ===== verification/StatusOps.thy ===== *)
theory StatusOps
  imports OsSync
begin

text \<open>
  Atomic operations on the status word of a future (future/status_ops.h).  Memory orderings are not
  modelled: the accesses of one thread are sequentially consistent, interleaved with arbitrary
  writes of other threads (\<open>interference\<close>).  A result parameter of the source (\<open>expected\<close>,
  \<open>latest_status\<close>) is returned next to the result.

  The functions of wait.c and future.c change the status word in compare-exchange loops of one
  shape: compute the desired status from the latest known one, try to publish it, and on failure
  look at the status another thread has published and try again.  \<open>cas_loop\<close> is that shape; the
  locale \<open>status_update\<close> holds what every such loop guarantees, given what its body may propose.
\<close>

section \<open>Atomic accesses\<close>

definition check_status :: "future_status \<Rightarrow> bool \<Rightarrow> unit comp" where
  "check_status st is_allocated = liftR (future_status_debug_check st is_allocated)"

definition write_word :: "fid \<Rightarrow> u32 \<Rightarrow> unit comp" where
  "write_word f v w = Inr ((), w\<lparr>futures := set_word f v (futures w),
     trace := Write f (status_word (futures w f)) v # trace w\<rparr>)"

definition future_status_initialize :: "fid \<Rightarrow> future_status \<Rightarrow> unit comp" where
  "future_status_initialize f status =
    seqM (check_status status False) (write_word f (as_word status))"

definition future_status_load :: "fid \<Rightarrow> future_status comp" where
  "future_status_load f =
    bindM interference (\<lambda>_. bindM (get_future f) (\<lambda>fut. retM (as_bitfield (status_word fut))))"

definition future_status_store :: "fid \<Rightarrow> future_status \<Rightarrow> unit comp" where
  "future_status_store f status = bindM interference (\<lambda>_. write_word f (as_word status))"

definition future_status_exchange :: "fid \<Rightarrow> future_status \<Rightarrow> future_status comp" where
  "future_status_exchange f status =
    bindM interference (\<lambda>_.
    bindM (get_future f) (\<lambda>fut.
    seqM (write_word f (as_word status)) (
    retM (as_bitfield (status_word fut)))))"

definition future_status_compare_exchange_strong ::
  "fid \<Rightarrow> future_status \<Rightarrow> future_status \<Rightarrow> (bool \<times> future_status) comp" where
  "future_status_compare_exchange_strong f expected desired =
    seqM (check_status expected True) (
    seqM (check_status desired True) (
    bindM interference (\<lambda>_.
    bindM (get_future f) (\<lambda>fut.
    if status_word fut = as_word expected
    then seqM (write_word f (as_word desired)) (retM (True, expected))
    else seqM (check_status (as_bitfield (status_word fut)) True) (
         retM (False, as_bitfield (status_word fut)))))))"

definition future_status_compare_exchange_weak ::
  "fid \<Rightarrow> future_status \<Rightarrow> future_status \<Rightarrow> (bool \<times> future_status) comp" where
  "future_status_compare_exchange_weak f expected desired =
    seqM (check_status expected True) (
    seqM (check_status desired True) (
    bindM interference (\<lambda>spurious.
    bindM (get_future f) (\<lambda>fut.
    if status_word fut = as_word expected \<and> \<not> spurious
    then seqM (write_word f (as_word desired)) (retM (True, expected))
    else seqM (check_status (as_bitfield (status_word fut)) True) (
         retM (False, as_bitfield (status_word fut)))))))"

definition future_status_wait :: "fid \<Rightarrow> future_status \<Rightarrow> udipe_duration_ns \<Rightarrow> bool comp" where
  "future_status_wait f expected timeout =
    seqM (check_status expected True) (wait_on_address f (as_word expected) timeout)"

definition future_downstream_count_dec :: "fid \<Rightarrow> future_status comp" where
  "future_downstream_count_dec f =
    bindM interference (\<lambda>_.
    bindM (get_future f) (\<lambda>fut.
    seqM (write_word f (status_word fut - 1)) (
    let pre_op_status = as_bitfield (status_word fut) in
    seqM (check_status pre_op_status True) (
    seqM (assertM (downstream_count pre_op_status \<ge> 1)) (
    let result = pre_op_status\<lparr>downstream_count := downstream_count pre_op_status - 1\<rparr> in
    seqM (check_status result True) (
    retM result))))))"

definition future_downstream_count_try_inc :: "fid \<Rightarrow> future_status \<Rightarrow> (bool \<times> future_status) comp" where
  "future_downstream_count_try_inc f latest_status =
    seqM (check_status latest_status True) (
    bindM interference (\<lambda>_.
    bindM (get_future f) (\<lambda>fut.
    seqM (write_word f (status_word fut + 1)) (
    let pre_op_status = as_bitfield (status_word fut) in
    seqM (check_status pre_op_status True) (
    if downstream_count_overflow pre_op_status \<or> downstream_count pre_op_status = MAX_DOWNSTREAM_COUNT
    then stopM ExitError
    else if fstate pre_op_status = STATE_RESULT then
      bindM (future_downstream_count_dec f) (\<lambda>latest.
      seqM (assertM (fstate latest = STATE_RESULT)) (
      seqM (check_status latest True) (
      retM (False, latest))))
    else
      let latest = pre_op_status\<lparr>downstream_count := downstream_count pre_op_status + 1\<rparr> in
      seqM (check_status latest True) (
      retM (True, latest)))))))"

section \<open>Compare-exchange loops\<close>

text \<open>Publish a status, with a value for the code after the loop, or leave the loop.\<close>

datatype ('p, 'r) decision = Publish future_status 'p | Leave 'r

fun cas_loop :: "nat \<Rightarrow> fid \<Rightarrow> (future_status \<Rightarrow> ('p, 'r) decision comp) \<Rightarrow>
    (future_status \<Rightarrow> 'r option comp) \<Rightarrow> future_status \<Rightarrow> ('p, 'r) decision comp" where
  "cas_loop 0 f prepare retry latest = stopM ScheduleEnd"
| "cas_loop (Suc fuel) f prepare retry latest =
    bindM (prepare latest) (\<lambda>d. case d of
      Leave r \<Rightarrow> retM (Leave r)
    | Publish desired p \<Rightarrow>
        bindM (future_status_compare_exchange_weak f latest desired) (\<lambda>(success, latest').
        if success then retM (Publish desired p)
        else bindM (retry latest') (\<lambda>r. case r of
          Some x \<Rightarrow> retM (Leave x)
        | None \<Rightarrow> cas_loop fuel f prepare retry latest')))"

section \<open>Weakest preconditions of the atomic accesses\<close>

definition written :: "fid \<Rightarrow> u32 \<Rightarrow> world \<Rightarrow> world" where
  "written f v w = w\<lparr>futures := set_word f v (futures w),
     trace := Write f (status_word (futures w f)) v # trace w\<rparr>"

definition status_in :: "world \<Rightarrow> fid \<Rightarrow> future_status" where
  "status_in w f = as_bitfield (status_word (futures w f))"

lemma status_in_written [simp]: "status_in (written f v w) f = as_bitfield v"
  by (simp add: status_in_def written_def)

lemma status_in_written_other [simp]: "g \<noteq> f \<Longrightarrow> status_in (written f v w) g = status_in w g"
  by (simp add: status_in_def written_def)

lemma world_parts [simp]:
  "trace (disturbed ws ss w) = trace w"
  "schedule (disturbed ws ss w) = ss"
  "schedule (written f v w) = schedule w"
  "trace (written f v w) = Write f (status_word (futures w f)) v # trace w"
  "specific (futures (disturbed ws ss w) g) = specific (futures w g)"
  "specific (futures (written f v w) g) = specific (futures w g)"
  "status_sync (futures (disturbed ws ss w) g) = status_sync (futures w g)"
  "status_sync (futures (written f v w) g) = status_sync (futures w g)"
  by (simp_all add: disturbed_def written_def)

lemma word_status_in: "status_word (futures w f) = as_word (status_in w f)"
  by (simp add: status_in_def)

lemma wp_check_status [wp_simps]:
  "wp (check_status st True) Q E w \<longleftrightarrow>
     (if valid_status st then Q () w
      else E (case future_status_debug_check st True of Inl e \<Rightarrow> e | Inr _ \<Rightarrow> AssertFailed))"
  by (cases "future_status_debug_check st True")
     (auto simp: check_status_def wp_simps debug_check_allocated [symmetric] simp del: debug_check_allocated)

lemma wp_write_word [wp_simps]: "wp (write_word f v) Q E w \<longleftrightarrow> Q () (written f v w)"
  by (simp add: wp_def write_word_def written_def)

lemma wp_status_load [wp_simps]:
  "wp (future_status_load f) Q E w \<longleftrightarrow> (case schedule w of
     Interference ws sp # ss \<Rightarrow> Q (status_in (disturbed ws ss w) f) (disturbed ws ss w)
   | _ \<Rightarrow> E ScheduleEnd)"
  by (auto simp: future_status_load_def wp_simps status_in_def split: list.splits step.splits)

definition invalid_stop :: "future_status \<Rightarrow> stop" where
  "invalid_stop st = (case future_status_debug_check st True of Inl e \<Rightarrow> e | Inr _ \<Rightarrow> AssertFailed)"

lemma wp_cas_weak [wp_simps]:
  "wp (future_status_compare_exchange_weak f expected desired) Q E w \<longleftrightarrow>
     (if \<not> valid_status expected then E (invalid_stop expected)
      else if \<not> valid_status desired then E (invalid_stop desired)
      else case schedule w of
        Interference ws sp # ss \<Rightarrow>
          let w1 = disturbed ws ss w in
          if status_in w1 f = expected \<and> \<not> sp then Q (True, expected) (written f (as_word desired) w1)
          else if valid_status (status_in w1 f) then Q (False, status_in w1 f) w1
          else E (invalid_stop (status_in w1 f))
      | _ \<Rightarrow> E ScheduleEnd)"
proof -
  have eq: "status_word u = as_word expected \<longleftrightarrow> as_bitfield (status_word u) = expected" for u
    by (metis as_bitfield_as_word as_word_as_bitfield)
  show ?thesis
    by (auto simp: future_status_compare_exchange_weak_def wp_simps status_in_def Let_def invalid_stop_def eq
        split: list.splits step.splits)
qed

section \<open>The protocol of status changes\<close>

text \<open>What one atomic change of a live status word may do, whoever makes it: the type is constant,
  the state machine only moves forward, an outcome that is known stays, notification requests stay,
  a future that udipe_finish() has claimed stays claimed, and the count moves by at most one.\<close>

definition protocol :: "future_status \<Rightarrow> future_status \<Rightarrow> bool" where
  "protocol s t \<longleftrightarrow> valid_status s \<and> valid_status t \<and>
     ftype t = ftype s \<and>
     state_code (fstate s) \<le> state_code (fstate t) \<and>
     (foutcome s \<noteq> OUTCOME_UNKNOWN \<longrightarrow> foutcome t = foutcome s) \<and>
     (notify_address s \<longrightarrow> notify_address t) \<and>
     (ftype s \<in> worker_types \<and> notify_event_or_lazy_lock s \<longrightarrow> notify_event_or_lazy_lock t) \<and>
     (available t \<longrightarrow> available s) \<and>
     downstream_count t \<in> {downstream_count s, downstream_count s + 1, downstream_count s - 1}"

text \<open>The writes of a thread, as recorded in its trace, all follow a relation.\<close>

definition writes_follow :: "(future_status \<Rightarrow> future_status \<Rightarrow> bool) \<Rightarrow> effect list \<Rightarrow> bool" where
  "writes_follow R tr \<longleftrightarrow> (\<forall>f u v. Write f u v \<in> set tr \<longrightarrow> R (as_bitfield u) (as_bitfield v))"

lemma writes_follow_Nil [simp]: "writes_follow R []"
  by (simp add: writes_follow_def)

lemma writes_follow_Cons [simp]:
  "writes_follow R (e # tr) \<longleftrightarrow>
     (case e of Write f u v \<Rightarrow> R (as_bitfield u) (as_bitfield v) | _ \<Rightarrow> True) \<and> writes_follow R tr"
  by (auto simp: writes_follow_def split: effect.splits)

lemma state_code_simps [simp]:
  "state_code STATE_UNINITIALIZED = 0" "state_code STATE_WAITING = 1" "state_code STATE_PROCESSING = 2"
  "state_code STATE_CANCELING = 3" "state_code STATE_RESULT = 4"
  by (simp_all add: state_code_def STATES_def)

lemma valid_status_result_last: "valid_status t \<Longrightarrow> 4 \<le> state_code (fstate t) \<longleftrightarrow> fstate t = STATE_RESULT"
  by (cases "fstate t") (simp_all add: valid_status_def)

lemma valid_state_le_result [simp]: "valid_status t \<Longrightarrow> state_code (fstate t) \<le> 4"
  by (cases "fstate t") (simp_all add: valid_status_def)

lemma protocol_refl: "valid_status s \<Longrightarrow> protocol s s"
  by (simp add: protocol_def)

text \<open>Consequences along a whole history of changes.\<close>

lemma history_invariant:
  assumes "protocol\<^sup>*\<^sup>* s t" and "valid_status s"
  shows "valid_status t \<and> ftype t = ftype s \<and> state_code (fstate s) \<le> state_code (fstate t) \<and>
    (foutcome s \<noteq> OUTCOME_UNKNOWN \<longrightarrow> foutcome t = foutcome s) \<and>
    (notify_address s \<longrightarrow> notify_address t) \<and> (available t \<longrightarrow> available s)"
  using assms by (induction rule: rtranclp_induct) (auto simp: protocol_def)

lemma count_change_protocol:
  assumes "valid_status s" and "downstream_count s \<noteq> MAX_DOWNSTREAM_COUNT"
    and "valid_status (s\<lparr>downstream_count := downstream_count s + 1\<rparr>)"
  shows "protocol s (s\<lparr>downstream_count := downstream_count s + 1\<rparr>)"
  using assms by (simp add: protocol_def)

lemma count_dec_protocol:
  assumes "valid_status s" and "valid_status (s\<lparr>downstream_count := downstream_count s - 1\<rparr>)"
  shows "protocol s (s\<lparr>downstream_count := downstream_count s - 1\<rparr>)"
  using assms by (simp add: protocol_def)

section \<open>Reference counting on the shared word\<close>

lemma u16_ge_1: "(c :: u16) \<ge> 1 \<longleftrightarrow> c \<noteq> 0"
  by (simp add: word_le_nat_alt unat_eq_0 Suc_le_eq flip: unat_gt_0)

lemma wp_count_dec [wp_simps]:
  "wp (future_downstream_count_dec f) Q E w \<longleftrightarrow> (case schedule w of
     Interference ws sp # ss \<Rightarrow>
       let w1 = disturbed ws ss w; pre = status_in w1 f;
           post = pre\<lparr>downstream_count := downstream_count pre - 1\<rparr> in
       if \<not> valid_status pre then E (invalid_stop pre)
       else if downstream_count pre = 0 then E AssertFailed
       else if \<not> valid_status post then E (invalid_stop post)
       else Q post (written f (as_word post) w1)
   | _ \<Rightarrow> E ScheduleEnd)"
proof -
  have dec: "status_word u - 1 = as_word ((as_bitfield (status_word u))
      \<lparr>downstream_count := downstream_count (as_bitfield (status_word u)) - 1\<rparr>)"
    if "downstream_count (as_bitfield (status_word u)) \<noteq> 0" for u
    using as_word_dec [OF that] by simp
  show ?thesis
    by (auto simp: future_downstream_count_dec_def wp_simps Let_def status_in_def invalid_stop_def u16_ge_1 dec
        split: list.splits step.splits)
qed

lemma valid_inc:
  "valid_status s \<Longrightarrow> fstate s \<noteq> STATE_RESULT \<Longrightarrow>
   valid_status (s\<lparr>downstream_count := downstream_count s + 1\<rparr>) \<longleftrightarrow>
     available s \<or> downstream_count s = MAX_DOWNSTREAM_COUNT"
proof -
  have "downstream_count s + 1 = 0 \<longleftrightarrow> downstream_count s = MAX_DOWNSTREAM_COUNT"
    by (metis add_diff_cancel max_count_minus)
  then show "valid_status s \<Longrightarrow> fstate s \<noteq> STATE_RESULT \<Longrightarrow> ?thesis"
    by (auto simp: valid_status_def)
qed

lemma wp_try_inc [wp_simps]:
  "wp (future_downstream_count_try_inc f latest) Q E w \<longleftrightarrow>
    (if \<not> valid_status latest then E (invalid_stop latest) else case schedule w of
       Interference ws sp # ss \<Rightarrow>
         let w1 = disturbed ws ss w; pre = status_in w1 f;
             post = pre\<lparr>downstream_count := downstream_count pre + 1\<rparr>;
             w2 = written f (as_word pre + 1) w1 in
         if \<not> valid_status pre then E (invalid_stop pre)
         else if downstream_count pre = MAX_DOWNSTREAM_COUNT then E ExitError
         else if fstate pre = STATE_RESULT then
           wp (future_downstream_count_dec f) (\<lambda>st w3.
             if fstate st = STATE_RESULT then
               (if valid_status st then Q (False, st) w3 else E (invalid_stop st))
             else E AssertFailed) E w2
         else if \<not> valid_status post then E (invalid_stop post)
         else Q (True, post) w2
     | _ \<Rightarrow> E ScheduleEnd)"
proof -
  have over: "\<not> downstream_count_overflow s" if "valid_status s" for s
    using that by (simp add: valid_status_def)
  show ?thesis
    by (auto simp: future_downstream_count_try_inc_def wp_simps Let_def status_in_def invalid_stop_def over
        split: list.splits step.splits if_splits)
qed

section \<open>Computations whose writes follow a relation\<close>

definition follows :: "(future_status \<Rightarrow> future_status \<Rightarrow> bool) \<Rightarrow> 'a comp \<Rightarrow> bool" where
  "follows R m \<longleftrightarrow> (\<forall>w. writes_follow R (trace w) \<longrightarrow>
     wp m (\<lambda>_ w'. writes_follow R (trace w')) (\<lambda>_. True) w)"

named_theorems follows_intros \<open>computations whose writes follow a relation\<close>

lemma followsI:
  "(\<And>w. writes_follow R (trace w) \<Longrightarrow> wp m (\<lambda>_ w'. writes_follow R (trace w')) (\<lambda>_. True) w) \<Longrightarrow> follows R m"
  by (simp add: follows_def)

lemma follows_returns:
  "follows R m \<Longrightarrow> m w = Inr (x, w') \<Longrightarrow> writes_follow R (trace w) \<Longrightarrow> writes_follow R (trace w')"
  by (auto simp: follows_def wp_def)

lemma follows_bind [follows_intros]:
  assumes "follows R m" and "\<And>x. follows R (k x)"
  shows "follows R (bindM m k)"
proof (rule followsI)
  fix w :: world
  assume "writes_follow R (trace w)"
  with assms(1) have "wp m (\<lambda>_ w'. writes_follow R (trace w')) (\<lambda>_. True) w" by (simp add: follows_def)
  then show "wp (bindM m k) (\<lambda>_ w'. writes_follow R (trace w')) (\<lambda>_. True) w"
    unfolding wp_bind by (rule wp_mono) (use assms(2) in \<open>simp_all add: follows_def\<close>)
qed

lemma follows_seq [follows_intros]: "follows R m \<Longrightarrow> follows R k \<Longrightarrow> follows R (seqM m k)"
  unfolding seqM_def by (rule follows_bind)

text \<open>Computations that neither write status words nor do anything else visible.\<close>

definition silent :: "'a comp \<Rightarrow> bool" where
  "silent m \<longleftrightarrow> (\<forall>w. wp m (\<lambda>_ w'. trace w' = trace w) (\<lambda>_. True) w)"

named_theorems silent_intros \<open>computations that leave no trace\<close>

lemma silent_wp: "silent m \<Longrightarrow> wp m (\<lambda>_ w'. trace w' = trace w) (\<lambda>_. True) w"
  by (simp add: silent_def)

lemma silent_bind [silent_intros]:
  assumes "silent m" and "\<And>x. silent (k x)"
  shows "silent (bindM m k)"
  unfolding silent_def wp_bind
proof (intro allI, rule wp_mono [OF silent_wp [OF assms(1)]])
  show "wp (k x) (\<lambda>_ w''. trace w'' = trace w) (\<lambda>_. True) w'" if "trace w' = trace w" for x w w'
    using silent_wp [OF assms(2), of x w'] that by simp
qed simp

lemma silent_seq [silent_intros]: "silent m \<Longrightarrow> silent k \<Longrightarrow> silent (seqM m k)"
  unfolding seqM_def by (rule silent_bind)

lemma silent_basic [silent_intros]:
  "silent (retM x)" "silent (stopM e)" "silent (liftR r)" "silent (assertM c)"
  "silent (ensureM c)" "silent (get_future f)" "silent (set_specific f st)"
  "silent interference" "silent read_clock" "silent syscall" "silent poll_syscall"
  "silent stopwatch_initialize" "silent (stopwatch_measure sw)"
  by (simp_all add: silent_def wp_simps disturbed_def split: sum.splits list.splits step.splits)

lemma silent_check [silent_intros]: "silent (check_status st b)"
  unfolding check_status_def by (rule silent_basic)

lemma silent_with_fuel [silent_intros]: "(\<And>n. silent (body n)) \<Longrightarrow> silent (with_fuel body)"
  by (simp add: silent_def wp_with_fuel)

lemma silent_if [silent_intros]: "silent a \<Longrightarrow> silent b \<Longrightarrow> silent (if c then a else b)"
  by simp

lemma silent_prod [silent_intros]: "(\<And>a b. silent (k a b)) \<Longrightarrow> silent (case p of (a, b) \<Rightarrow> k a b)"
  by (cases p) simp

lemma silent_load [silent_intros]: "silent (future_status_load f)"
  unfolding future_status_load_def by (intro silent_intros)

lemma silent_wait_on_address [silent_intros]: "silent (wait_on_address f u t)"
  unfolding wait_on_address_def by (intro silent_intros) (auto intro: silent_intros split: errno.splits)

lemma silent_status_wait [silent_intros]: "silent (future_status_wait f st t)"
  unfolding future_status_wait_def by (intro silent_intros)

lemma silent_inpoll_wait_loop [silent_intros]: "silent (inpoll_wait_loop n k sw t)"
  by (induction n arbitrary: sw t) (auto intro!: silent_intros)

lemma silent_inpoll_wait [silent_intros]: "silent (inpoll_wait p k t)"
  unfolding inpoll_wait_def by (intro silent_intros)

lemma follows_silent: "silent m \<Longrightarrow> follows R m"
  by (rule followsI, rule wp_mono [OF silent_wp]) simp_all

lemmas follows_basic [follows_intros] =
  silent_basic [THEN follows_silent] silent_check [THEN follows_silent] silent_load [THEN follows_silent]
  silent_wait_on_address [THEN follows_silent] silent_status_wait [THEN follows_silent]
  silent_inpoll_wait [THEN follows_silent]

lemma follows_emit [follows_intros]: "(\<And>f u v. e \<noteq> Write f u v) \<Longrightarrow> follows R (emit e)"
  by (rule followsI) (simp add: wp_simps split: effect.splits)

lemma follows_with_fuel [follows_intros]: "(\<And>n. follows R (body n)) \<Longrightarrow> follows R (with_fuel body)"
  by (simp add: follows_def wp_with_fuel)

lemma follows_if [follows_intros]: "follows R a \<Longrightarrow> follows R b \<Longrightarrow> follows R (if c then a else b)"
  by simp

lemma follows_prod [follows_intros]: "(\<And>a b. follows R (k a b)) \<Longrightarrow> follows R (case p of (a, b) \<Rightarrow> k a b)"
  by (cases p) simp

lemma follows_wake [follows_intros]: "follows R (wake_by_address_all f)" "follows R (wake_by_address_single f)"
  unfolding wake_by_address_all_def wake_by_address_single_def by (intro follows_intros; simp)+

lemma follows_event_signal [follows_intros]: "follows R (event_signal e)"
  unfolding event_signal_def by (intro follows_intros; simp)

lemma follows_timer_set_once [follows_intros]: "follows R (timer_set_once e ts)"
  unfolding timer_set_once_def by (intro follows_intros; simp)

lemma follows_inpoll_detach [follows_intros]: "follows R (inpoll_detach p u)"
  unfolding inpoll_detach_def
  by (intro follows_intros; (simp; fail)?) (auto intro: follows_intros split: errno.splits)

lemma follows_count_dec:
  assumes "\<And>s. valid_status s \<Longrightarrow> downstream_count s \<noteq> 0 \<Longrightarrow>
    valid_status (s\<lparr>downstream_count := downstream_count s - 1\<rparr>) \<Longrightarrow>
    R s (s\<lparr>downstream_count := downstream_count s - 1\<rparr>)"
  shows "follows R (future_downstream_count_dec f)"
  by (rule followsI)
     (auto simp: wp_count_dec Let_def word_status_in intro!: assms split: list.splits step.splits)

lemma follows_try_inc:
  assumes inc: "\<And>s. valid_status s \<Longrightarrow> downstream_count s \<noteq> MAX_DOWNSTREAM_COUNT \<Longrightarrow>
      available s \<or> fstate s = STATE_RESULT \<Longrightarrow>
      R s (s\<lparr>downstream_count := downstream_count s + 1\<rparr>)"
    and dec: "follows R (future_downstream_count_dec f)"
  shows "follows R (future_downstream_count_try_inc f latest)"
proof (rule followsI)
  fix w :: world
  assume w: "writes_follow R (trace w)"
  have bf: "as_bitfield (as_word s + 1) = s\<lparr>downstream_count := downstream_count s + 1\<rparr>"
    if "downstream_count s \<noteq> MAX_DOWNSTREAM_COUNT" for s
    using as_word_inc [OF that] by (metis as_bitfield_as_word)
  have reverted: "wp (future_downstream_count_dec f) (\<lambda>st w3. valid_status st \<longrightarrow>
       fstate st = STATE_RESULT \<longrightarrow> writes_follow R (trace w3)) (\<lambda>_. True) w2"
    if "writes_follow R (trace w2)" for w2
  proof (rule wp_mono)
    show "wp (future_downstream_count_dec f) (\<lambda>_ w'. writes_follow R (trace w')) (\<lambda>_. True) w2"
      using dec that by (simp add: follows_def)
  qed simp_all
  show "wp (future_downstream_count_try_inc f latest) (\<lambda>_ w'. writes_follow R (trace w')) (\<lambda>_. True) w"
    unfolding wp_try_inc using w
    by (simp add: Let_def valid_inc split: list.splits step.splits)
       (auto simp: word_status_in bf valid_inc intro!: inc reverted)
qed

section \<open>What a compare-exchange loop guarantees\<close>

text \<open>An update of a status word: \<open>prepare\<close> computes the status to publish and \<open>retry\<close> looks at the
  status found instead.  Neither may break \<open>R\<close>, and \<open>prepare\<close> may only propose changes that follow \<open>R\<close>.\<close>

locale status_update =
  fixes f :: fid
    and prepare :: "future_status \<Rightarrow> ('p, 'r) decision comp"
    and retry :: "future_status \<Rightarrow> 'r option comp"
    and R :: "future_status \<Rightarrow> future_status \<Rightarrow> bool"
  assumes prepare_follows:
      "writes_follow R (trace w) \<Longrightarrow>
        wp (prepare s) (\<lambda>d w'. writes_follow R (trace w') \<and>
          (\<forall>t p. d = Publish t p \<longrightarrow> valid_status s \<longrightarrow> valid_status t \<longrightarrow> R s t)) (\<lambda>_. True) w"
    and retry_follows: "follows R (retry s)"
begin

lemma publish_follows:
  assumes "writes_follow R (trace w)" and "valid_status s \<longrightarrow> valid_status t \<longrightarrow> R s t"
  shows "wp (future_status_compare_exchange_weak f s t) (\<lambda>_ w'. writes_follow R (trace w')) (\<lambda>_. True) w"
  using assms by (auto simp: wp_cas_weak Let_def word_status_in split: list.splits step.splits)

lemma update_follows: "follows R (cas_loop fuel f prepare retry s)"
proof (induction fuel arbitrary: s)
  case (Suc fuel)
  have again: "follows R (bindM (retry s') (\<lambda>r. case r of Some x \<Rightarrow> retM (Leave x)
        | None \<Rightarrow> cas_loop fuel f prepare retry s'))" for s'
    using Suc.IH by (auto intro!: follows_intros retry_follows split: option.splits)
  show ?case
  proof (rule followsI)
    fix w :: world
    assume "writes_follow R (trace w)"
    from prepare_follows [OF this]
    show "wp (cas_loop (Suc fuel) f prepare retry s) (\<lambda>_ w'. writes_follow R (trace w')) (\<lambda>_. True) w"
      unfolding cas_loop.simps wp_bind
    proof (rule wp_mono)
      fix d :: "('p, 'r) decision" and w' :: world
      assume d: "writes_follow R (trace w') \<and>
        (\<forall>t p. d = Publish t p \<longrightarrow> valid_status s \<longrightarrow> valid_status t \<longrightarrow> R s t)"
      show "wp (case d of Publish desired p \<Rightarrow>
            bindM (future_status_compare_exchange_weak f s desired) (\<lambda>(success, latest').
              if success then retM (Publish desired p)
              else bindM (retry latest') (\<lambda>r. case r of Some x \<Rightarrow> retM (Leave x)
                | None \<Rightarrow> cas_loop fuel f prepare retry latest'))
          | Leave r \<Rightarrow> retM (Leave r)) (\<lambda>d w'. writes_follow R (trace w')) (\<lambda>_. True) w'"
      proof (cases d)
        case (Publish t p)
        with d have "wp (future_status_compare_exchange_weak f s t)
            (\<lambda>_ w'. writes_follow R (trace w')) (\<lambda>_. True) w'"
          by (intro publish_follows) simp_all
        then show ?thesis
          unfolding Publish decision.case wp_bind
          by (rule wp_mono) (use again in \<open>auto simp: wp_ret follows_def\<close>)
      qed (use d in \<open>simp add: wp_ret\<close>)
    qed simp
  qed
qed (rule followsI, simp add: wp_simps)

end

section \<open>What a loop leaves behind\<close>

text \<open>The exact effect of an update loop whose body does not touch the world: nothing, or one write
  from a status \<open>s\<close> to the status the body proposed for it.\<close>

lemma cas_loop_effect:
  assumes prepare: "\<And>s w. wp (prepare s) (\<lambda>d w'. w' = w \<and> P s d) (\<lambda>_. True) w"
    and retry: "\<And>s w. wp (retry s) (\<lambda>r w'. w' = w \<and> L s r) (\<lambda>_. True) w"
  shows "wp (cas_loop n f prepare retry s0) (\<lambda>d w'. case d of
       Leave r \<Rightarrow> trace w' = trace w \<and> (\<exists>s. P s (Leave r) \<or> L s (Some r))
     | Publish t p \<Rightarrow> \<exists>s. P s (Publish t p) \<and> valid_status s \<and> valid_status t \<and> status_in w' f = t \<and>
         trace w' = Write f (as_word s) (as_word t) # trace w) (\<lambda>_. True) w"
proof (induction n arbitrary: s0 w)
  case (Suc n)
  let ?Q = "\<lambda>w d w'. case d of
       Leave r \<Rightarrow> trace w' = trace w \<and> (\<exists>s. P s (Leave r) \<or> L s (Some r))
     | Publish t p \<Rightarrow> \<exists>s. P s (Publish t p) \<and> valid_status s \<and> valid_status t \<and> status_in w' f = t \<and>
         trace w' = Write f (as_word s) (as_word t) # trace w"
  have again: "wp (bindM (retry s') (\<lambda>r. case r of Some x \<Rightarrow> retM (Leave x)
        | None \<Rightarrow> cas_loop n f prepare retry s')) (?Q w) (\<lambda>_. True) w1" if "trace w1 = trace w" for s' w1
    unfolding wp_bind
  proof (rule wp_mono [OF retry])
    fix r w2
    assume r: "w2 = w1 \<and> L s' r"
    show "wp (case r of Some x \<Rightarrow> retM (Leave x) | None \<Rightarrow> cas_loop n f prepare retry s') (?Q w) (\<lambda>_. True) w2"
    proof (cases r)
      case None
      have "?Q w1 = ?Q w" using that by (intro ext) (simp split: decision.split)
      then show ?thesis using Suc.IH [of s' w1] r None by simp
    next
      case (Some x)
      then show ?thesis using r that by (auto simp: wp_ret)
    qed
  qed simp
  show ?case
    unfolding cas_loop.simps wp_bind
  proof (rule wp_mono [OF prepare])
    fix d w1
    assume d: "w1 = w \<and> P s0 d"
    show "wp (case d of Leave r \<Rightarrow> retM (Leave r)
        | Publish desired p \<Rightarrow>
          bindM (future_status_compare_exchange_weak f s0 desired) (\<lambda>(success, latest').
            if success then retM (Publish desired p)
            else bindM (retry latest') (\<lambda>r. case r of Some x \<Rightarrow> retM (Leave x)
              | None \<Rightarrow> cas_loop n f prepare retry latest'))) (?Q w) (\<lambda>_. True) w1"
    proof (cases d)
      case (Publish t p)
      then show ?thesis using d
        by (auto simp: wp_bind wp_cas_weak wp_ret Let_def word_status_in split: list.splits step.splits
            intro!: again [unfolded wp_bind])
    qed (use d in \<open>auto simp: wp_ret\<close>)
  qed simp
qed (simp add: wp_simps)

section \<open>Properties\<close>

text \<open>\<open>future_downstream_count_try_inc\<close> increments the count by incrementing the whole shared
  word.  On a valid, available future found as \<open>pre\<close>: it exits if the count is at its maximum;
  it increments exactly the count field and returns true if there is no result yet; otherwise
  it returns false and leaves the word as it found it.\<close>

theorem try_inc_exact:
  assumes "schedule w = Interference ws sp # Interference [] sp' # ss"
    and "pre = status_in (disturbed ws (Interference [] sp' # ss) w) f"
    and "valid_status latest" and "valid_status pre" and "available pre"
  shows "case future_downstream_count_try_inc f latest w of
      Inl e \<Rightarrow> e = ExitError \<and> downstream_count pre = MAX_DOWNSTREAM_COUNT
    | Inr ((ok, st), w') \<Rightarrow> downstream_count pre \<noteq> MAX_DOWNSTREAM_COUNT \<and>
        (ok \<longleftrightarrow> fstate pre \<noteq> STATE_RESULT) \<and> status_in w' f = st \<and>
        st = (if ok then pre\<lparr>downstream_count := downstream_count pre + 1\<rparr> else pre)"
proof -
  let ?w1 = "disturbed ws (Interference [] sp' # ss) w"
  have max: "c + 1 \<noteq> 0" if "c \<noteq> MAX_DOWNSTREAM_COUNT" for c
    using that by (metis add_diff_cancel max_count_minus)
  have inc: "as_bitfield (as_word pre + 1) = pre\<lparr>downstream_count := downstream_count pre + 1\<rparr>"
    if "downstream_count pre \<noteq> MAX_DOWNSTREAM_COUNT"
    using as_word_inc [OF that] by (metis as_bitfield_as_word)
  have quiet: "status_in (disturbed [] ss w') f = status_in w' f" for ss w'
    by (simp add: disturbed_def status_in_def)
  have "valid_status (pre\<lparr>downstream_count := c\<rparr>)" for c
    using assms(4,5) by (simp add: valid_status_def)
  then have "wp (future_downstream_count_try_inc f latest)
     (\<lambda>(ok, st) w'. downstream_count pre \<noteq> MAX_DOWNSTREAM_COUNT \<and>
        (ok \<longleftrightarrow> fstate pre \<noteq> STATE_RESULT) \<and> status_in w' f = st \<and>
        st = (if ok then pre\<lparr>downstream_count := downstream_count pre + 1\<rparr> else pre))
     (\<lambda>e. e = ExitError \<and> downstream_count pre = MAX_DOWNSTREAM_COUNT) w"
    using assms(1-4) inc max [of "downstream_count pre"] assms(4)
    by (simp add: wp_try_inc wp_count_dec Let_def quiet)
  then show ?thesis by (auto simp: wp_def split: sum.splits)
qed

definition live_custom :: future_status where
  "live_custom = \<lparr>downstream_count = 2, downstream_count_overflow = False, available = True,
     fstate = STATE_PROCESSING, foutcome = OUTCOME_UNKNOWN, ftype = TYPE_CUSTOM,
     notify_address = False, notify_event_or_lazy_lock = False, reserved = 0\<rparr>"

lemma valid_live_custom [simp]: "valid_status live_custom"
  by (simp add: valid_status_def live_custom_def type_sets)

definition demo_world :: "future_status \<Rightarrow> step list \<Rightarrow> world" where
  "demo_world st ss = \<lparr>futures = (\<lambda>_. \<lparr>specific = Custom [], context_id = 0, status_sync = 3, status_word = as_word st\<rparr>), allocator = empty_allocator,
     schedule = ss, trace = []\<rparr>"

lemma demo_world_parts [simp]:
  "schedule (demo_world st ss) = ss" "trace (demo_world st ss) = []"
  "status_in (demo_world st ss) f = st"
  "disturbed [] ss' (demo_world st ss) = demo_world st ss'"
  by (simp_all add: demo_world_def status_in_def disturbed_def)

theorem try_inc_exact_witness:
  "case future_downstream_count_try_inc 0 live_custom (demo_world live_custom [Interference [] False, Interference [] False]) of
      Inl e \<Rightarrow> e = ExitError \<and> downstream_count live_custom = MAX_DOWNSTREAM_COUNT
    | Inr ((ok, st), w') \<Rightarrow> downstream_count live_custom \<noteq> MAX_DOWNSTREAM_COUNT \<and>
        (ok \<longleftrightarrow> fstate live_custom \<noteq> STATE_RESULT) \<and> status_in w' 0 = st \<and>
        st = (if ok then live_custom\<lparr>downstream_count := downstream_count live_custom + 1\<rparr> else live_custom)"
  by (rule try_inc_exact [where ws = "[]" and sp = False and sp' = False and ss = "[]"])
     (simp_all, simp add: live_custom_def)

end
