(* ===== verification/FutureWait.thy ===== *)
theory FutureWait
  imports StatusOps
begin

text \<open>
  Waiting for a future (future/wait.c): the dispatch on the future type, the wait for futures that a
  worker thread completes, for join futures (with the lazy lock and the polling of upstream
  futures), for single-shot timers, and the shared wait on the status word.

  A loop that the code leaves in two ways, \<open>break\<close> with the status it knows or \<open>return\<close> of a status,
  leaves \<open>cas_loop\<close> with \<open>Break\<close> or \<open>Return\<close>.  The functions for unordered futures and
  repeating timers are stubs in the source that exit with an error.
\<close>

section \<open>Waiting on the status word\<close>

datatype address_wait_outcome = ADDRESS_WAIT_SUCCESS | ADDRESS_WAIT_TIMEOUT | ADDRESS_WAIT_UNLOCKED

fun wait_by_adress_loop :: "nat \<Rightarrow> fid \<Rightarrow> bool \<Rightarrow> future_status \<Rightarrow> udipe_duration_ns \<Rightarrow> stopwatch \<Rightarrow>
    (future_status \<times> udipe_duration_ns \<times> stopwatch) comp" where
  "wait_by_adress_loop 0 f lazy latest timeout stopwatch = stopM ScheduleEnd"
| "wait_by_adress_loop (Suc fuel) f lazy latest timeout stopwatch =
    bindM (future_status_wait f latest timeout) (\<lambda>success.
    bindM (if success then
        bindM (future_status_load f) (\<lambda>latest'.
        seqM (check_status latest' True) (
        retM (latest', fstate latest' = STATE_RESULT \<or> lazy \<and> \<not> notify_event_or_lazy_lock latest')))
      else retM (latest, False)) (\<lambda>(latest', done).
    if done then retM (latest', timeout, stopwatch)
    else
      bindM (stopwatch_measure stopwatch) (\<lambda>(elapsed_time, stopwatch').
      if elapsed_time \<ge> timeout then retM (latest', UDIPE_DURATION_MIN, stopwatch')
      else wait_by_adress_loop fuel f lazy latest' (timeout - elapsed_time) stopwatch')))"

definition future_wait_by_adress :: "fid \<Rightarrow> future_status \<Rightarrow> udipe_duration_ns \<Rightarrow> stopwatch \<Rightarrow>
    (address_wait_outcome \<times> future_status \<times> udipe_duration_ns \<times> stopwatch) comp" where
  "future_wait_by_adress f latest timeout stopwatch =
    seqM (assertM (fstate latest \<noteq> STATE_RESULT)) (
    bindM (liftR (future_type_uses_lazy_lock (ftype latest))) (\<lambda>lazy.
    seqM (if lazy then assertM (notify_event_or_lazy_lock latest) else retM ()) (
    seqM (assertM (notify_address latest)) (
    bindM (with_fuel (\<lambda>fuel. wait_by_adress_loop fuel f lazy latest timeout stopwatch)) (\<lambda>(latest', timeout', stopwatch').
    retM (if fstate latest' = STATE_RESULT then ADDRESS_WAIT_SUCCESS
          else if lazy \<and> \<not> notify_event_or_lazy_lock latest' then ADDRESS_WAIT_UNLOCKED
          else ADDRESS_WAIT_TIMEOUT, latest', timeout', stopwatch'))))))"

section \<open>Futures completed by a worker thread\<close>

datatype loop_exit = Break future_status | Return future_status

definition eager_prepare :: "downstream_count_policy \<Rightarrow> future_status \<Rightarrow> (unit, loop_exit) decision comp" where
  "eager_prepare count_policy latest =
    bindM (liftR (prepare_downstream_count_inc latest count_policy)) (\<lambda>st.
    let desired = st\<lparr>notify_address := True\<rparr> in
    if future_status_eq desired latest then retM (Leave (Break latest))
    else seqM (check_status desired True) (retM (Publish desired ())))"

definition result_retry :: "(future_status \<Rightarrow> 'r) \<Rightarrow> future_status \<Rightarrow> 'r option comp" where
  "result_retry return latest =
    seqM (check_status latest True) (
    retM (if fstate latest = STATE_RESULT then Some (return latest) else None))"

definition finish_count :: "fid \<Rightarrow> future_status \<Rightarrow> downstream_count_policy \<Rightarrow> future_status comp" where
  "finish_count f latest count_policy = (case count_policy of
     DOWNSTREAM_COUNT_CYCLE \<Rightarrow> future_downstream_count_dec f
   | DOWNSTREAM_COUNT_KEEP \<Rightarrow> retM latest)"

definition eager_sleep :: "fid \<Rightarrow> future_status \<Rightarrow> udipe_duration_ns \<Rightarrow> stopwatch \<Rightarrow>
    downstream_count_policy \<Rightarrow> future_status comp" where
  "eager_sleep f latest timeout stopwatch count_policy =
    bindM (future_wait_by_adress f latest timeout stopwatch) (\<lambda>(outcome, latest', _, _).
    case outcome of
      ADDRESS_WAIT_SUCCESS \<Rightarrow> finish_count f latest' count_policy
    | ADDRESS_WAIT_TIMEOUT \<Rightarrow> finish_count f latest' count_policy
    | ADDRESS_WAIT_UNLOCKED \<Rightarrow> stopM ExitError)"

definition future_wait_eager :: "fid \<Rightarrow> future_status \<Rightarrow> udipe_duration_ns \<Rightarrow>
    downstream_count_policy \<Rightarrow> future_status comp" where
  "future_wait_eager f latest timeout count_policy =
    bindM stopwatch_initialize (\<lambda>stopwatch.
    seqM (check_status latest True) (
    seqM (assertM (type_code TYPE_NETWORK_CONNECT \<le> type_code (ftype latest) \<and>
                   type_code (ftype latest) < type_code TYPE_CUSTOM \<or> ftype latest = TYPE_CUSTOM)) (
    seqM (assertM (fstate latest \<noteq> STATE_RESULT)) (
    seqM (assertM (timeout \<noteq> UDIPE_DURATION_MIN \<and> timeout \<noteq> UDIPE_DURATION_DEFAULT)) (
    bindM (with_fuel (\<lambda>fuel. cas_loop fuel f (eager_prepare count_policy) (result_retry Return) latest)) (\<lambda>d.
    case d of
      Leave (Return st) \<Rightarrow> retM st
    | Leave (Break st) \<Rightarrow> eager_sleep f st timeout stopwatch count_policy
    | Publish st _ \<Rightarrow> eager_sleep f st timeout stopwatch count_policy))))))"

section \<open>Join futures\<close>

definition MAX_JOIN_INPOLL_IDENTIFIERS :: nat where
  "MAX_JOIN_INPOLL_IDENTIFIERS = 4"

text \<open>Registering as a waiter and taking the lazy lock.  The flag passed on says whether another
  thread held the lock.\<close>

datatype lock_exit = LockBreak bool future_status | LockReturn future_status

definition lock_prepare :: "downstream_count_policy \<Rightarrow> future_status \<Rightarrow> (bool, lock_exit) decision comp" where
  "lock_prepare count_policy latest =
    bindM (liftR (prepare_downstream_count_inc latest count_policy)) (\<lambda>st.
    let previously_locked = notify_event_or_lazy_lock latest;
        desired = (if previously_locked then st\<lparr>notify_address := True\<rparr>
                   else st\<lparr>notify_event_or_lazy_lock := True\<rparr>) in
    if future_status_eq desired latest then retM (Leave (LockBreak previously_locked latest))
    else seqM (check_status desired True) (retM (Publish desired previously_locked)))"

text \<open>The ready upstream futures, one by one.  \<open>poll_upstream\<close> is the nonblocking wait for an
  upstream future.\<close>

fun join_events :: "(fid \<Rightarrow> future_status comp) \<Rightarrow> fid \<Rightarrow> u64 list \<Rightarrow> future_status \<Rightarrow> future_outcome \<Rightarrow>
    (future_status \<times> future_outcome) comp" where
  "join_events poll_upstream f [] latest outcome = retM (latest, outcome)"
| "join_events poll_upstream f (upstream_index # ids) latest outcome =
    (if upstream_index = INPOLL_LATCH_ID then
       bindM (future_status_load f) (\<lambda>latest'.
       seqM (ensureM (fstate latest' = STATE_RESULT)) (
       seqM (ensureM (foutcome latest' = OUTCOME_FAILURE_CANCELED)) (
       retM (latest', foutcome latest'))))
     else
       bindM (get_future f) (\<lambda>fut. case specific fut of
         Join upstream_set latch \<Rightarrow>
           seqM (ensureM (unat upstream_index < length (upstream_array upstream_set))) (
           let upstream = upstream_array upstream_set ! unat upstream_index in
           bindM (poll_upstream upstream) (\<lambda>upstream_status.
           seqM (check_status upstream_status True) (
           if fstate upstream_status \<noteq> STATE_RESULT
           then join_events poll_upstream f ids latest outcome
           else
             seqM (ensureM (upstream_remaining upstream_set \<ge> 1)) (
             seqM (set_specific f (Join (upstream_set\<lparr>upstream_remaining := upstream_remaining upstream_set - 1\<rparr>) latch)) (
             bindM (get_future upstream) (\<lambda>up.
             bindM (inpoll_detach (status_sync fut) (status_sync up)) (\<lambda>_.
             case foutcome upstream_status of
               OUTCOME_SUCCESS \<Rightarrow> join_events poll_upstream f ids latest outcome
             | OUTCOME_FAILURE_CANCELED \<Rightarrow>
                 seqM (assertM (outcome = OUTCOME_UNKNOWN)) (
                 join_events poll_upstream f ids latest OUTCOME_FAILURE_DEPENDENCY)
             | OUTCOME_FAILURE_INTERNAL \<Rightarrow>
                 seqM (assertM (outcome = OUTCOME_UNKNOWN)) (
                 join_events poll_upstream f ids latest OUTCOME_FAILURE_DEPENDENCY)
             | OUTCOME_FAILURE_DEPENDENCY \<Rightarrow>
                 seqM (assertM (outcome = OUTCOME_UNKNOWN)) (
                 join_events poll_upstream f ids latest OUTCOME_FAILURE_DEPENDENCY)
             | _ \<Rightarrow> stopM ExitError)))))))
       | _ \<Rightarrow> stopM BadAccess))"

text \<open>Publishing the outcome, or only giving up the lock after a timeout.\<close>

definition unlock_prepare :: "downstream_count_policy \<Rightarrow> future_outcome \<Rightarrow> bool \<Rightarrow>
    future_status \<Rightarrow> (unit, future_status) decision comp" where
  "unlock_prepare count_policy outcome reached_timeout latest =
    bindM (liftR (prepare_downstream_count_dec latest count_policy)) (\<lambda>st.
    bindM (if outcome \<noteq> OUTCOME_UNKNOWN then retM (st\<lparr>fstate := STATE_RESULT, foutcome := outcome\<rparr>)
           else seqM (assertM reached_timeout) (retM st)) (\<lambda>st'.
    seqM (assertM (notify_event_or_lazy_lock latest)) (
    let desired = st'\<lparr>notify_event_or_lazy_lock := False\<rparr> in
    seqM (check_status desired True) (retM (Publish desired ())))))"

definition check_retry :: "future_status \<Rightarrow> 'r option comp" where
  "check_retry latest = seqM (check_status latest True) (retM None)"

definition join_notify :: "fid \<Rightarrow> future_status \<Rightarrow> future_outcome \<Rightarrow> unit comp" where
  "join_notify f latest outcome =
    (if downstream_count latest = 0 \<or> outcome = OUTCOME_FAILURE_CANCELED then retM ()
     else if outcome \<noteq> OUTCOME_UNKNOWN then
       seqM (if notify_address latest then wake_by_address_all f else retM ()) (
       bindM (get_future f) (\<lambda>fut. case specific fut of
         Join upstream_set latch \<Rightarrow> event_signal latch
       | _ \<Rightarrow> stopM BadAccess))
     else if notify_address latest then wake_by_address_single f
     else retM ())"

fun join_poll_loop :: "nat \<Rightarrow> (fid \<Rightarrow> future_status comp) \<Rightarrow> fid \<Rightarrow> future_status \<Rightarrow> udipe_duration_ns \<Rightarrow>
    stopwatch \<Rightarrow> downstream_count_policy \<Rightarrow> future_status comp" where
  "join_poll_loop 0 poll_upstream f latest timeout stopwatch count_policy = stopM ScheduleEnd"
| "join_poll_loop (Suc fuel) poll_upstream f latest timeout stopwatch count_policy =
    bindM (get_future f) (\<lambda>fut.
    bindM (inpoll_wait (status_sync fut) MAX_JOIN_INPOLL_IDENTIFIERS timeout) (\<lambda>identifiers.
    bindM (if identifiers = [] then
        seqM (assertM (timeout < UDIPE_DURATION_MAX)) (retM (latest, OUTCOME_UNKNOWN))
      else
        bindM (join_events poll_upstream f identifiers latest OUTCOME_UNKNOWN) (\<lambda>(latest', outcome).
        if outcome \<noteq> OUTCOME_UNKNOWN then retM (latest', outcome)
        else bindM (get_future f) (\<lambda>fut'. case specific fut' of
          Join upstream_set latch \<Rightarrow>
            retM (latest', if upstream_remaining upstream_set = 0 then OUTCOME_SUCCESS else OUTCOME_UNKNOWN)
        | _ \<Rightarrow> stopM BadAccess))) (\<lambda>(latest', outcome).
    let inpoll_timed_out = (identifiers = []) in
    bindM (if outcome \<noteq> OUTCOME_UNKNOWN then retM (inpoll_timed_out, timeout, stopwatch)
      else bindM (stopwatch_measure stopwatch) (\<lambda>(elapsed_time, stopwatch').
        if elapsed_time \<ge> timeout then retM (True, timeout, stopwatch')
        else retM (inpoll_timed_out, timeout - elapsed_time, stopwatch'))) (\<lambda>(reached_timeout, timeout', stopwatch').
    if \<not> (outcome \<noteq> OUTCOME_UNKNOWN \<or> reached_timeout)
    then join_poll_loop fuel poll_upstream f latest' timeout' stopwatch' count_policy
    else
      bindM (with_fuel (\<lambda>n. cas_loop n f (unlock_prepare count_policy outcome reached_timeout) check_retry latest')) (\<lambda>d.
      case d of
        Publish st _ \<Rightarrow> seqM (join_notify f st outcome) (retM st)
      | Leave st \<Rightarrow> retM st)))))"

fun join_loop :: "nat \<Rightarrow> (fid \<Rightarrow> future_status comp) \<Rightarrow> fid \<Rightarrow> future_status \<Rightarrow> udipe_duration_ns \<Rightarrow>
    stopwatch \<Rightarrow> downstream_count_policy \<Rightarrow> future_status comp" where
  "join_loop 0 poll_upstream f latest timeout stopwatch count_policy = stopM ScheduleEnd"
| "join_loop (Suc fuel) poll_upstream f latest timeout stopwatch count_policy =
    bindM (with_fuel (\<lambda>n. cas_loop n f (lock_prepare count_policy) (result_retry LockReturn) latest)) (\<lambda>d.
    case d of
      Leave (LockReturn st) \<Rightarrow> retM st
    | _ \<Rightarrow>
        let (previously_locked, st) = (case d of Leave (LockBreak p st) \<Rightarrow> (p, st) | Publish st p \<Rightarrow> (p, st)
                                       | Leave (LockReturn st) \<Rightarrow> (False, st)) in
        if previously_locked then
          bindM (future_wait_by_adress f st timeout stopwatch) (\<lambda>(outcome, latest', timeout', stopwatch').
          case outcome of
            ADDRESS_WAIT_SUCCESS \<Rightarrow> finish_count f latest' count_policy
          | ADDRESS_WAIT_TIMEOUT \<Rightarrow> finish_count f latest' count_policy
          | ADDRESS_WAIT_UNLOCKED \<Rightarrow> join_loop fuel poll_upstream f latest' timeout' stopwatch' count_policy)
        else
          seqM (assertM (foutcome st = OUTCOME_UNKNOWN)) (
          with_fuel (\<lambda>n. join_poll_loop n poll_upstream f st timeout stopwatch count_policy)))"

definition future_wait_join :: "(fid \<Rightarrow> future_status comp) \<Rightarrow> fid \<Rightarrow> future_status \<Rightarrow> udipe_duration_ns \<Rightarrow>
    downstream_count_policy \<Rightarrow> future_status comp" where
  "future_wait_join poll_upstream f latest timeout count_policy =
    bindM stopwatch_initialize (\<lambda>stopwatch.
    seqM (check_status latest True) (
    seqM (assertM (ftype latest = TYPE_JOIN)) (
    seqM (assertM (fstate latest \<noteq> STATE_RESULT)) (
    seqM (assertM (timeout \<noteq> UDIPE_DURATION_DEFAULT)) (
    with_fuel (\<lambda>fuel. join_loop fuel poll_upstream f latest timeout stopwatch count_policy))))))"

section \<open>Timers, stubs and dispatch\<close>

definition future_wait_unordered :: "fid \<Rightarrow> future_status \<Rightarrow> udipe_duration_ns \<Rightarrow>
    downstream_count_policy \<Rightarrow> future_status comp" where
  "future_wait_unordered f latest timeout count_policy = stopM ExitError"

definition future_wait_timer_repeat :: "fid \<Rightarrow> future_status \<Rightarrow> udipe_duration_ns \<Rightarrow>
    downstream_count_policy \<Rightarrow> future_status comp" where
  "future_wait_timer_repeat f latest timeout count_policy = stopM ExitError"

definition timer_prepare :: "downstream_count_policy \<Rightarrow> future_status \<Rightarrow> (unit, future_status) decision comp" where
  "timer_prepare count_policy latest =
    bindM (liftR (prepare_downstream_count_dec latest count_policy)) (\<lambda>st.
    let st' = st\<lparr>fstate := STATE_RESULT\<rparr>;
        desired = (if foutcome st' = OUTCOME_UNKNOWN then st'\<lparr>foutcome := OUTCOME_SUCCESS\<rparr> else st') in
    if future_status_eq desired latest then retM (Leave latest)
    else seqM (check_status desired True) (retM (Publish desired ())))"

fun timer_poll_loop :: "nat \<Rightarrow> fid \<Rightarrow> future_status \<Rightarrow> udipe_duration_ns \<Rightarrow> stopwatch \<Rightarrow>
    downstream_count_policy \<Rightarrow> future_status comp" where
  "timer_poll_loop 0 f latest timeout stopwatch count_policy = stopM ScheduleEnd"
| "timer_poll_loop (Suc fuel) f latest timeout stopwatch count_policy =
    bindM (liftR (make_unix_timeout timeout)) (\<lambda>pdelay.
    bindM poll_syscall (\<lambda>(result, errno, events).
    if result = 1 then
      seqM (ensureM (map fst events = [True])) (
      bindM (with_fuel (\<lambda>n. cas_loop n f (timer_prepare count_policy) check_retry latest)) (\<lambda>d.
      case d of Publish st _ \<Rightarrow> retM st | Leave st \<Rightarrow> retM st))
    else if result = 0 then retM latest
    else if result = -1 then
      (if errno = EINTR then
         bindM (stopwatch_measure stopwatch) (\<lambda>(elapsed_time, stopwatch').
         if elapsed_time \<ge> timeout then retM latest
         else timer_poll_loop fuel f latest (timeout - elapsed_time) stopwatch' count_policy)
       else stopM ExitError)
    else stopM ExitError))"

definition future_wait_timer_once :: "fid \<Rightarrow> future_status \<Rightarrow> udipe_duration_ns \<Rightarrow>
    downstream_count_policy \<Rightarrow> future_status comp" where
  "future_wait_timer_once f latest timeout count_policy =
    bindM stopwatch_initialize (\<lambda>stopwatch.
    seqM (check_status latest True) (
    seqM (assertM (ftype latest = TYPE_TIMER_ONCE)) (
    seqM (assertM (fstate latest \<noteq> STATE_RESULT)) (
    seqM (assertM (timeout \<noteq> UDIPE_DURATION_DEFAULT)) (
    bindM (case count_policy of
        DOWNSTREAM_COUNT_CYCLE \<Rightarrow>
          bindM (future_downstream_count_try_inc f latest) (\<lambda>(success, latest').
          seqM (check_status latest' True) (
          if success then retM (Break latest')
          else seqM (ensureM (fstate latest' = STATE_RESULT)) (retM (Return latest'))))
      | DOWNSTREAM_COUNT_KEEP \<Rightarrow> retM (Break latest)) (\<lambda>d.
    case d of
      Return st \<Rightarrow> retM st
    | Break st \<Rightarrow> with_fuel (\<lambda>fuel. timer_poll_loop fuel f st timeout stopwatch count_policy)))))))"

fun future_wait_fuel :: "nat \<Rightarrow> fid \<Rightarrow> udipe_duration_ns \<Rightarrow> downstream_count_policy \<Rightarrow> future_status comp" where
  "future_wait_fuel 0 f timeout count_policy = stopM ScheduleEnd"
| "future_wait_fuel (Suc depth) f timeout count_policy =
    seqM (assertM (timeout \<noteq> UDIPE_DURATION_DEFAULT)) (
    bindM (future_status_load f) (\<lambda>status.
    seqM (check_status status True) (
    if fstate status = STATE_RESULT then retM status
    else if fstate status \<in> {STATE_WAITING, STATE_PROCESSING, STATE_CANCELING} then
      (case ftype status of
         TYPE_JOIN \<Rightarrow>
           future_wait_join (\<lambda>u. future_wait_fuel depth u UDIPE_DURATION_MIN DOWNSTREAM_COUNT_KEEP)
             f status timeout count_policy
       | TYPE_UNORDERED \<Rightarrow> future_wait_unordered f status timeout count_policy
       | TYPE_TIMER_ONCE \<Rightarrow> future_wait_timer_once f status timeout count_policy
       | TYPE_TIMER_REPEAT \<Rightarrow> future_wait_timer_repeat f status timeout count_policy
       | t \<Rightarrow>
           if t \<in> {TYPE_NETWORK_CONNECT, TYPE_NETWORK_DISCONNECT, TYPE_NETWORK_SEND, TYPE_NETWORK_RECV, TYPE_CUSTOM}
           then (if timeout = UDIPE_DURATION_MIN then retM status
                 else future_wait_eager f status timeout count_policy)
           else stopM ExitError)
    else stopM ExitError)))"

text \<open>Each nested wait loads a status word first, so the length of the schedule also bounds the
  depth of the nesting.\<close>

definition future_wait :: "fid \<Rightarrow> udipe_duration_ns \<Rightarrow> downstream_count_policy \<Rightarrow> future_status comp" where
  "future_wait f timeout count_policy =
    with_fuel (\<lambda>depth. future_wait_fuel depth f timeout count_policy)"

section \<open>What the update loops propose\<close>

lemma prepare_inc_eq_Inr [res_simps]:
  "prepare_downstream_count_inc s p = Inr t \<longleftrightarrow> valid_status s \<and> fstate s \<noteq> STATE_RESULT \<and>
     (case p of DOWNSTREAM_COUNT_CYCLE \<Rightarrow>
        downstream_count s < MAX_DOWNSTREAM_COUNT \<and> t = s\<lparr>downstream_count := downstream_count s + 1\<rparr>
      | DOWNSTREAM_COUNT_KEEP \<Rightarrow> t = s)"
  by (auto simp: prepare_downstream_count_inc_def res_simps valid_status_def
      split: downstream_count_policy.splits)

lemma prepare_dec_eq_Inr [res_simps]:
  "prepare_downstream_count_dec s p = Inr t \<longleftrightarrow> valid_status s \<and>
     (case p of DOWNSTREAM_COUNT_CYCLE \<Rightarrow>
        downstream_count s \<noteq> 0 \<and> t = s\<lparr>downstream_count := downstream_count s - 1\<rparr>
      | DOWNSTREAM_COUNT_KEEP \<Rightarrow> t = s)"
  by (auto simp: prepare_downstream_count_dec_def res_simps valid_status_def u16_ge_1
      split: downstream_count_policy.splits)

lemma lift_splits:
  "(case r of Inl e \<Rightarrow> E e | Inr x \<Rightarrow> P x) \<longleftrightarrow> (\<forall>e. r = Inl e \<longrightarrow> E e) \<and> (\<forall>x. r = Inr x \<longrightarrow> P x)"
  by (cases r) simp_all

section \<open>The writes of a wait follow the protocol\<close>

lemma follows_result_retry [follows_intros]: "follows R (result_retry c s)"
  unfolding result_retry_def by (intro follows_intros)

lemma follows_check_retry [follows_intros]: "follows R (check_retry s)"
  unfolding check_retry_def by (intro follows_intros)

lemma silent_by_adress_loop [silent_intros]: "silent (wait_by_adress_loop n f lazy st t sw)"
  by (induction n arbitrary: st t sw) (auto intro!: silent_intros)

lemma silent_by_adress [silent_intros]: "silent (future_wait_by_adress f st t sw)"
  unfolding future_wait_by_adress_def by (intro silent_intros)

lemmas follows_by_adress [follows_intros] = silent_by_adress [THEN follows_silent]

text \<open>A relation that allows at least the protocol.\<close>

locale protocol_relation =
  fixes R :: "future_status \<Rightarrow> future_status \<Rightarrow> bool"
  assumes protocol_le: "protocol s t \<Longrightarrow> R s t"
begin

lemma follows_dec: "follows R (future_downstream_count_dec f)"
  by (rule follows_count_dec) (blast intro: protocol_le count_dec_protocol)

lemma follows_finish_count: "follows R (finish_count f st p)"
  unfolding finish_count_def
  by (cases p) (simp_all add: follows_dec follows_basic)

lemma eager_prepare_follows:
  assumes "writes_follow R (trace w)"
  shows "wp (eager_prepare p s) (\<lambda>d w'. writes_follow R (trace w') \<and>
    (\<forall>t q. d = Publish t q \<longrightarrow> valid_status s \<longrightarrow> valid_status t \<longrightarrow> R s t)) (\<lambda>_. True) w"
  using assms
  by (auto simp: eager_prepare_def wp_simps lift_splits res_simps Let_def intro!: protocol_le
      split: downstream_count_policy.splits) (auto simp: protocol_def)

lemma lock_prepare_follows:
  assumes "writes_follow R (trace w)"
  shows "wp (lock_prepare p s) (\<lambda>d w'. writes_follow R (trace w') \<and>
    (\<forall>t q. d = Publish t q \<longrightarrow> valid_status s \<longrightarrow> valid_status t \<longrightarrow> R s t)) (\<lambda>_. True) w"
  using assms
  by (auto simp: lock_prepare_def wp_simps lift_splits res_simps Let_def intro!: protocol_le
      split: downstream_count_policy.splits) (auto simp: protocol_def)

lemma timer_prepare_follows:
  assumes "writes_follow R (trace w)"
  shows "wp (timer_prepare p s) (\<lambda>d w'. writes_follow R (trace w') \<and>
    (\<forall>t q. d = Publish t q \<longrightarrow> valid_status s \<longrightarrow> valid_status t \<longrightarrow> R s t)) (\<lambda>_. True) w"
  using assms
  by (auto simp: timer_prepare_def wp_simps lift_splits res_simps Let_def intro!: protocol_le
      split: downstream_count_policy.splits) (auto simp: protocol_def)

end

sublocale protocol_relation \<subseteq> eager: status_update f "eager_prepare p" "result_retry Return" R for f p
  by (unfold_locales; (rule eager_prepare_follows follows_result_retry | assumption)+)

sublocale protocol_relation \<subseteq> lock: status_update f "lock_prepare p" "result_retry LockReturn" R for f p
  by (unfold_locales; (rule lock_prepare_follows follows_result_retry | assumption)+)

sublocale protocol_relation \<subseteq> timer: status_update f "timer_prepare p" check_retry R for f p
  by (unfold_locales; (rule timer_prepare_follows follows_check_retry | assumption)+)

context protocol_relation
begin

lemma follows_eager_sleep: "follows R (eager_sleep f st t sw p)"
  unfolding eager_sleep_def
  by (intro follows_intros) (auto intro!: follows_intros follows_finish_count split: address_wait_outcome.splits)

lemma follows_eager: "follows R (future_wait_eager f st t p)"
  unfolding future_wait_eager_def
  by (intro follows_intros eager.update_follows)
     (auto intro!: follows_intros follows_eager_sleep split: decision.splits loop_exit.splits)

end

text \<open>What a wait may write in general: on a join future the final update may replace an outcome by
  another one, and on a future that has a result the count is incremented and decremented again.\<close>

definition wait_protocol :: "future_status \<Rightarrow> future_status \<Rightarrow> bool" where
  "wait_protocol s t \<longleftrightarrow> valid_status s \<and>
     (valid_status t \<or> fstate s = STATE_RESULT \<and> t = s\<lparr>downstream_count := downstream_count s + 1\<rparr>) \<and>
     ftype t = ftype s \<and>
     state_code (fstate s) \<le> state_code (fstate t) \<and>
     (foutcome s \<noteq> OUTCOME_UNKNOWN \<longrightarrow> foutcome t \<noteq> OUTCOME_UNKNOWN) \<and>
     (notify_address s \<longrightarrow> notify_address t) \<and>
     (available t \<longrightarrow> available s) \<and>
     downstream_count t \<in> {downstream_count s, downstream_count s + 1, downstream_count s - 1}"

interpretation strict: protocol_relation protocol
  by unfold_locales

interpretation general: protocol_relation wait_protocol
  by unfold_locales (auto simp: protocol_def wait_protocol_def)

lemma unlock_prepare_follows:
  assumes "writes_follow wait_protocol (trace w)"
  shows "wp (unlock_prepare p x b s) (\<lambda>d w'. writes_follow wait_protocol (trace w') \<and>
    (\<forall>t q. d = Publish t q \<longrightarrow> valid_status s \<longrightarrow> valid_status t \<longrightarrow> wait_protocol s t)) (\<lambda>_. True) w"
  using assms
  by (auto simp: unlock_prepare_def wp_simps lift_splits res_simps Let_def wait_protocol_def
      split: downstream_count_policy.splits)

interpretation unlock: status_update f "unlock_prepare p x b" check_retry wait_protocol
  for f p x b
  by (unfold_locales; (rule unlock_prepare_follows follows_check_retry | assumption)+)

lemma follows_try_inc_wait [follows_intros]: "follows wait_protocol (future_downstream_count_try_inc f st)"
proof (rule follows_try_inc [OF _ general.follows_dec])
  show "wait_protocol s (s\<lparr>downstream_count := downstream_count s + 1\<rparr>)"
    if "valid_status s" "downstream_count s \<noteq> MAX_DOWNSTREAM_COUNT" "available s \<or> fstate s = STATE_RESULT" for s
    using that by (auto simp: wait_protocol_def valid_status_def)
qed

lemma follows_timer_loop [follows_intros]: "follows wait_protocol (timer_poll_loop n f st t sw p)"
  by (induction n arbitrary: st t sw)
     (auto intro!: follows_intros general.timer.update_follows split: decision.splits)

lemma follows_timer_once [follows_intros]: "follows wait_protocol (future_wait_timer_once f st t p)"
  unfolding future_wait_timer_once_def
  by (auto intro!: follows_intros split: downstream_count_policy.splits loop_exit.splits)

lemma follows_join_events [follows_intros]:
  assumes "\<And>u. follows R (poll u)"
  shows "follows R (join_events poll f ids st x)"
  by (induction ids arbitrary: st x)
     (auto intro!: follows_intros assms simp: Let_def split: specific_state.splits future_outcome.splits)

lemma follows_join_notify [follows_intros]: "follows R (join_notify f st x)"
  unfolding join_notify_def by (auto intro!: follows_intros split: specific_state.splits)

lemma follows_join_poll [follows_intros]:
  assumes "\<And>u. follows wait_protocol (poll u)"
  shows "follows wait_protocol (join_poll_loop n poll f st t sw p)"
  by (induction n arbitrary: st t sw)
     (auto intro!: follows_intros assms unlock.update_follows simp: Let_def
       split: specific_state.splits decision.splits)

lemma follows_join_loop [follows_intros]:
  assumes "\<And>u. follows wait_protocol (poll u)"
  shows "follows wait_protocol (join_loop n poll f st t sw p)"
  by (induction n arbitrary: st t sw)
     (auto intro!: follows_intros assms general.lock.update_follows general.follows_finish_count simp: Let_def
       split: decision.splits lock_exit.splits address_wait_outcome.splits)

lemma follows_join [follows_intros]:
  assumes "\<And>u. follows wait_protocol (poll u)"
  shows "follows wait_protocol (future_wait_join poll f st t p)"
  unfolding future_wait_join_def by (intro follows_intros assms)

lemma follows_wait_fuel [follows_intros]: "follows wait_protocol (future_wait_fuel n f t p)"
  by (induction n arbitrary: f t p)
     (auto intro!: follows_intros general.follows_eager simp: future_wait_unordered_def future_wait_timer_repeat_def
       split: future_type.splits)

lemma follows_wait: "follows wait_protocol (future_wait f t p)"
  unfolding future_wait_def by (intro follows_intros)

section \<open>Waiters are counted once\<close>

fun count_balance :: "fid \<Rightarrow> effect list \<Rightarrow> int" where
  "count_balance f [] = 0"
| "count_balance f (Write g u v # tr) = (if g = f
     then uint (downstream_count (as_bitfield v)) - uint (downstream_count (as_bitfield u)) else 0)
     + count_balance f tr"
| "count_balance f (_ # tr) = count_balance f tr"

definition attach_amount :: "downstream_count_policy \<Rightarrow> int" where
  "attach_amount p = (case p of DOWNSTREAM_COUNT_CYCLE \<Rightarrow> 1 | DOWNSTREAM_COUNT_KEEP \<Rightarrow> 0)"

lemma uint_count_inc: "c < MAX_DOWNSTREAM_COUNT \<Longrightarrow> uint (c + 1) = uint c + 1"
proof -
  assume "c < MAX_DOWNSTREAM_COUNT"
  then have "unat (c + 1) = unat c + 1" by (simp add: count_less_max_iff unat_word_ariths)
  then show "uint (c + 1) = uint c + 1" by (simp only: uint_nat of_nat_add of_nat_1)
qed

lemma uint_count_dec: "(c :: u16) \<noteq> 0 \<Longrightarrow> uint (c - 1) = uint c - 1"
  using uint_minus_simple_alt [of 1 c] u16_ge_1 [of c] by simp

lemma finish_count_balance:
  "wp (finish_count f st p) (\<lambda>_ w'. count_balance f (trace w') = count_balance f (trace w) - attach_amount p)
     (\<lambda>_. True) w"
  by (cases p) (auto simp: finish_count_def attach_amount_def wp_simps Let_def word_status_in uint_count_dec
      split: list.splits step.splits)

lemma eager_sleep_balance:
  "wp (eager_sleep f st t sw p) (\<lambda>_ w'. count_balance f (trace w') = count_balance f (trace w) - attach_amount p)
     (\<lambda>_. True) w"
  unfolding eager_sleep_def wp_bind
proof (rule wp_mono [OF silent_by_adress [THEN silent_wp]], goal_cases)
  case (1 x w')
  then show ?case
    using finish_count_balance [of f _ p w']
    by (auto simp: wp_simps split: prod.splits address_wait_outcome.splits)
qed simp

lemma eager_update_balance:
  "wp (cas_loop n f (eager_prepare p) (result_retry Return) st)
     (\<lambda>d w'. count_balance f (trace w') = count_balance f (trace w) +
       (case d of Leave (Return _) \<Rightarrow> 0 | _ \<Rightarrow> attach_amount p)) (\<lambda>_. True) w"
proof (rule wp_mono [OF cas_loop_effect [where
      P = "\<lambda>s d. case d of Publish t q \<Rightarrow> uint (downstream_count t) = uint (downstream_count s) + attach_amount p
             | Leave (Break t) \<Rightarrow> p = DOWNSTREAM_COUNT_KEEP | _ \<Rightarrow> False" and
      L = "\<lambda>s r. r = None \<or> r = Some (Return s)"]])
  show "wp (eager_prepare p s) (\<lambda>d w'. w' = w \<and> (case d of
       Publish t q \<Rightarrow> uint (downstream_count t) = uint (downstream_count s) + attach_amount p
     | Leave (Break t) \<Rightarrow> p = DOWNSTREAM_COUNT_KEEP | _ \<Rightarrow> False)) (\<lambda>_. True) w" for s w
  proof (cases p)
    case DOWNSTREAM_COUNT_CYCLE
    have "s\<lparr>downstream_count := downstream_count s + 1, notify_address := True\<rparr> \<noteq> s"
      by (cases s) simp
    then show ?thesis using DOWNSTREAM_COUNT_CYCLE
      by (auto simp: eager_prepare_def wp_simps lift_splits res_simps Let_def attach_amount_def uint_count_inc)
  next
    case DOWNSTREAM_COUNT_KEEP
    then show ?thesis
      by (auto simp: eager_prepare_def wp_simps lift_splits res_simps Let_def attach_amount_def)
  qed
  show "wp (result_retry Return s) (\<lambda>r w'. w' = w \<and> (r = None \<or> r = Some (Return s))) (\<lambda>_. True) w" for s w
    by (auto simp: result_retry_def wp_simps)
qed (auto simp: attach_amount_def split: decision.splits loop_exit.splits)

lemma eager_balance:
  "wp (future_wait_eager f st t p) (\<lambda>_ w'. count_balance f (trace w') = count_balance f (trace w)) (\<lambda>_. True) w"
proof -
  have rest: "wp (case d of Leave (Return st) \<Rightarrow> retM st | Leave (Break st) \<Rightarrow> eager_sleep f st t sw p
        | Publish st _ \<Rightarrow> eager_sleep f st t sw p)
      (\<lambda>_ w'. count_balance f (trace w') = b) (\<lambda>_. True) w'"
    if "count_balance f (trace w') = b + (case d of Leave (Return _) \<Rightarrow> 0 | _ \<Rightarrow> attach_amount p)"
    for d :: "(unit, loop_exit) decision" and sw b w'
    using that
    by (cases d rule: decision.exhaust)
       (auto simp: wp_ret split: loop_exit.splits intro!: wp_mono [OF eager_sleep_balance])
  show ?thesis
    unfolding future_wait_eager_def
    by (auto simp: wp_simps simp del: cas_loop.simps split: list.splits step.splits intro!: wp_mono [OF eager_update_balance] rest)
qed

section \<open>A registered waiter is safe\<close>

text \<open>\<open>env_keeps f P ss\<close>: whatever other threads write to future \<open>f\<close> during the schedule satisfies \<open>P\<close>.\<close>

definition env_keeps :: "fid \<Rightarrow> (future_status \<Rightarrow> bool) \<Rightarrow> step list \<Rightarrow> bool" where
  "env_keeps f P ss \<longleftrightarrow> (\<forall>ws sp v. Interference ws sp \<in> set ss \<longrightarrow> (f, v) \<in> set ws \<longrightarrow> P (as_bitfield v))"

lemma env_keeps_Cons [simp]:
  "env_keeps f P (s # ss) \<longleftrightarrow>
     (case s of Interference ws sp \<Rightarrow> \<forall>v. (f, v) \<in> set ws \<longrightarrow> P (as_bitfield v) | _ \<Rightarrow> True) \<and> env_keeps f P ss"
  by (auto simp: env_keeps_def split: step.splits)

lemma env_keeps_Nil [simp]: "env_keeps f P []"
  by (simp add: env_keeps_def)

lemma env_keeps_status:
  assumes "P (status_in w f)" and "\<forall>v. (f, v) \<in> set ws \<longrightarrow> P (as_bitfield v)"
  shows "P (status_in (disturbed ws ss w) f)"
  using assms apply_writes_word [of ws "futures w" f] by (auto simp: status_in_def disturbed_def)

text \<open>The results that the futex call may have.\<close>

definition futex_results :: "step list \<Rightarrow> bool" where
  "futex_results ss \<longleftrightarrow> (\<forall>r e. Returns r e \<in> set ss \<longrightarrow>
     r = 0 \<or> r = -1 \<and> (e = EAGAIN \<or> e = ETIMEDOUT \<or> e = EINTR))"

lemma futex_results_Cons [simp]:
  "futex_results (s # ss) \<longleftrightarrow> (case s of Returns r e \<Rightarrow> r = 0 \<or> r = -1 \<and> (e = EAGAIN \<or> e = ETIMEDOUT \<or> e = EINTR)
     | _ \<Rightarrow> True) \<and> futex_results ss"
  by (auto simp: futex_results_def split: step.splits)

lemma futex_results_Nil [simp]: "futex_results []"
  by (simp add: futex_results_def)

text \<open>A status that counts this waiter, of a future that a worker thread completes.\<close>

definition counted :: "future_status \<Rightarrow> bool" where
  "counted s \<longleftrightarrow> valid_status s \<and> ftype s \<in> worker_types \<and> available s \<and> downstream_count s \<noteq> 0"

lemma counted_valid: "counted s \<Longrightarrow> valid_status s"
  by (simp add: counted_def)

lemma disturbed_schedule [simp]: "disturbed ws ss (w\<lparr>schedule := x\<rparr>) = disturbed ws ss w"
  by (simp add: disturbed_def)

definition sleeping :: "fid \<Rightarrow> stopwatch \<Rightarrow> world \<Rightarrow> bool" where
  "sleeping f sw w \<longleftrightarrow> counted (status_in w f) \<and> env_keeps f counted (schedule w) \<and>
     futex_results (schedule w) \<and> clocks_from (tv_sec (last_time sw)) (schedule w)"

lemma sleeping_clock:
  "sleeping f sw w \<Longrightarrow> schedule w = Clock t # ss \<Longrightarrow>
     tv_sec (last_time sw) \<le> tv_sec t \<and> sleeping f \<lparr>last_time = t\<rparr> (w\<lparr>schedule := ss\<rparr>)"
  by (simp add: sleeping_def status_in_def)

lemma sleeping_disturbed:
  "sleeping f sw w \<Longrightarrow> schedule w = Interference ws sp # ss \<Longrightarrow>
     sleeping f sw (disturbed ws ss w) \<and> counted (status_in (disturbed ws ss w) f)"
  by (auto simp: sleeping_def intro: env_keeps_status)

lemma wait_on_address_sleeping:
  assumes "sleeping f sw w" and "timeout \<noteq> UDIPE_DURATION_DEFAULT"
  shows "wp (wait_on_address f v timeout) (\<lambda>_ w'. sleeping f sw w') (\<lambda>e. e = ScheduleEnd) w"
proof -
  obtain r where "make_unix_timeout timeout = Inr r" using make_unix_timeout_total [OF assms(2)] by blast
  moreover have "sleeping f sw (disturbed ws ss w)" if "schedule w = Interference ws sp # ss" for ws sp ss
    using assms(1) that by (auto simp: sleeping_def intro: env_keeps_status)
  moreover have "sleeping f sw (w\<lparr>schedule := ss\<rparr>)" if "schedule w = Returns r e # ss" for r e ss
    using assms(1) that by (simp add: sleeping_def status_in_def)
  moreover have "r = 0 \<or> r = -1 \<and> (e = EAGAIN \<or> e = ETIMEDOUT \<or> e = EINTR)" if "schedule w = Returns r e # ss" for r e ss
    using assms(1) that by (simp add: sleeping_def)
  ultimately show ?thesis
    using assms(2) unfolding wait_on_address_def
    by (auto simp: wp_simps split: list.splits step.splits)
qed

lemma by_adress_loop_sleeping:
  assumes "sleeping f sw w" and "timeout \<noteq> UDIPE_DURATION_DEFAULT" and "valid_status st"
  shows "wp (wait_by_adress_loop n f False st timeout sw)
    (\<lambda>(st', t', sw') w'. sleeping f sw' w' \<and> valid_status st') (\<lambda>e. e = ScheduleEnd) w"
  using assms
proof (induction n arbitrary: st timeout sw w)
  case (Suc n)
  have measure: "wp (bindM (stopwatch_measure sw) (\<lambda>(elapsed_time, sw').
      if timeout \<le> elapsed_time then retM (st', UDIPE_DURATION_MIN, sw')
      else wait_by_adress_loop n f False st' (timeout - elapsed_time) sw'))
      (\<lambda>(st', t', sw') w'. sleeping f sw' w' \<and> valid_status st') (\<lambda>e. e = ScheduleEnd) w'"
    if "sleeping f sw w'" "valid_status st'" for st' w'
    using that by (auto simp: wp_simps split: list.splits step.splits dest: sleeping_clock
        intro!: Suc.IH remaining_not_default)
  have loaded: "wp (future_status_load f) (\<lambda>st' w''. sleeping f sw w'' \<and> valid_status st') (\<lambda>e. e = ScheduleEnd) w'"
    if "sleeping f sw w'" for w'
    using sleeping_disturbed [OF that]
    by (auto simp: wp_status_load split: list.splits step.splits dest: counted_valid)
  have after: "wp (bindM (if success then
        bindM (future_status_load f) (\<lambda>latest'. seqM (check_status latest' True) (
        retM (latest', fstate latest' = STATE_RESULT \<or> False \<and> \<not> notify_event_or_lazy_lock latest')))
      else retM (st, False)) (\<lambda>(latest', done).
      if done then retM (latest', timeout, sw)
      else bindM (stopwatch_measure sw) (\<lambda>(elapsed_time, sw').
        if timeout \<le> elapsed_time then retM (latest', UDIPE_DURATION_MIN, sw')
        else wait_by_adress_loop n f False latest' (timeout - elapsed_time) sw')))
      (\<lambda>(st', t', sw') w'. sleeping f sw' w' \<and> valid_status st') (\<lambda>e. e = ScheduleEnd) w'"
    if "sleeping f sw w'" for success w'
  proof (cases success)
    case True
    show ?thesis
      by (simp only: True if_True wp_bind)
         (rule wp_mono [OF loaded [OF that]]; auto simp: wp_seq wp_check_status wp_ret wp_bind intro!: measure [unfolded wp_bind])
  next
    case False
    then show ?thesis using that Suc.prems(3) measure by (simp add: wp_ret wp_bind)
  qed
  show ?case
    using Suc.prems(3)
    by (simp only: wait_by_adress_loop.simps wp_bind future_status_wait_def wp_seq wp_check_status if_True)
       (rule wp_mono [OF wait_on_address_sleeping [OF Suc.prems(1,2)]],
        rule after, assumption+)
qed (simp add: wp_simps)

lemma counted_not_lazy: "ftype s \<in> worker_types \<Longrightarrow> future_type_uses_lazy_lock (ftype s) = Inr False"
  by (auto simp: worker_types_def)

lemma eager_sleep_safe:
  assumes "sleeping f sw w" and "timeout \<noteq> UDIPE_DURATION_DEFAULT"
    and "counted st" and "fstate st \<noteq> STATE_RESULT" and "notify_address st"
  shows "wp (eager_sleep f st timeout sw DOWNSTREAM_COUNT_CYCLE)
    (\<lambda>st' w'. status_in w' f = st' \<and> valid_status st') (\<lambda>e. e = ScheduleEnd) w"
proof -
  have dec: "wp (future_downstream_count_dec f) (\<lambda>st' w'. status_in w' f = st' \<and> valid_status st')
      (\<lambda>e. e = ScheduleEnd) w'" if "sleeping f sw' w'" for sw' w'
  proof -
    have "valid_status (s\<lparr>downstream_count := c\<rparr>)" if "counted s" for s c
      using that by (simp add: counted_def valid_status_def)
    then show ?thesis
      using that by (auto simp: wp_count_dec Let_def counted_def split: list.splits step.splits
          dest: sleeping_disturbed)
  qed
  have "future_type_uses_lazy_lock (ftype st) = Inr False"
    using assms(3) by (simp add: counted_def counted_not_lazy)
  then show ?thesis
    using assms unfolding eager_sleep_def future_wait_by_adress_def finish_count_def
    by (auto simp: wp_bind wp_seq wp_assert wp_lift wp_ret wp_with_fuel wp_prod counted_valid
        simp del: wait_by_adress_loop.simps intro!: wp_mono [OF by_adress_loop_sleeping] dec)
qed

section \<open>Concrete runs\<close>

definition join_status :: future_status where
  "join_status = \<lparr>downstream_count = 0, downstream_count_overflow = False, available = True,
     fstate = STATE_WAITING, foutcome = OUTCOME_UNKNOWN, ftype = TYPE_JOIN,
     notify_address = False, notify_event_or_lazy_lock = False, reserved = 0\<rparr>"

definition done_status :: "future_outcome \<Rightarrow> future_status" where
  "done_status x = \<lparr>downstream_count = 1, downstream_count_overflow = False, available = True,
     fstate = STATE_RESULT, foutcome = x, ftype = TYPE_CUSTOM,
     notify_address = False, notify_event_or_lazy_lock = True, reserved = 0\<rparr>"

text \<open>Future 0 joins the futures 1 and 2, of which \<open>remaining\<close> have not been seen to complete.\<close>

definition join_world :: "future_status \<Rightarrow> u32 \<Rightarrow> future_outcome \<Rightarrow> step list \<Rightarrow> world" where
  "join_world st remaining x ss = \<lparr>
     futures = (\<lambda>f. if f = 0
       then \<lparr>specific = Join \<lparr>upstream_array = [1, 2], upstream_remaining = remaining\<rparr> 7,
             context_id = 0, status_sync = 5, status_word = as_word st\<rparr>
       else \<lparr>specific = Custom [], context_id = 0, status_sync = 20 + int f,
             status_word = as_word (done_status x)\<rparr>), allocator = empty_allocator,
     schedule = ss, trace = []\<rparr>"

definition tick :: step where
  "tick = Clock \<lparr>tv_sec = 100, tv_nsec = 0\<rparr>"

definition cancel_race :: "step list" where
  "cancel_race = [Interference [] False, tick, Interference [] False,
     tick, Events 1 EOTHER [(True, 1)], Interference [] False, Returns 0 EOTHER,
     Interference [(0, as_word (join_status\<lparr>downstream_count := 1, notify_event_or_lazy_lock := True,
       fstate := STATE_RESULT, foutcome := OUTCOME_FAILURE_CANCELED\<rparr>))] False,
     Interference [] False]"

text \<open>The lock holder gives up, the waiting thread takes the lock and sees the last upstream complete.\<close>

definition relock_run :: "step list" where
  "relock_run = [Interference [] False, tick, Interference [] False, Returns 0 EOTHER,
     Interference [(0, as_word (join_status\<lparr>downstream_count := 1, notify_address := True\<rparr>))] False,
     Interference [] False,
     tick, Events 1 EOTHER [(True, 1)], Interference [] False, Returns 0 EOTHER,
     Interference [] False, Returns 0 EOTHER, Returns 0 EOTHER]"

text \<open>Both upstream futures are reported in one batch.\<close>

definition batch_run :: "step list" where
  "batch_run = [Interference [] False, tick, Interference [] False,
     tick, Events 2 EOTHER [(True, 0), (True, 1)], Interference [] False, Returns 0 EOTHER,
     Interference [] False, Returns 0 EOTHER, Interference [] False]"

definition timer_status :: future_status where
  "timer_status = \<lparr>downstream_count = 0, downstream_count_overflow = False, available = True,
     fstate = STATE_PROCESSING, foutcome = OUTCOME_UNKNOWN, ftype = TYPE_TIMER_ONCE,
     notify_address = False, notify_event_or_lazy_lock = False, reserved = 0\<rparr>"

lemma valid_timer_status [simp]: "valid_status timer_status"
  by (simp add: valid_status_def timer_status_def type_sets)

section \<open>Properties\<close>



text \<open>C16. A wait for a future that a worker thread completes, when it returns, has removed exactly the
  reference it added: under any interference, its own changes of the downstream count sum to zero, for
  both count policies, and each of its writes follows the strict protocol (a known outcome is never
  replaced).\<close>

theorem eager_wait_counts_once:
  assumes "future_wait_eager f st timeout count_policy w = Inr (st', w')" and "trace w = []"
  shows "count_balance f (trace w') = 0 \<and>
    (\<forall>g u v. Write g u v \<in> set (trace w') \<longrightarrow> protocol (as_bitfield u) (as_bitfield v))"
  using follows_returns [OF strict.follows_eager assms(1)] wp_returns [OF eager_balance assms(1)] assms(2)
  by (simp add: writes_follow_def)

definition eager_run :: "step list" where
  "eager_run = [tick, Interference [] True, Interference [] False, Returns (-1) EINTR, tick, Returns 0 EOTHER,
     Interference [(0, as_word (live_custom\<lparr>downstream_count := 3, notify_address := True,
       fstate := STATE_RESULT, foutcome := OUTCOME_SUCCESS\<rparr>))] False, Interference [] False]"

theorem eager_wait_counts_once_witness:
  "\<exists>st' w'. future_wait_eager 0 live_custom 1000 DOWNSTREAM_COUNT_CYCLE (demo_world live_custom eager_run) = Inr (st', w') \<and>
     count_balance 0 (trace w') = 0 \<and>
     (\<forall>g u v. Write g u v \<in> set (trace w') \<longrightarrow> protocol (as_bitfield u) (as_bitfield v))"
proof -
  let ?w = "demo_world live_custom eager_run"
  have "case future_wait_eager 0 live_custom 1000 DOWNSTREAM_COUNT_CYCLE ?w of Inl e \<Rightarrow> False | Inr (st, w') \<Rightarrow> True"
    by code_simp
  then obtain st w' where r: "future_wait_eager 0 live_custom 1000 DOWNSTREAM_COUNT_CYCLE ?w = Inr (st, w')"
    by (auto split: sum.splits)
  show ?thesis using eager_wait_counts_once [OF r] r by auto
qed

text \<open>C4. Once a waiter for a future completed by a worker thread is registered, no behaviour of the
  other threads that keeps the future valid and counted, no futex result and no wakeup order makes a
  check fail: the wait runs until it returns, and then the status it returns is the one in memory,
  with its own reference removed.\<close>

theorem eager_wait_safe:
  assumes "valid_status st" "ftype st \<in> worker_types" "available st" "fstate st \<noteq> STATE_RESULT"
    and "downstream_count st < MAX_DOWNSTREAM_COUNT"
    and "timeout \<noteq> UDIPE_DURATION_DEFAULT" "timeout \<noteq> UDIPE_DURATION_MIN"
    and "schedule w = Clock t # Interference ws False # ss"
    and "status_in (disturbed ws ss w) f = st"
    and "env_keeps f counted ss" "futex_results ss" "clocks_from (tv_sec t) ss"
  shows "case future_wait_eager f st timeout DOWNSTREAM_COUNT_CYCLE w of
      Inl e \<Rightarrow> e = ScheduleEnd
    | Inr (st', w') \<Rightarrow> status_in w' f = st' \<and> valid_status st' \<and>
        count_balance f (trace w') = count_balance f (trace w)"
proof -
  let ?d = "st\<lparr>downstream_count := downstream_count st + 1, notify_address := True\<rparr>"
  have nz: "downstream_count st + 1 \<noteq> 0"
    using assms(5) by (metis add_diff_cancel max_count_minus order_less_irrefl)
  then have d: "counted ?d" using assms(1-4) by (simp add: counted_def valid_status_def)
  have ne: "?d \<noteq> st" by (cases st) simp
  have prep: "prepare_downstream_count_inc st DOWNSTREAM_COUNT_CYCLE =
      Inr (st\<lparr>downstream_count := downstream_count st + 1\<rparr>)"
    using assms(1,4,5) by (simp add: prepare_inc_eq_Inr)
  have codes: "type_code TYPE_NETWORK_CONNECT \<le> type_code (ftype st) \<and> type_code (ftype st) < type_code TYPE_CUSTOM
      \<or> ftype st = TYPE_CUSTOM"
    using assms(2) by (auto simp: worker_types_def type_code_def TYPES_def)
  have sl: "sleeping f \<lparr>last_time = t\<rparr> (written f (as_word ?d) (disturbed ws ss w))"
    using assms(10-12) d by (simp add: sleeping_def)
  have "wp (future_wait_eager f st timeout DOWNSTREAM_COUNT_CYCLE)
     (\<lambda>st' w'. status_in w' f = st' \<and> valid_status st') (\<lambda>e. e = ScheduleEnd) w"
    unfolding future_wait_eager_def
    using assms(1-9) d ne prep codes sl
    by (auto simp: wp_simps eager_prepare_def Let_def counted_valid intro!: eager_sleep_safe)
  then show ?thesis
    using eager_balance [of f st timeout DOWNSTREAM_COUNT_CYCLE w] by (auto simp: wp_def split: sum.splits)
qed

lemma live_custom_parts [simp]:
  "ftype live_custom = TYPE_CUSTOM" "available live_custom" "fstate live_custom = STATE_PROCESSING"
  "downstream_count live_custom = 2"
  by (simp_all add: live_custom_def)

definition safe_demo :: world where
  "safe_demo = demo_world live_custom [tick, Interference [] False, Returns 0 EOTHER, Interference [] False, tick]"

theorem eager_wait_safe_witness:
  "case future_wait_eager 0 live_custom 1000 DOWNSTREAM_COUNT_CYCLE safe_demo of
      Inl e \<Rightarrow> e = ScheduleEnd
    | Inr (st', w') \<Rightarrow> status_in w' 0 = st' \<and> valid_status st' \<and>
        count_balance 0 (trace w') = count_balance 0 (trace safe_demo)"
  by (rule eager_wait_safe [where t = "\<lparr>tv_sec = 100, tv_nsec = 0\<rparr>" and ws = "[]"
        and ss = "[Returns 0 EOTHER, Interference [] False, tick]"])
     (simp_all add: safe_demo_def tick_def duration_consts worker_types_def MAX_DOWNSTREAM_COUNT_def)

text \<open>C32. When a timed wait for a single-shot timer times out, the reference the waiter added under
  the cycle policy stays: the returned status and the shared word both still count it.\<close>

theorem timer_timeout_keeps_count:
  assumes "valid_status st" "ftype st = TYPE_TIMER_ONCE" "available st" "fstate st \<noteq> STATE_RESULT"
    and "downstream_count st < MAX_DOWNSTREAM_COUNT" and "timeout \<noteq> UDIPE_DURATION_DEFAULT"
    and "status_in w f = st"
    and "schedule w = [Clock t, Interference [] sp, Events 0 e []]"
  shows "\<exists>w'. future_wait_timer_once f st timeout DOWNSTREAM_COUNT_CYCLE w =
      Inr (st\<lparr>downstream_count := downstream_count st + 1\<rparr>, w') \<and>
    status_in w' f = st\<lparr>downstream_count := downstream_count st + 1\<rparr> \<and>
    count_balance f (trace w') = count_balance f (trace w) + 1"
proof -
  let ?d = "st\<lparr>downstream_count := downstream_count st + 1\<rparr>"
  obtain r where r: "make_unix_timeout timeout = Inr r" using make_unix_timeout_total [OF assms(6)] by blast
  have ne: "downstream_count st \<noteq> MAX_DOWNSTREAM_COUNT" using assms(5) by auto
  have inc: "as_bitfield (as_word st + 1) = ?d"
    using as_word_inc [OF ne] by (metis as_bitfield_as_word)
  have quiet: "status_in (disturbed [] ss w') f = status_in w' f" for ss w'
    by (simp add: disturbed_def status_in_def)
  have sched: "status_in (w'\<lparr>schedule := x\<rparr>) f = status_in w' f" for w' x by (simp add: status_in_def)
  have "valid_status ?d" using assms(1,3) by (simp add: valid_status_def)
  then have "wp (future_wait_timer_once f st timeout DOWNSTREAM_COUNT_CYCLE)
     (\<lambda>st' w'. st' = ?d \<and> status_in w' f = ?d \<and> count_balance f (trace w') = count_balance f (trace w) + 1)
     (\<lambda>_. False) w"
    using assms ne inc uint_count_inc [OF assms(5)] r
    by (simp add: future_wait_timer_once_def wp_simps Let_def quiet sched word_status_in)
  then show ?thesis by (auto simp: wp_def split: sum.splits)
qed

theorem timer_timeout_keeps_count_witness:
  "\<exists>w'. future_wait_timer_once 0 timer_status 500 DOWNSTREAM_COUNT_CYCLE
      (demo_world timer_status [tick, Interference [] False, Events 0 EOTHER []]) =
      Inr (timer_status\<lparr>downstream_count := downstream_count timer_status + 1\<rparr>, w') \<and>
    status_in w' 0 = timer_status\<lparr>downstream_count := downstream_count timer_status + 1\<rparr> \<and>
    count_balance 0 (trace w') = count_balance 0 (trace (demo_world timer_status [tick, Interference [] False, Events 0 EOTHER []])) + 1"
  by (rule timer_timeout_keeps_count [where t = "\<lparr>tv_sec = 100, tv_nsec = 0\<rparr>" and sp = False and e = EOTHER])
     (simp_all add: timer_status_def tick_def duration_consts MAX_DOWNSTREAM_COUNT_def,
      simp_all flip: timer_status_def)

text \<open>A thread that waits for a join future behind another waiter and takes over its lock
  registers a second time: in the run where it then sees the last upstream future complete, it returns
  the result but leaves one reference behind.\<close>

theorem join_relock_leaks_count:
  "case future_wait 0 1000 DOWNSTREAM_COUNT_CYCLE
      (join_world (join_status\<lparr>downstream_count := 1, notify_event_or_lazy_lock := True\<rparr>) 1 OUTCOME_SUCCESS relock_run) of
      Inl e \<Rightarrow> False
    | Inr (st, w') \<Rightarrow> fstate st = STATE_RESULT \<and> count_balance 0 (trace w') = 1"
  by code_simp

text \<open>When two upstream futures of a join have failed and are reported in one batch, the wait
  stops with a failed assertion instead of reporting the dependency failure.\<close>

theorem join_two_failures_assert:
  "(case future_wait 0 1000 DOWNSTREAM_COUNT_CYCLE (join_world join_status 2 OUTCOME_FAILURE_INTERNAL batch_run) of
      Inl e \<Rightarrow> e = AssertFailed | Inr _ \<Rightarrow> False) \<and>
   (case future_wait 0 1000 DOWNSTREAM_COUNT_CYCLE (join_world join_status 2 OUTCOME_SUCCESS batch_run) of
      Inl e \<Rightarrow> False | Inr (st, w') \<Rightarrow> fstate st = STATE_RESULT \<and> foutcome st = OUTCOME_SUCCESS)"
  by (rule conjI; code_simp)

text \<open>The final update of a join future can replace an outcome that is already known: when the
  future is canceled while the lock holder publishes success, the word goes from canceled to success.\<close>

theorem join_overwrites_cancel:
  "case future_wait 0 1000 DOWNSTREAM_COUNT_CYCLE (join_world join_status 1 OUTCOME_SUCCESS cancel_race) of
      Inl e \<Rightarrow> False
    | Inr (st, w') \<Rightarrow> list_ex (\<lambda>e. case e of
        Write f u v \<Rightarrow> f = 0 \<and> fstate (as_bitfield u) = STATE_RESULT \<and>
          foutcome (as_bitfield u) = OUTCOME_FAILURE_CANCELED \<and> foutcome (as_bitfield v) = OUTCOME_SUCCESS
      | _ \<Rightarrow> False) (trace w')"
  by code_simp

end
