(* ===== verification/Memory.thy ===== *)
theory Memory
  imports Bits OsSync
begin

text \<open>
  Page-aligned memory for realtime threads (src/memory.[ch], on Linux): the system configuration,
  the rounding of allocation sizes, \<open>mmap\<close> with \<open>mlock\<close>, and the attempt to raise the memory locking
  limit.  Sizes are 64-bit words.  The page size that \<open>read_system_config\<close> stores once is \<open>page_size\<close>
  of the allocator state; on Linux it is also the allocation granularity.
\<close>

section \<open>System configuration\<close>

definition MIN_PAGE_ALIGNMENT :: nat where
  "MIN_PAGE_ALIGNMENT = 4096"

text \<open>Returns the encoded page size and allocation granularity.\<close>

definition read_system_config :: "(pow2 \<times> pow2) comp" where
  "read_system_config =
    bindM syscall (\<lambda>(page_size_l, errno).
    if page_size_l < 1 then stopM ExitError
    else if page_size_l > 0xFFFFFFFF then stopM ExitError
    else
      let page_size_u = (word_of_int page_size_l :: u32) in
      seqM (assertM (unat page_size_u \<ge> MIN_PAGE_ALIGNMENT)) (
      bindM (liftR (pow2_encode page_size_u)) (\<lambda>page_size_pow2.
      seqM (assertM (page_size_u \<ge> page_size_u)) (
      bindM (liftR (pow2_encode page_size_u)) (\<lambda>granularity_pow2.
      retM (page_size_pow2, granularity_pow2))))))"

definition get_page_size :: "u64 comp" where
  "get_page_size = bindM get_allocator (\<lambda>a. retM (word_of_nat (page_size a)))"

definition get_allocation_granularity :: "u64 comp" where
  "get_allocation_granularity = get_page_size"

definition rounded_size :: "u64 \<Rightarrow> u64 \<Rightarrow> u64" where
  "rounded_size granularity bytes =
    (let trailing_bytes = bytes mod granularity in
     if trailing_bytes \<noteq> 0 then bytes + (granularity - trailing_bytes) else bytes)"

definition allocation_size :: "u64 \<Rightarrow> u64 comp" where
  "allocation_size bytes = bindM get_allocation_granularity (\<lambda>g. retM (rounded_size g bytes))"

section \<open>The memory locking limit\<close>

text \<open>The loop that doubles the soft limit; a loop that does not end is \<open>None\<close>.\<close>

partial_function (option) double_limit :: "u64 \<Rightarrow> u64 \<Rightarrow> u64 option" where
  "double_limit target rlim_cur =
    (if rlim_cur < target then double_limit target (rlim_cur * 2) else Some rlim_cur)"

definition raised_limits :: "u64 \<Rightarrow> u64 \<Rightarrow> u64 \<Rightarrow> (u64 \<times> u64) option" where
  "raised_limits bytes initial_cur initial_max =
    (case double_limit (initial_cur + bytes) initial_cur of
       None \<Rightarrow> None
     | Some cur \<Rightarrow> Some (
         if cur > initial_max then
           (if initial_max - initial_cur \<ge> bytes then (initial_max, initial_max) else (cur, cur))
         else (cur, initial_max)))"

definition try_increase_mlock_budget :: "u64 \<Rightarrow> bool comp" where
  "try_increase_mlock_budget bytes =
    bindM limits_syscall (\<lambda>(result, errno, initial_cur, initial_max).
    if result < 0 then stopM ExitError
    else (case raised_limits bytes initial_cur initial_max of
        None \<Rightarrow> stopM ScheduleEnd
      | Some (rlim_cur, rlim_max) \<Rightarrow>
          seqM (emit (SetRlimit rlim_cur rlim_max)) (
          bindM syscall (\<lambda>(result, errno).
          if result = 0 then retM True
          else (case errno of
              EFAULT \<Rightarrow> stopM ExitError
            | EINVAL \<Rightarrow> stopM ExitError
            | EPERM \<Rightarrow> seqM (assertM (rlim_max > initial_max)) (retM False)
            | _ \<Rightarrow> retM False)))))"

section \<open>Allocation\<close>

text \<open>Locking the pages of a new allocation.  Where that fails the pages are written to once, which
  leaves them zero as they are.\<close>

definition lock_pages :: "u64 \<Rightarrow> unit comp" where
  "lock_pages bytes =
    bindM syscall (\<lambda>(result, errno).
    if result = 0 then retM ()
    else (case errno of
        EINVAL \<Rightarrow> stopM ExitError
      | ENOMEM \<Rightarrow>
          bindM (try_increase_mlock_budget bytes) (\<lambda>raised.
          if \<not> raised then retM ()
          else bindM syscall (\<lambda>(result, errno). retM ()))
      | _ \<Rightarrow> retM ()))"

definition realtime_allocate :: "u64 \<Rightarrow> nat comp" where
  "realtime_allocate bytes =
    seqM (ensureM (bytes > 0)) (
    bindM get_page_size (\<lambda>psize.
    bindM (allocation_size bytes) (\<lambda>bytes'.
    seqM (assertM (bytes' mod psize = 0)) (
    bindM syscall (\<lambda>(result, errno).
    if result = -1 then stopM ExitError
    else if result < 0 then stopM ScheduleEnd
    else
      seqM (assertM (nat result mod unat psize = 0)) (
      seqM (lock_pages bytes') (
      retM (nat result))))))))"

definition realtime_liberate :: "nat \<Rightarrow> u64 \<Rightarrow> unit comp" where
  "realtime_liberate buffer bytes =
    bindM (allocation_size bytes) (\<lambda>bytes'.
    seqM (emit (Unmap buffer (unat bytes'))) (
    bindM syscall (\<lambda>(result, errno).
    if result < 0 then stopM ExitError else retM ())))"

section \<open>Rounding\<close>

lemma rounded_size_exact:
  assumes g: "0 < g" and fits: "unat bytes + unat g \<le> 2 ^ 64"
  shows "unat (rounded_size g bytes) mod unat g = 0"
    and "unat bytes \<le> unat (rounded_size g bytes)"
    and "unat (rounded_size g bytes) < unat bytes + unat g"
proof -
  let ?s = "unat bytes" and ?g = "unat g"
  have g0: "0 < ?g" using g by (simp add: word_less_nat_alt)
  have m: "unat (bytes mod g) = ?s mod ?g" by (simp add: unat_mod_distrib)
  have eq: "unat (rounded_size g bytes) = (if ?s mod ?g = 0 then ?s else ?s + (?g - ?s mod ?g))"
  proof (cases "?s mod ?g = 0")
    case True
    then have "bytes mod g = 0" using m by (simp add: word_unat_eq_iff)
    then show ?thesis using True by (simp add: rounded_size_def)
  next
    case False
    then have nz: "bytes mod g \<noteq> 0" using m by (metis unat_0)
    have "unat (g - bytes mod g) = ?g - ?s mod ?g"
      using m mod_less_divisor [OF g0, of ?s] by (simp add: unat_sub word_le_nat_alt less_imp_le)
    moreover have "?s + (?g - ?s mod ?g) < 2 ^ 64" using fits False g0 by simp
    ultimately show ?thesis using False nz by (simp add: rounded_size_def Let_def unat_word_ariths(1))
  qed
  show "?s \<le> unat (rounded_size g bytes)" unfolding eq by simp
  show "unat (rounded_size g bytes) < ?s + ?g" unfolding eq using g0 by simp
  have "(?s + (?g - ?s mod ?g)) mod ?g = 0"
  proof -
    have "?s + (?g - ?s mod ?g) = ?s - ?s mod ?g + ?g" using mod_less_divisor [OF g0, of ?s] by simp
    also have "\<dots> mod ?g = 0" by (simp add: minus_mod_eq_mult_div)
    finally show ?thesis .
  qed
  then show "unat (rounded_size g bytes) mod ?g = 0" unfolding eq by simp
qed

section \<open>Properties\<close>

lemma double_limit_returns:
  assumes "0 < cur" and "unat target \<le> 2 ^ 63" and "unat cur < 2 * unat target \<or> cur = c0"
  shows "\<exists>r. double_limit target cur = Some r \<and> target \<le> r \<and> (unat r < 2 * unat target \<or> r = c0)"
  using assms
proof (induction "unat target - unat cur" arbitrary: cur rule: less_induct)
  case less
  show ?case
  proof (cases "cur < target")
    case True
    then have lt: "unat cur < unat target" by (simp add: word_less_nat_alt)
    have c0: "0 < unat cur" using less.prems(1) by (simp add: word_less_nat_alt)
    have dbl: "unat (cur * 2) = unat cur * 2"
      using lt less.prems(2) by (simp add: unat_word_ariths(2))
    have "\<exists>r. double_limit target (cur * 2) = Some r \<and> target \<le> r \<and> (unat r < 2 * unat target \<or> r = c0)"
    proof (rule less.hyps)
      show "unat target - unat (cur * 2) < unat target - unat cur" using dbl lt c0 by linarith
      show "0 < cur * 2" using dbl c0 by (simp add: word_less_nat_alt)
    qed (use less.prems dbl lt in auto)
    then show ?thesis using True by (subst double_limit.simps) simp
  next
    case False
    then show ?thesis using less.prems(3) by (subst double_limit.simps) (auto simp: not_less)
  qed
qed

lemma double_limit_zero: "double_limit target cur = Some r \<Longrightarrow> \<not> (cur = 0 \<and> 0 < target)"
proof -
  assume "double_limit target cur = Some r"
  then have "cur \<noteq> 0 \<or> target = 0"
  proof (rule double_limit.raw_induct [where P = "\<lambda>target cur r. cur \<noteq> 0 \<or> target = 0", rotated])
    fix f :: "u64 \<Rightarrow> u64 \<Rightarrow> u64 option" and target cur r
    assume "\<And>target cur r. f target cur = Some r \<Longrightarrow> cur \<noteq> 0 \<or> target = 0"
      and "(if cur < target then f target (cur * 2) else Some cur) = Some r"
    then show "cur \<noteq> 0 \<or> target = 0" by (cases "cur = 0") (auto split: if_splits simp: word_gt_0)
  qed
  then show ?thesis by auto
qed

text \<open>C33. The doubling of the memory locking limit ends, at or above the needed amount and below its
  double (or at the initial value, when that is enough), whenever the initial limit is positive and the
  needed amount is at most \<open>2 ^ 63\<close>; with an initial soft limit of zero it never ends.\<close>

theorem mlock_limit_doubling:
  "(0 < cur \<and> unat (cur + bytes) \<le> 2 ^ 63 \<longrightarrow>
      (\<exists>r. double_limit (cur + bytes) cur = Some r \<and> cur + bytes \<le> r \<and> (unat r < 2 * unat (cur + bytes) \<or> r = cur))) \<and>
   (0 < bytes \<longrightarrow> double_limit (0 + bytes) 0 = None)"
  using double_limit_returns [of cur "cur + bytes" cur] double_limit_zero [of bytes 0]
  by (cases "double_limit bytes 0") auto

theorem mlock_limit_doubling_witness:
  "(\<exists>r. double_limit (65536 + 4096) 65536 = Some r \<and> 65536 + 4096 \<le> r \<and> (unat r < 2 * unat (65536 + 4096 :: u64) \<or> r = 65536)) \<and>
   double_limit (0 + 4096) 0 = None"
  using mlock_limit_doubling [of 65536 4096] by simp

end
