(* ===== verification/PointerCache.thy ===== *)
theory PointerCache
  imports OsSync
begin

text \<open>
  The cache of unused futures (future/allocator/pointer_cache.[ch]): a doubly linked list of pages
  of future pointers, of which the pages below the top page are full and those after it are empty.
  Pages live in \<open>pages\<close> of the allocator state; a null pointer is \<open>None\<close> and reading through it is
  \<open>BadAccess\<close>.  The functions work on the cache that their \<open>cache_ref\<close> argument designates, the
  thread-local or the context-global one, as the source passes a pointer to one of them.
  The result of \<open>malloc\<close> comes from the schedule: a page address, or 0 for failure.
\<close>

datatype cache_ref = Local | Global

section \<open>Access to caches and pages\<close>

fun cache_of :: "cache_ref \<Rightarrow> allocator_state \<Rightarrow> pointer_cache" where
  "cache_of Local a = local_futures a"
| "cache_of Global a = global_futures a"

fun with_cache :: "cache_ref \<Rightarrow> pointer_cache \<Rightarrow> allocator_state \<Rightarrow> allocator_state" where
  "with_cache Local c a = a\<lparr>local_futures := c\<rparr>"
| "with_cache Global c a = a\<lparr>global_futures := c\<rparr>"

definition get_cache :: "cache_ref \<Rightarrow> pointer_cache comp" where
  "get_cache r = bindM get_allocator (\<lambda>a. retM (cache_of r a))"

definition put_cache :: "cache_ref \<Rightarrow> pointer_cache \<Rightarrow> unit comp" where
  "put_cache r c = bindM get_allocator (\<lambda>a. put_allocator (with_cache r c a))"

definition get_page :: "pid \<Rightarrow> pointer_page comp" where
  "get_page p = bindM get_allocator (\<lambda>a. derefM (pages a p))"

definition put_page :: "pid \<Rightarrow> pointer_page \<Rightarrow> unit comp" where
  "put_page p pg = bindM get_allocator (\<lambda>a. put_allocator (a\<lparr>pages := (pages a)(p \<mapsto> pg)\<rparr>))"

definition update_page :: "pid \<Rightarrow> (pointer_page \<Rightarrow> pointer_page) \<Rightarrow> unit comp" where
  "update_page p upd = bindM (get_page p) (\<lambda>pg. put_page p (upd pg))"

definition slot_read :: "pointer_page \<Rightarrow> nat \<Rightarrow> fid option comp" where
  "slot_read pg i = liftR (array_read (page_futures pg) i)"

definition slot_write :: "pid \<Rightarrow> nat \<Rightarrow> fid option \<Rightarrow> unit comp" where
  "slot_write p i v =
    bindM (get_page p) (\<lambda>pg.
    bindM (liftR (array_write (page_futures pg) i v)) (\<lambda>fs.
    put_page p (pg\<lparr>page_futures := fs\<rparr>)))"

section \<open>Pages\<close>

text \<open>Two link pointers precede the array of future pointers; a pointer has 8 bytes.\<close>

definition page_capacity :: "nat \<Rightarrow> nat res" where
  "page_capacity psize =
    (let available_bytes = nat ((int psize - 16) mod 2 ^ 64) in
     assert_that (available_bytes \<ge> 8) (Inr (available_bytes div 8)))"

definition future_pointer_page_capacity :: "nat comp" where
  "future_pointer_page_capacity = bindM get_allocator (\<lambda>a. liftR (page_capacity (page_size a)))"

definition future_pointer_page_initialize :: "pid comp" where
  "future_pointer_page_initialize =
    bindM syscall (\<lambda>(page, errno).
    if page = 0 then stopM ExitError
    else bindM get_allocator (\<lambda>a.
      if page < 0 \<or> pages a (nat page) \<noteq> None then stopM ScheduleEnd
      else bindM future_pointer_page_capacity (\<lambda>capacity.
        seqM (put_page (nat page)
          \<lparr>page_previous = None, page_next = None, page_futures = replicate capacity None\<rparr>) (
        retM (nat page)))))"

text \<open>The binary search for the first absent pointer.  The last branch is not reached: the search
  keeps \<open>last_present < first_absent\<close>.\<close>

function occupancy_search :: "fid option list \<Rightarrow> nat \<Rightarrow> nat \<Rightarrow> nat res" where
  "occupancy_search fs last_present first_absent =
    (if first_absent = last_present + 1 then Inr first_absent
     else if last_present + 1 < first_absent then
       let midpoint = last_present + (first_absent - last_present) div 2 in
       if midpoint < length fs then
         (if fs ! midpoint \<noteq> None then occupancy_search fs midpoint first_absent
          else occupancy_search fs last_present midpoint)
       else Inl BadAccess
     else Inl UndefinedBehaviour)"
  by pat_completeness auto
termination
  by (relation "measure (\<lambda>(fs, l, a). a - l)") auto

definition future_pointer_page_occupancy :: "pid \<Rightarrow> nat comp" where
  "future_pointer_page_occupancy p =
    bindM (get_page p) (\<lambda>pg.
    bindM (slot_read pg 0) (\<lambda>first.
    if first = None then retM 0
    else
      bindM future_pointer_page_capacity (\<lambda>capacity.
      bindM (slot_read pg (capacity - 1)) (\<lambda>last_slot.
      if last_slot \<noteq> None then retM capacity
      else liftR (occupancy_search (page_futures pg) 0 (capacity - 1))))))"

definition future_pointer_page_unlink :: "pid \<Rightarrow> unit comp" where
  "future_pointer_page_unlink extracted =
    bindM (get_page extracted) (\<lambda>pg.
    seqM (case page_next pg of None \<Rightarrow> retM ()
          | Some n \<Rightarrow> update_page n (\<lambda>x. x\<lparr>page_previous := page_previous pg\<rparr>)) (
    seqM (case page_previous pg of None \<Rightarrow> retM ()
          | Some p \<Rightarrow> update_page p (\<lambda>x. x\<lparr>page_next := page_next pg\<rparr>)) (
    update_page extracted (\<lambda>x. x\<lparr>page_next := None, page_previous := None\<rparr>))))"

section \<open>Caches\<close>

definition LOCAL_FUTURE_POINTER_PAGES :: nat where
  "LOCAL_FUTURE_POINTER_PAGES = 2"

fun initialize_pages :: "nat \<Rightarrow> pid option \<Rightarrow> pid option comp" where
  "initialize_pages 0 current = retM current"
| "initialize_pages (Suc n) current =
    bindM future_pointer_page_initialize (\<lambda>new.
    seqM (update_page new (\<lambda>x. x\<lparr>page_next := current\<rparr>)) (
    seqM (case current of None \<Rightarrow> retM ()
          | Some nxt \<Rightarrow> update_page nxt (\<lambda>x. x\<lparr>page_previous := Some new\<rparr>)) (
    initialize_pages n (Some new))))"

definition future_pointer_cache_initialize :: "bool \<Rightarrow> pointer_cache comp" where
  "future_pointer_cache_initialize global =
    (if global then retM \<lparr>cache_bottom = None, cache_top = None, num_top_futures = 0\<rparr>
     else bindM (initialize_pages LOCAL_FUTURE_POINTER_PAGES None) (\<lambda>current.
       retM \<lparr>cache_bottom = current, cache_top = current, num_top_futures = 0\<rparr>))"

definition future_pointer_cache_allocate_local :: "cache_ref \<Rightarrow> fid option comp" where
  "future_pointer_cache_allocate_local r =
    bindM (get_cache r) (\<lambda>c.
    if num_top_futures c = 0 then retM None
    else
      bindM future_pointer_page_capacity (\<lambda>capacity.
      seqM (assertM (num_top_futures c \<le> capacity)) (
      let last_idx = num_top_futures c - 1 in
      seqM (assertM (cache_top c \<noteq> None)) (
      bindM (derefM (cache_top c)) (\<lambda>tp.
      bindM (get_page tp) (\<lambda>pg.
      bindM (slot_read pg last_idx) (\<lambda>future.
      seqM (assertM (future \<noteq> None)) (
      seqM (slot_write tp last_idx None) (
      seqM (if num_top_futures c - 1 = 0 then
              (case page_previous pg of
                 Some prev \<Rightarrow> put_cache r (c\<lparr>cache_top := Some prev, num_top_futures := capacity\<rparr>)
               | None \<Rightarrow> put_cache r (c\<lparr>num_top_futures := 0\<rparr>))
            else put_cache r (c\<lparr>num_top_futures := num_top_futures c - 1\<rparr>)) (
      retM future))))))))))"

text \<open>A future in a cache is all zero, with an invalid file descriptor.\<close>

definition zero_future :: udipe_future where
  "zero_future = \<lparr>specific = Network [], context_id = 0, status_sync = -1, status_word = 0\<rparr>"

definition future_pointer_cache_liberate_local :: "cache_ref \<Rightarrow> fid \<Rightarrow> bool comp" where
  "future_pointer_cache_liberate_local r future =
    bindM (get_cache r) (\<lambda>c.
    seqM (assertM (cache_top c \<noteq> None)) (
    bindM (derefM (cache_top c)) (\<lambda>tp.
    bindM future_pointer_page_capacity (\<lambda>capacity.
    bindM (get_page tp) (\<lambda>pg.
    bindM (if num_top_futures c = capacity then
             (case page_next pg of
                None \<Rightarrow> retM None
              | Some nxt \<Rightarrow> retM (Some (c\<lparr>cache_top := Some nxt, num_top_futures := 0\<rparr>, nxt)))
           else retM (Some (c, tp))) (\<lambda>room.
    case room of
      None \<Rightarrow> retM False
    | Some (c', tp') \<Rightarrow>
        seqM (assertM (num_top_futures c' < capacity)) (
        seqM (set_future future zero_future) (
        bindM (get_page tp') (\<lambda>pg'.
        bindM (slot_read pg' (num_top_futures c')) (\<lambda>slot.
        seqM (assertM (slot = None)) (
        seqM (slot_write tp' (num_top_futures c') (Some future)) (
        seqM (put_cache r (c'\<lparr>num_top_futures := num_top_futures c' + 1\<rparr>)) (
        retM True)))))))))))))"

definition future_pointer_cache_extract_futures :: "cache_ref \<Rightarrow> pid option comp" where
  "future_pointer_cache_extract_futures r =
    bindM (get_cache r) (\<lambda>c.
    case cache_bottom c of
      None \<Rightarrow> retM None
    | Some extracted \<Rightarrow>
        if num_top_futures c = 0 then retM None
        else
          bindM (get_page extracted) (\<lambda>pg.
          let c1 = c\<lparr>cache_bottom := page_next pg\<rparr>;
              c2 = (if cache_top c1 = Some extracted
                    then c1\<lparr>cache_top := cache_bottom c1, num_top_futures := 0\<rparr> else c1) in
          seqM (put_cache r c2) (
          seqM (assertM (page_previous pg = None)) (
          seqM (future_pointer_page_unlink extracted) (
          retM (Some extracted))))))"

definition future_pointer_cache_obtain_empty :: "cache_ref \<Rightarrow> pid comp" where
  "future_pointer_cache_obtain_empty r =
    bindM (get_cache r) (\<lambda>c.
    case cache_top c of
      None \<Rightarrow> future_pointer_page_initialize
    | Some tp \<Rightarrow>
        bindM (get_page tp) (\<lambda>pg.
        case page_next pg of
          Some extracted \<Rightarrow> seqM (future_pointer_page_unlink extracted) (retM extracted)
        | None \<Rightarrow>
            if num_top_futures c \<ge> 1 then future_pointer_page_initialize
            else
              seqM (assertM (page_next pg = None)) (
              seqM (assertM (page_previous pg = None)) (
              seqM (put_cache r (c\<lparr>cache_top := None, cache_bottom := None\<rparr>)) (
              retM tp)))))"

definition future_pointer_cache_insert_empty :: "cache_ref \<Rightarrow> pid \<Rightarrow> unit comp" where
  "future_pointer_cache_insert_empty r empty_page =
    bindM (get_page empty_page) (\<lambda>pg.
    seqM (assertM (page_next pg = None)) (
    seqM (assertM (page_previous pg = None)) (
    bindM (slot_read pg 0) (\<lambda>first.
    seqM (assertM (first = None)) (
    bindM (get_cache r) (\<lambda>c.
    case cache_top c of
      None \<Rightarrow>
        seqM (assertM (cache_bottom c = None)) (
        seqM (assertM (num_top_futures c = 0)) (
        put_cache r (c\<lparr>cache_top := Some empty_page, cache_bottom := Some empty_page\<rparr>)))
    | Some tp \<Rightarrow>
        bindM (get_page tp) (\<lambda>top_pg.
        seqM (update_page empty_page (\<lambda>x. x\<lparr>page_previous := Some tp, page_next := page_next top_pg\<rparr>)) (
        seqM (update_page tp (\<lambda>x. x\<lparr>page_next := Some empty_page\<rparr>)) (
        case page_next top_pg of
          None \<Rightarrow> retM ()
        | Some nxt \<Rightarrow> update_page nxt (\<lambda>x. x\<lparr>page_previous := Some empty_page\<rparr>))))))))))"

text \<open>Moving the last \<open>moved\<close> of \<open>num\<close> pointers of a page behind the \<open>n\<close> pointers of the top page
  (the \<open>memcpy\<close> and \<open>memset\<close> of the source).\<close>

definition move_pointers :: "pid \<Rightarrow> nat \<Rightarrow> pid \<Rightarrow> nat \<Rightarrow> nat \<Rightarrow> unit comp" where
  "move_pointers input num tp n moved =
    bindM (get_page input) (\<lambda>src.
    bindM (get_page tp) (\<lambda>dst.
    if num \<le> length (page_futures src) \<and> moved \<le> num \<and> n + moved \<le> length (page_futures dst) then
      seqM (put_page tp (dst\<lparr>page_futures := take n (page_futures dst)
          @ take moved (drop (num - moved) (page_futures src)) @ drop (n + moved) (page_futures dst)\<rparr>)) (
      put_page input (src\<lparr>page_futures := take (num - moved) (page_futures src)
          @ replicate moved None @ drop num (page_futures src)\<rparr>))
    else stopM BadAccess))"

definition future_pointer_cache_insert_futures :: "cache_ref \<Rightarrow> pid \<Rightarrow> unit comp" where
  "future_pointer_cache_insert_futures r non_empty =
    bindM (get_page non_empty) (\<lambda>pg.
    seqM (assertM (page_next pg = None)) (
    seqM (assertM (page_previous pg = None)) (
    bindM (future_pointer_page_occupancy non_empty) (\<lambda>num_futures.
    seqM (assertM (num_futures \<ge> 1)) (
    bindM (get_cache r) (\<lambda>c.
    bindM future_pointer_page_capacity (\<lambda>capacity.
    if num_top_futures c = 0 \<or> num_futures = capacity then
      seqM (update_page non_empty (\<lambda>x. x\<lparr>page_next := cache_bottom c\<rparr>)) (
      seqM (case cache_bottom c of None \<Rightarrow> retM ()
            | Some b \<Rightarrow>
                bindM (get_page b) (\<lambda>bpg.
                seqM (assertM (page_previous bpg = None)) (
                update_page b (\<lambda>x. x\<lparr>page_previous := Some non_empty\<rparr>)))) (
      bindM (if num_top_futures c = 0 then
               seqM (assertM (cache_top c = cache_bottom c)) (
               retM (c\<lparr>cache_top := Some non_empty, num_top_futures := num_futures\<rparr>))
             else retM c) (\<lambda>c'.
      put_cache r (c'\<lparr>cache_bottom := Some non_empty\<rparr>))))
    else
      seqM (assertM (cache_top c \<noteq> None \<and> num_top_futures c \<noteq> 0 \<and> num_futures \<noteq> capacity)) (
      bindM (derefM (cache_top c)) (\<lambda>tp.
      let top_capacity = capacity - num_top_futures c;
          moved_futures = (if num_futures \<le> top_capacity then num_futures else top_capacity);
          remaining_futures = num_futures - moved_futures;
          c' = c\<lparr>num_top_futures := num_top_futures c + moved_futures\<rparr> in
      seqM (move_pointers non_empty num_futures tp (num_top_futures c) moved_futures) (
      seqM (put_cache r c') (
      if remaining_futures = 0 then future_pointer_cache_insert_empty r non_empty
      else
        seqM (assertM (remaining_futures \<ge> 1 \<and> num_top_futures c' = top_capacity)) (
        bindM (get_page tp) (\<lambda>top_pg.
        seqM (update_page non_empty (\<lambda>x. x\<lparr>page_next := page_next top_pg, page_previous := Some tp\<rparr>)) (
        seqM (update_page tp (\<lambda>x. x\<lparr>page_next := Some non_empty\<rparr>)) (
        seqM (case page_next top_pg of None \<Rightarrow> retM ()
              | Some nxt \<Rightarrow> update_page nxt (\<lambda>x. x\<lparr>page_previous := Some non_empty\<rparr>)) (
        put_cache r (c'\<lparr>cache_top := Some non_empty, num_top_futures := remaining_futures\<rparr>)))))))))))))))))"

text \<open>The pointers of a fresh storage page, one by one.\<close>

fun refill_slots :: "pid \<Rightarrow> nat \<Rightarrow> fid list \<Rightarrow> unit comp" where
  "refill_slots tp i [] = retM ()"
| "refill_slots tp i (f # fs) = seqM (slot_write tp i (Some f)) (refill_slots tp (i + 1) fs)"

definition future_pointer_cache_refill_local :: "cache_ref \<Rightarrow> fid list \<Rightarrow> unit comp" where
  "future_pointer_cache_refill_local r new_futures =
    bindM (get_cache r) (\<lambda>c.
    seqM (assertM (num_top_futures c = 0)) (
    seqM (assertM (cache_top c \<noteq> None)) (
    bindM future_pointer_page_capacity (\<lambda>capacity.
    seqM (assertM (length new_futures \<le> capacity)) (
    bindM (derefM (cache_top c)) (\<lambda>tp.
    seqM (refill_slots tp 0 new_futures) (
    put_cache r (c\<lparr>num_top_futures := length new_futures\<rparr>))))))))"

text \<open>The two loops of \<open>future_pointer_cache_spill\<close> move one page per turn.\<close>

fun spill_futures :: "nat \<Rightarrow> cache_ref \<Rightarrow> cache_ref \<Rightarrow> unit comp" where
  "spill_futures 0 l g = stopM ScheduleEnd"
| "spill_futures (Suc fuel) l g =
    bindM (get_cache l) (\<lambda>c.
    if num_top_futures c \<noteq> 0 then
      bindM (future_pointer_cache_extract_futures l) (\<lambda>futures.
      bindM (derefM futures) (\<lambda>p.
      seqM (future_pointer_cache_insert_futures g p) (
      spill_futures fuel l g)))
    else retM ())"

fun spill_empty :: "nat \<Rightarrow> cache_ref \<Rightarrow> cache_ref \<Rightarrow> unit comp" where
  "spill_empty 0 l g = stopM ScheduleEnd"
| "spill_empty (Suc fuel) l g =
    bindM (get_cache l) (\<lambda>c.
    if cache_top c \<noteq> None then
      bindM (future_pointer_cache_obtain_empty l) (\<lambda>empty_page.
      seqM (future_pointer_cache_insert_empty g empty_page) (
      spill_empty fuel l g))
    else retM ())"

definition future_pointer_cache_spill :: "nat \<Rightarrow> cache_ref \<Rightarrow> cache_ref \<Rightarrow> unit comp" where
  "future_pointer_cache_spill fuel l g =
    seqM (spill_futures fuel l g) (
    seqM (spill_empty fuel l g) (
    bindM (get_cache l) (\<lambda>c.
    seqM (assertM (cache_bottom c = None)) (
    seqM (assertM (cache_top c = None)) (
    assertM (num_top_futures c = 0))))))"

fun free_pages :: "nat \<Rightarrow> pid option \<Rightarrow> unit comp" where
  "free_pages fuel None = retM ()"
| "free_pages 0 (Some p) = stopM ScheduleEnd"
| "free_pages (Suc fuel) (Some p) =
    bindM (get_page p) (\<lambda>pg.
    bindM get_allocator (\<lambda>a.
    seqM (put_allocator (a\<lparr>pages := (pages a)(p := None)\<rparr>)) (
    free_pages fuel (page_next pg))))"

definition future_pointer_cache_finalize :: "nat \<Rightarrow> cache_ref \<Rightarrow> unit comp" where
  "future_pointer_cache_finalize fuel r =
    bindM (get_cache r) (\<lambda>c.
    seqM (case cache_bottom c of None \<Rightarrow> retM ()
          | Some p \<Rightarrow> bindM (get_page p) (\<lambda>pg. assertM (page_previous pg = None))) (
    seqM (free_pages fuel (cache_bottom c)) (
    put_cache r \<lparr>cache_bottom = None, cache_top = None, num_top_futures = 0\<rparr>)))"

section \<open>Weakest preconditions of the accesses\<close>

lemma cache_of_with_cache [simp]:
  "cache_of r (with_cache r c a) = c"
  "r' \<noteq> r \<Longrightarrow> cache_of r' (with_cache r c a) = cache_of r' a"
  "pages (with_cache r c a) = pages a"
  "page_size (with_cache r c a) = page_size a"
  "cache_of r (a\<lparr>pages := h\<rparr>) = cache_of r a"
  by (cases r; cases r'; simp)+

lemma with_cache_pages [simp]: "(with_cache r c a)\<lparr>pages := h\<rparr> = with_cache r c (a\<lparr>pages := h\<rparr>)"
  by (cases r) simp_all

lemma with_cache_twice [simp]: "with_cache r c (with_cache r c' a) = with_cache r c a"
  by (cases r) simp_all

lemma with_cache_same [simp]: "with_cache r (cache_of r a) a = a"
  by (cases r) simp_all

lemma wp_get_cache [wp_simps]: "wp (get_cache r) Q E w \<longleftrightarrow> Q (cache_of r (allocator w)) w"
  by (simp add: get_cache_def wp_simps)

lemma wp_put_cache [wp_simps]:
  "wp (put_cache r c) Q E w \<longleftrightarrow> Q () (w\<lparr>allocator := with_cache r c (allocator w)\<rparr>)"
  by (simp add: put_cache_def wp_simps)

lemma wp_get_page [wp_simps]:
  "wp (get_page p) Q E w \<longleftrightarrow> (case pages (allocator w) p of None \<Rightarrow> E BadAccess | Some pg \<Rightarrow> Q pg w)"
  by (simp add: get_page_def wp_simps)

lemma wp_put_page [wp_simps]:
  "wp (put_page p pg) Q E w \<longleftrightarrow>
     Q () (w\<lparr>allocator := (allocator w)\<lparr>pages := (pages (allocator w))(p \<mapsto> pg)\<rparr>\<rparr>)"
  by (simp add: put_page_def wp_simps)

lemma wp_update_page [wp_simps]:
  "wp (update_page p upd) Q E w \<longleftrightarrow> (case pages (allocator w) p of None \<Rightarrow> E BadAccess
     | Some pg \<Rightarrow> Q () (w\<lparr>allocator := (allocator w)\<lparr>pages := (pages (allocator w))(p \<mapsto> upd pg)\<rparr>\<rparr>))"
  by (auto simp: update_page_def wp_simps split: option.splits)

lemma wp_slot_read [wp_simps]:
  "wp (slot_read pg i) Q E w \<longleftrightarrow>
     (if i < length (page_futures pg) then Q (page_futures pg ! i) w else E BadAccess)"
  by (simp add: slot_read_def wp_simps array_read_def)

lemma wp_slot_write [wp_simps]:
  "wp (slot_write p i v) Q E w \<longleftrightarrow> (case pages (allocator w) p of None \<Rightarrow> E BadAccess
     | Some pg \<Rightarrow> if i < length (page_futures pg)
        then Q () (w\<lparr>allocator := (allocator w)\<lparr>pages := (pages (allocator w))
               (p \<mapsto> pg\<lparr>page_futures := (page_futures pg)[i := v]\<rparr>)\<rparr>\<rparr>)
        else E BadAccess)"
  by (auto simp: slot_write_def wp_simps array_write_def split: option.splits)

lemma wp_capacity:
  "page_capacity (page_size (allocator w)) = Inr K \<Longrightarrow> wp future_pointer_page_capacity Q E w \<longleftrightarrow> Q K w"
  by (simp add: future_pointer_page_capacity_def wp_simps)

section \<open>What a cache represents\<close>

fun dll :: "(pid \<Rightarrow> pointer_page option) \<Rightarrow> pid option \<Rightarrow> pid list \<Rightarrow> bool" where
  "dll h prev [] \<longleftrightarrow> True"
| "dll h prev (p # ps) \<longleftrightarrow> (\<exists>pg. h p = Some pg \<and> page_previous pg = prev \<and>
     page_next pg = (case ps of [] \<Rightarrow> None | q # qs \<Rightarrow> Some q)) \<and> dll h (Some p) ps"

definition page_holds :: "nat \<Rightarrow> (pid \<Rightarrow> pointer_page option) \<Rightarrow> pid \<Rightarrow> fid list \<Rightarrow> bool" where
  "page_holds K h p fs \<longleftrightarrow> length fs \<le> K \<and>
     (\<exists>pg. h p = Some pg \<and> page_futures pg = map Some fs @ replicate (K - length fs) None)"

text \<open>A cache consists of full pages, one top page with \<open>fs\<close> on it, and empty pages.\<close>

definition cache_shape :: "nat \<Rightarrow> (pid \<Rightarrow> pointer_page option) \<Rightarrow> pointer_cache \<Rightarrow>
    (pid \<times> fid list) list \<Rightarrow> pid \<Rightarrow> fid list \<Rightarrow> pid list \<Rightarrow> bool" where
  "cache_shape K h c fulls t fs empties \<longleftrightarrow>
     (let ps = map fst fulls @ t # empties in
      distinct ps \<and> dll h None ps \<and> cache_bottom c = Some (hd ps)) \<and>
     cache_top c = Some t \<and> num_top_futures c = length fs \<and>
     (\<forall>(p, gs) \<in> set fulls. page_holds K h p gs \<and> length gs = K) \<and>
     page_holds K h t fs \<and> (\<forall>p \<in> set empties. page_holds K h p []) \<and>
     (fs = [] \<longrightarrow> fulls = [])"

text \<open>The cache as a stack of futures over a set of pages.\<close>

definition cache_stack :: "nat \<Rightarrow> (pid \<Rightarrow> pointer_page option) \<Rightarrow> pointer_cache \<Rightarrow> fid list \<Rightarrow> pid set \<Rightarrow> bool" where
  "cache_stack K h c xs ps \<longleftrightarrow>
     (cache_bottom c = None \<and> cache_top c = None \<and> num_top_futures c = 0 \<and> xs = [] \<and> ps = {}) \<or>
     (\<exists>fulls t fs empties. cache_shape K h c fulls t fs empties \<and>
        xs = concat (map snd fulls) @ fs \<and> ps = fst ` set fulls \<union> {t} \<union> set empties)"

lemma dll_links: "dll h prev (xs @ p # q # ys) \<Longrightarrow>
    (\<exists>pg. h p = Some pg \<and> page_next pg = Some q) \<and> (\<exists>pg. h q = Some pg \<and> page_previous pg = Some p)"
  by (induction xs arbitrary: prev) auto

lemma dll_first: "dll h prev (p # ps) \<Longrightarrow> \<exists>pg. h p = Some pg \<and> page_previous pg = prev"
  by auto

lemma dll_last: "dll h prev (xs @ [p]) \<Longrightarrow> \<exists>pg. h p = Some pg \<and> page_next pg = None"
  by (induction xs arbitrary: prev) auto

lemma dll_page: "dll h prev ps \<Longrightarrow> p \<in> set ps \<Longrightarrow> \<exists>pg. h p = Some pg"
  by (induction ps arbitrary: prev) auto

lemma dll_frame [simp]: "p \<notin> set ps \<Longrightarrow> dll (h(p := x)) prev ps = dll h prev ps"
  by (induction ps arbitrary: prev) auto

lemma dll_contents:
  fixes h :: "pid \<Rightarrow> pointer_page option"
  assumes "h p = Some pg"
  shows "dll (h(p \<mapsto> pg\<lparr>page_futures := x\<rparr>)) prev ps = dll h prev ps"
  using assms by (induction ps arbitrary: prev) auto

lemma page_holds_frame [simp]: "p \<noteq> q \<Longrightarrow> page_holds K (h(q := x)) p fs = page_holds K h p fs"
  by (simp add: page_holds_def)

lemma page_holds_slot:
  assumes "page_holds K h p fs" and "h p = Some pg"
  shows "length (page_futures pg) = K"
    and "i < length fs \<Longrightarrow> page_futures pg ! i = Some (fs ! i)"
    and "length fs \<le> i \<Longrightarrow> i < K \<Longrightarrow> page_futures pg ! i = None"
  using assms by (auto simp: page_holds_def nth_append)

lemma page_holds_pop:
  assumes "page_holds K h p fs" and "h p = Some pg" and "fs \<noteq> []"
  shows "page_holds K (h(p \<mapsto> pg\<lparr>page_futures := (page_futures pg)[length fs - 1 := None]\<rparr>)) p (butlast fs)"
proof -
  obtain gs f where fs: "fs = gs @ [f]" using assms(3) by (cases fs rule: rev_cases) auto
  have "K - length gs = Suc (K - Suc (length gs))" using assms(1) fs by (auto simp: page_holds_def Suc_diff_Suc)
  then show ?thesis using assms fs by (auto simp: page_holds_def list_update_append)
qed

lemma page_holds_push:
  assumes "page_holds K h p fs" and "h p = Some pg" and "length fs < K"
  shows "page_holds K (h(p \<mapsto> pg\<lparr>page_futures := (page_futures pg)[length fs := Some f]\<rparr>)) p (fs @ [f])"
proof -
  have "K - length fs = Suc (K - Suc (length fs))" using assms(3) by simp
  then show ?thesis using assms by (auto simp: page_holds_def list_update_append)
qed

lemma fulls_frame:
  assumes "\<forall>(p, gs) \<in> set fulls. page_holds K h p gs \<and> length gs = K" and "t \<notin> fst ` set fulls"
  shows "\<forall>(p, gs) \<in> set fulls. page_holds K (h(t := x)) p gs \<and> length gs = K"
proof -
  have "page_holds K (h(t := x)) p gs \<and> length gs = K" if "(p, gs) \<in> set fulls" for p gs
  proof -
    have "p \<noteq> t" using that assms(2) by force
    moreover have "page_holds K h p gs \<and> length gs = K" using that assms(1) by auto
    ultimately show ?thesis by simp
  qed
  then show ?thesis by auto
qed

lemma empties_frame:
  assumes "\<forall>p \<in> set es. page_holds K h p []" and "t \<notin> set es"
  shows "\<forall>p \<in> set es. page_holds K (h(t := x)) p []"
proof
  fix p
  assume "p \<in> set es"
  moreover from this have "p \<noteq> t" using assms(2) by blast
  ultimately show "page_holds K (h(t := x)) p []" using assms(1) by simp
qed

section \<open>Taking a future out and putting one in\<close>

text \<open>The allocator states that agree with \<open>a\<close> except for the cache \<open>r\<close> and the pages in \<open>ps\<close>.\<close>

definition only_cache :: "cache_ref \<Rightarrow> pid set \<Rightarrow> allocator_state \<Rightarrow> allocator_state \<Rightarrow> bool" where
  "only_cache r ps a a' \<longleftrightarrow> (\<exists>c h. a' = with_cache r c (a\<lparr>pages := h\<rparr>) \<and> (\<forall>p. p \<notin> ps \<longrightarrow> h p = pages a p))"

lemma only_cacheI:
  "(\<And>p. p \<notin> ps \<Longrightarrow> h p = pages a p) \<Longrightarrow> only_cache r ps a (with_cache r c (a\<lparr>pages := h\<rparr>))"
  unfolding only_cache_def by blast

lemma cache_shape_top:
  assumes "cache_shape K h c fulls t fs empties"
  obtains pg where "h t = Some pg" and "length (page_futures pg) = K"
    and "page_next pg = (case empties of [] \<Rightarrow> None | e # es \<Rightarrow> Some e)"
    and "page_previous pg = (if fulls = [] then None else Some (fst (last fulls)))"
proof -
  have d: "dll h None (map fst fulls @ t # empties)" and ph: "page_holds K h t fs"
    using assms by (simp_all add: cache_shape_def Let_def)
  obtain pg where pg: "h t = Some pg" using dll_page [OF d, of t] by auto
  have "page_next pg = (case empties of [] \<Rightarrow> None | e # es \<Rightarrow> Some e)"
    using dll_last [of h None "map fst fulls" t] dll_links [of h None "map fst fulls" t] d pg
    by (cases empties) auto
  moreover have "page_previous pg = (if fulls = [] then None else Some (fst (last fulls)))"
  proof (cases fulls rule: rev_cases)
    case (snoc fl x)
    then have "dll h None (map fst fl @ fst x # t # empties)" using d by simp
    from dll_links [OF this] pg snoc show ?thesis by auto
  qed (use d pg in auto)
  ultimately show ?thesis using that pg page_holds_slot(1) [OF ph pg] by blast
qed

lemma allocate_local_shape:
  assumes sh: "cache_shape K (pages (allocator w)) (cache_of r (allocator w)) fulls t fs empties"
    and K: "page_capacity (page_size (allocator w)) = Inr K" "0 < K" and fs: "fs \<noteq> []"
  shows "wp (future_pointer_cache_allocate_local r) (\<lambda>f w'. f = Some (last fs) \<and>
      (\<exists>a'. w' = w\<lparr>allocator := a'\<rparr> \<and> only_cache r {t} (allocator w) a' \<and>
       (if butlast fs \<noteq> [] \<or> fulls = []
        then cache_shape K (pages a') (cache_of r a') fulls t (butlast fs) empties
        else cache_shape K (pages a') (cache_of r a') (butlast fulls) (fst (last fulls)) (snd (last fulls)) (t # empties))))
    (\<lambda>_. False) w"
proof -
  let ?a = "allocator w" and ?c = "cache_of r (allocator w)"
  let ?h = "pages ?a"
  obtain pg where pg: "?h t = Some pg" "length (page_futures pg) = K"
    "page_previous pg = (if fulls = [] then None else Some (fst (last fulls)))"
    using cache_shape_top [OF sh] by metis
  let ?h' = "?h(t \<mapsto> pg\<lparr>page_futures := (page_futures pg)[length fs - 1 := None]\<rparr>)"
  have c: "cache_top ?c = Some t" "num_top_futures ?c = length fs" and ph: "page_holds K ?h t fs"
    and d: "dll ?h None (map fst fulls @ t # empties)" "distinct (map fst fulls @ t # empties)"
    and full: "\<forall>(p, gs) \<in> set fulls. page_holds K ?h p gs \<and> length gs = K"
    and emp: "\<forall>p \<in> set empties. page_holds K ?h p []"
    and bot: "cache_bottom ?c = Some (hd (map fst fulls @ t # empties))"
    using sh by (simp_all add: cache_shape_def Let_def)
  have le: "length fs \<le> K" using ph by (simp add: page_holds_def)
  have slot: "page_futures pg ! (length fs - 1) = Some (last fs)"
    using page_holds_slot(2) [OF ph pg(1), of "length fs - 1"] fs by (simp add: last_conv_nth)
  have lt: "length fs - 1 < K" using fs le by (simp add: Suc_le_eq less_le_trans [of _ "length fs"])
  have butlast_single: "butlast fs = [] \<longleftrightarrow> length fs \<le> Suc 0" using fs by (cases fs rule: rev_cases) auto
  note pop = page_holds_pop [OF ph pg(1) fs]
  have full': "\<forall>(p, gs) \<in> set fulls. page_holds K ?h' p gs \<and> length gs = K"
    using fulls_frame [OF full] d(2) by simp
  have emp': "\<forall>p \<in> set empties. page_holds K ?h' p []" using empties_frame [OF emp] d(2) by simp
  have d': "dll ?h' None (map fst fulls @ t # empties)" using d(1) dll_contents [of ?h t, OF pg(1)] by simp
  show ?thesis
  proof (cases "butlast fs = [] \<and> fulls \<noteq> []")
    case False
    let ?c' = "?c\<lparr>num_top_futures := length fs - 1\<rparr>"
    have "cache_shape K ?h' ?c' fulls t (butlast fs) empties"
      using d' d(2) full' emp' pop bot c False by (auto simp: cache_shape_def Let_def)
    moreover have "only_cache r {t} ?a (with_cache r ?c' (?a\<lparr>pages := ?h'\<rparr>))" by (rule only_cacheI) simp
    moreover have "wp (future_pointer_cache_allocate_local r) (\<lambda>f w'. f = Some (last fs) \<and>
        w' = w\<lparr>allocator := with_cache r ?c' (?a\<lparr>pages := ?h'\<rparr>)\<rparr>) (\<lambda>_. False) w"
      using False c fs pg K le slot lt butlast_single
      by (simp add: future_pointer_cache_allocate_local_def wp_simps wp_capacity Let_def split: if_splits)
    ultimately show ?thesis using False by (auto elim!: wp_mono)
  next
    case True
    then obtain fl p gs where fl: "fulls = fl @ [(p, gs)]" by (cases fulls rule: rev_cases) auto
    have one: "length fs - 1 = 0" using True by (metis length_butlast list.size(3))
    let ?c' = "?c\<lparr>cache_top := Some p, num_top_futures := K\<rparr>"
    have "gs \<noteq> []" "length gs = K" using full fl K by auto
    moreover have "page_holds K ?h' t []" using pop True by simp
    ultimately have "cache_shape K ?h' ?c' fl p gs (t # empties)"
      using d' d(2) full' emp' bot c fl by (auto simp: cache_shape_def Let_def)
    moreover have "only_cache r {t} ?a (with_cache r ?c' (?a\<lparr>pages := ?h'\<rparr>))" by (rule only_cacheI) simp
    moreover have "wp (future_pointer_cache_allocate_local r) (\<lambda>f w'. f = Some (last fs) \<and>
        w' = w\<lparr>allocator := with_cache r ?c' (?a\<lparr>pages := ?h'\<rparr>)\<rparr>) (\<lambda>_. False) w"
      using c fs pg K le slot lt one fl
      by (simp add: future_pointer_cache_allocate_local_def wp_simps wp_capacity Let_def)
    ultimately show ?thesis using True fl by (auto elim!: wp_mono)
  qed
qed

lemma liberate_local_shape:
  assumes sh: "cache_shape K (pages (allocator w)) (cache_of r (allocator w)) fulls t fs empties"
    and K: "page_capacity (page_size (allocator w)) = Inr K" "0 < K"
  shows "wp (future_pointer_cache_liberate_local r f) (\<lambda>ok w'.
      if length fs = K \<and> empties = [] then \<not> ok \<and> w' = w
      else ok \<and> (\<exists>a'. w' = w\<lparr>futures := (futures w)(f := zero_future), allocator := a'\<rparr> \<and>
        only_cache r ({t} \<union> set empties) (allocator w) a' \<and>
        (if length fs = K
         then cache_shape K (pages a') (cache_of r a') (fulls @ [(t, fs)]) (hd empties) [f] (tl empties)
         else cache_shape K (pages a') (cache_of r a') fulls t (fs @ [f]) empties)))
    (\<lambda>_. False) w"
proof -
  let ?a = "allocator w" and ?c = "cache_of r (allocator w)"
  let ?h = "pages ?a"
  obtain pg where pg: "?h t = Some pg" "length (page_futures pg) = K"
    "page_next pg = (case empties of [] \<Rightarrow> None | e # es \<Rightarrow> Some e)"
    using cache_shape_top [OF sh] by metis
  have c: "cache_top ?c = Some t" "num_top_futures ?c = length fs" and ph: "page_holds K ?h t fs"
    and d: "dll ?h None (map fst fulls @ t # empties)" "distinct (map fst fulls @ t # empties)"
    and full: "\<forall>(p, gs) \<in> set fulls. page_holds K ?h p gs \<and> length gs = K"
    and emp: "\<forall>p \<in> set empties. page_holds K ?h p []"
    and bot: "cache_bottom ?c = Some (hd (map fst fulls @ t # empties))"
    using sh by (simp_all add: cache_shape_def Let_def)
  have le: "length fs \<le> K" using ph by (simp add: page_holds_def)
  consider (room) "length fs < K" | (switch) e es where "length fs = K" "empties = e # es"
    | (none) "length fs = K" "empties = []"
    using le by (cases empties) (auto simp: le_less)
  then show ?thesis
  proof cases
    case room
    let ?h' = "?h(t \<mapsto> pg\<lparr>page_futures := (page_futures pg)[length fs := Some f]\<rparr>)"
      and ?c' = "?c\<lparr>num_top_futures := length fs + 1\<rparr>"
    have slot: "page_futures pg ! length fs = None" using page_holds_slot(3) [OF ph pg(1)] room by simp
    have "dll ?h' None (map fst fulls @ t # empties)" using d(1) dll_contents [of ?h t, OF pg(1)] by simp
    moreover have "\<forall>(p, gs) \<in> set fulls. page_holds K ?h' p gs \<and> length gs = K"
      using fulls_frame [OF full] d(2) by simp
    moreover have "\<forall>p \<in> set empties. page_holds K ?h' p []" using empties_frame [OF emp] d(2) by simp
    ultimately have "cache_shape K ?h' ?c' fulls t (fs @ [f]) empties"
      using page_holds_push [OF ph pg(1) room] bot c d(2) by (simp add: cache_shape_def Let_def)
    moreover have "only_cache r ({t} \<union> set empties) ?a (with_cache r ?c' (?a\<lparr>pages := ?h'\<rparr>))"
      by (rule only_cacheI) simp
    moreover have "wp (future_pointer_cache_liberate_local r f) (\<lambda>ok w'. ok \<and>
        w' = w\<lparr>futures := (futures w)(f := zero_future), allocator := with_cache r ?c' (?a\<lparr>pages := ?h'\<rparr>)\<rparr>) (\<lambda>_. False) w"
      using room c pg K slot
      by (simp add: future_pointer_cache_liberate_local_def wp_simps wp_capacity Let_def)
    ultimately show ?thesis using room by (auto elim!: wp_mono)
  next
    case switch
    have "e \<in> set empties" using switch by simp
    with emp have eh: "page_holds K ?h e []" by blast
    obtain epg where epg: "?h e = Some epg" using dll_page [OF d(1), of e] switch by auto
    let ?h' = "?h(e \<mapsto> epg\<lparr>page_futures := (page_futures epg)[0 := Some f]\<rparr>)"
      and ?c' = "?c\<lparr>cache_top := Some e, num_top_futures := 1\<rparr>"
    have slot: "page_futures epg ! 0 = None" "length (page_futures epg) = K"
      using page_holds_slot(1,3) [OF eh epg] K by simp_all
    have "dll ?h' None (map fst fulls @ t # empties)" using d(1) dll_contents [of ?h e, OF epg] by simp
    moreover have "\<forall>(p, gs) \<in> set (fulls @ [(t, fs)]). page_holds K ?h' p gs \<and> length gs = K"
      using fulls_frame [OF full, of e] d(2) ph switch by auto
    moreover have "\<forall>p \<in> set es. page_holds K ?h' p []"
      by (rule empties_frame) (use emp d(2) switch in auto)
    moreover have "page_holds K ?h' e [f]" using page_holds_push [OF eh epg, of f] K by simp
    ultimately have "cache_shape K ?h' ?c' (fulls @ [(t, fs)]) e [f] es"
      using bot d(2) switch by (simp add: cache_shape_def Let_def)
    moreover have "only_cache r ({t} \<union> set empties) ?a (with_cache r ?c' (?a\<lparr>pages := ?h'\<rparr>))"
      by (rule only_cacheI) (use switch in simp)
    moreover have "wp (future_pointer_cache_liberate_local r f) (\<lambda>ok w'. ok \<and>
        w' = w\<lparr>futures := (futures w)(f := zero_future), allocator := with_cache r ?c' (?a\<lparr>pages := ?h'\<rparr>)\<rparr>) (\<lambda>_. False) w"
      using switch c pg K slot epg
      by (simp add: future_pointer_cache_liberate_local_def wp_simps wp_capacity Let_def)
    ultimately show ?thesis using switch by (auto elim!: wp_mono)
  next
    case none
    then show ?thesis using c pg K
      by (simp add: future_pointer_cache_liberate_local_def wp_simps wp_capacity Let_def)
  qed
qed

section \<open>The occupancy of a page\<close>

lemma occupancy_search_finds:
  assumes "fs = map Some gs @ replicate k None" and "l < length gs" and "length gs \<le> a" and "a < length fs"
  shows "occupancy_search fs l a = Inr (length gs)"
  using assms
proof (induction fs l a rule: occupancy_search.induct)
  case (1 fs l a)
  let ?m = "l + (a - l) div 2"
  show ?case
  proof (cases "a = l + 1")
    case True
    then show ?thesis using 1(3-5) by simp
  next
    case False
    then have la: "l + 1 < a" using 1(3-5) by linarith
    then have m: "?m < length fs" "l < ?m" "?m < a" using 1(5,6) by linarith+
    have v: "fs ! ?m = (if ?m < length gs then Some (gs ! ?m) else None)"
      using 1(3) m(1) by (auto simp: nth_append)
    show ?thesis
    proof (cases "?m < length gs")
      case True
      then have "occupancy_search fs ?m a = Inr (length gs)" using 1(1) la m v False 1(3,5,6) by simp
      then show ?thesis using False la m(1) v True by (subst occupancy_search.simps) (simp add: Let_def)
    next
      case out: False
      then have "occupancy_search fs l ?m = Inr (length gs)" using 1(2) la m v False 1(3,4) by simp
      then show ?thesis using False la m(1) v out by (subst occupancy_search.simps) (simp add: Let_def)
    qed
  qed
qed

lemma wp_occupancy:
  assumes "page_holds K (pages (allocator w)) p gs" and "page_capacity (page_size (allocator w)) = Inr K" and "0 < K"
  shows "wp (future_pointer_page_occupancy p) Q E w \<longleftrightarrow> Q (length gs) w"
proof -
  obtain pg where pg: "pages (allocator w) p = Some pg"
    and fs: "page_futures pg = map Some gs @ replicate (K - length gs) None" and le: "length gs \<le> K"
    using assms(1) by (auto simp: page_holds_def)
  have len: "length (page_futures pg) = K" using fs le by simp
  have first: "page_futures pg ! 0 = None \<longleftrightarrow> gs = []" using fs le assms(3) by (cases gs) (auto simp: nth_append)
  have final: "page_futures pg ! (K - 1) = None \<longleftrightarrow> length gs < K"
    using fs le assms(3) by (auto simp: nth_append)
  have srch: "occupancy_search (page_futures pg) 0 (K - 1) = Inr (length gs)" if "gs \<noteq> []" "length gs < K"
    by (rule occupancy_search_finds [OF fs]) (use that len in auto)
  show ?thesis
    using pg len first final srch assms(2,3) le
    by (auto simp: future_pointer_page_occupancy_def wp_simps wp_capacity simp del: occupancy_search.simps)
qed

section \<open>The cache as a stack\<close>

lemma allocate_local_stack:
  assumes "cache_stack K (pages (allocator w)) (cache_of r (allocator w)) xs ps"
    and K: "page_capacity (page_size (allocator w)) = Inr K" "0 < K"
  shows "wp (future_pointer_cache_allocate_local r) (\<lambda>f w'. f = (if xs = [] then None else Some (last xs)) \<and>
     (\<exists>a'. w' = w\<lparr>allocator := a'\<rparr> \<and> only_cache r ps (allocator w) a' \<and>
        cache_stack K (pages a') (cache_of r a') (butlast xs) ps)) (\<lambda>_. False) w"
proof (cases "num_top_futures (cache_of r (allocator w)) = 0")
  case True
  then have "xs = []" using assms(1) by (auto simp: cache_stack_def cache_shape_def)
  moreover have "only_cache r ps (allocator w) (allocator w)"
    using only_cacheI [of ps "pages (allocator w)" "allocator w" r "cache_of r (allocator w)"] by simp
  ultimately show ?thesis using True assms(1)
    by (auto simp: future_pointer_cache_allocate_local_def wp_simps intro!: exI [of _ "allocator w"])
next
  case False
  then obtain fulls t fs empties where
    sh: "cache_shape K (pages (allocator w)) (cache_of r (allocator w)) fulls t fs empties"
    and xs: "xs = concat (map snd fulls) @ fs" and ps: "ps = fst ` set fulls \<union> {t} \<union> set empties"
    using assms(1) by (auto simp: cache_stack_def)
  have fs: "fs \<noteq> []" using sh False by (auto simp: cache_shape_def)
  show ?thesis
  proof (rule wp_mono [OF allocate_local_shape [OF sh K fs]], elim conjE exE)
    fix f w' a'
    assume f: "f = Some (last fs)" and w': "w' = w\<lparr>allocator := a'\<rparr>" and o: "only_cache r {t} (allocator w) a'"
      and new: "if butlast fs \<noteq> [] \<or> fulls = [] then cache_shape K (pages a') (cache_of r a') fulls t (butlast fs) empties
        else cache_shape K (pages a') (cache_of r a') (butlast fulls) (fst (last fulls)) (snd (last fulls)) (t # empties)"
    have "only_cache r ps (allocator w) a'" using o ps by (auto simp: only_cache_def)
    moreover have "cache_stack K (pages a') (cache_of r a') (butlast xs) ps"
    proof (cases "butlast fs \<noteq> [] \<or> fulls = []")
      case True
      with new have "cache_shape K (pages a') (cache_of r a') fulls t (butlast fs) empties" by simp
      then show ?thesis using xs fs ps unfolding cache_stack_def by (auto simp: butlast_append)
    next
      case False
      then obtain fl p gs where fl: "fulls = fl @ [(p, gs)]" by (cases fulls rule: rev_cases) auto
      with False new have "cache_shape K (pages a') (cache_of r a') fl p gs (t # empties)" by simp
      moreover have "butlast xs = concat (map snd fl) @ gs" using xs fl False fs by (simp add: butlast_append)
      moreover have "ps = fst ` set fl \<union> {p} \<union> set (t # empties)" using ps fl by auto
      ultimately show ?thesis unfolding cache_stack_def by blast
    qed
    ultimately show "f = (if xs = [] then None else Some (last xs)) \<and>
       (\<exists>a'. w' = w\<lparr>allocator := a'\<rparr> \<and> only_cache r ps (allocator w) a' \<and>
          cache_stack K (pages a') (cache_of r a') (butlast xs) ps)"
      using f w' xs fs by auto
  qed simp
qed

lemma liberate_local_stack:
  assumes "cache_stack K (pages (allocator w)) (cache_of r (allocator w)) xs ps" and "ps \<noteq> {}"
    and K: "page_capacity (page_size (allocator w)) = Inr K" "0 < K"
  shows "wp (future_pointer_cache_liberate_local r f) (\<lambda>ok w'.
     (ok \<longleftrightarrow> length xs < K * card ps) \<and>
     (if ok then \<exists>a'. w' = w\<lparr>futures := (futures w)(f := zero_future), allocator := a'\<rparr> \<and>
        only_cache r ps (allocator w) a' \<and> cache_stack K (pages a') (cache_of r a') (xs @ [f]) ps
      else w' = w)) (\<lambda>_. False) w"
proof -
  obtain fulls t fs empties where
    sh: "cache_shape K (pages (allocator w)) (cache_of r (allocator w)) fulls t fs empties"
    and xs: "xs = concat (map snd fulls) @ fs" and ps: "ps = fst ` set fulls \<union> {t} \<union> set empties"
    using assms(1,2) by (auto simp: cache_stack_def)
  have dist: "distinct (map fst fulls @ t # empties)" and len: "\<forall>(p, gs) \<in> set fulls. length gs = K"
    and le: "length fs \<le> K"
    using sh by (auto simp: cache_shape_def Let_def page_holds_def)
  have "ps = set (map fst fulls @ t # empties)" using ps by auto
  then have card: "card ps = length fulls + 1 + length empties" using distinct_card [OF dist] by simp
  have "length (concat (map snd fulls)) = K * length fulls"
    using len by (induction fulls) auto
  then have lxs: "length xs = K * length fulls + length fs" using xs by simp
  have room: "length xs < K * card ps \<longleftrightarrow> \<not> (length fs = K \<and> empties = [])"
    using le K(2) unfolding lxs card by (cases empties) (auto simp: algebra_simps)
  show ?thesis
  proof (rule wp_mono [OF liberate_local_shape [OF sh K, of f]])
    fix ok w'
    assume res: "if length fs = K \<and> empties = [] then \<not> ok \<and> w' = w
      else ok \<and> (\<exists>a'. w' = w\<lparr>futures := (futures w)(f := zero_future), allocator := a'\<rparr> \<and>
        only_cache r ({t} \<union> set empties) (allocator w) a' \<and>
        (if length fs = K
         then cache_shape K (pages a') (cache_of r a') (fulls @ [(t, fs)]) (hd empties) [f] (tl empties)
         else cache_shape K (pages a') (cache_of r a') fulls t (fs @ [f]) empties))"
    show "(ok \<longleftrightarrow> length xs < K * card ps) \<and>
     (if ok then \<exists>a'. w' = w\<lparr>futures := (futures w)(f := zero_future), allocator := a'\<rparr> \<and>
        only_cache r ps (allocator w) a' \<and> cache_stack K (pages a') (cache_of r a') (xs @ [f]) ps
      else w' = w)"
    proof (cases "length fs = K \<and> empties = []")
      case True
      then show ?thesis using res room by simp
    next
      case False
      then obtain a' where a': "ok" "w' = w\<lparr>futures := (futures w)(f := zero_future), allocator := a'\<rparr>"
        "only_cache r ({t} \<union> set empties) (allocator w) a'"
        "if length fs = K then cache_shape K (pages a') (cache_of r a') (fulls @ [(t, fs)]) (hd empties) [f] (tl empties)
         else cache_shape K (pages a') (cache_of r a') fulls t (fs @ [f]) empties"
        using res by auto
      have o: "only_cache r ps (allocator w) a'" using a'(3) ps by (auto simp: only_cache_def)
      have "cache_stack K (pages a') (cache_of r a') (xs @ [f]) ps"
      proof (cases "length fs = K")
        case True
        with False obtain e es where e: "empties = e # es" by (cases empties) auto
        then have "cache_shape K (pages a') (cache_of r a') (fulls @ [(t, fs)]) e [f] es" using a'(4) True by simp
        moreover have "xs @ [f] = concat (map snd (fulls @ [(t, fs)])) @ [f]" using xs by simp
        moreover have "ps = fst ` set (fulls @ [(t, fs)]) \<union> {e} \<union> set es" using ps e by auto
        ultimately show ?thesis unfolding cache_stack_def by blast
      next
        case False
        then have "cache_shape K (pages a') (cache_of r a') fulls t (fs @ [f]) empties" using a'(4) by simp
        moreover have "xs @ [f] = concat (map snd fulls) @ fs @ [f]" using xs by simp
        ultimately show ?thesis using ps unfolding cache_stack_def by blast
      qed
      then show ?thesis using a' o room False by auto
    qed
  qed simp
qed

lemma page_capacity_pos: "page_capacity psize = Inr K \<Longrightarrow> 0 < K"
  by (auto simp: page_capacity_def Let_def assert_that_def split: if_splits)

section \<open>The cache as a pool\<close>

text \<open>What a client of a pool of futures relies on: it is a stack, whose top is taken, and onto which
  a future is given unless there is no room for it.\<close>

locale future_pool =
  fixes pool :: "world \<Rightarrow> fid list \<Rightarrow> bool"
    and take_one :: "fid option comp"
    and give :: "fid \<Rightarrow> bool comp"
    and room :: "world \<Rightarrow> nat"
  assumes take_law: "pool w xs \<Longrightarrow> wp take_one (\<lambda>f w'. f = (if xs = [] then None else Some (last xs)) \<and>
      pool w' (butlast xs) \<and> room w' = room w) (\<lambda>_. False) w"
    and give_law: "pool w xs \<Longrightarrow> wp (give f) (\<lambda>ok w'. (ok \<longleftrightarrow> length xs < room w) \<and>
      (if ok then pool w' (xs @ [f]) \<and> room w' = room w else w' = w)) (\<lambda>_. False) w"
begin

lemma give_take:
  assumes "pool w xs"
  shows "wp (give f) (\<lambda>ok w1. (ok \<longleftrightarrow> length xs < room w) \<and>
     (if ok then wp take_one (\<lambda>g w2. g = Some f \<and> pool w2 xs) (\<lambda>_. False) w1 else w1 = w)) (\<lambda>_. False) w"
proof (rule wp_mono [OF give_law [OF assms, of f]])
  fix ok w1
  assume "(ok \<longleftrightarrow> length xs < room w) \<and> (if ok then pool w1 (xs @ [f]) \<and> room w1 = room w else w1 = w)"
  moreover have "wp take_one (\<lambda>g w2. g = Some f \<and> pool w2 xs) (\<lambda>_. False) w1" if "pool w1 (xs @ [f])"
    by (rule wp_mono [OF take_law [OF that]]) simp_all
  ultimately show "(ok \<longleftrightarrow> length xs < room w) \<and>
     (if ok then wp take_one (\<lambda>g w2. g = Some f \<and> pool w2 xs) (\<lambda>_. False) w1 else w1 = w)" by simp
qed simp

lemma give_after_take:
  assumes "pool w xs" and "xs \<noteq> []" and "length xs \<le> room w"
  shows "wp take_one (\<lambda>f w1. wp (give (the f)) (\<lambda>ok w2. ok \<and> pool w2 xs) (\<lambda>_. False) w1) (\<lambda>_. False) w"
proof (rule wp_mono [OF take_law [OF assms(1)]])
  fix f w1
  assume f: "f = (if xs = [] then None else Some (last xs)) \<and> pool w1 (butlast xs) \<and> room w1 = room w"
  then have "wp (give (the f)) (\<lambda>ok w'. (ok \<longleftrightarrow> length (butlast xs) < room w1) \<and>
      (if ok then pool w' (butlast xs @ [the f]) \<and> room w' = room w1 else w' = w1)) (\<lambda>_. False) w1"
    by (intro give_law) simp
  then show "wp (give (the f)) (\<lambda>ok w2. ok \<and> pool w2 xs) (\<lambda>_. False) w1"
    using f assms(2,3) by (auto elim!: wp_mono simp: less_le_trans [OF diff_less])
qed simp

end

definition cache_pool :: "cache_ref \<Rightarrow> pid set \<Rightarrow> world \<Rightarrow> fid list \<Rightarrow> bool" where
  "cache_pool r ps w xs \<longleftrightarrow> ps \<noteq> {} \<and> (\<exists>K. page_capacity (page_size (allocator w)) = Inr K \<and>
     cache_stack K (pages (allocator w)) (cache_of r (allocator w)) xs ps)"

definition cache_room :: "pid set \<Rightarrow> world \<Rightarrow> nat" where
  "cache_room ps w = (case page_capacity (page_size (allocator w)) of Inr K \<Rightarrow> K * card ps | Inl _ \<Rightarrow> 0)"

lemma only_cache_page_size: "only_cache r ps a a' \<Longrightarrow> page_size a' = page_size a"
  unfolding only_cache_def by auto

interpretation cache: future_pool "cache_pool r ps" "future_pointer_cache_allocate_local r"
  "future_pointer_cache_liberate_local r" "cache_room ps" for r ps
proof
  fix w xs f
  assume "cache_pool r ps w xs"
  then obtain K where ps: "ps \<noteq> {}" and K: "page_capacity (page_size (allocator w)) = Inr K"
    and st: "cache_stack K (pages (allocator w)) (cache_of r (allocator w)) xs ps"
    by (auto simp: cache_pool_def)
  note K0 = page_capacity_pos [OF K]
  show "wp (future_pointer_cache_allocate_local r) (\<lambda>f w'. f = (if xs = [] then None else Some (last xs)) \<and>
      cache_pool r ps w' (butlast xs) \<and> cache_room ps w' = cache_room ps w) (\<lambda>_. False) w"
    by (rule wp_mono [OF allocate_local_stack [OF st K K0]])
       (use K ps in \<open>auto simp: cache_pool_def cache_room_def only_cache_page_size\<close>)
  show "wp (future_pointer_cache_liberate_local r f) (\<lambda>ok w'. (ok \<longleftrightarrow> length xs < cache_room ps w) \<and>
      (if ok then cache_pool r ps w' (xs @ [f]) \<and> cache_room ps w' = cache_room ps w else w' = w)) (\<lambda>_. False) w"
    by (rule wp_mono [OF liberate_local_stack [OF st ps K K0]])
       (use K ps in \<open>auto simp: cache_pool_def cache_room_def only_cache_page_size split: if_splits\<close>)
qed

section \<open>Properties\<close>

text \<open>A state with pages of three pointers: the local cache holds four futures on two pages and has
  room for two more, the global cache has no page.\<close>

definition sample_page :: "pid option \<Rightarrow> pid option \<Rightarrow> fid option list \<Rightarrow> pointer_page" where
  "sample_page prev nxt fs = \<lparr>page_previous = prev, page_next = nxt, page_futures = fs\<rparr>"

definition sample_allocator :: allocator_state where
  "sample_allocator = empty_allocator\<lparr>page_size := 40,
     pages := [1 \<mapsto> sample_page None (Some 2) [Some 10, Some 11, Some 12], 2 \<mapsto> sample_page (Some 1) None [Some 13, None, None]],
     local_futures := \<lparr>cache_bottom = Some 1, cache_top = Some 2, num_top_futures = 1\<rparr>\<rparr>"

definition sample_world :: world where
  "sample_world = \<lparr>futures = (\<lambda>_. zero_future), allocator = sample_allocator, schedule = [], trace = []\<rparr>"

lemma sample_capacity [simp]: "page_capacity (page_size sample_allocator) = Inr 3"
  by (simp add: sample_allocator_def page_capacity_def)

lemma sample_stack:
  "cache_stack 3 (pages sample_allocator) (cache_of Local sample_allocator) [10, 11, 12, 13] {1, 2}"
proof -
  have "cache_shape 3 (pages sample_allocator) (cache_of Local sample_allocator) [(1, [10, 11, 12])] 2 [13] []"
    by (simp add: cache_shape_def sample_allocator_def sample_page_def page_holds_def numeral_3_eq_3)
  then show ?thesis unfolding cache_stack_def by (intro disjI2 exI conjI) (assumption, simp, auto)
qed

text \<open>C28. Taking a future from a cache is taking the top of the stack it represents: the future
  that was put there last, and \<open>NULL\<close> exactly when there is none.  The other cache, the pages of other
  caches and the futures in memory stay as they are.\<close>

theorem pointer_cache_pops:
  assumes "page_capacity (page_size (allocator w)) = Inr K"
    and "cache_stack K (pages (allocator w)) (cache_of r (allocator w)) xs ps"
  shows "\<exists>a'. future_pointer_cache_allocate_local r w =
      Inr (if xs = [] then None else Some (last xs), w\<lparr>allocator := a'\<rparr>) \<and>
    cache_stack K (pages a') (cache_of r a') (butlast xs) ps \<and> only_cache r ps (allocator w) a'"
  using allocate_local_stack [OF assms(2,1) page_capacity_pos [OF assms(1)]] unfolding wp_total by auto

theorem pointer_cache_pops_witness:
  "\<exists>a'. future_pointer_cache_allocate_local Local sample_world = Inr (Some 13, sample_world\<lparr>allocator := a'\<rparr>) \<and>
    cache_stack 3 (pages a') (cache_of Local a') [10, 11, 12] {1, 2} \<and> only_cache Local {1, 2} sample_allocator a'"
  using pointer_cache_pops [of sample_world 3 Local "[10, 11, 12, 13]" "{1, 2}"] sample_stack
  by (simp add: sample_world_def)

text \<open>A future that is given back to a cache is the next one that is handed out: liberation
  fails, without any effect, exactly when all pages of the cache are full; otherwise the future is
  reset to the state of unused futures and the next allocation returns it and restores the stack.\<close>

theorem pointer_cache_push_pop:
  assumes "page_capacity (page_size (allocator w)) = Inr K" and "ps \<noteq> {}"
    and "cache_stack K (pages (allocator w)) (cache_of r (allocator w)) xs ps"
  shows "\<exists>ok w1. future_pointer_cache_liberate_local r f w = Inr (ok, w1) \<and> (ok \<longleftrightarrow> length xs < K * card ps) \<and>
    (if ok then futures w1 f = zero_future \<and> (\<exists>w2. future_pointer_cache_allocate_local r w1 = Inr (Some f, w2) \<and>
        cache_stack K (pages (allocator w2)) (cache_of r (allocator w2)) xs ps)
     else w1 = w)"
proof -
  have pool: "cache_pool r ps w xs" using assms by (auto simp: cache_pool_def)
  have reset: "wp (future_pointer_cache_liberate_local r f) (\<lambda>ok w1. (ok \<longrightarrow> futures w1 f = zero_future) \<and>
      page_size (allocator w1) = page_size (allocator w)) (\<lambda>_. False) w"
    by (rule wp_mono [OF liberate_local_stack [OF assms(3,2,1) page_capacity_pos [OF assms(1)]]])
       (auto simp: only_cache_page_size split: if_splits)
  have size: "page_size (allocator w2) = page_size (allocator w1)" "cache_stack K (pages (allocator w2)) (cache_of r (allocator w2)) xs ps"
    if run: "future_pointer_cache_allocate_local r w1 = Inr (Some f, w2)" and after: "cache_pool r ps w2 xs"
      and before: "cache_pool r ps w1 (xs @ [f])" and same: "page_size (allocator w1) = page_size (allocator w)" for w1 w2
  proof -
    obtain K' where "page_capacity (page_size (allocator w1)) = Inr K'"
      "cache_stack K' (pages (allocator w1)) (cache_of r (allocator w1)) (xs @ [f]) ps"
      using before by (auto simp: cache_pool_def)
    from allocate_local_stack [OF this(2,1) page_capacity_pos [OF this(1)]] run
    show "page_size (allocator w2) = page_size (allocator w1)"
      by (auto simp: wp_def only_cache_page_size)
    then show "cache_stack K (pages (allocator w2)) (cache_of r (allocator w2)) xs ps"
      using after same assms(1) by (auto simp: cache_pool_def)
  qed
  show ?thesis
    using wp_conj [OF reset wp_conj [OF cache.give_law [OF pool, of f] cache.give_take [OF pool, of f]]] size assms(1)
    unfolding wp_total conj_assoc simp_thms by (auto simp: cache_room_def wp_total split: if_splits)
qed

theorem pointer_cache_push_pop_witness:
  "\<exists>ok w1. future_pointer_cache_liberate_local Local 20 sample_world = Inr (ok, w1) \<and> ok \<and>
    futures w1 20 = zero_future \<and> (\<exists>w2. future_pointer_cache_allocate_local Local w1 = Inr (Some 20, w2) \<and>
        cache_stack 3 (pages (allocator w2)) (cache_of Local (allocator w2)) [10, 11, 12, 13] {1, 2})"
  using pointer_cache_push_pop [of sample_world 3 "{1, 2}" Local "[10, 11, 12, 13]" 20] sample_stack
  by (auto simp: sample_world_def)

text \<open>The binary search of \<open>future_pointer_page_occupancy\<close> counts exactly the pointers of a page
  whose pointers come first, without reading out of bounds.\<close>

theorem page_occupancy_exact:
  assumes "page_capacity (page_size (allocator w)) = Inr K" and "page_holds K (pages (allocator w)) p gs"
  shows "future_pointer_page_occupancy p w = Inr (length gs, w)"
  using wp_occupancy [OF assms(2,1) page_capacity_pos [OF assms(1)], of "\<lambda>n w'. n = length gs \<and> w' = w" "\<lambda>_. False"]
  unfolding wp_total by simp

theorem page_occupancy_exact_witness: "future_pointer_page_occupancy 2 sample_world = Inr (1, sample_world)"
  using page_occupancy_exact [of sample_world 3 2 "[13]"]
  by (simp add: sample_world_def) (simp add: page_holds_def sample_allocator_def sample_page_def numeral_3_eq_3)

end
