(* ===== verification/SyncCaches.thy ===== *)
theory SyncCaches
  imports PointerCache
begin

text \<open>
  The thread-local caches of event objects and of epoll instances with their latch events
  (future/allocator/sync_caches.[ch]): ring buffers of four slots, in which \<open>latest\<close> is the index of
  the object that was put in last.  The functions work on the event cache that their \<open>event_ref\<close>
  argument designates: that of the thread, or the one inside its latched inpoll cache.
\<close>

section \<open>Ring indices\<close>

definition EVENT_INVALID :: fd where
  "EVENT_INVALID = FD_INVALID"

definition sync_cache_increment_index :: "u8 \<Rightarrow> u8 \<Rightarrow> u8" where
  "sync_cache_increment_index index capacity = word_of_int ((uint index + 1) mod uint capacity)"

definition sync_cache_decrement_index :: "u8 \<Rightarrow> u8 \<Rightarrow> u8" where
  "sync_cache_decrement_index index capacity = (if index \<ge> 1 then index - 1 else capacity - 1)"

definition EVENT_CACHE_CAPACITY :: u8 where
  "EVENT_CACHE_CAPACITY = 4"

section \<open>Event caches\<close>

datatype event_ref = Events_of_thread | Latches_of_inpolls

fun event_cache_of :: "event_ref \<Rightarrow> allocator_state \<Rightarrow> event_cache" where
  "event_cache_of Events_of_thread a = local_events a"
| "event_cache_of Latches_of_inpolls a = latch_cache (local_inpolls a)"

fun with_event_cache :: "event_ref \<Rightarrow> event_cache \<Rightarrow> allocator_state \<Rightarrow> allocator_state" where
  "with_event_cache Events_of_thread c a = a\<lparr>local_events := c\<rparr>"
| "with_event_cache Latches_of_inpolls c a = a\<lparr>local_inpolls := (local_inpolls a)\<lparr>latch_cache := c\<rparr>\<rparr>"

definition get_events :: "event_ref \<Rightarrow> event_cache comp" where
  "get_events r = bindM get_allocator (\<lambda>a. retM (event_cache_of r a))"

definition put_events :: "event_ref \<Rightarrow> event_cache \<Rightarrow> unit comp" where
  "put_events r c = bindM get_allocator (\<lambda>a. put_allocator (with_event_cache r c a))"

definition event_cache_initialize :: event_cache where
  "event_cache_initialize =
    \<lparr>cached_events = replicate (unat EVENT_CACHE_CAPACITY) EVENT_INVALID, latest_index = 0\<rparr>"

definition event_cache_allocate :: "event_ref \<Rightarrow> fd comp" where
  "event_cache_allocate r =
    bindM (get_events r) (\<lambda>c.
    bindM (liftR (array_read (cached_events c) (unat (latest_index c)))) (\<lambda>candidate.
    if candidate = EVENT_INVALID then event_initialize False
    else
      bindM (liftR (array_write (cached_events c) (unat (latest_index c)) EVENT_INVALID)) (\<lambda>events.
      seqM (put_events r (c\<lparr>cached_events := events,
        latest_index := sync_cache_decrement_index (latest_index c) EVENT_CACHE_CAPACITY\<rparr>)) (
      retM candidate))))"

text \<open>The result is the new value of the caller's variable.\<close>

definition event_cache_liberate :: "event_ref \<Rightarrow> fd \<Rightarrow> fd comp" where
  "event_cache_liberate r event =
    bindM (get_events r) (\<lambda>c.
    let latest' = sync_cache_increment_index (latest_index c) EVENT_CACHE_CAPACITY in
    bindM (liftR (array_read (cached_events c) (unat latest'))) (\<lambda>oldest.
    bindM (if oldest \<noteq> EVENT_INVALID then event_finalize oldest else retM EVENT_INVALID) (\<lambda>_.
    bindM (liftR (array_write (cached_events c) (unat latest') event)) (\<lambda>events.
    seqM (put_events r (c\<lparr>cached_events := events, latest_index := latest'\<rparr>)) (
    retM EVENT_INVALID)))))"

text \<open>Every turn of the loop frees a slot, so that there are at most as many turns as slots.\<close>

fun event_cache_finalize_loop :: "nat \<Rightarrow> event_cache \<Rightarrow> event_cache comp" where
  "event_cache_finalize_loop fuel c =
    bindM (liftR (array_read (cached_events c) (unat (latest_index c)))) (\<lambda>event.
    if event \<noteq> EVENT_INVALID then
      (case fuel of
         0 \<Rightarrow> stopM ScheduleEnd
       | Suc fuel' \<Rightarrow>
           seqM (assertM (latest_index c < EVENT_CACHE_CAPACITY)) (
           bindM (event_finalize event) (\<lambda>closed.
           bindM (liftR (array_write (cached_events c) (unat (latest_index c)) closed)) (\<lambda>events.
           event_cache_finalize_loop fuel' (c\<lparr>cached_events := events,
             latest_index := sync_cache_decrement_index (latest_index c) EVENT_CACHE_CAPACITY\<rparr>)))))
    else retM c)"

definition event_cache_finalize :: "event_ref \<Rightarrow> unit comp" where
  "event_cache_finalize r =
    bindM (get_events r) (\<lambda>c.
    bindM (event_cache_finalize_loop (length (cached_events c)) c) (\<lambda>c'.
    put_events r (c'\<lparr>latest_index := 0\<rparr>)))"

section \<open>Caches of latched inpolls\<close>

definition get_inpolls :: "latched_inpoll_cache comp" where
  "get_inpolls = bindM get_allocator (\<lambda>a. retM (local_inpolls a))"

definition put_inpolls :: "fd list \<Rightarrow> unit comp" where
  "put_inpolls fds = bindM get_allocator (\<lambda>a.
     put_allocator (a\<lparr>local_inpolls := (local_inpolls a)\<lparr>cached_inpolls := fds\<rparr>\<rparr>))"

definition latched_inpoll_cache_initialize :: latched_inpoll_cache where
  "latched_inpoll_cache_initialize =
    \<lparr>cached_inpolls = replicate (unat EVENT_CACHE_CAPACITY) FD_INVALID, latch_cache = event_cache_initialize\<rparr>"

definition latched_inpoll_cache_allocate :: "inpoll_with_latch comp" where
  "latched_inpoll_cache_allocate =
    bindM get_inpolls (\<lambda>c.
    let target = unat (latest_index (latch_cache c)) in
    bindM (liftR (array_read (cached_inpolls c) target)) (\<lambda>inpoll_candidate.
    if inpoll_candidate = FD_INVALID then latched_inpoll_initialize
    else
      seqM (assertM (inpoll_candidate \<ge> 0)) (
      bindM (liftR (array_write (cached_inpolls c) target FD_INVALID)) (\<lambda>fds.
      seqM (put_inpolls fds) (
      bindM (liftR (array_read (cached_events (latch_cache c)) target)) (\<lambda>latch.
      seqM (assertM (latch \<noteq> EVENT_INVALID)) (
      bindM (event_cache_allocate Latches_of_inpolls) (\<lambda>latch.
      retM \<lparr>inpoll_fd = inpoll_candidate, latch_fd = latch\<rparr>))))))))"

definition latched_inpoll_cache_liberate :: "inpoll_with_latch \<Rightarrow> unit comp" where
  "latched_inpoll_cache_liberate latched =
    bindM (event_cache_liberate Latches_of_inpolls (latch_fd latched)) (\<lambda>_.
    bindM get_inpolls (\<lambda>c.
    let target = latest_index (latch_cache c) in
    seqM (assertM (target < EVENT_CACHE_CAPACITY)) (
    bindM (liftR (array_read (cached_inpolls c) (unat target))) (\<lambda>target_fd.
    bindM (if target_fd \<noteq> FD_INVALID then inpoll_finalize target_fd else retM FD_INVALID) (\<lambda>_.
    bindM (liftR (array_write (cached_inpolls c) (unat target) (inpoll_fd latched))) (\<lambda>fds.
    put_inpolls fds))))))"

fun inpoll_finalize_loop :: "nat \<Rightarrow> u8 \<Rightarrow> fd list \<Rightarrow> fd list comp" where
  "inpoll_finalize_loop fuel target fds =
    bindM (liftR (array_read fds (unat target))) (\<lambda>fd.
    if fd \<noteq> FD_INVALID then
      (case fuel of
         0 \<Rightarrow> stopM ScheduleEnd
       | Suc fuel' \<Rightarrow>
           seqM (assertM (target < EVENT_CACHE_CAPACITY)) (
           seqM (assertM (fd \<ge> 0)) (
           bindM (inpoll_finalize fd) (\<lambda>closed.
           bindM (liftR (array_write fds (unat target) closed)) (\<lambda>fds'.
           inpoll_finalize_loop fuel' (sync_cache_decrement_index target EVENT_CACHE_CAPACITY) fds')))))
    else retM fds)"

definition latched_inpoll_cache_finalize :: "unit comp" where
  "latched_inpoll_cache_finalize =
    bindM get_inpolls (\<lambda>c.
    bindM (inpoll_finalize_loop (length (cached_inpolls c)) (latest_index (latch_cache c)) (cached_inpolls c)) (\<lambda>fds.
    seqM (put_inpolls fds) (
    event_cache_finalize Latches_of_inpolls)))"

section \<open>The rings as bounded stacks\<close>

text \<open>\<open>ring_stack slots latest xs\<close>: the ring holds the objects \<open>xs\<close>, the oldest one first; going back
  from \<open>latest\<close> one meets them from the newest to the oldest and then free slots only.\<close>

definition ring_stack :: "fd list \<Rightarrow> u8 \<Rightarrow> fd list \<Rightarrow> bool" where
  "ring_stack slots latest xs \<longleftrightarrow> length slots = 4 \<and> latest < 4 \<and> length xs \<le> 4 \<and> (\<forall>x \<in> set xs. x \<ge> 0) \<and>
     map (\<lambda>j. slots ! ((unat latest + 4 - j) mod 4)) [0..<4] = rev xs @ replicate (4 - length xs) FD_INVALID"

lemma small_index: "(i :: u8) < 4 \<Longrightarrow> i = 0 \<or> i = 1 \<or> i = 2 \<or> i = 3"
proof -
  assume "i < 4"
  then have "unat i < 4" by (simp add: word_less_nat_alt)
  then have "unat i = 0 \<or> unat i = 1 \<or> unat i = 2 \<or> unat i = 3" by linarith
  then show ?thesis by (simp add: word_unat_eq_iff)
qed

lemma four_slots: "length slots = 4 \<Longrightarrow> \<exists>a b c d. slots = [a, b, c, d]"
  by (auto simp: numeral_eq_Suc length_Suc_conv)

lemma up_to_four: "length xs \<le> 4 \<Longrightarrow> xs = [] \<or> (\<exists>a. xs = [a]) \<or> (\<exists>a b. xs = [a, b]) \<or> (\<exists>a b c. xs = [a, b, c]) \<or>
    (\<exists>a b c d. xs = [a, b, c, d])"
  by (auto simp: numeral_eq_Suc le_Suc_eq length_Suc_conv)

lemmas index_ops = sync_cache_increment_index_def sync_cache_decrement_index_def EVENT_CACHE_CAPACITY_def

lemma ring_order:
  "ring_stack [a, b, c, d] 0 xs \<longleftrightarrow> length xs \<le> 4 \<and> (\<forall>x \<in> set xs. x \<ge> 0) \<and> [a, d, c, b] = rev xs @ replicate (4 - length xs) (-1)"
  "ring_stack [a, b, c, d] 1 xs \<longleftrightarrow> length xs \<le> 4 \<and> (\<forall>x \<in> set xs. x \<ge> 0) \<and> [b, a, d, c] = rev xs @ replicate (4 - length xs) (-1)"
  "ring_stack [a, b, c, d] 2 xs \<longleftrightarrow> length xs \<le> 4 \<and> (\<forall>x \<in> set xs. x \<ge> 0) \<and> [c, b, a, d] = rev xs @ replicate (4 - length xs) (-1)"
  "ring_stack [a, b, c, d] 3 xs \<longleftrightarrow> length xs \<le> 4 \<and> (\<forall>x \<in> set xs. x \<ge> 0) \<and> [d, c, b, a] = rev xs @ replicate (4 - length xs) (-1)"
  by (simp_all add: ring_stack_def FD_INVALID_def upt_rec)

lemma short_replicate:
  "replicate 4 x = [x, x, x, x]" "replicate 3 x = [x, x, x]" "replicate 2 x = [x, x]" "replicate (Suc 0) x = [x]"
  by (simp_all add: numeral_eq_Suc)

lemma next_index:
  "sync_cache_increment_index 0 EVENT_CACHE_CAPACITY = 1" "sync_cache_increment_index 1 EVENT_CACHE_CAPACITY = 2"
  "sync_cache_increment_index 2 EVENT_CACHE_CAPACITY = 3" "sync_cache_increment_index 3 EVENT_CACHE_CAPACITY = 0"
  "sync_cache_decrement_index 0 EVENT_CACHE_CAPACITY = 3" "sync_cache_decrement_index 1 EVENT_CACHE_CAPACITY = 0"
  "sync_cache_decrement_index 2 EVENT_CACHE_CAPACITY = 1" "sync_cache_decrement_index 3 EVENT_CACHE_CAPACITY = 2"
  by (simp_all add: index_ops)

lemmas ring_eval = ring_order short_replicate next_index FD_INVALID_def

lemma ring_push:
  assumes "ring_stack slots i xs" and "f \<ge> 0"
  shows "slots ! unat (sync_cache_increment_index i EVENT_CACHE_CAPACITY) = (if length xs < 4 then FD_INVALID else hd xs)"
    and "ring_stack (slots[unat (sync_cache_increment_index i EVENT_CACHE_CAPACITY) := f]) (sync_cache_increment_index i EVENT_CACHE_CAPACITY)
       (if length xs < 4 then xs @ [f] else tl xs @ [f])"
    and "unat (sync_cache_increment_index i EVENT_CACHE_CAPACITY) < length slots"
    and "sync_cache_increment_index i EVENT_CACHE_CAPACITY < EVENT_CACHE_CAPACITY"
proof -
  obtain a b c d where s: "slots = [a, b, c, d]" using assms(1) four_slots [of slots] unfolding ring_stack_def by blast
  have i: "i = 0 \<or> i = 1 \<or> i = 2 \<or> i = 3" using assms(1) small_index by (auto simp: ring_stack_def)
  have xs: "xs = [] \<or> (\<exists>a. xs = [a]) \<or> (\<exists>a b. xs = [a, b]) \<or> (\<exists>a b c. xs = [a, b, c]) \<or> (\<exists>a b c d. xs = [a, b, c, d])"
    using assms(1) by (intro up_to_four) (simp add: ring_stack_def)
  show "slots ! unat (sync_cache_increment_index i EVENT_CACHE_CAPACITY) = (if length xs < 4 then FD_INVALID else hd xs)"
    using assms(1) xs i unfolding s by (elim disjE exE) (simp_all add: ring_eval)
  show "ring_stack (slots[unat (sync_cache_increment_index i EVENT_CACHE_CAPACITY) := f]) (sync_cache_increment_index i EVENT_CACHE_CAPACITY)
       (if length xs < 4 then xs @ [f] else tl xs @ [f])"
    using assms xs i unfolding s by (elim disjE exE) (simp_all add: ring_eval)
  show "unat (sync_cache_increment_index i EVENT_CACHE_CAPACITY) < length slots"
    using i unfolding s by (elim disjE) (simp_all add: index_ops)
  show "sync_cache_increment_index i EVENT_CACHE_CAPACITY < EVENT_CACHE_CAPACITY"
    using i by (elim disjE) (simp_all add: index_ops)
qed

lemma ring_pop:
  assumes "ring_stack slots i xs"
  shows "slots ! unat i = (if xs = [] then FD_INVALID else last xs)"
    and "xs \<noteq> [] \<Longrightarrow> ring_stack (slots[unat i := FD_INVALID]) (sync_cache_decrement_index i EVENT_CACHE_CAPACITY) (butlast xs)"
    and "unat i < length slots" and "i < EVENT_CACHE_CAPACITY"
proof -
  obtain a b c d where s: "slots = [a, b, c, d]" using assms(1) four_slots [of slots] unfolding ring_stack_def by blast
  have i: "i = 0 \<or> i = 1 \<or> i = 2 \<or> i = 3" using assms(1) small_index by (auto simp: ring_stack_def)
  have xs: "xs = [] \<or> (\<exists>a. xs = [a]) \<or> (\<exists>a b. xs = [a, b]) \<or> (\<exists>a b c. xs = [a, b, c]) \<or> (\<exists>a b c d. xs = [a, b, c, d])"
    using assms(1) by (intro up_to_four) (simp add: ring_stack_def)
  show "slots ! unat i = (if xs = [] then FD_INVALID else last xs)"
    using assms(1) xs i unfolding s by (elim disjE exE) (simp_all add: ring_eval)
  show "ring_stack (slots[unat i := FD_INVALID]) (sync_cache_decrement_index i EVENT_CACHE_CAPACITY) (butlast xs)" if "xs \<noteq> []"
    using assms xs i that unfolding s by (elim disjE exE) (simp_all add: ring_eval)
  show "unat i < length slots" using i unfolding s by (elim disjE) (simp_all add: index_ops)
  show "i < EVENT_CACHE_CAPACITY" using i by (elim disjE) (simp_all add: index_ops)
qed


section \<open>The operations on the stacks\<close>

lemma wp_get_events [wp_simps]: "wp (get_events r) Q E w \<longleftrightarrow> Q (event_cache_of r (allocator w)) w"
  by (simp add: get_events_def wp_simps)

lemma wp_put_events [wp_simps]:
  "wp (put_events r c) Q E w \<longleftrightarrow> Q () (w\<lparr>allocator := with_event_cache r c (allocator w)\<rparr>)"
  by (simp add: put_events_def wp_simps)

lemma wp_get_inpolls [wp_simps]: "wp get_inpolls Q E w \<longleftrightarrow> Q (local_inpolls (allocator w)) w"
  by (simp add: get_inpolls_def wp_simps)

lemma wp_put_inpolls [wp_simps]: "wp (put_inpolls fds) Q E w \<longleftrightarrow> Q () (w\<lparr>allocator :=
     (allocator w)\<lparr>local_inpolls := (local_inpolls (allocator w))\<lparr>cached_inpolls := fds\<rparr>\<rparr>\<rparr>)"
  by (simp add: put_inpolls_def wp_simps)

lemma event_cache_of_with [simp]:
  "event_cache_of r (with_event_cache r c a) = c"
  "with_event_cache r c (with_event_cache r c' a) = with_event_cache r c a"
  by (cases r; simp)+

lemma wp_close [wp_simps]: "wp (close_virtual_fd fd) Q E w \<longleftrightarrow> (if fd \<ge> 0 then (case schedule w of
     Returns r e # ss \<Rightarrow> if r = -1 \<and> e \<noteq> EINTR then E ExitError else Q FD_INVALID (w\<lparr>trace := CloseFd fd # trace w, schedule := ss\<rparr>)
   | _ \<Rightarrow> E ScheduleEnd) else E EnsureFailed)"
  by (auto simp: close_virtual_fd_def wp_simps split: list.splits step.splits)

lemma wp_event_finalize [wp_simps]: "wp (event_finalize fd) Q E w \<longleftrightarrow> wp (close_virtual_fd fd) (\<lambda>_. Q FD_INVALID) E w"
  by (simp add: event_finalize_def wp_simps wp_eta)

abbreviation ring_of :: "event_cache \<Rightarrow> fd list \<Rightarrow> bool" where
  "ring_of c \<equiv> ring_stack (cached_events c) (latest_index c)"

lemma event_cache_allocate_stack:
  assumes "ring_of (event_cache_of r (allocator w)) xs"
  shows "wp (event_cache_allocate r) (\<lambda>fd w'. if xs = []
      then fd \<ge> 0 \<and> (\<exists>e ss. schedule w = Returns fd e # ss \<and> w' = w\<lparr>schedule := ss\<rparr>)
      else fd = last xs \<and> (\<exists>c. ring_of c (butlast xs) \<and> w' = w\<lparr>allocator := with_event_cache r c (allocator w)\<rparr>))
    (\<lambda>e. xs = [] \<and> e \<in> {ExitError, EnsureFailed, ScheduleEnd}) w"
proof -
  let ?c = "event_cache_of r (allocator w)"
  note pop = ring_pop [OF assms]
  show ?thesis
  proof (cases "xs = []")
    case True
    then show ?thesis using pop(1,3)
      by (auto simp: event_cache_allocate_def wp_simps array_read_in EVENT_INVALID_def event_initialize_def split: list.splits step.splits)
  next
    case False
    then have "last xs \<noteq> FD_INVALID" using assms last_in_set [OF False] unfolding ring_stack_def FD_INVALID_def by fastforce
    moreover have "ring_of (?c\<lparr>cached_events := (cached_events ?c)[unat (latest_index ?c) := FD_INVALID],
       latest_index := sync_cache_decrement_index (latest_index ?c) EVENT_CACHE_CAPACITY\<rparr>) (butlast xs)"
      using pop(2) False by simp
    ultimately show ?thesis using pop(1,3) False
      by (auto simp: event_cache_allocate_def wp_simps array_read_in array_write_in EVENT_INVALID_def
           intro!: exI [of _ "?c\<lparr>cached_events := (cached_events ?c)[unat (latest_index ?c) := FD_INVALID],
             latest_index := sync_cache_decrement_index (latest_index ?c) EVENT_CACHE_CAPACITY\<rparr>"])
  qed
qed

lemma event_cache_liberate_stack:
  assumes "ring_of (event_cache_of r (allocator w)) xs" and "f \<ge> 0"
  shows "wp (event_cache_liberate r f) (\<lambda>v w'. v = EVENT_INVALID \<and>
      (\<exists>c. ring_of c (if length xs < 4 then xs @ [f] else tl xs @ [f]) \<and>
        latest_index c = sync_cache_increment_index (latest_index (event_cache_of r (allocator w))) EVENT_CACHE_CAPACITY \<and>
        (if length xs < 4 then w' = w\<lparr>allocator := with_event_cache r c (allocator w)\<rparr>
         else \<exists>s. w' = w\<lparr>trace := CloseFd (hd xs) # trace w, schedule := tl (schedule w), allocator := with_event_cache r c (allocator w)\<rparr>
           \<and> schedule w = s # tl (schedule w))))
    (\<lambda>e. length xs = 4 \<and> e \<in> {ExitError, ScheduleEnd}) w"
proof -
  let ?c = "event_cache_of r (allocator w)"
  let ?i = "sync_cache_increment_index (latest_index ?c) EVENT_CACHE_CAPACITY"
  note push = ring_push [OF assms]
  have new: "ring_of (?c\<lparr>cached_events := (cached_events ?c)[unat ?i := f], latest_index := ?i\<rparr>) (if length xs < 4 then xs @ [f] else tl xs @ [f])"
    using push(2) by simp
  have le: "length xs \<le> 4" using assms by (simp add: ring_stack_def)
  have hd: "hd xs \<ge> 0" if "\<not> length xs < 4"
  proof -
    have "hd xs \<in> set xs" using that by (cases xs) auto
    then show ?thesis using assms by (simp add: ring_stack_def)
  qed
  show ?thesis
  proof (cases "length xs < 4")
    case True
    then show ?thesis using push(1,3) new
      by (auto simp: event_cache_liberate_def wp_simps array_read_in array_write_in EVENT_INVALID_def Let_def
           intro!: exI [of _ "?c\<lparr>cached_events := (cached_events ?c)[unat ?i := f], latest_index := ?i\<rparr>"])
  next
    case False
    then have "hd xs \<noteq> FD_INVALID" using hd by (simp add: FD_INVALID_def)
    then show ?thesis using push(1,3) new False hd le
      by (auto simp: event_cache_liberate_def wp_simps array_read_in array_write_in EVENT_INVALID_def Let_def
           intro!: exI [of _ "?c\<lparr>cached_events := (cached_events ?c)[unat ?i := f], latest_index := ?i\<rparr>"] split: list.splits step.splits)
  qed
qed

lemma ring_empty_slots: "ring_stack slots i [] \<Longrightarrow> slots = replicate 4 FD_INVALID"
  using small_index [of i] four_slots [of slots] unfolding ring_stack_def
  by (elim conjE disjE exE) (auto simp: short_replicate upt_rec)

lemma event_cache_finalize_loop_effect:
  assumes "ring_of c xs" and "length xs \<le> fuel"
  shows "wp (event_cache_finalize_loop fuel c) (\<lambda>c' w'. ring_of c' [] \<and>
      (\<exists>ss. w' = w\<lparr>trace := map CloseFd xs @ trace w, schedule := ss\<rparr>)) (\<lambda>e. xs \<noteq> [] \<and> e \<in> {ExitError, ScheduleEnd}) w"
  using assms
proof (induction fuel arbitrary: c xs w)
  case 0
  then show ?case using ring_pop(1,3) [OF 0(1)]
    by (auto simp: wp_simps array_read_in EVENT_INVALID_def intro!: exI [of _ "schedule w"])
next
  case (Suc fuel)
  note pop = ring_pop [OF Suc.prems(1)]
  show ?case
  proof (cases xs rule: rev_cases)
    case Nil
    then show ?thesis using pop(1,3) Suc.prems
      by (auto simp: wp_simps array_read_in EVENT_INVALID_def intro!: exI [of _ "schedule w"])
  next
    case (snoc ys y)
    let ?c = "c\<lparr>cached_events := (cached_events c)[unat (latest_index c) := FD_INVALID],
       latest_index := sync_cache_decrement_index (latest_index c) EVENT_CACHE_CAPACITY\<rparr>"
    have y: "y \<ge> 0" "y \<noteq> FD_INVALID" using Suc.prems(1) snoc by (auto simp: ring_stack_def FD_INVALID_def)
    have "ring_of ?c ys" "length ys \<le> fuel" using pop(2) Suc.prems snoc by auto
    note IH = Suc.IH [OF this]
    have "wp (event_cache_finalize_loop fuel ?c) (\<lambda>c' w'. ring_of c' [] \<and>
        (\<exists>ss'. w' = w\<lparr>trace := map CloseFd xs @ trace w, schedule := ss'\<rparr>)) (\<lambda>e. xs \<noteq> [] \<and> e \<in> {ExitError, ScheduleEnd})
        (w\<lparr>trace := CloseFd y # trace w, schedule := ss\<rparr>)" for ss
      by (rule wp_mono [OF IH]) (use snoc in auto)
    then show ?thesis using pop(1,3,4) snoc y
      by (auto simp: wp_simps array_read_in array_write_in EVENT_INVALID_def split: list.splits step.splits simp del: event_cache_finalize_loop.simps
          simp: event_cache_finalize_loop.simps [of "Suc fuel"])
  qed
qed

lemma event_cache_finalize_stack:
  assumes "ring_of (event_cache_of r (allocator w)) xs"
  shows "wp (event_cache_finalize r) (\<lambda>_ w'. \<exists>ss. w' = w\<lparr>trace := map CloseFd xs @ trace w, schedule := ss,
      allocator := with_event_cache r event_cache_initialize (allocator w)\<rparr>) (\<lambda>e. xs \<noteq> [] \<and> e \<in> {ExitError, ScheduleEnd}) w"
proof -
  have len: "length xs \<le> length (cached_events (event_cache_of r (allocator w)))" using assms by (simp add: ring_stack_def)
  show ?thesis unfolding event_cache_finalize_def wp_bind wp_get_events
  proof (rule wp_mono [OF event_cache_finalize_loop_effect [OF assms len]])
    fix c' w'
    assume c': "ring_of c' [] \<and> (\<exists>ss. w' = w\<lparr>trace := map CloseFd xs @ trace w, schedule := ss\<rparr>)"
    then have "c'\<lparr>latest_index := 0\<rparr> = event_cache_initialize"
      using ring_empty_slots [of "cached_events c'" "latest_index c'"]
      by (cases c') (auto simp: event_cache_initialize_def EVENT_CACHE_CAPACITY_def EVENT_INVALID_def)
    then show "wp (put_events r (c'\<lparr>latest_index := 0\<rparr>)) (\<lambda>_ w'. \<exists>ss. w' = w\<lparr>trace := map CloseFd xs @ trace w, schedule := ss,
      allocator := with_event_cache r event_cache_initialize (allocator w)\<rparr>) (\<lambda>e. xs \<noteq> [] \<and> e \<in> {ExitError, ScheduleEnd}) w'"
      using c' by (auto simp: wp_simps)
  qed
qed


section \<open>Pairs of an inpoll and its latch\<close>

text \<open>The two rings of a latched inpoll cache hold the parts of the same pairs at the same places.\<close>

definition pairs_in :: "latched_inpoll_cache \<Rightarrow> (fd \<times> fd) list \<Rightarrow> bool" where
  "pairs_in c ps \<longleftrightarrow> ring_stack (cached_inpolls c) (latest_index (latch_cache c)) (map fst ps) \<and>
     ring_of (latch_cache c) (map snd ps)"

lemma latched_allocate_pairs:
  assumes "pairs_in (local_inpolls (allocator w)) ps"
  shows "wp latched_inpoll_cache_allocate (\<lambda>p w'. if ps = [] then allocator w' = allocator w \<and> futures w' = futures w
      else p = \<lparr>inpoll_fd = fst (last ps), latch_fd = snd (last ps)\<rparr> \<and>
        (\<exists>c. pairs_in c (butlast ps) \<and> w' = w\<lparr>allocator := (allocator w)\<lparr>local_inpolls := c\<rparr>\<rparr>))
    (\<lambda>e. ps = [] \<and> e \<noteq> BadAccess) w"
proof -
  let ?c = "local_inpolls (allocator w)"
  have r1: "ring_stack (cached_inpolls ?c) (latest_index (latch_cache ?c)) (map fst ps)"
    and r2: "ring_of (latch_cache ?c) (map snd ps)" using assms by (simp_all add: pairs_in_def)
  note pop1 = ring_pop [OF r1] and pop2 = ring_pop [OF r2]
  show ?thesis
  proof (cases "ps = []")
    case True
    then show ?thesis using pop1(1,3)
      by (auto simp: latched_inpoll_cache_allocate_def latched_inpoll_initialize_def event_initialize_def inpoll_initialize_def
           inpoll_attach_def wp_simps array_read_in Let_def split: list.splits step.splits errno.splits)
  next
    case False
    let ?i = "latest_index (latch_cache ?c)"
    have in1: "fst (last ps) \<ge> 0" "snd (last ps) \<ge> 0"
      using r1 r2 last_in_set [OF False] unfolding ring_stack_def by auto
    then have ne: "fst (last ps) \<noteq> FD_INVALID" "snd (last ps) \<noteq> FD_INVALID" by (auto simp: FD_INVALID_def)
    let ?c1 = "?c\<lparr>cached_inpolls := (cached_inpolls ?c)[unat ?i := FD_INVALID]\<rparr>"
    let ?w = "w\<lparr>allocator := (allocator w)\<lparr>local_inpolls := ?c1\<rparr>\<rparr>"
    have eq: "wp latched_inpoll_cache_allocate Q E w \<longleftrightarrow>
       wp (event_cache_allocate Latches_of_inpolls) (\<lambda>l. Q \<lparr>inpoll_fd = fst (last ps), latch_fd = l\<rparr>) E ?w" for Q E
      using pop1(1,3) pop2(1,3) False ne in1
      by (simp add: latched_inpoll_cache_allocate_def wp_simps wp_eta array_read_in array_write_in Let_def EVENT_INVALID_def last_map)
    have lc: "event_cache_of Latches_of_inpolls (allocator ?w) = latch_cache ?c" by simp
    let ?lc = "(latch_cache ?c)\<lparr>cached_events := (cached_events (latch_cache ?c))[unat ?i := FD_INVALID],
       latest_index := sync_cache_decrement_index ?i EVENT_CACHE_CAPACITY\<rparr>"
    have "wp (event_cache_allocate Latches_of_inpolls) (\<lambda>l w'. l = snd (last ps) \<and>
        w' = w\<lparr>allocator := (allocator w)\<lparr>local_inpolls := ?c1\<lparr>latch_cache := ?lc\<rparr>\<rparr>\<rparr>) (\<lambda>_. False) ?w"
      using pop2(1,3) False ne
      by (simp add: event_cache_allocate_def wp_simps array_read_in array_write_in EVENT_INVALID_def last_map)
    moreover have "pairs_in (?c1\<lparr>latch_cache := ?lc\<rparr>) (butlast ps)"
      using pop1(2) pop2(2) False by (simp add: pairs_in_def map_butlast)
    ultimately show ?thesis unfolding eq using False by (auto elim!: wp_mono)
  qed
qed

lemma latched_liberate_pairs:
  assumes "pairs_in (local_inpolls (allocator w)) ps" and nn: "i \<ge> 0" "l \<ge> 0"
  shows "wp (latched_inpoll_cache_liberate \<lparr>inpoll_fd = i, latch_fd = l\<rparr>) (\<lambda>_ w'.
      \<exists>c ss. pairs_in c (if length ps < 4 then ps @ [(i, l)] else tl ps @ [(i, l)]) \<and>
        w' = w\<lparr>trace := (if length ps < 4 then [] else [CloseFd (fst (hd ps)), CloseFd (snd (hd ps))]) @ trace w, schedule := ss,
               allocator := (allocator w)\<lparr>local_inpolls := c\<rparr>\<rparr>)
    (\<lambda>e. length ps = 4 \<and> e \<in> {ExitError, ScheduleEnd}) w"
proof -
  let ?c = "local_inpolls (allocator w)"
  have r1: "ring_stack (cached_inpolls ?c) (latest_index (latch_cache ?c)) (map fst ps)"
    and r2: "ring_of (latch_cache ?c) (map snd ps)" using assms by (simp_all add: pairs_in_def)
  let ?i = "sync_cache_increment_index (latest_index (latch_cache ?c)) EVENT_CACHE_CAPACITY"
  note push1 = ring_push [OF r1 nn(1)]
  have r2': "ring_of (event_cache_of Latches_of_inpolls (allocator w)) (map snd ps)" using r2 by simp
  have hd: "fst (hd ps) \<ge> 0" if "\<not> length ps < 4"
  proof -
    have "hd ps \<in> set ps" using that by (cases ps) auto
    then show ?thesis using r1 by (auto simp: ring_stack_def)
  qed
  have le: "length ps \<le> 4" using r1 by (simp add: ring_stack_def)
  show ?thesis unfolding latched_inpoll_cache_liberate_def wp_bind inpoll_with_latch.select_convs
  proof (rule wp_mono [OF event_cache_liberate_stack [OF r2' nn(2)]], goal_cases)
    case (1 v w1)
    then obtain c1 where c1: "ring_of c1 (if length ps < 4 then map snd ps @ [l] else tl (map snd ps) @ [l])" "latest_index c1 = ?i"
      and run: "if length ps < 4 then w1 = w\<lparr>allocator := with_event_cache Latches_of_inpolls c1 (allocator w)\<rparr>
         else \<exists>s. w1 = w\<lparr>trace := CloseFd (hd (map snd ps)) # trace w, schedule := tl (schedule w),
            allocator := with_event_cache Latches_of_inpolls c1 (allocator w)\<rparr> \<and> schedule w = s # tl (schedule w)"
      unfolding length_map event_cache_of.simps by blast
    have w1: "\<exists>ss. w1 = w\<lparr>trace := (if length ps < 4 then [] else [CloseFd (snd (hd ps))]) @ trace w, schedule := ss,
         allocator := (allocator w)\<lparr>local_inpolls := ?c\<lparr>latch_cache := c1\<rparr>\<rparr>\<rparr>"
    proof (cases "length ps < 4")
      case True
      then show ?thesis using run by (intro exI [of _ "schedule w"]) simp
    next
      case False
      then have "hd (map snd ps) = snd (hd ps)" by (cases ps) auto
      then show ?thesis using run False by (intro exI [of _ "tl (schedule w)"]) auto
    qed
    let ?fds = "(cached_inpolls ?c)[unat ?i := i]"
    have "pairs_in (?c\<lparr>latch_cache := c1, cached_inpolls := ?fds\<rparr>) (if length ps < 4 then ps @ [(i, l)] else tl ps @ [(i, l)])"
      using push1(2) c1 by (auto simp: pairs_in_def map_tl split: if_splits)
    moreover have "cached_inpolls ?c ! unat ?i = (if length ps < 4 then FD_INVALID else fst (hd ps))"
      using push1(1) by (cases ps) auto
    ultimately show ?case using w1 c1(2) push1(3,4) hd le
      by (cases "length ps < 4")
        (auto simp: wp_simps inpoll_finalize_def array_read_in array_write_in Let_def FD_INVALID_def
           intro!: exI [of _ "(?c\<lparr>latch_cache := c1, cached_inpolls := ?fds\<rparr>)"] split: list.splits step.splits)
  next
    case (2 e)
    then show ?case by simp
  qed
qed


lemma inpoll_finalize_loop_effect:
  assumes "ring_stack fds i xs" and "length xs \<le> fuel"
  shows "wp (inpoll_finalize_loop fuel i fds) (\<lambda>fds' w'. fds' = replicate 4 FD_INVALID \<and>
      (\<exists>ss. w' = w\<lparr>trace := map CloseFd xs @ trace w, schedule := ss\<rparr>)) (\<lambda>e. xs \<noteq> [] \<and> e \<in> {ExitError, ScheduleEnd}) w"
  using assms
proof (induction fuel arbitrary: fds i xs w)
  case 0
  then show ?case using ring_pop(1,3) [OF 0(1)] ring_empty_slots [of fds i]
    by (auto simp: wp_simps array_read_in intro!: exI [of _ "schedule w"])
next
  case (Suc fuel)
  note pop = ring_pop [OF Suc.prems(1)]
  show ?case
  proof (cases xs rule: rev_cases)
    case Nil
    then show ?thesis using pop(1,3) Suc.prems ring_empty_slots [of fds i]
      by (auto simp: wp_simps array_read_in intro!: exI [of _ "schedule w"])
  next
    case (snoc ys y)
    let ?i = "sync_cache_decrement_index i EVENT_CACHE_CAPACITY" and ?fds = "fds[unat i := FD_INVALID]"
    have y: "y \<ge> 0" "y \<noteq> FD_INVALID" using Suc.prems(1) snoc by (auto simp: ring_stack_def FD_INVALID_def)
    have "ring_stack ?fds ?i ys" "length ys \<le> fuel" using pop(2) Suc.prems snoc by auto
    note IH = Suc.IH [OF this]
    have "wp (inpoll_finalize_loop fuel ?i ?fds) (\<lambda>fds' w'. fds' = replicate 4 FD_INVALID \<and>
        (\<exists>ss'. w' = w\<lparr>trace := map CloseFd xs @ trace w, schedule := ss'\<rparr>)) (\<lambda>e. xs \<noteq> [] \<and> e \<in> {ExitError, ScheduleEnd})
        (w\<lparr>trace := CloseFd y # trace w, schedule := ss\<rparr>)" for ss
      by (rule wp_mono [OF IH]) (use snoc in auto)
    then show ?thesis using pop(1,3,4) snoc y
      by (auto simp: wp_simps inpoll_finalize_def array_read_in array_write_in split: list.splits step.splits simp del: inpoll_finalize_loop.simps
          simp: inpoll_finalize_loop.simps [of "Suc fuel"])
  qed
qed

lemma latched_finalize_pairs:
  assumes "pairs_in (local_inpolls (allocator w)) ps"
  shows "wp latched_inpoll_cache_finalize (\<lambda>_ w'. \<exists>ss. w' = w\<lparr>trace := map (CloseFd \<circ> snd) ps @ map (CloseFd \<circ> fst) ps @ trace w,
      schedule := ss, allocator := (allocator w)\<lparr>local_inpolls := latched_inpoll_cache_initialize\<rparr>\<rparr>)
    (\<lambda>e. ps \<noteq> [] \<and> e \<in> {ExitError, ScheduleEnd}) w"
proof -
  let ?c = "local_inpolls (allocator w)"
  have r1: "ring_stack (cached_inpolls ?c) (latest_index (latch_cache ?c)) (map fst ps)"
    and r2: "ring_of (latch_cache ?c) (map snd ps)" using assms by (simp_all add: pairs_in_def)
  have len: "length (map fst ps) \<le> length (cached_inpolls ?c)" using r1 by (simp add: ring_stack_def)
  let ?fds = "replicate 4 FD_INVALID"
  have init: "?c\<lparr>cached_inpolls := ?fds, latch_cache := event_cache_initialize\<rparr> = latched_inpoll_cache_initialize"
    by (cases ?c) (simp add: latched_inpoll_cache_initialize_def EVENT_CACHE_CAPACITY_def)
  show ?thesis unfolding latched_inpoll_cache_finalize_def wp_bind wp_get_inpolls wp_seq
  proof (rule wp_mono [OF inpoll_finalize_loop_effect [OF r1 len]], goal_cases)
    case (1 fds w1)
    then obtain ss where fds: "fds = ?fds" and w1: "w1 = w\<lparr>trace := map CloseFd (map fst ps) @ trace w, schedule := ss\<rparr>" by blast
    let ?w = "w1\<lparr>allocator := (allocator w)\<lparr>local_inpolls := ?c\<lparr>cached_inpolls := ?fds\<rparr>\<rparr>\<rparr>"
    have "ring_of (event_cache_of Latches_of_inpolls (allocator ?w)) (map snd ps)" using r2 by simp
    from event_cache_finalize_stack [OF this] show ?case unfolding wp_put_inpolls fds w1 using init
      by (auto elim!: wp_mono)
  next
    case (2 e)
    then show ?case by simp
  qed
qed

section \<open>Properties\<close>

text \<open>An epoll instance and its latch stay together: a pair that is put into the cache, which
  succeeds without a system call while there is a free slot, is the pair that the next allocation
  returns, with the other pairs still there, except the oldest one when the ring was full, whose two
  descriptors have been closed.\<close>

theorem latched_pair_roundtrip:
  assumes "pairs_in (local_inpolls (allocator w)) ps" and "i \<ge> 0" and "l \<ge> 0"
  shows "(length ps < 4 \<longrightarrow> (\<exists>w1. latched_inpoll_cache_liberate \<lparr>inpoll_fd = i, latch_fd = l\<rparr> w = Inr ((), w1))) \<and>
    (\<forall>w1. latched_inpoll_cache_liberate \<lparr>inpoll_fd = i, latch_fd = l\<rparr> w = Inr ((), w1) \<longrightarrow>
       trace w1 = (if length ps < 4 then [] else [CloseFd (fst (hd ps)), CloseFd (snd (hd ps))]) @ trace w \<and>
       (\<exists>w2. latched_inpoll_cache_allocate w1 = Inr (\<lparr>inpoll_fd = i, latch_fd = l\<rparr>, w2) \<and>
          pairs_in (local_inpolls (allocator w2)) (if length ps < 4 then ps else tl ps)))"
proof -
  let ?ps = "if length ps < 4 then ps @ [(i, l)] else tl ps @ [(i, l)]"
  let ?give = "latched_inpoll_cache_liberate \<lparr>inpoll_fd = i, latch_fd = l\<rparr>"
  note give = latched_liberate_pairs [OF assms]
  have "\<exists>w1. ?give w = Inr ((), w1)" if "length ps < 4"
    using give that by (auto simp: wp_def split: sum.splits)
  moreover have "trace w1 = (if length ps < 4 then [] else [CloseFd (fst (hd ps)), CloseFd (snd (hd ps))]) @ trace w \<and>
       (\<exists>w2. latched_inpoll_cache_allocate w1 = Inr (\<lparr>inpoll_fd = i, latch_fd = l\<rparr>, w2) \<and>
          pairs_in (local_inpolls (allocator w2)) (if length ps < 4 then ps else tl ps))" if "?give w = Inr ((), w1)" for w1
  proof -
    have t: "trace w1 = (if length ps < 4 then [] else [CloseFd (fst (hd ps)), CloseFd (snd (hd ps))]) @ trace w"
      and p: "pairs_in (local_inpolls (allocator w1)) ?ps"
      using wp_returns [OF give that] by auto
    have "\<exists>w2. latched_inpoll_cache_allocate w1 = Inr (\<lparr>inpoll_fd = i, latch_fd = l\<rparr>, w2) \<and>
          pairs_in (local_inpolls (allocator w2)) (butlast ?ps)"
      using latched_allocate_pairs [OF p] by (auto simp: wp_def split: sum.splits if_splits)
    then show ?thesis using t by auto
  qed
  ultimately show ?thesis by blast
qed

theorem latched_pair_roundtrip_witness:
  "\<exists>w1 w2. latched_inpoll_cache_liberate \<lparr>inpoll_fd = 5, latch_fd = 6\<rparr> sample_world = Inr ((), w1) \<and>
     latched_inpoll_cache_allocate w1 = Inr (\<lparr>inpoll_fd = 5, latch_fd = 6\<rparr>, w2) \<and> pairs_in (local_inpolls (allocator w2)) []"
proof -
  have "pairs_in (local_inpolls (allocator sample_world)) []"
    by (simp add: pairs_in_def sample_world_def sample_allocator_def empty_allocator_def ring_order short_replicate)
  from latched_pair_roundtrip [OF this, of 5 6] show ?thesis by auto
qed

text \<open>Finalizing an event cache closes each cached event exactly once, the latest one first, and
  leaves an empty cache; it never fails an assertion, never accesses a slot out of range and ends after
  at most four turns: the only other result is an exit when a close fails.\<close>

theorem event_cache_finalize_closes_all:
  assumes "ring_stack (cached_events (event_cache_of r (allocator w))) (latest_index (event_cache_of r (allocator w))) xs"
  shows "(\<exists>ss. event_cache_finalize r w = Inr ((), w\<lparr>trace := map CloseFd xs @ trace w, schedule := ss,
      allocator := with_event_cache r event_cache_initialize (allocator w)\<rparr>)) \<or>
    xs \<noteq> [] \<and> event_cache_finalize r w \<in> {Inl ExitError, Inl ScheduleEnd}"
  using event_cache_finalize_stack [OF assms] by (auto simp: wp_def split: sum.splits)

theorem event_cache_finalize_closes_all_witness:
  "\<exists>ss. event_cache_finalize Events_of_thread sample_world = Inr ((), sample_world\<lparr>trace := [], schedule := ss,
      allocator := with_event_cache Events_of_thread event_cache_initialize sample_allocator\<rparr>)"
proof -
  have "ring_of (event_cache_of Events_of_thread (allocator sample_world)) []"
    by (simp add: sample_world_def sample_allocator_def empty_allocator_def ring_order short_replicate)
  from event_cache_finalize_closes_all [OF this] show ?thesis by (simp add: sample_world_def)
qed

end
