(* ===== verification/PageTransfer.thy ===== *)
theory PageTransfer
  imports PointerCache
begin

text \<open>
  Moving pages of future pointers between caches: what linking and unlinking does to the doubly
  linked list, and the specifications of \<open>extract_futures\<close>, \<open>obtain_empty\<close>, \<open>insert_empty\<close> and
  \<open>insert_futures\<close> on the stack that a cache represents.  \<open>only_cache r ps\<close> is the frame of every
  operation: the other cache and the pages outside \<open>ps\<close> are left alone.
\<close>

section \<open>Linking and unlinking pages\<close>

text \<open>A segment of a list of pages, with the pages before and after it.\<close>

fun segment :: "(pid \<Rightarrow> pointer_page option) \<Rightarrow> pid option \<Rightarrow> pid list \<Rightarrow> pid option \<Rightarrow> bool" where
  "segment h prev [] nxt \<longleftrightarrow> True"
| "segment h prev (p # ps) nxt \<longleftrightarrow> (\<exists>pg. h p = Some pg \<and> page_previous pg = prev \<and>
     page_next pg = (if ps = [] then nxt else Some (hd ps))) \<and> segment h (Some p) ps nxt"

lemma dll_segment: "dll h prev ps \<longleftrightarrow> segment h prev ps None"
  by (induction ps arbitrary: prev) (auto split: list.splits)

lemma segment_append:
  "segment h prev (xs @ ys) nxt \<longleftrightarrow> segment h prev xs (if ys = [] then nxt else Some (hd ys)) \<and>
     segment h (if xs = [] then prev else Some (last xs)) ys nxt"
  by (induction xs arbitrary: prev) auto

lemma segment_frame [simp]: "p \<notin> set ps \<Longrightarrow> segment (h(p := x)) prev ps nxt = segment h prev ps nxt"
  by (induction ps arbitrary: prev) auto

lemma segment_cong: "(\<And>p. p \<in> set ps \<Longrightarrow> h' p = h p) \<Longrightarrow> segment h' prev ps nxt = segment h prev ps nxt"
  by (induction ps arbitrary: prev) auto

lemma segment_set_previous:
  assumes "segment h prev (y # ys) nxt" and "y \<notin> set ys" and "h y = Some pg"
  shows "segment (h(y \<mapsto> pg\<lparr>page_previous := prev'\<rparr>)) prev' (y # ys) nxt"
  using assms by auto

lemma segment_set_next:
  assumes "segment h prev (xs @ [x]) nxt" and "x \<notin> set xs" and "h x = Some pg"
  shows "segment (h(x \<mapsto> pg\<lparr>page_next := nxt'\<rparr>)) prev (xs @ [x]) nxt'"
  using assms by (auto simp: segment_append)

text \<open>Heaps whose pages hold the same pointers.\<close>

definition same_contents :: "(pid \<Rightarrow> pointer_page option) \<Rightarrow> (pid \<Rightarrow> pointer_page option) \<Rightarrow> bool" where
  "same_contents h h' \<longleftrightarrow> (\<forall>p. map_option page_futures (h' p) = map_option page_futures (h p))"

lemma page_holds_iff: "page_holds K h p fs \<longleftrightarrow> length fs \<le> K \<and>
    map_option page_futures (h p) = Some (map Some fs @ replicate (K - length fs) None)"
  by (auto simp: page_holds_def)

lemma page_holds_same: "same_contents h h' \<Longrightarrow> page_holds K h' p fs = page_holds K h p fs"
  by (simp add: page_holds_iff same_contents_def)

lemma same_contents_refl [simp]: "same_contents h h"
  by (simp add: same_contents_def)

lemma same_contents_update [intro]:
  "same_contents h h' \<Longrightarrow> h' p = Some pg \<Longrightarrow> page_futures pg' = page_futures pg \<Longrightarrow> same_contents h (h'(p \<mapsto> pg'))"
  by (auto simp: same_contents_def) (metis option.simps(9))

text \<open>A page that belongs to no cache.\<close>

definition loose_page :: "nat \<Rightarrow> (pid \<Rightarrow> pointer_page option) \<Rightarrow> pid \<Rightarrow> fid list \<Rightarrow> bool" where
  "loose_page K h p gs \<longleftrightarrow> page_holds K h p gs \<and> segment h None [p] None"

lemma page_holds_cong: "h' p = h p \<Longrightarrow> page_holds K h' p fs = page_holds K h p fs"
  by (simp add: page_holds_def)

lemma loose_page_cong: "h' p = h p \<Longrightarrow> loose_page K h' p gs = loose_page K h p gs"
  using page_holds_cong [of h' p h] by (simp add: loose_page_def)

lemma cache_stack_cong:
  assumes "cache_stack K h c xs ps" and same: "\<And>p. p \<in> ps \<Longrightarrow> h' p = h p"
  shows "cache_stack K h' c xs ps"
proof -
  have "cache_shape K h' c fulls t fs es" if sh: "cache_shape K h c fulls t fs es"
    and ps: "ps = fst ` set fulls \<union> {t} \<union> set es" for fulls t fs es
  proof -
    have "segment h' None (map fst fulls @ t # es) None = segment h None (map fst fulls @ t # es) None"
      by (rule segment_cong) (use same ps in auto)
    moreover have ph: "page_holds K h' p gs = page_holds K h p gs" if "p \<in> ps" for p gs
      by (rule page_holds_cong) (rule same [OF that])
    have "page_holds K h' p gs \<and> length gs = K" if "(p, gs) \<in> set fulls" for p gs
    proof -
      have "p \<in> ps" using that ps by force
      then show ?thesis using that sh ph unfolding cache_shape_def by blast
    qed
    then have "\<forall>(p, gs) \<in> set fulls. page_holds K h' p gs \<and> length gs = K" by blast
    moreover have "page_holds K h' t fs" and "\<forall>p \<in> set es. page_holds K h' p []"
      using sh ph ps unfolding cache_shape_def by blast+
    ultimately show ?thesis using sh unfolding cache_shape_def dll_segment Let_def by argo
  qed
  then show ?thesis using assms(1) unfolding cache_stack_def by blast
qed

lemma unlink_segment:
  assumes seg: "segment (pages (allocator w)) None (xs @ q # ys) None" and dist: "distinct (xs @ q # ys)"
  shows "wp (future_pointer_page_unlink q) (\<lambda>_ w'. \<exists>h. w' = w\<lparr>allocator := (allocator w)\<lparr>pages := h\<rparr>\<rparr> \<and>
      segment h None (xs @ ys) None \<and> segment h None [q] None \<and> same_contents (pages (allocator w)) h \<and>
      (\<forall>p. p \<notin> set (xs @ q # ys) \<longrightarrow> h p = pages (allocator w) p)) (\<lambda>_. False) w"
proof -
  let ?h = "pages (allocator w)"
  have parts: "segment ?h None xs (Some q)" "segment ?h (Some q) ys None"
    "segment ?h (if xs = [] then None else Some (last xs)) [q] (if ys = [] then None else Some (hd ys))"
    using seg by (auto simp: segment_append)
  obtain pg where pg: "?h q = Some pg" "page_previous pg = (if xs = [] then None else Some (last xs))"
    "page_next pg = (if ys = [] then None else Some (hd ys))" using parts(3) by auto
  define h1 where "h1 = (case ys of [] \<Rightarrow> ?h | y # _ \<Rightarrow> ?h(y \<mapsto> (the (?h y))\<lparr>page_previous := page_previous pg\<rparr>))"
  define h2 where "h2 = (if xs = [] then h1 else h1(last xs \<mapsto> (the (h1 (last xs)))\<lparr>page_next := page_next pg\<rparr>))"
  define h3 where "h3 = h2(q \<mapsto> pg\<lparr>page_next := None, page_previous := None\<rparr>)"
  have y: "\<exists>ypg. ?h (hd ys) = Some ypg" if "ys \<noteq> []" using parts(2) that by (cases ys) auto
  have x: "\<exists>xpg. ?h (last xs) = Some xpg" if "xs \<noteq> []"
    using parts(1) that by (cases xs rule: rev_cases) (auto simp: segment_append)
  have h1: "segment h1 (page_previous pg) ys None" "segment h1 None xs (Some q)" "h1 q = Some pg"
      "same_contents ?h h1"
    using parts dist y pg by (cases ys; auto simp: h1_def intro: same_contents_update; fail)+
  have h1x: "h1 (last xs) = ?h (last xs)" if "xs \<noteq> []"
    using dist that by (cases ys) (auto simp: h1_def)
  have h2: "segment h2 None xs (page_next pg)" "segment h2 (page_previous pg) ys None" "h2 q = Some pg" "same_contents ?h h2"
  proof -
    show "segment h2 None xs (page_next pg)"
    proof (cases xs rule: rev_cases)
      case (snoc zs z)
      then show ?thesis using segment_set_next [of h1 None zs z] h1(2) h1x x dist by (auto simp: h2_def)
    qed simp
    show "segment h2 (page_previous pg) ys None" "h2 q = Some pg"
      using h1 dist by (cases xs rule: rev_cases; auto simp: h2_def; fail)+
    show "same_contents ?h h2" using same_contents_update [OF h1(4), of "last xs"] h1x x h1(4) by (auto simp: h2_def)
  qed
  have "segment h3 None (xs @ ys) None" using h2 pg dist by (auto simp: h3_def segment_append)
  moreover have "segment h3 None [q] None" by (simp add: h3_def)
  moreover have "same_contents ?h h3" using h2(3,4) by (auto simp: h3_def)
  moreover have "\<forall>p. p \<notin> set (xs @ q # ys) \<longrightarrow> h3 p = ?h p"
    by (cases ys; cases xs rule: rev_cases) (auto simp: h3_def h2_def h1_def)
  moreover have "wp (future_pointer_page_unlink q) (\<lambda>_ w'. w' = w\<lparr>allocator := (allocator w)\<lparr>pages := h3\<rparr>\<rparr>) (\<lambda>_. False) w"
    using pg x y h1 h1x h2(3) dist
    by (cases ys; cases "xs = []")
       (auto simp: future_pointer_page_unlink_def wp_simps h1_def h2_def h3_def split: option.splits)
  ultimately show ?thesis by (auto elim!: wp_mono)
qed


section \<open>Moving pages between caches\<close>

abbreviation stack_in :: "nat \<Rightarrow> allocator_state \<Rightarrow> cache_ref \<Rightarrow> fid list \<Rightarrow> pid set \<Rightarrow> bool" where
  "stack_in K a r \<equiv> cache_stack K (pages a) (cache_of r a)"

lemma cache_stackI:
  "cache_shape K h c fulls t fs es \<Longrightarrow> xs = concat (map snd fulls) @ fs \<Longrightarrow>
   ps = fst ` set fulls \<union> {t} \<union> set es \<Longrightarrow> cache_stack K h c xs ps"
  unfolding cache_stack_def by blast

lemma cache_stack_none: "cache_stack K h \<lparr>cache_bottom = None, cache_top = None, num_top_futures = 0\<rparr> [] {}"
  by (simp add: cache_stack_def)

lemma only_cache_refl [simp]: "only_cache r ps a a"
  using only_cacheI [of ps "pages a" a r "cache_of r a"] by simp

lemma only_cache_mono: "only_cache r ps a a' \<Longrightarrow> ps \<subseteq> qs \<Longrightarrow> only_cache r qs a a'"
  unfolding only_cache_def by blast

lemma only_cache_trans:
  assumes "only_cache r ps a b" and "only_cache r qs b c"
  shows "only_cache r (ps \<union> qs) a c"
proof -
  obtain c1 h1 c2 h2 where "b = with_cache r c1 (a\<lparr>pages := h1\<rparr>)" "\<forall>p. p \<notin> ps \<longrightarrow> h1 p = pages a p"
    "c = with_cache r c2 (b\<lparr>pages := h2\<rparr>)" "\<forall>p. p \<notin> qs \<longrightarrow> h2 p = pages b p"
    using assms unfolding only_cache_def by blast
  then have "c = with_cache r c2 (a\<lparr>pages := h2\<rparr>)" "\<forall>p. p \<notin> ps \<union> qs \<longrightarrow> h2 p = pages a p" by simp_all
  then show ?thesis unfolding only_cache_def by blast
qed

lemma extract_futures_stack:
  assumes st: "stack_in K (allocator w) r xs ps" and K: "0 < K"
  shows "wp (future_pointer_cache_extract_futures r) (\<lambda>q w'. case q of None \<Rightarrow> xs = [] \<and> w' = w
    | Some p \<Rightarrow> \<exists>a' gs ys. w' = w\<lparr>allocator := a'\<rparr> \<and> only_cache r ps (allocator w) a' \<and> p \<in> ps \<and> gs \<noteq> [] \<and>
        loose_page K (pages a') p gs \<and> xs = gs @ ys \<and> (ys = [] \<or> length gs = K) \<and> stack_in K a' r ys (ps - {p}))
    (\<lambda>_. False) w"
proof (cases "num_top_futures (cache_of r (allocator w)) = 0")
  case True
  moreover from this have "xs = []" using st by (auto simp: cache_stack_def cache_shape_def)
  ultimately show ?thesis
    by (auto simp: future_pointer_cache_extract_futures_def wp_simps split: option.splits)
next
  case False
  let ?a = "allocator w" and ?c = "cache_of r (allocator w)"
  let ?h = "pages ?a"
  from False obtain fulls t fs es where sh: "cache_shape K ?h ?c fulls t fs es"
    and xs: "xs = concat (map snd fulls) @ fs" and ps: "ps = fst ` set fulls \<union> {t} \<union> set es"
    using st by (auto simp: cache_stack_def)
  have fs: "fs \<noteq> []" using sh False by (auto simp: cache_shape_def)
  obtain q rest where q: "map fst fulls @ t # es = q # rest" by (cases fulls) auto
  have dist: "distinct (q # rest)" and seg: "segment ?h None (q # rest) None" and bot: "cache_bottom ?c = Some q"
    using sh q by (auto simp: cache_shape_def Let_def dll_segment)
  obtain pg where pg: "?h q = Some pg" "page_previous pg = None" "page_next pg = (if rest = [] then None else Some (hd rest))"
    using seg by auto
  define c2 where "c2 = (if cache_top ?c = Some q then ?c\<lparr>cache_bottom := page_next pg, cache_top := page_next pg, num_top_futures := 0\<rparr>
     else ?c\<lparr>cache_bottom := page_next pg\<rparr>)"
  let ?w = "w\<lparr>allocator := with_cache r c2 ?a\<rparr>"
  have run: "wp (future_pointer_cache_extract_futures r) (\<lambda>x w'. x = Some q \<and> (\<exists>h. w' = w\<lparr>allocator := with_cache r c2 (?a\<lparr>pages := h\<rparr>)\<rparr> \<and>
      segment h None rest None \<and> segment h None [q] None \<and> same_contents ?h h \<and> (\<forall>p. p \<notin> set (q # rest) \<longrightarrow> h p = ?h p))) (\<lambda>_. False) w"
  proof -
    have "wp (future_pointer_cache_extract_futures r) Q E w \<longleftrightarrow> wp (future_pointer_page_unlink q) (\<lambda>_. Q (Some q)) E ?w" for Q E
      using False bot pg by (simp add: future_pointer_cache_extract_futures_def wp_simps wp_eta c2_def Let_def)
    moreover have "wp (future_pointer_page_unlink q) (\<lambda>_ w'. \<exists>h. w' = w\<lparr>allocator := with_cache r c2 (?a\<lparr>pages := h\<rparr>)\<rparr> \<and>
      segment h None rest None \<and> segment h None [q] None \<and> same_contents ?h h \<and> (\<forall>p. p \<notin> set (q # rest) \<longrightarrow> h p = ?h p)) (\<lambda>_. False) ?w"
      using unlink_segment [of ?w "[]" q rest] dist seg by simp
    ultimately show ?thesis by simp
  qed
  show ?thesis
  proof (rule wp_mono [OF run], elim conjE exE)
    fix x w' h
    assume x: "x = Some q" and w': "w' = w\<lparr>allocator := with_cache r c2 (?a\<lparr>pages := h\<rparr>)\<rparr>"
      and h: "segment h None rest None" "segment h None [q] None" "same_contents ?h h" "\<forall>p. p \<notin> set (q # rest) \<longrightarrow> h p = ?h p"
    have "ps = set (map fst fulls @ t # es)" using ps by auto
    then have ps': "ps = set (q # rest)" unfolding q .
    have rest: "ps - {q} = set rest" using ps' dist by auto
    have oc: "only_cache r ps ?a (with_cache r c2 (?a\<lparr>pages := h\<rparr>))" by (rule only_cacheI) (use h(4) ps' in auto)
    have ph: "page_holds K h p gs = page_holds K ?h p gs" for p gs by (rule page_holds_same [OF h(3)])
    have "\<exists>gs ys. gs \<noteq> [] \<and> loose_page K h q gs \<and> xs = gs @ ys \<and> (ys = [] \<or> length gs = K) \<and> cache_stack K h c2 ys (ps - {q})"
    proof (cases fulls)
      case Nil
      have "cache_stack K h c2 [] (ps - {q})"
      proof (cases es)
        case Nil
        then have "c2 = \<lparr>cache_bottom = None, cache_top = None, num_top_futures = 0\<rparr>"
          using q \<open>fulls = []\<close> sh pg by (auto simp: c2_def cache_shape_def)
        moreover have "ps - {q} = {}" using ps q \<open>fulls = []\<close> Nil by simp
        ultimately show ?thesis using cache_stack_none by metis
      next
        case (Cons e es')
        have "cache_shape K h c2 [] e [] es'"
          using sh Nil Cons q h ph dist pg by (auto simp: cache_shape_def Let_def dll_segment c2_def)
        moreover have "ps - {q} = {e} \<union> set es'" unfolding rest using q Nil Cons by auto
        ultimately show ?thesis by (auto intro: cache_stackI)
      qed
      moreover have "loose_page K h q fs" using sh Nil q h ph by (simp add: loose_page_def cache_shape_def)
      ultimately show ?thesis using fs xs Nil by auto
    next
      case (Cons f fl)
      have "cache_shape K h c2 fl t fs es"
        using sh Cons q h ph dist pg fs by (auto simp: cache_shape_def Let_def dll_segment c2_def)
      moreover have "rest = map fst fl @ t # es" using q Cons by simp
      then have "ps - {q} = fst ` set fl \<union> {t} \<union> set es" unfolding rest by simp
      ultimately have "cache_stack K h c2 (concat (map snd fl) @ fs) (ps - {q})" by (auto intro: cache_stackI)
      moreover have "loose_page K h q (snd f)" "length (snd f) = K"
        using sh Cons q h ph by (auto simp: loose_page_def cache_shape_def)
      ultimately show ?thesis using K xs Cons by (intro exI [of _ "snd f"] exI [of _ "concat (map snd fl) @ fs"]) auto
    qed
    then obtain gs ys where g: "gs \<noteq> [] \<and> loose_page K h q gs \<and> xs = gs @ ys \<and> (ys = [] \<or> length gs = K) \<and> cache_stack K h c2 ys (ps - {q})"
      by blast
    show "case x of None \<Rightarrow> xs = [] \<and> w' = w
      | Some p \<Rightarrow> \<exists>a' gs ys. w' = w\<lparr>allocator := a'\<rparr> \<and> only_cache r ps ?a a' \<and> p \<in> ps \<and> gs \<noteq> [] \<and>
        loose_page K (pages a') p gs \<and> xs = gs @ ys \<and> (ys = [] \<or> length gs = K) \<and> stack_in K a' r ys (ps - {p})"
      unfolding x option.case w' using oc ps' g
      by (intro exI [of _ "with_cache r c2 (?a\<lparr>pages := h\<rparr>)"] exI [of _ gs] exI [of _ ys]) simp
  qed simp
qed


text \<open>A fresh page comes from \<open>malloc\<close>.\<close>

lemma wp_page_initialize:
  assumes "page_capacity (page_size (allocator w)) = Inr K"
  shows "wp future_pointer_page_initialize Q E w \<longleftrightarrow> (case schedule w of
     Returns p e # ss \<Rightarrow> if p = 0 then E ExitError
       else if p < 0 \<or> pages (allocator w) (nat p) \<noteq> None then E ScheduleEnd
       else Q (nat p) (w\<lparr>schedule := ss, allocator := (allocator w)\<lparr>pages := (pages (allocator w))(nat p \<mapsto>
              \<lparr>page_previous = None, page_next = None, page_futures = replicate K None\<rparr>)\<rparr>\<rparr>)
   | _ \<Rightarrow> E ScheduleEnd)"
  using assms by (auto simp: future_pointer_page_initialize_def wp_simps wp_capacity split: list.splits step.splits)

lemma cache_stack_size:
  assumes "cache_shape K h c fulls t fs es" and "xs = concat (map snd fulls) @ fs"
    and "ps = fst ` set fulls \<union> {t} \<union> set es"
  shows "length xs = K * length fulls + length fs" and "card ps = length fulls + 1 + length es" and "length fs \<le> K"
proof -
  have dist: "distinct (map fst fulls @ t # es)" and len: "\<forall>(p, gs) \<in> set fulls. length gs = K"
    using assms(1) by (auto simp: cache_shape_def Let_def)
  have "ps = set (map fst fulls @ t # es)" using assms(3) by auto
  then show "card ps = length fulls + 1 + length es" using distinct_card [OF dist] by simp
  have "length (concat (map snd fulls)) = K * length fulls" using len by (induction fulls) auto
  then show "length xs = K * length fulls + length fs" using assms(2) by simp
  show "length fs \<le> K" using assms(1) by (simp add: cache_shape_def page_holds_def)
qed

lemma cache_stack_pages: "cache_stack K h c xs ps \<Longrightarrow> p \<in> ps \<Longrightarrow> \<exists>pg. h p = Some pg"
proof -
  assume "cache_stack K h c xs ps" "p \<in> ps"
  then obtain fulls t fs es where "cache_shape K h c fulls t fs es" "p \<in> fst ` set fulls \<union> {t} \<union> set es"
    unfolding cache_stack_def by blast
  then have "dll h None (map fst fulls @ t # es)" "p \<in> set (map fst fulls @ t # es)"
    by (simp_all add: cache_shape_def Let_def)
  then show ?thesis by (rule dll_page)
qed

text \<open>An empty page is found in the cache unless every page holds futures.\<close>

lemma obtain_empty_stack:
  assumes st: "stack_in K (allocator w) r xs ps" and K: "page_capacity (page_size (allocator w)) = Inr K" "0 < K"
  shows "wp (future_pointer_cache_obtain_empty r) (\<lambda>p w'. \<exists>a'. only_cache r (insert p ps) (allocator w) a' \<and>
      loose_page K (pages a') p [] \<and> stack_in K a' r xs (ps - {p}) \<and>
      (if card ps * K < length xs + K
       then p \<notin> ps \<and> pages (allocator w) p = None \<and>
         (\<exists>e ss. schedule w = Returns (int p) e # ss \<and> w' = w\<lparr>schedule := ss, allocator := a'\<rparr>)
       else p \<in> ps \<and> w' = w\<lparr>allocator := a'\<rparr>))
    (\<lambda>e. card ps * K < length xs + K \<and> e \<in> {ExitError, ScheduleEnd}) w"
proof -
  let ?a = "allocator w" and ?c = "cache_of r (allocator w)"
  let ?h = "pages ?a"
  have fresh: "wp future_pointer_page_initialize (\<lambda>p w'. \<exists>a'. only_cache r (insert p ps) ?a a' \<and>
      loose_page K (pages a') p [] \<and> stack_in K a' r xs (ps - {p}) \<and> p \<notin> ps \<and> ?h p = None \<and>
         (\<exists>e ss. schedule w = Returns (int p) e # ss \<and> w' = w\<lparr>schedule := ss, allocator := a'\<rparr>))
      (\<lambda>e. e \<in> {ExitError, ScheduleEnd}) w"
  proof -
    let ?new = "\<lambda>p. ?a\<lparr>pages := ?h(p \<mapsto> \<lparr>page_previous = None, page_next = None, page_futures = replicate K None\<rparr>)\<rparr>"
    have "only_cache r (insert p ps) ?a (?new p) \<and> loose_page K (pages (?new p)) p [] \<and> stack_in K (?new p) r xs ps \<and> p \<notin> ps"
      if new: "?h p = None" for p
    proof -
      let ?h' = "?h(p \<mapsto> \<lparr>page_previous = None, page_next = None, page_futures = replicate K None\<rparr>)"
      have "p \<notin> ps" using cache_stack_pages [OF st, of p] new by auto
      moreover from this have "cache_stack K ?h' ?c xs ps" using cache_stack_cong [OF st, of ?h'] by (metis fun_upd_other)
      moreover have "only_cache r (insert p ps) ?a (?a\<lparr>pages := ?h'\<rparr>)"
        using only_cacheI [of "insert p ps" ?h' ?a r "cache_of r (?a\<lparr>pages := ?h'\<rparr>)"] by (cases r) simp_all
      ultimately show ?thesis by (auto simp: loose_page_def page_holds_def)
    qed
    then have "\<exists>a'. only_cache r (insert (nat p) ps) ?a a' \<and> loose_page K (pages a') (nat p) [] \<and> stack_in K a' r xs (ps - {nat p}) \<and>
        nat p \<notin> ps \<and> ?h (nat p) = None \<and> (\<exists>e ss. schedule w = Returns (int (nat p)) e # ss \<and>
          w\<lparr>schedule := ss', allocator := ?new (nat p)\<rparr> = w\<lparr>schedule := ss, allocator := a'\<rparr>)"
      if "?h (nat p) = None" "schedule w = Returns p e' # ss'" "\<not> p < 0" for p e' ss'
      using that by (intro exI [of _ "?new (nat p)"]) auto
    then show ?thesis by (auto simp: wp_page_initialize [OF K(1)] split: list.splits step.splits)
  qed
  show ?thesis
  proof (cases "cache_top ?c")
    case None
    then have "xs = []" "ps = {}" using st by (auto simp: cache_stack_def cache_shape_def)
    then show ?thesis using None fresh K(2)
      by (auto simp: future_pointer_cache_obtain_empty_def wp_simps elim!: wp_mono)
  next
    case (Some t)
    then obtain fulls fs es where sh: "cache_shape K ?h ?c fulls t fs es"
      and xs: "xs = concat (map snd fulls) @ fs" and ps: "ps = fst ` set fulls \<union> {t} \<union> set es"
      using st by (auto simp: cache_stack_def cache_shape_def)
    note sizes = cache_stack_size [OF sh xs ps]
    obtain pg where pg: "?h t = Some pg" "page_next pg = (case es of [] \<Rightarrow> None | e # es \<Rightarrow> Some e)"
      "page_previous pg = (if fulls = [] then None else Some (fst (last fulls)))"
      using cache_shape_top [OF sh] by metis
    have top_num: "num_top_futures ?c = length fs" using sh by (simp add: cache_shape_def)
    consider (after) e es' where "es = e # es'" | (full) "es = []" "fs \<noteq> []" | (only) "es = []" "fs = []"
      by (cases es) auto
    then show ?thesis
    proof cases
      case after
      have room: "\<not> card ps * K < length xs + K" unfolding sizes(1,2) after using sizes(3) by (simp add: algebra_simps)
      let ?ps = "(map fst fulls @ [t]) @ e # es'"
      have seg: "segment ?h None ?ps None" and dist: "distinct ?ps" and emp: "page_holds K ?h e []"
        using sh after by (auto simp: cache_shape_def Let_def dll_segment)
      have psl: "ps = set ?ps" using ps after by auto
      have eq: "wp (future_pointer_cache_obtain_empty r) Q E w \<longleftrightarrow> wp (future_pointer_page_unlink e) (\<lambda>_. Q e) E w" for Q E
        using Some pg after by (simp add: future_pointer_cache_obtain_empty_def wp_simps wp_eta)
      show ?thesis unfolding eq
      proof (rule wp_mono [OF unlink_segment [OF seg dist]], elim exE conjE)
        fix u w' h
        assume w': "w' = w\<lparr>allocator := ?a\<lparr>pages := h\<rparr>\<rparr>" and h: "segment h None ((map fst fulls @ [t]) @ es') None"
          "segment h None [e] None" "same_contents ?h h" "\<forall>p. p \<notin> set ?ps \<longrightarrow> h p = ?h p"
        have ph: "page_holds K h p gs = page_holds K ?h p gs" for p gs by (rule page_holds_same [OF h(3)])
        have "cache_shape K h ?c fulls t fs es'"
          using sh after h(1) ph dist by (auto simp: cache_shape_def Let_def dll_segment hd_append)
        moreover have "ps - {e} = fst ` set fulls \<union> {t} \<union> set es'" using dist unfolding psl by (auto simp: image_iff)
        ultimately have "cache_stack K h ?c xs (ps - {e})" using xs by (auto intro: cache_stackI)
        moreover have "only_cache r (insert e ps) ?a (?a\<lparr>pages := h\<rparr>)"
          using only_cacheI [of "insert e ps" h ?a r "cache_of r (?a\<lparr>pages := h\<rparr>)"] h(4) psl by (cases r) auto
        moreover have "loose_page K h e []" using h(2) ph emp by (simp add: loose_page_def)
        ultimately show "\<exists>a'. only_cache r (insert e ps) ?a a' \<and> loose_page K (pages a') e [] \<and> stack_in K a' r xs (ps - {e}) \<and>
          (if card ps * K < length xs + K then e \<notin> ps \<and> ?h e = None \<and>
             (\<exists>e' ss. schedule w = Returns (int e) e' # ss \<and> w' = w\<lparr>schedule := ss, allocator := a'\<rparr>)
           else e \<in> ps \<and> w' = w\<lparr>allocator := a'\<rparr>)"
          using w' room psl by (intro exI [of _ "?a\<lparr>pages := h\<rparr>"]) simp
      qed simp
    next
      case full
      have "card ps * K < length xs + K" unfolding sizes(1,2) using full by (simp add: algebra_simps)
      then show ?thesis using fresh full Some pg top_num
        by (auto simp: future_pointer_cache_obtain_empty_def wp_simps Suc_le_eq elim!: wp_mono)
    next
      case only
      then have none: "fulls = []" using sh by (simp add: cache_shape_def)
      have "\<not> card ps * K < length xs + K" unfolding sizes(1,2) using only none by simp
      moreover have "loose_page K ?h t []" using sh only none pg by (auto simp: loose_page_def cache_shape_def)
      moreover have "cache_stack K ?h (?c\<lparr>cache_top := None, cache_bottom := None\<rparr>) [] {}"
        using top_num only by (simp add: cache_stack_def)
      moreover have "only_cache r ps ?a (with_cache r (?c\<lparr>cache_top := None, cache_bottom := None\<rparr>) ?a)"
        using only_cacheI [of ps ?h ?a r] by simp
      ultimately show ?thesis using only none Some pg top_num xs ps
        by (auto simp: future_pointer_cache_obtain_empty_def wp_simps
              intro!: exI [of _ "with_cache r (?c\<lparr>cache_top := None, cache_bottom := None\<rparr>) ?a"])
    qed
  qed
qed


lemma link_after:
  assumes seg: "segment h None (xs @ t # ys) None" and dist: "distinct (xs @ t # ys)" and q: "q \<notin> set (xs @ t # ys)"
    and pq: "h q = Some qpg" and pt: "h t = Some tpg"
    and h': "h' = (case ys of [] \<Rightarrow> h(q \<mapsto> qpg\<lparr>page_previous := Some t, page_next := page_next tpg\<rparr>, t \<mapsto> tpg\<lparr>page_next := Some q\<rparr>)
       | y # _ \<Rightarrow> h(q \<mapsto> qpg\<lparr>page_previous := Some t, page_next := page_next tpg\<rparr>, t \<mapsto> tpg\<lparr>page_next := Some q\<rparr>,
                    y \<mapsto> (the (h y))\<lparr>page_previous := Some q\<rparr>))"
  shows "segment h' None (xs @ t # q # ys) None" and "same_contents h h'"
    and "p \<notin> set (xs @ t # q # ys) \<Longrightarrow> h' p = h p"
proof -
  have parts: "segment h None xs (Some t)" "segment h (Some t) ys None"
    "page_previous tpg = (if xs = [] then None else Some (last xs))" "page_next tpg = (if ys = [] then None else Some (hd ys))"
    using seg pt by (auto simp: segment_append)
  have y: "\<exists>ypg. h (hd ys) = Some ypg" if "ys \<noteq> []" using parts(2) that by (cases ys) auto
  show "segment h' None (xs @ t # q # ys) None"
  proof (cases ys)
    case (Cons y zs)
    then show ?thesis using parts y dist q unfolding h' by (auto simp: segment_append)
  qed (use parts dist q h' in \<open>auto simp: segment_append\<close>)
  show "same_contents h h'" using y pq pt unfolding h' by (cases ys) (auto simp: same_contents_def)
  show "h' p = h p" if "p \<notin> set (xs @ t # q # ys)" using that unfolding h' by (cases ys) auto
qed

lemma insert_empty_stack:
  assumes st: "stack_in K (allocator w) r xs ps" and lp: "loose_page K (pages (allocator w)) q []" and new: "q \<notin> ps"
    and K: "0 < K"
  shows "wp (future_pointer_cache_insert_empty r q) (\<lambda>_ w'. \<exists>a'. w' = w\<lparr>allocator := a'\<rparr> \<and>
      only_cache r (insert q ps) (allocator w) a' \<and> stack_in K a' r xs (insert q ps)) (\<lambda>_. False) w"
proof -
  let ?a = "allocator w" and ?c = "cache_of r (allocator w)"
  let ?h = "pages ?a"
  obtain qpg where qpg: "?h q = Some qpg" "page_previous qpg = None" "page_next qpg = None"
      "page_futures qpg = replicate K None"
    using lp by (auto simp: loose_page_def page_holds_def)
  show ?thesis
  proof (cases "cache_top ?c")
    case None
    let ?c' = "?c\<lparr>cache_top := Some q, cache_bottom := Some q\<rparr>"
    have xp: "xs = []" "ps = {}" "cache_bottom ?c = None" "num_top_futures ?c = 0"
      using None st by (auto simp: cache_stack_def cache_shape_def)
    have "cache_shape K ?h ?c' [] q [] []"
      using xp lp by (auto simp: cache_shape_def loose_page_def dll_segment)
    then have "cache_stack K ?h ?c' xs (insert q ps)" using xp by (auto intro: cache_stackI)
    moreover have "only_cache r (insert q ps) ?a (with_cache r ?c' ?a)"
      using only_cacheI [of "insert q ps" ?h ?a r] by simp
    moreover have "wp (future_pointer_cache_insert_empty r q) (\<lambda>_ w'. w' = w\<lparr>allocator := with_cache r ?c' ?a\<rparr>) (\<lambda>_. False) w"
      using None qpg xp K by (simp add: future_pointer_cache_insert_empty_def wp_simps)
    ultimately show ?thesis by (auto elim!: wp_mono)
  next
    case (Some t)
    then obtain fulls fs es where sh: "cache_shape K ?h ?c fulls t fs es"
      and xs: "xs = concat (map snd fulls) @ fs" and ps: "ps = fst ` set fulls \<union> {t} \<union> set es"
      using st by (auto simp: cache_stack_def cache_shape_def)
    obtain tpg where tpg: "?h t = Some tpg" "page_next tpg = (case es of [] \<Rightarrow> None | e # es \<Rightarrow> Some e)"
      using cache_shape_top [OF sh] by metis
    have seg: "segment ?h None (map fst fulls @ t # es) None" and dist: "distinct (map fst fulls @ t # es)"
      and psl: "ps = set (map fst fulls @ t # es)"
      using sh ps by (auto simp: cache_shape_def Let_def dll_segment)
    define h' where "h' = (case es of [] \<Rightarrow> ?h(q \<mapsto> qpg\<lparr>page_previous := Some t, page_next := page_next tpg\<rparr>, t \<mapsto> tpg\<lparr>page_next := Some q\<rparr>)
       | y # _ \<Rightarrow> ?h(q \<mapsto> qpg\<lparr>page_previous := Some t, page_next := page_next tpg\<rparr>, t \<mapsto> tpg\<lparr>page_next := Some q\<rparr>,
                    y \<mapsto> (the (?h y))\<lparr>page_previous := Some q\<rparr>))"
    note linked = link_after [OF seg dist _ qpg(1) tpg(1) h'_def]
    have q: "q \<notin> set (map fst fulls @ t # es)" using new psl by simp
    have e: "\<exists>epg. ?h (hd es) = Some epg" if "es \<noteq> []" using seg that by (cases es) (auto simp: segment_append)
    have ph: "page_holds K h' p gs = page_holds K ?h p gs" for p gs by (rule page_holds_same [OF linked(2) [OF q]])
    have "cache_shape K h' ?c fulls t fs (q # es)"
      using sh linked(1) [OF q] ph q lp by (auto simp: cache_shape_def Let_def dll_segment loose_page_def hd_append)
    then have "cache_stack K h' ?c xs (insert q ps)" using xs ps by (auto intro!: cache_stackI)
    moreover have "only_cache r (insert q ps) ?a (?a\<lparr>pages := h'\<rparr>)"
      using only_cacheI [of "insert q ps" h' ?a r "cache_of r (?a\<lparr>pages := h'\<rparr>)"] linked(3) [OF q] psl by (cases r) auto
    moreover have "wp (future_pointer_cache_insert_empty r q) (\<lambda>_ w'. w' = w\<lparr>allocator := ?a\<lparr>pages := h'\<rparr>\<rparr>) (\<lambda>_. False) w"
      using Some qpg tpg K e q dist
      by (cases es) (auto simp: future_pointer_cache_insert_empty_def wp_simps h'_def split: option.splits)
    ultimately show ?thesis by (auto elim!: wp_mono)
  qed
qed


text \<open>A page goes below all others, when the cache is empty or the page is full.\<close>

lemma link_below:
  assumes sh: "cache_stack K h c xs ps" and lp: "loose_page K h q gs" and new: "q \<notin> ps" and gs: "gs \<noteq> []"
    and low: "num_top_futures c = 0 \<or> length gs = K" and qpg: "h q = Some qpg"
    and h': "h' = (case cache_bottom c of None \<Rightarrow> h(q \<mapsto> qpg\<lparr>page_next := None\<rparr>)
       | Some b \<Rightarrow> h(q \<mapsto> qpg\<lparr>page_next := Some b\<rparr>, b \<mapsto> (the (h b))\<lparr>page_previous := Some q\<rparr>))"
    and c': "c' = (if num_top_futures c = 0 then c\<lparr>cache_top := Some q, num_top_futures := length gs, cache_bottom := Some q\<rparr>
       else c\<lparr>cache_bottom := Some q\<rparr>)"
  shows "cache_stack K h' c' (gs @ xs) (insert q ps)"
    and "p \<notin> insert q ps \<Longrightarrow> h' p = h p"
    and "cache_bottom c = Some b \<Longrightarrow> \<exists>bpg. h b = Some bpg \<and> page_previous bpg = None \<and> b \<in> ps"
    and "num_top_futures c = 0 \<Longrightarrow> cache_top c = cache_bottom c"
proof -
  have lq: "page_previous qpg = None" "page_next qpg = None" using lp qpg by (auto simp: loose_page_def)
  consider (none) "cache_bottom c = None" "cache_top c = None" "num_top_futures c = 0" "xs = []" "ps = {}"
    | (some) fulls t fs es where "cache_shape K h c fulls t fs es" "xs = concat (map snd fulls) @ fs"
        "ps = fst ` set fulls \<union> {t} \<union> set es"
    using sh unfolding cache_stack_def by (elim disjE conjE exE) blast+
  then have "cache_stack K h' c' (gs @ xs) (insert q ps) \<and> (p \<notin> insert q ps \<longrightarrow> h' p = h p) \<and>
     (cache_bottom c = Some b \<longrightarrow> (\<exists>bpg. h b = Some bpg \<and> page_previous bpg = None \<and> b \<in> ps)) \<and>
     (num_top_futures c = 0 \<longrightarrow> cache_top c = cache_bottom c)"
  proof cases
    case none
    have "h' = h" using none lq qpg unfolding h' by auto
    moreover have "cache_shape K h c' [] q gs []"
      using none lp gs unfolding c' by (auto simp: cache_shape_def loose_page_def dll_segment)
    ultimately show ?thesis using none by (auto intro: cache_stackI)
  next
    case some
    obtain b ys where b: "map fst fulls @ t # es = b # ys" by (cases fulls) auto
    have seg: "segment h None (b # ys) None" and dist: "distinct (b # ys)" and bot: "cache_bottom c = Some b"
      using some(1) b by (auto simp: cache_shape_def Let_def dll_segment)
    have "ps = set (map fst fulls @ t # es)" using some(3) by auto
    then have psl: "ps = set (b # ys)" unfolding b .
    obtain bpg where bpg: "h b = Some bpg" "page_previous bpg = None" using seg by auto
    have h'': "h' = h(q \<mapsto> qpg\<lparr>page_next := Some b\<rparr>, b \<mapsto> bpg\<lparr>page_previous := Some q\<rparr>)"
      using bot bpg unfolding h' by simp
    have same: "same_contents h h'" using qpg bpg unfolding h'' by (auto simp: same_contents_def)
    have ph: "page_holds K h' p gs = page_holds K h p gs" for p gs by (rule page_holds_same [OF same])
    have qb: "q \<notin> set (b # ys)" using new psl by simp
    have seg': "segment h' None (q # map fst fulls @ t # es) None" unfolding b h''
      using seg bpg lq qb dist by auto
    have top: "cache_top c = Some t" "num_top_futures c = length fs" using some(1) by (simp_all add: cache_shape_def)
    have "cache_stack K h' c' (gs @ xs) (insert q ps)"
    proof (cases "fs = []")
      case True
      then have fulls: "fulls = []" using some(1) by (simp add: cache_shape_def)
      have "cache_shape K h' c' [] q gs (t # es)"
        using some(1) True fulls seg' ph qb b lp gs top unfolding c' by (auto simp: cache_shape_def Let_def dll_segment loose_page_def)
      then show ?thesis by (rule cache_stackI) (use some fulls True in auto)
    next
      case False
      then have "length gs = K" using low top by simp
      then have "cache_shape K h' c' ((q, gs) # fulls) t fs es"
        using some(1) False seg' ph qb b lp gs top unfolding c' by (auto simp: cache_shape_def Let_def dll_segment loose_page_def hd_append)
      then show ?thesis by (rule cache_stackI) (use some in auto)
    qed
    moreover have "num_top_futures c = 0 \<longrightarrow> cache_top c = cache_bottom c"
      using some(1) top by (auto simp: cache_shape_def)
    ultimately show ?thesis using psl bot bpg unfolding h'' by auto
  qed
  then show "cache_stack K h' c' (gs @ xs) (insert q ps)" "p \<notin> insert q ps \<Longrightarrow> h' p = h p"
    "cache_bottom c = Some b \<Longrightarrow> \<exists>bpg. h b = Some bpg \<and> page_previous bpg = None \<and> b \<in> ps"
    "num_top_futures c = 0 \<Longrightarrow> cache_top c = cache_bottom c" by blast+
qed

text \<open>The pointers of a partial page go on top of those of a partial top page, if they fit.\<close>

lemma page_holds_merge:
  assumes t: "page_holds K h t fs" and q: "page_holds K h q gs" and "t \<noteq> q" and fit: "length fs + length gs \<le> K"
    and tpg: "h t = Some tpg" and qpg: "h q = Some qpg"
    and h': "h' = h(t \<mapsto> tpg\<lparr>page_futures := take (length fs) (page_futures tpg)
          @ take (length gs) (page_futures qpg) @ drop (length fs + length gs) (page_futures tpg)\<rparr>,
        q \<mapsto> qpg\<lparr>page_futures := replicate (length gs) None @ drop (length gs) (page_futures qpg)\<rparr>)"
  shows "page_holds K h' t (fs @ gs)" and "page_holds K h' q []"
proof -
  have k: "replicate (length gs) (None :: fid option) @ replicate (K - length gs) None = replicate K None"
    using fit by (simp flip: replicate_add)
  have j: "K - length fs - length gs = K - (length fs + length gs)" by simp
  show "page_holds K h' q []" "page_holds K h' t (fs @ gs)"
    using t q \<open>t \<noteq> q\<close> fit tpg qpg k j unfolding h' by (auto simp: page_holds_def)
qed

lemma insert_futures_stack:
  assumes st: "stack_in K (allocator w) r xs ps" and lp: "loose_page K (pages (allocator w)) q gs" and new: "q \<notin> ps"
    and gs: "gs \<noteq> []" and K: "page_capacity (page_size (allocator w)) = Inr K" "0 < K"
  defines "n \<equiv> num_top_futures (cache_of r (allocator w))"
  shows "wp (future_pointer_cache_insert_futures r q) (\<lambda>_ w'. (n = 0 \<or> length gs = K \<or> n + length gs \<le> K) \<and>
      (\<exists>a'. w' = w\<lparr>allocator := a'\<rparr> \<and> only_cache r (insert q ps) (allocator w) a' \<and>
        stack_in K a' r (if n = 0 \<or> length gs = K then gs @ xs else xs @ gs) (insert q ps)))
    (\<lambda>e. e = AssertFailed \<and> 0 < n \<and> length gs < K \<and> K < n + length gs) w"
proof -
  let ?a = "allocator w" and ?c = "cache_of r (allocator w)"
  let ?h = "pages ?a"
  obtain qpg where qpg: "?h q = Some qpg" "page_previous qpg = None" "page_next qpg = None"
    "page_futures qpg = map Some gs @ replicate (K - length gs) None" and le: "length gs \<le> K"
    using lp by (auto simp: loose_page_def page_holds_def)
  have ph: "page_holds K ?h q gs" using lp by (simp add: loose_page_def)
  show ?thesis
  proof (cases "n = 0 \<or> length gs = K")
    case True
    define h' where "h' = (case cache_bottom ?c of None \<Rightarrow> ?h(q \<mapsto> qpg\<lparr>page_next := None\<rparr>)
       | Some b \<Rightarrow> ?h(q \<mapsto> qpg\<lparr>page_next := Some b\<rparr>, b \<mapsto> (the (?h b))\<lparr>page_previous := Some q\<rparr>))"
    define c' where "c' = (if n = 0 then ?c\<lparr>cache_top := Some q, num_top_futures := length gs, cache_bottom := Some q\<rparr>
       else ?c\<lparr>cache_bottom := Some q\<rparr>)"
    note link = link_below [OF st lp new gs True [unfolded n_def] qpg(1) h'_def c'_def [unfolded n_def]]
    have bq: "cache_bottom ?c \<noteq> Some q" using link(3) new by blast
    have "wp (future_pointer_cache_insert_futures r q) (\<lambda>_ w'. w' = w\<lparr>allocator := with_cache r c' (?a\<lparr>pages := h'\<rparr>)\<rparr>) (\<lambda>_. False) w"
      using True link(3,4) qpg gs bq
      by (cases "cache_bottom ?c"; cases "n = 0")
         (auto simp: future_pointer_cache_insert_futures_def wp_simps wp_occupancy [OF ph K] wp_capacity [OF K(1)] h'_def c'_def n_def Suc_le_eq Let_def)
    moreover have "only_cache r (insert q ps) ?a (with_cache r c' (?a\<lparr>pages := h'\<rparr>))" by (rule only_cacheI) (rule link(2))
    ultimately show ?thesis using link(1) True by (auto elim!: wp_mono)
  next
    case False
    then obtain fulls t fs es where sh: "cache_shape K ?h ?c fulls t fs es"
      and xs: "xs = concat (map snd fulls) @ fs" and ps: "ps = fst ` set fulls \<union> {t} \<union> set es"
      using st by (auto simp: cache_stack_def n_def)
    have top: "cache_top ?c = Some t" "n = length fs" "page_holds K ?h t fs" using sh by (simp_all add: cache_shape_def n_def)
    have tq: "t \<noteq> q" using ps new by auto
    obtain tpg where tpg: "?h t = Some tpg" "length (page_futures tpg) = K" using cache_shape_top [OF sh] by metis
    have n: "n \<le> K" using top by (simp add: page_holds_def)
    show ?thesis
    proof (cases "n + length gs \<le> K")
      case fit: True
      define h' where "h' = ?h(t \<mapsto> tpg\<lparr>page_futures := take (length fs) (page_futures tpg)
          @ take (length gs) (page_futures qpg) @ drop (length fs + length gs) (page_futures tpg)\<rparr>,
        q \<mapsto> qpg\<lparr>page_futures := replicate (length gs) None @ drop (length gs) (page_futures qpg)\<rparr>)"
      let ?c' = "?c\<lparr>num_top_futures := n + length gs\<rparr>"
      let ?a' = "with_cache r ?c' (?a\<lparr>pages := h'\<rparr>)"
      note merge = page_holds_merge [OF top(3) ph tq fit [unfolded top(2)] tpg(1) qpg(1) h'_def]
      have segs: "segment h' prev ss nxt = segment ?h prev ss nxt" for prev ss nxt
        unfolding h'_def using tpg qpg tq by (induction ss arbitrary: prev) auto
      have frame: "page_holds K h' p zs = page_holds K ?h p zs" if "p \<noteq> t" "p \<noteq> q" for p zs
        using that unfolding h'_def by (simp add: page_holds_def)
      have dist: "distinct (map fst fulls @ t # es)" using sh by (simp add: cache_shape_def Let_def)
      have fulls: "\<forall>(p, zs) \<in> set fulls. page_holds K h' p zs \<and> length zs = K"
      proof -
        have "p \<noteq> t \<and> p \<noteq> q" if "(p, zs) \<in> set fulls" for p zs using that dist new ps by force
        then show ?thesis using sh frame unfolding cache_shape_def by fastforce
      qed
      have empties: "\<forall>p \<in> set es. page_holds K h' p []"
      proof
        fix p
        assume p: "p \<in> set es"
        then have "p \<noteq> t" "p \<noteq> q" using dist new ps by auto
        then show "page_holds K h' p []" using frame p sh by (simp add: cache_shape_def)
      qed
      have "cache_shape K h' ?c' fulls t (fs @ gs) es"
        using sh fulls empties merge(1) segs gs top(2) by (auto simp: cache_shape_def Let_def dll_segment)
      then have stk: "stack_in K ?a' r (xs @ gs) ps" using xs ps by (auto intro!: cache_stackI)
      have lp': "loose_page K (pages ?a') q []" using merge(2) lp segs [of None "[q]" None] unfolding loose_page_def by simp
      have eq: "wp (future_pointer_cache_insert_futures r q) Q E w \<longleftrightarrow> wp (future_pointer_cache_insert_empty r q) Q E (w\<lparr>allocator := ?a'\<rparr>)" for Q E
        using False fit top(1,2) qpg gs tpg le tq
        by (auto simp: future_pointer_cache_insert_futures_def move_pointers_def wp_simps wp_occupancy [OF ph K] wp_capacity [OF K(1)]
              h'_def n_def Suc_le_eq Let_def)
      show ?thesis unfolding eq
      proof (rule wp_mono [OF insert_empty_stack [of K "w\<lparr>allocator := ?a'\<rparr>" r "xs @ gs" ps q]], goal_cases)
        case 1 then show ?case using stk by simp
        case 2 then show ?case using lp' by simp
        case 3 then show ?case by (rule new)
        case 4 then show ?case by (rule K(2))
        case (5 u w')
        then obtain a' where a': "w' = w\<lparr>allocator := a'\<rparr>" "only_cache r (insert q ps) ?a' a'" "stack_in K a' r (xs @ gs) (insert q ps)"
          by auto
        have "h' p = ?h p" if "p \<notin> insert q ps" for p using that ps unfolding h'_def by auto
        then have "only_cache r (insert q ps) ?a ?a'" by (rule only_cacheI)
        from only_cache_trans [OF this a'(2)] have "only_cache r (insert q ps) ?a a'" by simp
        then show ?case using a' False fit by auto
      qed simp
    next
      case nofit: False
      have "wp (future_pointer_cache_insert_futures r q) (\<lambda>_ _. False) (\<lambda>e. e = AssertFailed) w"
        using False nofit top(1,2) qpg gs tpg le tq n
        by (auto simp: future_pointer_cache_insert_futures_def move_pointers_def wp_simps wp_occupancy [OF ph K] wp_capacity [OF K(1)]
              n_def Suc_le_eq Let_def)
      then show ?thesis using False nofit le by (auto elim!: wp_mono)
    qed
  qed
qed

lemma wp_put_cache_eta: "wp (put_cache r c) Q E = (\<lambda>w. Q () (w\<lparr>allocator := with_cache r c (allocator w)\<rparr>))"
  by (rule ext) (rule wp_put_cache)

section \<open>Filling, emptying and destroying a cache\<close>

lemma refill_slots_effect:
  assumes "pages (allocator w) t = Some pg" and "i + length L \<le> length (page_futures pg)"
  shows "wp (refill_slots t i L) (\<lambda>_ w'. w' = w\<lparr>allocator := (allocator w)\<lparr>pages := (pages (allocator w))(t \<mapsto>
      pg\<lparr>page_futures := take i (page_futures pg) @ map Some L @ drop (i + length L) (page_futures pg)\<rparr>)\<rparr>\<rparr>) (\<lambda>_. False) w"
  using assms
proof (induction L arbitrary: w pg i)
  case Nil
  then have "w\<lparr>allocator := (allocator w)\<lparr>pages := (pages (allocator w))(t \<mapsto> pg)\<rparr>\<rparr> = w" by (simp add: map_upd_triv)
  then show ?case by (simp add: wp_simps del: fun_upd_apply)
next
  case (Cons f L)
  let ?pg = "pg\<lparr>page_futures := (page_futures pg)[i := Some f]\<rparr>"
  let ?w = "w\<lparr>allocator := (allocator w)\<lparr>pages := (pages (allocator w))(t \<mapsto> ?pg)\<rparr>\<rparr>"
  have i: "i < length (page_futures pg)" using Cons.prems by simp
  have "take (Suc i) ((page_futures pg)[i := Some f]) @ map Some L @ drop (Suc i + length L) ((page_futures pg)[i := Some f])
      = take i (page_futures pg) @ map Some (f # L) @ drop (i + length (f # L)) (page_futures pg)"
    using i by (simp add: take_Suc_conv_app_nth drop_update_cancel)
  moreover have "wp (refill_slots t (Suc i) L) (\<lambda>_ w'. w' = ?w\<lparr>allocator := (allocator ?w)\<lparr>pages := (pages (allocator ?w))(t \<mapsto>
      ?pg\<lparr>page_futures := take (Suc i) (page_futures ?pg) @ map Some L @ drop (Suc i + length L) (page_futures ?pg)\<rparr>)\<rparr>\<rparr>) (\<lambda>_. False) ?w"
    by (rule Cons.IH) (use Cons.prems in auto)
  ultimately show ?case using i Cons.prems(1) by (simp add: wp_simps del: fun_upd_apply)
qed

lemma refill_local_stack:
  assumes st: "stack_in K (allocator w) r [] ps" and ps: "ps \<noteq> {}" and L: "L \<noteq> []" "length L \<le> K"
    and K: "page_capacity (page_size (allocator w)) = Inr K" "0 < K"
  shows "wp (future_pointer_cache_refill_local r L) (\<lambda>_ w'. \<exists>a'. w' = w\<lparr>allocator := a'\<rparr> \<and>
      only_cache r ps (allocator w) a' \<and> stack_in K a' r L ps) (\<lambda>_. False) w"
proof -
  let ?a = "allocator w" and ?c = "cache_of r (allocator w)"
  let ?h = "pages ?a"
  obtain fulls t fs es where sh0: "cache_shape K ?h ?c fulls t fs es" and x: "[] = concat (map snd fulls) @ fs"
    and ps0: "ps = fst ` set fulls \<union> {t} \<union> set es"
    using st ps by (auto simp: cache_stack_def)
  then have fs: "fs = []" "fulls = []" using sh0 by (auto simp: cache_shape_def)
  have sh: "cache_shape K ?h ?c [] t [] es" using sh0 fs by simp
  obtain pg where pg: "?h t = Some pg" "length (page_futures pg) = K" using cache_shape_top [OF sh] by metis
  have empty_pg: "page_futures pg = replicate K None" using sh pg by (auto simp: cache_shape_def page_holds_def)
  let ?h' = "?h(t \<mapsto> pg\<lparr>page_futures := map Some L @ drop (length L) (page_futures pg)\<rparr>)"
    and ?c' = "?c\<lparr>num_top_futures := length L\<rparr>"
  have "dll ?h' None (t # es)" using sh dll_contents [of ?h t, OF pg(1)] by (simp add: cache_shape_def del: dll.simps)
  moreover have "page_holds K ?h' t L" using L empty_pg by (simp add: page_holds_def)
  moreover have "\<forall>p \<in> set es. page_holds K ?h' p []"
    by (rule empties_frame) (use sh in \<open>simp_all add: cache_shape_def\<close>)
  ultimately have "cache_shape K ?h' ?c' [] t L es" using sh by (simp add: cache_shape_def Let_def del: dll.simps)
  then have "cache_stack K ?h' ?c' L ps" using ps0 fs by (auto intro!: cache_stackI)
  moreover have "only_cache r ps ?a (with_cache r ?c' (?a\<lparr>pages := ?h'\<rparr>))" by (rule only_cacheI) (use ps0 in auto)
  moreover have "wp (future_pointer_cache_refill_local r L) (\<lambda>_ w'. w' = w\<lparr>allocator := with_cache r ?c' (?a\<lparr>pages := ?h'\<rparr>)\<rparr>) (\<lambda>_. False) w"
  proof -
    have top: "cache_top ?c = Some t" "num_top_futures ?c = 0" using sh by (simp_all add: cache_shape_def)
    have eq: "wp (future_pointer_cache_refill_local r L) Q E w \<longleftrightarrow>
        wp (refill_slots t 0 L) (\<lambda>_ w'. Q () (w'\<lparr>allocator := with_cache r ?c' (allocator w')\<rparr>)) E w" for Q E
      using top L by (simp add: future_pointer_cache_refill_local_def wp_simps wp_put_cache_eta wp_capacity [OF K(1)])
    show ?thesis unfolding eq
      by (rule wp_mono [OF refill_slots_effect [of w t pg 0 L]]) (use pg L in auto)
  qed
  ultimately show ?thesis by (auto elim!: wp_mono)
qed

definition without_pages :: "pid set \<Rightarrow> (pid \<Rightarrow> pointer_page option) \<Rightarrow> pid \<Rightarrow> pointer_page option" where
  "without_pages ps h p = (if p \<in> ps then None else h p)"

lemma without_pages_simps [simp]:
  "without_pages {} h = h"
  "without_pages ps (h(p := None)) = without_pages (insert p ps) h"
  by (auto simp: without_pages_def)

lemma free_pages_effect:
  assumes "segment (pages (allocator w)) prev ps None" and "distinct ps" and "length ps \<le> fuel"
  shows "wp (free_pages fuel (if ps = [] then None else Some (hd ps))) (\<lambda>_ w'. w' = w\<lparr>allocator := (allocator w)\<lparr>pages :=
      without_pages (set ps) (pages (allocator w))\<rparr>\<rparr>) (\<lambda>_. False) w"
  using assms
proof (induction ps arbitrary: w prev fuel)
  case Nil
  then show ?case by (simp add: wp_simps)
next
  case (Cons p ps)
  obtain n where fuel: "fuel = Suc n" "length ps \<le> n" using Cons.prems(3) by (cases fuel) auto
  let ?h = "pages (allocator w)"
  let ?w = "w\<lparr>allocator := (allocator w)\<lparr>pages := ?h(p := None)\<rparr>\<rparr>"
  obtain pg where pg: "?h p = Some pg" "page_next pg = (if ps = [] then None else Some (hd ps))"
    using Cons.prems(1) by auto
  have "wp (free_pages n (if ps = [] then None else Some (hd ps))) (\<lambda>_ w'. w' = ?w\<lparr>allocator := (allocator ?w)\<lparr>pages :=
      without_pages (set ps) (pages (allocator ?w))\<rparr>\<rparr>) (\<lambda>_. False) ?w"
    by (rule Cons.IH [where prev = "Some p"]) (use Cons.prems fuel in \<open>auto simp del: fun_upd_apply\<close>)
  then show ?case using pg by (simp add: fuel(1) wp_simps del: fun_upd_apply)
qed

lemma finalize_stack:
  assumes st: "stack_in K (allocator w) r xs ps" and fuel: "card ps \<le> fuel"
  shows "wp (future_pointer_cache_finalize fuel r) (\<lambda>_ w'. w' = w\<lparr>allocator :=
      with_cache r \<lparr>cache_bottom = None, cache_top = None, num_top_futures = 0\<rparr> ((allocator w)\<lparr>pages :=
        without_pages ps (pages (allocator w))\<rparr>)\<rparr>) (\<lambda>_. False) w"
proof -
  let ?a = "allocator w" and ?c = "cache_of r (allocator w)"
  obtain ls where ls: "segment (pages ?a) None ls None" "distinct ls" "ps = set ls"
    "cache_bottom ?c = (if ls = [] then None else Some (hd ls))"
  proof (cases "cache_bottom ?c")
    case None
    then have "ps = {}" using st by (auto simp: cache_stack_def cache_shape_def Let_def)
    then show ?thesis using that [of "[]"] None by simp
  next
    case (Some b)
    then obtain fulls t fs es where "cache_shape K (pages ?a) ?c fulls t fs es" "ps = fst ` set fulls \<union> {t} \<union> set es"
      using st unfolding cache_stack_def by auto
    then show ?thesis using that [of "map fst fulls @ t # es"] by (simp add: cache_shape_def Let_def dll_segment)
  qed
  have len: "length ls \<le> fuel" using fuel ls by (simp add: distinct_card)
  have first: "\<exists>pg. pages ?a (hd ls) = Some pg \<and> page_previous pg = None" if "ls \<noteq> []"
    using ls(1) that by (cases ls) auto
  have eq: "wp (future_pointer_cache_finalize fuel r) Q E w \<longleftrightarrow> wp (free_pages fuel (if ls = [] then None else Some (hd ls)))
     (\<lambda>_ w'. Q () (w'\<lparr>allocator := with_cache r \<lparr>cache_bottom = None, cache_top = None, num_top_futures = 0\<rparr> (allocator w')\<rparr>)) E w" for Q E
    using ls(4) first by (auto simp: future_pointer_cache_finalize_def wp_simps wp_put_cache_eta)
  show ?thesis unfolding eq
    by (rule wp_mono [OF free_pages_effect [OF ls(1,2) len]]) (simp_all add: ls(3))
qed

end
