(* ===== verification/CachePair.thy ===== *)
theory CachePair
  imports PageTransfer "HOL-Library.Multiset"
begin

text \<open>
  The thread-local and the context-global cache side by side in one heap of pages: moving a page of
  futures from one to the other, and \<open>future_pointer_cache_spill\<close>, which empties a cache into
  another one when its thread ends.
\<close>

section \<open>Both caches of the running thread\<close>

text \<open>How many futures are on the top page of a cache that holds \<open>len\<close> futures.\<close>

definition top_count :: "nat \<Rightarrow> nat \<Rightarrow> nat" where
  "top_count K len = (if len = 0 then 0 else (len - 1) mod K + 1)"

lemma top_count_stack:
  assumes "cache_stack K h c xs ps" and "0 < K"
  shows "num_top_futures c = top_count K (length xs)"
proof (cases "cache_top c")
  case None
  then show ?thesis using assms(1) by (auto simp: cache_stack_def cache_shape_def top_count_def)
next
  case (Some t)
  then obtain fulls t fs es where sh: "cache_shape K h c fulls t fs es" and xs: "xs = concat (map snd fulls) @ fs"
    and ps: "ps = fst ` set fulls \<union> {t} \<union> set es"
    using assms(1) unfolding cache_stack_def by auto
  note sizes = cache_stack_size [OF sh xs ps]
  have n: "num_top_futures c = length fs" "fs = [] \<longrightarrow> fulls = []" using sh by (auto simp: cache_shape_def)
  show ?thesis
  proof (cases "fs = []")
    case False
    then have "length fs - 1 < K" using sizes(3) by (cases fs) auto
    then show ?thesis using False n unfolding sizes(1) by (cases fs) (auto simp: top_count_def)
  qed (use n xs in \<open>auto simp: top_count_def\<close>)
qed

lemma cache_top_None: "cache_stack K h c xs ps \<Longrightarrow> cache_top c = None \<longleftrightarrow> ps = {}"
  by (auto simp: cache_stack_def cache_shape_def)

lemma cache_stack_empty: "cache_stack K h c xs {} \<Longrightarrow>
    xs = [] \<and> c = \<lparr>cache_bottom = None, cache_top = None, num_top_futures = 0\<rparr>"
  by (cases c) (auto simp: cache_stack_def)

lemma cache_stack_finite: "cache_stack K h c xs ps \<Longrightarrow> finite ps"
  by (auto simp: cache_stack_def)

lemma only_cache_frame:
  assumes "only_cache r ps a a'" and "stack_in K a r' xs qs" and "r' \<noteq> r" and "ps \<inter> qs = {}"
  shows "stack_in K a' r' xs qs"
proof -
  obtain c h where a': "a' = with_cache r c (a\<lparr>pages := h\<rparr>)" "\<forall>p. p \<notin> ps \<longrightarrow> h p = pages a p"
    using assms(1) unfolding only_cache_def by blast
  have "cache_stack K h (cache_of r' a) xs qs" by (rule cache_stack_cong [OF assms(2)]) (use a' assms(4) in blast)
  then show ?thesis using a' assms(3) by simp
qed

lemma loose_page_frame: "only_cache r ps a a' \<Longrightarrow> q \<notin> ps \<Longrightarrow> loose_page K (pages a) q gs \<Longrightarrow> loose_page K (pages a') q gs"
proof -
  assume "only_cache r ps a a'" "q \<notin> ps" and l: "loose_page K (pages a) q gs"
  then have "pages a' q = pages a q" unfolding only_cache_def by auto
  then show ?thesis using loose_page_cong [of "pages a'" q "pages a" K gs] l by blast
qed

text \<open>What an operation on both caches may change: the caches and the pages, nothing else.\<close>

definition only_caches :: "pid set \<Rightarrow> allocator_state \<Rightarrow> allocator_state \<Rightarrow> bool" where
  "only_caches ps a a' \<longleftrightarrow> (\<exists>l g h. a' = a\<lparr>local_futures := l, global_futures := g, pages := h\<rparr> \<and>
     (\<forall>p. p \<notin> ps \<longrightarrow> h p = pages a p))"

lemma only_caches_single: "only_cache r ps a a' \<Longrightarrow> ps \<subseteq> qs \<Longrightarrow> only_caches qs a a'"
proof -
  assume "only_cache r ps a a'" "ps \<subseteq> qs"
  then obtain c h where "a' = with_cache r c (a\<lparr>pages := h\<rparr>)" "\<forall>p. p \<notin> qs \<longrightarrow> h p = pages a p"
    unfolding only_cache_def by blast
  then show ?thesis unfolding only_caches_def
    by (intro exI [of _ "local_futures a'"] exI [of _ "global_futures a'"] exI [of _ h]) (cases r; simp)
qed

lemma only_caches_refl [simp]: "only_caches ps a a"
  unfolding only_caches_def by (intro exI [of _ "local_futures a"] exI [of _ "global_futures a"] exI [of _ "pages a"]) simp

lemma only_caches_trans:
  assumes "only_caches ps a b" and "only_caches ps b c"
  shows "only_caches ps a c"
proof -
  obtain l g h l' g' h' where "b = a\<lparr>local_futures := l, global_futures := g, pages := h\<rparr>" "\<forall>p. p \<notin> ps \<longrightarrow> h p = pages a p"
    "c = b\<lparr>local_futures := l', global_futures := g', pages := h'\<rparr>" "\<forall>p. p \<notin> ps \<longrightarrow> h' p = pages b p"
    using assms unfolding only_caches_def by blast
  then show ?thesis unfolding only_caches_def
    by (intro exI [of _ l'] exI [of _ g'] exI [of _ h']) simp
qed

lemma only_caches_page_size: "only_caches ps a a' \<Longrightarrow> page_size a' = page_size a"
  unfolding only_caches_def by auto

lemma only_caches_mono: "only_caches ps a a' \<Longrightarrow> ps \<subseteq> qs \<Longrightarrow> only_caches qs a a'"
  unfolding only_caches_def by blast

text \<open>One page of futures goes from a cache to the other.\<close>

lemma move_futures_page:
  assumes l: "stack_in K (allocator w) l xs ps" and g: "stack_in K (allocator w) g ys qs" and lg: "l \<noteq> g"
    and disj: "ps \<inter> qs = {}" and K: "page_capacity (page_size (allocator w)) = Inr K" and xs: "xs \<noteq> []"
  defines "n \<equiv> top_count K (length ys)"
  shows "wp (bindM (future_pointer_cache_extract_futures l) (\<lambda>futures. bindM (derefM futures) (future_pointer_cache_insert_futures g)))
    (\<lambda>_ w'. \<exists>a' p gs zs. w' = w\<lparr>allocator := a'\<rparr> \<and> only_caches (ps \<union> qs) (allocator w) a' \<and> p \<in> ps \<and> gs \<noteq> [] \<and>
       xs = gs @ zs \<and> (zs = [] \<or> length gs = K) \<and> length gs \<le> K \<and> (n = 0 \<or> length gs = K \<or> n + length gs \<le> K) \<and>
       stack_in K a' l zs (ps - {p}) \<and>
       stack_in K a' g (if n = 0 \<or> length gs = K then gs @ ys else ys @ gs) (insert p qs))
    (\<lambda>e. e = AssertFailed \<and> (\<exists>gs zs. xs = gs @ zs \<and> zs = [] \<and> 0 < n \<and> length gs < K \<and> K < n + length gs)) w"
proof -
  have K0: "0 < K" by (rule page_capacity_pos [OF K])
  show ?thesis unfolding wp_bind
  proof (rule wp_mono [OF extract_futures_stack [OF l K0]], goal_cases)
    case (1 q w1)
    then obtain p a1 gs zs where q: "q = Some p" and w1: "w1 = w\<lparr>allocator := a1\<rparr>" and o1: "only_cache l ps (allocator w) a1"
      and p: "p \<in> ps" "gs \<noteq> []" "loose_page K (pages a1) p gs" "xs = gs @ zs" "zs = [] \<or> length gs = K"
      and l1: "stack_in K a1 l zs (ps - {p})"
      using xs by (auto split: option.splits)
    have g1: "stack_in K a1 g ys qs" by (rule only_cache_frame [OF o1 g]) (use lg disj in auto)
    have pq: "p \<notin> qs" using p disj by auto
    have K1: "page_capacity (page_size a1) = Inr K" using K only_cache_page_size [OF o1] by simp
    have n: "num_top_futures (cache_of g a1) = n" using top_count_stack [OF g1 K0] by (simp add: n_def)
    have le: "length gs \<le> K" using p(3) by (simp add: loose_page_def page_holds_def)
    have "wp (future_pointer_cache_insert_futures g p) (\<lambda>_ w'. (n = 0 \<or> length gs = K \<or> n + length gs \<le> K) \<and>
      (\<exists>a'. w' = w\<lparr>allocator := a'\<rparr> \<and> only_cache g (insert p qs) a1 a' \<and>
        stack_in K a' g (if n = 0 \<or> length gs = K then gs @ ys else ys @ gs) (insert p qs)))
      (\<lambda>e. e = AssertFailed \<and> 0 < n \<and> length gs < K \<and> K < n + length gs) w1"
      using insert_futures_stack [of K w1 g ys qs p gs] g1 p(2,3) pq K1 K0 n w1 by simp
    then show ?case unfolding q wp_deref option.case
    proof (rule wp_mono, goal_cases)
      case (1 u w')
      then obtain a' where w': "w' = w\<lparr>allocator := a'\<rparr>" and o2: "only_cache g (insert p qs) a1 a'"
        and g2: "stack_in K a' g (if n = 0 \<or> length gs = K then gs @ ys else ys @ gs) (insert p qs)"
        and cond: "n = 0 \<or> length gs = K \<or> n + length gs \<le> K" by blast
      have "stack_in K a' l zs (ps - {p})" by (rule only_cache_frame [OF o2 l1]) (use lg disj in auto)
      moreover have "only_caches (ps \<union> qs) (allocator w) a'"
        by (rule only_caches_trans [of _ _ a1]) (auto intro: only_caches_single [OF o1] only_caches_single [OF o2] p)
      ultimately show ?case using w' g2 cond p le by blast
    next
      case (2 e)
      then show ?case using p by auto
    qed
  qed simp
qed

text \<open>When everything of a cache with \<open>len\<close> futures can be spilled into a cache that has \<open>n\<close> futures on
  its top page: the last page must be full, or fit on the top page.\<close>

definition spill_room :: "nat \<Rightarrow> nat \<Rightarrow> nat \<Rightarrow> bool" where
  "spill_room K n len \<longleftrightarrow> len mod K = 0 \<or> (if n = 0 then len < K else n + len mod K \<le> K)"

lemma spill_futures_stack:
  assumes "stack_in K (allocator w) l xs ps" and "stack_in K (allocator w) g ys qs" and lg: "l \<noteq> g"
    and "ps \<inter> qs = {}" and "page_capacity (page_size (allocator w)) = Inr K" and "length xs < fuel"
  shows "wp (spill_futures fuel l g) (\<lambda>_ w'. spill_room K (top_count K (length ys)) (length xs) \<and>
     (\<exists>a' zs ps' qs'. w' = w\<lparr>allocator := a'\<rparr> \<and> only_caches (ps \<union> qs) (allocator w) a' \<and> mset zs = mset xs + mset ys \<and>
       stack_in K a' l [] ps' \<and> stack_in K a' g zs qs' \<and> ps' \<union> qs' = ps \<union> qs \<and> ps' \<inter> qs' = {} \<and> ps' \<subseteq> ps))
    (\<lambda>e. e = AssertFailed \<and> \<not> spill_room K (top_count K (length ys)) (length xs)) w"
  using assms
proof (induction fuel arbitrary: w xs ys ps qs)
  case (Suc fuel)
  note K = Suc.prems(5)
  have K0: "0 < K" by (rule page_capacity_pos [OF K])
  have num: "num_top_futures (cache_of l (allocator w)) = top_count K (length xs)"
    by (rule top_count_stack [OF Suc.prems(1) K0])
  show ?case
  proof (cases "xs = []")
    case True
    then show ?thesis using num Suc.prems
      by (auto simp: wp_simps top_count_def spill_room_def intro!: exI [of _ "allocator w"] exI [of _ ys])
  next
    case False
    let ?n = "top_count K (length ys)"
    have eq: "wp (spill_futures (Suc fuel) l g) Q E w \<longleftrightarrow>
        wp (bindM (future_pointer_cache_extract_futures l) (\<lambda>futures. bindM (derefM futures) (future_pointer_cache_insert_futures g)))
           (\<lambda>_. wp (spill_futures fuel l g) Q E) E w" for Q E
      using False num by (simp add: wp_simps wp_eta top_count_def)
    show ?thesis unfolding eq
    proof (rule wp_mono [OF move_futures_page [OF Suc.prems(1,2) lg Suc.prems(4) K False]], goal_cases)
      case (1 u w1)
      then obtain a1 p gs zs where w1: "w1 = w\<lparr>allocator := a1\<rparr>" and o1: "only_caches (ps \<union> qs) (allocator w) a1"
        and p: "p \<in> ps" "gs \<noteq> []" "xs = gs @ zs" "zs = [] \<or> length gs = K" "length gs \<le> K"
        and ok: "?n = 0 \<or> length gs = K \<or> ?n + length gs \<le> K" and l1: "stack_in K a1 l zs (ps - {p})"
        and g1: "stack_in K a1 g (if ?n = 0 \<or> length gs = K then gs @ ys else ys @ gs) (insert p qs)"
        by blast
      let ?ys = "if ?n = 0 \<or> length gs = K then gs @ ys else ys @ gs"
      have room: "spill_room K (top_count K (length ?ys)) (length zs) = spill_room K ?n (length xs)"
      proof (cases "zs = []")
        case True
        then show ?thesis using p(3,5) ok K0 by (cases "length gs = K") (auto simp: spill_room_def)
      next
        case False
        then have len: "length gs = K" using p(4) by simp
        have "top_count K (length ?ys) = (if ?n = 0 then K else ?n)"
        proof (cases "ys = []")
          case True
          then show ?thesis using len K0 by (simp add: top_count_def)
        next
          case False
          then obtain m where "length ys = Suc m" by (cases ys) auto
          then show ?thesis using len by (simp add: top_count_def)
        qed
        then show ?thesis using p(3) len K0 by (auto simp: spill_room_def)
      qed
      have ms: "mset ?ys + mset zs = mset xs + mset ys" using p(3) by (auto simp: ac_simps)
      have "wp (spill_futures fuel l g) (\<lambda>_ w'. spill_room K (top_count K (length ?ys)) (length zs) \<and>
        (\<exists>a' us ps' qs'. w' = w1\<lparr>allocator := a'\<rparr> \<and> only_caches ((ps - {p}) \<union> insert p qs) (allocator w1) a' \<and> mset us = mset zs + mset ?ys \<and>
          stack_in K a' l [] ps' \<and> stack_in K a' g us qs' \<and> ps' \<union> qs' = (ps - {p}) \<union> insert p qs \<and> ps' \<inter> qs' = {} \<and> ps' \<subseteq> ps - {p}))
        (\<lambda>e. e = AssertFailed \<and> \<not> spill_room K (top_count K (length ?ys)) (length zs)) w1"
      proof (rule Suc.IH)
        show "length zs < fuel" using p(2,3) Suc.prems(6) by (cases gs) auto
        show "page_capacity (page_size (allocator w1)) = Inr K" using K only_caches_page_size [OF o1] w1 by simp
      qed (use l1 g1 w1 lg Suc.prems(4) in auto)
      moreover have un: "(ps - {p}) \<union> insert p qs = ps \<union> qs" using p(1) by auto
      ultimately show ?case unfolding room un
      proof (elim wp_mono, goal_cases)
        case (1 v w')
        then obtain a' us ps' qs' where "w' = w1\<lparr>allocator := a'\<rparr>" "only_caches (ps \<union> qs) (allocator w1) a'"
          "mset us = mset zs + mset ?ys" "stack_in K a' l [] ps'" "stack_in K a' g us qs'" "ps' \<union> qs' = ps \<union> qs" "ps' \<inter> qs' = {}" "ps' \<subseteq> ps - {p}"
          "spill_room K ?n (length xs)"
          by blast
        moreover from this have "only_caches (ps \<union> qs) (allocator w) a'" using only_caches_trans [OF o1] w1 by simp
        moreover have "mset us = mset xs + mset ys" using calculation ms by (simp add: ac_simps)
        moreover have "w' = w\<lparr>allocator := a'\<rparr>" "ps' \<subseteq> ps" using calculation(1,8) w1 by auto
        ultimately show ?case by blast
      qed simp
    next
      case (2 e)
      then show ?case using K0 False by (auto simp: spill_room_def)
    qed
  qed
qed simp


lemma spill_empty_stack:
  assumes "stack_in K (allocator w) l [] ps" and "stack_in K (allocator w) g ys qs" and lg: "l \<noteq> g"
    and "ps \<inter> qs = {}" and "page_capacity (page_size (allocator w)) = Inr K" and "card ps < fuel"
  shows "wp (spill_empty fuel l g) (\<lambda>_ w'. \<exists>a'. w' = w\<lparr>allocator := a'\<rparr> \<and> only_caches (ps \<union> qs) (allocator w) a' \<and>
       stack_in K a' l [] {} \<and> stack_in K a' g ys (ps \<union> qs)) (\<lambda>_. False) w"
  using assms
proof (induction fuel arbitrary: w ps qs)
  case (Suc fuel)
  note K = Suc.prems(5)
  have K0: "0 < K" by (rule page_capacity_pos [OF K])
  show ?case
  proof (cases "ps = {}")
    case True
    then show ?thesis using cache_top_None [OF Suc.prems(1)] Suc.prems
      by (auto simp: wp_simps intro!: exI [of _ "allocator w"])
  next
    case False
    have fin: "finite ps" by (rule cache_stack_finite [OF Suc.prems(1)])
    have room: "\<not> card ps * K < length ([] :: fid list) + K"
    proof -
      have "1 \<le> card ps" using False fin by (simp add: Suc_le_eq card_gt_0_iff)
      then show ?thesis using mult_le_mono1 [of 1 "card ps" K] by simp
    qed
    have eq: "wp (spill_empty (Suc fuel) l g) Q E w \<longleftrightarrow> wp (future_pointer_cache_obtain_empty l)
        (\<lambda>p. wp (future_pointer_cache_insert_empty g p) (\<lambda>_. wp (spill_empty fuel l g) Q E) E) E w" for Q E
      using False cache_top_None [OF Suc.prems(1)] by (simp add: wp_simps wp_eta)
    show ?thesis unfolding eq
    proof (rule wp_mono [OF obtain_empty_stack [OF Suc.prems(1) K K0]], goal_cases)
      case (1 p w1)
      then obtain a1 where o1: "only_cache l ps (allocator w) a1" and p: "loose_page K (pages a1) p []" "p \<in> ps"
        and l1: "stack_in K a1 l [] (ps - {p})" and w1: "w1 = w\<lparr>allocator := a1\<rparr>"
        using room by (auto simp: insert_absorb)
      have g1: "stack_in K a1 g ys qs" by (rule only_cache_frame [OF o1 Suc.prems(2)]) (use lg Suc.prems(4) in auto)
      have pq: "p \<notin> qs" using p Suc.prems(4) by auto
      show ?case
      proof (rule wp_mono [OF insert_empty_stack [of K w1 g ys qs p]], goal_cases)
        case (5 u w2)
        then obtain a2 where w2: "w2 = w\<lparr>allocator := a2\<rparr>" and o2: "only_cache g (insert p qs) a1 a2"
          and g2: "stack_in K a2 g ys (insert p qs)" using w1 by auto
        have l2: "stack_in K a2 l [] (ps - {p})" by (rule only_cache_frame [OF o2 l1]) (use lg Suc.prems(4) in auto)
        have o: "only_caches (ps \<union> qs) (allocator w) a2"
          by (rule only_caches_trans [of _ _ a1]) (auto intro: only_caches_single [OF o1] only_caches_single [OF o2] p)
        have un: "(ps - {p}) \<union> insert p qs = ps \<union> qs" using p(2) by auto
        have "wp (spill_empty fuel l g) (\<lambda>_ w'. \<exists>a'. w' = w2\<lparr>allocator := a'\<rparr> \<and> only_caches ((ps - {p}) \<union> insert p qs) (allocator w2) a' \<and>
           stack_in K a' l [] {} \<and> stack_in K a' g ys ((ps - {p}) \<union> insert p qs)) (\<lambda>_. False) w2"
        proof (rule Suc.IH)
          show "card (ps - {p}) < fuel" using Suc.prems(6) card_Diff1_less [OF fin p(2)] by linarith
          show "page_capacity (page_size (allocator w2)) = Inr K" using K only_caches_page_size [OF o] w2 by simp
        qed (use l2 g2 w2 lg Suc.prems(4) in auto)
        then show ?case unfolding un
        proof (rule wp_mono, goal_cases)
          case (1 v w')
          then obtain a' where "w' = w2\<lparr>allocator := a'\<rparr>" "only_caches (ps \<union> qs) (allocator w2) a'"
            "stack_in K a' l [] {}" "stack_in K a' g ys (ps \<union> qs)" by blast
          moreover from this have "only_caches (ps \<union> qs) (allocator w) a'" using only_caches_trans [OF o] w2 by simp
          moreover have "w' = w\<lparr>allocator := a'\<rparr>" using calculation(1) w2 by simp
          ultimately show ?case by blast
        qed simp
      qed (use g1 p pq K0 w1 in auto)
    next
      case (2 e)
      then show ?case using room by simp
    qed
  qed
qed simp

lemma spill_stack:
  assumes l: "stack_in K (allocator w) l xs ps" and g: "stack_in K (allocator w) g ys qs" and lg: "l \<noteq> g"
    and disj: "ps \<inter> qs = {}" and K: "page_capacity (page_size (allocator w)) = Inr K" and fuel: "length xs + card ps < fuel"
  shows "wp (future_pointer_cache_spill fuel l g) (\<lambda>_ w'. spill_room K (top_count K (length ys)) (length xs) \<and>
     (\<exists>a' zs. w' = w\<lparr>allocator := a'\<rparr> \<and> only_caches (ps \<union> qs) (allocator w) a' \<and> mset zs = mset xs + mset ys \<and>
       stack_in K a' l [] {} \<and> stack_in K a' g zs (ps \<union> qs)))
    (\<lambda>e. e = AssertFailed \<and> \<not> spill_room K (top_count K (length ys)) (length xs)) w"
  unfolding future_pointer_cache_spill_def wp_seq
proof (rule wp_mono [OF spill_futures_stack [OF l g lg disj K]], goal_cases)
  case (2 u w1)
  then obtain a1 zs ps1 qs1 where w1: "w1 = w\<lparr>allocator := a1\<rparr>" and o1: "only_caches (ps \<union> qs) (allocator w) a1"
    and ms: "mset zs = mset xs + mset ys" and l1: "stack_in K a1 l [] ps1" and g1: "stack_in K a1 g zs qs1"
    and un: "ps1 \<union> qs1 = ps \<union> qs" "ps1 \<inter> qs1 = {}" "ps1 \<subseteq> ps"
    and room: "spill_room K (top_count K (length ys)) (length xs)" by blast
  have c: "card ps1 < fuel" using fuel card_mono [OF cache_stack_finite [OF l] un(3)] by simp
  have K1: "page_capacity (page_size (allocator w1)) = Inr K" using K only_caches_page_size [OF o1] w1 by simp
  show ?case
  proof (rule wp_mono [OF spill_empty_stack [of K w1 l ps1 g zs qs1 fuel]], goal_cases)
    case (7 v w2)
    then obtain a2 where w2: "w2 = w\<lparr>allocator := a2\<rparr>" and o2: "only_caches (ps \<union> qs) a1 a2"
      and s2: "stack_in K a2 l [] {}" "stack_in K a2 g zs (ps \<union> qs)" using w1 un by auto
    have none: "cache_of l a2 = \<lparr>cache_bottom = None, cache_top = None, num_top_futures = 0\<rparr>"
      using cache_stack_empty [OF s2(1)] by blast
    have "spill_room K (top_count K (length ys)) (length xs) \<and>
      (\<exists>a' zs. w2 = w\<lparr>allocator := a'\<rparr> \<and> only_caches (ps \<union> qs) (allocator w) a' \<and> mset zs = mset xs + mset ys \<and>
       stack_in K a' l [] {} \<and> stack_in K a' g zs (ps \<union> qs))"
      using room ms only_caches_trans [OF o1 o2] w2 s2 by blast
    then show ?case using none w2 by (simp add: wp_simps)
  qed (use l1 g1 lg un c K1 w1 in auto)
qed (use fuel in auto)

section \<open>Properties\<close>

text \<open>Spilling a cache moves all its futures and pages to the other cache, without losing or
  duplicating any, and leaves the spilled cache without pages, exactly when the futures of its last
  page fit on the top page of the other cache or that page is full.  In all other cases a debug
  assertion fails; in particular when a thread that holds more than one page of futures, the last of
  them partial, spills into an empty global cache.\<close>

theorem spill_exact:
  assumes "stack_in K (allocator w) l xs ps" and "stack_in K (allocator w) g ys qs" and "l \<noteq> g" and "ps \<inter> qs = {}"
    and "page_capacity (page_size (allocator w)) = Inr K" and "length xs + card ps < fuel"
  shows "if spill_room K (top_count K (length ys)) (length xs)
    then \<exists>a' zs. future_pointer_cache_spill fuel l g w = Inr ((), w\<lparr>allocator := a'\<rparr>) \<and>
      mset zs = mset xs + mset ys \<and> stack_in K a' l [] {} \<and> stack_in K a' g zs (ps \<union> qs)
    else future_pointer_cache_spill fuel l g w = Inl AssertFailed"
  using spill_stack [OF assms] unfolding wp_def by (auto split: sum.splits)

theorem spill_exact_witness:
  "\<not> spill_room 3 (top_count 3 0) 4 \<and> future_pointer_cache_spill 10 Local Global sample_world = Inl AssertFailed"
proof -
  have al: "allocator sample_world = sample_allocator" by (simp add: sample_world_def)
  have l: "stack_in 3 (allocator sample_world) Local [10, 11, 12, 13] {1, 2}" unfolding al by (rule sample_stack)
  have g: "stack_in 3 (allocator sample_world) Global [] {}"
    by (simp add: al sample_allocator_def empty_allocator_def cache_stack_def)
  have room: "\<not> spill_room 3 (top_count 3 (length ([] :: fid list))) (length [10, 11, 12, 13 :: fid])"
    by (simp add: spill_room_def top_count_def)
  have "future_pointer_cache_spill 10 Local Global sample_world = Inl AssertFailed"
    using spill_exact [OF l g, of 10, unfolded if_not_P [OF room]] by (simp add: al)
  then show ?thesis by (simp add: spill_room_def top_count_def)
qed

end
