(* ===== verification/Allocator.thy ===== *)
theory Allocator
  imports Memory StatusOps SyncCaches CachePair
begin

text \<open>
  The allocator of futures: storage pages (future/allocator/storage_page.[ch]), reference counted
  thread-specific storage (refcounted_tss.[ch]), creation of the thread-local and the context-global
  cache (thread_cache.c, context_cache.c), and allocator.c, which takes futures from the caches and
  gives them back, with the operating system objects that belong to them.

  The state is what the running thread sees: its own cache, and the global cache of the context,
  which it changes only while it holds the mutex.
\<close>

section \<open>Storage pages\<close>

text \<open>A future has the size and the alignment \<open>FALSE_SHARING_GRANULARITY\<close>; so has the room for the
  link at the start of a storage page.\<close>

definition FALSE_SHARING_GRANULARITY :: nat where
  "FALSE_SHARING_GRANULARITY = 128"

definition storage_page_length :: "nat \<Rightarrow> nat res" where
  "storage_page_length psize =
    (let available_bytes = nat ((int psize - int FALSE_SHARING_GRANULARITY) mod 2 ^ 64) in
     assert_that (available_bytes \<ge> FALSE_SHARING_GRANULARITY) (
     Inr (available_bytes div FALSE_SHARING_GRANULARITY)))"

definition future_storage_page_length :: "nat comp" where
  "future_storage_page_length = bindM get_allocator (\<lambda>a. liftR (storage_page_length (page_size a)))"

definition futures_of_page :: "nat \<Rightarrow> nat \<Rightarrow> fid list" where
  "futures_of_page page n = map (\<lambda>i. page + FALSE_SHARING_GRANULARITY * (i + 1)) [0..<n]"

fun initialize_futures :: "fid list \<Rightarrow> unit comp" where
  "initialize_futures [] = retM ()"
| "initialize_futures (f # fs) =
    seqM (set_future f zero_future) (
    seqM (future_status_initialize f (as_bitfield 0)) (
    initialize_futures fs))"

definition future_storage_allocate :: "unit comp" where
  "future_storage_allocate =
    bindM get_page_size (\<lambda>psize.
    bindM (realtime_allocate psize) (\<lambda>page.
    seqM (assertM (page \<noteq> 0)) (
    bindM future_storage_page_length (\<lambda>n.
    bindM get_allocator (\<lambda>a.
    let fs = futures_of_page page n in
    if set fs \<inter> set (concat (storage_pages a)) \<noteq> {} then stopM ScheduleEnd
    else
      seqM (initialize_futures fs) (
      put_allocator (a\<lparr>storage_pages := fs # storage_pages a\<rparr>)))))))"

fun liberate_storage :: "fid list list \<Rightarrow> unit comp" where
  "liberate_storage [] = retM ()"
| "liberate_storage (fs # rest) =
    bindM get_page_size (\<lambda>psize.
    seqM (realtime_liberate (hd fs - FALSE_SHARING_GRANULARITY) psize) (
    liberate_storage rest))"

definition future_storage_liberate_all :: "unit comp" where
  "future_storage_liberate_all =
    bindM get_allocator (\<lambda>a.
    seqM (liberate_storage (storage_pages a)) (
    put_allocator (a\<lparr>storage_pages := []\<rparr>)))"

section \<open>Reference counted thread-specific storage\<close>

definition REFCOUNTED_TSS_REACHABLE :: u64 where
  "REFCOUNTED_TSS_REACHABLE = 0x8000000000000000"

text \<open>A call of the C threads library returns 0 (\<open>thrd_success\<close>) or an error.\<close>

definition thread_call :: "unit comp" where
  "thread_call = bindM syscall (\<lambda>(result, errno). if result \<noteq> 0 then stopM ExitError else retM ())"

definition refcounted_tss_initialize :: "unit comp" where
  "refcounted_tss_initialize =
    seqM thread_call (
    bindM get_allocator (\<lambda>a.
    put_allocator (a\<lparr>thread_slot := None, refcount_and_reachability := REFCOUNTED_TSS_REACHABLE\<rparr>)))"

definition refcounted_tss_create_slot :: "nat comp \<Rightarrow> nat comp" where
  "refcounted_tss_create_slot constructor =
    bindM get_allocator (\<lambda>a.
    let old = refcount_and_reachability a in
    seqM (put_allocator (a\<lparr>refcount_and_reachability := old + 1\<rparr>)) (
    seqM (assertM (old AND REFCOUNTED_TSS_REACHABLE \<noteq> 0)) (
    seqM (assertM ((old + 1) AND REFCOUNTED_TSS_REACHABLE \<noteq> 0)) (
    bindM constructor (\<lambda>result.
    seqM (assertM (result \<noteq> 0)) (
    bindM get_allocator (\<lambda>a'.
    seqM (assertM (thread_slot a' = None)) (
    seqM thread_call (
    bindM get_allocator (\<lambda>a''.
    seqM (put_allocator (a''\<lparr>thread_slot := Some result\<rparr>)) (
    retM result)))))))))))"

definition refcounted_tss_acquire :: "nat comp \<Rightarrow> nat comp" where
  "refcounted_tss_acquire constructor =
    bindM get_allocator (\<lambda>a.
    seqM (assertM (refcount_and_reachability a OR REFCOUNTED_TSS_REACHABLE \<noteq> 0)) (
    case thread_slot a of
      Some result \<Rightarrow> retM result
    | None \<Rightarrow> refcounted_tss_create_slot constructor))"

definition refcounted_tss_write :: "nat \<Rightarrow> unit comp" where
  "refcounted_tss_write new =
    bindM get_allocator (\<lambda>a.
    seqM (assertM (refcount_and_reachability a OR REFCOUNTED_TSS_REACHABLE \<noteq> 0)) (
    seqM (assertM (thread_slot a \<noteq> None)) (
    seqM thread_call (
    put_allocator (a\<lparr>thread_slot := Some new\<rparr>)))))"

definition refcounted_tss_release :: "bool comp" where
  "refcounted_tss_release =
    bindM get_allocator (\<lambda>a.
    seqM (assertM (thread_slot a = None)) (
    let old = refcount_and_reachability a in
    seqM (put_allocator (a\<lparr>refcount_and_reachability := old - 1\<rparr>)) (
    seqM (assertM (old \<noteq> 0)) (
    retM (\<not> old > 1)))))"

definition refcounted_tss_discard :: "bool comp" where
  "refcounted_tss_discard =
    bindM get_allocator (\<lambda>a.
    let old = refcount_and_reachability a in
    seqM (put_allocator (a\<lparr>refcount_and_reachability := old AND NOT REFCOUNTED_TSS_REACHABLE\<rparr>)) (
    seqM (assertM (old AND REFCOUNTED_TSS_REACHABLE \<noteq> 0)) (
    retM (old = REFCOUNTED_TSS_REACHABLE))))"

section \<open>Creation of the caches\<close>

definition future_context_cache_initialize :: "unit comp" where
  "future_context_cache_initialize =
    seqM thread_call (
    bindM (future_pointer_cache_initialize True) (\<lambda>c.
    bindM get_allocator (\<lambda>a.
    let capacity = page_size a div 8 in
    bindM syscall (\<lambda>(array, errno).
    if array = 0 then stopM ExitError
    else put_allocator (a\<lparr>global_futures := c, storage_pages := [],
           thread_caches := Some [], thread_caches_capacity := capacity\<rparr>)))))"

definition future_context_cache_register_thread :: "nat \<Rightarrow> unit comp" where
  "future_context_cache_register_thread thread_cache =
    seqM thread_call (
    bindM get_allocator (\<lambda>a.
    seqM (assertM (thread_caches a \<noteq> None)) (
    bindM (derefM (thread_caches a)) (\<lambda>caches.
    seqM (assertM (length caches \<le> thread_caches_capacity a)) (
    bindM (if length caches = thread_caches_capacity a then
             bindM syscall (\<lambda>(array, errno).
             if array = 0 then seqM thread_call (stopM ExitError)
             else retM (thread_caches_capacity a * 2))
           else retM (thread_caches_capacity a)) (\<lambda>capacity.
    if length caches < capacity then
      seqM (put_allocator (a\<lparr>thread_caches := Some (caches @ [thread_cache]), thread_caches_capacity := capacity\<rparr>)) (
      thread_call)
    else stopM BadAccess))))))"

definition future_thread_cache_initialize :: "nat comp" where
  "future_thread_cache_initialize =
    bindM syscall (\<lambda>(cache, errno).
    if cache = 0 then stopM ExitError
    else if cache < 0 then stopM ScheduleEnd
    else
      bindM (future_pointer_cache_initialize False) (\<lambda>c.
      bindM get_allocator (\<lambda>a.
      seqM (put_allocator (a\<lparr>local_futures := c, local_events := event_cache_initialize,
              local_inpolls := latched_inpoll_cache_initialize\<rparr>)) (
      seqM (future_context_cache_register_thread (nat cache)) (
      retM (nat cache))))))"

definition future_thread_cache :: "nat comp" where
  "future_thread_cache = refcounted_tss_acquire future_thread_cache_initialize"

section \<open>Futures without resources\<close>

definition future_allocate_uninitialized :: "fid comp" where
  "future_allocate_uninitialized =
    bindM (future_pointer_cache_allocate_local Local) (\<lambda>future.
    case future of
      Some f \<Rightarrow> retM f
    | None \<Rightarrow>
        seqM thread_call (
        bindM (future_pointer_cache_extract_futures Global) (\<lambda>page.
        seqM (case page of
            Some p \<Rightarrow>
              bindM (future_pointer_cache_obtain_empty Local) (\<lambda>empty_page.
              seqM (future_pointer_cache_insert_empty Global empty_page) (
              future_pointer_cache_insert_futures Local p))
          | None \<Rightarrow>
              seqM future_storage_allocate (
              bindM get_allocator (\<lambda>a.
              case storage_pages a of
                [] \<Rightarrow> stopM BadAccess
              | fs # _ \<Rightarrow> future_pointer_cache_refill_local Local fs))) (
        seqM thread_call (
        bindM (future_pointer_cache_allocate_local Local) (\<lambda>future.
        seqM (assertM (future \<noteq> None)) (
        derefM future)))))))"

definition future_liberate_uninitialized :: "fid \<Rightarrow> unit comp" where
  "future_liberate_uninitialized f =
    bindM (future_pointer_cache_liberate_local Local f) (\<lambda>success.
    if success then retM ()
    else
      bindM (future_pointer_cache_extract_futures Local) (\<lambda>page.
      seqM (assertM (page \<noteq> None)) (
      bindM (derefM page) (\<lambda>p.
      seqM thread_call (
      seqM (future_pointer_cache_insert_futures Global p) (
      bindM (future_pointer_cache_obtain_empty Global) (\<lambda>empty_page.
      seqM (future_pointer_cache_insert_empty Local empty_page) (
      seqM thread_call (
      bindM (future_pointer_cache_liberate_local Local f) (\<lambda>success.
      assertM success))))))))))"

section \<open>Operating system objects of a future\<close>

definition INPOLL_SINGLE_UPSTREAM_ID :: u64 where
  "INPOLL_SINGLE_UPSTREAM_ID = 0"

definition set_status_sync :: "fid \<Rightarrow> fd \<Rightarrow> unit comp" where
  "set_status_sync f sync = bindM (get_future f) (\<lambda>fut. set_future f (fut\<lparr>status_sync := sync\<rparr>))"

definition set_context :: "fid \<Rightarrow> nat \<Rightarrow> unit comp" where
  "set_context f ctx = bindM (get_future f) (\<lambda>fut. set_future f (fut\<lparr>context_id := ctx\<rparr>))"

text \<open>Attaching the single upstream of an output inpoll.\<close>

definition attach_upstream :: "fd \<Rightarrow> fd \<Rightarrow> unit comp" where
  "attach_upstream inpoll upstream =
    bindM (inpoll_attach inpoll upstream INPOLL_SINGLE_UPSTREAM_ID) (\<lambda>attach_result.
    case attach_result of
      INPOLL_ATTACH_SUCCESS \<Rightarrow> retM ()
    | INPOLL_ATTACH_TOO_NESTED \<Rightarrow> stopM ExitError
    | INPOLL_ATTACH_REDUNDANT \<Rightarrow> stopM ExitError)"

definition detach_upstream :: "fd \<Rightarrow> fd \<Rightarrow> unit comp" where
  "detach_upstream inpoll upstream =
    bindM (inpoll_detach inpoll upstream) (\<lambda>detach_result.
    case detach_result of
      INPOLL_DETACH_SUCCESS \<Rightarrow> retM ()
    | INPOLL_DETACH_NONEXISTENT \<Rightarrow> stopM ExitError)"

definition no_upstream :: collective_upstream where
  "no_upstream = \<lparr>upstream_array = [], upstream_remaining = 0\<rparr>"

definition future_sync_initialize :: "fid \<Rightarrow> unit comp" where
  "future_sync_initialize f =
    bindM (future_status_load f) (\<lambda>status.
    if ftype status \<in> {TYPE_NETWORK_CONNECT, TYPE_NETWORK_DISCONNECT, TYPE_NETWORK_SEND, TYPE_NETWORK_RECV, TYPE_CUSTOM} then
      bindM (event_cache_allocate Events_of_thread) (set_status_sync f)
    else if ftype status = TYPE_TIMER_ONCE then
      bindM timer_initialize (set_status_sync f)
    else if ftype status = TYPE_JOIN then
      bindM latched_inpoll_cache_allocate (\<lambda>latched.
      seqM (set_specific f (Join no_upstream (latch_fd latched))) (
      set_status_sync f (inpoll_fd latched)))
    else if ftype status = TYPE_UNORDERED then
      bindM inpoll_initialize (\<lambda>upstream_inpoll.
      bindM latched_inpoll_cache_allocate (\<lambda>latched.
      seqM (set_specific f (Unordered no_upstream [] upstream_inpoll (latch_fd latched))) (
      seqM (set_status_sync f (inpoll_fd latched)) (
      attach_upstream (inpoll_fd latched) upstream_inpoll))))
    else if ftype status = TYPE_TIMER_REPEAT then
      bindM timer_initialize (\<lambda>timerfd.
      bindM latched_inpoll_cache_allocate (\<lambda>latched.
      seqM (set_specific f (TimerRepeat [] timerfd (latch_fd latched))) (
      seqM (set_status_sync f (inpoll_fd latched)) (
      attach_upstream (inpoll_fd latched) timerfd))))
    else stopM ExitError)"

fun detach_futures :: "fid list \<Rightarrow> unit comp" where
  "detach_futures [] = retM ()"
| "detach_futures (u # us) = bindM (future_downstream_count_dec u) (\<lambda>_. detach_futures us)"

definition detach_collective :: "collective_upstream \<Rightarrow> unit comp" where
  "detach_collective upstream =
    seqM (assertM (upstream_array upstream \<noteq> [])) (
    seqM (assertM (unat (upstream_remaining upstream) \<le> length (upstream_array upstream))) (
    detach_futures (upstream_array upstream)))"

definition future_upstream_detach :: "fid \<Rightarrow> unit comp" where
  "future_upstream_detach f =
    bindM (future_status_load f) (\<lambda>status.
    bindM (get_future f) (\<lambda>fut.
    if ftype status \<in> {TYPE_NETWORK_CONNECT, TYPE_NETWORK_DISCONNECT, TYPE_NETWORK_SEND, TYPE_NETWORK_RECV} then stopM ExitError
    else if ftype status = TYPE_JOIN then
      (case specific fut of
         Join upstream latch \<Rightarrow> seqM (detach_collective upstream) (set_specific f (Join no_upstream latch))
       | _ \<Rightarrow> stopM UndefinedBehaviour)
    else if ftype status = TYPE_UNORDERED then
      (case specific fut of
         Unordered upstream payload inpoll latch \<Rightarrow>
           seqM (detach_collective upstream) (set_specific f (Unordered no_upstream payload inpoll latch))
       | _ \<Rightarrow> stopM UndefinedBehaviour)
    else if ftype status \<in> {TYPE_CUSTOM, TYPE_TIMER_ONCE, TYPE_TIMER_REPEAT} then retM ()
    else stopM ExitError))"

definition future_sync_finalize :: "fid \<Rightarrow> unit comp" where
  "future_sync_finalize f =
    bindM (future_status_load f) (\<lambda>status.
    bindM (get_future f) (\<lambda>fut.
    if ftype status \<in> {TYPE_NETWORK_CONNECT, TYPE_NETWORK_DISCONNECT, TYPE_NETWORK_SEND, TYPE_NETWORK_RECV, TYPE_CUSTOM} then
      bindM (event_cache_liberate Events_of_thread (status_sync fut)) (set_status_sync f)
    else if ftype status = TYPE_TIMER_ONCE then
      bindM (timer_finalize (status_sync fut)) (set_status_sync f)
    else if ftype status = TYPE_JOIN then
      (case specific fut of
         Join upstream latch \<Rightarrow>
           seqM (detach_upstream (status_sync fut) latch) (
           bindM (event_cache_liberate Events_of_thread latch) (\<lambda>latch'.
           seqM (set_specific f (Join upstream latch')) (
           bindM (inpoll_finalize (status_sync fut)) (set_status_sync f))))
       | _ \<Rightarrow> stopM UndefinedBehaviour)
    else if ftype status = TYPE_UNORDERED then
      (case specific fut of
         Unordered upstream payload upstream_inpoll latch \<Rightarrow>
           seqM (detach_upstream (status_sync fut) upstream_inpoll) (
           seqM (latched_inpoll_cache_liberate \<lparr>inpoll_fd = status_sync fut, latch_fd = latch\<rparr>) (
           seqM (set_status_sync f FD_INVALID) (
           bindM (inpoll_finalize upstream_inpoll) (\<lambda>closed.
           set_specific f (Unordered upstream payload closed EVENT_INVALID)))))
       | _ \<Rightarrow> stopM UndefinedBehaviour)
    else if ftype status = TYPE_TIMER_REPEAT then
      (case specific fut of
         TimerRepeat payload timerfd latch \<Rightarrow>
           seqM (detach_upstream (status_sync fut) timerfd) (
           seqM (latched_inpoll_cache_liberate \<lparr>inpoll_fd = status_sync fut, latch_fd = latch\<rparr>) (
           seqM (set_status_sync f FD_INVALID) (
           bindM (timer_finalize timerfd) (\<lambda>closed.
           set_specific f (TimerRepeat payload closed EVENT_INVALID)))))
       | _ \<Rightarrow> stopM UndefinedBehaviour)
    else stopM ExitError))"

section \<open>Futures with their resources\<close>

definition future_allocate :: "nat \<Rightarrow> future_type \<Rightarrow> fid comp" where
  "future_allocate ctx type =
    bindM future_thread_cache (\<lambda>_.
    bindM future_allocate_uninitialized (\<lambda>f.
    bindM (future_status_load f) (\<lambda>status.
    seqM (check_status status False) (
    seqM (set_context f ctx) (
    bindM (future_status_exchange f ((as_bitfield 0)\<lparr>ftype := type\<rparr>)) (\<lambda>prev_status.
    seqM (assertM (as_word prev_status = 0)) (
    seqM (future_sync_initialize f) (
    retM f))))))))"

definition future_liberate :: "fid \<Rightarrow> unit comp" where
  "future_liberate f =
    seqM (future_upstream_detach f) (
    bindM future_thread_cache (\<lambda>_.
    seqM (future_sync_finalize f) (
    bindM (future_status_exchange f (as_bitfield 0)) (\<lambda>final_status.
    seqM (assertM (downstream_count final_status = 0)) (
    seqM (assertM (\<not> downstream_count_overflow final_status)) (
    seqM (assertM (\<not> available final_status)) (
    seqM (assertM (ftype final_status \<noteq> TYPE_INVALID)) (
    seqM (assertM (reserved final_status = 0)) (
    seqM (set_context f 0) (
    future_liberate_uninitialized f))))))))))"

end
