(* ===== verification/AllocatorSpec.thy ===== *)
theory AllocatorSpec
  imports Allocator
begin

text \<open>
  What the allocator of futures promises: futures are neither lost nor duplicated between the caches,
  and only the caches change.
\<close>

section \<open>Threads and storage\<close>

lemma wp_thread_call [wp_simps]:
  "wp thread_call Q E w \<longleftrightarrow> (case schedule w of
     Returns r e # ss \<Rightarrow> if r \<noteq> 0 then E ExitError else Q () (w\<lparr>schedule := ss\<rparr>) | _ \<Rightarrow> E ScheduleEnd)"
  by (auto simp: thread_call_def wp_simps split: list.splits step.splits)

text \<open>Stopping for a reason outside of the allocator: the process exits, or the operating system
  breaks a promise that the code asserts.\<close>

definition outside :: "stop \<Rightarrow> bool" where
  "outside e \<longleftrightarrow> e \<notin> {BadAccess, UndefinedBehaviour}"

lemma outside_simps [simp]:
  "outside ExitError" "outside ScheduleEnd" "outside AssertFailed" "outside EnsureFailed"
  by (simp_all add: outside_def)

text \<open>Computations that change neither memory nor the allocator.\<close>

definition only_io :: "'a comp \<Rightarrow> bool" where
  "only_io m \<longleftrightarrow> (\<forall>w. wp m (\<lambda>_ w'. allocator w' = allocator w \<and> futures w' = futures w) outside w)"

named_theorems io_intros \<open>computations that only talk to the operating system\<close>

lemma only_ioD: "only_io m \<Longrightarrow> wp m (\<lambda>_ w'. allocator w' = allocator w \<and> futures w' = futures w) outside w"
  by (simp add: only_io_def)

lemma only_io_bind [io_intros]: "only_io m \<Longrightarrow> (\<And>x. only_io (f x)) \<Longrightarrow> only_io (bindM m f)"
proof -
  assume m: "only_io m" and f: "\<And>x. only_io (f x)"
  have "wp m (\<lambda>x. wp (f x) (\<lambda>_ w'. allocator w' = allocator w \<and> futures w' = futures w) outside) outside w" for w
  proof (rule wp_mono [OF only_ioD [OF m]])
    fix x and w1 :: world
    assume "allocator w1 = allocator w \<and> futures w1 = futures w"
    then show "wp (f x) (\<lambda>_ w'. allocator w' = allocator w \<and> futures w' = futures w) outside w1"
      using only_ioD [OF f, of x w1] by simp
  qed
  then show ?thesis by (simp add: only_io_def wp_bind)
qed

lemma only_io_seq [io_intros]: "only_io m \<Longrightarrow> only_io k \<Longrightarrow> only_io (seqM m k)"
  unfolding seqM_def by (rule only_io_bind)

lemma only_io_basic [io_intros]:
  "only_io (retM x)" "only_io (emit ef)" "only_io get_allocator" "only_io (ensureM c)" "only_io (assertM c)"
  "only_io syscall" "only_io limits_syscall" "only_io (stopM ExitError)" "only_io (stopM ScheduleEnd)" "only_io thread_call"
  by (auto simp: only_io_def wp_simps split: list.splits step.splits)

lemma only_io_prod [io_intros]: "(\<And>a b. only_io (f a b)) \<Longrightarrow> only_io (case p of (a, b) \<Rightarrow> f a b)"
  by (cases p) simp

lemma only_io_if [io_intros]: "only_io a \<Longrightarrow> only_io b \<Longrightarrow> only_io (if c then a else b)"
  by simp

lemma only_io_realtime [io_intros]:
  "only_io (try_increase_mlock_budget n)" "only_io (lock_pages n)" "only_io (realtime_allocate n)" "only_io (realtime_liberate b n)"
proof -
  show mlock: "only_io (try_increase_mlock_budget n)" for n
    unfolding try_increase_mlock_budget_def
    by (intro io_intros) (auto split: option.splits errno.splits intro!: io_intros)
  show lock: "only_io (lock_pages n)" for n
    unfolding lock_pages_def by (intro io_intros) (auto split: errno.splits intro!: io_intros mlock)
  show "only_io (realtime_allocate n)" "only_io (realtime_liberate b n)"
    unfolding realtime_allocate_def realtime_liberate_def allocation_size_def get_allocation_granularity_def get_page_size_def
    by (intro io_intros lock)+
qed

lemma check_zero_status [simp]: "check_status (as_bitfield 0) False = retM ()"
  using debug_check_liberated [of "as_bitfield 0"] by (auto simp: check_status_def liftR_def retM_def)

lemma initialize_futures_effect:
  "wp (initialize_futures fs) (\<lambda>_ w'. \<exists>tr. w' = w\<lparr>futures := (\<lambda>f. if f \<in> set fs then zero_future else futures w f), trace := tr\<rparr>) outside w"
proof (induction fs arbitrary: w)
  case Nil
  show ?case by (auto simp: wp_simps intro!: exI [of _ "trace w"])
next
  case (Cons f fs)
  let ?w = "w\<lparr>futures := (futures w)(f := zero_future)\<rparr>"
  have same: "set_word f (as_word (as_bitfield 0)) (futures ?w) = futures ?w"
    by (auto simp: set_word_def zero_future_def as_word_as_bitfield)
  have "wp (initialize_futures fs) (\<lambda>_ w'. \<exists>tr. w' = w\<lparr>futures := (\<lambda>g. if g \<in> set (f # fs) then zero_future else futures w g), trace := tr\<rparr>) outside
      (written f (as_word (as_bitfield 0)) ?w)"
  proof (rule wp_mono [OF Cons.IH], elim exE)
    fix u w' tr
    assume "w' = (written f (as_word (as_bitfield 0)) ?w)\<lparr>futures := \<lambda>fa. if fa \<in> set fs then zero_future
        else futures (written f (as_word (as_bitfield 0)) ?w) fa, trace := tr\<rparr>"
    moreover have "(\<lambda>fa. if fa \<in> set fs then zero_future else futures (written f (as_word (as_bitfield 0)) ?w) fa)
        = (\<lambda>g. if g \<in> set (f # fs) then zero_future else futures w g)"
      unfolding written_def using same by auto
    ultimately show "\<exists>tr. w' = w\<lparr>futures := (\<lambda>g. if g \<in> set (f # fs) then zero_future else futures w g), trace := tr\<rparr>"
      by (auto simp: written_def intro!: exI [of _ tr])
  qed simp
  then show ?case
    by (simp add: future_status_initialize_def wp_simps)
qed

lemma futures_of_page_distinct [simp]: "distinct (futures_of_page page n)" "length (futures_of_page page n) = n"
  by (auto simp: futures_of_page_def distinct_map inj_on_def FALSE_SHARING_GRANULARITY_def)

lemma storage_allocate_effect:
  assumes L: "storage_page_length (page_size (allocator w)) = Inr L"
  shows "wp future_storage_allocate (\<lambda>_ w'. \<exists>fs. length fs = L \<and> distinct fs \<and>
      set fs \<inter> set (concat (storage_pages (allocator w))) = {} \<and>
      allocator w' = (allocator w)\<lparr>storage_pages := fs # storage_pages (allocator w)\<rparr> \<and>
      futures w' = (\<lambda>f. if f \<in> set fs then zero_future else futures w f)) outside w"
  unfolding future_storage_allocate_def get_page_size_def wp_bind wp_get_allocator wp_ret
proof (rule wp_mono [OF only_ioD [OF only_io_realtime(3)]], elim conjE)
  fix page and w1 :: world
  assume a1: "allocator w1 = allocator w" and f1: "futures w1 = futures w"
  let ?fs = "futures_of_page page L" and ?a = "allocator w"
  have "wp (initialize_futures ?fs) (\<lambda>_. wp (put_allocator (?a\<lparr>storage_pages := ?fs # storage_pages ?a\<rparr>)) (\<lambda>_ w'. \<exists>fs. length fs = L \<and> distinct fs \<and>
      set fs \<inter> set (concat (storage_pages ?a)) = {} \<and> allocator w' = ?a\<lparr>storage_pages := fs # storage_pages ?a\<rparr> \<and>
      futures w' = (\<lambda>f. if f \<in> set fs then zero_future else futures w f)) outside) outside w1"
    if "set ?fs \<inter> set (concat (storage_pages ?a)) = {}"
    by (rule wp_mono [OF initialize_futures_effect]) (use that f1 in \<open>auto simp: wp_simps intro!: exI [of _ ?fs]\<close>)
  then show "wp (seqM (assertM (page \<noteq> 0)) (bindM future_storage_page_length (\<lambda>n. bindM get_allocator (\<lambda>a.
      let fs = futures_of_page page n in if set fs \<inter> set (concat (storage_pages a)) \<noteq> {} then stopM ScheduleEnd
      else seqM (initialize_futures fs) (put_allocator (a\<lparr>storage_pages := fs # storage_pages a\<rparr>))))))
     (\<lambda>_ w'. \<exists>fs. length fs = L \<and> distinct fs \<and> set fs \<inter> set (concat (storage_pages ?a)) = {} \<and>
      allocator w' = ?a\<lparr>storage_pages := fs # storage_pages ?a\<rparr> \<and>
      futures w' = (\<lambda>f. if f \<in> set fs then zero_future else futures w f)) outside w1"
    using L a1 by (simp add: future_storage_page_length_def wp_simps Let_def)
qed simp

section \<open>Who has which future\<close>

text \<open>The invariant of the allocator: every future of the storage pages is exactly once in the local
  cache, in the global cache, or in use (\<open>H\<close>).\<close>

definition cache_state :: "allocator_state \<Rightarrow> nat \<Rightarrow> fid list \<Rightarrow> pid set \<Rightarrow> fid list \<Rightarrow> pid set \<Rightarrow> bool" where
  "cache_state a K xl pl xg pg \<longleftrightarrow> page_capacity (page_size a) = Inr K \<and> stack_in K a Local xl pl \<and> pl \<noteq> {} \<and>
     stack_in K a Global xg pg \<and> pl \<inter> pg = {} \<and>
     (\<exists>L. storage_page_length (page_size a) = Inr L \<and> 0 < L \<and> L \<le> K)"

definition allocator_inv :: "allocator_state \<Rightarrow> fid multiset \<Rightarrow> bool" where
  "allocator_inv a H \<longleftrightarrow> distinct (concat (storage_pages a)) \<and>
     (\<exists>K xl pl xg pg. cache_state a K xl pl xg pg \<and> mset xl + mset xg + H = mset (concat (storage_pages a)))"

text \<open>What the operations on the caches keep.\<close>

definition same_rest :: "allocator_state \<Rightarrow> allocator_state \<Rightarrow> bool" where
  "same_rest a a' \<longleftrightarrow> page_size a' = page_size a \<and> local_events a' = local_events a \<and> local_inpolls a' = local_inpolls a \<and>
     thread_slot a' = thread_slot a \<and> refcount_and_reachability a' = refcount_and_reachability a \<and>
     thread_caches a' = thread_caches a \<and> thread_caches_capacity a' = thread_caches_capacity a"

lemma same_restI: "only_caches ps a a' \<Longrightarrow> same_rest a a' \<and> storage_pages a' = storage_pages a"
  unfolding only_caches_def same_rest_def by auto

lemma same_rest_refl [simp]: "same_rest a a"
  by (simp add: same_rest_def)

lemma same_rest_trans: "same_rest a b \<Longrightarrow> same_rest b c \<Longrightarrow> same_rest a c"
  by (simp add: same_rest_def)

lemma allocate_local_state:
  assumes "cache_state (allocator w) K xl pl xg pg"
  shows "wp (future_pointer_cache_allocate_local Local) (\<lambda>f w'. f = (if xl = [] then None else Some (last xl)) \<and>
     (\<exists>a'. w' = w\<lparr>allocator := a'\<rparr> \<and> only_caches pl (allocator w) a' \<and> cache_state a' K (butlast xl) pl xg pg)) (\<lambda>_. False) w"
proof -
  have st: "stack_in K (allocator w) Local xl pl" "stack_in K (allocator w) Global xg pg" "pl \<inter> pg = {}"
    and K: "page_capacity (page_size (allocator w)) = Inr K" using assms by (auto simp: cache_state_def)
  show ?thesis
  proof (rule wp_mono [OF allocate_local_stack [OF st(1) K page_capacity_pos [OF K]]], elim conjE exE)
    fix f w' a'
    assume f: "f = (if xl = [] then None else Some (last xl))" and w': "w' = w\<lparr>allocator := a'\<rparr>"
      and o: "only_cache Local pl (allocator w) a'" and l: "stack_in K a' Local (butlast xl) pl"
    have "stack_in K a' Global xg pg" by (rule only_cache_frame [OF o st(2)]) (use st in auto)
    moreover have "page_size a' = page_size (allocator w)" by (rule only_cache_page_size [OF o])
    ultimately have "cache_state a' K (butlast xl) pl xg pg" using assms l by (auto simp: cache_state_def)
    then show "f = (if xl = [] then None else Some (last xl)) \<and>
       (\<exists>a'. w' = w\<lparr>allocator := a'\<rparr> \<and> only_caches pl (allocator w) a' \<and> cache_state a' K (butlast xl) pl xg pg)"
      using f w' only_caches_single [OF o subset_refl] by blast
  qed simp
qed

text \<open>An empty cache always has an empty page to give away.\<close>

lemma empty_page_there:
  assumes "cache_stack K h c [] ps" and "ps \<noteq> {}"
  shows "\<not> card ps * K < length ([] :: fid list) + K"
proof -
  have "1 \<le> card ps" using assms cache_stack_finite [OF assms(1)] by (simp add: Suc_le_eq card_gt_0_iff)
  then show ?thesis using mult_le_mono1 [of 1 "card ps" K] by simp
qed

text \<open>A page of futures comes into an empty local cache, an empty page goes the other way.\<close>

lemma swap_in:
  assumes K: "page_capacity (page_size (allocator w)) = Inr K"
    and l: "stack_in K (allocator w) Local [] pl" and pl: "pl \<noteq> {}" and g: "stack_in K (allocator w) Global ys qs"
    and disj: "pl \<inter> qs = {}" and p: "loose_page K (pages (allocator w)) p gs" "p \<notin> pl" "p \<notin> qs" "gs \<noteq> []"
  shows "wp (bindM (future_pointer_cache_obtain_empty Local) (\<lambda>e. seqM (future_pointer_cache_insert_empty Global e) (
      future_pointer_cache_insert_futures Local p)))
    (\<lambda>_ w'. \<exists>a' q. w' = w\<lparr>allocator := a'\<rparr> \<and> q \<in> pl \<and> only_caches (insert p (pl \<union> qs)) (allocator w) a' \<and>
      stack_in K a' Local gs (insert p (pl - {q})) \<and> stack_in K a' Global ys (insert q qs)) (\<lambda>_. False) w"
proof -
  let ?U = "insert p (pl \<union> qs)"
  note K0 = page_capacity_pos [OF K]
  note none = empty_page_there [OF l pl]
  show ?thesis unfolding wp_bind wp_seq
  proof (rule wp_mono [OF obtain_empty_stack [OF l K K0]], goal_cases)
    case (1 q w1)
    then obtain a1 where w1: "w1 = w\<lparr>allocator := a1\<rparr>" and q: "q \<in> pl" and o1: "only_cache Local pl (allocator w) a1"
      and lq: "loose_page K (pages a1) q []" and l1: "stack_in K a1 Local [] (pl - {q})"
      using none by (auto simp: insert_absorb)
    have g1: "stack_in K a1 Global ys qs" by (rule only_cache_frame [OF o1 g]) (use disj in auto)
    have p1: "loose_page K (pages a1) p gs" by (rule loose_page_frame [OF o1 p(2,1)])
    have qq: "q \<notin> qs" using q disj by auto
    have "wp (future_pointer_cache_insert_empty Global q) (\<lambda>_ w'. \<exists>a'. w' = w1\<lparr>allocator := a'\<rparr> \<and>
      only_cache Global (insert q qs) (allocator w1) a' \<and> stack_in K a' Global ys (insert q qs)) (\<lambda>_. False) w1"
      by (rule insert_empty_stack) (use g1 lq qq K0 w1 in auto)
    then show ?case
    proof (rule wp_mono, goal_cases)
      case (1 u w2)
      then obtain a2 where w2: "w2 = w\<lparr>allocator := a2\<rparr>" and o2: "only_cache Global (insert q qs) a1 a2"
        and g2: "stack_in K a2 Global ys (insert q qs)" using w1 by auto
      have l2: "stack_in K a2 Local [] (pl - {q})" by (rule only_cache_frame [OF o2 l1]) (use disj in auto)
      have pq: "p \<notin> insert q qs" using p q by auto
      have p2: "loose_page K (pages a2) p gs" by (rule loose_page_frame [OF o2 pq p1])
      have K2: "page_capacity (page_size a2) = Inr K"
        using K only_cache_page_size [OF o1] only_cache_page_size [OF o2] by simp
      have n0: "num_top_futures (cache_of Local a2) = 0" using top_count_stack [OF l2 K0] by (simp add: top_count_def)
      have "wp (future_pointer_cache_insert_futures Local p) (\<lambda>_ w'. \<exists>a'. w' = w2\<lparr>allocator := a'\<rparr> \<and>
         only_cache Local (insert p (pl - {q})) (allocator w2) a' \<and> stack_in K a' Local gs (insert p (pl - {q}))) (\<lambda>_. False) w2"
        by (rule wp_mono [OF insert_futures_stack [of K w2 Local "[]" "pl - {q}" p gs]]) (use l2 p2 p K2 K0 n0 w2 in auto)
      then show ?case
      proof (rule wp_mono, goal_cases)
        case (1 v w3)
        then obtain a3 where w3: "w3 = w\<lparr>allocator := a3\<rparr>" and o3: "only_cache Local (insert p (pl - {q})) a2 a3"
          and l3: "stack_in K a3 Local gs (insert p (pl - {q}))" using w2 by auto
        have g3: "stack_in K a3 Global ys (insert q qs)" by (rule only_cache_frame [OF o3 g2]) (use p q disj in auto)
        have "only_caches ?U (allocator w) a1" "only_caches ?U a1 a2" "only_caches ?U a2 a3"
          by (rule only_caches_single [OF o1], use q in auto, rule only_caches_single [OF o2], use q in auto, rule only_caches_single [OF o3], auto)
        then have "only_caches ?U (allocator w) a3" using only_caches_trans by blast
        then show ?case using w3 q l3 g3 by blast
      qed simp
    qed simp
  next
    case (2 e)
    then show ?case using none by simp
  qed
qed

section \<open>Taking and giving back futures\<close>

text \<open>The invariant of the allocator and the futures: those that are not in use are all zero.\<close>

definition pool_inv :: "world \<Rightarrow> fid multiset \<Rightarrow> bool" where
  "pool_inv w H \<longleftrightarrow> allocator_inv (allocator w) H \<and>
     (\<forall>f \<in> set (concat (storage_pages (allocator w))). f \<notin># H \<longrightarrow> futures w f = zero_future)"

lemma distinct_once: "distinct zs \<Longrightarrow> A + add_mset g H = mset zs \<Longrightarrow> g \<notin># H"
proof -
  assume d: "distinct zs" and eq: "A + add_mset g H = mset zs"
  have "count (mset zs) g \<le> 1" using d unfolding distinct_count_atmost_1 by simp
  then have "count H g = 0" unfolding eq [symmetric] by simp
  then show ?thesis by (simp add: not_in_iff)
qed

lemma mset_butlast: "xs \<noteq> [] \<Longrightarrow> add_mset (last xs) (mset (butlast xs)) = mset xs"
  by (cases xs rule: rev_cases) simp_all

text \<open>What one allocation does.\<close>

definition allocated :: "world \<Rightarrow> fid multiset \<Rightarrow> fid \<Rightarrow> world \<Rightarrow> bool" where
  "allocated w H f w' \<longleftrightarrow> pool_inv w' (add_mset f H) \<and> f \<notin># H \<and> futures w' f = zero_future \<and>
     (\<forall>g \<in># H. futures w' g = futures w g) \<and> same_rest (allocator w) (allocator w')"

lemma take_from_local:
  assumes cs: "cache_state (allocator w1) K xl pl xg pg" and ne: "xl \<noteq> []"
    and all: "mset xl + mset xg + H = mset (concat (storage_pages (allocator w1)))"
    and dist: "distinct (concat (storage_pages (allocator w1)))"
    and zero: "\<forall>f \<in> set (concat (storage_pages (allocator w1))). f \<notin># H \<longrightarrow> futures w1 f = zero_future"
    and same: "\<forall>g \<in># H. futures w1 g = futures w g" "same_rest (allocator w) (allocator w1)"
  shows "wp (future_pointer_cache_allocate_local Local) (\<lambda>f w'. \<exists>g. f = Some g \<and> allocated w H g w') (\<lambda>_. False) w1"
proof (rule wp_mono [OF allocate_local_state [OF cs]], elim conjE exE)
  fix f w' a'
  assume f: "f = (if xl = [] then None else Some (last xl))" and w': "w' = w1\<lparr>allocator := a'\<rparr>"
    and o: "only_caches pl (allocator w1) a'" and cs': "cache_state a' K (butlast xl) pl xg pg"
  let ?g = "last xl"
  have sp: "storage_pages a' = storage_pages (allocator w1)" and r: "same_rest (allocator w1) a'" using same_restI [OF o] by auto
  have all': "mset (butlast xl) + mset xg + add_mset ?g H = mset (concat (storage_pages a'))"
    using all sp by (simp flip: mset_butlast [OF ne])
  have new: "?g \<notin># H" by (rule distinct_once [OF _ all']) (use dist sp in simp)
  have "?g \<in># mset (concat (storage_pages a'))" unfolding all' [symmetric] by simp
  then have mem: "?g \<in> set (concat (storage_pages (allocator w1)))" using sp by simp
  have "allocator_inv a' (add_mset ?g H)" unfolding allocator_inv_def using cs' all' dist [folded sp] by blast
  then have "pool_inv w' (add_mset ?g H)" using zero w' sp by (auto simp: pool_inv_def)
  moreover have "futures w' ?g = zero_future" using zero mem new w' by auto
  ultimately have "allocated w H ?g w'" using new same same_rest_trans [OF same(2) r] w' by (simp add: allocated_def)
  then show "\<exists>g. f = Some g \<and> allocated w H g w'" using f ne by simp
qed simp


text \<open>The last part of an allocation: unlock the mutex, take from the local cache that has been
  refilled.\<close>

abbreviation take_again :: "fid comp" where
  "take_again \<equiv> seqM thread_call (bindM (future_pointer_cache_allocate_local Local) (\<lambda>f. seqM (assertM (f \<noteq> None)) (derefM f)))"

abbreviation alloc_stop :: "world \<Rightarrow> fid multiset \<Rightarrow> stop \<Rightarrow> bool" where
  "alloc_stop w H e \<equiv> e \<in> {ExitError, ScheduleEnd} \<or> H = mset (concat (storage_pages (allocator w))) \<and> outside e"

lemma take_again_effect:
  assumes "cache_state (allocator w1) K xl pl xg pg" and "xl \<noteq> []"
    and "mset xl + mset xg + H = mset (concat (storage_pages (allocator w1)))"
    and "distinct (concat (storage_pages (allocator w1)))"
    and "\<forall>f \<in> set (concat (storage_pages (allocator w1))). f \<notin># H \<longrightarrow> futures w1 f = zero_future"
    and "\<forall>g \<in># H. futures w1 g = futures w g" and "same_rest (allocator w) (allocator w1)"
  shows "wp take_again (allocated w H) (alloc_stop w H) w1"
proof -
  have "wp (future_pointer_cache_allocate_local Local) (\<lambda>f. wp (seqM (assertM (f \<noteq> None)) (derefM f)) (allocated w H) (alloc_stop w H))
      (alloc_stop w H) (w1\<lparr>schedule := ss\<rparr>)" for ss
    by (rule wp_mono [OF take_from_local [of "w1\<lparr>schedule := ss\<rparr>" K xl pl xg pg H w]]) (use assms in \<open>auto simp: wp_simps\<close>)
  then show ?thesis by (auto simp: wp_simps split: list.splits step.splits)
qed

text \<open>A page of the global cache replaces an empty page of the local one.\<close>

lemma take_from_global:
  assumes K: "page_capacity (page_size (allocator w2)) = Inr K" and cs: "cache_state (allocator w1) K [] pl xg pg"
    and o2: "only_cache Global pg (allocator w1) (allocator w2)" and p: "p \<in> pg" "gs \<noteq> []" "loose_page K (pages (allocator w2)) p gs" "xg = gs @ ys"
    and g2: "stack_in K (allocator w2) Global ys (pg - {p})"
    and all: "mset xg + H = mset (concat (storage_pages (allocator w1)))" and dist: "distinct (concat (storage_pages (allocator w1)))"
    and zero: "\<forall>f \<in> set (concat (storage_pages (allocator w1))). f \<notin># H \<longrightarrow> futures w2 f = zero_future"
    and same: "\<forall>g \<in># H. futures w2 g = futures w g" "same_rest (allocator w) (allocator w1)"
  shows "wp (seqM (bindM (future_pointer_cache_obtain_empty Local) (\<lambda>e. seqM (future_pointer_cache_insert_empty Global e) (
      future_pointer_cache_insert_futures Local p))) take_again) (allocated w H) (alloc_stop w H) w2"
proof -
  let ?a = "allocator w1"
  have l1: "stack_in K ?a Local [] pl" "pl \<noteq> {}" and d1: "pl \<inter> pg = {}" using cs by (auto simp: cache_state_def)
  have l2: "stack_in K (allocator w2) Local [] pl" by (rule only_cache_frame [OF o2 l1(1)]) (use d1 in auto)
  show ?thesis
  proof (subst wp_seq, rule wp_mono [OF swap_in [of w2 K pl ys "pg - {p}" p gs]], goal_cases)
    case (10 u w3)
    then obtain a3 q where w3: "w3 = w2\<lparr>allocator := a3\<rparr>" and q: "q \<in> pl" and o3: "only_caches (insert p (pl \<union> (pg - {p}))) (allocator w2) a3"
      and l3: "stack_in K a3 Local gs (insert p (pl - {q}))" and g3: "stack_in K a3 Global ys (insert q (pg - {p}))" by auto
    have rest: "same_rest ?a a3" "storage_pages a3 = storage_pages ?a"
      using same_restI [OF only_caches_single [OF o2 subset_refl]] same_restI [OF o3] same_rest_trans by metis+
    have "cache_state a3 K gs (insert p (pl - {q})) ys (insert q (pg - {p}))"
      using l3 g3 cs rest d1 p q by (auto simp: cache_state_def same_rest_def)
    then show ?case
      by (intro take_again_effect [of w3 K gs "insert p (pl - {q})" ys "insert q (pg - {p})" H w])
         (use p all dist zero same same_rest_trans [OF same(2) rest(1)] rest w3 in auto)
  qed (use K l2 l1 g2 d1 p in auto)
qed

text \<open>When both caches are empty, a new storage page fills the local one.\<close>

lemma take_from_storage:
  assumes cs: "cache_state (allocator w1) K [] pl [] pg" and H: "H = mset (concat (storage_pages (allocator w1)))"
    and dist: "distinct (concat (storage_pages (allocator w1)))" and sp: "storage_pages (allocator w1) = storage_pages (allocator w)"
    and same: "futures w1 = futures w" "same_rest (allocator w) (allocator w1)"
  shows "wp (seqM (seqM future_storage_allocate (bindM get_allocator (\<lambda>a. case storage_pages a of
      [] \<Rightarrow> stopM BadAccess | fs # _ \<Rightarrow> future_pointer_cache_refill_local Local fs))) take_again) (allocated w H) (alloc_stop w H) w1"
proof -
  let ?a = "allocator w1"
  have l1: "stack_in K ?a Local [] pl" "pl \<noteq> {}" and g1: "stack_in K ?a Global [] pg" and d1: "pl \<inter> pg = {}"
    and K: "page_capacity (page_size ?a) = Inr K" using cs by (auto simp: cache_state_def)
  obtain L where L: "storage_page_length (page_size ?a) = Inr L" "0 < L" "L \<le> K" using cs by (auto simp: cache_state_def)
  show ?thesis
  proof (subst wp_seq, subst wp_seq, rule wp_mono [OF storage_allocate_effect [OF L(1)]], elim exE conjE)
    fix u fs and w3 :: world
    assume len: "length fs = L" and df: "distinct fs" and new: "set fs \<inter> set (concat (storage_pages ?a)) = {}"
      and a3: "allocator w3 = ?a\<lparr>storage_pages := fs # storage_pages ?a\<rparr>"
      and f3: "futures w3 = (\<lambda>f. if f \<in> set fs then zero_future else futures w1 f)"
    have fs: "fs \<noteq> []" "length fs \<le> K" using len L(2,3) by auto
    have l3: "stack_in K (allocator w3) Local [] pl" and g3: "stack_in K (allocator w3) Global [] pg"
      and K3: "page_capacity (page_size (allocator w3)) = Inr K" using l1 g1 K a3 by simp_all
    have "wp (future_pointer_cache_refill_local Local fs) (\<lambda>_. wp take_again (allocated w H) (alloc_stop w H)) (alloc_stop w H) w3"
    proof (rule wp_mono [OF refill_local_stack [OF l3 l1(2) fs K3 page_capacity_pos [OF K]]], elim exE conjE)
      fix v w4 a4
      assume w4: "w4 = w3\<lparr>allocator := a4\<rparr>" and o4: "only_cache Local pl (allocator w3) a4" and l4: "stack_in K a4 Local fs pl"
      have g4: "stack_in K a4 Global [] pg" by (rule only_cache_frame [OF o4 g3]) (use d1 in auto)
      have rest: "same_rest (allocator w3) a4" "storage_pages a4 = fs # storage_pages ?a"
        using same_restI [OF only_caches_single [OF o4 subset_refl]] a3 by auto
      have r4: "same_rest (allocator w) a4" using rest(1) same(2) a3 by (simp add: same_rest_def)
      have cs4: "cache_state a4 K fs pl [] pg" using l4 g4 cs rest a3 by (auto simp: cache_state_def same_rest_def)
      show "wp take_again (allocated w H) (alloc_stop w H) w4"
      proof (rule take_again_effect [of _ K fs pl "[]" pg])
        show "\<forall>g \<in># H. futures w4 g = futures w g" using new H w4 f3 same by auto
        show "\<forall>f \<in> set (concat (storage_pages (allocator w4))). f \<notin># H \<longrightarrow> futures w4 f = zero_future" using rest w4 H f3 by auto
        show "distinct (concat (storage_pages (allocator w4)))" using rest w4 dist df new by auto
      qed (use cs4 fs rest r4 w4 H in auto)
    qed simp
    then show "wp (bindM get_allocator (\<lambda>a. case storage_pages a of [] \<Rightarrow> stopM BadAccess | fs # _ \<Rightarrow> future_pointer_cache_refill_local Local fs))
      (\<lambda>_. wp take_again (allocated w H) (alloc_stop w H)) (alloc_stop w H) w3"
      using a3 by (simp add: wp_simps)
  qed (use H sp in auto)
qed

lemma allocate_uninitialized_effect:
  assumes inv: "pool_inv w H"
  shows "wp future_allocate_uninitialized (allocated w H) (alloc_stop w H) w"
proof -
  let ?a = "allocator w"
  obtain K xl pl xg pg where cs: "cache_state ?a K xl pl xg pg" and all: "mset xl + mset xg + H = mset (concat (storage_pages ?a))"
    and dist: "distinct (concat (storage_pages ?a))"
    and zero: "\<forall>f \<in> set (concat (storage_pages ?a)). f \<notin># H \<longrightarrow> futures w f = zero_future"
    using inv by (auto simp: pool_inv_def allocator_inv_def)
  show ?thesis
  proof (cases "xl = []")
    case False
    show ?thesis unfolding future_allocate_uninitialized_def wp_bind
      by (rule wp_mono [OF take_from_local [OF cs False all dist zero, of w]]) (auto simp: wp_simps)
  next
    case True
    show ?thesis unfolding future_allocate_uninitialized_def wp_bind
    proof (rule wp_mono [OF allocate_local_state [OF cs]], elim conjE exE)
      fix f w' a'
      assume f: "f = (if xl = [] then None else Some (last xl))" and w': "w' = w\<lparr>allocator := a'\<rparr>"
        and o: "only_caches pl ?a a'" and cs': "cache_state a' K (butlast xl) pl xg pg"
      have cs1: "cache_state a' K [] pl xg pg" using cs' True by simp
      have r: "same_rest ?a a'" "storage_pages a' = storage_pages ?a" using same_restI [OF o] by auto
      have K: "page_capacity (page_size a') = Inr K" using cs' by (simp add: cache_state_def)
      have "wp (future_pointer_cache_extract_futures Global) (\<lambda>page. wp (seqM (case page of
            Some p \<Rightarrow> bindM (future_pointer_cache_obtain_empty Local) (\<lambda>e. seqM (future_pointer_cache_insert_empty Global e) (
              future_pointer_cache_insert_futures Local p))
          | None \<Rightarrow> seqM future_storage_allocate (bindM get_allocator (\<lambda>a. case storage_pages a of
                [] \<Rightarrow> stopM BadAccess | fs # _ \<Rightarrow> future_pointer_cache_refill_local Local fs))) take_again) (allocated w H) (alloc_stop w H))
          (alloc_stop w H) (w'\<lparr>schedule := ss\<rparr>)" (is "wp _ ?Q _ ?w") for ss
      proof (rule wp_mono [OF extract_futures_stack [of K ?w Global xg pg]], goal_cases)
        case (3 page w2)
        show ?case
        proof (cases page)
          case (Some p)
          with 3 obtain a2 gs ys where w2: "w2 = ?w\<lparr>allocator := a2\<rparr>" "only_cache Global pg a' a2" "p \<in> pg" "gs \<noteq> []"
            "loose_page K (pages a2) p gs" "xg = gs @ ys" "stack_in K a2 Global ys (pg - {p})" using w' by auto
          show ?thesis unfolding Some option.case
            by (rule take_from_global [of w2 K ?w pl xg pg p gs ys H w])
               (use w2 cs1 w' r all True dist zero K only_cache_page_size [OF w2(2)] in auto)
        next
          case None
          with 3 have "xg = []" "w2 = ?w" by auto
          then show ?thesis unfolding None option.case
            by (intro take_from_storage [of w2 K pl pg H w]) (use cs1 w' r all True dist in auto)
        qed
      qed (use cs1 w' page_capacity_pos [OF K] in \<open>auto simp: cache_state_def\<close>)
      then show "wp (case f of Some f \<Rightarrow> retM f | None \<Rightarrow> seqM thread_call (bindM (future_pointer_cache_extract_futures Global) (\<lambda>page. seqM (case page of
            Some p \<Rightarrow> bindM (future_pointer_cache_obtain_empty Local) (\<lambda>e. seqM (future_pointer_cache_insert_empty Global e) (
              future_pointer_cache_insert_futures Local p))
          | None \<Rightarrow> seqM future_storage_allocate (bindM get_allocator (\<lambda>a. case storage_pages a of
                [] \<Rightarrow> stopM BadAccess | fs # _ \<Rightarrow> future_pointer_cache_refill_local Local fs))) take_again))) (allocated w H) (alloc_stop w H) w'"
        using f True by (auto simp: wp_simps split: list.splits step.splits)
    qed simp
  qed
qed

lemma cache_stack_length:
  assumes "cache_stack K h c xs ps"
  shows "length xs \<le> K * card ps"
proof (cases "ps = {}")
  case True
  then show ?thesis using cache_stack_empty [of K h c xs] assms by simp
next
  case False
  then obtain fulls t fs es where sh: "cache_shape K h c fulls t fs es" "xs = concat (map snd fulls) @ fs"
    "ps = fst ` set fulls \<union> {t} \<union> set es" using assms unfolding cache_stack_def by blast
  show ?thesis using cache_stack_size [OF sh] by (simp add: algebra_simps)
qed

text \<open>What one liberation does.\<close>

definition liberated :: "world \<Rightarrow> fid multiset \<Rightarrow> fid \<Rightarrow> world \<Rightarrow> bool" where
  "liberated w H f w' \<longleftrightarrow> pool_inv w' H \<and> futures w' = (futures w)(f := zero_future) \<and> same_rest (allocator w) (allocator w')"

lemma give_to_local:
  assumes cs: "cache_state (allocator w1) K xl pl xg pg" and room: "length xl < K * card pl"
    and all: "mset xl + mset xg + add_mset f H = mset (concat (storage_pages (allocator w1)))"
    and dist: "distinct (concat (storage_pages (allocator w1)))"
    and zero: "\<forall>g \<in> set (concat (storage_pages (allocator w1))). g \<notin># add_mset f H \<longrightarrow> futures w1 g = zero_future"
    and same: "futures w1 = futures w" "same_rest (allocator w) (allocator w1)"
  shows "wp (future_pointer_cache_liberate_local Local f) (\<lambda>ok w'. ok \<and> liberated w H f w') (\<lambda>_. False) w1"
proof -
  have st: "stack_in K (allocator w1) Local xl pl" "pl \<noteq> {}" "stack_in K (allocator w1) Global xg pg" "pl \<inter> pg = {}"
    and K: "page_capacity (page_size (allocator w1)) = Inr K" using cs by (auto simp: cache_state_def)
  show ?thesis
  proof (rule wp_mono [OF liberate_local_stack [OF st(1,2) K page_capacity_pos [OF K]]], goal_cases)
    case (1 ok w')
    then obtain a' where ok: ok and w': "w' = w1\<lparr>futures := (futures w1)(f := zero_future), allocator := a'\<rparr>"
      and o: "only_cache Local pl (allocator w1) a'" and l: "stack_in K a' Local (xl @ [f]) pl" using room by auto
    have g: "stack_in K a' Global xg pg" by (rule only_cache_frame [OF o st(3)]) (use st in auto)
    have r: "same_rest (allocator w1) a'" "storage_pages a' = storage_pages (allocator w1)"
      using same_restI [OF only_caches_single [OF o subset_refl]] by auto
    have "cache_state a' K (xl @ [f]) pl xg pg" using cs l g r by (auto simp: cache_state_def same_rest_def)
    moreover have "mset (xl @ [f]) + mset xg + H = mset (concat (storage_pages a'))" using all r by simp
    ultimately have "allocator_inv a' H" unfolding allocator_inv_def using dist [folded r(2)] by blast
    then have "pool_inv w' H" using zero w' r by (auto simp: pool_inv_def)
    then show ?case using ok w' same same_rest_trans [OF same(2) r(1)] by (simp add: liberated_def)
  qed simp
qed

text \<open>A full local cache hands its oldest page over to the global cache and gets an empty page.\<close>

lemma make_room:
  assumes cs: "cache_state (allocator w) K xl pl xg pg" and full: "\<not> length xl < K * card pl"
  shows "wp (bindM (future_pointer_cache_extract_futures Local) (\<lambda>page. seqM (assertM (page \<noteq> None)) (bindM (derefM page) (\<lambda>p.
      seqM thread_call (seqM (future_pointer_cache_insert_futures Global p) (bindM (future_pointer_cache_obtain_empty Global) (\<lambda>e.
      seqM (future_pointer_cache_insert_empty Local e) thread_call)))))))
    (\<lambda>_ w'. \<exists>gs zs ql qg. xl = gs @ zs \<and> length zs < K * card ql \<and> futures w' = futures w \<and>
       cache_state (allocator w') K zs ql (gs @ xg) qg \<and>
       same_rest (allocator w) (allocator w') \<and> storage_pages (allocator w') = storage_pages (allocator w))
    (\<lambda>e. e \<in> {ExitError, ScheduleEnd}) w"
proof -
  let ?a = "allocator w" and ?E = "\<lambda>e. e \<in> {ExitError, ScheduleEnd}"
  have l: "stack_in K ?a Local xl pl" "pl \<noteq> {}" and g: "stack_in K ?a Global xg pg" and d: "pl \<inter> pg = {}"
    and K: "page_capacity (page_size ?a) = Inr K" using cs by (auto simp: cache_state_def)
  note K0 = page_capacity_pos [OF K]
  have c1: "1 \<le> card pl" using l cache_stack_finite [OF l(1)] by (simp add: Suc_le_eq card_gt_0_iff)
  have kc: "length xl = K * card pl" using cache_stack_length [OF l(1)] full by simp
  show ?thesis unfolding wp_bind
  proof (rule wp_mono [OF extract_futures_stack [OF l(1) K0]], goal_cases)
    case (1 page w1)
    have ne: "xl \<noteq> []" using kc K0 c1 by auto
    obtain p a1 gs zs where page: "page = Some p" and w1: "w1 = w\<lparr>allocator := a1\<rparr>" and o1: "only_cache Local pl ?a a1" and p: "p \<in> pl" "gs \<noteq> []"
      "loose_page K (pages a1) p gs" "xl = gs @ zs" "zs = [] \<or> length gs = K" and l1: "stack_in K a1 Local zs (pl - {p})"
      using 1 ne by (auto split: option.splits)
    have lg: "length gs = K"
    proof -
      have "length gs \<le> K" using p(3) by (simp add: loose_page_def page_holds_def)
      moreover have "K \<le> length xl" using kc c1 by simp
      ultimately show ?thesis using p(4,5) by auto
    qed
    have g1: "stack_in K a1 Global xg pg" by (rule only_cache_frame [OF o1 g]) (use d in auto)
    have pg: "p \<notin> pg" using p d by auto
    have step: "wp (future_pointer_cache_insert_futures Global p) (\<lambda>_ w'. \<exists>a'. w' = w2\<lparr>allocator := a'\<rparr> \<and>
        only_cache Global (insert p pg) a1 a' \<and> stack_in K a' Global (gs @ xg) (insert p pg)) (\<lambda>_. False) w2" if "allocator w2 = a1" for w2
      by (rule wp_mono [OF insert_futures_stack [of K w2 Global xg pg p gs]])
         (use that g1 p pg lg K K0 only_cache_page_size [OF o1] in auto)
    have main: "wp (seqM (future_pointer_cache_insert_futures Global p) (bindM (future_pointer_cache_obtain_empty Global) (\<lambda>e.
        seqM (future_pointer_cache_insert_empty Local e) thread_call)))
      (\<lambda>_ w'. \<exists>ql qg. length zs < K * card ql \<and> futures w' = futures w \<and> cache_state (allocator w') K zs ql (gs @ xg) qg \<and>
         same_rest ?a (allocator w') \<and> storage_pages (allocator w') = storage_pages ?a) ?E w2" if w2: "allocator w2 = a1" "futures w2 = futures w" for w2
      unfolding wp_seq wp_bind
    proof (rule wp_mono [OF step [OF w2(1)]], goal_cases)
      case (1 u w3)
      then obtain a3 where w3: "w3 = w2\<lparr>allocator := a3\<rparr>" and o3: "only_cache Global (insert p pg) a1 a3"
        and g3: "stack_in K a3 Global (gs @ xg) (insert p pg)" by blast
      have l3: "stack_in K a3 Local zs (pl - {p})" by (rule only_cache_frame [OF o3 l1]) (use d in auto)
      have ps3: "page_size a3 = page_size ?a" using only_cache_page_size [OF o1] only_cache_page_size [OF o3] by simp
      have r3: "same_rest ?a a3" "storage_pages a3 = storage_pages ?a"
        using same_restI [OF only_caches_single [OF o1 subset_refl]] same_restI [OF only_caches_single [OF o3 subset_refl]] same_rest_trans by metis+
      show ?case
      proof (rule wp_mono [OF obtain_empty_stack [of K w3 Global "gs @ xg" "insert p pg"]], goal_cases)
        case (4 q w4)
        then obtain a4 where o4: "only_cache Global (insert q (insert p pg)) a3 a4" and lq: "loose_page K (pages a4) q []"
          and g4: "stack_in K a4 Global (gs @ xg) (insert p pg - {q})" and w4: "allocator w4 = a4" "futures w4 = futures w"
          and q: "q \<in> insert p pg \<or> pages a3 q = None"
          using w3 w2 by (auto split: if_splits)
        have ql: "q \<notin> pl - {p}" using q d cache_stack_pages [OF l3, of q] by auto
        have l4: "stack_in K a4 Local zs (pl - {p})" by (rule only_cache_frame [OF o4 l3]) (use d ql in auto)
        have r4: "same_rest a3 a4" "storage_pages a4 = storage_pages a3" using same_restI [OF only_caches_single [OF o4 subset_refl]] by auto
        show ?case
        proof (rule wp_mono [OF insert_empty_stack [of K w4 Local zs "pl - {p}" q]], goal_cases)
          case (5 v w5)
          then obtain a5 where w5: "w5 = w4\<lparr>allocator := a5\<rparr>" and o5: "only_cache Local (insert q (pl - {p})) a4 a5"
            and l5: "stack_in K a5 Local zs (insert q (pl - {p}))" using w4 by auto
          have g5: "stack_in K a5 Global (gs @ xg) (insert p pg - {q})" by (rule only_cache_frame [OF o5 g4]) (use d in auto)
          have r5: "same_rest a4 a5" "storage_pages a5 = storage_pages a4" using same_restI [OF only_caches_single [OF o5 subset_refl]] by auto
          have rest: "same_rest ?a a5" "storage_pages a5 = storage_pages ?a" using r3 r4 r5 same_rest_trans by metis+
          have "card (insert q (pl - {p})) = card pl"
            using ql cache_stack_finite [OF l(1)] c1 p(1) by (simp add: card_Suc_Diff1 del: card_Diff_insert)
          then have "length zs < K * card (insert q (pl - {p}))" using kc p(4) lg K0 c1 by auto
          moreover have "cache_state a5 K zs (insert q (pl - {p})) (gs @ xg) (insert p pg - {q})"
            using cs l5 g5 rest d by (auto simp: cache_state_def same_rest_def)
          ultimately show ?case using w4 w5 rest by (auto simp: wp_simps split: list.splits step.splits)
        qed (use l4 lq ql K0 w4 in auto)
      qed (use g3 w3 K K0 ps3 in auto)
    qed simp
    have "wp (seqM thread_call (seqM (future_pointer_cache_insert_futures Global p) (bindM (future_pointer_cache_obtain_empty Global) (\<lambda>e.
        seqM (future_pointer_cache_insert_empty Local e) thread_call))))
      (\<lambda>_ w'. \<exists>gs zs ql qg. xl = gs @ zs \<and> length zs < K * card ql \<and> futures w' = futures w \<and> cache_state (allocator w') K zs ql (gs @ xg) qg \<and>
         same_rest ?a (allocator w') \<and> storage_pages (allocator w') = storage_pages ?a) ?E w1"
    proof -
      have "wp (seqM (future_pointer_cache_insert_futures Global p) (bindM (future_pointer_cache_obtain_empty Global) (\<lambda>e.
          seqM (future_pointer_cache_insert_empty Local e) thread_call)))
        (\<lambda>_ w'. \<exists>gs zs ql qg. xl = gs @ zs \<and> length zs < K * card ql \<and> futures w' = futures w \<and> cache_state (allocator w') K zs ql (gs @ xg) qg \<and>
         same_rest ?a (allocator w') \<and> storage_pages (allocator w') = storage_pages ?a) ?E (w1\<lparr>schedule := ss\<rparr>)" for ss
        by (rule wp_mono [OF main]) (use w1 p(4) in auto)
      then show ?thesis by (subst wp_seq) (auto simp: wp_thread_call split: list.splits step.splits)
    qed
    then show ?case unfolding page by (simp add: wp_simps)
  qed simp
qed

lemma liberate_uninitialized_effect:
  assumes inv: "pool_inv w (add_mset f H)"
  shows "wp (future_liberate_uninitialized f) (\<lambda>_. liberated w H f) (\<lambda>e. e \<in> {ExitError, ScheduleEnd}) w"
proof -
  let ?a = "allocator w" and ?E = "\<lambda>e. e \<in> {ExitError, ScheduleEnd}"
  obtain K xl pl xg pg where cs: "cache_state ?a K xl pl xg pg" and all: "mset xl + mset xg + add_mset f H = mset (concat (storage_pages ?a))"
    and dist: "distinct (concat (storage_pages ?a))"
    and zero: "\<forall>g \<in> set (concat (storage_pages ?a)). g \<notin># add_mset f H \<longrightarrow> futures w g = zero_future"
    using inv by (auto simp: pool_inv_def allocator_inv_def)
  show ?thesis
  proof (cases "length xl < K * card pl")
    case True
    show ?thesis unfolding future_liberate_uninitialized_def wp_bind
      by (rule wp_mono [OF give_to_local [OF cs True all dist zero, of w]]) (auto simp: wp_simps)
  next
    case False
    have st: "stack_in K ?a Local xl pl" "pl \<noteq> {}" and K: "page_capacity (page_size ?a) = Inr K" using cs by (auto simp: cache_state_def)
    have last_part: "wp (bindM (future_pointer_cache_liberate_local Local f) assertM) (\<lambda>_. liberated w H f) ?E w1"
      if w1: "xl = gs @ zs" "length zs < K * card ql" "futures w1 = futures w" "cache_state (allocator w1) K zs ql (gs @ xg) qg"
        "same_rest ?a (allocator w1)" "storage_pages (allocator w1) = storage_pages ?a" for w1 gs zs ql qg
      unfolding wp_bind
      by (rule wp_mono [OF give_to_local [of w1 K zs ql "gs @ xg" qg f H w]]) (use w1 all dist zero in \<open>auto simp: wp_simps ac_simps\<close>)
    have "wp (bindM (future_pointer_cache_extract_futures Local) (\<lambda>page. seqM (assertM (page \<noteq> None)) (bindM (derefM page) (\<lambda>p.
        seqM thread_call (seqM (future_pointer_cache_insert_futures Global p) (bindM (future_pointer_cache_obtain_empty Global) (\<lambda>e.
        seqM (future_pointer_cache_insert_empty Local e) thread_call)))))))
      (\<lambda>_. wp (bindM (future_pointer_cache_liberate_local Local f) assertM) (\<lambda>_. liberated w H f) ?E) ?E w"
      by (rule wp_mono [OF make_room [OF cs False]]) (use last_part in blast)+
    then show ?thesis unfolding future_liberate_uninitialized_def
      by (subst wp_bind, intro wp_mono [OF liberate_local_stack [OF st K page_capacity_pos [OF K]]])
         (use False in \<open>auto simp: wp_eta\<close>)
  qed
qed

text \<open>With a future in the local cache, an allocation does not stop.\<close>

lemma allocate_from_top:
  assumes inv: "pool_inv w H" and top: "num_top_futures (local_futures (allocator w)) \<noteq> 0"
  shows "wp future_allocate_uninitialized (allocated w H) (\<lambda>_. False) w"
proof -
  let ?a = "allocator w"
  obtain K xl pl xg pg where cs: "cache_state ?a K xl pl xg pg" and all: "mset xl + mset xg + H = mset (concat (storage_pages ?a))"
    and dist: "distinct (concat (storage_pages ?a))"
    and zero: "\<forall>f \<in> set (concat (storage_pages ?a)). f \<notin># H \<longrightarrow> futures w f = zero_future"
    using inv by (auto simp: pool_inv_def allocator_inv_def)
  have "num_top_futures (cache_of Local ?a) = top_count K (length xl)"
    by (rule top_count_stack) (use cs page_capacity_pos in \<open>auto simp: cache_state_def\<close>)
  then have ne: "xl \<noteq> []" using top by (auto simp: top_count_def)
  show ?thesis unfolding future_allocate_uninitialized_def wp_bind
    by (rule wp_mono [OF take_from_local [OF cs ne all dist zero, of w]]) (auto simp: wp_simps)
qed

section \<open>The allocator as a store of futures\<close>

text \<open>What the users of an allocator rely on: a future that is handed out is all zero and nobody has
  it, the futures in use are left alone, and a future in use can be given back.\<close>

locale future_store =
  fixes store :: "world \<Rightarrow> fid multiset \<Rightarrow> bool" and take_one :: "fid comp" and give_back :: "fid \<Rightarrow> unit comp"
  assumes take_law: "store w H \<Longrightarrow> wp take_one (\<lambda>f w'. store w' (add_mset f H) \<and> f \<notin># H \<and> futures w' f = zero_future \<and>
      (\<forall>g \<in># H. futures w' g = futures w g)) outside w"
    and give_law: "store w (add_mset f H) \<Longrightarrow> wp (give_back f) (\<lambda>_ w'. store w' H \<and> futures w' f = zero_future \<and>
      (\<forall>g. g \<noteq> f \<longrightarrow> futures w' g = futures w g)) outside w"

text \<open>A user of the store: a sequence of requests, each for a new future or to give back the one at some
  position among those in hand.\<close>

datatype request = Take | Give nat

fun serve :: "fid comp \<Rightarrow> (fid \<Rightarrow> unit comp) \<Rightarrow> request list \<Rightarrow> fid list \<Rightarrow> fid list comp" where
  "serve new old [] hs = retM hs"
| "serve new old (Take # rs) hs = bindM new (\<lambda>f. serve new old rs (f # hs))"
| "serve new old (Give i # rs) hs =
    (if i < length hs then seqM (old (hs ! i)) (serve new old rs (take i hs @ drop (Suc i) hs))
     else serve new old rs hs)"

lemma mset_nth_split: "i < length hs \<Longrightarrow> mset hs = add_mset (hs ! i) (mset (take i hs @ drop (Suc i) hs))"
  by (subst (1) id_take_nth_drop [of i hs]) simp_all

lemma distinct_take_drop: "distinct hs \<Longrightarrow> distinct (take i hs @ drop (Suc i) hs)"
  by (cases "i < length hs") (simp_all add: set_take_disj_set_drop_if_distinct)

context future_store
begin

lemma serve_store:
  assumes "store w (mset hs)" and "distinct hs"
  shows "wp (serve take_one give_back rs hs) (\<lambda>hs' w'. store w' (mset hs') \<and> distinct hs') outside w"
  using assms
proof (induction rs arbitrary: hs w)
  case Nil
  then show ?case by (simp add: wp_simps)
next
  case (Cons r rs)
  show ?case
  proof (cases r)
    case Take
    show ?thesis unfolding Take serve.simps wp_bind
      by (rule wp_mono [OF take_law [OF Cons.prems(1)]]) (use Cons.IH Cons.prems(2) in auto)
  next
    case (Give i)
    show ?thesis
    proof (cases "i < length hs")
      case True
      let ?rest = "take i hs @ drop (Suc i) hs"
      have "store w (add_mset (hs ! i) (mset ?rest))" using Cons.prems(1) mset_nth_split [OF True] by simp
      then have "wp (give_back (hs ! i)) (\<lambda>_. wp (serve take_one give_back rs ?rest)
          (\<lambda>hs' w'. store w' (mset hs') \<and> distinct hs') outside) outside w"
        by (rule wp_mono [OF give_law]) (use Cons.IH distinct_take_drop [OF Cons.prems(2), of i] in auto)
      then show ?thesis using True Give by (simp add: wp_seq)
    qed (use Cons Give in simp)
  qed
qed

end

text \<open>The allocator keeps the contract.\<close>

interpretation allocator: future_store pool_inv future_allocate_uninitialized future_liberate_uninitialized
proof (unfold_locales, goal_cases)
  case (1 w H)
  show ?case by (rule wp_mono [OF allocate_uninitialized_effect [OF 1]]) (auto simp: allocated_def)
next
  case (2 w f H)
  show ?case by (rule wp_mono [OF liberate_uninitialized_effect [OF 2]]) (auto simp: liberated_def)
qed

section \<open>Properties\<close>

text \<open>An allocator with one storage page of one future, which is in the local cache.\<close>

definition pool_allocator :: allocator_state where
  "pool_allocator = empty_allocator\<lparr>page_size := 256, pages := [1 \<mapsto> sample_page None None (Some 10 # replicate 29 None)],
     local_futures := \<lparr>cache_bottom = Some 1, cache_top = Some 1, num_top_futures = 1\<rparr>, storage_pages := [[10]]\<rparr>"

definition pool_world :: world where
  "pool_world = \<lparr>futures = (\<lambda>_. zero_future), allocator = pool_allocator, schedule = [], trace = []\<rparr>"

lemma pool_world_inv: "pool_inv pool_world {#}"
proof -
  have "cache_shape 30 (pages pool_allocator) (cache_of Local pool_allocator) [] 1 [10] []"
    by (simp add: cache_shape_def pool_allocator_def sample_page_def page_holds_def)
  then have "stack_in 30 pool_allocator Local [10] {1}" by (rule cache_stackI) auto
  then have "cache_state pool_allocator 30 [10] {1} [] {}"
    by (simp add: cache_state_def page_capacity_def storage_page_length_def FALSE_SHARING_GRANULARITY_def)
       (simp add: pool_allocator_def empty_allocator_def cache_stack_def)
  then have "allocator_inv pool_allocator {#}" unfolding allocator_inv_def
    by (intro conjI exI) (simp add: pool_allocator_def, assumption, simp add: pool_allocator_def)
  then show ?thesis by (simp add: pool_inv_def pool_world_def)
qed

text \<open>C17. An allocation hands out a future that nobody uses and that is in the state of unused
  futures, records it as in use, and leaves the futures in use alone.  With a future in the local cache
  it cannot fail; otherwise it stops only when the process exits, or when the futures are all in use
  and the operating system refuses memory.  It never reads or writes outside of the pages.\<close>

theorem future_allocation_exact:
  assumes "pool_inv w H"
  shows "wp future_allocate_uninitialized (\<lambda>f w'. pool_inv w' (add_mset f H) \<and> f \<notin># H \<and> futures w' f = zero_future \<and>
      (\<forall>g \<in># H. futures w' g = futures w g) \<and> same_rest (allocator w) (allocator w'))
    (\<lambda>e. num_top_futures (local_futures (allocator w)) = 0 \<and>
      (e \<in> {ExitError, ScheduleEnd} \<or> H = mset (concat (storage_pages (allocator w))) \<and> outside e)) w"
proof (cases "num_top_futures (local_futures (allocator w)) = 0")
  case True
  show ?thesis by (rule wp_mono [OF allocate_uninitialized_effect [OF assms]]) (use True in \<open>auto simp: allocated_def\<close>)
next
  case False
  show ?thesis by (rule wp_mono [OF allocate_from_top [OF assms False]]) (auto simp: allocated_def)
qed

theorem future_allocation_exact_witness:
  "\<exists>f w'. future_allocate_uninitialized pool_world = Inr (f, w') \<and> pool_inv w' {#f#} \<and> futures w' f = zero_future"
proof -
  have "num_top_futures (local_futures (allocator pool_world)) \<noteq> 0" by (simp add: pool_world_def pool_allocator_def)
  then show ?thesis using future_allocation_exact [OF pool_world_inv] by (auto simp: wp_def split: sum.splits)
qed

text \<open>C2. Whatever sequence of allocations and liberations a thread performs, no two futures in use
  are the same and none is lost: the futures of the storage pages are those in use and those in the two
  caches, each once.  No request reads or writes outside of the pages.\<close>

theorem allocator_no_double_use:
  assumes "pool_inv w (mset hs)" and "distinct hs"
  shows "wp (serve future_allocate_uninitialized future_liberate_uninitialized rs hs)
    (\<lambda>hs' w'. pool_inv w' (mset hs') \<and> distinct hs') outside w"
  by (rule allocator.serve_store [OF assms])

theorem allocator_no_double_use_witness:
  "wp (serve future_allocate_uninitialized future_liberate_uninitialized [Take, Give 0, Take] [])
    (\<lambda>hs' w'. pool_inv w' (mset hs') \<and> distinct hs') outside pool_world"
  by (rule allocator_no_double_use) (simp_all add: pool_world_inv)

end
