(* ===== verification/Consumption.thy ===== *)
theory Consumption
  imports AllocatorSpec "HOL-Library.Sublist"
begin

text \<open>
  A computation consumes the schedule from the front: what is left is a suffix.  Proved for the
  allocation of futures, so that what a theorem supposes of the other threads still holds afterwards.
\<close>

definition consumes :: "'a comp \<Rightarrow> bool" where
  "consumes m \<longleftrightarrow> (\<forall>w. wp m (\<lambda>_ w'. suffix (schedule w') (schedule w)) (\<lambda>_. True) w)"

named_theorems consumes_intros \<open>computations that consume the schedule from the front\<close>

lemma consumes_bind [consumes_intros]:
  assumes m: "consumes m" and f: "\<And>x. consumes (f x)"
  shows "consumes (bindM m f)"
proof -
  have "wp m (\<lambda>x. wp (f x) (\<lambda>_ w'. suffix (schedule w') (schedule w)) (\<lambda>_. True)) (\<lambda>_. True) w" for w
  proof (rule wp_mono [OF m [unfolded consumes_def, rule_format]])
    fix x and w1 :: world
    assume "suffix (schedule w1) (schedule w)"
    then show "wp (f x) (\<lambda>_ w'. suffix (schedule w') (schedule w)) (\<lambda>_. True) w1"
      by (intro wp_mono [OF f [unfolded consumes_def, rule_format]]) (auto intro: suffix_order.order_trans)
  qed simp
  then show ?thesis by (simp add: consumes_def wp_bind)
qed

lemma consumes_seq [consumes_intros]: "consumes m \<Longrightarrow> consumes k \<Longrightarrow> consumes (seqM m k)"
  unfolding seqM_def by (rule consumes_bind)

lemma consumes_basic [consumes_intros]:
  "consumes (retM x)" "consumes (stopM e)" "consumes (emit ef)" "consumes get_allocator" "consumes (put_allocator a)"
  "consumes (ensureM c)" "consumes (assertM c)" "consumes syscall" "consumes limits_syscall" "consumes thread_call"
  "consumes (get_future f)" "consumes (set_future f fut)" "consumes (set_specific f sp)" "consumes (write_word f v)"
  by (auto simp: consumes_def wp_simps written_def suffix_Cons split: list.splits step.splits)

lemma consumes_lift [consumes_intros]: "consumes (liftR r)" "consumes (derefM p)" "consumes (check_status st b)"
  by (auto simp: consumes_def wp_def liftR_def bindR_def derefM_def check_status_def retM_def stopM_def split: sum.splits option.splits)

lemma consumes_cases [consumes_intros]:
  "consumes a \<Longrightarrow> consumes b \<Longrightarrow> consumes (if c then a else b)"
  "(\<And>x y. consumes (f x y)) \<Longrightarrow> consumes (case p of (x, y) \<Rightarrow> f x y)"
  "consumes n \<Longrightarrow> (\<And>x. consumes (g x)) \<Longrightarrow> consumes (case q of None \<Rightarrow> n | Some x \<Rightarrow> g x)"
  "consumes n' \<Longrightarrow> (\<And>x xs. consumes (h x xs)) \<Longrightarrow> consumes (case l of [] \<Rightarrow> n' | x # xs \<Rightarrow> h x xs)"
  by (simp_all split: prod.splits option.splits list.splits)

lemma consumes_let [consumes_intros]: "(\<And>x. consumes (f x)) \<Longrightarrow> consumes (Let v f)"
  by simp

section \<open>Pages and caches\<close>

lemma consumes_page [consumes_intros]:
  "consumes (get_page p)" "consumes (put_page p pg)" "consumes (update_page p u)" "consumes (slot_read pg i)"
  "consumes (slot_write p i v)" "consumes (get_cache r)" "consumes (put_cache r c)" "consumes future_pointer_page_capacity"
  unfolding get_page_def put_page_def update_page_def slot_read_def slot_write_def get_cache_def put_cache_def future_pointer_page_capacity_def
  by (intro consumes_intros)+

lemma consumes_page_operations [consumes_intros]:
  "consumes future_pointer_page_initialize" "consumes (future_pointer_page_occupancy p)" "consumes (future_pointer_page_unlink p)"
  "consumes (move_pointers i num tp n moved)"
  unfolding future_pointer_page_initialize_def future_pointer_page_occupancy_def future_pointer_page_unlink_def move_pointers_def
  by (intro consumes_intros)+

lemma consumes_cache_operations [consumes_intros]:
  "consumes (future_pointer_cache_allocate_local r)" "consumes (future_pointer_cache_extract_futures r)"
  "consumes (future_pointer_cache_obtain_empty r)" "consumes (future_pointer_cache_insert_empty r p)"
  unfolding future_pointer_cache_allocate_local_def future_pointer_cache_extract_futures_def
    future_pointer_cache_obtain_empty_def future_pointer_cache_insert_empty_def
  by (intro consumes_intros)+

lemma consumes_insert_futures [consumes_intros]: "consumes (future_pointer_cache_insert_futures r p)"
  unfolding future_pointer_cache_insert_futures_def by (intro consumes_intros)

lemma consumes_refill_slots [consumes_intros]: "consumes (refill_slots tp i fs)"
  by (induction fs arbitrary: i) (auto intro!: consumes_intros)

lemma consumes_refill [consumes_intros]: "consumes (future_pointer_cache_refill_local r fs)"
  unfolding future_pointer_cache_refill_local_def by (intro consumes_intros)

section \<open>Storage\<close>

lemma consumes_realtime [consumes_intros]:
  "consumes (try_increase_mlock_budget n)" "consumes (lock_pages n)" "consumes get_page_size" "consumes (realtime_allocate n)"
proof -
  show mlock: "consumes (try_increase_mlock_budget n)" for n
    unfolding try_increase_mlock_budget_def by (intro consumes_intros) (auto split: errno.splits intro!: consumes_intros)
  show lock: "consumes (lock_pages n)" for n
    unfolding lock_pages_def by (intro consumes_intros) (auto split: errno.splits intro!: consumes_intros mlock)
  show page: "consumes get_page_size" unfolding get_page_size_def by (intro consumes_intros)
  show "consumes (realtime_allocate n)"
    unfolding realtime_allocate_def allocation_size_def get_allocation_granularity_def by (intro consumes_intros lock page)
qed

lemma consumes_initialize_futures [consumes_intros]: "consumes (initialize_futures fs)"
  by (induction fs) (auto simp: future_status_initialize_def intro!: consumes_intros)

lemma consumes_storage_allocate [consumes_intros]: "consumes future_storage_allocate"
  unfolding future_storage_allocate_def future_storage_page_length_def by (intro consumes_intros)

lemma consumes_allocate: "consumes future_allocate_uninitialized"
  unfolding future_allocate_uninitialized_def by (intro consumes_intros)

text \<open>Two facts on one computation, together.\<close>

lemma wp_both: "wp m P (\<lambda>_. True) w \<Longrightarrow> wp m Q E w \<Longrightarrow> wp m (\<lambda>x w'. P x w' \<and> Q x w') E w"
  by (auto simp: wp_def split: sum.splits)

end
