(* ===== verification/ThreadCache.thy ===== *)
theory ThreadCache
  imports AllocatorSpec
begin

text \<open>
  The end of a thread-local cache (future/allocator/thread_cache.c).  The destructor of the thread
  and the destructor of the context may run at the same time; they agree through five flags on who
  empties the cache and who frees it.  Each function is a program counter and a step function, one
  step per access to shared memory, and all interleavings of the two are considered.
\<close>

section \<open>Flags\<close>

definition THREAD_CACHE_THREAD_DYING :: u32 where
  "THREAD_CACHE_THREAD_DYING = 1"

definition THREAD_CACHE_CONTEXT_DYING :: u32 where
  "THREAD_CACHE_CONTEXT_DYING = 2"

definition THREAD_CACHE_EMPTIED :: u32 where
  "THREAD_CACHE_EMPTIED = 4"

definition THREAD_CACHE_THREAD_DONE :: u32 where
  "THREAD_CACHE_THREAD_DONE = 8"

definition THREAD_CACHE_CONTEXT_DONE :: u32 where
  "THREAD_CACHE_CONTEXT_DONE = 16"

lemmas flag_defs = THREAD_CACHE_THREAD_DYING_def THREAD_CACHE_CONTEXT_DYING_def THREAD_CACHE_EMPTIED_def
  THREAD_CACHE_THREAD_DONE_def THREAD_CACHE_CONTEXT_DONE_def

text \<open>The shared memory: the flags, how often the contents were disposed of and how often the memory
  was freed, and whether the context destructor sleeps on the address of the flags.\<close>

record cache_cell =
  cell_flags :: u32
  cell_emptied :: nat
  cell_freed :: nat
  cell_sleeper :: bool

definition new_cell :: cache_cell where
  "new_cell = \<lparr>cell_flags = 0, cell_emptied = 0, cell_freed = 0, cell_sleeper = False\<rparr>"

definition access_cell :: "cache_cell \<Rightarrow> 'a res \<Rightarrow> 'a res" where
  "access_cell c k = (if cell_freed c > 0 then Inl BadAccess else k)"

definition fetch_or :: "u32 \<Rightarrow> cache_cell \<Rightarrow> cache_cell" where
  "fetch_or bits c = c\<lparr>cell_flags := cell_flags c OR bits\<rparr>"

definition empty_cell :: "cache_cell \<Rightarrow> cache_cell" where
  "empty_cell c = c\<lparr>cell_emptied := cell_emptied c + 1\<rparr>"

definition free_cell :: "cache_cell \<Rightarrow> cache_cell" where
  "free_cell c = c\<lparr>cell_freed := cell_freed c + 1\<rparr>"

section \<open>The destructor of the thread\<close>

datatype thread_pc = TStart | TSpill | TEmptied | TWake | TRelease | TDone | TEnd

fun future_thread_cache_finalize_from_thread :: "thread_pc \<Rightarrow> cache_cell \<Rightarrow> (thread_pc \<times> cache_cell) res" where
  "future_thread_cache_finalize_from_thread TStart c = access_cell c (
    let previous_flags = cell_flags c in
    assert_that (previous_flags AND (THREAD_CACHE_THREAD_DYING OR THREAD_CACHE_THREAD_DONE) = 0) (
    Inr (if previous_flags AND THREAD_CACHE_CONTEXT_DYING = 0 then TSpill else TRelease,
      fetch_or THREAD_CACHE_THREAD_DYING c)))"
| "future_thread_cache_finalize_from_thread TSpill c = access_cell c (Inr (TEmptied, empty_cell c))"
| "future_thread_cache_finalize_from_thread TEmptied c = access_cell c (
    let previous_flags = cell_flags c in
    assert_that (previous_flags AND (THREAD_CACHE_EMPTIED OR THREAD_CACHE_THREAD_DONE) = 0) (
    Inr (if previous_flags AND THREAD_CACHE_CONTEXT_DYING \<noteq> 0 then TWake else TRelease,
      fetch_or THREAD_CACHE_EMPTIED c)))"
| "future_thread_cache_finalize_from_thread TWake c = access_cell c (Inr (TRelease, c\<lparr>cell_sleeper := False\<rparr>))"
| "future_thread_cache_finalize_from_thread TRelease c = access_cell c (Inr (TDone, c))"
| "future_thread_cache_finalize_from_thread TDone c = access_cell c (
    let previous_flags = cell_flags c; c' = fetch_or THREAD_CACHE_THREAD_DONE c in
    assert_that (previous_flags AND THREAD_CACHE_THREAD_DONE = 0) (
    if previous_flags AND THREAD_CACHE_CONTEXT_DONE \<noteq> 0 then
      assert_that (previous_flags AND THREAD_CACHE_CONTEXT_DYING \<noteq> 0) (
      assert_that (previous_flags AND THREAD_CACHE_EMPTIED \<noteq> 0) (
      Inr (TEnd, free_cell c')))
    else Inr (TEnd, c')))"
| "future_thread_cache_finalize_from_thread TEnd c = Inr (TEnd, c)"

section \<open>The destructor of the context\<close>

text \<open>The arguments are the local variable \<open>previous_flags\<close>.\<close>

datatype context_pc = CStart | CDestroy | CEmptied | CWait u32 | CAsleep u32 | CReload | CSpin u32 | CDone | CEnd

fun future_thread_cache_finalize_from_context :: "context_pc \<Rightarrow> cache_cell \<Rightarrow> (context_pc \<times> cache_cell) res" where
  "future_thread_cache_finalize_from_context CStart c = access_cell c (
    let previous_flags = cell_flags c in
    assert_that (previous_flags AND (THREAD_CACHE_CONTEXT_DYING OR THREAD_CACHE_CONTEXT_DONE) = 0) (
    Inr (if previous_flags AND THREAD_CACHE_THREAD_DYING = 0 then CDestroy else CWait previous_flags,
      fetch_or THREAD_CACHE_CONTEXT_DYING c)))"
| "future_thread_cache_finalize_from_context CDestroy c = access_cell c (Inr (CEmptied, empty_cell c))"
| "future_thread_cache_finalize_from_context CEmptied c = access_cell c (
    let previous_flags = cell_flags c in
    assert_that (previous_flags AND (THREAD_CACHE_EMPTIED OR THREAD_CACHE_CONTEXT_DONE) = 0) (
    Inr (CDone, fetch_or THREAD_CACHE_EMPTIED c)))"
| "future_thread_cache_finalize_from_context (CWait previous_flags) c =
    (if previous_flags AND THREAD_CACHE_EMPTIED = 0 then
       access_cell c (
       if cell_flags c = previous_flags then Inr (CAsleep previous_flags, c\<lparr>cell_sleeper := True\<rparr>)
       else Inr (CReload, c))
     else Inr (CSpin previous_flags, c))"
| "future_thread_cache_finalize_from_context (CAsleep previous_flags) c =
    Inr (if cell_sleeper c then CAsleep previous_flags else CReload, c)"
| "future_thread_cache_finalize_from_context CReload c = access_cell c (Inr (CWait (cell_flags c), c))"
| "future_thread_cache_finalize_from_context (CSpin previous_flags) c =
    (if previous_flags AND THREAD_CACHE_THREAD_DONE = 0 then access_cell c (Inr (CSpin (cell_flags c), c))
     else Inr (CDone, c))"
| "future_thread_cache_finalize_from_context CDone c = access_cell c (
    let previous_flags = cell_flags c; c' = fetch_or THREAD_CACHE_CONTEXT_DONE c in
    assert_that (previous_flags AND THREAD_CACHE_CONTEXT_DONE = 0) (
    if previous_flags AND THREAD_CACHE_THREAD_DONE \<noteq> 0 then
      assert_that (previous_flags AND THREAD_CACHE_THREAD_DYING \<noteq> 0) (
      assert_that (previous_flags AND THREAD_CACHE_EMPTIED \<noteq> 0) (
      Inr (CEnd, free_cell c')))
    else Inr (CEnd, c')))"
| "future_thread_cache_finalize_from_context CEnd c = Inr (CEnd, c)"

section \<open>Interleavings\<close>

text \<open>A system of concurrent steps and its invariant.  Steps may fail, which the state \<open>None\<close> records.\<close>

locale transition_system =
  fixes init :: 's and step :: "'s \<Rightarrow> 's \<Rightarrow> bool" and inv :: "'s \<Rightarrow> bool"
  assumes inv_init: "inv init" and inv_step: "inv s \<Longrightarrow> step s s' \<Longrightarrow> inv s'"
begin

lemma reachable_inv: "step\<^sup>*\<^sup>* init s \<Longrightarrow> inv s"
  by (induction rule: rtranclp_induct) (auto intro: inv_init inv_step)

lemma reaches_goal:
  assumes progress: "\<And>s. inv s \<Longrightarrow> \<not> goal s \<Longrightarrow> \<exists>s'. own s s' \<and> rank s' < (rank s :: nat)"
    and own: "\<And>s s'. own s s' \<Longrightarrow> step s s'"
  shows "inv s \<Longrightarrow> \<exists>s'. own\<^sup>*\<^sup>* s s' \<and> goal s'"
proof (induction "rank s" arbitrary: s rule: less_induct)
  case less
  show ?case
  proof (cases "goal s")
    case False
    then obtain s1 where s1: "own s s1" "rank s1 < rank s" using progress less.prems by blast
    then obtain s' where "own\<^sup>*\<^sup>* s1 s'" "goal s'" using less.hyps inv_step [OF less.prems own] by blast
    then show ?thesis using s1 by (meson converse_rtranclp_into_rtranclp)
  qed blast
qed

end

text \<open>Both destructors at work on one cache; \<open>None\<close> after a failed assertion or an access to memory
  that was freed.  A thread asleep may also wake up without a reason.\<close>

type_synonym finalization = "(thread_pc \<times> context_pc \<times> cache_cell) option"

inductive own_step :: "finalization \<Rightarrow> finalization \<Rightarrow> bool" where
  by_thread: "future_thread_cache_finalize_from_thread t c = Inr (t', c') \<Longrightarrow>
    own_step (Some (t, x, c)) (Some (t', x, c'))"
| by_thread_fails: "future_thread_cache_finalize_from_thread t c = Inl e \<Longrightarrow> own_step (Some (t, x, c)) None"
| by_context: "future_thread_cache_finalize_from_context x c = Inr (x', c') \<Longrightarrow>
    own_step (Some (t, x, c)) (Some (t, x', c'))"
| by_context_fails: "future_thread_cache_finalize_from_context x c = Inl e \<Longrightarrow> own_step (Some (t, x, c)) None"

inductive finalization_step :: "finalization \<Rightarrow> finalization \<Rightarrow> bool" where
  own: "own_step s s' \<Longrightarrow> finalization_step s s'"
| spurious: "finalization_step (Some (t, CAsleep p, c)) (Some (t, CReload, c\<lparr>cell_sleeper := False\<rparr>))"

text \<open>The flags as a word.\<close>

definition flag_word :: "bool \<Rightarrow> bool \<Rightarrow> bool \<Rightarrow> bool \<Rightarrow> bool \<Rightarrow> u32" where
  "flag_word a b c d e = (if a then 1 else 0) OR (if b then 2 else 0) OR (if c then 4 else 0) OR (if d then 8 else 0) OR (if e then 16 else 0)"

lemma flag_word_tests [simp]:
  "flag_word a b c d e AND THREAD_CACHE_THREAD_DYING = 0 \<longleftrightarrow> \<not> a"
  "flag_word a b c d e AND THREAD_CACHE_CONTEXT_DYING = 0 \<longleftrightarrow> \<not> b"
  "flag_word a b c d e AND THREAD_CACHE_EMPTIED = 0 \<longleftrightarrow> \<not> c"
  "flag_word a b c d e AND THREAD_CACHE_THREAD_DONE = 0 \<longleftrightarrow> \<not> d"
  "flag_word a b c d e AND THREAD_CACHE_CONTEXT_DONE = 0 \<longleftrightarrow> \<not> e"
  "flag_word a b c d e AND (THREAD_CACHE_THREAD_DYING OR THREAD_CACHE_THREAD_DONE) = 0 \<longleftrightarrow> \<not> a \<and> \<not> d"
  "flag_word a b c d e AND (THREAD_CACHE_CONTEXT_DYING OR THREAD_CACHE_CONTEXT_DONE) = 0 \<longleftrightarrow> \<not> b \<and> \<not> e"
  "flag_word a b c d e AND (THREAD_CACHE_EMPTIED OR THREAD_CACHE_THREAD_DONE) = 0 \<longleftrightarrow> \<not> c \<and> \<not> d"
  "flag_word a b c d e AND (THREAD_CACHE_EMPTIED OR THREAD_CACHE_CONTEXT_DONE) = 0 \<longleftrightarrow> \<not> c \<and> \<not> e"
  by (cases a; cases b; cases c; cases d; cases e; simp add: flag_word_def flag_defs)+

lemma flag_word_sets [simp]:
  "flag_word a b c d e OR THREAD_CACHE_THREAD_DYING = flag_word True b c d e"
  "flag_word a b c d e OR THREAD_CACHE_CONTEXT_DYING = flag_word a True c d e"
  "flag_word a b c d e OR THREAD_CACHE_EMPTIED = flag_word a b True d e"
  "flag_word a b c d e OR THREAD_CACHE_THREAD_DONE = flag_word a b c True e"
  "flag_word a b c d e OR THREAD_CACHE_CONTEXT_DONE = flag_word a b c d True"
  by (cases a; cases b; cases c; cases d; cases e; simp add: flag_word_def flag_defs)+

lemma flag_word_inject [simp]: "flag_word a b c d e = flag_word a' b' c' d' e' \<longleftrightarrow> a = a' \<and> b = b' \<and> c = c' \<and> d = d' \<and> e = e'"
proof
  assume eq: "flag_word a b c d e = flag_word a' b' c' d' e'"
  show "a = a' \<and> b = b' \<and> c = c' \<and> d = d' \<and> e = e'"
    using arg_cong [OF eq, of "\<lambda>w. w AND THREAD_CACHE_THREAD_DYING = 0"] arg_cong [OF eq, of "\<lambda>w. w AND THREAD_CACHE_CONTEXT_DYING = 0"]
      arg_cong [OF eq, of "\<lambda>w. w AND THREAD_CACHE_EMPTIED = 0"] arg_cong [OF eq, of "\<lambda>w. w AND THREAD_CACHE_THREAD_DONE = 0"]
      arg_cong [OF eq, of "\<lambda>w. w AND THREAD_CACHE_CONTEXT_DONE = 0"] by simp
qed simp

text \<open>The invariant: \<open>first\<close> says whether the thread came first; the thread is at \<open>t\<close>, the context at \<open>x\<close>.\<close>

fun emptied_by_now :: "bool \<Rightarrow> thread_pc \<Rightarrow> context_pc \<Rightarrow> bool" where
  "emptied_by_now first t x \<longleftrightarrow>
    (if first then t \<in> {TWake, TRelease, TDone, TEnd} else x \<in> {CDone, CEnd})"

fun waiting :: "context_pc \<Rightarrow> bool" where
  "waiting (CWait p) \<longleftrightarrow> True" | "waiting (CAsleep p) \<longleftrightarrow> True" | "waiting CReload \<longleftrightarrow> True" | "waiting (CSpin p) \<longleftrightarrow> True"
| "waiting _ \<longleftrightarrow> False"

fun seen_flags :: "context_pc \<Rightarrow> u32 option" where
  "seen_flags (CWait p) = Some p" | "seen_flags (CAsleep p) = Some p" | "seen_flags (CSpin p) = Some p" | "seen_flags _ = None"

fun paths :: "bool \<Rightarrow> thread_pc \<Rightarrow> context_pc \<Rightarrow> bool" where
  "paths first t x \<longleftrightarrow>
    (if first then t \<noteq> TStart \<and> (x = CStart \<or> waiting x \<or> x \<in> {CDone, CEnd} \<and> t = TEnd)
     else t \<in> {TStart, TRelease, TDone, TEnd} \<and> (x = CStart \<longrightarrow> t = TStart) \<and> \<not> waiting x)"

definition finalization_inv :: "bool \<Rightarrow> thread_pc \<Rightarrow> context_pc \<Rightarrow> cache_cell \<Rightarrow> bool" where
  "finalization_inv first t x c \<longleftrightarrow> paths first t x \<and>
     cell_flags c = flag_word (t \<noteq> TStart) (x \<noteq> CStart) (emptied_by_now first t x) (t = TEnd) (x = CEnd) \<and>
     cell_emptied c = (if (if first then t \<noteq> TSpill else x \<notin> {CStart, CDestroy}) then 1 else 0) \<and>
     cell_freed c = (if t = TEnd \<and> x = CEnd then 1 else 0) \<and>
     (\<forall>p. seen_flags x = Some p \<longrightarrow> (\<exists>b e d. p = flag_word True b e d False \<and>
        (e \<longrightarrow> emptied_by_now first t x) \<and> (d \<longrightarrow> t = TEnd))) \<and>
     (\<forall>p. x = CSpin p \<longrightarrow> emptied_by_now first t x) \<and>
     (cell_sleeper c \<longrightarrow> (\<exists>p. x = CAsleep p)) \<and>
     (cell_sleeper c \<longrightarrow> t \<in> {TSpill, TEmptied, TWake})"

definition finalization_ok :: "finalization \<Rightarrow> bool" where
  "finalization_ok s \<longleftrightarrow> (case s of None \<Rightarrow> False | Some (t, x, c) \<Rightarrow> \<exists>first. finalization_inv first t x c)"

definition finalization_start :: finalization where
  "finalization_start = Some (TStart, CStart, new_cell)"

lemma finalization_start_ok: "finalization_ok finalization_start"
  by (auto simp: finalization_ok_def finalization_start_def finalization_inv_def new_cell_def flag_word_def intro!: exI [of _ False])

lemmas cell_defs = access_cell_def fetch_or_def empty_cell_def free_cell_def assert_that_def Let_def

text \<open>Neither destructor fails, and each keeps the invariant.\<close>

lemma thread_step_ok:
  assumes "finalization_inv first t x c"
  shows "\<exists>t' c'. future_thread_cache_finalize_from_thread t c = Inr (t', c') \<and>
    finalization_inv (if t = TStart then x = CStart else first) t' x c'"
  using assms
  by (cases t; cases first; cases x; simp add: finalization_inv_def cell_defs; (elim exE conjE)?; simp; blast?)

lemma context_step_ok:
  assumes "finalization_inv first t x c"
  shows "\<exists>x' c'. future_thread_cache_finalize_from_context x c = Inr (x', c') \<and>
    finalization_inv (if x = CStart then t \<noteq> TStart else first) t x' c'"
  using assms
  by (cases x; cases first; cases t; simp add: finalization_inv_def cell_defs; (elim exE conjE)?; simp; blast?)

lemma spurious_ok: "finalization_inv first t (CAsleep p) c \<Longrightarrow> finalization_inv first t CReload (c\<lparr>cell_sleeper := False\<rparr>)"
  by (cases first) (auto simp: finalization_inv_def)

lemma own_step_ok: "finalization_ok s \<Longrightarrow> own_step s s' \<Longrightarrow> finalization_ok s'"
proof -
  assume ok: "finalization_ok s" and st: "own_step s s'"
  obtain t x c first where s: "s = Some (t, x, c)" and inv: "finalization_inv first t x c"
    using ok by (auto simp: finalization_ok_def split: option.splits)
  show ?thesis using st
    by (cases rule: own_step.cases) (use s thread_step_ok [OF inv] context_step_ok [OF inv] in \<open>auto simp: finalization_ok_def\<close>)
qed

lemma finalization_step_ok:
  assumes ok: "finalization_ok s" and st: "finalization_step s s'"
  shows "finalization_ok s'"
  using st
proof (cases rule: finalization_step.cases)
  case (spurious t p c)
  obtain first where "finalization_inv first t (CAsleep p) c" using ok spurious by (auto simp: finalization_ok_def)
  then have "finalization_inv first t CReload (c\<lparr>cell_sleeper := False\<rparr>)" by (rule spurious_ok)
  then show ?thesis using spurious by (auto simp: finalization_ok_def)
qed (use ok own_step_ok in blast)

text \<open>How far the two destructors are from their ends.\<close>

fun thread_rank :: "thread_pc \<Rightarrow> nat" where
  "thread_rank TStart = 6" | "thread_rank TSpill = 5" | "thread_rank TEmptied = 4" | "thread_rank TWake = 3"
| "thread_rank TRelease = 2" | "thread_rank TDone = 1" | "thread_rank TEnd = 0"

fun context_rank :: "context_pc \<Rightarrow> nat" where
  "context_rank CStart = 11" | "context_rank CDestroy = 10" | "context_rank CEmptied = 9"
| "context_rank (CWait p) = (if p AND THREAD_CACHE_EMPTIED = 0 then 7 else 4)" | "context_rank (CAsleep p) = 6" | "context_rank CReload = 5"
| "context_rank (CSpin p) = (if p AND THREAD_CACHE_THREAD_DONE = 0 then 3 else 2)" | "context_rank CDone = 1" | "context_rank CEnd = 0"

fun finalization_rank :: "finalization \<Rightarrow> nat" where
  "finalization_rank None = 0"
| "finalization_rank (Some (t, x, c)) = thread_rank t + context_rank x"

definition finalized :: "finalization \<Rightarrow> bool" where
  "finalized s \<longleftrightarrow> (\<exists>c. s = Some (TEnd, CEnd, c) \<and> cell_emptied c = 1 \<and> cell_freed c = 1)"

lemma thread_rank_step:
  assumes "future_thread_cache_finalize_from_thread t c = Inr (t', c')" and "t \<noteq> TEnd"
  shows "thread_rank t' < thread_rank t"
  using assms by (cases t) (auto simp: cell_defs split: if_splits)

lemma context_rank_step:
  assumes "finalization_inv first TEnd x c" and "x \<noteq> CEnd" and "future_thread_cache_finalize_from_context x c = Inr (x', c')"
  shows "context_rank x' < context_rank x"
  using assms by (cases x) (auto simp: finalization_inv_def cell_defs split: if_splits)

lemma finalization_progress:
  assumes "finalization_ok s" and "\<not> finalized s"
  shows "\<exists>s'. own_step s s' \<and> finalization_rank s' < finalization_rank s"
proof -
  obtain t x c first where s: "s = Some (t, x, c)" and inv: "finalization_inv first t x c"
    using assms(1) by (auto simp: finalization_ok_def split: option.splits)
  show ?thesis
  proof (cases "t = TEnd")
    case False
    obtain t' c' where st: "future_thread_cache_finalize_from_thread t c = Inr (t', c')" using thread_step_ok [OF inv] by blast
    show ?thesis unfolding s using by_thread [OF st] thread_rank_step [OF st False] by fastforce
  next
    case True
    obtain x' c' where st: "future_thread_cache_finalize_from_context x c = Inr (x', c')" using context_step_ok [OF inv] by blast
    have "x \<noteq> CEnd" using inv assms(2) True s by (auto simp: finalization_inv_def finalized_def split: if_splits)
    then show ?thesis unfolding s using by_context [OF st] context_rank_step [OF inv [unfolded True] _ st] by fastforce
  qed
qed

interpretation finalization: transition_system finalization_start finalization_step finalization_ok
  by unfold_locales (fact finalization_start_ok, fact finalization_step_ok)

section \<open>The context\<close>

text \<open>What the thread does with the contents of its cache, and what the context does.  The fuel bounds
  the number of pages in the cache.\<close>

definition spill_thread_cache :: "nat \<Rightarrow> unit comp" where
  "spill_thread_cache fuel =
    seqM thread_call (
    seqM (future_pointer_cache_spill fuel Local Global) (
    seqM thread_call (
    seqM (event_cache_finalize Events_of_thread) (
    latched_inpoll_cache_finalize))))"

definition destroy_thread_cache :: "nat \<Rightarrow> unit comp" where
  "destroy_thread_cache fuel =
    seqM (future_pointer_cache_finalize fuel Local) (
    seqM (event_cache_finalize Events_of_thread) (
    latched_inpoll_cache_finalize))"

text \<open>The destructor of the context for one cache, from start to end while the thread does nothing.\<close>

fun finalize_alone :: "nat \<Rightarrow> context_pc \<Rightarrow> cache_cell \<Rightarrow> cache_cell res" where
  "finalize_alone n CEnd c = Inr c"
| "finalize_alone 0 x c = Inl ScheduleEnd"
| "finalize_alone (Suc n) x c = bindR (future_thread_cache_finalize_from_context x c) (\<lambda>(x', c'). finalize_alone n x' c')"

text \<open>context.c: what the C library calls when a thread ends.\<close>

definition future_thread_cache_destructor :: "nat \<Rightarrow> cache_cell \<Rightarrow> cache_cell res" where
  "future_thread_cache_destructor fuel cache = finalize_alone fuel CStart cache"

fun finalize_threads_loop :: "nat \<Rightarrow> cache_cell list \<Rightarrow> cache_cell list res" where
  "finalize_threads_loop fuel [] = Inr []"
| "finalize_threads_loop fuel (c # cs) =
    bindR (finalize_alone fuel CStart c) (\<lambda>c'.
    bindR (finalize_threads_loop fuel cs) (\<lambda>cs'. Inr (c' # cs')))"

definition future_context_cache_finalize_threads :: "nat \<Rightarrow> cache_cell list option \<Rightarrow> nat \<Rightarrow> cache_cell list res" where
  "future_context_cache_finalize_threads fuel caches capacity =
    assert_that (caches \<noteq> None) (
    case caches of
      None \<Rightarrow> Inl BadAccess
    | Some cs \<Rightarrow> assert_that (length cs \<le> capacity) (finalize_threads_loop fuel cs))"

text \<open>The rest of the context cache goes after the caches of the threads.\<close>

definition finalize_global_cache :: "nat \<Rightarrow> unit comp" where
  "finalize_global_cache fuel =
    seqM thread_call (
    seqM (future_pointer_cache_finalize fuel Global) (
    seqM future_storage_liberate_all (
    thread_call)))"

lemma finalize_alone_new: "4 \<le> fuel \<Longrightarrow> finalize_alone fuel CStart new_cell =
    Inr \<lparr>cell_flags = 22, cell_emptied = 1, cell_freed = 0, cell_sleeper = False\<rparr>"
proof -
  assume "4 \<le> fuel"
  then obtain k where "fuel = 4 + k" using le_Suc_ex by blast
  then have "fuel = Suc (Suc (Suc (Suc k)))" by simp
  then show ?thesis by (simp add: new_cell_def cell_defs flag_defs)
qed

lemma finalize_again_fails:
  assumes "cell_flags c AND THREAD_CACHE_CONTEXT_DYING \<noteq> 0" and "cell_freed c = 0"
  shows "finalize_alone (Suc n) CStart c = Inl AssertFailed"
proof -
  have "a OR b = 0 \<Longrightarrow> a = 0" for a b :: u32 by (auto simp: bit_eq_iff bit_or_iff)
  then show ?thesis using assms by (auto simp: cell_defs bit.conj_disj_distrib)
qed

lemma finalize_threads_fails:
  assumes "finalize_alone fuel CStart c = Inl AssertFailed" and "\<forall>x \<in> set cs. \<exists>y. finalize_alone fuel CStart x = Inr y"
  shows "finalize_threads_loop fuel (cs @ c # ds) = Inl AssertFailed"
  using assms(2) by (induction cs) (auto simp: assms(1))

section \<open>Reference counts\<close>

text \<open>The threads of a program and its context use one key of thread-specific storage: a thread
  acquires its slot, a thread that ends releases it, and the end of the context discards the key.  The
  slot is the one of the thread that performs the operation; the C library clears it before it calls the
  destructor.\<close>

datatype tss_op = Acquire | Release | Discard

definition with_slot :: "nat option \<Rightarrow> 'a comp \<Rightarrow> 'a comp" where
  "with_slot v m = bindM get_allocator (\<lambda>a. seqM (put_allocator (a\<lparr>thread_slot := v\<rparr>)) m)"

fun tss_perform :: "nat \<Rightarrow> tss_op \<Rightarrow> bool comp" where
  "tss_perform v Acquire = with_slot None (bindM (refcounted_tss_acquire (retM v)) (\<lambda>_. retM False))"
| "tss_perform v Release = with_slot None refcounted_tss_release"
| "tss_perform v Discard = refcounted_tss_discard"

fun tss_performs :: "nat \<Rightarrow> tss_op list \<Rightarrow> bool list comp" where
  "tss_performs v [] = retM []"
| "tss_performs v (x # xs) = bindM (tss_perform v x) (\<lambda>b. bindM (tss_performs v xs) (\<lambda>bs. retM (b # bs)))"

text \<open>The number of slots and whether the key is still reachable, as the operations should count them.\<close>

fun tss_count :: "tss_op list \<Rightarrow> nat \<times> bool \<Rightarrow> (nat \<times> bool) option" where
  "tss_count [] s = Some s"
| "tss_count (Acquire # xs) (n, r) = (if r \<and> n + 1 < 2 ^ 63 then tss_count xs (n + 1, r) else None)"
| "tss_count (Release # xs) (n, r) = (if 0 < n then tss_count xs (n - 1, r) else None)"
| "tss_count (Discard # xs) (n, r) = (if r then tss_count xs (n, False) else None)"

definition tss_word :: "nat \<times> bool \<Rightarrow> u64" where
  "tss_word s = word_of_nat (fst s) + (if snd s then REFCOUNTED_TSS_REACHABLE else 0)"

lemma small_bit63: "n < 2 ^ 63 \<Longrightarrow> \<not> bit (word_of_nat n :: u64) 63"
proof -
  assume n: "n < 2 ^ 63"
  then have "unat (word_of_nat n :: u64) div 2 ^ 63 = 0" by (simp add: unat_of_nat)
  then have "\<not> bit (unat (word_of_nat n :: u64)) 63" by (simp add: bit_iff_odd)
  then show ?thesis by (simp add: bit_unsigned_iff)
qed

lemma reachable_exp: "REFCOUNTED_TSS_REACHABLE = 2 ^ 63"
  by (simp add: REFCOUNTED_TSS_REACHABLE_def)

lemma bit_reachable [simp]: "bit REFCOUNTED_TSS_REACHABLE i \<longleftrightarrow> i = 63"
  unfolding reachable_exp bit_exp_iff by (auto simp: possible_bit_def exp_eq_zero_iff)

lemma and_reachable: "x AND REFCOUNTED_TSS_REACHABLE = 0 \<longleftrightarrow> \<not> bit x 63"
  unfolding reachable_exp and_exp_eq_0_iff_not_bit by simp

lemma tss_word_or: "n < 2 ^ 63 \<Longrightarrow> tss_word (n, r) = word_of_nat n OR (if r then REFCOUNTED_TSS_REACHABLE else 0)"
  using small_bit63 by (auto simp: tss_word_def intro!: disjunctive_add)

lemma tss_word_facts:
  assumes n: "n < 2 ^ 63"
  shows "tss_word (n, r) AND REFCOUNTED_TSS_REACHABLE = 0 \<longleftrightarrow> \<not> r"
    and "tss_word (n, r) AND NOT REFCOUNTED_TSS_REACHABLE = tss_word (n, False)"
    and "tss_word (n, r) = REFCOUNTED_TSS_REACHABLE \<longleftrightarrow> n = 0 \<and> r"
    and "unat (tss_word (n, r)) = n + (if r then 2 ^ 63 else 0)"
proof -
  show "tss_word (n, r) AND REFCOUNTED_TSS_REACHABLE = 0 \<longleftrightarrow> \<not> r"
    using small_bit63 [OF n] by (simp add: tss_word_or [OF n] and_reachable bit_or_iff)
  show "tss_word (n, r) AND NOT REFCOUNTED_TSS_REACHABLE = tss_word (n, False)"
    unfolding tss_word_or [OF n] using small_bit63 [OF n]
    by (intro bit_word_eqI) (auto simp: bit_or_iff bit_and_iff bit_not_iff)
  show u: "unat (tss_word (n, r)) = n + (if r then 2 ^ 63 else 0)"
    using n by (simp add: tss_word_def reachable_exp unat_word_ariths unat_of_nat)
  show "tss_word (n, r) = REFCOUNTED_TSS_REACHABLE \<longleftrightarrow> n = 0 \<and> r"
    unfolding word_unat_eq_iff u by (use n in \<open>auto simp: reachable_exp\<close>)
qed

lemma tss_word_succ: "tss_word (n, r) + 1 = tss_word (n + 1, r)"
  by (simp add: tss_word_def)

lemma tss_word_pred: "0 < n \<Longrightarrow> tss_word (n, r) - 1 = tss_word (n - 1, r)"
  by (simp add: tss_word_def)

lemma tss_perform_effect:
  assumes ref: "refcount_and_reachability (allocator w) = tss_word (n, r)" and n: "n < 2 ^ 63" and v: "v \<noteq> 0"
    and step: "tss_count [x] (n, r) = Some (n', r')"
  shows "wp (tss_perform v x) (\<lambda>b w'. refcount_and_reachability (allocator w') = tss_word (n', r') \<and> n' < 2 ^ 63 \<and>
    (b \<longleftrightarrow> n' = 0 \<and> \<not> r')) (\<lambda>e. e \<in> {ExitError, ScheduleEnd}) w"
proof (cases x)
  case Acquire
  then have r: "r" "n' = n + 1" "n' < 2 ^ 63" "r' = r" using step by (auto split: if_splits)
  have "tss_word (n, r) OR REFCOUNTED_TSS_REACHABLE \<noteq> 0"
    using bit_reachable [of 63] by (metis bit_or_iff bit_0_eq bot_apply bot_bool_def)
  then show ?thesis using ref r tss_word_facts(1) [OF n, of r] tss_word_facts(1) [OF r(3), of r] v
    by (simp add: Acquire with_slot_def refcounted_tss_acquire_def refcounted_tss_create_slot_def wp_simps tss_word_succ Let_def
      split: list.splits step.splits)
next
  case Release
  then have r: "0 < n" "n' = n - 1" "r' = r" using step by (auto split: if_splits)
  have "tss_word (n, r) \<noteq> 0" "\<not> tss_word (n, r) > 1 \<longleftrightarrow> n = 1 \<and> \<not> r"
    using r n by (auto simp: word_unat_eq_iff word_less_nat_alt tss_word_facts(4) [OF n])
  then show ?thesis using ref r n
    by (simp add: Release with_slot_def refcounted_tss_release_def wp_simps tss_word_pred Let_def) arith
next
  case Discard
  then have r: "r" "n' = n" "\<not> r'" using step by (auto split: if_splits)
  then show ?thesis using ref n tss_word_facts [OF n, of True]
    by (simp add: Discard refcounted_tss_discard_def wp_simps Let_def)
qed

lemma tss_count_step: "tss_count (x # xs) s = (case tss_count [x] s of None \<Rightarrow> None | Some s' \<Rightarrow> tss_count xs s')"
  by (cases s; cases x) auto

lemma tss_count_ended: "tss_count (x # xs) (0, False) = None"
  by (cases x) auto

lemma tss_performs_effect:
  assumes "refcount_and_reachability (allocator w) = tss_word (n, r)" and "n < 2 ^ 63" and v: "v \<noteq> 0"
    and "tss_count xs (n, r) = Some (n', r')" and "xs \<noteq> []"
  shows "wp (tss_performs v xs) (\<lambda>bs w'. bs = replicate (length xs - 1) False @ [n' = 0 \<and> \<not> r'] \<and>
    refcount_and_reachability (allocator w') = tss_word (n', r')) (\<lambda>e. e \<in> {ExitError, ScheduleEnd}) w"
  using assms(1,2,4,5)
proof (induction xs arbitrary: n r w)
  case (Cons x xs)
  obtain m q where step: "tss_count [x] (n, r) = Some (m, q)" and rest: "tss_count xs (m, q) = Some (n', r')"
    using Cons.prems(3) by (subst (asm) tss_count_step) (auto split: option.splits)
  show ?case unfolding tss_performs.simps wp_bind
  proof (rule wp_mono [OF tss_perform_effect [OF Cons.prems(1,2) v step]], elim conjE)
    fix b and w1 :: world
    assume w1: "refcount_and_reachability (allocator w1) = tss_word (m, q)" "m < 2 ^ 63" and b: "b \<longleftrightarrow> m = 0 \<and> \<not> q"
    show "wp (tss_performs v xs) (\<lambda>bs. wp (retM (b # bs)) (\<lambda>bs w'. bs = replicate (length (x # xs) - 1) False @ [n' = 0 \<and> \<not> r'] \<and>
        refcount_and_reachability (allocator w') = tss_word (n', r')) (\<lambda>e. e \<in> {ExitError, ScheduleEnd})) (\<lambda>e. e \<in> {ExitError, ScheduleEnd}) w1"
    proof (cases xs)
      case Nil
      then show ?thesis using rest w1 b by (simp add: wp_simps)
    next
      case ys: (Cons y ys)
      then have "\<not> b" using rest b tss_count_ended by auto
      then show ?thesis using ys
        by (intro wp_mono [OF Cons.IH [OF w1 rest]]) (auto simp: wp_simps)
    qed
  qed simp
qed simp

section \<open>Properties\<close>

lemma finalization_invD:
  assumes "finalization_step\<^sup>*\<^sup>* finalization_start s"
  obtains t x c first where "s = Some (t, x, c)" and "finalization_inv first t x c"
  using finalization.reachable_inv [OF assms] by (auto simp: finalization_ok_def split: option.splits)

lemma first_step: "finalization_step\<^sup>*\<^sup>* finalization_start (Some (TSpill, CStart, fetch_or 1 new_cell))"
  by (rule r_into_rtranclp, unfold finalization_start_def, rule own, rule by_thread)
     (simp add: cell_defs new_cell_def flag_defs)





text \<open>C18. The last user of a context is told to free it, and nobody else: over every sequence in
  which threads acquire and release their slots and the context is discarded, exactly the operation after
  which no slot is left and the key is discarded returns true.\<close>

theorem context_freed_by_last:
  assumes "refcount_and_reachability (allocator w) = REFCOUNTED_TSS_REACHABLE" and "v \<noteq> 0" and "ops \<noteq> []"
    and "tss_count ops (0, True) = Some (n, r)"
  shows "wp (tss_performs v ops) (\<lambda>bs _. bs = replicate (length ops - 1) False @ [n = 0 \<and> \<not> r])
    (\<lambda>e. e \<in> {ExitError, ScheduleEnd}) w"
  by (rule wp_mono [OF tss_performs_effect [of w 0 True v ops n r]]) (use assms in \<open>auto simp: tss_word_def\<close>)

theorem context_freed_by_last_witness:
  "wp (tss_performs 1 [Acquire, Acquire, Release, Discard, Release]) (\<lambda>bs _. bs = [False, False, False, False, True])
    (\<lambda>e. e \<in> {ExitError, ScheduleEnd}) sample_world"
proof -
  have "refcount_and_reachability (allocator sample_world) = REFCOUNTED_TSS_REACHABLE"
    by (simp add: sample_world_def sample_allocator_def empty_allocator_def REFCOUNTED_TSS_REACHABLE_def)
  moreover have "tss_count [Acquire, Acquire, Release, Discard, Release] (0, True) = Some (0, False)" by simp
  moreover have "replicate (length [Acquire, Acquire, Release, Discard, Release] - 1) False @ [(0 :: nat) = 0 \<and> \<not> False] =
    [False, False, False, False, True]" by (simp add: numeral_eq_Suc)
  ultimately show ?thesis using context_freed_by_last [of sample_world 1 "[Acquire, Acquire, Release, Discard, Release]" 0 False] by (simp only: not_False_eq_True simp_thms) simp
qed

text \<open>C34. The C library is told to call the destructor of the context when a thread ends (context.c,
  line 24): once a thread that used a context has ended, the end of the context fails an assertion,
  whatever other caches there are.\<close>

theorem thread_exit_breaks_context:
  assumes "4 \<le> fuel" and "set cs \<subseteq> {new_cell}" and "length cs + length ds < capacity"
  shows "bindR (future_thread_cache_destructor fuel new_cell) (\<lambda>c.
    future_context_cache_finalize_threads fuel (Some (cs @ c # ds)) capacity) = Inl AssertFailed"
proof -
  let ?c = "\<lparr>cell_flags = 22, cell_emptied = 1, cell_freed = 0, cell_sleeper = False\<rparr>"
  have "finalize_alone fuel CStart ?c = Inl AssertFailed"
    using finalize_again_fails [of ?c "fuel - 1"] assms(1) by (simp add: flag_defs)
  then have "finalize_threads_loop fuel (cs @ ?c # ds) = Inl AssertFailed"
    by (rule finalize_threads_fails) (use assms(2) finalize_alone_new [OF assms(1)] in auto)
  then show ?thesis
    using assms(3) by (simp add: future_thread_cache_destructor_def finalize_alone_new [OF assms(1)]
      future_context_cache_finalize_threads_def assert_that_def)
qed

theorem thread_exit_breaks_context_witness:
  "bindR (future_thread_cache_destructor 4 new_cell) (\<lambda>c.
    future_context_cache_finalize_threads 4 (Some [new_cell, c]) 512) = Inl AssertFailed"
  using thread_exit_breaks_context [of 4 "[new_cell]" "[]" 512] by simp

end
