(* ===== verification/FutureApi.thy ===== *)
theory FutureApi
  imports FutureWait Consumption ThreadCache
begin

text \<open>
  The public operations on futures (src/future.c): waiting, finishing, canceling, and the custom
  futures that the application completes itself.
\<close>

section \<open>Results\<close>

datatype udipe_result_type =
    UDIPE_RESULT_INVALID | UDIPE_CONNECT | UDIPE_DISCONNECT | UDIPE_SEND | UDIPE_RECV | UDIPE_CUSTOM | UDIPE_JOIN
  | UDIPE_UNORDERED | UDIPE_TIMER_ONCE | UDIPE_TIMER_REPEAT | UDIPE_FAILURE_DEPENDENCY | UDIPE_FAILURE_CANCELED

record udipe_result =
  result_type :: udipe_result_type
  result_payload :: "u8 list"

text \<open>The payload of a future of each type.  The union is only read through the variant that was
  written.\<close>

definition payload_of :: "specific_state \<Rightarrow> future_type \<Rightarrow> (u8 list) res" where
  "payload_of sp type =
    (case sp of
       Network payload \<Rightarrow> if type \<in> {TYPE_NETWORK_CONNECT, TYPE_NETWORK_DISCONNECT, TYPE_NETWORK_SEND, TYPE_NETWORK_RECV}
                        then Inr payload else Inl UndefinedBehaviour
     | Custom payload \<Rightarrow> if type = TYPE_CUSTOM then Inr payload else Inl UndefinedBehaviour
     | Unordered _ payload _ _ \<Rightarrow> if type = TYPE_UNORDERED then Inr payload else Inl UndefinedBehaviour
     | TimerRepeat payload _ _ \<Rightarrow> if type = TYPE_TIMER_REPEAT then Inr payload else Inl UndefinedBehaviour
     | Join _ _ \<Rightarrow> Inl UndefinedBehaviour)"

fun result_type_of :: "future_type \<Rightarrow> udipe_result_type res" where
  "result_type_of TYPE_NETWORK_CONNECT = Inr UDIPE_CONNECT"
| "result_type_of TYPE_NETWORK_DISCONNECT = Inr UDIPE_DISCONNECT"
| "result_type_of TYPE_NETWORK_SEND = Inr UDIPE_SEND"
| "result_type_of TYPE_NETWORK_RECV = Inr UDIPE_RECV"
| "result_type_of TYPE_CUSTOM = Inr UDIPE_CUSTOM"
| "result_type_of TYPE_JOIN = Inr UDIPE_JOIN"
| "result_type_of TYPE_UNORDERED = Inr UDIPE_UNORDERED"
| "result_type_of TYPE_TIMER_ONCE = Inr UDIPE_TIMER_ONCE"
| "result_type_of TYPE_TIMER_REPEAT = Inr UDIPE_TIMER_REPEAT"
| "result_type_of _ = Inl ExitError"

text \<open>The switch of \<open>future_finish\<close> over outcomes and types.\<close>

definition collect_result :: "future_status \<Rightarrow> specific_state \<Rightarrow> udipe_result res" where
  "collect_result status sp =
    (if foutcome status \<in> {OUTCOME_SUCCESS, OUTCOME_FAILURE_INTERNAL} then
       bindR (result_type_of (ftype status)) (\<lambda>type.
       if ftype status \<in> {TYPE_JOIN, TYPE_TIMER_ONCE} then
         assert_that (foutcome status \<noteq> OUTCOME_FAILURE_INTERNAL) (
         Inr \<lparr>result_type = type, result_payload = []\<rparr>)
       else
         bindR (payload_of sp (ftype status)) (\<lambda>payload.
         Inr \<lparr>result_type = type, result_payload = payload\<rparr>))
     else if foutcome status = OUTCOME_FAILURE_DEPENDENCY then
       Inr \<lparr>result_type = UDIPE_FAILURE_DEPENDENCY, result_payload = []\<rparr>
     else if foutcome status = OUTCOME_FAILURE_CANCELED then
       Inr \<lparr>result_type = UDIPE_FAILURE_CANCELED, result_payload = []\<rparr>
     else Inl ExitError)"

section \<open>Finishing\<close>

definition finish_prepare :: "future_status \<Rightarrow> (unit, unit) decision comp" where
  "finish_prepare latest_status =
    seqM (check_status latest_status True) (
    seqM (assertM (downstream_count latest_status = 0)) (
    seqM (assertM (available latest_status)) (
    let desired_status = latest_status\<lparr>available := False\<rparr> in
    seqM (check_status desired_status True) (
    retM (Publish desired_status ())))))"

definition finish_retry :: "future_status \<Rightarrow> unit option comp" where
  "finish_retry latest_status = seqM (check_status latest_status True) (retM None)"

text \<open>\<open>want_result\<close>: whether the pointer \<open>result\<close> is not null.\<close>

definition future_finish :: "fid \<Rightarrow> future_status \<Rightarrow> bool \<Rightarrow> udipe_result option comp" where
  "future_finish f latest_status want_result =
    bindM (with_fuel (\<lambda>fuel. cas_loop fuel f finish_prepare finish_retry latest_status)) (\<lambda>d. case d of
      Leave _ \<Rightarrow> stopM ScheduleEnd
    | Publish latest_status _ \<Rightarrow>
        bindM (if fstate latest_status = STATE_RESULT then retM latest_status
               else
                 bindM (future_wait f UDIPE_DURATION_MAX DOWNSTREAM_COUNT_KEEP) (\<lambda>latest_status.
                 seqM (check_status latest_status True) (
                 seqM (assertM (fstate latest_status = STATE_RESULT)) (
                 retM latest_status)))) (\<lambda>latest_status.
        bindM (if want_result then
                 bindM (get_future f) (\<lambda>fut.
                 bindM (liftR (collect_result latest_status (specific fut))) (\<lambda>result.
                 retM (Some result)))
               else retM None) (\<lambda>result.
        seqM (future_liberate f) (
        retM result))))"

definition udipe_finish :: "fid \<Rightarrow> udipe_result comp" where
  "udipe_finish f =
    bindM (future_status_load f) (\<lambda>status.
    bindM (future_finish f status True) derefM)"

definition udipe_wait :: "fid \<Rightarrow> udipe_duration_ns \<Rightarrow> bool comp" where
  "udipe_wait f timeout =
    (let timeout' = (if timeout = UDIPE_DURATION_DEFAULT then UDIPE_DURATION_MAX else timeout) in
     bindM (future_wait f timeout' DOWNSTREAM_COUNT_CYCLE) (\<lambda>final_status.
     retM (fstate final_status = STATE_RESULT)))"

section \<open>Canceling\<close>

definition cancel_prepare :: "bool \<Rightarrow> future_status \<Rightarrow> (unit, future_status) decision comp" where
  "cancel_prepare use_state_canceling status =
    seqM (check_status status True) (
    if foutcome status \<in> {OUTCOME_SUCCESS, OUTCOME_FAILURE_DEPENDENCY, OUTCOME_FAILURE_INTERNAL, OUTCOME_FAILURE_CANCELED}
    then retM (Leave status)
    else if foutcome status = OUTCOME_UNKNOWN then
      (if fstate status \<in> {STATE_WAITING, STATE_PROCESSING} then
         let desired = status\<lparr>foutcome := OUTCOME_FAILURE_CANCELED,
                              fstate := if use_state_canceling then STATE_CANCELING else STATE_RESULT\<rparr> in
         seqM (check_status desired True) (
         retM (Publish desired ()))
       else stopM ExitError)
    else stopM ExitError)"

definition cancel_retry :: "future_type \<Rightarrow> future_status \<Rightarrow> future_status option comp" where
  "cancel_retry type status = seqM (assertM (ftype status = type)) (retM None)"

text \<open>The notifications after a successful cancelation, with the latch to be signaled or \<open>EVENT_INVALID\<close>.\<close>

definition cancel_latch :: "fid \<Rightarrow> future_type \<Rightarrow> fd comp" where
  "cancel_latch f type =
    bindM (get_future f) (\<lambda>fut.
    if type \<in> {TYPE_NETWORK_CONNECT, TYPE_NETWORK_DISCONNECT, TYPE_NETWORK_SEND, TYPE_NETWORK_RECV} then stopM ExitError
    else if type = TYPE_CUSTOM then retM EVENT_INVALID
    else if type = TYPE_JOIN then (case specific fut of Join _ latch \<Rightarrow> retM latch | _ \<Rightarrow> stopM UndefinedBehaviour)
    else if type = TYPE_UNORDERED then (case specific fut of Unordered _ _ _ latch \<Rightarrow> retM latch | _ \<Rightarrow> stopM UndefinedBehaviour)
    else if type = TYPE_TIMER_REPEAT then (case specific fut of TimerRepeat _ _ latch \<Rightarrow> retM latch | _ \<Rightarrow> stopM UndefinedBehaviour)
    else if type = TYPE_TIMER_ONCE then
      bindM read_clock (\<lambda>ts.
      seqM (assertM (tv_sec ts > 0)) (
      seqM (timer_set_once (status_sync fut) (ts\<lparr>tv_sec := tv_sec ts - 1\<rparr>)) (
      retM EVENT_INVALID)))
    else stopM ExitError)"

definition cancel_notify :: "fid \<Rightarrow> future_type \<Rightarrow> future_status \<Rightarrow> unit comp" where
  "cancel_notify f type status =
    (if downstream_count status = 0 then retM ()
     else
       bindM (cancel_latch f type) (\<lambda>inpoll_latch.
       if inpoll_latch \<noteq> FD_INVALID then
         seqM (event_signal inpoll_latch) (
         if notify_address status then wake_by_address_all f else retM ())
       else retM ()))"

definition udipe_cancel :: "fid \<Rightarrow> bool \<Rightarrow> bool comp" where
  "udipe_cancel f finish =
    bindM (future_status_load f) (\<lambda>status.
    bindM (liftR (future_type_uses_worker_thread (ftype status))) (\<lambda>use_state_canceling.
    bindM (with_fuel (\<lambda>fuel. cas_loop fuel f (cancel_prepare use_state_canceling) (cancel_retry (ftype status)) status)) (\<lambda>d.
    bindM (case d of
        Leave status' \<Rightarrow> retM (False, status')
      | Publish status' _ \<Rightarrow> seqM (cancel_notify f (ftype status) status') (retM (True, status'))) (\<lambda>(canceled, status').
    seqM (if finish then bindM (future_finish f status' False) (\<lambda>_. retM ()) else retM ()) (
    retM canceled)))))"

section \<open>Custom futures\<close>

definition udipe_start_custom :: "nat \<Rightarrow> fid comp" where
  "udipe_start_custom ctx =
    bindM (future_allocate ctx TYPE_CUSTOM) (\<lambda>f.
    bindM (get_future f) (\<lambda>fut.
    seqM (assertM (context_id fut = ctx)) (
    bindM (future_status_load f) (\<lambda>st.
    seqM (assertM (ftype st = TYPE_CUSTOM)) (
    seqM (assertM (status_sync fut \<noteq> EVENT_INVALID)) (
    let status = \<lparr>downstream_count = 0, downstream_count_overflow = False, available = True, fstate = STATE_PROCESSING,
                  foutcome = OUTCOME_UNKNOWN, ftype = TYPE_CUSTOM, notify_address = False, notify_event_or_lazy_lock = False,
                  reserved = 0\<rparr> in
    seqM (check_status status True) (
    seqM (future_status_store f status) (
    retM f))))))))"

definition future_custom_check_canceled :: "future_status \<Rightarrow> bool res" where
  "future_custom_check_canceled status =
    seqR (future_status_debug_check status True) (
    ensure_that (ftype status = TYPE_CUSTOM) (
    seqR (if foutcome status = OUTCOME_UNKNOWN then ensure_that (fstate status = STATE_PROCESSING) (Inr ())
          else if foutcome status = OUTCOME_FAILURE_CANCELED then ensure_that (fstate status = STATE_CANCELING) (Inr ())
          else Inl ExitError) (
    if fstate status = STATE_PROCESSING then Inr False
    else if fstate status = STATE_CANCELING then Inr True
    else Inl ExitError)))"

definition udipe_custom_canceled :: "fid \<Rightarrow> bool comp" where
  "udipe_custom_canceled custom =
    bindM (future_status_load custom) (\<lambda>status.
    liftR (future_custom_check_canceled status))"

definition future_notify_eager_outcome :: "fid \<Rightarrow> future_status \<Rightarrow> unit comp" where
  "future_notify_eager_outcome f status =
    bindM (liftR (future_type_uses_worker_thread (ftype status))) (\<lambda>uses_worker.
    seqM (assertM uses_worker) (
    if downstream_count status \<noteq> 0 then
      seqM (if notify_address status then wake_by_address_all f else retM ()) (
      if notify_event_or_lazy_lock status then bindM (get_future f) (\<lambda>fut. event_signal (status_sync fut)) else retM ())
    else retM ()))"

definition acknowledge_prepare :: "future_status \<Rightarrow> (unit, unit) decision comp" where
  "acknowledge_prepare status =
    bindM (liftR (future_custom_check_canceled status)) (\<lambda>canceled.
    seqM (ensureM canceled) (
    retM (Publish (status\<lparr>fstate := STATE_RESULT\<rparr>) ())))"

definition udipe_custom_acknowledge_cancel :: "fid \<Rightarrow> unit comp" where
  "udipe_custom_acknowledge_cancel custom =
    bindM (future_status_load custom) (\<lambda>status.
    bindM (with_fuel (\<lambda>fuel. cas_loop fuel custom acknowledge_prepare (\<lambda>_. retM None) status)) (\<lambda>d. case d of
      Leave _ \<Rightarrow> stopM ScheduleEnd
    | Publish status' _ \<Rightarrow> future_notify_eager_outcome custom status'))"

text \<open>The loop of \<open>udipe_custom_try_set_result\<close>: \<open>None\<close> when the cancelation was acknowledged.  Every turn
  takes a step of the schedule.\<close>

fun set_result_loop :: "nat \<Rightarrow> fid \<Rightarrow> u8 list \<Rightarrow> bool \<Rightarrow> future_status \<Rightarrow> future_status option comp" where
  "set_result_loop 0 custom payload payload_set status = stopM ScheduleEnd"
| "set_result_loop (Suc fuel) custom payload payload_set status =
    bindM (liftR (future_custom_check_canceled status)) (\<lambda>canceled.
    if canceled then seqM (udipe_custom_acknowledge_cancel custom) (retM None)
    else
      seqM (if payload_set then retM () else seqM (set_specific custom (Custom payload)) (emit (PayloadSet custom payload))) (
      let desired = status\<lparr>fstate := STATE_RESULT, foutcome := OUTCOME_SUCCESS\<rparr> in
      bindM (future_status_compare_exchange_weak custom status desired) (\<lambda>(success, status').
      if success then retM (Some desired)
      else set_result_loop fuel custom payload True status')))"

definition udipe_custom_try_set_result :: "fid \<Rightarrow> bool \<Rightarrow> u8 list \<Rightarrow> bool comp" where
  "udipe_custom_try_set_result custom successful payload =
    bindM (future_status_load custom) (\<lambda>status.
    bindM (with_fuel (\<lambda>fuel. set_result_loop fuel custom payload False status)) (\<lambda>r. case r of
      None \<Rightarrow> retM False
    | Some status' \<Rightarrow> seqM (future_notify_eager_outcome custom status') (retM True)))"

section \<open>A custom future in use\<close>

text \<open>Other threads may work on the futures \<open>H\<close>.\<close>

definition bystanders :: "fid multiset \<Rightarrow> step list \<Rightarrow> bool" where
  "bystanders H ss \<longleftrightarrow> (\<forall>ws sp. Interference ws sp \<in> set ss \<longrightarrow> fst ` set ws \<subseteq> set_mset H)"

lemma bystanders_Cons [simp]: "bystanders H (s # ss) \<longleftrightarrow>
    (case s of Interference ws sp \<Rightarrow> fst ` set ws \<subseteq> set_mset H | _ \<Rightarrow> True) \<and> bystanders H ss"
  unfolding bystanders_def by (cases s) (simp_all, blast)

lemma bystanders_Nil [simp]: "bystanders H []"
  by (simp add: bystanders_def)

lemma apply_writes_other: "f \<notin> fst ` set ws \<Longrightarrow> apply_writes ws fs f = fs f"
  by (induction ws fs rule: apply_writes.induct) (auto simp: set_word_def)

lemma pool_inv_cong:
  assumes "pool_inv w H" and "allocator w' = allocator w" and "\<And>g. g \<notin># H \<Longrightarrow> futures w' g = futures w g"
  shows "pool_inv w' H"
  using assms by (auto simp: pool_inv_def)

text \<open>The future \<open>f\<close> is in use by the running thread, which has a thread-local cache, with the status
  \<open>st\<close> and the data \<open>sp\<close>; the other futures in use are \<open>H\<close>.\<close>

definition has_cache :: "world \<Rightarrow> bool" where
  "has_cache w \<longleftrightarrow> thread_slot (allocator w) \<noteq> None \<and> (\<exists>xs. ring_of (local_events (allocator w)) xs)"

definition in_hand :: "world \<Rightarrow> fid multiset \<Rightarrow> fid \<Rightarrow> future_status \<Rightarrow> bool" where
  "in_hand w H f st \<longleftrightarrow> bystanders H (schedule w) \<and> f \<notin># H \<and> pool_inv w (add_mset f H) \<and> has_cache w \<and> status_in w f = st"

definition custom_at :: "world \<Rightarrow> fid multiset \<Rightarrow> fid \<Rightarrow> future_status \<Rightarrow> specific_state \<Rightarrow> bool" where
  "custom_at w H f st sp \<longleftrightarrow> in_hand w H f st \<and> specific (futures w f) = sp \<and> status_sync (futures w f) \<ge> 0"

lemma in_hand_disturbed:
  assumes "in_hand w H f st" and "schedule w = Interference ws b # ss"
  shows "in_hand (disturbed ws ss w) H f st"
proof -
  have ws: "fst ` set ws \<subseteq> set_mset H" "bystanders H ss" "f \<notin># H" using assms by (auto simp: in_hand_def)
  have same: "futures (disturbed ws ss w) g = futures w g" if "g \<notin># H" for g
    using apply_writes_other [of g ws "futures w"] ws(1) that by (auto simp: disturbed_def)
  have "pool_inv (disturbed ws ss w) (add_mset f H)"
    by (rule pool_inv_cong [of w]) (use assms same in \<open>auto simp: in_hand_def disturbed_def\<close>)
  then show ?thesis using assms ws same [OF ws(3)] by (simp add: in_hand_def status_in_def has_cache_def disturbed_def)
qed

lemma custom_at_disturbed:
  "custom_at w H f st sp \<Longrightarrow> schedule w = Interference ws b # ss \<Longrightarrow> custom_at (disturbed ws ss w) H f st sp"
  by (simp add: custom_at_def in_hand_disturbed)

lemma custom_at_written: "custom_at w H f st sp \<Longrightarrow> custom_at (written f (as_word t) w) H f t sp"
  by (auto simp: custom_at_def in_hand_def status_in_def has_cache_def written_def set_word_def elim!: pool_inv_cong)

lemma custom_at_specific: "custom_at w H f st sp \<Longrightarrow> custom_at (w\<lparr>futures := (futures w)(f := (futures w f)\<lparr>specific := sp'\<rparr>)\<rparr>) H f st sp'"
  by (auto simp: custom_at_def in_hand_def status_in_def has_cache_def elim!: pool_inv_cong)

lemma custom_at_io:
  "custom_at w H f st sp \<Longrightarrow> bystanders H ss \<Longrightarrow> custom_at (w\<lparr>schedule := ss\<rparr>) H f st sp"
  "custom_at w H f st sp \<Longrightarrow> custom_at (w\<lparr>trace := tr\<rparr>) H f st sp"
  by (auto simp: custom_at_def in_hand_def status_in_def has_cache_def elim!: pool_inv_cong)

lemma custom_at_load:
  assumes "custom_at w H f st sp"
  shows "wp (future_status_load f) (\<lambda>s w'. s = st \<and> custom_at w' H f st sp) (\<lambda>e. e = ScheduleEnd) w"
  using custom_at_disturbed [OF assms]
  by (auto simp: wp_status_load split: list.splits step.splits) (auto simp: custom_at_def in_hand_def)

text \<open>A compare-exchange on that future fails only spuriously.\<close>

lemma custom_at_cas:
  assumes at: "custom_at w H f st sp" and valid: "valid_status st" "valid_status t"
  shows "wp (future_status_compare_exchange_weak f st t) (\<lambda>(ok, s) w'. if ok then custom_at w' H f t sp \<and> trace w' = Write f (as_word st) (as_word t) # trace w
      else s = st \<and> custom_at w' H f st sp \<and> trace w' = trace w) (\<lambda>e. e = ScheduleEnd) w"
proof -
  have "custom_at (written f (as_word t) (disturbed ws ss w)) H f t sp \<and> custom_at (disturbed ws ss w) H f st sp"
    if "schedule w = Interference ws b # ss" for ws b ss
    using custom_at_written [OF custom_at_disturbed [OF at that]] custom_at_disturbed [OF at that] by blast
  then show ?thesis using valid
    by (auto simp: wp_cas_weak Let_def word_status_in split: list.splits step.splits) (auto simp: custom_at_def in_hand_def)
qed

lemma custom_at_update:
  fixes prepare :: "future_status \<Rightarrow> ('p, 'r) decision comp" and retry :: "future_status \<Rightarrow> 'r option comp"
  assumes prepare: "\<And>w. wp (prepare st) (\<lambda>d w'. w' = w \<and> d = Publish t p) (\<lambda>_. False) w"
    and retry: "\<And>w. wp (retry st) (\<lambda>r w'. w' = w \<and> r = None) (\<lambda>_. False) w"
    and valid: "valid_status st" "valid_status t" and at: "custom_at w H f st sp"
  shows "wp (cas_loop n f prepare retry st) (\<lambda>d w'. d = Publish t p \<and> custom_at w' H f t sp) (\<lambda>e. e = ScheduleEnd) w"
  using at
proof (induction n arbitrary: w)
  case (Suc n)
  have retried: "wp (bindM (retry st) (\<lambda>r. case r of Some x \<Rightarrow> retM (Leave x) | None \<Rightarrow> cas_loop n f prepare retry st))
      (\<lambda>d w'. d = Publish t p \<and> custom_at w' H f t sp) (\<lambda>e. e = ScheduleEnd) w1" if "custom_at w1 H f st sp" for w1
    unfolding wp_bind by (rule wp_mono [OF retry]) (use Suc.IH [OF that] in auto)
  show ?case unfolding cas_loop.simps wp_bind
  proof (rule wp_mono [OF prepare], elim conjE)
    fix d :: "('p, 'r) decision" and w1 :: world
    assume d: "w1 = w" "d = Publish t p"
    show "wp (case d of Leave r \<Rightarrow> retM (Leave r) | Publish desired p \<Rightarrow>
        bindM (future_status_compare_exchange_weak f st desired) (\<lambda>(success, latest').
          if success then retM (Publish desired p)
          else bindM (retry latest') (\<lambda>r. case r of Some x \<Rightarrow> retM (Leave x) | None \<Rightarrow> cas_loop n f prepare retry latest')))
        (\<lambda>d w'. d = Publish t p \<and> custom_at w' H f t sp) (\<lambda>e. e = ScheduleEnd) w1"
      unfolding d decision.case wp_bind
      by (rule wp_mono [OF custom_at_cas [OF Suc.prems valid]]) (use retried in \<open>auto simp: wp_ret split: if_splits\<close>)
  qed simp
qed (simp add: wp_simps)

section \<open>The operations on a custom future in use\<close>

text \<open>The status of a custom future that nobody waits for.\<close>

definition custom_status :: "future_state \<Rightarrow> future_outcome \<Rightarrow> bool \<Rightarrow> future_status" where
  "custom_status state outcome avail = \<lparr>downstream_count = 0, downstream_count_overflow = False, available = avail,
     fstate = state, foutcome = outcome, ftype = TYPE_CUSTOM, notify_address = False, notify_event_or_lazy_lock = False,
     reserved = 0\<rparr>"

abbreviation live_status :: future_status where
  "live_status \<equiv> custom_status STATE_PROCESSING OUTCOME_UNKNOWN True"

abbreviation canceling_status :: future_status where
  "canceling_status \<equiv> custom_status STATE_CANCELING OUTCOME_FAILURE_CANCELED True"

lemma custom_status_parts [simp]:
  "downstream_count (custom_status s r a) = 0" "available (custom_status s r a) = a" "fstate (custom_status s r a) = s"
  "foutcome (custom_status s r a) = r" "ftype (custom_status s r a) = TYPE_CUSTOM" "reserved (custom_status s r a) = 0"
  "notify_address (custom_status s r a) = False" "notify_event_or_lazy_lock (custom_status s r a) = False"
  "downstream_count_overflow (custom_status s r a) = False"
  by (simp_all add: custom_status_def)

lemma custom_status_updates [simp]:
  "(custom_status s r a)\<lparr>fstate := s'\<rparr> = custom_status s' r a"
  "(custom_status s r a)\<lparr>foutcome := r'\<rparr> = custom_status s r' a"
  "(custom_status s r a)\<lparr>available := a'\<rparr> = custom_status s r a'"
  by (simp_all add: custom_status_def)

lemma valid_custom_status [simp]:
  "valid_status (custom_status s r a) \<longleftrightarrow> (s = STATE_PROCESSING \<and> r = OUTCOME_UNKNOWN) \<or> (s = STATE_CANCELING \<and> r \<in> {OUTCOME_FAILURE_INTERNAL, OUTCOME_FAILURE_CANCELED}) \<or>
     (s = STATE_RESULT \<and> r \<in> {OUTCOME_SUCCESS, OUTCOME_FAILURE_INTERNAL, OUTCOME_FAILURE_CANCELED})"
  by (cases s; cases r; simp add: valid_status_def type_sets)

lemma check_canceled_simps [simp]:
  "future_custom_check_canceled live_status = Inr False"
  "future_custom_check_canceled canceling_status = Inr True"
proof -
  have "future_status_debug_check live_status True = Inr ()" "future_status_debug_check canceling_status True = Inr ()" by simp_all
  then show "future_custom_check_canceled live_status = Inr False" "future_custom_check_canceled canceling_status = Inr True"
    by (simp_all add: future_custom_check_canceled_def seqR_def ensure_that_def del: debug_check_allocated)
qed

lemma custom_uses_worker [simp]: "future_type_uses_worker_thread TYPE_CUSTOM = Inr True"
  by simp

lemma wp_liftR_Inr [simp]: "wp (liftR (Inr x)) Q E w \<longleftrightarrow> Q x w"
  by (simp add: wp_def liftR_def)

text \<open>Nobody is there to be notified.\<close>

lemma notify_nobody: "downstream_count st = 0 \<Longrightarrow> ftype st = TYPE_CUSTOM \<Longrightarrow> wp (future_notify_eager_outcome f st) Q E w \<longleftrightarrow> Q () w"
  by (simp add: future_notify_eager_outcome_def wp_simps)

lemma bindM_liftR_Inr [simp]: "bindM (liftR (Inr x)) k = k x"
  by (intro ext) (simp add: bindM_def liftR_def)

lemma check_canceled_eq_Inr:
  "future_custom_check_canceled st = Inr b \<longleftrightarrow> valid_status st \<and> ftype st = TYPE_CUSTOM \<and>
     (if b then fstate st = STATE_CANCELING \<and> foutcome st = OUTCOME_FAILURE_CANCELED
      else fstate st = STATE_PROCESSING \<and> foutcome st = OUTCOME_UNKNOWN)"
  by (auto simp: future_custom_check_canceled_def seqR_def bindR_eq_Inr ensure_that_def split: if_splits)

abbreviation with_result :: "future_status \<Rightarrow> future_status" where
  "with_result st \<equiv> st\<lparr>fstate := STATE_RESULT, foutcome := OUTCOME_SUCCESS\<rparr>"

lemma with_result_valid: "future_custom_check_canceled st = Inr False \<Longrightarrow> valid_status st \<and> valid_status (with_result st)"
  by (auto simp: check_canceled_eq_Inr valid_status_def)

lemma set_result_loop_live:
  assumes "custom_at w H f st sp" and "b \<longrightarrow> sp = Custom payload" and live: "future_custom_check_canceled st = Inr False"
  shows "wp (set_result_loop n f payload b st) (\<lambda>r w'. r = Some (with_result st) \<and> custom_at w' H f (with_result st) (Custom payload) \<and>
      trace w' = Write f (as_word st) (as_word (with_result st)) # (if b then [] else [PayloadSet f payload]) @ trace w) (\<lambda>e. e = ScheduleEnd) w"
  using assms(1,2)
proof (induction n arbitrary: w b sp)
  case (Suc n)
  have publish: "wp (bindM (future_status_compare_exchange_weak f st (with_result st)) (\<lambda>(success, status').
      if success then retM (Some (with_result st)) else set_result_loop n f payload True status'))
      (\<lambda>r w'. r = Some (with_result st) \<and> custom_at w' H f (with_result st) (Custom payload) \<and>
        trace w' = Write f (as_word st) (as_word (with_result st)) # trace w1) (\<lambda>e. e = ScheduleEnd) w1"
    if at: "custom_at w1 H f st (Custom payload)" for w1
  proof -
    have again: "wp (set_result_loop n f payload True st) (\<lambda>r w'. r = Some (with_result st) \<and> custom_at w' H f (with_result st) (Custom payload) \<and>
        trace w' = Write f (as_word st) (as_word (with_result st)) # trace w1) (\<lambda>e. e = ScheduleEnd) w2"
      if "custom_at w2 H f st (Custom payload)" "trace w2 = trace w1" for w2
      using Suc.IH [OF that(1), of True] that(2) by simp
    show ?thesis unfolding wp_bind
      by (rule wp_mono [OF custom_at_cas [OF at]]) (use again with_result_valid [OF live] in \<open>auto simp: wp_ret split: if_splits\<close>)
  qed
  show ?case
  proof (cases b)
    case True
    then show ?thesis using publish [of w] Suc.prems live by (simp add: wp_bind wp_seq wp_ret Let_def)
  next
    case False
    let ?w = "w\<lparr>futures := (futures w)(f := (futures w f)\<lparr>specific := Custom payload\<rparr>), trace := PayloadSet f payload # trace w\<rparr>"
    have "custom_at ?w H f st (Custom payload)"
      using custom_at_io(2) [OF custom_at_specific [OF Suc.prems(1)]] by simp
    then show ?thesis using publish [of ?w] False live by (simp add: wp_bind wp_seq wp_ret wp_emit wp_set_specific Let_def)
  qed
qed (simp add: wp_simps)

lemma try_set_result_live:
  assumes "custom_at w H f live_status sp"
  shows "wp (udipe_custom_try_set_result f successful payload) (\<lambda>ok w'. ok \<and>
      custom_at w' H f (custom_status STATE_RESULT OUTCOME_SUCCESS True) (Custom payload)) (\<lambda>e. e = ScheduleEnd) w"
  unfolding udipe_custom_try_set_result_def wp_bind
proof (rule wp_mono [OF custom_at_load [OF assms]], elim conjE)
  fix s w1
  assume s: "s = live_status" and at: "custom_at w1 H f live_status sp"
  show "wp (with_fuel (\<lambda>fuel. set_result_loop fuel f payload False s)) (\<lambda>r. wp (case r of None \<Rightarrow> retM False
      | Some status' \<Rightarrow> seqM (future_notify_eager_outcome f status') (retM True)) (\<lambda>ok w'. ok \<and>
      custom_at w' H f (custom_status STATE_RESULT OUTCOME_SUCCESS True) (Custom payload)) (\<lambda>e. e = ScheduleEnd)) (\<lambda>e. e = ScheduleEnd) w1"
    unfolding wp_with_fuel s
    by (rule wp_mono [OF set_result_loop_live [OF at]]) (auto simp: wp_seq wp_ret notify_nobody)
qed simp

lemma acknowledge_canceling:
  assumes "custom_at w H f canceling_status sp"
  shows "wp (udipe_custom_acknowledge_cancel f) (\<lambda>_ w'.
      custom_at w' H f (custom_status STATE_RESULT OUTCOME_FAILURE_CANCELED True) sp) (\<lambda>e. e = ScheduleEnd) w"
  unfolding udipe_custom_acknowledge_cancel_def wp_bind
proof (rule wp_mono [OF custom_at_load [OF assms]], elim conjE)
  fix s w1
  assume s: "s = canceling_status" and at: "custom_at w1 H f canceling_status sp"
  have "wp (cas_loop n f acknowledge_prepare (\<lambda>_. retM None) canceling_status)
      (\<lambda>d w'. d = Publish (custom_status STATE_RESULT OUTCOME_FAILURE_CANCELED True) () \<and>
        custom_at w' H f (custom_status STATE_RESULT OUTCOME_FAILURE_CANCELED True) sp) (\<lambda>e. e = ScheduleEnd) w1" for n
    by (rule custom_at_update [OF _ _ _ _ at]) (simp_all add: acknowledge_prepare_def wp_simps)
  then show "wp (with_fuel (\<lambda>fuel. cas_loop fuel f acknowledge_prepare (\<lambda>_. retM None) s)) (\<lambda>d. wp (case d of
        Leave _ \<Rightarrow> stopM ScheduleEnd | Publish status' _ \<Rightarrow> future_notify_eager_outcome f status') (\<lambda>_ w'.
      custom_at w' H f (custom_status STATE_RESULT OUTCOME_FAILURE_CANCELED True) sp) (\<lambda>e. e = ScheduleEnd)) (\<lambda>e. e = ScheduleEnd) w1"
    unfolding wp_with_fuel s by (rule wp_mono) (auto simp: notify_nobody)
qed simp

lemma try_set_result_canceling:
  assumes "custom_at w H f canceling_status sp"
  shows "wp (udipe_custom_try_set_result f successful payload) (\<lambda>ok w'. \<not> ok \<and>
      custom_at w' H f (custom_status STATE_RESULT OUTCOME_FAILURE_CANCELED True) sp) (\<lambda>e. e = ScheduleEnd) w"
  unfolding udipe_custom_try_set_result_def wp_bind
proof (rule wp_mono [OF custom_at_load [OF assms]], elim conjE)
  fix s w1
  assume s: "s = canceling_status" and at: "custom_at w1 H f canceling_status sp"
  show "wp (with_fuel (\<lambda>fuel. set_result_loop fuel f payload False s)) (\<lambda>r. wp (case r of None \<Rightarrow> retM False
      | Some status' \<Rightarrow> seqM (future_notify_eager_outcome f status') (retM True)) (\<lambda>ok w'. \<not> ok \<and>
      custom_at w' H f (custom_status STATE_RESULT OUTCOME_FAILURE_CANCELED True) sp) (\<lambda>e. e = ScheduleEnd)) (\<lambda>e. e = ScheduleEnd) w1"
    unfolding s by (simp add: wp_with_fuel wp_bind wp_seq) (rule wp_mono [OF acknowledge_canceling [OF at]], auto simp: wp_ret)
qed simp

lemma cancel_live:
  assumes "custom_at w H f live_status sp"
  shows "wp (udipe_cancel f False) (\<lambda>ok w'. ok \<and> custom_at w' H f canceling_status sp) (\<lambda>e. e = ScheduleEnd) w"
  unfolding udipe_cancel_def wp_bind
proof (rule wp_mono [OF custom_at_load [OF assms]], goal_cases)
  case (1 s w1)
  then have s: "s = live_status" and at: "custom_at w1 H f live_status sp" by auto
  have "wp (cas_loop n f (cancel_prepare True) (cancel_retry TYPE_CUSTOM) live_status)
      (\<lambda>d w'. d = Publish canceling_status () \<and> custom_at w' H f canceling_status sp) (\<lambda>e. e = ScheduleEnd) w1" for n
    by (rule custom_at_update [OF _ _ _ _ at]) (simp_all add: cancel_prepare_def cancel_retry_def wp_simps Let_def)
  then have "wp (cas_loop n f (cancel_prepare True) (cancel_retry TYPE_CUSTOM) live_status) (\<lambda>d. wp (case d of
        Leave status' \<Rightarrow> retM (False, status')
      | Publish status' _ \<Rightarrow> seqM (cancel_notify f TYPE_CUSTOM status') (retM (True, status'))) (\<lambda>x w'.
          fst x \<and> custom_at w' H f canceling_status sp) (\<lambda>e. e = ScheduleEnd)) (\<lambda>e. e = ScheduleEnd) w1" for n
    by (rule wp_mono) (auto simp: wp_simps cancel_notify_def)
  then show ?case unfolding s custom_status_parts custom_uses_worker
    by (simp add: wp_with_fuel case_prod_beta' wp_eta del: cas_loop.simps)
qed simp

text \<open>Giving back a custom future with a result.\<close>

lemma allocator_inv_events [simp]: "allocator_inv (a\<lparr>local_events := c\<rparr>) H \<longleftrightarrow> allocator_inv a H"
  by (simp add: allocator_inv_def cache_state_def)

lemma thread_cache_there:
  assumes "thread_slot (allocator w) \<noteq> None"
  shows "wp future_thread_cache Q E w \<longleftrightarrow> (\<exists>c. thread_slot (allocator w) = Some c \<and> Q c w)"
proof -
  have "refcount_and_reachability (allocator w) OR REFCOUNTED_TSS_REACHABLE \<noteq> 0"
    using bit_reachable [of 63] by (metis bit_or_iff bit_0_eq bot_apply bot_bool_def)
  then show ?thesis using assms by (auto simp: future_thread_cache_def refcounted_tss_acquire_def wp_simps)
qed

lemma sync_finalize_custom:
  assumes "custom_at w H f (custom_status s r a) sp"
  shows "wp (future_sync_finalize f) (\<lambda>_ w'. in_hand w' H f (custom_status s r a)) (\<lambda>e. e \<in> {ExitError, ScheduleEnd}) w"
  unfolding future_sync_finalize_def wp_bind
proof (rule wp_mono [OF custom_at_load [OF assms]], goal_cases)
  case (1 st w1)
  then have st: "st = custom_status s r a" and at: "custom_at w1 H f (custom_status s r a) sp" by auto
  obtain xs where ring: "ring_of (event_cache_of Events_of_thread (allocator w1)) xs" and fd: "status_sync (futures w1 f) \<ge> 0"
    and pool: "pool_inv w1 (add_mset f H)" using at by (auto simp: custom_at_def in_hand_def has_cache_def)
  let ?Q = "\<lambda>_ w'. in_hand w' H f (custom_status s r a)"
  have "wp (event_cache_liberate Events_of_thread (status_sync (futures w1 f))) (\<lambda>v. wp (set_status_sync f v) ?Q (\<lambda>e. e \<in> {ExitError, ScheduleEnd}))
      (\<lambda>e. e \<in> {ExitError, ScheduleEnd}) w1"
  proof (rule wp_mono [OF event_cache_liberate_stack [OF ring fd]], elim conjE exE)
    fix v c and w2 :: world
    assume c: "ring_of c (if length xs < 4 then xs @ [status_sync (futures w1 f)] else tl xs @ [status_sync (futures w1 f)])"
      and w2: "if length xs < 4 then w2 = w1\<lparr>allocator := with_event_cache Events_of_thread c (allocator w1)\<rparr>
        else \<exists>s. w2 = w1\<lparr>trace := CloseFd (hd xs) # trace w1, schedule := tl (schedule w1), allocator := with_event_cache Events_of_thread c (allocator w1)\<rparr>
           \<and> schedule w1 = s # tl (schedule w1)"
    have eq: "allocator w2 = (allocator w1)\<lparr>local_events := c\<rparr>" "futures w2 = futures w1" "bystanders H (schedule w2)"
      using w2 at by (auto simp: custom_at_def in_hand_def split: if_splits) (metis bystanders_Cons)
    let ?w = "w2\<lparr>futures := (futures w2)(f := (futures w2 f)\<lparr>status_sync := v\<rparr>)\<rparr>"
    have "pool_inv ?w (add_mset f H)" using pool eq by (auto simp: pool_inv_def)
    then show "wp (set_status_sync f v) ?Q (\<lambda>e. e \<in> {ExitError, ScheduleEnd}) w2"
      using at eq c by (auto simp: set_status_sync_def wp_simps in_hand_def custom_at_def has_cache_def status_in_def)
  qed simp
  then show ?case unfolding st by (simp add: wp_simps wp_bind)
qed simp

lemma upstream_detach_custom:
  assumes "custom_at w H f (custom_status s r a) sp"
  shows "wp (future_upstream_detach f) (\<lambda>_ w'. custom_at w' H f (custom_status s r a) sp) (\<lambda>e. e = ScheduleEnd) w"
  unfolding future_upstream_detach_def wp_bind
  by (rule wp_mono [OF custom_at_load [OF assms]]) (auto simp: wp_simps)

lemma exchange_in_hand:
  assumes "in_hand w H f st"
  shows "wp (future_status_exchange f t) (\<lambda>s w'. s = st \<and> in_hand w' H f t) (\<lambda>e. e = ScheduleEnd) w"
proof -
  have "in_hand (written f (as_word t) (disturbed ws ss w)) H f t" "status_in (disturbed ws ss w) f = st" if "schedule w = Interference ws b # ss" for ws b ss
    using in_hand_disturbed [OF assms that]
    by (auto simp: in_hand_def status_in_def has_cache_def written_def set_word_def elim!: pool_inv_cong)
  then show ?thesis
    by (auto simp: future_status_exchange_def wp_simps status_in_def split: list.splits step.splits)
qed

lemma liberate_custom:
  assumes at: "custom_at w H f (custom_status STATE_RESULT r False) sp"
  shows "wp (future_liberate f) (\<lambda>_ w'. pool_inv w' H \<and> has_cache w') (\<lambda>e. e \<in> {ExitError, ScheduleEnd}) w"
proof -
  let ?st = "custom_status STATE_RESULT r False" and ?E = "\<lambda>e. e \<in> {ExitError, ScheduleEnd}" and ?Q = "\<lambda>_ w'. pool_inv w' H \<and> has_cache w'"
  have give: "wp (future_liberate_uninitialized f) ?Q ?E w1" if "in_hand w1 H f st" for w1 st
    by (rule wp_mono [OF liberate_uninitialized_effect [of w1 f H]])
       (use that in \<open>auto simp: in_hand_def liberated_def has_cache_def same_rest_def\<close>)
  have clear: "wp (set_context f 0) (\<lambda>_. wp (future_liberate_uninitialized f) ?Q ?E) ?E w1" if "in_hand w1 H f st" for w1 st
  proof -
    have "in_hand (w1\<lparr>futures := (futures w1)(f := (futures w1 f)\<lparr>context_id := 0\<rparr>)\<rparr>) H f st"
      using that by (auto simp: in_hand_def status_in_def has_cache_def elim!: pool_inv_cong)
    then show ?thesis using give by (auto simp: set_context_def wp_simps)
  qed
  have tail: "wp (bindM (future_status_exchange f (as_bitfield 0)) (\<lambda>final_status.
    seqM (assertM (downstream_count final_status = 0)) (
    seqM (assertM (\<not> downstream_count_overflow final_status)) (
    seqM (assertM (\<not> available final_status)) (
    seqM (assertM (ftype final_status \<noteq> TYPE_INVALID)) (
    seqM (assertM (reserved final_status = 0)) (
    seqM (set_context f 0) (
    future_liberate_uninitialized f)))))))) ?Q ?E w1" if "in_hand w1 H f ?st" for w1
    unfolding wp_bind by (rule wp_mono [OF exchange_in_hand [OF that]]) (use clear in \<open>auto simp: wp_eta wp_simps\<close>)
  show ?thesis unfolding future_liberate_def wp_seq
  proof (rule wp_mono [OF upstream_detach_custom [OF at]], goal_cases)
    case (1 u w1)
    then have slot: "thread_slot (allocator w1) \<noteq> None" by (simp add: custom_at_def in_hand_def has_cache_def)
    have "wp (future_sync_finalize f) (\<lambda>_. wp (bindM (future_status_exchange f (as_bitfield 0)) (\<lambda>final_status.
        seqM (assertM (downstream_count final_status = 0)) (
        seqM (assertM (\<not> downstream_count_overflow final_status)) (
        seqM (assertM (\<not> available final_status)) (
        seqM (assertM (ftype final_status \<noteq> TYPE_INVALID)) (
        seqM (assertM (reserved final_status = 0)) (
        seqM (set_context f 0) (
        future_liberate_uninitialized f)))))))) ?Q ?E) ?E w1"
      by (rule wp_mono [OF sync_finalize_custom [OF 1]]) (use tail in auto)
    then show ?case by (subst wp_bind) (use slot in \<open>auto simp: thread_cache_there [OF slot] wp_seq\<close>)
  qed simp
qed

lemma finish_custom:
  assumes at: "custom_at w H f (custom_status STATE_RESULT r True) sp" and r: "r \<in> {OUTCOME_SUCCESS, OUTCOME_FAILURE_INTERNAL, OUTCOME_FAILURE_CANCELED}"
    and res: "collect_result (custom_status STATE_RESULT r False) sp = Inr res"
  shows "wp (udipe_finish f) (\<lambda>x w'. x = res \<and> pool_inv w' H \<and> has_cache w') (\<lambda>e. e \<in> {ExitError, ScheduleEnd}) w"
  unfolding udipe_finish_def wp_bind
proof (rule wp_mono [OF custom_at_load [OF at]], goal_cases)
  case (1 st w1)
  let ?from = "custom_status STATE_RESULT r True" and ?to = "custom_status STATE_RESULT r False"
  let ?E = "\<lambda>e. e \<in> {ExitError, ScheduleEnd}" and ?Q = "\<lambda>x w'. x = res \<and> pool_inv w' H \<and> has_cache w'"
  have st: "st = ?from" and at1: "custom_at w1 H f ?from sp" using 1 by auto
  have claim: "wp (cas_loop n f finish_prepare finish_retry ?from) (\<lambda>d w'. d = Publish ?to () \<and> custom_at w' H f ?to sp) (\<lambda>e. e = ScheduleEnd) w1" for n
    by (rule custom_at_update [OF _ _ _ _ at1]) (use r in \<open>auto simp: finish_prepare_def finish_retry_def wp_simps Let_def\<close>)
  have rest: "wp (future_liberate f) (\<lambda>_. ?Q res) ?E w2" if "custom_at w2 H f ?to sp" for w2
    by (rule wp_mono [OF liberate_custom [OF that]]) auto
  have deref: "wp (derefM (Some res)) Q E = Q res" for Q E by (intro ext) (simp add: wp_simps)
  show ?case unfolding st future_finish_def wp_bind wp_with_fuel
  proof (rule wp_mono [OF claim], goal_cases)
    case (1 d w2)
    then have "specific (futures w2 f) = sp" by (simp add: custom_at_def)
    then show ?case using 1 rest res by (auto simp: wp_simps wp_eta deref)
  qed simp
qed simp

section \<open>Starting a custom future\<close>

definition ready :: "world \<Rightarrow> fid multiset \<Rightarrow> bool" where
  "ready w H \<longleftrightarrow> bystanders H (schedule w) \<and> pool_inv w H \<and> has_cache w"

text \<open>The members of a future besides its status word.\<close>

definition parts :: "world \<Rightarrow> fid \<Rightarrow> specific_state \<times> nat \<times> fd" where
  "parts w f = (specific (futures w f), context_id (futures w f), status_sync (futures w f))"

lemma context_apply_writes: "context_id (apply_writes ws fs f) = context_id (fs f)"
  by (induction ws fs rule: apply_writes.induct) (auto simp: set_word_def)

lemma parts_simps [simp]: "parts (disturbed ws ss w) f = parts w f" "parts (written g v w) f = parts w f"
  by (simp_all add: parts_def) (simp_all add: disturbed_def written_def context_apply_writes set_word_def)

lemma load_in_hand:
  assumes "in_hand w H f st"
  shows "wp (future_status_load f) (\<lambda>s w'. s = st \<and> in_hand w' H f st \<and> parts w' f = parts w f) (\<lambda>e. e = ScheduleEnd) w"
  using in_hand_disturbed [OF assms]
  by (auto simp: wp_status_load split: list.splits step.splits) (auto simp: in_hand_def)

lemma exchange_parts:
  assumes "in_hand w H f st"
  shows "wp (future_status_exchange f t) (\<lambda>s w'. s = st \<and> in_hand w' H f t \<and> parts w' f = parts w f) (\<lambda>e. e = ScheduleEnd) w"
proof -
  have "wp (future_status_exchange f t) (\<lambda>_ w'. parts w' f = parts w f) (\<lambda>_. True) w"
    by (auto simp: future_status_exchange_def wp_simps split: list.splits step.splits)
  from wp_both [OF this exchange_in_hand [OF assms]] show ?thesis by (rule wp_mono) auto
qed

abbreviation start_stop :: "stop \<Rightarrow> bool" where
  "start_stop e \<equiv> e \<in> {ExitError, EnsureFailed, ScheduleEnd}"

lemma sync_initialize_custom:
  assumes "in_hand w H f st" and "ftype st = TYPE_CUSTOM"
  shows "wp (future_sync_initialize f) (\<lambda>_ w'. in_hand w' H f st \<and> status_sync (futures w' f) \<ge> 0 \<and>
      specific (futures w' f) = specific (futures w f) \<and> context_id (futures w' f) = context_id (futures w f)) start_stop w"
  unfolding future_sync_initialize_def wp_bind
proof (rule wp_mono [OF load_in_hand [OF assms(1)]], goal_cases)
  case (1 s w1)
  then have s: "s = st" and at: "in_hand w1 H f st" and same: "parts w1 f = parts w f" by auto
  obtain xs where ring: "ring_of (event_cache_of Events_of_thread (allocator w1)) xs" using at by (auto simp: in_hand_def has_cache_def)
  have last: "last xs \<ge> 0" if "xs \<noteq> []" using ring last_in_set [OF that] by (simp add: ring_stack_def)
  let ?Q = "\<lambda>_ w'. in_hand w' H f st \<and> status_sync (futures w' f) \<ge> 0 \<and>
      specific (futures w' f) = specific (futures w f) \<and> context_id (futures w' f) = context_id (futures w f)"
  have "wp (event_cache_allocate Events_of_thread) (\<lambda>v. wp (set_status_sync f v) ?Q start_stop) start_stop w1"
  proof (rule wp_mono [OF event_cache_allocate_stack [OF ring]], goal_cases)
    case (1 v w2)
    then have v: "v \<ge> 0" using last by (auto split: if_splits)
    obtain c ys where eq: "allocator w2 = (allocator w1)\<lparr>local_events := c\<rparr>" "ring_of c ys" "futures w2 = futures w1" "bystanders H (schedule w2)"
    proof (cases "xs = []")
      case True
      then show ?thesis using 1 at ring that [of "local_events (allocator w1)" xs] by (auto simp: in_hand_def)
    next
      case False
      then show ?thesis using 1 at that by (auto simp: in_hand_def)
    qed
    let ?w = "w2\<lparr>futures := (futures w2)(f := (futures w2 f)\<lparr>status_sync := v\<rparr>)\<rparr>"
    have "pool_inv ?w (add_mset f H)" using at eq by (auto simp: pool_inv_def in_hand_def)
    then show ?case using at eq v same by (auto simp: set_status_sync_def wp_simps in_hand_def has_cache_def status_in_def parts_def)
  qed auto
  then show ?case unfolding s using assms(2) by (simp add: wp_bind)
qed simp

text \<open>Where an allocation may stop: the process exits, or there is no memory left.\<close>

abbreviation no_future :: "world \<Rightarrow> fid multiset \<Rightarrow> stop \<Rightarrow> bool" where
  "no_future w H e \<equiv> start_stop e \<or> H = mset (concat (storage_pages (allocator w))) \<and> outside e"

lemma bystanders_suffix: "suffix ss' ss \<Longrightarrow> bystanders H ss \<Longrightarrow> bystanders H ss'"
  using set_mono_suffix by (fastforce simp: bystanders_def)

lemma allocate_ready:
  assumes "ready w H"
  shows "wp future_allocate_uninitialized (\<lambda>f w'. in_hand w' H f (as_bitfield 0) \<and> parts w' f = (Network [], 0, -1)) (no_future w H) w"
proof (rule wp_mono [OF wp_both [OF consumes_allocate [unfolded consumes_def, rule_format] allocate_uninitialized_effect [of w H]]], goal_cases)
  case (2 f w')
  then have "bystanders H (schedule w')" using assms bystanders_suffix by (auto simp: ready_def)
  then show ?case using 2 assms
    by (auto simp: ready_def allocated_def in_hand_def has_cache_def same_rest_def status_in_def parts_def zero_future_def)
qed (use assms in \<open>auto simp: ready_def\<close>)

definition typed_status :: future_status where
  "typed_status = (as_bitfield 0)\<lparr>ftype := TYPE_CUSTOM\<rparr>"

lemma allocate_custom:
  assumes "ready w H"
  shows "wp (future_allocate ctx TYPE_CUSTOM) (\<lambda>f w'. in_hand w' H f typed_status \<and> status_sync (futures w' f) \<ge> 0 \<and>
      specific (futures w' f) = Network [] \<and> context_id (futures w' f) = ctx) (no_future w H) w"
proof -
  let ?Q = "\<lambda>f w'. in_hand w' H f typed_status \<and> status_sync (futures w' f) \<ge> 0 \<and>
      specific (futures w' f) = Network [] \<and> context_id (futures w' f) = ctx" and ?E = "no_future w H"
  have slot: "thread_slot (allocator w) \<noteq> None" using assms by (simp add: ready_def has_cache_def)
  have sync: "wp (seqM (future_sync_initialize f) (retM f)) ?Q ?E w1"
    if "in_hand w1 H f typed_status" "parts w1 f = (Network [], ctx, -1)" for f w1
    unfolding wp_seq by (rule wp_mono [OF sync_initialize_custom [OF that(1)]]) (use that in \<open>auto simp: wp_ret typed_status_def parts_def\<close>)
  have typing: "wp (bindM (future_status_exchange f ((as_bitfield 0)\<lparr>ftype := TYPE_CUSTOM\<rparr>)) (\<lambda>prev_status.
      seqM (assertM (as_word prev_status = 0)) (seqM (future_sync_initialize f) (retM f)))) ?Q ?E w1"
    if "in_hand w1 H f (as_bitfield 0)" "parts w1 f = (Network [], ctx, -1)" for f w1
    unfolding wp_bind by (rule wp_mono [OF exchange_parts [OF that(1)]])
      (use that sync in \<open>auto simp: wp_seq wp_assert as_word_as_bitfield typed_status_def\<close>)
  have attach: "wp (seqM (set_context f ctx) (bindM (future_status_exchange f ((as_bitfield 0)\<lparr>ftype := TYPE_CUSTOM\<rparr>)) (\<lambda>prev_status.
      seqM (assertM (as_word prev_status = 0)) (seqM (future_sync_initialize f) (retM f))))) ?Q ?E w1"
    if "in_hand w1 H f (as_bitfield 0)" "parts w1 f = (Network [], 0, -1)" for f w1
  proof -
    let ?w = "w1\<lparr>futures := (futures w1)(f := (futures w1 f)\<lparr>context_id := ctx\<rparr>)\<rparr>"
    have "in_hand ?w H f (as_bitfield 0)" using that(1) by (auto simp: in_hand_def status_in_def has_cache_def elim!: pool_inv_cong)
    moreover have "parts ?w f = (Network [], ctx, -1)" using that(2) by (simp add: parts_def)
    ultimately have "wp (bindM (future_status_exchange f ((as_bitfield 0)\<lparr>ftype := TYPE_CUSTOM\<rparr>)) (\<lambda>prev_status.
      seqM (assertM (as_word prev_status = 0)) (seqM (future_sync_initialize f) (retM f)))) ?Q ?E ?w" by (rule typing)
    then show ?thesis by (simp add: set_context_def wp_seq wp_bind wp_get_future wp_set_future)
  qed
  have load: "wp (bindM (future_status_load f) (\<lambda>status. seqM (check_status status False) (seqM (set_context f ctx) (
      bindM (future_status_exchange f ((as_bitfield 0)\<lparr>ftype := TYPE_CUSTOM\<rparr>)) (\<lambda>prev_status.
      seqM (assertM (as_word prev_status = 0)) (seqM (future_sync_initialize f) (retM f))))))) ?Q ?E w1"
    if "in_hand w1 H f (as_bitfield 0)" "parts w1 f = (Network [], 0, -1)" for f w1
    unfolding wp_bind by (rule wp_mono [OF load_in_hand [OF that(1)]])
      (use that attach in \<open>auto simp: wp_seq wp_ret wp_bind\<close>)
  show ?thesis unfolding future_allocate_def
    by (subst wp_bind, subst thread_cache_there [OF slot], subst wp_bind)
       (use slot load in \<open>auto intro!: wp_mono [OF allocate_ready [OF assms]]\<close>)
qed

lemma start_custom_ready:
  assumes "ready w H"
  shows "wp (udipe_start_custom ctx) (\<lambda>f w'. custom_at w' H f live_status (Network [])) (no_future w H) w"
proof -
  let ?Q = "\<lambda>f w'. custom_at w' H f live_status (Network [])" and ?E = "no_future w H"
  have store: "wp (seqM (future_status_store f live_status) (retM f)) ?Q ?E w1"
    if "in_hand w1 H f typed_status" "status_sync (futures w1 f) \<ge> 0" "specific (futures w1 f) = Network []" for f w1
  proof -
    have "custom_at (written f (as_word live_status) (disturbed ws ss w1)) H f live_status (Network [])"
      if "schedule w1 = Interference ws b # ss" for ws b ss
      by (rule custom_at_written [of _ _ _ typed_status]) (use in_hand_disturbed [OF \<open>in_hand w1 H f typed_status\<close> that] \<open>status_sync (futures w1 f) \<ge> 0\<close> \<open>specific (futures w1 f) = Network []\<close> in \<open>simp add: custom_at_def\<close>)
    then show ?thesis by (auto simp: future_status_store_def wp_simps split: list.splits step.splits)
  qed
  show ?thesis unfolding udipe_start_custom_def wp_bind
  proof (rule wp_mono [OF allocate_custom [OF assms]], goal_cases)
    case (1 f w1)
    then have inv: "status_sync (futures w1 f) \<noteq> EVENT_INVALID" by (auto simp: EVENT_INVALID_def FD_INVALID_def)
    have live: "live_status = \<lparr>downstream_count = 0, downstream_count_overflow = False, available = True, fstate = STATE_PROCESSING,
                  foutcome = OUTCOME_UNKNOWN, ftype = TYPE_CUSTOM, notify_address = False, notify_event_or_lazy_lock = False,
                  reserved = 0\<rparr>" by (simp add: custom_status_def)
    have "wp (future_status_load f) (\<lambda>st. wp (seqM (assertM (ftype st = TYPE_CUSTOM)) (seqM (assertM (status_sync (futures w1 f) \<noteq> EVENT_INVALID)) (
        seqM (check_status live_status True) (seqM (future_status_store f live_status) (retM f))))) ?Q ?E) ?E w1"
      by (rule wp_mono [OF load_in_hand [of w1 H f typed_status]])
         (use 1 inv store in \<open>auto simp: wp_seq wp_assert wp_check_status typed_status_def parts_def\<close>)
    then show ?case unfolding live using 1 by (simp add: wp_get_future wp_bind wp_seq wp_assert Let_def)
  qed simp
qed

lemma custom_canceled_query:
  assumes "custom_at w H f st sp" and "future_custom_check_canceled st = Inr b"
  shows "wp (udipe_custom_canceled f) (\<lambda>c w'. c = b \<and> custom_at w' H f st sp) (\<lambda>e. e = ScheduleEnd) w"
  unfolding udipe_custom_canceled_def wp_bind
  by (rule wp_mono [OF custom_at_load [OF assms(1)]]) (use assms(2) in auto)

lemma collect_simps [simp]:
  "collect_result (custom_status STATE_RESULT OUTCOME_SUCCESS False) (Custom payload) = Inr \<lparr>result_type = UDIPE_CUSTOM, result_payload = payload\<rparr>"
  "collect_result (custom_status STATE_RESULT OUTCOME_FAILURE_CANCELED False) sp = Inr \<lparr>result_type = UDIPE_FAILURE_CANCELED, result_payload = []\<rparr>"
  by (simp_all add: collect_result_def payload_of_def)

section \<open>What the operations write\<close>

interpretation finish_claim: status_update f finish_prepare finish_retry protocol
  for f
  by unfold_locales (auto simp: finish_prepare_def finish_retry_def wp_simps Let_def protocol_def follows_def)

interpretation cancel: status_update f "cancel_prepare b" "cancel_retry ty" protocol
  for f b ty
  by unfold_locales (auto simp: cancel_prepare_def cancel_retry_def wp_simps Let_def protocol_def follows_def)

interpretation acknowledge: status_update f acknowledge_prepare "\<lambda>_. retM None" protocol
  for f
  by unfold_locales (auto simp: acknowledge_prepare_def wp_simps lift_splits check_canceled_eq_Inr protocol_def follows_def split: if_splits)

lemma follows_notify [follows_intros]: "follows R (future_notify_eager_outcome f st)"
  unfolding future_notify_eager_outcome_def by (auto intro!: follows_intros)

lemma follows_cancel_latch [follows_intros]: "follows R (cancel_latch f ty)"
  unfolding cancel_latch_def by (auto intro!: follows_intros split: specific_state.splits)

lemma follows_cancel_notify [follows_intros]: "follows R (cancel_notify f ty st)"
  unfolding cancel_notify_def by (auto intro!: follows_intros)

lemma follows_cancel: "follows protocol (udipe_cancel f False)"
  unfolding udipe_cancel_def by (auto intro!: follows_intros cancel.update_follows split: decision.splits)

lemma follows_acknowledge: "follows protocol (udipe_custom_acknowledge_cancel f)"
  unfolding udipe_custom_acknowledge_cancel_def by (auto intro!: follows_intros acknowledge.update_follows split: decision.splits)

lemma publish_result_follows:
  assumes "writes_follow protocol (trace w)" and "future_custom_check_canceled st = Inr False"
  shows "wp (future_status_compare_exchange_weak f st (st\<lparr>fstate := STATE_RESULT, foutcome := OUTCOME_SUCCESS\<rparr>))
    (\<lambda>_ w'. writes_follow protocol (trace w')) (\<lambda>_. True) w"
  using assms by (auto simp: wp_cas_weak Let_def word_status_in check_canceled_eq_Inr protocol_def split: list.splits step.splits)

lemma follows_set_result_loop: "follows protocol (set_result_loop n f payload b st)"
proof (induction n arbitrary: b st)
  case (Suc n)
  show ?case
  proof (cases "future_custom_check_canceled st")
    case (Inl e)
    then show ?thesis by (auto simp: follows_def wp_simps lift_splits)
  next
    case (Inr c)
    show ?thesis
    proof (cases c)
      case True
      then show ?thesis using Inr by (auto intro!: follows_intros follows_acknowledge)
    next
      case False
      have "wp (bindM (future_status_compare_exchange_weak f st (st\<lparr>fstate := STATE_RESULT, foutcome := OUTCOME_SUCCESS\<rparr>)) (\<lambda>(success, status').
          if success then retM (Some (st\<lparr>fstate := STATE_RESULT, foutcome := OUTCOME_SUCCESS\<rparr>)) else set_result_loop n f payload True status'))
          (\<lambda>_ w'. writes_follow protocol (trace w')) (\<lambda>_. True) w" if "writes_follow protocol (trace w)" for w
        unfolding wp_bind by (rule wp_mono [OF publish_result_follows [OF that]]) (use Suc.IH Inr False in \<open>auto simp: follows_def wp_ret split: if_splits\<close>)
      then show ?thesis using Inr False unfolding follows_def
        by (auto simp: wp_bind wp_seq wp_ret wp_set_specific wp_emit Let_def)
    qed
  qed
qed (simp add: follows_def wp_simps)

lemma follows_try_set_result: "follows protocol (udipe_custom_try_set_result f b payload)"
  unfolding udipe_custom_try_set_result_def by (auto intro!: follows_intros follows_set_result_loop split: option.splits)

section \<open>Properties\<close>

text \<open>A world with one future, in the local cache or in use with a given status.\<close>

definition ready_world :: world where
  "ready_world = pool_world\<lparr>allocator := pool_allocator\<lparr>thread_slot := Some 1\<rparr>\<rparr>"

definition busy_world :: "future_status \<Rightarrow> world" where
  "busy_world st = \<lparr>futures = (\<lambda>_. \<lparr>specific = Custom [], context_id = 1, status_sync = 5, status_word = as_word st\<rparr>),
     allocator = pool_allocator\<lparr>thread_slot := Some 1, pages := [1 \<mapsto> sample_page None None (replicate 30 None)],
       local_futures := \<lparr>cache_bottom = Some 1, cache_top = Some 1, num_top_futures = 0\<rparr>\<rparr>,
     schedule = [Interference [] False, Interference [] False], trace = []\<rparr>"

lemma allocator_inv_slot [simp]: "allocator_inv (a\<lparr>thread_slot := v\<rparr>) H \<longleftrightarrow> allocator_inv a H"
  by (simp add: allocator_inv_def cache_state_def)

lemma empty_ring: "ring_of (local_events empty_allocator) []"
  by (simp add: empty_allocator_def ring_eval)

lemma ready_world_ready: "ready ready_world {#}"
  using pool_world_inv empty_ring
  by (auto simp: ready_def ready_world_def has_cache_def bystanders_def pool_inv_def pool_world_def pool_allocator_def intro!: exI [of _ "[]"])

lemma busy_world_parts [simp]:
  "schedule (busy_world st) = [Interference [] False, Interference [] False]" "trace (busy_world st) = []"
  "status_in (busy_world st) f = st" "status_in (busy_world st\<lparr>schedule := ss\<rparr>) f = st"
  "disturbed [] ss (busy_world st) = busy_world st\<lparr>schedule := ss\<rparr>"
  "disturbed [] ss (busy_world st\<lparr>schedule := ss'\<rparr>) = busy_world st\<lparr>schedule := ss\<rparr>"
  by (simp_all add: busy_world_def status_in_def disturbed_def)

lemma busy_world_at: "custom_at (busy_world st) {#} 10 st (Custom [])"
proof -
  let ?a = "allocator (busy_world st)"
  have "cache_shape 30 (pages ?a) (cache_of Local ?a) [] 1 [] []"
    by (simp add: cache_shape_def busy_world_def sample_page_def page_holds_def)
  then have "stack_in 30 ?a Local [] {1}" by (rule cache_stackI) auto
  then have "cache_state ?a 30 [] {1} [] {}"
    by (simp add: cache_state_def page_capacity_def storage_page_length_def FALSE_SHARING_GRANULARITY_def)
       (simp add: busy_world_def pool_allocator_def empty_allocator_def cache_stack_def)
  then have "allocator_inv ?a {#10#}" unfolding allocator_inv_def
    by (intro conjI exI) (simp add: busy_world_def pool_allocator_def, assumption, simp add: busy_world_def pool_allocator_def)
  then have "pool_inv (busy_world st) {#10#}" by (simp add: pool_inv_def) (simp add: busy_world_def pool_allocator_def)
  then show ?thesis using empty_ring
    by (auto simp: custom_at_def in_hand_def has_cache_def status_in_def busy_world_def pool_allocator_def intro!: exI [of _ "[]"])
qed

text \<open>C1. A custom future that is started, completed with a payload and finished gives the payload
  back, whatever the payload and whatever other threads do to other futures; the future is then unused
  again.  The argument \<open>successful\<close> has no influence: a failure is reported as a success.\<close>

theorem custom_future_roundtrip:
  assumes "ready w H"
  shows "wp (bindM (udipe_start_custom ctx) (\<lambda>f.
      bindM (udipe_custom_try_set_result f successful payload) (\<lambda>ok.
      bindM (udipe_finish f) (\<lambda>r. retM (ok, r)))))
    (\<lambda>(ok, r) w'. ok \<and> r = \<lparr>result_type = UDIPE_CUSTOM, result_payload = payload\<rparr> \<and> pool_inv w' H) (no_future w H) w"
  unfolding wp_bind
proof (rule wp_mono [OF start_custom_ready [OF assms]], goal_cases)
  case (1 f w1)
  then show ?case
  proof (rule wp_mono [OF try_set_result_live], goal_cases)
    case (1 ok w2)
    then have at: "custom_at w2 H f (custom_status STATE_RESULT OUTCOME_SUCCESS True) (Custom payload)" and ok: ok by auto
    show ?case by (rule wp_mono [OF finish_custom [OF at]]) (use ok in \<open>auto simp: wp_ret\<close>)
  qed auto
qed auto

theorem custom_future_roundtrip_witness:
  "wp (bindM (udipe_start_custom 7) (\<lambda>f.
      bindM (udipe_custom_try_set_result f False [1, 2, 3]) (\<lambda>ok.
      bindM (udipe_finish f) (\<lambda>r. retM (ok, r)))))
    (\<lambda>(ok, r) w'. ok \<and> r = \<lparr>result_type = UDIPE_CUSTOM, result_payload = [1, 2, 3]\<rparr> \<and> pool_inv w' {#}) (no_future ready_world {#}) ready_world"
  by (rule custom_future_roundtrip [OF ready_world_ready])

text \<open>C6. A custom future that is canceled before it has a result: the cancelation succeeds, the
  worker is told about it, its late result is refused, and finishing the future reports the cancelation
  and makes it unused again.\<close>

theorem canceled_future_reports:
  assumes "ready w H"
  shows "wp (bindM (udipe_start_custom ctx) (\<lambda>f.
      bindM (udipe_cancel f False) (\<lambda>canceled.
      bindM (udipe_custom_canceled f) (\<lambda>told.
      bindM (udipe_custom_try_set_result f successful payload) (\<lambda>ok.
      bindM (udipe_finish f) (\<lambda>r. retM (canceled, told, ok, r)))))))
    (\<lambda>(canceled, told, ok, r) w'. canceled \<and> told \<and> \<not> ok \<and>
      r = \<lparr>result_type = UDIPE_FAILURE_CANCELED, result_payload = []\<rparr> \<and> pool_inv w' H) (no_future w H) w"
  unfolding wp_bind
proof (rule wp_mono [OF start_custom_ready [OF assms]], goal_cases)
  case (1 f w1)
  then show ?case
  proof (rule wp_mono [OF cancel_live], goal_cases)
    case (1 canceled w2)
    then have at2: "custom_at w2 H f canceling_status (Network [])" and c: canceled by auto
    show ?case
    proof (rule wp_mono [OF custom_canceled_query [OF at2 check_canceled_simps(2)]], goal_cases)
      case (1 told w3)
      then have at3: "custom_at w3 H f canceling_status (Network [])" and told: told by auto
      show ?case
      proof (rule wp_mono [OF try_set_result_canceling [OF at3]], goal_cases)
        case (1 ok w4)
        then have at4: "custom_at w4 H f (custom_status STATE_RESULT OUTCOME_FAILURE_CANCELED True) (Network [])" and ok: "\<not> ok" by auto
        show ?case by (rule wp_mono [OF finish_custom [OF at4]]) (use c told ok in \<open>auto simp: wp_ret\<close>)
      qed auto
    qed auto
  qed auto
qed auto

theorem canceled_future_reports_witness:
  "wp (bindM (udipe_start_custom 7) (\<lambda>f.
      bindM (udipe_cancel f False) (\<lambda>canceled.
      bindM (udipe_custom_canceled f) (\<lambda>told.
      bindM (udipe_custom_try_set_result f True [1]) (\<lambda>ok.
      bindM (udipe_finish f) (\<lambda>r. retM (canceled, told, ok, r)))))))
    (\<lambda>(canceled, told, ok, r) w'. canceled \<and> told \<and> \<not> ok \<and>
      r = \<lparr>result_type = UDIPE_FAILURE_CANCELED, result_payload = []\<rparr> \<and> pool_inv w' {#}) (no_future ready_world {#}) ready_world"
  by (rule canceled_future_reports [OF ready_world_ready])

text \<open>C14. Every status word that canceling a future, completing a custom future and acknowledging a
  cancelation write follows the protocol of status words, whatever other threads and the operating
  system do: a known outcome stays, the state only moves forward, requests for notification stay.\<close>

theorem api_follows_protocol:
  assumes "m \<in> {bindM (udipe_cancel f False) (\<lambda>_. retM ()), udipe_custom_acknowledge_cancel f,
      bindM (udipe_custom_try_set_result f successful payload) (\<lambda>_. retM ())}"
    and "m w = Inr (x, w')" and "trace w = []"
  shows "writes_follow protocol (trace w')"
proof -
  have "follows protocol m"
    using assms(1) by (auto intro!: follows_intros follows_cancel follows_acknowledge follows_try_set_result)
  then show ?thesis by (rule follows_returns [of protocol m w x w']) (simp_all add: assms(2,3))
qed

theorem api_follows_protocol_witness:
  "\<exists>w'. udipe_custom_acknowledge_cancel 10 (busy_world canceling_status) = Inr ((), w') \<and> writes_follow protocol (trace w')"
proof -
  have "wp (udipe_custom_acknowledge_cancel 10) (\<lambda>_ _. True) (\<lambda>_. False) (busy_world canceling_status)"
    by (simp add: udipe_custom_acknowledge_cancel_def acknowledge_prepare_def wp_simps notify_nobody)
  then obtain w' where w': "udipe_custom_acknowledge_cancel 10 (busy_world canceling_status) = Inr ((), w')"
    by (auto simp: wp_def split: sum.splits)
  then show ?thesis using api_follows_protocol [of "udipe_custom_acknowledge_cancel 10" 10 True "[]" "busy_world canceling_status" "()" w'] by simp
qed

lemma finisher_registers:
  "eager_prepare DOWNSTREAM_COUNT_KEEP (custom_status STATE_PROCESSING OUTCOME_UNKNOWN False) w =
    Inr (Publish ((custom_status STATE_PROCESSING OUTCOME_UNKNOWN False)\<lparr>notify_address := True\<rparr>) (), w)"
proof -
  let ?st = "custom_status STATE_PROCESSING OUTCOME_UNKNOWN False"
  have "future_status_debug_check ?st True = Inr ()" "future_status_debug_check (?st\<lparr>notify_address := True\<rparr>) True = Inr ()"
    by (simp_all add: valid_status_def type_sets)
  then have inc: "prepare_downstream_count_inc ?st DOWNSTREAM_COUNT_KEEP = Inr ?st"
    and check: "check_status (?st\<lparr>notify_address := True\<rparr>) True = retM ()"
    by (auto simp: prepare_downstream_count_inc_def seqR_def ensure_that_def assert_that_def check_status_def liftR_def retM_def
        simp del: debug_check_allocated)
  have "\<not> future_status_eq (?st\<lparr>notify_address := True\<rparr>) ?st"
    by (auto simp: future_status_eq_def custom_status_def dest: arg_cong [of _ _ as_bitfield])
  then show ?thesis by (simp add: eager_prepare_def inc check seqM_def bindM_def retM_def Let_def)
qed

text \<open>C35. A thread in udipe_finish() has made the future unavailable, without being counted as a
  waiter; before it goes to sleep it asks for a notification by address.  The thread that completes the
  future publishes the result and wakes up nobody: its only effects are the payload and the new status
  word.\<close>

theorem finish_wakeup_lost:
  assumes "custom_at w H f st sp"
    and "eager_prepare DOWNSTREAM_COUNT_KEEP (custom_status STATE_PROCESSING OUTCOME_UNKNOWN False) w = Inr (Publish st (), w)"
  shows "notify_address st \<and> wp (udipe_custom_try_set_result f successful payload) (\<lambda>ok w'. ok \<and> fstate (status_in w' f) = STATE_RESULT \<and>
      trace w' = Write f (as_word st) (as_word (with_result st)) # PayloadSet f payload # trace w) (\<lambda>e. e = ScheduleEnd) w"
proof
  have st: "st = (custom_status STATE_PROCESSING OUTCOME_UNKNOWN False)\<lparr>notify_address := True\<rparr>"
    using assms(2) by (simp add: finisher_registers)
  then show "notify_address st" by simp
  have live: "future_custom_check_canceled st = Inr False"
    unfolding check_canceled_eq_Inr st by (simp add: valid_status_def type_sets)
  show "wp (udipe_custom_try_set_result f successful payload) (\<lambda>ok w'. ok \<and> fstate (status_in w' f) = STATE_RESULT \<and>
      trace w' = Write f (as_word st) (as_word (with_result st)) # PayloadSet f payload # trace w) (\<lambda>e. e = ScheduleEnd) w"
    unfolding udipe_custom_try_set_result_def wp_bind
  proof (rule wp_mono [OF wp_both [OF silent_wp [OF silent_load] custom_at_load [OF assms(1)]]], goal_cases)
    case (1 s w1)
    then have s: "s = st" and at: "custom_at w1 H f st sp" and tr: "trace w1 = trace w" by auto
    show ?case unfolding wp_with_fuel s
      by (rule wp_mono [OF set_result_loop_live [OF at _ live]])
         (use tr st in \<open>auto simp: wp_seq wp_ret notify_nobody custom_at_def in_hand_def\<close>)
  qed simp
qed

theorem finish_wakeup_lost_witness:
  "\<exists>st. notify_address st \<and> wp (udipe_custom_try_set_result 10 True [1]) (\<lambda>ok w'. ok \<and> fstate (status_in w' 10) = STATE_RESULT \<and>
      trace w' = Write 10 (as_word st) (as_word (with_result st)) # PayloadSet 10 [1] # trace (busy_world st)) (\<lambda>e. e = ScheduleEnd) (busy_world st)"
  using finish_wakeup_lost [OF busy_world_at finisher_registers] by blast

end
