(* ===== verification/ConnectOptions.thy ===== *)
theory ConnectOptions
  imports Bits
begin

text \<open>
  Model of src/connect.h and src/connect.c, the pool of \<open>udipe_connect_options_t\<close> that client threads
  borrow to send a connection request.  The contents of the options are not modelled: an allocation
  returns the index of the options in the pool.

  Other threads share the availability mask.  \<open>steps\<close> lists in advance what is decided outside of the
  running thread, in the order in which it consumes it: before each atomic access, the bits that other
  threads have set and cleared in the meantime, and the results of \<open>rand()\<close>.  Waiting on the address of
  the mask only delays the thread.  An operation that needs more steps than there are stops with
  \<open>ScheduleEnd\<close>.
\<close>

unbundle bit_operations_syntax

section \<open>Definitions\<close>

definition NUM_CONNECT_OPTIONS :: nat where
  "NUM_CONNECT_OPTIONS = 32"

datatype connect_step =
    Others u32 u32      \<comment> \<open>bits that other threads have set, and cleared\<close>
  | Rand nat

record connect_options_allocator =
  availability :: u32
  steps :: "connect_step list"
  wakeups :: nat        \<comment> \<open>calls of \<open>wake_by_address_single\<close>\<close>

definition initial_availability_mask :: u32 where
  "initial_availability_mask =
     (if NUM_CONNECT_OPTIONS = 32 then -1 else push_bit NUM_CONNECT_OPTIONS 1 - 1)"

definition connect_options_allocator_initialize :: "connect_step list \<Rightarrow> connect_options_allocator" where
  "connect_options_allocator_initialize todo =
     \<lparr>availability = initial_availability_mask, steps = todo, wakeups = 0\<rparr>"

text \<open>The other threads run until this thread accesses the mask.\<close>

definition others_run :: "connect_options_allocator \<Rightarrow> connect_options_allocator res" where
  "others_run a = (case steps a of
     Others set_bits cleared # rest \<Rightarrow>
       Inr (a\<lparr>availability := (availability a OR set_bits) AND NOT cleared, steps := rest\<rparr>)
   | _ \<Rightarrow> Inl ScheduleEnd)"

definition random :: "connect_options_allocator \<Rightarrow> (nat \<times> connect_options_allocator) res" where
  "random a = (case steps a of Rand r # rest \<Rightarrow> Inr (r, a\<lparr>steps := rest\<rparr>) | _ \<Rightarrow> Inl ScheduleEnd)"

definition load_availability :: "connect_options_allocator \<Rightarrow> (u32 \<times> connect_options_allocator) res" where
  "load_availability a = bindR (others_run a) (\<lambda>a'. Inr (availability a', a'))"

definition fetch_and_availability ::
    "u32 \<Rightarrow> connect_options_allocator \<Rightarrow> (u32 \<times> connect_options_allocator) res" where
  "fetch_and_availability m a =
     bindR (others_run a) (\<lambda>a'. Inr (availability a', a'\<lparr>availability := availability a' AND m\<rparr>))"

definition fetch_or_availability ::
    "u32 \<Rightarrow> connect_options_allocator \<Rightarrow> (u32 \<times> connect_options_allocator) res" where
  "fetch_or_availability m a =
     bindR (others_run a) (\<lambda>a'. Inr (availability a', a'\<lparr>availability := availability a' OR m\<rparr>))"

definition connect_options_allocator_finalize ::
    "connect_options_allocator \<Rightarrow> connect_options_allocator res" where
  "connect_options_allocator_finalize a =
     bindR (load_availability a) (\<lambda>(current_availability, a').
     if current_availability \<noteq> initial_availability_mask then Inl ExitError
     else bindR (others_run a') (\<lambda>a''. Inr (a''\<lparr>availability := 0\<rparr>)))"

text \<open>The inner waiting loop.\<close>

fun wait_available ::
    "nat \<Rightarrow> u32 \<Rightarrow> connect_options_allocator \<Rightarrow> (u32 \<times> connect_options_allocator) res" where
  "wait_available 0 avail a = Inl ScheduleEnd"
| "wait_available (Suc fuel) avail a =
     (if avail = 0 then bindR (load_availability a) (\<lambda>(avail', a'). wait_available fuel avail' a')
      else Inr (avail, a))"

text \<open>The loop that skips \<open>todo\<close> available options.  A shift by the whole width is undefined.\<close>

fun skip_available :: "nat \<Rightarrow> nat \<Rightarrow> u32 \<Rightarrow> nat res" where
  "skip_available 0 option_idx avail = Inr option_idx"
| "skip_available (Suc todo) option_idx avail =
     bindR (count_trailing_zeros (ucast avail)) (\<lambda>zeros.
     let extra_offset = zeros + 1 in
     if extra_offset < 32 then skip_available todo (option_idx + extra_offset) (drop_bit extra_offset avail)
     else Inl UndefinedBehaviour)"

text \<open>\<open>1 << option_idx\<close>, a shift of the \<open>int\<close> 1.\<close>

definition option_bit :: "nat \<Rightarrow> u32 res" where
  "option_bit idx = (if idx < 31 then Inr (push_bit idx 1) else Inl UndefinedBehaviour)"

fun allocate_loop ::
    "nat \<Rightarrow> u32 \<Rightarrow> connect_options_allocator \<Rightarrow> (nat \<times> connect_options_allocator) res" where
  "allocate_loop 0 avail a = Inl ScheduleEnd"
| "allocate_loop (Suc fuel) avail a =
     bindR (wait_available (Suc (length (steps a))) avail a) (\<lambda>(avail1, a1).
     let num_available = population_count (ucast avail1) in
     bindR (random a1) (\<lambda>(r, a2).
     bindR (skip_available (r mod num_available) 0 avail1) (\<lambda>option_idx.
     bindR (option_bit option_idx) (\<lambda>opt_bit.
     bindR (fetch_and_availability (NOT opt_bit) a2) (\<lambda>(avail2, a3).
     if avail2 AND opt_bit = 0 then allocate_loop fuel avail2 a3
     else Inr (option_idx, a3))))))"

text \<open>Every iteration consumes a step, so that the number of steps bounds the iterations.\<close>

definition connect_options_allocate ::
    "connect_options_allocator \<Rightarrow> (nat \<times> connect_options_allocator) res" where
  "connect_options_allocate a =
     bindR (load_availability a) (\<lambda>(avail, a'). allocate_loop (Suc (length (steps a'))) avail a')"

definition connect_options_liberate ::
    "nat \<Rightarrow> connect_options_allocator \<Rightarrow> connect_options_allocator res" where
  "connect_options_liberate options_idx a =
     bindR (option_bit options_idx) (\<lambda>opt_bit.
     bindR (fetch_or_availability opt_bit a) (\<lambda>(previous_availability, a').
     assert_that (previous_availability AND opt_bit = 0)
       (Inr (if previous_availability = 0 then a'\<lparr>wakeups := wakeups a' + 1\<rparr> else a'))))"

section \<open>The skipping loop\<close>

lemma bit_u32_less: "bit (m :: u32) i \<Longrightarrow> i < 32"
  using bit_imp_less_length [of m i] by simp

lemma finite_bits [simp]: "finite {i. bit (m :: u32) i}"
  by (rule finite_subset [of _ "{..<32}"]) (auto dest: bit_u32_less)

lemma bit_ucast_u32: "bit (ucast (m :: u32) :: word_t) i \<longleftrightarrow> bit m i"
  using bit_u32_less [of m i] by (auto simp: bit_ucast_iff)

lemma population_count_u32: "population_count (ucast (m :: u32)) = card {i. bit m i}"
  by (simp add: population_count_eq_card bit_ucast_u32)

lemma u32_nonzero_iff: "(m :: u32) \<noteq> 0 \<longleftrightarrow> (\<exists>i. bit m i)"
  by (metis bit_0_eq bit_word_eqI bot_apply bot_bool_def)

lemma count_trailing_zeros_u32:
  assumes "(m :: u32) \<noteq> 0"
  obtains z where "count_trailing_zeros (ucast m) = Inr z" "bit m z" "\<And>i. i < z \<Longrightarrow> \<not> bit m i"
proof -
  have "(ucast m :: word_t) \<noteq> 0"
    using assms u32_nonzero_iff [of m] bit_ucast_u32 [of m] by (metis bit_0_eq bot_apply bot_bool_def)
  then obtain z where "count_trailing_zeros (ucast m) = Inr z" "bit (ucast m :: word_t) z"
    "\<And>i. i < z \<Longrightarrow> \<not> bit (ucast m :: word_t) i" by (rule count_trailing_zeros_spec) blast
  then show thesis using that by (simp add: bit_ucast_u32)
qed

text \<open>Skipping \<open>k\<close> options stops right above the \<open>k\<close>-th set bit, and does not look for the next one.\<close>

lemma skip_available_exact:
  assumes "k < card {i. bit m i}"
  shows "\<exists>idx. skip_available k p m = Inr (p + idx) \<and> idx < 32 \<and> card {i. bit m i \<and> i < idx} = k \<and>
    (if k = 0 then idx = 0 else 0 < idx \<and> bit m (idx - 1))"
  using assms
proof (induction k arbitrary: p m)
  case (Suc k)
  have "m \<noteq> 0" using Suc.prems by auto
  then obtain z where z: "count_trailing_zeros (ucast m) = Inr z" "bit m z" "\<And>i. i < z \<Longrightarrow> \<not> bit m i"
    by (rule count_trailing_zeros_u32) blast
  let ?m = "drop_bit (Suc z) m"
  have shifted: "bit ?m i \<longleftrightarrow> bit m (Suc (z + i))" for i by (simp add: bit_drop_bit_eq)
  have split: "{i. bit m i} = insert z ((+) (Suc z) ` {i. bit ?m i})"
  proof (intro equalityI subsetI)
    fix i assume "i \<in> {i. bit m i}"
    then have "i = z \<or> z < i" using z(3) [of i] by (cases i z rule: linorder_cases) auto
    then show "i \<in> insert z ((+) (Suc z) ` {i. bit ?m i})"
    proof
      assume "z < i"
      then obtain j where "i = Suc (z + j)" using less_imp_Suc_add by blast
      with \<open>i \<in> {i. bit m i}\<close> shifted [of j] show ?thesis by (auto simp: image_iff)
    qed simp
  qed (use z(2) in \<open>auto simp: shifted\<close>)
  have image: "card (insert z ((+) (Suc z) ` S)) = Suc (card S)" if "finite S" for S
    using that by (subst card_insert_disjoint) (auto simp: card_image inj_on_def)
  have "card {i. bit m i} = Suc (card {i. bit ?m i})" unfolding split by (intro image finite_bits)
  then have k: "k < card {i. bit ?m i}" using Suc.prems by simp
  then obtain j where "bit ?m j" by (metis (mono_tags) card.empty empty_Collect_eq not_less_zero)
  then have small: "Suc z < 32" using bit_u32_less [of m "Suc (z + j)"] by (simp add: shifted)
  obtain idx where idx: "skip_available k (p + (Suc z)) ?m = Inr (p + (Suc z) + idx)"
    "card {i. bit ?m i \<and> i < idx} = k" "if k = 0 then idx = 0 else 0 < idx \<and> bit ?m (idx - 1)"
    using Suc.IH [OF k, of "p + (Suc z)"] by blast
  let ?idx = "Suc (z + idx)"
  have "{i. bit m i \<and> i < ?idx} = {i. bit m i} \<inter> {..<?idx}" by auto
  also have "\<dots> = insert z ((+) (Suc z) ` {i. bit ?m i \<and> i < idx})" unfolding split by auto
  finally have "{i. bit m i \<and> i < ?idx} = insert z ((+) (Suc z) ` {i. bit ?m i \<and> i < idx})" .
  then have "card {i. bit m i \<and> i < ?idx} = Suc k" using idx(2) image by simp
  moreover have "0 < ?idx \<and> bit m (?idx - 1)"
    using idx(3) z(2) by (cases "k = 0") (auto simp: shifted)
  moreover have "?idx < 32"
  proof (cases "k = 0")
    case False
    have "\<exists>i. bit ?m i \<and> idx \<le> i"
    proof (rule ccontr)
      assume "\<not> (\<exists>i. bit ?m i \<and> idx \<le> i)"
      then have "{i. bit ?m i \<and> i < idx} = {i. bit ?m i}" by (auto simp: not_le)
      with idx(2) k show False by simp
    qed
    then show ?thesis using bit_u32_less [of m "Suc (z + i)" for i] by (force simp: shifted)
  qed (use idx(3) small in simp)
  ultimately show ?case using z(1) idx(1) small by (simp add: Let_def)
qed simp

section \<open>The one change of an allocation\<close>

text \<open>What other threads make of a mask over a sequence of steps.\<close>

fun by_others :: "connect_step list \<Rightarrow> u32 \<Rightarrow> u32" where
  "by_others [] m = m"
| "by_others (Others set_bits cleared # ss) m = by_others ss ((m OR set_bits) AND NOT cleared)"
| "by_others (Rand r # ss) m = by_others ss m"

lemma by_others_append: "by_others (ss @ ts) m = by_others ts (by_others ss m)"
  by (induction ss m rule: by_others.induct) auto

text \<open>From \<open>a\<close> to \<open>a'\<close>, this thread has consumed steps and left the mask to the others.\<close>

definition only_others :: "connect_options_allocator \<Rightarrow> connect_options_allocator \<Rightarrow> bool" where
  "only_others a a' \<longleftrightarrow> (\<exists>used. steps a = used @ steps a' \<and> availability a' = by_others used (availability a)) \<and>
     wakeups a' = wakeups a"

lemma only_others_refl [simp]: "only_others a a"
  by (auto simp: only_others_def)

lemma only_others_trans: "only_others a b \<Longrightarrow> only_others b c \<Longrightarrow> only_others a c"
  unfolding only_others_def by (metis append_assoc by_others_append)

lemma others_run_only:
  "others_run a = Inr a' \<Longrightarrow> only_others a a'"
  unfolding others_run_def only_others_def
  by (auto split: list.splits connect_step.splits intro!: exI [of _ "[hd (steps a)]"])

lemma load_only: "load_availability a = Inr (m, a') \<Longrightarrow> only_others a a' \<and> m = availability a'"
  by (auto simp: load_availability_def res_simps dest: others_run_only)

lemma random_only: "random a = Inr (r, a') \<Longrightarrow> only_others a a'"
  unfolding random_def only_others_def
  by (auto split: list.splits connect_step.splits intro!: exI [of _ "[hd (steps a)]"])

lemma wait_only: "wait_available fuel m a = Inr (m', a') \<Longrightarrow> only_others a a'"
proof (induction fuel arbitrary: m a)
  case (Suc fuel)
  show ?case
  proof (cases "m = 0")
    case True
    then obtain b where "load_availability a = Inr (availability b, b)" "only_others a b"
      "wait_available fuel (availability b) b = Inr (m', a')"
      using Suc.prems by (auto simp: res_simps dest: load_only)
    then show ?thesis using Suc.IH only_others_trans by blast
  qed (use Suc.prems in simp)
qed simp

lemma and_not_absorb: "(w :: u32) AND b = 0 \<Longrightarrow> w AND NOT b = w"
proof (rule bit_word_eqI)
  fix n assume "w AND b = 0" "n < LENGTH(32)"
  then have "\<not> bit (w AND b) n" by simp
  then show "bit (w AND NOT b) n = bit w n" using \<open>n < LENGTH(32)\<close> by (auto simp: bit_simps)
qed

lemma and_option_bit: "idx < 32 \<Longrightarrow> (w :: u32) AND push_bit idx 1 = 0 \<longleftrightarrow> \<not> bit w idx"
proof
  assume "idx < 32" "w AND push_bit idx 1 = 0"
  then have "\<not> bit (w AND push_bit idx 1) idx" by simp
  then show "\<not> bit w idx" using \<open>idx < 32\<close> by (simp add: bit_simps)
next
  assume "idx < 32" "\<not> bit w idx"
  then show "w AND push_bit idx 1 = 0" by (intro bit_word_eqI) (auto simp: bit_simps)
qed

lemma allocate_loop_sound:
  assumes "allocate_loop fuel m a = Inr (i, a')"
  shows "\<exists>b. only_others a b \<and> i < 31 \<and> bit (availability b) i \<and>
    a' = b\<lparr>availability := availability b AND NOT (push_bit i 1)\<rparr>"
  using assms
proof (induction fuel arbitrary: m a)
  case (Suc fuel)
  from Suc.prems obtain avail1 a1 r a2 opt_bit avail2 a3 idx where
    steps: "wait_available (Suc (length (steps a))) m a = Inr (avail1, a1)" "random a1 = Inr (r, a2)"
    "option_bit idx = Inr opt_bit" "fetch_and_availability (NOT opt_bit) a2 = Inr (avail2, a3)"
    and loop: "(if avail2 AND opt_bit = 0 then allocate_loop fuel avail2 a3 else Inr (idx, a3)) = Inr (i, a')"
    and skip: "skip_available (r mod population_count (ucast avail1)) 0 avail1 = Inr idx"
    by (auto simp: res_simps Let_def split: prod.splits)
  obtain b where b: "others_run a2 = Inr b" "avail2 = availability b"
    "a3 = b\<lparr>availability := availability b AND NOT opt_bit\<rparr>"
    using steps(4) by (auto simp: fetch_and_availability_def res_simps)
  have only: "only_others a b"
    using wait_only [OF steps(1)] random_only [OF steps(2)] others_run_only [OF b(1)] only_others_trans by blast
  have idx: "idx < 31" "opt_bit = push_bit idx 1" using steps(3) by (auto simp: option_bit_def split: if_splits)
  show ?case
  proof (cases "avail2 AND opt_bit = 0")
    case True
    then have "a3 = b" using b by (simp add: and_not_absorb)
    with True loop have "allocate_loop fuel avail2 b = Inr (i, a')" by simp
    then show ?thesis using Suc.IH only only_others_trans by blast
  next
    case False
    with loop b only idx and_option_bit [of idx "availability b"] show ?thesis by auto
  qed
qed simp

section \<open>Masks on which an allocation makes no progress\<close>

definition sparse :: "u32 \<Rightarrow> bool" where
  "sparse m \<longleftrightarrow> \<not> bit m 0 \<and> (\<forall>i. bit m i \<longrightarrow> \<not> bit m (Suc i))"

text \<open>The other threads do nothing.\<close>

definition idle :: "connect_step list \<Rightarrow> bool" where
  "idle ss \<longleftrightarrow> (\<forall>s\<in>set ss. case s of Others x y \<Rightarrow> x = 0 \<and> y = 0 | Rand _ \<Rightarrow> True)"

lemma idle_others_run:
  assumes "idle (steps a)" "others_run a = Inr a'"
  shows "availability a' = availability a \<and> idle (steps a')"
  using assms by (auto simp: others_run_def idle_def split: list.splits connect_step.splits)

lemma idle_random:
  assumes "idle (steps a)" "random a = Inr (r, a')"
  shows "availability a' = availability a \<and> idle (steps a')"
  using assms by (auto simp: random_def idle_def split: list.splits connect_step.splits)

lemma others_run_stop: "others_run a = Inl e \<Longrightarrow> e = ScheduleEnd"
  by (auto simp: others_run_def split: list.splits connect_step.splits)

lemma random_stop: "random a = Inl e \<Longrightarrow> e = ScheduleEnd"
  by (auto simp: random_def split: list.splits connect_step.splits)

lemma skip_sparse:
  assumes "sparse m" "k < card {i. bit m i}"
  shows "\<exists>idx. skip_available k 0 m = Inr idx \<and> idx < 31 \<and> \<not> bit m idx"
proof -
  obtain idx where idx: "skip_available k 0 m = Inr idx" "idx < 32" "card {i. bit m i \<and> i < idx} = k"
    "if k = 0 then idx = 0 else 0 < idx \<and> bit m (idx - 1)"
    using skip_available_exact [OF assms(2), of 0] by auto
  have clear: "\<not> bit m idx" using idx(4) assms(1) by (cases idx) (auto simp: sparse_def split: if_splits)
  have "\<exists>i. bit m i \<and> idx \<le> i"
  proof (rule ccontr)
    assume "\<not> (\<exists>i. bit m i \<and> idx \<le> i)"
    then have "{i. bit m i \<and> i < idx} = {i. bit m i}" by (auto simp: not_le)
    with idx(3) assms(2) show False by simp
  qed
  then obtain i where "bit m i" "idx < i" using clear by (metis le_neq_implies_less)
  then have "idx < 31" using bit_u32_less [of m i] by simp
  with idx(1) clear show ?thesis by blast
qed

lemma sparse_loop:
  assumes "sparse m" "m \<noteq> 0" "availability a = m" "idle (steps a)"
  shows "allocate_loop fuel m a = Inl ScheduleEnd"
  using assms(3,4)
proof (induction fuel arbitrary: a)
  case (Suc fuel)
  have wait: "wait_available (Suc (length (steps a))) m a = Inr (m, a)" using assms(2) by simp
  show ?case
  proof (cases "random a")
    case (Inl e)
    then show ?thesis using wait random_stop [OF Inl] by simp
  next
    case (Inr ra)
    obtain r a2 where ra: "random a = Inr (r, a2)" using Inr by (cases ra) auto
    have a2: "availability a2 = m" "idle (steps a2)" using idle_random [OF Suc.prems(2) ra] Suc.prems(1) by auto
    have "0 < card {i. bit m i}" using assms(2) u32_nonzero_iff [of m] by (auto simp: card_gt_0_iff)
    then obtain idx where idx: "skip_available (r mod card {i. bit m i}) 0 m = Inr idx" "idx < 31" "\<not> bit m idx"
      using skip_sparse [OF assms(1), of "r mod card {i. bit m i}"] by auto
    show ?thesis
    proof (cases "others_run a2")
      case (Inl e)
      then show ?thesis using wait ra idx others_run_stop [OF Inl]
        by (simp add: population_count_u32 option_bit_def fetch_and_availability_def)
    next
      case (Inr b)
      have b: "availability b = m" "idle (steps b)" using idle_others_run [OF a2(2) Inr] a2(1) by auto
      have "m AND push_bit idx 1 = 0" using and_option_bit [of idx m] idx by simp
      then have "b\<lparr>availability := availability b AND NOT (push_bit idx 1)\<rparr> = b" "m AND push_bit idx 1 = 0"
        using b(1) by (simp_all add: and_not_absorb)
      then show ?thesis using wait ra idx Inr b Suc.IH [OF b]
        by (simp add: population_count_u32 option_bit_def fetch_and_availability_def)
    qed
  qed
qed simp

section \<open>Properties\<close>

text \<open>C13. Whatever the other threads do to the mask, an allocation that returns has changed it exactly
  once: it has cleared the bit of the options it returns, and this bit was set.\<close>

theorem connect_allocation_atomic:
  assumes "connect_options_allocate a = Inr (i, a')"
  shows "\<exists>used. steps a = used @ steps a' \<and> i < NUM_CONNECT_OPTIONS \<and> wakeups a' = wakeups a \<and>
    bit (by_others used (availability a)) i \<and>
    availability a' = by_others used (availability a) AND NOT (push_bit i 1)"
proof -
  obtain m b where b: "load_availability a = Inr (m, b)" "allocate_loop (Suc (length (steps b))) m b = Inr (i, a')"
    using assms by (auto simp: connect_options_allocate_def res_simps)
  obtain c where c: "only_others b c" "i < 31" "bit (availability c) i"
    "a' = c\<lparr>availability := availability c AND NOT (push_bit i 1)\<rparr>"
    using allocate_loop_sound [OF b(2)] by blast
  have "only_others a c" using load_only [OF b(1)] c(1) only_others_trans by blast
  with c show ?thesis by (auto simp: only_others_def NUM_CONNECT_OPTIONS_def)
qed

definition connect_example :: connect_options_allocator where
  "connect_example = \<lparr>availability = 7, steps = [Others 0 0, Rand 2, Others 8 0], wakeups = 0\<rparr>"

lemma connect_example_run:
  "connect_options_allocate connect_example = Inr (2, \<lparr>availability = 11, steps = [], wakeups = 0\<rparr>)"
  by code_simp

theorem connect_allocation_atomic_witness:
  "\<exists>used. steps connect_example = used \<and> bit (by_others used 7) 2 \<and>
     (11 :: u32) = by_others used 7 AND NOT (push_bit 2 1)"
  using connect_allocation_atomic [OF connect_example_run] by (simp add: connect_example_def)

text \<open>C36. An allocation makes no progress while no two neighbouring options and not the first ones are
  available, for instance when only one set of options other than the first is left: it chooses an option
  that is in use again and again, however long it runs and whatever numbers it draws.\<close>

theorem connect_allocation_livelock:
  assumes "sparse (availability a)" "availability a \<noteq> 0" "idle (steps a)"
  shows "connect_options_allocate a = Inl ScheduleEnd"
proof (cases "others_run a")
  case (Inl e)
  then show ?thesis
    using others_run_stop [OF Inl] by (simp add: connect_options_allocate_def load_availability_def)
next
  case (Inr b)
  then have "availability b = availability a" "idle (steps b)" using idle_others_run [OF assms(3)] by auto
  then show ?thesis using sparse_loop [of "availability a" b] assms Inr
    by (simp add: connect_options_allocate_def load_availability_def del: allocate_loop.simps)
qed

theorem connect_allocation_livelock_witness:
  "connect_options_allocate \<lparr>availability = 2, steps = [Others 0 0, Rand 5, Others 0 0, Rand 8, Others 0 0], wakeups = 0\<rparr>
     = Inl ScheduleEnd"
proof (rule connect_allocation_livelock)
  have "bit (2 :: u32) i \<longleftrightarrow> i = 1" for i using bit_exp_word_iff [where 'a = 32, of 1 i] by auto
  then show "sparse (availability \<lparr>availability = 2, steps = [Others 0 0, Rand 5, Others 0 0, Rand 8, Others 0 0],
      wakeups = 0\<rparr>)" by (simp add: sparse_def)
qed (simp_all add: idle_def)

text \<open>While exactly the first \<open>n\<close> options are available and no other thread interferes, an allocation
  succeeds at the first attempt with the option drawn, and giving the options back restores the mask; giving
  them back twice fails the assertion.\<close>

theorem connect_allocation_roundtrip:
  assumes "\<And>i. bit (availability a) i \<longleftrightarrow> i < n" "0 < n" "n < NUM_CONNECT_OPTIONS"
    and "steps a = Others 0 0 # Rand r # Others 0 0 # Others 0 0 # rest"
  shows "\<exists>a' a''. connect_options_allocate a = Inr (r mod n, a') \<and>
    connect_options_liberate (r mod n) a' = Inr a'' \<and> availability a'' = availability a \<and> steps a'' = rest \<and>
    connect_options_liberate (r mod n) (a''\<lparr>steps := [Others 0 0]\<rparr>) = Inl AssertFailed"
proof -
  let ?m = "availability a" and ?k = "r mod n"
  have bits: "{i. bit ?m i} = {..<n}" unfolding assms(1) by auto
  have "?k < n" using assms(2) by simp
  then have k: "?k < n" "?k < 31" using assms(3) unfolding NUM_CONNECT_OPTIONS_def by linarith+
  obtain idx where idx: "skip_available ?k 0 ?m = Inr idx" "card {i. bit ?m i \<and> i < idx} = ?k"
    using skip_available_exact [of ?k ?m 0] k bits by auto
  have "bit ?m i \<and> i < idx \<longleftrightarrow> i < min idx n" for i unfolding assms(1) by auto
  then have "{i. bit ?m i \<and> i < idx} = {..<min idx n}" by blast
  then have skip: "skip_available ?k 0 ?m = Inr ?k" using idx k(1) by auto
  have set: "bit ?m ?k" using assms(1) k(1) by simp
  have avail: "?m \<noteq> 0" "?m AND push_bit ?k 1 \<noteq> 0"
    using set u32_nonzero_iff [of ?m] and_option_bit [of ?k ?m] k by auto
  let ?a' = "a\<lparr>availability := ?m AND NOT (push_bit ?k 1), steps := Others 0 0 # rest\<rparr>"
  have alloc: "connect_options_allocate a = Inr (?k, ?a')"
    using assms(4) avail skip k(2) bits
    by (simp add: connect_options_allocate_def load_availability_def others_run_def random_def
        fetch_and_availability_def option_bit_def population_count_u32)
  have clear: "(?m AND NOT (push_bit ?k 1)) AND push_bit ?k 1 = 0"
    using and_option_bit [of ?k "?m AND NOT (push_bit ?k 1)"] k by (simp add: bit_simps)
  have restore: "(?m AND NOT (push_bit ?k 1)) OR push_bit ?k 1 = ?m"
  proof (rule bit_word_eqI)
    fix i assume "i < LENGTH(32)"
    then show "bit ((?m AND NOT (push_bit ?k 1)) OR push_bit ?k 1) i = bit ?m i"
      using set by (auto simp: bit_simps)
  qed
  have "\<exists>a''. connect_options_liberate ?k ?a' = Inr a'' \<and> availability a'' = ?m \<and> steps a'' = rest"
    using clear restore k(2)
    by (cases "?m AND NOT (push_bit ?k 1) = 0")
      (simp_all add: connect_options_liberate_def option_bit_def fetch_or_availability_def others_run_def)
  then obtain a'' where "connect_options_liberate ?k ?a' = Inr a''" "availability a'' = ?m" "steps a'' = rest"
    by blast
  moreover have "connect_options_liberate ?k (a''\<lparr>steps := [Others 0 0]\<rparr>) = Inl AssertFailed"
    using \<open>availability a'' = ?m\<close> avail k(2)
    by (simp add: connect_options_liberate_def option_bit_def fetch_or_availability_def others_run_def)
  ultimately show ?thesis using alloc by blast
qed

theorem connect_allocation_roundtrip_witness:
  "\<exists>a' a''. connect_options_allocate \<lparr>availability = 3, steps = [Others 0 0, Rand 7, Others 0 0, Others 0 0],
       wakeups = 0\<rparr> = Inr (1, a') \<and>
     connect_options_liberate 1 a' = Inr a'' \<and> availability a'' = 3"
proof -
  have "bit (mask 2 :: u32) i \<longleftrightarrow> i < 2" for i unfolding bit_mask_iff by auto
  moreover have "mask 2 = (3 :: u32)" by (simp add: mask_eq_exp_minus_1)
  ultimately have "bit (3 :: u32) i \<longleftrightarrow> i < 2" for i by simp
  with connect_allocation_roundtrip [of "\<lparr>availability = 3, steps = [Others 0 0, Rand 7, Others 0 0, Others 0 0],
      wakeups = 0\<rparr>" 2 7 "[]"] show ?thesis by (auto simp: NUM_CONNECT_OPTIONS_def)
qed

end
