(* ===== verification/Buffers.thy ===== *)
theory Buffers
  imports BitArray Memory
begin

text \<open>
  Model of src/buffer.h and src/buffer.c, the pool of page-aligned buffers for datagrams that each worker
  thread has: the configuration of the pool, its creation and destruction, and the allocation and
  liberation of buffers by means of a bit array of available buffers.

  What the code learns from hwloc is the record \<open>topology\<close>: the CPUs the thread may run on, and for
  each cache level and CPU the capacity of the cache and the number of cores that share it, if the CPU and
  its cache are found.  A pointer is an address; the bytes of the memory are a function of the address.
\<close>

section \<open>Definitions\<close>

definition UDIPE_MAX_BUFFERS :: nat where
  "UDIPE_MAX_BUFFERS = 64"

datatype cache_level = L1CACHE | L2CACHE

record topology =
  binding_ok :: bool                      \<comment> \<open>the CPU binding of the thread can be queried\<close>
  thread_cpus :: "nat list"
  cache_of_cpu :: "cache_level \<Rightarrow> nat \<Rightarrow> (nat \<times> nat) option"   \<comment> \<open>capacity, cores\<close>

record udipe_buffer_config =
  buffer_size :: nat
  buffer_count :: nat

text \<open>The context pointer is 0 for \<open>NULL\<close>.\<close>

record udipe_buffer_configurator =
  callback :: "(nat \<Rightarrow> udipe_buffer_config) option"
  callback_context :: nat

record buffer_allocator =
  memory_pool :: "nat option"
  config :: udipe_buffer_config
  buffer_availability :: "word_t list"

type_synonym bytes = "nat \<Rightarrow> u8"

definition memset_zero :: "nat \<Rightarrow> nat \<Rightarrow> bytes \<Rightarrow> bytes" where
  "memset_zero start n mem = (\<lambda>addr. if start \<le> addr \<and> addr < start + n then 0 else mem addr)"

fun smallest_capacity_loop :: "topology \<Rightarrow> cache_level \<Rightarrow> nat list \<Rightarrow> nat \<Rightarrow> nat res" where
  "smallest_capacity_loop topo level [] min_size = Inr min_size"
| "smallest_capacity_loop topo level (cpu # cpus) min_size =
     (case cache_of_cpu topo level cpu of
        None \<Rightarrow> Inl ExitError
      | Some (capacity, weight) \<Rightarrow>
          assert_that (capacity < SIZE_MAX)
          (assert_that (weight \<ge> 1)
          (let cache_size = capacity div weight in
           smallest_capacity_loop topo level cpus (if cache_size < min_size then cache_size else min_size))))"

definition smallest_cache_capacity :: "topology \<Rightarrow> cache_level \<Rightarrow> nat res" where
  "smallest_cache_capacity topo level =
     bindR (smallest_capacity_loop topo level (thread_cpus topo) SIZE_MAX) (\<lambda>min_size.
     assert_that (min_size < SIZE_MAX) (Inr (size_wrap (8 * min_size) div 10)))"

definition round_to_pages :: "nat \<Rightarrow> nat \<Rightarrow> nat" where
  "round_to_pages psize bytes =
     (let page_remainder = bytes mod psize in
      if page_remainder \<noteq> 0 then size_wrap (bytes + (psize - page_remainder)) else bytes)"

text \<open>The number of buffers, automatic or requested.\<close>

definition finish_buffer_count :: "topology \<Rightarrow> nat \<Rightarrow> nat \<Rightarrow> nat res" where
  "finish_buffer_count topo bsize requested =
     (if requested = 0 then
        bindR (smallest_cache_capacity topo L2CACHE) (\<lambda>pool_size.
        if bsize = 0 then Inl UndefinedBehaviour
        else
          let n = pool_size div bsize + (if pool_size mod bsize \<noteq> 0 then 1 else 0) in
          Inr (if n \<le> UDIPE_MAX_BUFFERS then n else UDIPE_MAX_BUFFERS))
      else if requested > UDIPE_MAX_BUFFERS then Inl ExitError
      else Inr requested)"

definition finish_configuration ::
    "nat \<Rightarrow> topology \<Rightarrow> udipe_buffer_config \<Rightarrow> udipe_buffer_config res" where
  "finish_configuration psize topo cfg =
     (if (buffer_size cfg = 0 \<or> buffer_count cfg = 0) \<and> \<not> binding_ok topo then Inl ExitError
      else
        bindR (if buffer_size cfg = 0 then smallest_cache_capacity topo L1CACHE else Inr (buffer_size cfg))
          (\<lambda>bsize0.
        let bsize = round_to_pages psize bsize0 in
        bindR (finish_buffer_count topo bsize (buffer_count cfg)) (\<lambda>n.
        Inr \<lparr>buffer_size = bsize, buffer_count = n\<rparr>)))"

text \<open>The bit array of a new allocator: the first \<open>count\<close> buffers are available.\<close>

definition initial_buffer_availability :: "nat \<Rightarrow> word_t list res" where
  "initial_buffer_availability n =
     bindR (index_to_bit_pos n) (\<lambda>buffers_end.
     bindR (bit_array_range_set (replicate (BIT_ARRAY_WORDS UDIPE_MAX_BUFFERS) 0) UDIPE_MAX_BUFFERS
              BIT_ARRAY_START buffers_end True) (\<lambda>bits.
     bindR (bit_array_end UDIPE_MAX_BUFFERS) (\<lambda>array_end.
     bit_array_range_set bits UDIPE_MAX_BUFFERS buffers_end array_end False)))"

definition requested_config :: "udipe_buffer_configurator \<Rightarrow> udipe_buffer_config res" where
  "requested_config configurator =
     (case callback configurator of
        Some f \<Rightarrow> Inr (f (callback_context configurator))
      | None \<Rightarrow> if callback_context configurator \<noteq> 0 then Inl ExitError
                else Inr \<lparr>buffer_size = 0, buffer_count = 0\<rparr>)"

definition buffer_allocator_initialize ::
    "udipe_buffer_configurator \<Rightarrow> topology \<Rightarrow> bytes \<Rightarrow> (buffer_allocator \<times> bytes) comp" where
  "buffer_allocator_initialize configurator topo mem =
     bindM (liftR (requested_config configurator)) (\<lambda>requested.
     bindM get_page_size (\<lambda>psize.
     bindM (liftR (finish_configuration (unat psize) topo requested)) (\<lambda>cfg.
     let pool_size = size_wrap (buffer_size cfg * buffer_count cfg) in
     bindM (realtime_allocate (of_nat pool_size)) (\<lambda>pool.
     if pool = 0 then stopM ExitError
     else
       bindM (liftR (initial_buffer_availability (buffer_count cfg))) (\<lambda>bits.
       retM (\<lparr>memory_pool = Some pool, config = cfg, buffer_availability = bits\<rparr>,
             memset_zero pool pool_size mem))))))"

definition buffer_allocator_finalize :: "buffer_allocator \<Rightarrow> buffer_allocator comp" where
  "buffer_allocator_finalize a =
     bindM (liftR (index_to_bit_pos (buffer_count (config a)))) (\<lambda>buffers_end.
     bindM (liftR (bit_array_range_alleq (buffer_availability a) UDIPE_MAX_BUFFERS BIT_ARRAY_START
                     buffers_end True)) (\<lambda>all_liberated.
     if \<not> all_liberated then stopM ExitError
     else
       seqM (realtime_liberate (case memory_pool a of Some p \<Rightarrow> p | None \<Rightarrow> 0)
               (of_nat (size_wrap (buffer_size (config a) * buffer_count (config a))))) (
       bindM (liftR (bit_array_range_set (buffer_availability a) UDIPE_MAX_BUFFERS BIT_ARRAY_START
                       buffers_end False)) (\<lambda>bits.
       retM \<lparr>memory_pool = None, config = \<lparr>buffer_size = 0, buffer_count = 0\<rparr>,
             buffer_availability = bits\<rparr>))))"

definition buffer_liberate ::
    "nat \<Rightarrow> buffer_allocator \<times> bytes \<Rightarrow> (buffer_allocator \<times> bytes) res" where
  "buffer_liberate buffer = (\<lambda>(a, mem).
     case memory_pool a of
       None \<Rightarrow> Inl AssertFailed
     | Some pool \<Rightarrow>
         assert_that (buffer \<ge> pool)
         (let buffer_offset = buffer - pool in
          assert_that (buffer_size (config a) > 0)
          (assert_that (buffer_offset mod buffer_size (config a) = 0)
          (let buffer_idx = buffer_offset div buffer_size (config a) in
           assert_that (buffer_count (config a) > 0)
           (assert_that (buffer_idx < buffer_count (config a))
           (bindR (index_to_bit_pos buffer_idx) (\<lambda>buffer_bit.
            bindR (bit_array_get (buffer_availability a) UDIPE_MAX_BUFFERS buffer_bit) (\<lambda>available.
            assert_that (\<not> available)
            (bindR (bit_array_set (buffer_availability a) UDIPE_MAX_BUFFERS buffer_bit True) (\<lambda>bits.
             Inr (a\<lparr>buffer_availability := bits\<rparr>, memset_zero buffer (buffer_size (config a)) mem)))))))))))"

text \<open>The address of a buffer, or \<open>None\<close> for \<open>NULL\<close>.\<close>

definition buffer_allocate :: "buffer_allocator \<Rightarrow> (nat option \<times> buffer_allocator) res" where
  "buffer_allocate a =
     assert_that (buffer_count (config a) > 0)
     (bindR (bit_array_find_first (buffer_availability a) UDIPE_MAX_BUFFERS True) (\<lambda>buffer_bit.
      if bp_word buffer_bit = SIZE_MAX then Inr (None, a)
      else
        bindR (bit_array_set (buffer_availability a) UDIPE_MAX_BUFFERS buffer_bit False) (\<lambda>bits.
        bindR (bit_pos_to_index buffer_bit) (\<lambda>buffer_idx.
        let buffer_offset = size_wrap (buffer_idx * buffer_size (config a)) in
        case memory_pool a of
          None \<Rightarrow> Inl AssertFailed
        | Some pool \<Rightarrow> Inr (Some (pool + buffer_offset), a\<lparr>buffer_availability := bits\<rparr>)))))"

section \<open>The configuration\<close>

lemma round_to_pages_exact:
  assumes "0 < psize" "bytes + psize \<le> 2 ^ 64"
  shows "round_to_pages psize bytes mod psize = 0" "bytes \<le> round_to_pages psize bytes"
    "round_to_pages psize bytes < bytes + psize"
proof -
  let ?r = "bytes mod psize"
  have r: "?r < psize" using assms(1) by simp
  have up: "round_to_pages psize bytes = (if ?r = 0 then bytes else bytes + (psize - ?r))"
    using assms r by (simp add: round_to_pages_def Let_def)
  have "(bytes + (psize - ?r)) mod psize = (?r + (psize - ?r)) mod psize" by (simp add: mod_add_left_eq)
  also have "\<dots> = 0" using r by simp
  finally show "round_to_pages psize bytes mod psize = 0" by (simp add: up)
  show "bytes \<le> round_to_pages psize bytes" unfolding up by (cases "?r = 0") auto
  show "round_to_pages psize bytes < bytes + psize" using assms(1) unfolding up by (cases "?r = 0") auto
qed

lemma smallest_capacity_loop_le:
  "smallest_capacity_loop topo level cpus m = Inr r \<Longrightarrow> r \<le> m"
  by (induction cpus arbitrary: m)
    (fastforce simp: Let_def res_simps split: option.splits prod.splits if_splits)+

lemma smallest_cache_capacity_small:
  assumes "smallest_cache_capacity topo level = Inr c" shows "10 * c < 2 ^ 64"
proof -
  obtain m where "c = size_wrap (8 * m) div 10" using assms by (auto simp: smallest_cache_capacity_def res_simps)
  moreover have "size_wrap (8 * m) < 2 ^ 64" by (simp add: size_wrap_def)
  ultimately show ?thesis using div_times_less_eq_dividend [of "size_wrap (8 * m)" 10] by simp
qed

section \<open>The buffers of a pool\<close>

text \<open>\<open>pool_ok a H\<close>: the allocator \<open>a\<close> is in use, and \<open>H\<close> are the addresses of the buffers it has handed
  out.\<close>

definition buffer_addr :: "buffer_allocator \<Rightarrow> nat \<Rightarrow> nat" where
  "buffer_addr a i = the (memory_pool a) + i * buffer_size (config a)"

definition all_buffers :: "buffer_allocator \<Rightarrow> nat set" where
  "all_buffers a = buffer_addr a ` {..<buffer_count (config a)}"

definition pool_ok :: "buffer_allocator \<Rightarrow> nat set \<Rightarrow> bool" where
  "pool_ok a H \<longleftrightarrow> memory_pool a \<noteq> None \<and> 0 < buffer_size (config a) \<and>
     0 < buffer_count (config a) \<and> buffer_count (config a) \<le> UDIPE_MAX_BUFFERS \<and>
     buffer_size (config a) * buffer_count (config a) < 2 ^ 64 \<and>
     length (buffer_availability a) = BIT_ARRAY_WORDS UDIPE_MAX_BUFFERS \<and> H \<subseteq> all_buffers a \<and>
     (\<forall>i<UDIPE_MAX_BUFFERS. nth_bit (buffer_availability a) i \<longleftrightarrow>
        i < buffer_count (config a) \<and> buffer_addr a i \<notin> H)"

lemma valid_availability: "pool_ok a H \<Longrightarrow> valid_array (buffer_availability a) UDIPE_MAX_BUFFERS"
  by (simp add: pool_ok_def valid_array_def UDIPE_MAX_BUFFERS_def SIZE_MAX_def)

lemma buffer_addr_inj: "pool_ok a H \<Longrightarrow> buffer_addr a i = buffer_addr a j \<longleftrightarrow> i = j"
  by (auto simp: pool_ok_def buffer_addr_def)

lemma index_pos:
  assumes "i \<le> UDIPE_MAX_BUFFERS"
  shows "index_to_bit_pos i = Inr \<lparr>bp_word = i div 64, bp_offset = i mod 64\<rparr>"
    "pos_index \<lparr>bp_word = i div 64, bp_offset = i mod 64\<rparr> = i"
    "i < UDIPE_MAX_BUFFERS \<Longrightarrow> valid_pos UDIPE_MAX_BUFFERS \<lparr>bp_word = i div 64, bp_offset = i mod 64\<rparr>"
  using assms by (simp_all add: index_to_bit_pos_def UDIPE_MAX_BUFFERS_def SIZE_MAX_def BITS_PER_WORD_def
      pos_index_def valid_pos_def)

lemma initial_availability_exact:
  assumes "n \<le> UDIPE_MAX_BUFFERS"
  shows "\<exists>bits. initial_buffer_availability n = Inr bits \<and> length bits = BIT_ARRAY_WORDS UDIPE_MAX_BUFFERS \<and>
    (\<forall>i<UDIPE_MAX_BUFFERS. nth_bit bits i \<longleftrightarrow> i < n)"
proof -
  let ?N = UDIPE_MAX_BUFFERS
  let ?zero = "replicate (BIT_ARRAY_WORDS ?N) (0 :: word_t)" and ?e = "\<lparr>bp_word = n div 64, bp_offset = n mod 64\<rparr>"
  let ?stop = "\<lparr>bp_word = ?N div 64, bp_offset = ?N mod 64\<rparr>"
  note e = index_pos [OF assms] and stop = index_pos [of ?N, OF order_refl]
  have start: "valid_pos ?N BIT_ARRAY_START" "pos_index BIT_ARRAY_START = 0"
    by (simp_all add: valid_pos_def pos_index_def BIT_ARRAY_START_def UDIPE_MAX_BUFFERS_def)
  have valid: "valid_array xs ?N" if "length xs = BIT_ARRAY_WORDS ?N" for xs
    using that by (simp add: valid_array_def UDIPE_MAX_BUFFERS_def SIZE_MAX_def)
  obtain b1 where b1: "bit_array_range_set ?zero ?N BIT_ARRAY_START ?e True = Inr b1"
    "length b1 = BIT_ARRAY_WORDS ?N" "\<forall>i. nth_bit b1 i = (if i < n then True else nth_bit ?zero i)"
    using bit_array_range_set_correct [of ?zero ?N BIT_ARRAY_START ?e True] valid [of ?zero] start e(2) assms by auto
  have "valid_pos ?N ?e \<or> ?e = ?stop" using e(3) assms by (cases "n = ?N") auto
  then obtain b2 where b2: "bit_array_range_set b1 ?N ?e ?stop False = Inr b2"
    "length b2 = BIT_ARRAY_WORDS ?N" "\<forall>i. nth_bit b2 i = (if n \<le> i \<and> i < ?N then False else nth_bit b1 i)"
    using bit_array_range_set_correct [of b1 ?N ?e ?stop False] valid [OF b1(2)] b1(2) e(2) stop(2) by auto
  have "initial_buffer_availability n = Inr b2"
    using e(1) stop(1) b1(1) b2(1)
    by (simp add: initial_buffer_availability_def bit_array_end_def UDIPE_MAX_BUFFERS_def SIZE_MAX_def)
  then show ?thesis using b1(3) b2(2,3) by auto
qed

lemma find_first_index:
  assumes ok: "pool_ok a H"
  shows "\<exists>pos. bit_array_find_first (buffer_availability a) UDIPE_MAX_BUFFERS True = Inr pos \<and>
    (if bp_word pos = SIZE_MAX then H = all_buffers a
     else valid_pos UDIPE_MAX_BUFFERS pos \<and> bit_pos_to_index pos = Inr (pos_index pos) \<and>
       pos_index pos < buffer_count (config a) \<and> buffer_addr a (pos_index pos) \<notin> H)"
proof -
  let ?N = UDIPE_MAX_BUFFERS
  obtain pos where pos: "bit_array_find_first (buffer_availability a) ?N True = Inr pos"
    "search_result (buffer_availability a) True 0 ?N pos"
    using bit_array_find_first_correct [OF valid_availability [OF ok]] by blast
  from pos(2) consider "pos = NO_BIT_POS" "none_at (buffer_availability a) True 0 ?N"
    | "first_at (buffer_availability a) True 0 ?N pos" by (auto simp: search_result_def)
  then show ?thesis
  proof cases
    case 1
    then have "\<forall>i<?N. \<not> nth_bit (buffer_availability a) i" by (auto simp: none_at_def)
    then have "H = all_buffers a" using ok by (auto simp: pool_ok_def all_buffers_def)
    then show ?thesis using pos(1) 1(1) by (simp add: NO_BIT_POS_def)
  next
    case 2
    then have p: "bp_offset pos < 64" "pos_index pos < ?N" "nth_bit (buffer_availability a) (pos_index pos)"
      by (auto simp: first_at_def)
    then have "bp_word pos \<noteq> SIZE_MAX" "pos_index pos < SIZE_MAX"
      by (auto simp: pos_index_def UDIPE_MAX_BUFFERS_def SIZE_MAX_def)
    then have "bp_word pos \<noteq> SIZE_MAX" "bit_pos_to_index pos = Inr (pos_index pos)"
      using p(1) by (simp_all add: bit_pos_to_index_ok)
    then show ?thesis using pos(1) p ok by (auto simp: valid_pos_def pool_ok_def)
  qed
qed

lemma buffer_offset_fits:
  assumes "pool_ok a H" "i < buffer_count (config a)"
  shows "size_wrap (i * buffer_size (config a)) = i * buffer_size (config a)"
proof -
  have "i * buffer_size (config a) \<le> buffer_size (config a) * buffer_count (config a)"
    using assms(2) by (simp add: mult.commute)
  also have "\<dots> < 2 ^ 64" using assms(1) by (simp add: pool_ok_def)
  finally show ?thesis by (rule size_wrap_id)
qed

text \<open>An allocator that differs only in one bit.\<close>

lemma pool_ok_mark:
  assumes ok: "pool_ok a H" and i: "i < buffer_count (config a)"
    and bits: "length bits = length (buffer_availability a)"
      "\<forall>j. nth_bit bits j = (if j = i then v else nth_bit (buffer_availability a) j)"
  shows "pool_ok (a\<lparr>buffer_availability := bits\<rparr>) (if v then H - {buffer_addr a i} else insert (buffer_addr a i) H)"
proof -
  let ?a = "a\<lparr>buffer_availability := bits\<rparr>"
  have addr: "buffer_addr ?a = buffer_addr a" "all_buffers ?a = all_buffers a"
    by (simp_all add: buffer_addr_def all_buffers_def fun_eq_iff)
  have "buffer_addr a i \<in> all_buffers a" using i by (simp add: all_buffers_def)
  then show ?thesis using ok bits i buffer_addr_inj [OF ok]
    by (auto simp: pool_ok_def addr)
qed

lemma buffer_allocate_exact:
  assumes ok: "pool_ok a H"
  shows "\<exists>r a'. buffer_allocate a = Inr (r, a') \<and> config a' = config a \<and> memory_pool a' = memory_pool a \<and>
    (case r of None \<Rightarrow> a' = a \<and> H = all_buffers a
     | Some x \<Rightarrow> x \<in> all_buffers a \<and> x \<notin> H \<and> pool_ok a' (insert x H))"
proof -
  obtain pos where pos: "bit_array_find_first (buffer_availability a) UDIPE_MAX_BUFFERS True = Inr pos"
    "if bp_word pos = SIZE_MAX then H = all_buffers a
     else valid_pos UDIPE_MAX_BUFFERS pos \<and> bit_pos_to_index pos = Inr (pos_index pos) \<and>
       pos_index pos < buffer_count (config a) \<and> buffer_addr a (pos_index pos) \<notin> H"
    using find_first_index [OF ok] by blast
  have count: "buffer_count (config a) > 0" using ok by (simp add: pool_ok_def)
  show ?thesis
  proof (cases "bp_word pos = SIZE_MAX")
    case True
    with pos count show ?thesis by (simp add: buffer_allocate_def)
  next
    case False
    let ?i = "pos_index pos"
    have p: "valid_pos UDIPE_MAX_BUFFERS pos" "bit_pos_to_index pos = Inr ?i" "?i < buffer_count (config a)"
      "buffer_addr a ?i \<notin> H" using pos(2) False by auto
    obtain bits where bits: "bit_array_set (buffer_availability a) UDIPE_MAX_BUFFERS pos False = Inr bits"
      "length bits = length (buffer_availability a)"
      "\<forall>j. nth_bit bits j = (if j = ?i then False else nth_bit (buffer_availability a) j)"
      using bit_array_set_correct [OF valid_availability [OF ok] p(1)] by blast
    obtain pool where pool: "memory_pool a = Some pool" using ok by (auto simp: pool_ok_def)
    have "buffer_allocate a = Inr (Some (buffer_addr a ?i), a\<lparr>buffer_availability := bits\<rparr>)"
      using pos(1) False count bits(1) p(2) pool buffer_offset_fits [OF ok p(3)]
      by (simp add: buffer_allocate_def Let_def buffer_addr_def)
    moreover have "buffer_addr a ?i \<in> all_buffers a" using p(3) by (simp add: all_buffers_def)
    ultimately show ?thesis using p(4) pool_ok_mark [OF ok p(3) bits(2,3)] by simp
  qed
qed

lemma buffer_liberate_exact:
  assumes ok: "pool_ok a H" and x: "x \<in> H"
  shows "\<exists>a'. buffer_liberate x (a, mem) = Inr (a', memset_zero x (buffer_size (config a)) mem) \<and>
    config a' = config a \<and> memory_pool a' = memory_pool a \<and> pool_ok a' (H - {x})"
proof -
  obtain i where i: "i < buffer_count (config a)" "x = buffer_addr a i"
    using ok x by (auto simp: pool_ok_def all_buffers_def)
  obtain pool where pool: "memory_pool a = Some pool" using ok by (auto simp: pool_ok_def)
  have n: "i < UDIPE_MAX_BUFFERS" "0 < buffer_size (config a)" using ok i(1) by (auto simp: pool_ok_def)
  note pos = index_pos [OF less_imp_le [OF n(1)]]
  let ?b = "\<lparr>bp_word = i div 64, bp_offset = i mod 64\<rparr>"
  have valid: "valid_pos UDIPE_MAX_BUFFERS ?b" using pos(3) n(1) .
  have get: "bit_array_get (buffer_availability a) UDIPE_MAX_BUFFERS ?b = Inr False"
    using bit_array_get_correct [OF valid_availability [OF ok] valid] pos(2) ok x i n(1) by (simp add: pool_ok_def)
  obtain bits where bits: "bit_array_set (buffer_availability a) UDIPE_MAX_BUFFERS ?b True = Inr bits"
    "length bits = length (buffer_availability a)"
    "\<forall>j. nth_bit bits j = (if j = i then True else nth_bit (buffer_availability a) j)"
    using bit_array_set_correct [OF valid_availability [OF ok] valid, of True] unfolding pos(2) by blast
  have "buffer_liberate x (a, mem) =
      Inr (a\<lparr>buffer_availability := bits\<rparr>, memset_zero x (buffer_size (config a)) mem)"
    using pool i n pos(1) get bits(1) by (simp add: buffer_liberate_def buffer_addr_def Let_def)
  then show ?thesis using pool_ok_mark [OF ok i(1) bits(2,3)] i(2) by simp
qed

section \<open>Pools of slots\<close>

text \<open>What a user of a pool relies on: \<open>ok s H\<close> says that the slots \<open>H\<close> are in hand, out of those in
  \<open>slots s\<close>.\<close>

locale slot_pool =
  fixes ok :: "'s \<Rightarrow> 'r set \<Rightarrow> bool" and slots :: "'s \<Rightarrow> 'r set"
    and acquire :: "'s \<Rightarrow> ('r option \<times> 's) res" and release :: "'r \<Rightarrow> 's \<Rightarrow> 's res"
  assumes in_slots: "ok s H \<Longrightarrow> H \<subseteq> slots s"
    and acquire_law: "ok s H \<Longrightarrow> \<exists>r s'. acquire s = Inr (r, s') \<and> slots s' = slots s \<and>
      (case r of None \<Rightarrow> ok s' H \<and> H = slots s | Some x \<Rightarrow> x \<in> slots s \<and> x \<notin> H \<and> ok s' (insert x H))"
    and release_law: "ok s H \<Longrightarrow> x \<in> H \<Longrightarrow> \<exists>s'. release x s = Inr s' \<and> slots s' = slots s \<and> ok s' (H - {x})"

text \<open>A sequence of requests: for a slot, or to give back the one at some position among those in hand.
  \<open>refused\<close> counts the requests that got none.\<close>

datatype slot_request = Acquire | Release nat

fun serve_slots ::
    "('s \<Rightarrow> ('r option \<times> 's) res) \<Rightarrow> ('r \<Rightarrow> 's \<Rightarrow> 's res) \<Rightarrow> slot_request list \<Rightarrow> 'r list \<Rightarrow> nat \<Rightarrow> 's \<Rightarrow>
     ('r list \<times> nat \<times> 's) res" where
  "serve_slots acq rel [] hs refused s = Inr (hs, refused, s)"
| "serve_slots acq rel (Acquire # rs) hs refused s =
     bindR (acq s) (\<lambda>(r, s'). case r of
        None \<Rightarrow> serve_slots acq rel rs hs (Suc refused) s'
      | Some x \<Rightarrow> serve_slots acq rel rs (x # hs) refused s')"
| "serve_slots acq rel (Release i # rs) hs refused s =
     (if i < length hs
      then bindR (rel (hs ! i) s) (\<lambda>s'. serve_slots acq rel rs (take i hs @ drop (Suc i) hs) refused s')
      else serve_slots acq rel rs hs refused s)"

lemma set_take_drop:
  "distinct hs \<Longrightarrow> i < length hs \<Longrightarrow> set (take i hs @ drop (Suc i) hs) = set hs - {hs ! i}"
  by (subst (3) id_take_nth_drop [of i hs])
    (auto simp: distinct_conv_nth in_set_conv_nth)

context slot_pool
begin

lemma serve_ok:
  assumes "ok s (set hs)" "distinct hs"
  shows "\<exists>hs' refused' s'. serve_slots acquire release rs hs refused s = Inr (hs', refused', s') \<and>
    slots s' = slots s \<and> ok s' (set hs') \<and> distinct hs'"
  using assms
proof (induction rs arbitrary: hs refused s)
  case (Cons r rs)
  show ?case
  proof (cases r)
    case Acquire
    obtain x s' where x: "acquire s = Inr (x, s')" "slots s' = slots s"
      "case x of None \<Rightarrow> ok s' (set hs) \<and> set hs = slots s
       | Some y \<Rightarrow> y \<in> slots s \<and> y \<notin> set hs \<and> ok s' (insert y (set hs))"
      using acquire_law [OF Cons.prems(1)] by blast
    show ?thesis
    proof (cases x)
      case None
      have "ok s' (set hs)" using x(3) unfolding None option.case by (rule conjunct1)
      from Cons.IH [OF this Cons.prems(2), of "Suc refused"] show ?thesis using x(1,2) None Acquire by auto
    next
      case (Some y)
      then have "ok s' (set (y # hs))" "distinct (y # hs)" using x(3) Cons.prems(2) by auto
      from Cons.IH [OF this, of refused] show ?thesis using x(1,2) Some Acquire by auto
    qed
  next
    case (Release i)
    show ?thesis
    proof (cases "i < length hs")
      case True
      obtain s' where s': "release (hs ! i) s = Inr s'" "slots s' = slots s" "ok s' (set hs - {hs ! i})"
        using release_law [OF Cons.prems(1), of "hs ! i"] True by auto
      have rest: "set (take i hs @ drop (Suc i) hs) = set hs - {hs ! i}" "distinct (take i hs @ drop (Suc i) hs)"
        using set_take_drop [OF Cons.prems(2) True] Cons.prems(2)
        by (simp_all add: set_take_disj_set_drop_if_distinct)
      have "ok s' (set (take i hs @ drop (Suc i) hs))" using s'(3) rest(1) by simp
      from Cons.IH [OF this rest(2), of refused] show ?thesis using s'(1,2) True Release by auto
    next
      case False
      from Cons.IH [OF Cons.prems, of refused] show ?thesis using False Release by auto
    qed
  qed
qed auto

end

definition buffer_acquire :: "buffer_allocator \<times> bytes \<Rightarrow> (nat option \<times> buffer_allocator \<times> bytes) res" where
  "buffer_acquire = (\<lambda>(a, mem). bindR (buffer_allocate a) (\<lambda>(r, a'). Inr (r, a', mem)))"

interpretation buffers: slot_pool "\<lambda>(a, mem). pool_ok a" "\<lambda>(a, mem). all_buffers a" buffer_acquire buffer_liberate
proof (unfold_locales, goal_cases)
  case (1 s H)
  then show ?case by (auto simp: pool_ok_def)
next
  case (2 s H)
  obtain a mem where s: "s = (a, mem)" by (cases s)
  obtain r a' where "buffer_allocate a = Inr (r, a')" "config a' = config a" "memory_pool a' = memory_pool a"
    "case r of None \<Rightarrow> a' = a \<and> H = all_buffers a | Some x \<Rightarrow> x \<in> all_buffers a \<and> x \<notin> H \<and> pool_ok a' (insert x H)"
    using buffer_allocate_exact [of a H] 2 s by auto
  moreover from this have "all_buffers a' = all_buffers a"
    by (simp add: all_buffers_def buffer_addr_def fun_eq_iff)
  ultimately show ?case using 2 s by (auto simp: buffer_acquire_def split: option.splits)
next
  case (3 s H x)
  obtain a mem where s: "s = (a, mem)" by (cases s)
  obtain a' where "buffer_liberate x (a, mem) = Inr (a', memset_zero x (buffer_size (config a)) mem)"
    "config a' = config a" "memory_pool a' = memory_pool a" "pool_ok a' (H - {x})"
    using buffer_liberate_exact [of a H x mem] 3 s by auto
  moreover from this have "all_buffers a' = all_buffers a"
    by (simp add: all_buffers_def buffer_addr_def fun_eq_iff)
  ultimately show ?case using s by auto
qed

section \<open>Creation and destruction\<close>

lemma rounded_size_multiple:
  assumes "unat bytes mod unat g = 0" shows "rounded_size g bytes = bytes"
proof -
  have "unat (bytes mod g) = 0" using assms by (simp add: unat_mod)
  then show ?thesis by (simp add: rounded_size_def unat_eq_0)
qed

lemma realtime_allocate_success:
  assumes ps: "page_size (allocator w) < 2 ^ 64" and n: "0 < n" "n < 2 ^ 64" "n mod page_size (allocator w) = 0"
    and sched: "schedule w = Returns (int p) e # Returns 0 e' # ss" and p: "p mod page_size (allocator w) = 0"
  shows "realtime_allocate (of_nat n) w = Inr (p, w\<lparr>schedule := ss\<rparr>)"
proof -
  let ?ps = "page_size (allocator w)"
  have u: "unat (word_of_nat ?ps :: u64) = ?ps" "unat (word_of_nat n :: u64) = n"
    using ps n(2) by (simp_all add: unat_of_nat)
  have "rounded_size (word_of_nat ?ps) (word_of_nat n :: u64) = word_of_nat n"
    using n(3) by (intro rounded_size_multiple) (simp add: u)
  moreover have "(0 :: u64) < word_of_nat n" using n(1) u(2) by (metis unat_0 word_less_nat_alt)
  moreover have "(word_of_nat n :: u64) mod word_of_nat ?ps = 0"
    using n(3) u by (metis unat_mod unat_eq_0)
  ultimately show ?thesis using sched p u(1)
    by (simp add: realtime_allocate_def allocation_size_def get_allocation_granularity_def get_page_size_def
        get_allocator_def bindM_def seqM_def retM_def ensureM_def assertM_def syscall_def next_step_def lock_pages_def)
qed

lemma pool_ok_initial:
  assumes "initial_buffer_availability (buffer_count cfg) = Inr bits" "0 < buffer_size cfg" "0 < buffer_count cfg"
    and "buffer_count cfg \<le> UDIPE_MAX_BUFFERS" "buffer_size cfg * buffer_count cfg < 2 ^ 64"
  shows "pool_ok \<lparr>memory_pool = Some pool, config = cfg, buffer_availability = bits\<rparr> {}"
  using initial_availability_exact [OF assms(4)] assms by (auto simp: pool_ok_def)

text \<open>A pool whose configuration the user has given, with the system calls successful.\<close>

lemma buffer_allocator_initialize_success:
  assumes cb: "callback configurator = Some f" "f (callback_context configurator) = cfg"
    and cfg: "0 < buffer_size cfg" "0 < buffer_count cfg" "buffer_count cfg \<le> UDIPE_MAX_BUFFERS"
    and ps: "0 < page_size (allocator w)" "buffer_size cfg + page_size (allocator w) \<le> 2 ^ 64"
    and fits: "round_to_pages (page_size (allocator w)) (buffer_size cfg) * buffer_count cfg < 2 ^ 64"
    and sched: "schedule w = Returns (int p) e # Returns 0 e' # ss"
    and p: "0 < p" "p mod page_size (allocator w) = 0"
  shows "\<exists>bits. buffer_allocator_initialize configurator topo mem w =
      Inr ((\<lparr>memory_pool = Some p, config = cfg\<lparr>buffer_size := round_to_pages (page_size (allocator w)) (buffer_size cfg)\<rparr>,
             buffer_availability = bits\<rparr>,
            memset_zero p (round_to_pages (page_size (allocator w)) (buffer_size cfg) * buffer_count cfg) mem),
           w\<lparr>schedule := ss\<rparr>) \<and>
    initial_buffer_availability (buffer_count cfg) = Inr bits"
proof -
  let ?ps = "page_size (allocator w)" and ?size = "round_to_pages (page_size (allocator w)) (buffer_size cfg)"
  have r: "?size mod ?ps = 0" "buffer_size cfg \<le> ?size" by (rule round_to_pages_exact [OF ps])+
  have psw: "?ps < 2 ^ 64" using ps cfg(1) by simp
  then have u: "unat (word_of_nat ?ps :: u64) = ?ps" by (simp add: unat_of_nat)
  have "(?size * buffer_count cfg) mod ?ps = 0" using r(1) by (metis mod_mult_left_eq mult_0 mod_0)
  moreover have "0 < ?size * buffer_count cfg" using r(2) cfg by simp
  ultimately have alloc: "realtime_allocate (of_nat (?size * buffer_count cfg)) w = Inr (p, w\<lparr>schedule := ss\<rparr>)"
    using psw fits sched p(2) by (intro realtime_allocate_success) auto
  obtain bits where bits: "initial_buffer_availability (buffer_count cfg) = Inr bits"
    using initial_availability_exact [OF cfg(3)] by blast
  have conf: "finish_configuration ?ps topo cfg = Inr (cfg\<lparr>buffer_size := ?size\<rparr>)"
    using cfg by (simp add: finish_configuration_def finish_buffer_count_def Let_def)
  show ?thesis
    using cb conf bits alloc fits p(1) u
    by (simp add: buffer_allocator_initialize_def requested_config_def get_page_size_def get_allocator_def
        bindM_def liftR_def retM_def Let_def del: of_nat_mult)
qed

lemma all_buffers_layout:
  assumes ok: "pool_ok a H" and pool: "memory_pool a = Some pool"
    and x: "x \<in> all_buffers a" and y: "y \<in> all_buffers a"
  shows "pool \<le> x" "x + buffer_size (config a) \<le> pool + buffer_size (config a) * buffer_count (config a)"
    "x \<noteq> y \<Longrightarrow> x + buffer_size (config a) \<le> y \<or> y + buffer_size (config a) \<le> x"
    "pool mod n = 0 \<Longrightarrow> buffer_size (config a) mod n = 0 \<Longrightarrow> x mod n = 0"
proof -
  let ?s = "buffer_size (config a)"
  obtain i j where i: "x = pool + i * ?s" "i < buffer_count (config a)" and j: "y = pool + j * ?s"
    using x y pool by (auto simp: all_buffers_def buffer_addr_def)
  show "pool \<le> x" by (simp add: i)
  have "Suc i * ?s \<le> buffer_count (config a) * ?s" using i(2) by (intro mult_le_mono1) simp
  then show "x + ?s \<le> pool + ?s * buffer_count (config a)" by (simp add: i mult.commute)
  show "x + ?s \<le> y \<or> y + ?s \<le> x" if "x \<noteq> y"
  proof (cases "i < j")
    case True
    then have "Suc i * ?s \<le> j * ?s" by (intro mult_le_mono1) simp
    then show ?thesis by (simp add: i j)
  next
    case False
    then have "Suc j * ?s \<le> i * ?s" using that i j by (intro mult_le_mono1) (cases "i = j", auto)
    then show ?thesis by (simp add: i j)
  qed
  show "x mod n = 0" if "pool mod n = 0" "?s mod n = 0"
    using that i(1) by (metis mod_add_left_eq mod_mult_right_eq mult_0_right mod_0 add_0)
qed

lemma finalize_alleq:
  assumes ok: "pool_ok a H"
  shows "bit_array_range_alleq (buffer_availability a) UDIPE_MAX_BUFFERS BIT_ARRAY_START
      \<lparr>bp_word = buffer_count (config a) div 64, bp_offset = buffer_count (config a) mod 64\<rparr> True = Inr (H = {})"
proof -
  have n: "buffer_count (config a) \<le> UDIPE_MAX_BUFFERS" using ok by (simp add: pool_ok_def)
  note e = index_pos [OF n]
  have start: "valid_pos UDIPE_MAX_BUFFERS BIT_ARRAY_START" "pos_index BIT_ARRAY_START = 0"
    by (simp_all add: valid_pos_def pos_index_def BIT_ARRAY_START_def UDIPE_MAX_BUFFERS_def)
  have "(\<forall>i. i < buffer_count (config a) \<longrightarrow> nth_bit (buffer_availability a) i = True) \<longleftrightarrow> H = {}"
  proof -
    have "nth_bit (buffer_availability a) i \<longleftrightarrow> buffer_addr a i \<notin> H" if "i < buffer_count (config a)" for i
      using ok n that by (simp add: pool_ok_def)
    then have "(\<forall>i. i < buffer_count (config a) \<longrightarrow> nth_bit (buffer_availability a) i = True) \<longleftrightarrow> H \<inter> all_buffers a = {}"
      by (auto simp: all_buffers_def)
    moreover have "H \<subseteq> all_buffers a" using ok by (simp add: pool_ok_def)
    ultimately show ?thesis by blast
  qed
  then show ?thesis
    using bit_array_range_alleq_correct [OF valid_availability [OF ok], of BIT_ARRAY_START
        "\<lparr>bp_word = buffer_count (config a) div 64, bp_offset = buffer_count (config a) mod 64\<rparr>" True] start e(2) n
    by simp
qed

section \<open>Properties\<close>

text \<open>C7. A new pool serves every sequence of requests and returns without failing a check: the buffers in
  hand are distinct, aligned to pages, inside of the pool and do not overlap, and none is available exactly
  when all of them are in hand.\<close>

theorem buffer_pool_serves:
  assumes "callback configurator = Some f" "f (callback_context configurator) = cfg"
    and "0 < buffer_size cfg" "0 < buffer_count cfg" "buffer_count cfg \<le> UDIPE_MAX_BUFFERS"
    and "0 < page_size (allocator w)" "buffer_size cfg + page_size (allocator w) \<le> 2 ^ 64"
    and "round_to_pages (page_size (allocator w)) (buffer_size cfg) * buffer_count cfg < 2 ^ 64"
    and "schedule w = Returns (int p) e # Returns 0 e' # ss" "0 < p" "p mod page_size (allocator w) = 0"
  shows "\<exists>a mem' w'. buffer_allocator_initialize configurator topo mem w = Inr ((a, mem'), w') \<and>
    (\<exists>hs refused a' mem''. serve_slots buffer_acquire buffer_liberate rs [] 0 (a, mem') = Inr (hs, refused, a', mem'') \<and>
      distinct hs \<and>
      (\<forall>x\<in>set hs. x mod page_size (allocator w) = 0 \<and> p \<le> x \<and>
         x + buffer_size (config a) \<le> p + buffer_size (config a) * buffer_count cfg \<and>
         (\<forall>y\<in>set hs. x \<noteq> y \<longrightarrow> x + buffer_size (config a) \<le> y \<or> y + buffer_size (config a) \<le> x)) \<and>
      (\<exists>r a''. buffer_allocate a' = Inr (r, a'') \<and> (r = None \<longleftrightarrow> length hs = buffer_count cfg)))"
proof -
  let ?ps = "page_size (allocator w)" and ?size = "round_to_pages (page_size (allocator w)) (buffer_size cfg)"
  obtain bits where init: "buffer_allocator_initialize configurator topo mem w =
      Inr ((\<lparr>memory_pool = Some p, config = cfg\<lparr>buffer_size := ?size\<rparr>, buffer_availability = bits\<rparr>,
            memset_zero p (?size * buffer_count cfg) mem), w\<lparr>schedule := ss\<rparr>)"
    and bits: "initial_buffer_availability (buffer_count cfg) = Inr bits"
    using buffer_allocator_initialize_success [OF assms] by blast
  let ?a = "\<lparr>memory_pool = Some p, config = cfg\<lparr>buffer_size := ?size\<rparr>, buffer_availability = bits\<rparr>"
    and ?mem = "memset_zero p (?size * buffer_count cfg) mem"
  note r = round_to_pages_exact [OF assms(6,7)]
  have ok: "pool_ok ?a {}"
    using pool_ok_initial [of "cfg\<lparr>buffer_size := ?size\<rparr>" bits p] bits assms(3-5,8) r(2) by simp
  obtain hs refused s' where serve: "serve_slots buffer_acquire buffer_liberate rs [] 0 (?a, ?mem) = Inr (hs, refused, s')"
    "(\<lambda>(a, mem). all_buffers a) s' = all_buffers ?a" "(\<lambda>(a, mem). pool_ok a) s' (set hs)" "distinct hs"
    using buffers.serve_ok [of "(?a, ?mem)" "[]" rs 0] ok by auto
  obtain a' mem'' where s': "s' = (a', mem'')" by (cases s')
  have ok': "pool_ok a' (set hs)" "all_buffers a' = all_buffers ?a" using serve(2,3) s' by simp_all
  have sub: "set hs \<subseteq> all_buffers ?a" using ok' by (auto simp: pool_ok_def)
  note lay = all_buffers_layout [OF ok, of p]
  have "\<forall>x\<in>set hs. x mod ?ps = 0 \<and> p \<le> x \<and> x + ?size \<le> p + ?size * buffer_count cfg \<and>
      (\<forall>y\<in>set hs. x \<noteq> y \<longrightarrow> x + ?size \<le> y \<or> y + ?size \<le> x)"
  proof (intro ballI conjI impI)
    fix x assume x: "x \<in> set hs"
    then have x': "x \<in> all_buffers ?a" using sub by blast
    show "x mod ?ps = 0" using lay(4) [OF _ x' x', of ?ps] r(1) assms(11) by simp
    show "p \<le> x" "x + ?size \<le> p + ?size * buffer_count cfg" using lay(1,2) [OF _ x' x'] by simp_all
    fix y assume y: "y \<in> set hs" "x \<noteq> y"
    then have "y \<in> all_buffers ?a" using sub by blast
    then show "x + ?size \<le> y \<or> y + ?size \<le> x" using lay(3) [OF _ x'] y by simp
  qed
  moreover have "\<exists>r a''. buffer_allocate a' = Inr (r, a'') \<and> (r = None \<longleftrightarrow> length hs = buffer_count cfg)"
  proof -
    have card: "card (all_buffers ?a) = buffer_count cfg"
      unfolding all_buffers_def using buffer_addr_inj [OF ok] by (subst card_image) (auto simp: inj_on_def)
    have fin: "finite (all_buffers ?a)" by (simp add: all_buffers_def)
    have hs: "card (set hs) = length hs" using serve(4) by (rule distinct_card)
    obtain r a'' where r: "buffer_allocate a' = Inr (r, a'')"
      "case r of None \<Rightarrow> a'' = a' \<and> set hs = all_buffers a'
       | Some x \<Rightarrow> x \<in> all_buffers a' \<and> x \<notin> set hs \<and> pool_ok a'' (insert x (set hs))"
      using buffer_allocate_exact [OF ok'(1)] by blast
    have "r = None \<longleftrightarrow> set hs = all_buffers ?a" using r(2) ok'(2) by (auto split: option.splits)
    also have "\<dots> \<longleftrightarrow> length hs = buffer_count cfg"
      using card_subset_eq [OF fin sub] hs card by auto
    finally show ?thesis using r(1) by blast
  qed
  ultimately show ?thesis using init serve(1,4) s' by simp
qed

definition buffer_world :: world where
  "buffer_world = \<lparr>futures = (\<lambda>_. \<lparr>specific = Network [], context_id = 0, status_sync = FD_INVALID, status_word = 0\<rparr>),
     allocator = empty_allocator,
     schedule = [Returns 8192 EOTHER, Returns 0 EOTHER], trace = []\<rparr>"

theorem buffer_pool_serves_witness:
  "\<exists>a mem' w'. buffer_allocator_initialize
      \<lparr>callback = Some (\<lambda>_. \<lparr>buffer_size = 1500, buffer_count = 3\<rparr>), callback_context = 0\<rparr>
      \<lparr>binding_ok = False, thread_cpus = [], cache_of_cpu = (\<lambda>_ _. None)\<rparr> (\<lambda>_. 1) buffer_world = Inr ((a, mem'), w') \<and>
    (\<exists>hs refused a' mem''. serve_slots buffer_acquire buffer_liberate
        [Acquire, Acquire, Release 1, Acquire] [] 0 (a, mem') = Inr (hs, refused, a', mem'') \<and> distinct hs)"
  using buffer_pool_serves [of "\<lparr>callback = Some (\<lambda>_. \<lparr>buffer_size = 1500, buffer_count = 3\<rparr>), callback_context = 0\<rparr>"
      "\<lambda>_. \<lparr>buffer_size = 1500, buffer_count = 3\<rparr>" "\<lparr>buffer_size = 1500, buffer_count = 3\<rparr>" buffer_world 8192 EOTHER EOTHER "[]"
      "\<lparr>binding_ok = False, thread_cpus = [], cache_of_cpu = (\<lambda>_ _. None)\<rparr>" "\<lambda>_. 1" "[Acquire, Acquire, Release 1, Acquire]"]
  by (auto simp: buffer_world_def empty_allocator_def UDIPE_MAX_BUFFERS_def round_to_pages_def size_wrap_def)

text \<open>The destruction of a pool exits with an error while a buffer is in hand; otherwise it unmaps the
  pool once and leaves no buffer available.\<close>

theorem buffer_pool_finalized:
  assumes ok: "pool_ok a H" and pool: "memory_pool a = Some p"
  shows "(H \<noteq> {} \<longrightarrow> buffer_allocator_finalize a w = Inl ExitError) \<and>
    (H = {} \<and> schedule w = Returns 0 e # ss \<longrightarrow>
      (\<exists>a' n. buffer_allocator_finalize a w =
           Inr (a', w\<lparr>trace := Unmap p n # trace w, schedule := ss\<rparr>) \<and>
         memory_pool a' = None \<and> (\<forall>i<UDIPE_MAX_BUFFERS. \<not> nth_bit (buffer_availability a') i)))"
proof -
  have n: "buffer_count (config a) \<le> UDIPE_MAX_BUFFERS" using ok by (simp add: pool_ok_def)
  note e = index_pos [OF n] and alleq = finalize_alleq [OF ok]
  let ?e = "\<lparr>bp_word = buffer_count (config a) div 64, bp_offset = buffer_count (config a) mod 64\<rparr>"
  have start: "valid_pos UDIPE_MAX_BUFFERS BIT_ARRAY_START" "pos_index BIT_ARRAY_START = 0"
    by (simp_all add: valid_pos_def pos_index_def BIT_ARRAY_START_def UDIPE_MAX_BUFFERS_def)
  obtain bits where bits: "bit_array_range_set (buffer_availability a) UDIPE_MAX_BUFFERS BIT_ARRAY_START ?e False = Inr bits"
    "\<forall>i. nth_bit bits i = (if i < buffer_count (config a) then False else nth_bit (buffer_availability a) i)"
    using bit_array_range_set_correct [OF valid_availability [OF ok], of BIT_ARRAY_START ?e False] start e(2) n by auto
  have "\<forall>i<UDIPE_MAX_BUFFERS. \<not> nth_bit bits i" using bits(2) ok by (simp add: pool_ok_def)
  then show ?thesis using e(1) alleq bits(1) pool
    by (auto simp: buffer_allocator_finalize_def bindM_def liftR_def stopM_def seqM_def realtime_liberate_def
        allocation_size_def get_allocation_granularity_def get_page_size_def get_allocator_def retM_def emit_def
        syscall_def next_step_def)
qed

theorem buffer_pool_finalized_witness:
  "buffer_allocator_finalize
     \<lparr>memory_pool = Some 8192, config = \<lparr>buffer_size = 4096, buffer_count = 1\<rparr>, buffer_availability = [0]\<rparr> buffer_world
     = Inl ExitError"
proof -
  have "pool_ok \<lparr>memory_pool = Some 8192, config = \<lparr>buffer_size = 4096, buffer_count = 1\<rparr>, buffer_availability = [0]\<rparr> {8192}"
    by (auto simp: pool_ok_def all_buffers_def buffer_addr_def UDIPE_MAX_BUFFERS_def bit_array_consts nth_bit_def)
  from buffer_pool_finalized [OF this] show ?thesis by simp
qed

text \<open>C30. A finished configuration has a buffer size that is a multiple of the page size and not below the
  requested one, and at most the supported number of buffers.  An automatic number of buffers is rounded up:
  the buffers take at least the share of the L2 cache that they are meant to fit in, unless their number is
  capped.\<close>

theorem buffer_configuration_sound:
  assumes fin: "finish_configuration psize topo cfg = Inr cfg'" and ps: "0 < psize" "psize \<le> 2 ^ 32"
    and size: "buffer_size cfg + psize \<le> 2 ^ 64"
  shows "buffer_size cfg' mod psize = 0 \<and> buffer_size cfg \<le> buffer_size cfg' \<and>
    buffer_count cfg' \<le> UDIPE_MAX_BUFFERS \<and> (buffer_count cfg \<noteq> 0 \<longrightarrow> buffer_count cfg' = buffer_count cfg) \<and>
    (buffer_count cfg = 0 \<longrightarrow> (\<exists>share. smallest_cache_capacity topo L2CACHE = Inr share \<and>
       (share \<le> buffer_count cfg' * buffer_size cfg' \<or> buffer_count cfg' = UDIPE_MAX_BUFFERS)))"
proof -
  obtain bsize0 n where b: "(if buffer_size cfg = 0 then smallest_cache_capacity topo L1CACHE
      else Inr (buffer_size cfg)) = Inr bsize0"
    and n: "finish_buffer_count topo (round_to_pages psize bsize0) (buffer_count cfg) = Inr n"
    and cfg': "cfg' = \<lparr>buffer_size = round_to_pages psize bsize0, buffer_count = n\<rparr>"
    using fin by (auto simp: finish_configuration_def res_simps Let_def split: if_splits)
  have bs: "buffer_size cfg \<le> bsize0" "bsize0 + psize \<le> 2 ^ 64"
    using b size ps smallest_cache_capacity_small [of topo L1CACHE bsize0] by (auto split: if_splits)
  note r = round_to_pages_exact [OF ps(1) bs(2)]
  let ?bs = "round_to_pages psize bsize0"
  have count: "n \<le> UDIPE_MAX_BUFFERS" "buffer_count cfg \<noteq> 0 \<longrightarrow> n = buffer_count cfg"
    using n by (auto simp: finish_buffer_count_def res_simps Let_def split: if_splits)
  have auto: "\<exists>share. smallest_cache_capacity topo L2CACHE = Inr share \<and> (share \<le> n * ?bs \<or> n = UDIPE_MAX_BUFFERS)"
    if zero: "buffer_count cfg = 0"
  proof -
    obtain share where share: "smallest_cache_capacity topo L2CACHE = Inr share" "?bs \<noteq> 0"
      "n = (let k = share div ?bs + (if share mod ?bs \<noteq> 0 then 1 else 0) in
            if k \<le> UDIPE_MAX_BUFFERS then k else UDIPE_MAX_BUFFERS)"
      using n zero by (auto simp: finish_buffer_count_def res_simps Let_def split: if_splits)
    have "share \<le> (share div ?bs + (if share mod ?bs \<noteq> 0 then 1 else 0)) * ?bs"
    proof (cases "share mod ?bs = 0")
      case True
      then show ?thesis by (metis add_0_right div_mult_mod_eq order_refl)
    next
      case False
      have "share = share div ?bs * ?bs + share mod ?bs" by (rule div_mult_mod_eq [symmetric])
      also have "\<dots> \<le> share div ?bs * ?bs + ?bs" using share(2) by (intro add_left_mono) (simp add: less_imp_le)
      finally show ?thesis using False by (simp add: algebra_simps)
    qed
    then show ?thesis using share by (auto simp: Let_def)
  qed
  show ?thesis using r bs(1) count auto cfg' by (auto intro: order_trans)
qed

theorem buffer_configuration_sound_witness:
  "\<exists>share. smallest_cache_capacity
      \<lparr>binding_ok = True, thread_cpus = [0], cache_of_cpu = (\<lambda>l _. Some (if l = L1CACHE then 40960 else 90000, 1))\<rparr> L2CACHE
      = Inr share \<and> (share \<le> 3 * 32768 \<or> (3 :: nat) = UDIPE_MAX_BUFFERS)"
proof -
  have "finish_configuration 4096
      \<lparr>binding_ok = True, thread_cpus = [0], cache_of_cpu = (\<lambda>l _. Some (if l = L1CACHE then 40960 else 90000, 1))\<rparr>
      \<lparr>buffer_size = 0, buffer_count = 0\<rparr> = Inr \<lparr>buffer_size = 32768, buffer_count = 3\<rparr>"
    by (simp add: finish_configuration_def finish_buffer_count_def smallest_cache_capacity_def SIZE_MAX_def
        size_wrap_def round_to_pages_def UDIPE_MAX_BUFFERS_def)
  from buffer_configuration_sound [OF this] show ?thesis by auto
qed

text \<open>The size of the pool is computed without a check for overflow: for this configuration, which
  is accepted, the pool has 256 KiB while its second buffer starts 2 ^ 58 bytes behind its first one.\<close>

theorem buffer_pool_size_overflows:
  "finish_configuration 4096 topo \<lparr>buffer_size = 2 ^ 58 + 4096, buffer_count = 64\<rparr>
     = Inr \<lparr>buffer_size = 2 ^ 58 + 4096, buffer_count = 64\<rparr> \<and>
   size_wrap (buffer_size \<lparr>buffer_size = 2 ^ 58 + 4096, buffer_count = 64\<rparr> * 64) = 262144"
  by (simp add: finish_configuration_def finish_buffer_count_def round_to_pages_def UDIPE_MAX_BUFFERS_def size_wrap_def)

end
