(* ===== verification/Distribution.thy ===== *)
theory Distribution
  imports Prelude "HOL-Library.Multiset"
begin

text \<open>
  Model of src/benchmark/distribution.h and src/benchmark/distribution.c, the sparse histograms in
  which the benchmark harness collects durations: allocation, the binary search for the bin of a
  value, the creation of a bin (in place or in a doubled allocation), insertion, and the conversion
  of occurrence counts into end ranks.

  A distribution keeps two arrays of \<open>capacity\<close> cells in one allocation, the sorted values and the
  counts (end ranks after \<open>distribution_build\<close>).  A cell is \<open>None\<close> until it is written; reading such
  a cell, or one outside its array, stops with \<open>BadAccess\<close>.  Values are mathematical integers;
  an arithmetic operation on \<open>int64_t\<close> whose result does not fit stops with \<open>UndefinedBehaviour\<close>.

  Two things are decided outside of this code and are fields of \<open>heap_env\<close>: whether \<open>malloc\<close> has
  room for a request, and what a read of the eight bytes in front of an allocation gives.  The code
  makes such a read for a log message when it inserts into an empty builder, and a \<open>word_before\<close> of
  the form \<open>Inr v\<close> says that the read has no other effect than to give some \<open>v\<close>.
\<close>

section \<open>Data\<close>

definition INT64_MIN :: int where
  "INT64_MIN = - (2 ^ 63)"

definition INT64_MAX :: int where
  "INT64_MAX = 2 ^ 63 - 1"

text \<open>\<open>ptrdiff_t\<close> has 64 bits on the supported targets.\<close>

definition PTRDIFF_MIN :: int where
  "PTRDIFF_MIN = - (2 ^ 63)"

definition PTRDIFF_MAX :: int where
  "PTRDIFF_MAX = 2 ^ 63 - 1"

definition UINT64_MAX :: nat where
  "UINT64_MAX = 2 ^ 64 - 1"

text \<open>The result of an \<open>int64_t\<close> operation.\<close>

definition int64 :: "int \<Rightarrow> int res" where
  "int64 x = (if INT64_MIN \<le> x \<and> x \<le> INT64_MAX then Inr x else Inl UndefinedBehaviour)"

type_synonym layout = "int option list \<times> nat option list"   \<comment> \<open>\<open>sorted_values\<close>, \<open>counts\<close>\<close>

record distribution =
  allocation :: "layout option"
  num_bins :: nat
  capacity :: nat

record distribution_builder =
  inner :: distribution

record heap_env =
  malloc_ok :: "nat \<Rightarrow> bool"
  word_before :: "int res"

definition read_cell :: "'a option list \<Rightarrow> nat \<Rightarrow> 'a res" where
  "read_cell xs i = bindR (array_read xs i) (\<lambda>c. case c of None \<Rightarrow> Inl BadAccess | Some v \<Rightarrow> Inr v)"

definition write_cell :: "'a option list \<Rightarrow> nat \<Rightarrow> 'a \<Rightarrow> 'a option list res" where
  "write_cell xs i v = array_write xs i (Some v)"

section \<open>Allocation\<close>

definition DISTRIBUTION_BIN_SIZE :: nat where
  "DISTRIBUTION_BIN_SIZE = 16"

definition distribution_poison :: distribution where
  "distribution_poison = \<lparr>allocation = None, num_bins = 0, capacity = 0\<rparr>"

text \<open>A request whose size in bytes overflows \<open>size_t\<close> gives less memory than the arrays take, and
  stops here already.\<close>

definition distribution_allocate :: "heap_env \<Rightarrow> nat \<Rightarrow> distribution res" where
  "distribution_allocate env cap =
     ensure_that (cap \<noteq> 0)
       (if cap * DISTRIBUTION_BIN_SIZE < 2 ^ 64
        then (if malloc_ok env (cap * DISTRIBUTION_BIN_SIZE)
              then Inr \<lparr>allocation = Some (replicate cap None, replicate cap None),
                        num_bins = 0, capacity = cap\<rparr>
              else Inl ExitError)
        else Inl BadAccess)"

definition distribution_layout :: "distribution \<Rightarrow> layout res" where
  "distribution_layout dist =
     (case allocation dist of None \<Rightarrow> Inl AssertFailed | Some l \<Rightarrow> Inr l)"

text \<open>\<open>free\<close> and the poisoning of the variable.\<close>

definition distribution_finalize :: "distribution \<Rightarrow> distribution" where
  "distribution_finalize dist = distribution_poison"

definition distribution_initialize :: "heap_env \<Rightarrow> nat \<Rightarrow> distribution_builder res" where
  "distribution_initialize env psize =
     bindR (distribution_allocate env (psize div DISTRIBUTION_BIN_SIZE)) (\<lambda>d.
     Inr \<lparr>inner = d\<rparr>)"

definition distribution_empty :: "distribution_builder \<Rightarrow> bool" where
  "distribution_empty builder = (num_bins (inner builder) = 0)"

definition distribution_discard :: "distribution_builder \<Rightarrow> distribution_builder" where
  "distribution_discard builder = builder\<lparr>inner := distribution_finalize (inner builder)\<rparr>"

section \<open>The bin of a value\<close>

datatype bin_direction = BIN_BELOW | BIN_NEAREST | BIN_ABOVE

text \<open>The end of the search, between two neighbouring bins.\<close>

definition pick_bin :: "int \<Rightarrow> bin_direction \<Rightarrow> nat \<Rightarrow> int \<Rightarrow> nat \<Rightarrow> int \<Rightarrow> int res" where
  "pick_bin value direction below_pos below_value above_pos above_value =
     assert_that (above_pos = below_pos + 1)
     (assert_that (value > below_value)
     (assert_that (value < above_value)
     (case direction of
        BIN_BELOW \<Rightarrow> Inr (int below_pos)
      | BIN_NEAREST \<Rightarrow>
          bindR (int64 (value - below_value)) (\<lambda>to_below.
          bindR (int64 (above_value - value)) (\<lambda>to_above.
          Inr (if to_below \<le> to_above then int below_pos else int above_pos)))
      | BIN_ABOVE \<Rightarrow> Inr (int above_pos))))"

function value_search_loop ::
    "int option list \<Rightarrow> int \<Rightarrow> bin_direction \<Rightarrow> nat \<Rightarrow> int \<Rightarrow> nat \<Rightarrow> int \<Rightarrow> int res" where
  "value_search_loop sorted_values value direction below_pos below_value above_pos above_value =
     (if above_pos - below_pos > 1 then
        assert_that (below_pos < above_pos)
        (assert_that (below_value < value)
        (assert_that (above_value > value)
        (let middle_pos = below_pos + (above_pos - below_pos) div 2 in
         assert_that (below_pos \<le> middle_pos)
         (assert_that (middle_pos < above_pos)
         (bindR (read_cell sorted_values middle_pos) (\<lambda>middle_value.
          assert_that (below_value \<le> middle_value)
          (assert_that (middle_value < above_value)
          (if middle_value > value then
             value_search_loop sorted_values value direction below_pos below_value
               middle_pos middle_value
           else if middle_value < value then
             value_search_loop sorted_values value direction middle_pos middle_value
               above_pos above_value
           else Inr (int middle_pos)))))))))
      else pick_bin value direction below_pos below_value above_pos above_value)"
  by pat_completeness auto

termination
  by (relation "measure (\<lambda>(_, _, _, below_pos, _, above_pos, _). above_pos - below_pos)") auto

declare value_search_loop.simps [simp del]

definition distribution_bin_by_value :: "distribution \<Rightarrow> int \<Rightarrow> bin_direction \<Rightarrow> int res" where
  "distribution_bin_by_value dist value direction =
     bindR (distribution_layout dist) (\<lambda>(sorted_values, _).
     let end_pos = num_bins dist in
     if num_bins dist = 0 then
       Inr (case direction of BIN_BELOW \<Rightarrow> PTRDIFF_MIN | BIN_NEAREST \<Rightarrow> PTRDIFF_MIN
                            | BIN_ABOVE \<Rightarrow> PTRDIFF_MAX)
     else
       let last_pos = end_pos - 1 in
       bindR (read_cell sorted_values last_pos) (\<lambda>last_value.
       if value > last_value then
         Inr (case direction of BIN_BELOW \<Rightarrow> int last_pos | BIN_NEAREST \<Rightarrow> int last_pos
                              | BIN_ABOVE \<Rightarrow> PTRDIFF_MAX)
       else if value = last_value then Inr (int last_pos)
       else assert_that (value < last_value)
         (bindR (read_cell sorted_values 0) (\<lambda>first_value.
          if value < first_value then
            Inr (case direction of BIN_BELOW \<Rightarrow> PTRDIFF_MIN | BIN_NEAREST \<Rightarrow> 0 | BIN_ABOVE \<Rightarrow> 0)
          else if value = first_value then Inr 0
          else assert_that (value > first_value)
            (value_search_loop sorted_values value direction 0 first_value last_pos last_value)))))"

section \<open>Insertion\<close>

text \<open>\<open>Shifting previous bins up\<close>: one iteration per remaining bin.\<close>

fun shift_bins_loop :: "nat \<Rightarrow> nat \<Rightarrow> int \<Rightarrow> nat \<Rightarrow> layout \<Rightarrow> (int \<times> nat \<times> layout) res" where
  "shift_bins_loop 0 dst next_value next_count l = Inr (next_value, next_count, l)"
| "shift_bins_loop (Suc todo) dst next_value next_count (values, counts) =
     bindR (read_cell values dst) (\<lambda>tmp_value.
     bindR (read_cell counts dst) (\<lambda>tmp_count.
     bindR (write_cell values dst next_value) (\<lambda>values'.
     bindR (write_cell counts dst next_count) (\<lambda>counts'.
     shift_bins_loop todo (Suc dst) tmp_value tmp_count (values', counts')))))"

text \<open>Transfer of \<open>todo\<close> bins into a new allocation, from position \<open>src\<close> to \<open>src + offset\<close> on.\<close>

fun copy_bins_loop :: "nat \<Rightarrow> nat \<Rightarrow> nat \<Rightarrow> layout \<Rightarrow> layout \<Rightarrow> layout res" where
  "copy_bins_loop 0 src offset old new = Inr new"
| "copy_bins_loop (Suc todo) src offset (values, counts) (new_values, new_counts) =
     bindR (read_cell values src) (\<lambda>value.
     bindR (write_cell new_values (src + offset) value) (\<lambda>new_values'.
     bindR (read_cell counts src) (\<lambda>copies.
     bindR (write_cell new_counts (src + offset) copies) (\<lambda>new_counts'.
     copy_bins_loop todo (Suc src) offset (values, counts) (new_values', new_counts')))))"

text \<open>The two branches of \<open>distribution_create_bin\<close>: room in the allocation, or a new one.\<close>

definition create_bin_in_place ::
    "distribution \<Rightarrow> layout \<Rightarrow> nat \<Rightarrow> int \<Rightarrow> nat \<Rightarrow> distribution res" where
  "create_bin_in_place dist l pos value copies =
     (let end_pos = num_bins dist; (values, counts) = l in
      if pos = end_pos then
        bindR (write_cell values end_pos value) (\<lambda>values'.
        bindR (write_cell counts end_pos copies) (\<lambda>counts'.
        Inr (dist\<lparr>allocation := Some (values', counts'), num_bins := num_bins dist + 1\<rparr>)))
      else
        bindR (read_cell values pos) (\<lambda>next_value.
        bindR (read_cell counts pos) (\<lambda>next_count.
        bindR (write_cell values pos value) (\<lambda>values1.
        bindR (write_cell counts pos copies) (\<lambda>counts1.
        bindR (shift_bins_loop (num_bins dist - (pos + 1)) (pos + 1) next_value next_count
                 (values1, counts1)) (\<lambda>(last_value, last_count, values2, counts2).
        bindR (write_cell values2 end_pos last_value) (\<lambda>values3.
        bindR (write_cell counts2 end_pos last_count) (\<lambda>counts3.
        Inr (dist\<lparr>allocation := Some (values3, counts3), num_bins := num_bins dist + 1\<rparr>)))))))))"

definition create_bin_realloc ::
    "heap_env \<Rightarrow> distribution \<Rightarrow> layout \<Rightarrow> nat \<Rightarrow> int \<Rightarrow> nat \<Rightarrow> distribution res" where
  "create_bin_realloc env dist l pos value copies =
     assert_that (num_bins dist = capacity dist)
     (bindR (distribution_allocate env (2 * capacity dist)) (\<lambda>new_dist.
      bindR (distribution_layout new_dist) (\<lambda>new_layout.
      bindR (copy_bins_loop pos 0 0 l new_layout) (\<lambda>(values1, counts1).
      bindR (write_cell values1 pos value) (\<lambda>values2.
      bindR (write_cell counts1 pos copies) (\<lambda>counts2.
      bindR (copy_bins_loop (num_bins dist - pos) pos 1 l (values2, counts2)) (\<lambda>new_layout'.
      Inr (new_dist\<lparr>allocation := Some new_layout', num_bins := num_bins dist + 1\<rparr>))))))))"

definition distribution_create_bin ::
    "heap_env \<Rightarrow> distribution_builder \<Rightarrow> nat \<Rightarrow> int \<Rightarrow> nat \<Rightarrow> distribution_builder res" where
  "distribution_create_bin env builder pos value copies =
     (let dist = inner builder in
      assert_that (pos \<le> num_bins dist)
      (bindR (distribution_layout dist) (\<lambda>l.
       seqR (if pos > 0
             then bindR (read_cell (fst l) (pos - 1)) (\<lambda>v. assert_that (v < value) (Inr ()))
             else Inr ())
      (seqR (if pos < num_bins dist
             then bindR (read_cell (fst l) pos) (\<lambda>v. assert_that (v > value) (Inr ()))
             else Inr ())
      (assert_that (copies > 0)
      (bindR (if num_bins dist < capacity dist
              then create_bin_in_place dist l pos value copies
              else create_bin_realloc env dist l pos value copies) (\<lambda>dist'.
       Inr (builder\<lparr>inner := dist'\<rparr>))))))))"

text \<open>A read of \<open>sorted_values[last_pos]\<close> for the log message: on an empty histogram \<open>last_pos\<close>
  wraps around, and the address is that of the word in front of the allocation.\<close>

definition read_last_value :: "heap_env \<Rightarrow> int option list \<Rightarrow> nat \<Rightarrow> int res" where
  "read_last_value env values end_pos =
     (if end_pos = 0 then word_before env else read_cell values (end_pos - 1))"

definition distribution_insert_copies ::
    "heap_env \<Rightarrow> distribution_builder \<Rightarrow> int \<Rightarrow> nat \<Rightarrow> distribution_builder res" where
  "distribution_insert_copies env builder value copies =
     (let dist = inner builder in
      bindR (distribution_bin_by_value dist value BIN_ABOVE) (\<lambda>bin_pos.
      bindR (distribution_layout dist) (\<lambda>(values, counts).
      if bin_pos = PTRDIFF_MAX then
        let end_pos = num_bins dist in
        bindR (read_last_value env values end_pos) (\<lambda>_.
        distribution_create_bin env builder end_pos value copies)
      else
        assert_that (bin_pos \<ge> 0)
        (assert_that (nat bin_pos < num_bins dist)
        (bindR (read_cell values (nat bin_pos)) (\<lambda>bin_value.
         if value = bin_value then
           bindR (read_cell counts (nat bin_pos)) (\<lambda>old_count.
           assert_that (old_count \<le> SIZE_MAX - copies)
           (bindR (write_cell counts (nat bin_pos) (old_count + copies)) (\<lambda>counts'.
            Inr (builder\<lparr>inner := dist\<lparr>allocation := Some (values, counts')\<rparr>\<rparr>))))
         else distribution_create_bin env builder (nat bin_pos) value copies))))))"

definition distribution_insert ::
    "heap_env \<Rightarrow> distribution_builder \<Rightarrow> int \<Rightarrow> distribution_builder res" where
  "distribution_insert env builder value = distribution_insert_copies env builder value 1"

fun max_count_loop :: "nat \<Rightarrow> nat \<Rightarrow> nat \<Rightarrow> nat option list \<Rightarrow> nat res" where
  "max_count_loop 0 bin max_count counts = Inr max_count"
| "max_count_loop (Suc todo) bin max_count counts =
     bindR (read_cell counts bin) (\<lambda>copies.
     assert_that (copies > 0)
     (max_count_loop todo (Suc bin) (if copies > max_count then copies else max_count) counts))"

definition distribution_max_count :: "distribution_builder \<Rightarrow> nat res" where
  "distribution_max_count builder =
     bindR (distribution_layout (inner builder)) (\<lambda>(_, counts).
     max_count_loop (num_bins (inner builder)) 0 0 counts)"

section \<open>Building\<close>

text \<open>\<open>Turning value counts into end ranks\<close>, with the wrap-around of \<open>size_t\<close>.\<close>

fun end_ranks_loop :: "nat \<Rightarrow> nat \<Rightarrow> nat \<Rightarrow> nat option list \<Rightarrow> nat option list res" where
  "end_ranks_loop 0 bin end_rank counts = Inr counts"
| "end_ranks_loop (Suc todo) bin end_rank counts =
     bindR (read_cell counts bin) (\<lambda>copies.
     let end_rank' = size_wrap (end_rank + copies) in
     bindR (write_cell counts bin end_rank') (\<lambda>counts'.
     end_ranks_loop todo (Suc bin) end_rank' counts'))"

text \<open>The distribution, and the poisoned builder.\<close>

definition distribution_build ::
    "distribution_builder \<Rightarrow> (distribution \<times> distribution_builder) res" where
  "distribution_build non_empty_builder =
     ensure_that (\<not> distribution_empty non_empty_builder)
       (let dist = inner non_empty_builder in
        bindR (distribution_layout dist) (\<lambda>(values, counts).
        bindR (end_ranks_loop (num_bins dist) 0 0 counts) (\<lambda>end_ranks.
        Inr (dist\<lparr>allocation := Some (values, end_ranks)\<rparr>,
             non_empty_builder\<lparr>inner := distribution_poison\<rparr>))))"

section \<open>The stored bins\<close>

text \<open>The bins at the front of the arrays, followed by unused cells.\<close>

definition stores :: "distribution \<Rightarrow> int list \<Rightarrow> nat list \<Rightarrow> bool" where
  "stores d vals nums \<longleftrightarrow> length nums = length vals \<and> num_bins d = length vals \<and> 0 < capacity d \<and>
     capacity d * DISTRIBUTION_BIN_SIZE < 2 ^ 64 \<and>
     (\<exists>vs cs. allocation d = Some (map Some vals @ vs, map Some nums @ cs) \<and>
        length vals + length vs = capacity d \<and> length vals + length cs = capacity d)"

text \<open>The samples of a histogram as a sorted list.\<close>

definition contents :: "int list \<Rightarrow> nat list \<Rightarrow> int list" where
  "contents vals nums = concat (map2 (\<lambda>v n. replicate n v) vals nums)"

definition well_binned :: "int list \<Rightarrow> nat list \<Rightarrow> bool" where
  "well_binned vals nums \<longleftrightarrow>
     length nums = length vals \<and> sorted_wrt (<) vals \<and> (\<forall>n\<in>set nums. 0 < n)"

text \<open>Abstraction of a builder: the multiset of the samples inserted so far.\<close>

definition builder_holds :: "distribution_builder \<Rightarrow> int multiset \<Rightarrow> bool" where
  "builder_holds b m \<longleftrightarrow> (\<exists>vals nums. stores (inner b) vals nums \<and> well_binned vals nums \<and>
     m = mset (contents vals nums))"

named_theorems cell_simps \<open>reads and writes of stored cells\<close>

lemma read_cell_stored [cell_simps]:
  "i < length xs \<Longrightarrow> read_cell (map Some xs @ r) i = Inr (xs ! i)"
  by (simp add: read_cell_def nth_append)

lemma write_cell_stored [cell_simps]:
  "i < length xs \<Longrightarrow> write_cell (map Some xs @ r) i v = Inr (map Some (xs[i := v]) @ r)"
  by (simp add: write_cell_def list_update_append map_update)

lemma write_cell_next [cell_simps]:
  "n = length xs \<Longrightarrow> r \<noteq> [] \<Longrightarrow> write_cell (map Some xs @ r) n v = Inr (map Some (xs @ [v]) @ tl r)"
  by (cases r) (simp_all add: write_cell_def list_update_append)

lemma distribution_layout_Some [simp]:
  "allocation d = Some l \<Longrightarrow> distribution_layout d = Inr l"
  by (simp add: distribution_layout_def)

lemma storesE:
  assumes "stores d vals nums"
  obtains vs cs where "distribution_layout d = Inr (map Some vals @ vs, map Some nums @ cs)"
    "allocation d = Some (map Some vals @ vs, map Some nums @ cs)"
    "length vals + length vs = capacity d" "length cs = length vs" "length nums = length vals"
    "num_bins d = length vals" "0 < capacity d" "capacity d * DISTRIBUTION_BIN_SIZE < 2 ^ 64"
  using assms unfolding stores_def by fastforce

lemma contents_append:
  "length nums = length vals \<Longrightarrow>
   contents (vals @ vals') (nums @ nums') = contents vals nums @ contents vals' nums'"
  by (simp add: contents_def)

lemma contents_Cons [simp]: "contents (v # vals) (n # nums) = replicate n v @ contents vals nums"
  by (simp add: contents_def)

lemma contents_Nil [simp]: "contents [] nums = []"
  by (simp add: contents_def)

lemma set_contents: "well_binned vals nums \<Longrightarrow> set (contents vals nums) = set vals"
  unfolding well_binned_def
proof (induction vals arbitrary: nums)
  case (Cons v vals)
  then obtain n ns where "nums = n # ns" by (cases nums) auto
  with Cons show ?case by auto
qed simp

lemma length_contents: "length nums = length vals \<Longrightarrow> length (contents vals nums) = sum_list nums"
proof (induction vals arbitrary: nums)
  case (Cons v vals)
  then obtain n ns where "nums = n # ns" by (cases nums) auto
  with Cons show ?case by auto
qed simp

lemma well_binned_length:
  assumes "well_binned vals nums" shows "length vals \<le> length (contents vals nums)"
proof -
  have "length nums \<le> sum_list nums" if "\<forall>n\<in>set nums. 0 < n" for nums :: "nat list"
    using that by (induction nums) auto
  from this [of nums] assms show ?thesis by (simp add: well_binned_def length_contents)
qed

lemma sorted_contents: "well_binned vals nums \<Longrightarrow> sorted (contents vals nums)"
proof (induction vals arbitrary: nums)
  case (Cons v vals)
  then obtain n ns where nums: "nums = n # ns" by (cases nums) (auto simp: well_binned_def)
  with Cons.prems have wb: "well_binned vals ns" and less: "\<forall>x\<in>set vals. v < x"
    by (auto simp: well_binned_def)
  show ?case using Cons.IH [OF wb] less set_contents [OF wb] nums
    by (fastforce simp: sorted_append)
qed simp

section \<open>The binary search\<close>

text \<open>The number of bins below a value.\<close>

definition bins_below :: "int list \<Rightarrow> int \<Rightarrow> nat" where
  "bins_below vals value = length (takeWhile (\<lambda>x. x < value) vals)"

lemma bins_below_le: "bins_below vals value \<le> length vals"
  by (simp add: bins_below_def length_takeWhile_le)

lemma nth_less_iff_bins_below:
  assumes "sorted_wrt (<) vals" "i < length vals"
  shows "vals ! i < value \<longleftrightarrow> i < bins_below vals value"
proof
  assume "i < bins_below vals value"
  then show "vals ! i < value"
    by (metis bins_below_def nth_mem set_takeWhileD takeWhile_nth)
next
  assume less: "vals ! i < value"
  show "i < bins_below vals value"
  proof (rule ccontr)
    let ?p = "bins_below vals value"
    assume "\<not> i < ?p"
    then have p: "?p \<le> i" by simp
    then have "?p < length vals" using assms(2) by simp
    then have "\<not> vals ! ?p < value" unfolding bins_below_def by (rule nth_length_takeWhile)
    moreover have "vals ! ?p \<le> vals ! i"
      using p assms by (cases "?p = i") (auto simp: sorted_wrt_iff_nth_less less_imp_le)
    ultimately show False using less by simp
  qed
qed

lemma bins_below_eqI:
  assumes "sorted_wrt (<) vals" "p \<le> length vals"
    and "0 < p \<Longrightarrow> vals ! (p - 1) < value" "p < length vals \<Longrightarrow> value \<le> vals ! p"
  shows "bins_below vals value = p"
proof (rule antisym)
  show "bins_below vals value \<le> p"
    using assms nth_less_iff_bins_below [of vals p "value"] bins_below_le [of vals "value"]
    by (cases "p < length vals") auto
  show "p \<le> bins_below vals value"
    using assms nth_less_iff_bins_below [of vals "p - 1" "value"] by (cases p) auto
qed

lemma mem_iff_bins_below:
  assumes "sorted_wrt (<) vals"
  shows "value \<in> set vals \<longleftrightarrow>
    bins_below vals value < length vals \<and> vals ! bins_below vals value = value"
proof
  assume "value \<in> set vals"
  then obtain i where i: "i < length vals" "vals ! i = value" by (auto simp: in_set_conv_nth)
  have "bins_below vals value = i"
    using assms i by (intro bins_below_eqI) (auto simp: sorted_wrt_iff_nth_less)
  with i show "bins_below vals value < length vals \<and> vals ! bins_below vals value = value" by simp
next
  assume "bins_below vals value < length vals \<and> vals ! bins_below vals value = value"
  then show "value \<in> set vals" by (metis nth_mem)
qed

lemma value_search_loop_exact:
  assumes "sorted_wrt (<) vals" "below_pos < above_pos" "above_pos < length vals"
    and "vals ! below_pos = below_value" "vals ! above_pos = above_value"
    and "below_value < value" "value < above_value"
  shows "\<exists>p. (p < length vals \<and> vals ! p = value \<and>
      value_search_loop (map Some vals @ r) value direction below_pos below_value above_pos above_value
        = Inr (int p)) \<or>
    (p + 1 < length vals \<and> vals ! p < value \<and> value < vals ! (p + 1) \<and>
      value_search_loop (map Some vals @ r) value direction below_pos below_value above_pos above_value
        = pick_bin value direction p (vals ! p) (p + 1) (vals ! (p + 1)))"
  using assms
proof (induction "above_pos - below_pos" arbitrary: below_pos below_value above_pos above_value
    rule: less_induct)
  case less
  define middle_pos where "middle_pos = below_pos + (above_pos - below_pos) div 2"
  note loop = value_search_loop.simps [of "map Some vals @ r" "value" direction below_pos below_value
      above_pos above_value]
  show ?case
  proof (cases "above_pos - below_pos > 1")
    case False
    then have "above_pos = below_pos + 1" using less.prems by simp
    with False less.prems loop show ?thesis by (intro exI [of _ below_pos]) auto
  next
    case True
    then have mid: "below_pos < middle_pos" "middle_pos < above_pos" "middle_pos < length vals"
      using less.prems by (auto simp: middle_pos_def)
    have order: "below_value < vals ! middle_pos" "vals ! middle_pos < above_value"
      using less.prems mid by (auto simp: sorted_wrt_iff_nth_less)
    have step: "value_search_loop (map Some vals @ r) value direction below_pos below_value above_pos
        above_value = (if vals ! middle_pos > value then
             value_search_loop (map Some vals @ r) value direction below_pos below_value
               middle_pos (vals ! middle_pos)
           else if vals ! middle_pos < value then
             value_search_loop (map Some vals @ r) value direction middle_pos (vals ! middle_pos)
               above_pos above_value
           else Inr (int middle_pos))"
      using True less.prems mid order loop by (simp add: middle_pos_def [symmetric] cell_simps Let_def)
    consider "vals ! middle_pos > value" | "vals ! middle_pos < value" | "vals ! middle_pos = value"
      by linarith
    then show ?thesis
    proof cases
      case 1
      have "middle_pos - below_pos < above_pos - below_pos" using mid by simp
      from less.hyps [OF this] 1 less.prems mid step show ?thesis by simp
    next
      case 2
      have "above_pos - middle_pos < above_pos - below_pos" using mid by simp
      from less.hyps [OF this] 2 less.prems mid step show ?thesis by simp
    next
      case 3
      with mid step show ?thesis by auto
    qed
  qed
qed

text \<open>The result of the search by the number \<open>p\<close> of bins below the value.\<close>

definition bin_result :: "int list \<Rightarrow> int \<Rightarrow> bin_direction \<Rightarrow> int res" where
  "bin_result vals value direction =
     (let p = bins_below vals value in
      if p < length vals \<and> vals ! p = value then Inr (int p)
      else if p = length vals then
        Inr (if direction = BIN_ABOVE then PTRDIFF_MAX else if vals = [] then PTRDIFF_MIN
             else int (p - 1))
      else if p = 0 then Inr (if direction = BIN_BELOW then PTRDIFF_MIN else 0)
      else pick_bin value direction (p - 1) (vals ! (p - 1)) p (vals ! p))"

lemma bin_by_value_result:
  assumes st: "stores d vals nums" and sorted: "sorted_wrt (<) vals"
  shows "distribution_bin_by_value d value direction = bin_result vals value direction"
proof (cases "vals = []")
  case True
  with st show ?thesis
    by (auto elim!: storesE simp: distribution_bin_by_value_def bin_result_def bins_below_def
        split: bin_direction.split)
next
  case False
  obtain vs cs where layout: "distribution_layout d = Inr (map Some vals @ vs, map Some nums @ cs)"
    and bins: "num_bins d = length vals" using st by (rule storesE)
  let ?last = "length vals - 1"
  have pos: "?last < length vals" "0 < length vals" using False by auto
  note start = distribution_bin_by_value_def layout bins Let_def cell_simps pos
  have below: "bins_below vals value = p"
    if "p \<le> length vals" "0 < p \<Longrightarrow> vals ! (p - 1) < value" "p < length vals \<Longrightarrow> value \<le> vals ! p" for p
    using sorted that by (rule bins_below_eqI)
  consider "value > vals ! ?last" | "value = vals ! ?last" | "value < vals ! ?last" "value < vals ! 0"
    | "value < vals ! ?last" "value = vals ! 0" | "value < vals ! ?last" "vals ! 0 < value"
    by linarith
  then show ?thesis
  proof cases
    case 1
    with below [of "length vals"] False show ?thesis
      by (simp add: start bin_result_def split: bin_direction.split)
  next
    case 2
    have "vals ! (?last - 1) < value" if "0 < ?last"
      using 2 that sorted by (auto simp: sorted_wrt_iff_nth_less)
    with 2 below [of ?last] False pos show ?thesis by (simp add: start bin_result_def)
  next
    case 3
    with below [of 0] False show ?thesis
      by (simp add: start bin_result_def split: bin_direction.split)
  next
    case 4
    with below [of 0] False show ?thesis by (simp add: start bin_result_def)
  next
    case 5
    then have "0 < ?last" by (metis gr0I less_asym)
    from value_search_loop_exact [OF sorted this pos(1) refl refl 5(2) 5(1), of vs direction] obtain p
      where "(p < length vals \<and> vals ! p = value \<and>
         distribution_bin_by_value d value direction = Inr (int p)) \<or>
       (p + 1 < length vals \<and> vals ! p < value \<and> value < vals ! (p + 1) \<and>
         distribution_bin_by_value d value direction
           = pick_bin value direction p (vals ! p) (p + 1) (vals ! (p + 1)))"
      using 5 False by (auto simp: start)
    then show ?thesis
    proof (elim disjE conjE)
      assume p: "p < length vals" "vals ! p = value"
        and res: "distribution_bin_by_value d value direction = Inr (int p)"
      then have "vals ! (p - 1) < value" if "0 < p"
        using that sorted by (auto simp: sorted_wrt_iff_nth_less)
      with p below [of p] have "bins_below vals value = p" by simp
      with p res show ?thesis by (simp add: bin_result_def)
    next
      assume p: "p + 1 < length vals" "vals ! p < value" "value < vals ! (p + 1)"
        and res: "distribution_bin_by_value d value direction
           = pick_bin value direction p (vals ! p) (p + 1) (vals ! (p + 1))"
      with below [of "p + 1"] show ?thesis by (simp add: bin_result_def)
    qed
  qed
qed

lemma bin_above_result:
  assumes "stores d vals nums" "sorted_wrt (<) vals"
  shows "distribution_bin_by_value d value BIN_ABOVE =
    Inr (if bins_below vals value < length vals then int (bins_below vals value) else PTRDIFF_MAX)"
proof -
  let ?p = "bins_below vals value"
  have "vals ! (?p - 1) < value" if "0 < ?p" "?p < length vals"
    using nth_less_iff_bins_below [OF assms(2), of "?p - 1" "value"] that by simp
  moreover have "value \<le> vals ! ?p" if "?p < length vals"
    using nth_less_iff_bins_below [OF assms(2) that, of "value"] by simp
  ultimately show ?thesis
    using bins_below_le [of vals "value"]
    by (auto simp: bin_by_value_result [OF assms] bin_result_def pick_bin_def Let_def)
qed

lemma bin_below_result:
  assumes "stores d vals nums" "sorted_wrt (<) vals"
  shows "distribution_bin_by_value d value BIN_BELOW =
    Inr (if value \<in> set vals then int (bins_below vals value)
         else if bins_below vals value = 0 then PTRDIFF_MIN else int (bins_below vals value - 1))"
proof -
  let ?p = "bins_below vals value"
  have lower: "vals ! (?p - 1) < value" if "0 < ?p" "?p < length vals"
    using nth_less_iff_bins_below [OF assms(2), of "?p - 1" "value"] that by simp
  have upper: "value \<le> vals ! ?p" if "?p < length vals"
    using nth_less_iff_bins_below [OF assms(2) that, of "value"] by simp
  note mem = mem_iff_bins_below [OF assms(2), of "value"]
  show ?thesis
    using bins_below_le [of vals "value"] lower upper
    by (auto simp: bin_by_value_result [OF assms] bin_result_def pick_bin_def Let_def mem bins_below_def)
qed

lemma bin_below_bounds:
  assumes st: "stores d vals nums" and sorted: "sorted_wrt (<) vals"
  shows "(\<exists>i<length vals. distribution_bin_by_value d value BIN_BELOW = Inr (int i) \<and>
       vals ! i \<le> value \<and> (\<forall>j<length vals. i < j \<longrightarrow> value < vals ! j)) \<or>
     (distribution_bin_by_value d value BIN_BELOW = Inr PTRDIFF_MIN \<and> (\<forall>x\<in>set vals. value < x))"
proof -
  let ?p = "bins_below vals value"
  have less: "vals ! i < value \<longleftrightarrow> i < ?p" if "i < length vals" for i
    using sorted that by (rule nth_less_iff_bins_below)
  note res = bin_below_result [OF st sorted, of "value"]
  show ?thesis
  proof (cases "value \<in> set vals")
    case True
    then have p: "?p < length vals" "vals ! ?p = value" using mem_iff_bins_below [OF sorted] by auto
    moreover have "value < vals ! j" if "?p < j" "j < length vals" for j
      using p(2) that sorted by (metis sorted_wrt_iff_nth_less)
    ultimately show ?thesis using True res by (intro disjI1 exI [of _ ?p]) simp
  next
    case False
    then have ne: "vals ! j \<noteq> value" if "j < length vals" for j using that by auto
    have upper: "value < vals ! j" if "?p \<le> j" "j < length vals" for j
      using less [OF that(2)] ne [OF that(2)] that by simp
    show ?thesis
    proof (cases "?p = 0")
      case True
      with False res upper show ?thesis by (auto simp: all_set_conv_all_nth)
    next
      case pos: False
      then have i: "?p - 1 < length vals" using bins_below_le [of vals "value"] by simp
      have "vals ! (?p - 1) < value" using less [OF i] pos by simp
      with False res pos upper i show ?thesis by (intro disjI1 exI [of _ "?p - 1"]) simp
    qed
  qed
qed

lemma bin_nearest_result:
  assumes st: "stores d vals nums" and sorted: "sorted_wrt (<) vals" and "vals \<noteq> []"
    and range: "last vals - hd vals \<le> INT64_MAX"
  shows "\<exists>i. distribution_bin_by_value d value BIN_NEAREST = Inr (int i) \<and> i < length vals \<and>
    (\<forall>x\<in>set vals. \<bar>vals ! i - value\<bar> \<le> \<bar>x - value\<bar>)"
proof -
  let ?p = "bins_below vals value"
  have mono: "vals ! i \<le> vals ! j" if "i \<le> j" "j < length vals" for i j
    using sorted that by (cases "i = j") (auto simp: sorted_wrt_iff_nth_less less_imp_le)
  have less: "vals ! i < value \<longleftrightarrow> i < ?p" if "i < length vals" for i
    using sorted that by (rule nth_less_iff_bins_below)
  have nearest: "\<forall>x\<in>set vals. \<bar>vals ! i - value\<bar> \<le> \<bar>x - value\<bar>"
    if "i < length vals" "\<And>j. j < length vals \<Longrightarrow> \<bar>vals ! i - value\<bar> \<le> \<bar>vals ! j - value\<bar>" for i
    using that by (auto simp: in_set_conv_nth)
  note res = bin_by_value_result [OF st sorted, of "value" BIN_NEAREST] bin_result_def Let_def
  consider "?p < length vals" "vals ! ?p = value" | "?p = length vals" | "?p = 0" "?p < length vals" "vals ! ?p \<noteq> value"
    | "0 < ?p" "?p < length vals" "vals ! ?p \<noteq> value"
    using bins_below_le [of vals "value"] by linarith
  then show ?thesis
  proof cases
    case 1
    then show ?thesis by (intro exI [of _ ?p]) (auto simp: res)
  next
    case 2
    then have i: "length vals - 1 < length vals" using assms(3) by simp
    have "\<bar>vals ! (length vals - 1) - value\<bar> \<le> \<bar>vals ! j - value\<bar>" if "j < length vals" for j
    proof -
      have "vals ! j \<le> vals ! (length vals - 1)" using that i by (intro mono) auto
      moreover have "vals ! (length vals - 1) < value" using less [OF i] 2 i by simp
      ultimately show ?thesis by simp
    qed
    with nearest [OF i] 2 i show ?thesis using assms(3)
      by (intro exI [of _ "length vals - 1"]) (auto simp: res)
  next
    case 3
    then have i: "0 < length vals" by simp
    have "\<bar>vals ! 0 - value\<bar> \<le> \<bar>vals ! j - value\<bar>" if "j < length vals" for j
      using mono [of 0 j] less [OF i] that 3 by auto
    with nearest [OF i] 3 i show ?thesis by (intro exI [of _ 0]) (auto simp: res)
  next
    case 4
    let ?b = "vals ! (?p - 1)" and ?a = "vals ! ?p"
    have between: "?b < value" "value < ?a" using less [of "?p - 1"] less [of ?p] 4 by auto
    have ends: "hd vals \<le> ?b" "?a \<le> last vals"
      using 4 assms(3) by (auto simp: hd_conv_nth last_conv_nth intro!: mono)
    have fits: "int64 (value - ?b) = Inr (value - ?b)" "int64 (?a - value) = Inr (?a - value)"
      using ends between range by (auto simp: int64_def INT64_MIN_def)
    define i where "i = (if value - ?b \<le> ?a - value then ?p - 1 else ?p)"
    have i: "i < length vals" using 4 by (auto simp: i_def)
    have "\<bar>vals ! i - value\<bar> \<le> \<bar>vals ! j - value\<bar>" if "j < length vals" for j
    proof -
      have "vals ! j \<le> ?b \<or> ?a \<le> vals ! j"
        using mono [of j "?p - 1"] mono [of ?p j] that 4 by (cases "j < ?p") auto
      with between show ?thesis by (auto simp: i_def)
    qed
    with nearest [OF i] have "\<forall>x\<in>set vals. \<bar>vals ! i - value\<bar> \<le> \<bar>x - value\<bar>" by blast
    moreover have "distribution_bin_by_value d value BIN_NEAREST = Inr (int i)"
      using 4 between fits by (simp add: res pick_bin_def i_def)
    ultimately show ?thesis using i by blast
  qed
qed

section \<open>Insertion of a bin\<close>

lemma shift_bins_loop_exact:
  assumes "length xs = length cs" "dst = length pre" "length cpre = length pre"
  shows "shift_bins_loop (length xs) dst v c (map Some (pre @ xs) @ r, map Some (cpre @ cs) @ s) =
    Inr (last (v # xs), last (c # cs),
         map Some (pre @ butlast (v # xs)) @ r, map Some (cpre @ butlast (c # cs)) @ s)"
  using assms
proof (induction xs cs arbitrary: dst pre cpre v c rule: list_induct2)
  case Nil
  then show ?case by simp
next
  case (Cons x xs y ys)
  have read: "read_cell (map Some (pre @ x # xs) @ r) dst = Inr x"
    "read_cell (map Some (cpre @ y # ys) @ s) dst = Inr y"
    using Cons by (auto simp: read_cell_def nth_append)
  have "write_cell (map Some (pre @ x # xs) @ r) dst v = Inr (map Some ((pre @ [v]) @ xs) @ r)"
    "write_cell (map Some (cpre @ y # ys) @ s) dst c = Inr (map Some ((cpre @ [c]) @ ys) @ s)"
    using Cons by (auto simp: write_cell_def list_update_append)
  with read Cons.IH [of "Suc dst" "pre @ [v]" "cpre @ [c]" x y] Cons.prems Cons.hyps show ?case
    by (simp del: map_append append_assoc)
qed

lemma copy_bins_loop_exact:
  assumes "src + todo \<le> length vals" "length nums = length vals"
    and "length pre = src + offset" "length cpre = src + offset" "length r = length s" "todo \<le> length r"
  shows "copy_bins_loop todo src offset (map Some vals @ vs, map Some nums @ cs)
      (map Some pre @ r, map Some cpre @ s) =
    Inr (map Some (pre @ take todo (drop src vals)) @ drop todo r,
         map Some (cpre @ take todo (drop src nums)) @ drop todo s)"
  using assms
proof (induction todo arbitrary: src pre cpre r s)
  case (Suc todo)
  obtain x r' where r: "r = x # r'" using Suc.prems by (cases r) auto
  obtain y s' where s: "s = y # s'" using Suc.prems by (cases s) auto
  have drops: "drop src vals = vals ! src # drop (Suc src) vals"
    "drop src nums = nums ! src # drop (Suc src) nums"
    using Suc.prems by (auto simp: Cons_nth_drop_Suc)
  have "copy_bins_loop (Suc todo) src offset (map Some vals @ vs, map Some nums @ cs)
      (map Some pre @ r, map Some cpre @ s) =
    copy_bins_loop todo (Suc src) offset (map Some vals @ vs, map Some nums @ cs)
      (map Some (pre @ [vals ! src]) @ r', map Some (cpre @ [nums ! src]) @ s')"
    using Suc.prems r s by (simp add: cell_simps del: map_append)
  also have "\<dots> = Inr (map Some ((pre @ [vals ! src]) @ take todo (drop (Suc src) vals)) @ drop todo r',
      map Some ((cpre @ [nums ! src]) @ take todo (drop (Suc src) nums)) @ drop todo s')"
    using Suc.prems r s by (intro Suc.IH) auto
  finally show ?case by (simp add: drops r s)
qed simp

lemma write_cell_last:
  assumes "ys \<noteq> []" "r \<noteq> []" "n = length pre + (length ys - 1)"
  shows "write_cell (map Some (pre @ butlast ys) @ r) n (last ys) = Inr (map Some (pre @ ys) @ tl r)"
proof -
  have "write_cell (map Some (pre @ butlast ys) @ r) n (last ys)
      = Inr (map Some ((pre @ butlast ys) @ [last ys]) @ tl r)"
    using assms by (intro write_cell_next) simp_all
  then show ?thesis using assms(1) by (simp del: map_append)
qed

text \<open>Insertion of an element at a position.\<close>

definition insert_at :: "nat \<Rightarrow> 'a \<Rightarrow> 'a list \<Rightarrow> 'a list" where
  "insert_at p x xs = take p xs @ x # drop p xs"

lemma length_insert_at [simp]: "p \<le> length xs \<Longrightarrow> length (insert_at p x xs) = Suc (length xs)"
  by (simp add: insert_at_def)

lemma storesI:
  assumes "allocation d = Some (map Some vals @ vs, map Some nums @ cs)" "length nums = length vals"
    "num_bins d = length vals" "length vals + length vs = capacity d" "length cs = length vs"
    "0 < capacity d" "capacity d * DISTRIBUTION_BIN_SIZE < 2 ^ 64"
  shows "stores d vals nums"
  using assms by (auto simp: stores_def)

lemma create_bin_in_place_stores:
  assumes st: "stores d vals nums" and room: "num_bins d < capacity d" and p: "p \<le> length vals"
    and l: "distribution_layout d = Inr l"
  shows "\<exists>d'. create_bin_in_place d l p value copies = Inr d' \<and>
    stores d' (insert_at p value vals) (insert_at p copies nums)"
proof -
  obtain vs cs where d: "allocation d = Some (map Some vals @ vs, map Some nums @ cs)"
    "distribution_layout d = Inr (map Some vals @ vs, map Some nums @ cs)"
    "length vals + length vs = capacity d" "length cs = length vs" "length nums = length vals"
    "num_bins d = length vals" "0 < capacity d" "capacity d * DISTRIBUTION_BIN_SIZE < 2 ^ 64"
    using st by (rule storesE)
  have l': "l = (map Some vals @ vs, map Some nums @ cs)" using d(2) l by simp
  have rest: "vs \<noteq> []" "cs \<noteq> []" using d room by auto
  have "create_bin_in_place d l p value copies =
    Inr (d\<lparr>allocation := Some (map Some (insert_at p value vals) @ tl vs,
             map Some (insert_at p copies nums) @ tl cs), num_bins := num_bins d + 1\<rparr>)"
  proof (cases "p = length vals")
    case True
    then show ?thesis using d rest l'
      by (simp add: create_bin_in_place_def cell_simps insert_at_def del: map_append)
  next
    case False
    with p have lt: "p < length vals" "p < length nums" using d by auto
    let ?x = "vals ! p" and ?xs = "drop (Suc p) vals" and ?n = "nums ! p" and ?ns = "drop (Suc p) nums"
    have vals: "drop p vals = ?x # ?xs" and nums: "drop p nums = ?n # ?ns"
      using lt by (simp_all add: Cons_nth_drop_Suc)
    have ins: "insert_at p value vals = (take p vals @ [value]) @ ?x # ?xs"
      "insert_at p copies nums = (take p nums @ [copies]) @ ?n # ?ns"
      by (simp_all add: insert_at_def vals nums)
    have upd: "vals[p := value] = (take p vals @ [value]) @ ?xs"
      "nums[p := copies] = (take p nums @ [copies]) @ ?ns"
      using lt by (simp_all add: upd_conv_take_nth_drop)
    have "shift_bins_loop (length ?xs) (p + 1) ?x ?n
        (map Some ((take p vals @ [value]) @ ?xs) @ vs, map Some ((take p nums @ [copies]) @ ?ns) @ cs) =
      Inr (last (?x # ?xs), last (?n # ?ns),
        map Some ((take p vals @ [value]) @ butlast (?x # ?xs)) @ vs,
        map Some ((take p nums @ [copies]) @ butlast (?n # ?ns)) @ cs)"
      using lt d by (intro shift_bins_loop_exact) auto
    then have shift: "shift_bins_loop (length vals - (p + 1)) (p + 1) ?x ?n
        (map Some (vals[p := value]) @ vs, map Some (nums[p := copies]) @ cs) =
      Inr (last (?x # ?xs), last (?n # ?ns),
        map Some ((take p vals @ [value]) @ butlast (?x # ?xs)) @ vs,
        map Some ((take p nums @ [copies]) @ butlast (?n # ?ns)) @ cs)"
      unfolding upd by simp
    have ends: "write_cell (map Some ((take p vals @ [value]) @ butlast (?x # ?xs)) @ vs) (length vals)
        (last (?x # ?xs)) = Inr (map Some (insert_at p value vals) @ tl vs)"
      "write_cell (map Some ((take p nums @ [copies]) @ butlast (?n # ?ns)) @ cs) (length vals)
        (last (?n # ?ns)) = Inr (map Some (insert_at p copies nums) @ tl cs)"
      unfolding ins using lt d(5) rest by (intro write_cell_last; simp)+
    show ?thesis using lt False shift ends unfolding create_bin_in_place_def l' d(6)
      by (simp add: cell_simps del: map_append append_assoc last.simps butlast.simps)
  qed
  moreover have "stores (d\<lparr>allocation := Some (map Some (insert_at p value vals) @ tl vs,
             map Some (insert_at p copies nums) @ tl cs), num_bins := num_bins d + 1\<rparr>)
      (insert_at p value vals) (insert_at p copies nums)"
    using d rest p by (cases vs; cases cs) (auto intro!: storesI [where vs = "tl vs" and cs = "tl cs"])
  ultimately show ?thesis by blast
qed

lemma distribution_allocate_ok:
  assumes "0 < cap" "cap * DISTRIBUTION_BIN_SIZE < 2 ^ 64" "malloc_ok env (cap * DISTRIBUTION_BIN_SIZE)"
  shows "distribution_allocate env cap = Inr \<lparr>allocation = Some (replicate cap None, replicate cap None),
    num_bins = 0, capacity = cap\<rparr>"
  using assms by (simp add: distribution_allocate_def)

lemma create_bin_realloc_stores:
  assumes st: "stores d vals nums" and full: "num_bins d = capacity d" and p: "p \<le> length vals"
    and l: "distribution_layout d = Inr l"
    and size: "2 * capacity d * DISTRIBUTION_BIN_SIZE < 2 ^ 64"
    and malloc: "malloc_ok env (2 * capacity d * DISTRIBUTION_BIN_SIZE)"
  shows "\<exists>d'. create_bin_realloc env d l p value copies = Inr d' \<and>
    stores d' (insert_at p value vals) (insert_at p copies nums)"
proof -
  obtain vs cs where d: "distribution_layout d = Inr (map Some vals @ vs, map Some nums @ cs)"
    "length vals + length vs = capacity d" "length cs = length vs" "length nums = length vals"
    "num_bins d = length vals" "0 < capacity d"
    using st by (rule storesE)
  have l': "l = (map Some vals @ vs, map Some nums @ cs)" using d(1) l by simp
  have cap: "capacity d = length vals" using full d by simp
  let ?n = "length vals" and ?fresh = "\<lambda>k. replicate k None"
  have pos: "0 < ?n" using d cap by simp
  then have less: "p < 2 * ?n" using p by linarith
  have new: "distribution_allocate env (2 * capacity d) = Inr \<lparr>allocation =
      Some (map Some [] @ ?fresh (2 * ?n), map Some [] @ ?fresh (2 * ?n)), num_bins = 0, capacity = 2 * ?n\<rparr>"
    using size malloc pos cap by (simp add: distribution_allocate_ok)
  have first: "copy_bins_loop p 0 0 l (map Some [] @ ?fresh (2 * ?n), map Some [] @ ?fresh (2 * ?n)) =
      Inr (map Some (take p vals) @ ?fresh (2 * ?n - p), map Some (take p nums) @ ?fresh (2 * ?n - p))"
    unfolding l' using p d by (subst copy_bins_loop_exact) auto
  have writes: "write_cell (map Some (take p vals) @ ?fresh (2 * ?n - p)) p value =
      Inr (map Some (take p vals @ [value]) @ ?fresh (2 * ?n - p - 1))"
    "write_cell (map Some (take p nums) @ ?fresh (2 * ?n - p)) p copies =
      Inr (map Some (take p nums @ [copies]) @ ?fresh (2 * ?n - p - 1))"
    using p d less by (subst write_cell_next; simp)+
  have second: "copy_bins_loop (?n - p) p 1 l (map Some (take p vals @ [value]) @ ?fresh (2 * ?n - p - 1),
        map Some (take p nums @ [copies]) @ ?fresh (2 * ?n - p - 1)) =
      Inr (map Some (insert_at p value vals) @ ?fresh (?n - 1),
        map Some (insert_at p copies nums) @ ?fresh (?n - 1))"
    unfolding l' using p d pos by (subst copy_bins_loop_exact) (auto simp: insert_at_def)
  let ?d' = "\<lparr>allocation = Some (map Some (insert_at p value vals) @ ?fresh (?n - 1),
        map Some (insert_at p copies nums) @ ?fresh (?n - 1)), num_bins = ?n + 1, capacity = 2 * ?n\<rparr>"
  have "create_bin_realloc env d l p value copies = Inr ?d'"
    unfolding create_bin_realloc_def new using full first writes second d(5)
    by (simp add: distribution_layout_def del: map_append)
  moreover have "stores ?d' (insert_at p value vals) (insert_at p copies nums)"
    using p d pos size cap
    by (intro storesI [where vs = "?fresh (?n - 1)" and cs = "?fresh (?n - 1)"]) auto
  ultimately show ?thesis by blast
qed

lemma create_bin_stores:
  assumes st: "stores (inner b) vals nums" and sorted: "sorted_wrt (<) vals"
    and p: "p = bins_below vals value" and new: "value \<notin> set vals" and copies: "0 < copies"
    and size: "2 * length vals * DISTRIBUTION_BIN_SIZE < 2 ^ 64" and malloc: "\<And>n. malloc_ok env n"
  shows "\<exists>b'. distribution_create_bin env b p value copies = Inr b' \<and>
    stores (inner b') (insert_at p value vals) (insert_at p copies nums)"
proof -
  obtain vs cs where d: "distribution_layout (inner b) = Inr (map Some vals @ vs, map Some nums @ cs)"
    "length vals + length vs = capacity (inner b)" "num_bins (inner b) = length vals"
    using st by (rule storesE)
  have p': "p \<le> length vals" using p bins_below_le by simp
  have lower: "vals ! (p - 1) < value" if "0 < p"
    using nth_less_iff_bins_below [OF sorted, of "p - 1" "value"] p p' that by simp
  have upper: "value < vals ! p" if "p < length vals"
  proof -
    have "\<not> vals ! p < value" using nth_less_iff_bins_below [OF sorted that, of "value"] p by simp
    moreover have "vals ! p \<noteq> value" using new that by auto
    ultimately show ?thesis by simp
  qed
  have "\<exists>d'. (if num_bins (inner b) < capacity (inner b)
      then create_bin_in_place (inner b) (map Some vals @ vs, map Some nums @ cs) p value copies
      else create_bin_realloc env (inner b) (map Some vals @ vs, map Some nums @ cs) p value copies)
        = Inr d' \<and> stores d' (insert_at p value vals) (insert_at p copies nums)"
  proof (cases "num_bins (inner b) < capacity (inner b)")
    case True
    then show ?thesis using create_bin_in_place_stores [OF st _ p' d(1)] by simp
  next
    case False
    then have full: "num_bins (inner b) = capacity (inner b)" "capacity (inner b) = length vals"
      using d by auto
    show ?thesis
      using create_bin_realloc_stores [OF st full(1) p' d(1) _ malloc] size False full(2) by simp
  qed
  then show ?thesis using lower upper copies p' d
    by (auto simp: distribution_create_bin_def cell_simps Let_def)
qed

section \<open>Insertion refines the insertion into a multiset\<close>

text \<open>What insertion needs from the outside: memory, and a harmless read in front of the allocation.\<close>

definition benign :: "heap_env \<Rightarrow> bool" where
  "benign env \<longleftrightarrow> (\<forall>n. malloc_ok env n) \<and> (\<exists>v. word_before env = Inr v)"

lemma sorted_insert_at:
  assumes "sorted_wrt (<) vals" "value \<notin> set vals" "p = bins_below vals value"
  shows "sorted_wrt (<) (insert_at p value vals)"
proof -
  have p: "p \<le> length vals" using assms(3) bins_below_le by simp
  have "x < value" if "x \<in> set (take p vals)" for x
    using that nth_less_iff_bins_below [OF assms(1), of _ "value"] assms(3) p
    by (auto simp: in_set_conv_nth)
  moreover have "value < x" if x: "x \<in> set (drop p vals)" for x
  proof -
    obtain i where i: "p + i < length vals" "vals ! (p + i) = x"
      using x p by (auto simp: in_set_conv_nth less_diff_conv add.commute)
    then have "\<not> x < value"
      using nth_less_iff_bins_below [OF assms(1), of "p + i" "value"] assms(3) by simp
    moreover have "x \<noteq> value" using assms(2) i by auto
    ultimately show ?thesis by simp
  qed
  moreover have "sorted_wrt (<) (take p vals @ drop p vals)" using assms(1) by simp
  ultimately show ?thesis by (auto simp: insert_at_def sorted_wrt_append simp del: append_take_drop_id)
qed

lemma well_binned_insert_at:
  assumes "well_binned vals nums" "value \<notin> set vals" "p = bins_below vals value" "0 < c"
  shows "well_binned (insert_at p value vals) (insert_at p c nums)"
  using assms sorted_insert_at [of vals "value" p] bins_below_le [of vals "value"]
  by (auto simp: well_binned_def insert_at_def dest: in_set_takeD in_set_dropD)

lemma mset_contents_insert_at:
  assumes "length nums = length vals"
  shows "mset (contents (insert_at p v vals) (insert_at p c nums))
    = mset (contents vals nums) + replicate_mset c v"
proof -
  have "contents vals nums = contents (take p vals) (take p nums) @ contents (drop p vals) (drop p nums)"
    using contents_append [of "take p nums" "take p vals" "drop p vals" "drop p nums"] assms by simp
  moreover have "contents (insert_at p v vals) (insert_at p c nums)
      = contents (take p vals) (take p nums) @ replicate c v @ contents (drop p vals) (drop p nums)"
    using assms by (simp add: insert_at_def contents_append)
  ultimately show ?thesis by simp
qed

lemma mset_contents_update:
  assumes "length nums = length vals" "i < length vals"
  shows "mset (contents vals (nums[i := nums ! i + c]))
    = mset (contents vals nums) + replicate_mset c (vals ! i)"
  using assms
proof (induction vals arbitrary: nums i)
  case (Cons v vals)
  then obtain n ns where "nums = n # ns" by (cases nums) auto
  with Cons show ?case by (cases i) (auto simp: replicate_add)
qed simp

lemma insert_copies_holds:
  assumes env: "\<And>n. malloc_ok env n" "m = {#} \<Longrightarrow> \<exists>v. word_before env = Inr v"
    and b: "builder_holds b m" and c: "0 < c" and room: "size m + c < 2 ^ 59"
  shows "\<exists>b'. distribution_insert_copies env b value c = Inr b' \<and>
    builder_holds b' (m + replicate_mset c value)"
proof -
  obtain vals nums where st: "stores (inner b) vals nums" and wb: "well_binned vals nums"
    and m: "m = mset (contents vals nums)" using b by (auto simp: builder_holds_def)
  have sorted: "sorted_wrt (<) vals" and len: "length nums = length vals"
    using wb by (auto simp: well_binned_def)
  obtain vs cs where d: "distribution_layout (inner b) = Inr (map Some vals @ vs, map Some nums @ cs)"
    "allocation (inner b) = Some (map Some vals @ vs, map Some nums @ cs)"
    "length vals + length vs = capacity (inner b)" "length cs = length vs"
    "num_bins (inner b) = length vals" "0 < capacity (inner b)"
    "capacity (inner b) * DISTRIBUTION_BIN_SIZE < 2 ^ 64"
    using st by (rule storesE) 
  let ?p = "bins_below vals value"
  have sizes: "size m = sum_list nums" "length vals \<le> size m"
    using m well_binned_length [OF wb] length_contents [OF len] by simp_all
  have small: "2 * length vals * DISTRIBUTION_BIN_SIZE < 2 ^ 64"
    using sizes(2) room by (simp add: DISTRIBUTION_BIN_SIZE_def)
  have ptr: "int ?p \<noteq> PTRDIFF_MAX"
    using sizes(2) room bins_below_le [of vals "value"] by (simp add: PTRDIFF_MAX_def)
  have last: "\<exists>v. read_last_value env (map Some vals @ vs) (length vals) = Inr v"
    using env(2) m by (cases "vals = []") (auto simp: read_last_value_def cell_simps)
  have above: "distribution_bin_by_value (inner b) value BIN_ABOVE =
      Inr (if ?p < length vals then int ?p else PTRDIFF_MAX)"
    using bin_above_result [OF st sorted] .
  have new: "\<exists>b'. distribution_create_bin env b ?p value c = Inr b' \<and>
      builder_holds b' (m + replicate_mset c value)" if fresh: "value \<notin> set vals"
  proof -
    obtain b' where "distribution_create_bin env b ?p value c = Inr b'"
      "stores (inner b') (insert_at ?p value vals) (insert_at ?p c nums)"
      using create_bin_stores [OF st sorted refl fresh c small env(1)] by blast
    then show ?thesis
      using well_binned_insert_at [OF wb fresh refl c] mset_contents_insert_at [OF len] m
      by (metis builder_holds_def)
  qed
  consider "?p < length vals" "vals ! ?p = value" | "?p < length vals" "value \<notin> set vals"
    | "?p = length vals" "value \<notin> set vals"
    using mem_iff_bins_below [OF sorted, of "value"] bins_below_le [of vals "value"] by fastforce
  then show ?thesis
  proof cases
    case 1
    let ?n = "nums ! ?p"
    have "?n \<le> SIZE_MAX - c"
      using member_le_sum_list [of ?n nums] sizes(1) room 1 len by (simp add: SIZE_MAX_def)
    then have res: "distribution_insert_copies env b value c = Inr (b\<lparr>inner := (inner b)
        \<lparr>allocation := Some (map Some vals @ vs, map Some (nums[?p := ?n + c]) @ cs)\<rparr>\<rparr>)"
      using 1 above d ptr len by (simp add: distribution_insert_copies_def Let_def cell_simps)
    have "well_binned vals (nums[?p := ?n + c])"
      using wb c by (auto simp: well_binned_def dest!: set_update_subset_insert [THEN subsetD])
    moreover have "stores ((inner b)
        \<lparr>allocation := Some (map Some vals @ vs, map Some (nums[?p := ?n + c]) @ cs)\<rparr>)
        vals (nums[?p := ?n + c])"
      using d len by (intro storesI [where vs = vs and cs = cs]) auto
    ultimately show ?thesis
      using res mset_contents_update [OF len 1(1), of c] 1 m
      by (auto simp: builder_holds_def intro!: exI [of _ vals] exI [of _ "nums[?p := ?n + c]"])
  next
    case 2
    then have "vals ! ?p \<noteq> value" by (metis nth_mem)
    with 2 above d ptr new show ?thesis
      by (auto simp: distribution_insert_copies_def Let_def cell_simps)
  next
    case 3
    with above d last new show ?thesis
      by (auto simp: distribution_insert_copies_def Let_def)
  qed
qed

section \<open>Building computes the end ranks\<close>

fun sums :: "nat \<Rightarrow> nat list \<Rightarrow> nat list" where
  "sums k [] = []"
| "sums k (n # ns) = (k + n) # sums (k + n) ns"

lemma length_sums [simp]: "length (sums k nums) = length nums"
  by (induction nums arbitrary: k) auto

lemma sums_nth: "i < length nums \<Longrightarrow> sums k nums ! i = k + sum_list (take (Suc i) nums)"
  by (induction nums arbitrary: k i) (auto simp: nth_Cons split: nat.split)

text \<open>Abstraction of a built distribution: the multiset of its samples.\<close>

definition dist_bins :: "distribution \<Rightarrow> int list \<Rightarrow> nat list \<Rightarrow> bool" where
  "dist_bins d vals nums \<longleftrightarrow> stores d vals (sums 0 nums) \<and> well_binned vals nums \<and> vals \<noteq> [] \<and>
     sum_list nums < 2 ^ 59"

definition dist_holds :: "distribution \<Rightarrow> int multiset \<Rightarrow> bool" where
  "dist_holds d m \<longleftrightarrow> (\<exists>vals nums. dist_bins d vals nums \<and> m = mset (contents vals nums))"

lemma end_ranks_loop_exact:
  assumes "bin = length pre" "k + sum_list nums < 2 ^ 64"
  shows "end_ranks_loop (length nums) bin k (map Some (pre @ nums) @ r)
    = Inr (map Some (pre @ sums k nums) @ r)"
  using assms
proof (induction nums arbitrary: bin pre k)
  case (Cons n ns)
  have "end_ranks_loop (length (n # ns)) bin k (map Some (pre @ n # ns) @ r)
      = end_ranks_loop (length ns) (Suc bin) (k + n) (map Some ((pre @ [k + n]) @ ns) @ r)"
    using Cons.prems
    by (simp add: cell_simps list_update_append size_wrap_def Let_def nth_append del: map_append)
  also have "\<dots> = Inr (map Some ((pre @ [k + n]) @ sums (k + n) ns) @ r)"
    using Cons.prems by (intro Cons.IH) auto
  finally show ?case by simp
qed simp

lemma build_bins:
  assumes "stores (inner b) vals nums" "well_binned vals nums" "vals \<noteq> []" "sum_list nums < 2 ^ 59"
  shows "\<exists>d. distribution_build b = Inr (d, b\<lparr>inner := distribution_poison\<rparr>) \<and> dist_bins d vals nums"
proof -
  obtain vs cs where d: "distribution_layout (inner b) = Inr (map Some vals @ vs, map Some nums @ cs)"
    "length vals + length vs = capacity (inner b)" "length cs = length vs" "length nums = length vals"
    "num_bins (inner b) = length vals" "0 < capacity (inner b)"
    "capacity (inner b) * DISTRIBUTION_BIN_SIZE < 2 ^ 64"
    using assms(1) by (rule storesE)
  have ranks: "end_ranks_loop (length vals) 0 0 (map Some nums @ cs) = Inr (map Some (sums 0 nums) @ cs)"
    using end_ranks_loop_exact [of 0 "[]" 0 nums cs] assms(4) d(4) by simp
  let ?d = "(inner b)\<lparr>allocation := Some (map Some vals @ vs, map Some (sums 0 nums) @ cs)\<rparr>"
  have "distribution_build b = Inr (?d, b\<lparr>inner := distribution_poison\<rparr>)"
    using d ranks assms(3) by (simp add: distribution_build_def distribution_empty_def Let_def)
  moreover have "stores ?d vals (sums 0 nums)"
    using d by (intro storesI [where vs = vs and cs = cs]) auto
  ultimately show ?thesis using assms by (auto simp: dist_bins_def)
qed

lemma builder_holds_empty_iff: "builder_holds b m \<Longrightarrow> distribution_empty b \<longleftrightarrow> m = {#}"
  by (auto simp: builder_holds_def distribution_empty_def stores_def
      dest: well_binned_length simp flip: length_0_conv)

lemma build_holds:
  assumes "builder_holds b m" "m \<noteq> {#}" "size m < 2 ^ 59"
  shows "\<exists>d. distribution_build b = Inr (d, b\<lparr>inner := distribution_poison\<rparr>) \<and> dist_holds d m"
proof -
  obtain vals nums where st: "stores (inner b) vals nums" and wb: "well_binned vals nums"
    and m: "m = mset (contents vals nums)" using assms(1) by (auto simp: builder_holds_def)
  have "vals \<noteq> []" using m assms(2) by auto
  moreover have "sum_list nums < 2 ^ 59"
    using assms(3) m wb by (simp add: length_contents well_binned_def)
  ultimately show ?thesis using build_bins [OF st wb] m by (auto simp: dist_holds_def)
qed

lemma fresh_builder_holds:
  assumes "stores (inner b) [] []" shows "builder_holds b {#}"
  using assms by (auto simp: builder_holds_def well_binned_def intro!: exI [of _ "[]"])

lemma initialize_holds:
  assumes "16 \<le> psize" "psize < 2 ^ 64" "\<And>n. malloc_ok env n"
  shows "\<exists>b. distribution_initialize env psize = Inr b \<and> builder_holds b {#}"
proof -
  let ?cap = "psize div DISTRIBUTION_BIN_SIZE"
  have cap: "0 < ?cap" "?cap * DISTRIBUTION_BIN_SIZE < 2 ^ 64"
    using assms(1,2) div_times_less_eq_dividend [of psize DISTRIBUTION_BIN_SIZE]
    by (simp_all add: DISTRIBUTION_BIN_SIZE_def div_greater_zero_iff)
  have "stores \<lparr>allocation = Some (replicate ?cap None, replicate ?cap None), num_bins = 0,
      capacity = ?cap\<rparr> [] []"
    using cap by (intro storesI [where vs = "replicate ?cap None" and cs = "replicate ?cap None"]) auto
  with cap assms(3) show ?thesis
    by (auto simp: distribution_initialize_def distribution_allocate_ok intro!: fresh_builder_holds)
qed

section \<open>Sequences of insertions\<close>

fun insert_seq :: "('b \<Rightarrow> 'a \<Rightarrow> 'b res) \<Rightarrow> 'a list \<Rightarrow> 'b \<Rightarrow> 'b res" where
  "insert_seq ins [] b = Inr b"
| "insert_seq ins (x # xs) b = bindR (ins b x) (\<lambda>b'. insert_seq ins xs b')"

lemma insert_seq_append:
  "insert_seq ins (xs @ ys) b = bindR (insert_seq ins xs b) (insert_seq ins ys)"
  by (induction xs arbitrary: b) (auto simp: bindR_def split: sum.split)

text \<open>What the users of a builder rely on: \<open>holds b m\<close> is the abstraction, and an insertion below
  the limit adds one element.\<close>

locale sample_builder =
  fixes holds :: "'b \<Rightarrow> 'a multiset \<Rightarrow> bool"
    and ins :: "'b \<Rightarrow> 'a \<Rightarrow> 'b res"
    and limit :: nat
  assumes insert_one:
    "holds b m \<Longrightarrow> size m + 1 < limit \<Longrightarrow> \<exists>b'. ins b x = Inr b' \<and> holds b' (add_mset x m)"
begin

lemma insert_many:
  "holds b m \<Longrightarrow> size m + length xs < limit \<Longrightarrow>
   \<exists>b'. insert_seq ins xs b = Inr b' \<and> holds b' (m + mset xs)"
proof (induction xs arbitrary: b m)
  case (Cons x xs)
  then obtain b' where b': "ins b x = Inr b'" "holds b' (add_mset x m)"
    using insert_one [of b m x] by auto
  then show ?case using Cons.IH [OF b'(2)] Cons.prems by (auto simp: b')
qed simp

lemma collect:
  assumes "holds b {#}" "length xs < limit"
  shows "\<exists>b'. insert_seq ins xs b = Inr b' \<and> holds b' (mset xs)"
  using insert_many [of b "{#}" xs] assms by simp

end

interpretation samples: sample_builder "\<lambda>b m. benign env \<and> builder_holds b m" "distribution_insert env"
  "2 ^ 59" for env
proof
  fix b m x
  assume "benign env \<and> builder_holds b m" "size m + 1 < 2 ^ 59"
  then show "\<exists>b'. distribution_insert env b x = Inr b' \<and> benign env \<and> builder_holds b' (add_mset x m)"
    using insert_copies_holds [of env m b 1 x] by (auto simp: benign_def distribution_insert_def)
qed

section \<open>Properties\<close>

text \<open>C24. Searching a histogram for a value finds, upwards, the first bin that is not below the
  value, downwards the last bin that is not above it, and in either direction reports with the
  sentinel that there is none; the nearest bin has no other bin closer to the value, provided the
  range of the histogram fits \<open>int64_t\<close>.\<close>

theorem distribution_search_exact:
  assumes st: "stores d vals nums" and sorted: "sorted_wrt (<) vals"
  shows "((\<exists>i<length vals. distribution_bin_by_value d value BIN_ABOVE = Inr (int i) \<and>
             value \<le> vals ! i \<and> (\<forall>j<i. vals ! j < value)) \<or>
          (distribution_bin_by_value d value BIN_ABOVE = Inr PTRDIFF_MAX \<and> (\<forall>x\<in>set vals. x < value))) \<and>
    ((\<exists>i<length vals. distribution_bin_by_value d value BIN_BELOW = Inr (int i) \<and>
             vals ! i \<le> value \<and> (\<forall>j<length vals. i < j \<longrightarrow> value < vals ! j)) \<or>
     (distribution_bin_by_value d value BIN_BELOW = Inr PTRDIFF_MIN \<and> (\<forall>x\<in>set vals. value < x))) \<and>
    (vals \<noteq> [] \<and> last vals - hd vals \<le> INT64_MAX \<longrightarrow>
     (\<exists>i<length vals. distribution_bin_by_value d value BIN_NEAREST = Inr (int i) \<and>
        (\<forall>x\<in>set vals. \<bar>vals ! i - value\<bar> \<le> \<bar>x - value\<bar>)))"
proof (intro conjI)
  let ?p = "bins_below vals value"
  have less: "vals ! i < value \<longleftrightarrow> i < ?p" if "i < length vals" for i
    using sorted that by (rule nth_less_iff_bins_below)
  have all: "(\<forall>x\<in>set vals. Q x) \<longleftrightarrow> (\<forall>i<length vals. Q (vals ! i))" for Q
    by (simp add: all_set_conv_all_nth)
  show "(\<exists>i<length vals. distribution_bin_by_value d value BIN_ABOVE = Inr (int i) \<and>
             value \<le> vals ! i \<and> (\<forall>j<i. vals ! j < value)) \<or>
          (distribution_bin_by_value d value BIN_ABOVE = Inr PTRDIFF_MAX \<and> (\<forall>x\<in>set vals. x < value))"
  proof (cases "?p < length vals")
    case True
    have "value \<le> vals ! ?p" using less [OF True] by simp
    with True less show ?thesis
      by (intro disjI1 exI [of _ ?p]) (simp add: bin_above_result [OF st sorted])
  next
    case False
    with less show ?thesis by (simp add: bin_above_result [OF st sorted] all)
  qed
  show "(\<exists>i<length vals. distribution_bin_by_value d value BIN_BELOW = Inr (int i) \<and>
             vals ! i \<le> value \<and> (\<forall>j<length vals. i < j \<longrightarrow> value < vals ! j)) \<or>
     (distribution_bin_by_value d value BIN_BELOW = Inr PTRDIFF_MIN \<and> (\<forall>x\<in>set vals. value < x))"
    using bin_below_bounds [OF st sorted] by simp
  show "vals \<noteq> [] \<and> last vals - hd vals \<le> INT64_MAX \<longrightarrow>
     (\<exists>i<length vals. distribution_bin_by_value d value BIN_NEAREST = Inr (int i) \<and>
        (\<forall>x\<in>set vals. \<bar>vals ! i - value\<bar> \<le> \<bar>x - value\<bar>))"
    using bin_nearest_result [OF st sorted] by blast
qed

definition example_dist :: distribution where
  "example_dist = \<lparr>allocation = Some ([Some (-5), Some 2, Some 9, None], [Some 1, Some 3, Some 2, None]),
     num_bins = 3, capacity = 4\<rparr>"

lemma example_dist_stores: "stores example_dist [-5, 2, 9] [1, 3, 2]"
  by (rule storesI [where vs = "[None]" and cs = "[None]"])
    (simp_all add: example_dist_def DISTRIBUTION_BIN_SIZE_def)

theorem distribution_search_exact_witness:
  "\<exists>i<3. distribution_bin_by_value example_dist 4 BIN_NEAREST = Inr (int i) \<and>
     (\<forall>x\<in>{-5, 2, 9 :: int}. \<bar>[-5, 2, 9] ! i - 4\<bar> \<le> \<bar>x - 4\<bar>)"
  using distribution_search_exact [OF example_dist_stores, of 4]
  by (simp add: INT64_MAX_def numeral_3_eq_3)

text \<open>C8. Inserting copies of a value into a builder adds them to the multiset of its samples,
  whether the value has a bin already, the new bin fits in the allocation, or the allocation has to
  be doubled first.  The outside has to provide memory and, if the builder is empty, a readable word
  in front of the allocation.\<close>

theorem distribution_insert_refines:
  assumes "\<And>n. malloc_ok env n" "m = {#} \<Longrightarrow> \<exists>v. word_before env = Inr v"
    and "builder_holds b m" "0 < c" "size m + c < 2 ^ 59"
  shows "\<exists>b'. distribution_insert_copies env b value c = Inr b' \<and>
    builder_holds b' (m + replicate_mset c value)"
  using assms by (rule insert_copies_holds)

definition example_env :: heap_env where
  "example_env = \<lparr>malloc_ok = \<lambda>_. True, word_before = Inr 0\<rparr>"

definition example_builder :: distribution_builder where
  "example_builder = \<lparr>inner = \<lparr>allocation = Some ([Some 4], [Some 2]), num_bins = 1, capacity = 1\<rparr>\<rparr>"

lemma example_builder_holds: "builder_holds example_builder {#4, 4#}"
proof -
  have "stores (inner example_builder) [4] [2]"
    by (rule storesI [where vs = "[]" and cs = "[]"])
      (simp_all add: example_builder_def DISTRIBUTION_BIN_SIZE_def)
  then show ?thesis
    unfolding builder_holds_def
    by (intro exI [of _ "[4]"] exI [of _ "[2]"]) (simp add: well_binned_def numeral_2_eq_2)
qed

theorem distribution_insert_refines_witness:
  "\<exists>b'. distribution_insert_copies example_env example_builder 1 3 = Inr b' \<and>
     builder_holds b' ({#4, 4#} + replicate_mset 3 1)"
  by (rule distribution_insert_refines [OF _ _ example_builder_holds]) (simp_all add: example_env_def)

text \<open>The first insertion into an empty builder reads the word in front of the allocation: where
  that read fails, so does the insertion, although its result is only meant for a log message.\<close>

theorem first_insertion_reads_outside:
  assumes "builder_holds b {#}" "word_before env = Inl e"
  shows "distribution_insert env b value = Inl e"
proof -
  obtain nums where st: "stores (inner b) [] nums"
    using assms(1) by (auto simp: builder_holds_def dest: well_binned_length)
  then have "num_bins (inner b) = 0" "\<exists>l. distribution_layout (inner b) = Inr l"
    by (auto elim: storesE)
  with bin_above_result [OF st] assms(2) show ?thesis
    by (auto simp: distribution_insert_def distribution_insert_copies_def read_last_value_def)
qed

theorem first_insertion_reads_outside_witness:
  "distribution_insert (example_env\<lparr>word_before := Inl BadAccess\<rparr>)
     \<lparr>inner = \<lparr>allocation = Some ([None], [None]), num_bins = 0, capacity = 1\<rparr>\<rparr> 7 = Inl BadAccess"
  by (rule first_insertion_reads_outside, rule fresh_builder_holds,
      rule storesI [where vs = "[None]" and cs = "[None]"])
    (simp_all add: example_env_def DISTRIBUTION_BIN_SIZE_def)

end
