(* ===== verification/DistributionQuery.thy ===== *)
theory DistributionQuery
  imports Distribution
begin

text \<open>
  The queries of src/benchmark/distribution.h and src/benchmark/distribution.c on a built
  distribution: the binary search for the bin of a rank, the value of a rank, counts below a value,
  extreme values, quantiles, random choice, and the smallest differences between values.

  The results of \<open>rand()\<close> are arguments.  \<open>distribution_quantile\<close> multiplies the probability by the
  number of samples in floating point; the rounded product is an argument, as a function of the number
  of samples.
\<close>

section \<open>Definitions\<close>

definition distribution_len :: "distribution \<Rightarrow> nat res" where
  "distribution_len dist =
     assert_that (num_bins dist \<ge> 1)
     (bindR (distribution_layout dist) (\<lambda>(_, end_ranks). read_cell end_ranks (num_bins dist - 1)))"

function rank_search_loop :: "nat option list \<Rightarrow> nat \<Rightarrow> nat \<Rightarrow> nat \<Rightarrow> nat \<Rightarrow> nat \<Rightarrow> nat res" where
  "rank_search_loop end_ranks value_rank below_pos below_end_rank above_pos above_end_rank =
     (if above_pos - below_pos > 1 then
        assert_that (below_pos < above_pos)
        (assert_that (below_end_rank \<le> value_rank)
        (assert_that (above_end_rank > value_rank)
        (let middle_pos = below_pos + (above_pos - below_pos) div 2 in
         assert_that (below_pos \<le> middle_pos)
         (assert_that (middle_pos < above_pos)
         (bindR (read_cell end_ranks middle_pos) (\<lambda>middle_end_rank.
          assert_that (below_end_rank \<le> middle_end_rank)
          (assert_that (middle_end_rank < above_end_rank)
          (if middle_end_rank > value_rank then
             bindR (read_cell end_ranks middle_pos) (\<lambda>above_end_rank'.
             rank_search_loop end_ranks value_rank below_pos below_end_rank middle_pos above_end_rank')
           else
             assert_that (middle_end_rank \<le> value_rank)
             (bindR (read_cell end_ranks middle_pos) (\<lambda>below_end_rank'.
              rank_search_loop end_ranks value_rank middle_pos below_end_rank' above_pos
                above_end_rank))))))))))
      else
        assert_that (above_pos = below_pos + 1)
        (assert_that (value_rank \<ge> below_end_rank)
        (assert_that (value_rank < above_end_rank) (Inr above_pos))))"
  by pat_completeness auto

termination
  by (relation "measure (\<lambda>(_, _, below_pos, _, above_pos, _). above_pos - below_pos)") auto

declare rank_search_loop.simps [simp del]

definition distribution_bin_by_rank :: "distribution \<Rightarrow> nat \<Rightarrow> nat res" where
  "distribution_bin_by_rank dist value_rank =
     bindR (distribution_len dist) (\<lambda>len.
     assert_that (value_rank < len)
     (bindR (distribution_layout dist) (\<lambda>(sorted_values, end_ranks).
      bindR (read_cell end_ranks 0) (\<lambda>first_end_rank.
      if value_rank < first_end_rank then bindR (read_cell sorted_values 0) (\<lambda>_. Inr 0)
      else
        bindR (read_cell end_ranks 0) (\<lambda>below_end_rank.
        let above_pos = num_bins dist - 1 in
        bindR (read_cell end_ranks above_pos) (\<lambda>above_end_rank.
        rank_search_loop end_ranks value_rank 0 below_end_rank above_pos above_end_rank))))))"

definition distribution_nth :: "distribution \<Rightarrow> nat \<Rightarrow> int res" where
  "distribution_nth dist rank =
     assert_that (num_bins dist \<ge> 1)
     (bindR (distribution_bin_by_rank dist rank) (\<lambda>bin.
      bindR (distribution_layout dist) (\<lambda>(sorted_values, _). read_cell sorted_values bin)))"

definition distribution_count_below :: "distribution \<Rightarrow> int \<Rightarrow> bool \<Rightarrow> nat res" where
  "distribution_count_below dist value include_equal =
     bindR (distribution_layout dist) (\<lambda>(sorted_values, end_ranks).
     bindR (distribution_bin_by_value dist value BIN_BELOW) (\<lambda>pos.
     if pos < 0 then Inr 0
     else
       bindR (read_cell sorted_values (nat pos)) (\<lambda>bin_value.
       if bin_value < value \<or> include_equal then read_cell end_ranks (nat pos)
       else if pos = 0 then Inr 0 else read_cell end_ranks (nat pos - 1))))"

text \<open>\<open>ceil_times len\<close> is \<open>ceil(probability * len)\<close>, converted to \<open>size_t\<close>.\<close>

definition distribution_quantile :: "(nat \<Rightarrow> nat) \<Rightarrow> distribution \<Rightarrow> int res" where
  "distribution_quantile ceil_times dist =
     bindR (distribution_len dist) (\<lambda>len.
     let min_values_below = ceil_times len;
         rank = (if min_values_below = 0 then 0 else min_values_below - 1)
     in distribution_nth dist rank)"

definition distribution_min_value :: "distribution \<Rightarrow> int res" where
  "distribution_min_value dist =
     assert_that (num_bins dist \<ge> 1)
     (bindR (distribution_layout dist) (\<lambda>(sorted_values, _). read_cell sorted_values 0))"

definition distribution_max_value :: "distribution \<Rightarrow> int res" where
  "distribution_max_value dist =
     assert_that (num_bins dist \<ge> 1)
     (bindR (distribution_layout dist) (\<lambda>(sorted_values, _).
      read_cell sorted_values (num_bins dist - 1)))"

definition distribution_choose :: "nat \<Rightarrow> distribution \<Rightarrow> int res" where
  "distribution_choose rand dist =
     assert_that (num_bins dist \<ge> 1)
     (bindR (distribution_len dist) (\<lambda>num_values.
      if num_values = 0 then Inl UndefinedBehaviour
      else distribution_nth dist (rand mod num_values)))"

text \<open>The loop of \<open>distribution_min_difference\<close>, in which \<open>prev_value\<close> keeps its initial value.\<close>

fun min_difference_loop :: "nat \<Rightarrow> nat \<Rightarrow> int \<Rightarrow> nat \<Rightarrow> int option list \<Rightarrow> nat res" where
  "min_difference_loop 0 bin prev_value min_difference sorted_values = Inr min_difference"
| "min_difference_loop (Suc todo) bin prev_value min_difference sorted_values =
     bindR (read_cell sorted_values bin) (\<lambda>curr_value.
     assert_that (curr_value > prev_value)
     (bindR (int64 (curr_value - prev_value)) (\<lambda>difference.
      min_difference_loop todo (Suc bin) prev_value
        (if nat difference < min_difference then nat difference else min_difference) sorted_values)))"

definition distribution_min_difference :: "distribution \<Rightarrow> nat res" where
  "distribution_min_difference dist =
     (if num_bins dist = 0 then Inr UINT64_MAX
      else
        bindR (distribution_layout dist) (\<lambda>(sorted_values, _).
        bindR (read_cell sorted_values 0) (\<lambda>prev_value.
        bindR (min_difference_loop (num_bins dist - 1) 1 prev_value UINT64_MAX sorted_values)
          (\<lambda>min_difference. assert_that (min_difference > 0) (Inr min_difference)))))"

text \<open>Difference to the neighbours of a bin that holds the same value: 0 if none is found.\<close>

definition neighbour_difference :: "int \<Rightarrow> int option list \<Rightarrow> nat \<Rightarrow> nat \<Rightarrow> int res" where
  "neighbour_difference short_value long_values long_bin num_long =
     bindR (if long_bin > 0
            then bindR (read_cell long_values (long_bin - 1)) (\<lambda>v.
                 bindR (int64 (short_value - v)) (\<lambda>d. assert_that (d > 0) (Inr d)))
            else Inr 0) (\<lambda>difference.
     if long_bin + 1 < num_long then
       bindR (read_cell long_values (long_bin + 1)) (\<lambda>v.
       bindR (int64 (v - short_value)) (\<lambda>diff_candidate.
       assert_that (diff_candidate > 0)
         (Inr (if diff_candidate < difference then diff_candidate else difference))))
     else Inr difference)"

fun min_difference_with_loop ::
    "nat \<Rightarrow> nat \<Rightarrow> int option list \<Rightarrow> distribution \<Rightarrow> int option list \<Rightarrow> nat \<Rightarrow> nat res" where
  "min_difference_with_loop 0 short_bin short_values long_dist long_values min_difference =
     Inr min_difference"
| "min_difference_with_loop (Suc todo) short_bin short_values long_dist long_values min_difference =
     bindR (read_cell short_values short_bin) (\<lambda>short_value.
     bindR (distribution_bin_by_value long_dist short_value BIN_NEAREST) (\<lambda>pos.
     let long_bin = nat (pos mod 2 ^ 64) in
     assert_that (long_bin < num_bins long_dist)
     (bindR (read_cell long_values long_bin) (\<lambda>long_value.
      bindR (int64 (short_value - long_value)) (\<lambda>difference0.
      bindR (if difference0 = 0
             then neighbour_difference short_value long_values long_bin (num_bins long_dist)
             else if difference0 < 0 then int64 (- difference0)
             else Inr difference0) (\<lambda>difference.
      if difference0 = 0 \<and> difference = 0 then
        min_difference_with_loop todo (Suc short_bin) short_values long_dist long_values min_difference
      else
        assert_that (difference > 0)
        (min_difference_with_loop todo (Suc short_bin) short_values long_dist long_values
          (if nat difference < min_difference then nat difference else min_difference)))))))) "

definition distribution_min_difference_with :: "distribution \<Rightarrow> distribution \<Rightarrow> nat res" where
  "distribution_min_difference_with d1 d2 =
     (if num_bins d1 = 0 \<or> num_bins d2 = 0 then Inr UINT64_MAX
      else
        bindR (distribution_layout d1) (\<lambda>(values1, _).
        bindR (distribution_layout d2) (\<lambda>(values2, _).
        bindR (if num_bins d2 < num_bins d1
               then min_difference_with_loop (num_bins d2) 0 values2 d1 values1 UINT64_MAX
               else min_difference_with_loop (num_bins d1) 0 values1 d2 values2 UINT64_MAX)
          (\<lambda>min_difference. assert_that (min_difference > 0) (Inr min_difference)))))"

section \<open>Ranks\<close>

lemma dist_binsE:
  assumes "dist_bins d vals nums"
  obtains vs cs where "distribution_layout d = Inr (map Some vals @ vs, map Some (sums 0 nums) @ cs)"
    "num_bins d = length vals" "length nums = length vals" "0 < length vals" "sorted_wrt (<) vals"
    "\<forall>n\<in>set nums. 0 < n" "sum_list nums < 2 ^ 59"
proof -
  have st: "stores d vals (sums 0 nums)" using assms by (simp add: dist_bins_def)
  then obtain vs cs where "distribution_layout d = Inr (map Some vals @ vs, map Some (sums 0 nums) @ cs)"
    "num_bins d = length vals" by (rule storesE)
  then show ?thesis using assms that by (auto simp: dist_bins_def well_binned_def)
qed

lemma dist_bins_contents:
  assumes "dist_bins d vals nums"
  shows "length (contents vals nums) = sum_list nums" "set (contents vals nums) = set vals"
    "sorted (contents vals nums)" "0 < sum_list nums" "contents vals nums \<noteq> []"
proof -
  have wb: "well_binned vals nums" "vals \<noteq> []" using assms by (auto simp: dist_bins_def)
  show len: "length (contents vals nums) = sum_list nums"
    using wb(1) by (simp add: length_contents well_binned_def)
  show "set (contents vals nums) = set vals" "sorted (contents vals nums)"
    using wb(1) by (rule set_contents, rule sorted_contents)
  then show "contents vals nums \<noteq> []" using wb(2) by auto
  have "0 < length vals" using wb(2) by simp
  then show "0 < sum_list nums" using well_binned_length [OF wb(1)] len by linarith
qed

lemma sum_list_take_strict_mono:
  assumes "\<forall>n\<in>set nums. 0 < n" "i < j" "j \<le> length nums"
  shows "sum_list (take i nums) < sum_list (take j (nums :: nat list))"
proof -
  have "take j nums = take i nums @ take (j - i) (drop i nums)"
    using assms(2) by (metis le_add_diff_inverse less_imp_le take_add)
  moreover have "0 < sum_list (take (j - i) (drop i nums))"
  proof -
    have "nums ! i \<in> set (take (j - i) (drop i nums))"
      using assms(2,3) by (force simp: in_set_conv_nth intro: exI [of _ 0])
    moreover have "0 < nums ! i" using assms by simp
    ultimately show ?thesis by (metis gr0I not_gr_zero sum_list_eq_0_iff)
  qed
  ultimately show ?thesis by simp
qed

lemma sums_strict_mono:
  assumes "\<forall>n\<in>set nums. 0 < n" "i < j" "j < length nums"
  shows "sums 0 nums ! i < sums 0 nums ! j"
  using sum_list_take_strict_mono [of nums "Suc i" "Suc j"] assms by (simp add: sums_nth)

lemma contents_nth:
  assumes "length nums = length vals" "i < length vals"
    and "sum_list (take i nums) \<le> r" "r < sum_list (take (Suc i) nums)"
  shows "contents vals nums ! r = vals ! i"
  using assms
proof (induction vals arbitrary: nums i r)
  case (Cons v vals)
  then obtain n ns where nums: "nums = n # ns" by (cases nums) auto
  show ?case
  proof (cases i)
    case 0
    with Cons.prems nums show ?thesis by (simp add: nth_append)
  next
    case (Suc j)
    then have "n \<le> r" using Cons.prems nums by simp
    then show ?thesis using Cons.IH [of ns j "r - n"] Cons.prems nums Suc by (simp add: nth_append)
  qed
qed simp

lemma len_result:
  assumes "dist_bins d vals nums" shows "distribution_len d = Inr (sum_list nums)"
  using assms by (rule dist_binsE) (simp add: distribution_len_def cell_simps sums_nth Suc_le_eq)

lemma rank_search_loop_exact:
  assumes "\<And>i j. i < j \<Longrightarrow> j < length ranks \<Longrightarrow> ranks ! i < ranks ! j"
    and "below_pos < above_pos" "above_pos < length ranks"
    and "ranks ! below_pos = below_rank" "ranks ! above_pos = above_rank"
    and "below_rank \<le> r" "r < above_rank"
  shows "\<exists>p. rank_search_loop (map Some ranks @ s) r below_pos below_rank above_pos above_rank = Inr (Suc p)
    \<and> Suc p < length ranks \<and> ranks ! p \<le> r \<and> r < ranks ! Suc p"
  using assms
proof (induction "above_pos - below_pos" arbitrary: below_pos below_rank above_pos above_rank
    rule: less_induct)
  case less
  define middle_pos where "middle_pos = below_pos + (above_pos - below_pos) div 2"
  note loop = rank_search_loop.simps [of "map Some ranks @ s" r below_pos below_rank above_pos above_rank]
  show ?case
  proof (cases "above_pos - below_pos > 1")
    case False
    then have "above_pos = Suc below_pos" using less.prems(2) by simp
    with False less.prems loop show ?thesis by (intro exI [of _ below_pos]) simp
  next
    case True
    then have mid: "below_pos < middle_pos" "middle_pos < above_pos" "middle_pos < length ranks"
      using less.prems(2,3) by (auto simp: middle_pos_def)
    have order: "below_rank < ranks ! middle_pos" "ranks ! middle_pos < above_rank"
      using less.prems(1) [OF mid(1,3)] less.prems(1) [OF mid(2) less.prems(3)] less.prems(4,5) by auto
    have step: "rank_search_loop (map Some ranks @ s) r below_pos below_rank above_pos above_rank =
        (if ranks ! middle_pos > r then
           rank_search_loop (map Some ranks @ s) r below_pos below_rank middle_pos (ranks ! middle_pos)
         else rank_search_loop (map Some ranks @ s) r middle_pos (ranks ! middle_pos) above_pos above_rank)"
      using True less.prems(2-) mid order loop by (simp add: middle_pos_def [symmetric] cell_simps Let_def)
    show ?thesis
    proof (cases "ranks ! middle_pos > r")
      case True
      have "middle_pos - below_pos < above_pos - below_pos" using mid by simp
      from less.hyps [OF this less.prems(1) mid(1,3) less.prems(4) refl less.prems(6) True] step True
      show ?thesis by simp
    next
      case False
      have "above_pos - middle_pos < above_pos - below_pos" using mid by simp
      from less.hyps [OF this less.prems(1) mid(2) less.prems(3) refl less.prems(5) _ less.prems(7)] step False
      show ?thesis by simp
    qed
  qed
qed

lemma bin_by_rank_result:
  assumes bins: "dist_bins d vals nums" and r: "r < sum_list nums"
  shows "\<exists>i<length vals. distribution_bin_by_rank d r = Inr i \<and>
    sum_list (take i nums) \<le> r \<and> r < sum_list (take (Suc i) nums)"
proof -
  obtain vs cs where d: "distribution_layout d = Inr (map Some vals @ vs, map Some (sums 0 nums) @ cs)"
    "num_bins d = length vals" "length nums = length vals" "0 < length vals"
    "\<forall>n\<in>set nums. 0 < n" using bins by (elim dist_binsE)
  let ?ranks = "sums 0 nums" and ?last = "length vals - 1"
  note mono = sums_strict_mono [OF d(5)]
  have start: "distribution_bin_by_rank d r = (if r < ?ranks ! 0 then Inr 0
      else rank_search_loop (map Some ?ranks @ cs) r 0 (?ranks ! 0) ?last (?ranks ! ?last))"
    using d len_result [OF bins] r by (simp add: distribution_bin_by_rank_def cell_simps Let_def)
  have last: "?ranks ! ?last = sum_list nums" using d by (simp add: sums_nth)
  show ?thesis
  proof (cases "r < ?ranks ! 0")
    case True
    with start d show ?thesis by (intro exI [of _ 0]) (simp add: sums_nth)
  next
    case False
    then have "0 < ?last" using last r d by (cases "?last = 0") auto
    then have "\<exists>p. rank_search_loop (map Some ?ranks @ cs) r 0 (?ranks ! 0) ?last (?ranks ! ?last)
        = Inr (Suc p) \<and> Suc p < length ?ranks \<and> ?ranks ! p \<le> r \<and> r < ?ranks ! Suc p"
      using False last r d by (intro rank_search_loop_exact) (auto intro: mono)
    then obtain p where p: "distribution_bin_by_rank d r = Inr (Suc p)" "Suc p < length vals"
      "?ranks ! p \<le> r" "r < ?ranks ! Suc p"
      using start False d(3) by auto
    then show ?thesis using d by (intro exI [of _ "Suc p"]) (simp add: sums_nth)
  qed
qed

lemma nth_result:
  assumes bins: "dist_bins d vals nums" and r: "r < sum_list nums"
  shows "distribution_nth d r = Inr (contents vals nums ! r)"
proof -
  obtain i where i: "i < length vals" "distribution_bin_by_rank d r = Inr i"
    "sum_list (take i nums) \<le> r" "r < sum_list (take (Suc i) nums)"
    using bin_by_rank_result [OF assms] by blast
  with bins show ?thesis
    by (elim dist_binsE) (simp add: distribution_nth_def cell_simps contents_nth Suc_le_eq)
qed

section \<open>Counts, extreme values, quantiles\<close>

lemma length_filter_contents:
  assumes wb: "well_binned vals nums"
  shows "length (filter (\<lambda>x. x < v) (contents vals nums)) = sum_list (take (bins_below vals v) nums)"
proof -
  let ?p = "bins_below vals v"
  have len: "length nums = length vals" and sorted: "sorted_wrt (<) vals"
    using wb by (auto simp: well_binned_def)
  have parts: "well_binned (take ?p vals) (take ?p nums)" "well_binned (drop ?p vals) (drop ?p nums)"
    using wb by (auto simp: well_binned_def sorted_wrt_take sorted_wrt_drop dest: in_set_takeD in_set_dropD)
  have split: "contents vals nums
      = contents (take ?p vals) (take ?p nums) @ contents (drop ?p vals) (drop ?p nums)"
    using contents_append [of "take ?p nums" "take ?p vals" "drop ?p vals" "drop ?p nums"] len by simp
  have "x < v" if "x \<in> set (take ?p vals)" for x
    using that nth_less_iff_bins_below [OF sorted, of _ v] by (auto simp: in_set_conv_nth)
  moreover have "\<not> x < v" if x: "x \<in> set (drop ?p vals)" for x
  proof -
    obtain i where i: "i < length vals - ?p" "x = vals ! (?p + i)"
      using x bins_below_le [of vals v] by (auto simp: in_set_conv_nth)
    then show ?thesis using nth_less_iff_bins_below [OF sorted, of "?p + i" v] by simp
  qed
  ultimately have "filter (\<lambda>x. x < v) (contents vals nums) = contents (take ?p vals) (take ?p nums)"
    unfolding split filter_append set_contents [OF parts(1), symmetric] set_contents [OF parts(2), symmetric]
    by (simp add: filter_id_conv filter_empty_conv)
  then show ?thesis using len bins_below_le [of vals v] by (simp add: length_contents)
qed

lemma bins_below_Suc:
  assumes "sorted_wrt (<) vals"
  shows "bins_below vals (v + 1) = (if v \<in> set vals then Suc (bins_below vals v) else bins_below vals v)"
proof (rule bins_below_eqI [OF assms])
  let ?p = "bins_below vals v"
  note mem = mem_iff_bins_below [OF assms, of v] and less = nth_less_iff_bins_below [OF assms, of _ v]
  have upper: "v \<le> vals ! i" if "?p \<le> i" "i < length vals" for i using less [OF that(2)] that by simp
  show "(if v \<in> set vals then Suc ?p else ?p) \<le> length vals"
    using mem bins_below_le [of vals v] by auto
  show "vals ! ((if v \<in> set vals then Suc ?p else ?p) - 1) < v + 1"
    if "0 < (if v \<in> set vals then Suc ?p else ?p)"
  proof (cases "v \<in> set vals")
    case False
    then have "?p - 1 < length vals" "0 < ?p" using that bins_below_le [of vals v] by auto
    with less [of "?p - 1"] False show ?thesis by simp
  qed (use mem in simp)
  show "v + 1 \<le> vals ! (if v \<in> set vals then Suc ?p else ?p)"
    if lt: "(if v \<in> set vals then Suc ?p else ?p) < length vals"
  proof (cases "v \<in> set vals")
    case True
    with mem have "vals ! ?p = v" "?p < length vals" by auto
    moreover have "vals ! ?p < vals ! Suc ?p"
      using sorted_wrt_nth_less [OF assms, of ?p "Suc ?p"] True lt by simp
    ultimately show ?thesis using True by simp
  next
    case False
    with lt have "vals ! ?p \<noteq> v" by (metis nth_mem)
    with False lt upper [of ?p] show ?thesis by simp
  qed
qed

lemma count_below_result:
  assumes bins: "dist_bins d vals nums"
  shows "distribution_count_below d v eq =
    Inr (length (filter (\<lambda>x. x < v \<or> eq \<and> x = v) (contents vals nums)))"
proof -
  obtain vs cs where d: "distribution_layout d = Inr (map Some vals @ vs, map Some (sums 0 nums) @ cs)"
    "num_bins d = length vals" "length nums = length vals" "0 < length vals" "sorted_wrt (<) vals"
    using bins by (elim dist_binsE)
  have wb: "well_binned vals nums" and st: "stores d vals (sums 0 nums)"
    using bins by (auto simp: dist_bins_def)
  let ?p = "bins_below vals v"
  have count: "length (filter (\<lambda>x. x < v \<or> eq \<and> x = v) (contents vals nums)) =
      sum_list (take (if eq \<and> v \<in> set vals then Suc ?p else ?p) nums)"
  proof (cases eq)
    case True
    have "(\<lambda>x. x < v \<or> eq \<and> x = v) = (\<lambda>x. x < v + 1)" using True by auto
    then show ?thesis
      using length_filter_contents [OF wb, of "v + 1"] bins_below_Suc [OF d(5), of v] True by simp
  qed (simp add: length_filter_contents [OF wb])
  have neg: "PTRDIFF_MIN < 0" by (simp add: PTRDIFF_MIN_def)
  note res = bin_below_result [OF st d(5), of v]
  have cell: "read_cell (map Some (sums 0 nums) @ cs) i = Inr (sum_list (take (Suc i) nums))"
    if "i < length vals" for i using that d(3) by (simp add: cell_simps sums_nth)
  show ?thesis
  proof (cases "v \<in> set vals")
    case True
    then have p: "?p < length vals" "vals ! ?p = v" using mem_iff_bins_below [OF d(5)] by auto
    with True res count cell [of ?p] cell [of "?p - 1"] d show ?thesis
      by (cases "?p = 0") (auto simp: distribution_count_below_def cell_simps)
  next
    case False
    show ?thesis
    proof (cases ?p)
      case 0
      with False res count d neg show ?thesis by (simp add: distribution_count_below_def)
    next
      case (Suc q)
      then have q: "q < length vals" using bins_below_le [of vals v] by simp
      moreover have "vals ! q < v" using nth_less_iff_bins_below [OF d(5) q] Suc by simp
      ultimately show ?thesis using False res count cell [OF q] d Suc
        by (simp add: distribution_count_below_def cell_simps)
    qed
  qed
qed

lemma extreme_values:
  assumes "dist_bins d vals nums"
  shows "distribution_min_value d = Inr (hd vals)" "distribution_max_value d = Inr (last vals)"
  using assms by (auto elim!: dist_binsE simp: distribution_min_value_def distribution_max_value_def
      cell_simps hd_conv_nth last_conv_nth Suc_le_eq)

lemma hd_last_contents:
  assumes "well_binned vals nums" "vals \<noteq> []"
  shows "hd (contents vals nums) = hd vals" "last (contents vals nums) = last vals"
proof -
  obtain v vs where vals: "vals = v # vs" using assms(2) by (cases vals) auto
  obtain n ns where nums: "nums = n # ns" "0 < n" using assms vals by (cases nums) (auto simp: well_binned_def)
  then show "hd (contents vals nums) = hd vals" using vals by (cases n) auto
  show "last (contents vals nums) = last vals"
    using assms
  proof (induction vals arbitrary: nums)
    case (Cons v vals)
    then obtain n ns where nums: "nums = n # ns" "0 < n" by (cases nums) (auto simp: well_binned_def)
    have wb: "well_binned vals ns" using Cons.prems nums by (auto simp: well_binned_def)
    show ?case
    proof (cases "vals = []")
      case True
      then show ?thesis using nums Cons.prems by (cases n) (auto simp: well_binned_def)
    next
      case False
      then have "contents vals ns \<noteq> []" using set_contents [OF wb] by auto
      then show ?thesis using Cons.IH [OF wb False] nums False by simp
    qed
  qed simp
qed

lemma choose_result:
  assumes bins: "dist_bins d vals nums"
  shows "distribution_choose r d = Inr (contents vals nums ! (r mod sum_list nums))"
    "contents vals nums ! (r mod sum_list nums) \<in> set (contents vals nums)"
proof -
  note len = dist_bins_contents(1) [OF bins] and pos = dist_bins_contents(4) [OF bins]
  have "0 < length vals" "num_bins d = length vals" using bins by (auto elim: dist_binsE)
  with pos show "distribution_choose r d = Inr (contents vals nums ! (r mod sum_list nums))"
    using nth_result [OF bins] len_result [OF bins] \<open>0 < length vals\<close> \<open>num_bins d = length vals\<close>
    by (simp add: distribution_choose_def Suc_le_eq del: sum_list_eq_0_iff)
  show "contents vals nums ! (r mod sum_list nums) \<in> set (contents vals nums)"
    using pos len by (metis nth_mem mod_less_divisor)
qed

lemma filter_le_take_sorted:
  assumes "sorted xs" "k < length xs"
  shows "k < length (filter (\<lambda>y. y \<le> xs ! k) xs)" "length (filter (\<lambda>y. y < xs ! k) xs) \<le> k"
proof -
  have "filter (\<lambda>y. y \<le> xs ! k) (take (Suc k) xs) = take (Suc k) xs"
    using assms by (intro filter_True) (auto simp: in_set_conv_nth sorted_iff_nth_mono)
  then have "filter (\<lambda>y. y \<le> xs ! k) xs = take (Suc k) xs @ filter (\<lambda>y. y \<le> xs ! k) (drop (Suc k) xs)"
    by (metis append_take_drop_id filter_append)
  then show "k < length (filter (\<lambda>y. y \<le> xs ! k) xs)" using assms(2) by simp
  have "filter (\<lambda>y. y < xs ! k) (drop k xs) = []"
    using assms by (intro filter_False) (auto simp: in_set_conv_nth sorted_iff_nth_mono not_less)
  then have "filter (\<lambda>y. y < xs ! k) xs = filter (\<lambda>y. y < xs ! k) (take k xs)"
    by (metis append_take_drop_id filter_append append_Nil2)
  then show "length (filter (\<lambda>y. y < xs ! k) xs) \<le> k"
    by (metis length_filter_le length_take min.bounded_iff)
qed

section \<open>Differences between values\<close>

lemma strict_sorted_nth_mono:
  "sorted_wrt (<) (vals :: int list) \<Longrightarrow> i \<le> j \<Longrightarrow> j < length vals \<Longrightarrow> vals ! i \<le> vals ! j"
  by (cases "i = j") (auto simp: sorted_wrt_iff_nth_less less_imp_le)

lemma min_difference_loop_exact:
  assumes "\<And>i. bin \<le> i \<Longrightarrow> i < bin + todo \<Longrightarrow> i < length vals \<and> prev < vals ! i \<and> vals ! i - prev \<le> INT64_MAX"
    and "\<And>i. bin \<le> i \<Longrightarrow> i < bin + todo \<Longrightarrow> m \<le> nat (vals ! i - prev)"
  shows "min_difference_loop todo bin prev m (map Some vals @ r) = Inr m"
  using assms
proof (induction todo arbitrary: bin)
  case (Suc todo)
  have b: "bin < length vals" "prev < vals ! bin" "vals ! bin - prev \<le> INT64_MAX" "m \<le> nat (vals ! bin - prev)"
    using Suc.prems(1) [of bin] Suc.prems(2) [of bin] by auto
  then have "int64 (vals ! bin - prev) = Inr (vals ! bin - prev)" by (simp add: int64_def INT64_MIN_def)
  moreover have "min_difference_loop todo (Suc bin) prev m (map Some vals @ r) = Inr m"
    using Suc.prems by (intro Suc.IH) auto
  ultimately show ?case using b by (auto simp: cell_simps)
qed simp

lemma min_difference_result:
  assumes st: "stores d vals nums" and sorted: "sorted_wrt (<) vals"
    and range: "vals \<noteq> [] \<Longrightarrow> last vals - hd vals \<le> INT64_MAX"
  shows "distribution_min_difference d =
    Inr (if length vals < 2 then UINT64_MAX else nat (vals ! 1 - vals ! 0))"
proof -
  obtain vs cs where d: "distribution_layout d = Inr (map Some vals @ vs, map Some nums @ cs)"
    "num_bins d = length vals" using st by (rule storesE)
  have max: "0 < UINT64_MAX" by (simp add: UINT64_MAX_def)
  consider "vals = []" | v where "vals = [v]" | v w rest where "vals = v # w # rest"
    by (metis list.exhaust)
  then show ?thesis
  proof cases
    case 3
    have i: "i < length vals \<and> v < vals ! i \<and> vals ! i - v \<le> INT64_MAX \<and> nat (w - v) \<le> nat (vals ! i - v)"
      if "1 \<le> i" "i < length vals" for i
    proof -
      have "vals ! 1 \<le> vals ! i" "vals ! i \<le> vals ! (length vals - 1)"
        using that by (auto intro: strict_sorted_nth_mono [OF sorted])
      moreover have "last vals = vals ! (length vals - 1)" using 3 by (simp add: last_conv_nth)
      moreover have "v < w" "vals ! 1 = w" "hd vals = v" using sorted 3 by auto
      moreover have "last vals - hd vals \<le> INT64_MAX" using range 3 by simp
      ultimately show ?thesis using that(2) by linarith
    qed
    have fits: "int64 (w - v) = Inr (w - v)" "nat (w - v) < UINT64_MAX" "v < w"
      using i [of 1] 3 by (auto simp: int64_def INT64_MIN_def INT64_MAX_def UINT64_MAX_def)
    have "min_difference_loop (Suc (length rest)) 1 v UINT64_MAX (map Some vals @ vs)
        = min_difference_loop (length rest) 2 v (nat (w - v)) (map Some vals @ vs)"
      using fits 3 by (simp add: cell_simps numeral_2_eq_2 read_cell_def)
    also have "\<dots> = Inr (nat (w - v))"
    proof (rule min_difference_loop_exact)
      have "length vals = 2 + length rest" using 3 by simp
      then show "i < length vals \<and> v < vals ! i \<and> vals ! i - v \<le> INT64_MAX"
        and "nat (w - v) \<le> nat (vals ! i - v)" if "2 \<le> i" "i < 2 + length rest" for i
        using i [of i] that by simp_all
    qed
    finally show ?thesis using d 3 fits by (simp add: distribution_min_difference_def cell_simps read_cell_def)
  qed (use d max in \<open>auto simp: distribution_min_difference_def cell_simps read_cell_def\<close>)
qed

lemma int64_fits: "\<bar>x\<bar> \<le> INT64_MAX \<Longrightarrow> int64 x = Inr x"
  by (auto simp: int64_def INT64_MAX_def INT64_MIN_def)

lemma stored_bins_fit: "stores d vals nums \<Longrightarrow> i < length vals \<Longrightarrow> nat (int i mod 2 ^ 64) = i"
  by (auto simp: stores_def DISTRIBUTION_BIN_SIZE_def)

text \<open>One iteration, for a value that the longer distribution does not hold.\<close>

lemma min_difference_with_step:
  assumes st: "stores d vals nums" and sorted: "sorted_wrt (<) vals" and "vals \<noteq> []"
    and layout: "distribution_layout d = Inr (map Some vals @ vs, map Some nums @ cs)"
    and k: "k < length svals" and x: "svals ! k \<notin> set vals"
    and range: "\<And>y z. y \<in> insert (svals ! k) (set vals) \<Longrightarrow> z \<in> insert (svals ! k) (set vals) \<Longrightarrow>
      \<bar>y - z\<bar> \<le> INT64_MAX"
  obtains y where "y \<in> set vals" "\<And>z. z \<in> set vals \<Longrightarrow> nat \<bar>svals ! k - y\<bar> \<le> nat \<bar>svals ! k - z\<bar>"
    and "min_difference_with_loop (Suc todo) k (map Some svals @ r) d (map Some vals @ vs) m =
      min_difference_with_loop todo (Suc k) (map Some svals @ r) d (map Some vals @ vs)
        (if nat \<bar>svals ! k - y\<bar> < m then nat \<bar>svals ! k - y\<bar> else m)"
proof -
  let ?x = "svals ! k"
  have "last vals - hd vals \<le> INT64_MAX"
    using range [of "last vals" "hd vals"] assms(3) by simp
  then obtain i where i: "distribution_bin_by_value d ?x BIN_NEAREST = Inr (int i)" "i < length vals"
    "\<forall>z\<in>set vals. \<bar>vals ! i - ?x\<bar> \<le> \<bar>z - ?x\<bar>"
    using bin_nearest_result [OF st sorted assms(3)] by blast
  let ?y = "vals ! i"
  have y: "?y \<in> set vals" "?x \<noteq> ?y" using i(2) x by auto
  have fits: "int64 (?x - ?y) = Inr (?x - ?y)" "int64 (- (?x - ?y)) = Inr (- (?x - ?y))"
    using range [of ?x ?y] y by (simp_all only: int64_fits abs_minus_cancel insertI1 insertI2)
  have bins: "num_bins d = length vals" using st by (simp add: stores_def)
  have "nat \<bar>?x - ?y\<bar> \<le> nat \<bar>?x - z\<bar>" if "z \<in> set vals" for z
    using i(3) that by (metis abs_minus_commute nat_mono)
  moreover have "min_difference_with_loop (Suc todo) k (map Some svals @ r) d (map Some vals @ vs) m =
      min_difference_with_loop todo (Suc k) (map Some svals @ r) d (map Some vals @ vs)
        (if nat \<bar>?x - ?y\<bar> < m then nat \<bar>?x - ?y\<bar> else m)"
  proof (cases "?x < ?y")
    case True
    then have "\<bar>?x - ?y\<bar> = - (?x - ?y)" by simp
    with True y k i bins fits stored_bins_fit [OF st i(2)] show ?thesis
      by (simp add: cell_simps Let_def)
  next
    case False
    then have "\<bar>?x - ?y\<bar> = ?x - ?y" "0 < ?x - ?y" using y by simp_all
    with False y k i bins fits stored_bins_fit [OF st i(2)] show ?thesis
      by (simp add: cell_simps Let_def)
  qed
  ultimately show thesis using that y(1) by blast
qed

lemma min_difference_with_loop_exact:
  assumes st: "stores d vals nums" and sorted: "sorted_wrt (<) vals" and ne: "vals \<noteq> []"
    and layout: "distribution_layout d = Inr (map Some vals @ vs, map Some nums @ cs)"
    and "k + todo = length svals" and disj: "set svals \<inter> set vals = {}"
    and range: "\<And>y z. y \<in> set svals \<union> set vals \<Longrightarrow> z \<in> set svals \<union> set vals \<Longrightarrow> \<bar>y - z\<bar> \<le> INT64_MAX"
  shows "\<exists>r. min_difference_with_loop todo k (map Some svals @ s) d (map Some vals @ vs) m = Inr r \<and>
    r \<le> m \<and> (r = m \<or> (\<exists>x\<in>set (drop k svals). \<exists>y\<in>set vals. r = nat \<bar>x - y\<bar>)) \<and>
    (\<forall>x\<in>set (drop k svals). \<forall>y\<in>set vals. r \<le> nat \<bar>x - y\<bar>)"
  using assms(5)
proof (induction todo arbitrary: k m)
  case (Suc todo)
  then have k: "k < length svals" by simp
  have x: "svals ! k \<in> set svals" using k by simp
  then have notin: "svals ! k \<notin> set vals" using disj by blast
  have sub: "y \<in> set svals \<union> set vals" if "y \<in> insert (svals ! k) (set vals)" for y using that x by blast
  obtain y where y: "y \<in> set vals" "\<And>z. z \<in> set vals \<Longrightarrow> nat \<bar>svals ! k - y\<bar> \<le> nat \<bar>svals ! k - z\<bar>"
    and step: "min_difference_with_loop (Suc todo) k (map Some svals @ s) d (map Some vals @ vs) m =
      min_difference_with_loop todo (Suc k) (map Some svals @ s) d (map Some vals @ vs)
        (if nat \<bar>svals ! k - y\<bar> < m then nat \<bar>svals ! k - y\<bar> else m)"
    by (rule min_difference_with_step [OF st sorted ne layout k notin range [OF sub sub], of todo s m]) blast+
  let ?n = "nat \<bar>svals ! k - y\<bar>" and ?m = "if nat \<bar>svals ! k - y\<bar> < m then nat \<bar>svals ! k - y\<bar> else m"
  have "Suc k + todo = length svals" using Suc.prems by simp
  from Suc.IH [OF this, of ?m] obtain r where r:
    "min_difference_with_loop todo (Suc k) (map Some svals @ s) d (map Some vals @ vs) ?m = Inr r"
    "r \<le> ?m" "r = ?m \<or> (\<exists>x\<in>set (drop (Suc k) svals). \<exists>y\<in>set vals. r = nat \<bar>x - y\<bar>)"
    "\<forall>x\<in>set (drop (Suc k) svals). \<forall>y\<in>set vals. r \<le> nat \<bar>x - y\<bar>" by blast
  have drop: "set (drop k svals) = insert (svals ! k) (set (drop (Suc k) svals))"
    using k by (metis Cons_nth_drop_Suc list.simps(15))
  have "r \<le> m" "r \<le> ?n" using r(2) by (auto split: if_splits)
  moreover have "r \<le> nat \<bar>svals ! k - z\<bar>" if "z \<in> set vals" for z
    using y(2) [OF that] \<open>r \<le> ?n\<close> by (rule order_trans [rotated])
  moreover have "r = m \<or> (\<exists>x\<in>set (drop k svals). \<exists>y\<in>set vals. r = nat \<bar>x - y\<bar>)"
    using r(3) y(1) unfolding drop by (auto split: if_splits)
  ultimately show ?case using r(1,4) unfolding step drop by blast
qed simp

lemma min_difference_with_half:
  assumes st: "stores d vals nums" "sorted_wrt (<) vals" "vals \<noteq> []"
    and st': "stores e svals snums" "svals \<noteq> []"
    and disj: "set svals \<inter> set vals = {}"
    and range: "\<And>y z. y \<in> set svals \<union> set vals \<Longrightarrow> z \<in> set svals \<union> set vals \<Longrightarrow> \<bar>y - z\<bar> \<le> INT64_MAX"
    and layouts: "distribution_layout d = Inr (values, counts)" "distribution_layout e = Inr (values', counts')"
  shows "\<exists>r. min_difference_with_loop (length svals) 0 values' d values UINT64_MAX = Inr r \<and> 0 < r \<and>
    (\<exists>x\<in>set svals. \<exists>y\<in>set vals. r = nat \<bar>x - y\<bar>) \<and> (\<forall>x\<in>set svals. \<forall>y\<in>set vals. r \<le> nat \<bar>x - y\<bar>)"
proof -
  obtain vs cs where d: "distribution_layout d = Inr (map Some vals @ vs, map Some nums @ cs)"
    using st(1) by (rule storesE)
  obtain s t where e: "distribution_layout e = Inr (map Some svals @ s, map Some snums @ t)"
    using st'(1) by (rule storesE)
  obtain r where r: "min_difference_with_loop (length svals) 0 values' d values UINT64_MAX = Inr r"
    "r = UINT64_MAX \<or> (\<exists>x\<in>set svals. \<exists>y\<in>set vals. r = nat \<bar>x - y\<bar>)"
    "\<forall>x\<in>set svals. \<forall>y\<in>set vals. r \<le> nat \<bar>x - y\<bar>"
    using min_difference_with_loop_exact [OF st d _ disj range, of 0 "length svals" s UINT64_MAX]
      layouts d e by auto
  have "nat \<bar>hd svals - hd vals\<bar> \<le> nat INT64_MAX"
    using range [of "hd svals" "hd vals"] st(3) st'(2) by (intro nat_mono) simp
  also have "\<dots> < UINT64_MAX" by (simp add: INT64_MAX_def UINT64_MAX_def)
  finally have "nat \<bar>hd svals - hd vals\<bar> < UINT64_MAX" .
  moreover have "r \<le> nat \<bar>hd svals - hd vals\<bar>" using r(3) st(3) st'(2) by simp
  ultimately have "r \<noteq> UINT64_MAX" by simp
  then obtain x y where xy: "x \<in> set svals" "y \<in> set vals" "r = nat \<bar>x - y\<bar>" using r(2) by blast
  then have "x \<noteq> y" using disj by blast
  with xy r show ?thesis by auto
qed

lemma min_difference_with_result:
  assumes d1: "stores d1 vals1 nums1" "sorted_wrt (<) vals1" "vals1 \<noteq> []"
    and d2: "stores d2 vals2 nums2" "sorted_wrt (<) vals2" "vals2 \<noteq> []"
    and disj: "set vals1 \<inter> set vals2 = {}"
    and range: "\<forall>y\<in>set vals1 \<union> set vals2. \<forall>z\<in>set vals1 \<union> set vals2. \<bar>y - z\<bar> \<le> INT64_MAX"
  shows "\<exists>r. distribution_min_difference_with d1 d2 = Inr r \<and>
    (\<exists>x\<in>set vals1. \<exists>y\<in>set vals2. r = nat \<bar>x - y\<bar>) \<and> (\<forall>x\<in>set vals1. \<forall>y\<in>set vals2. r \<le> nat \<bar>x - y\<bar>)"
proof -
  obtain values1 counts1 values2 counts2 where layouts: "distribution_layout d1 = Inr (values1, counts1)"
    "distribution_layout d2 = Inr (values2, counts2)" using d1(1) d2(1) by (metis storesE)
  have bins: "num_bins d1 = length vals1" "num_bins d2 = length vals2"
    using d1(1) d2(1) by (simp_all add: stores_def)
  show ?thesis
  proof (cases "length vals2 < length vals1")
    case True
    have "set vals2 \<inter> set vals1 = {}" using disj by blast
    from min_difference_with_half [OF d1 d2(1,3) this _ layouts] range obtain r where
      "min_difference_with_loop (length vals2) 0 values2 d1 values1 UINT64_MAX = Inr r" "0 < r"
      "\<exists>x\<in>set vals2. \<exists>y\<in>set vals1. r = nat \<bar>x - y\<bar>" "\<forall>x\<in>set vals2. \<forall>y\<in>set vals1. r \<le> nat \<bar>x - y\<bar>"
      by blast
    then have "distribution_min_difference_with d1 d2 = Inr r"
      "\<exists>x\<in>set vals1. \<exists>y\<in>set vals2. r = nat \<bar>x - y\<bar>" "\<forall>x\<in>set vals1. \<forall>y\<in>set vals2. r \<le> nat \<bar>x - y\<bar>"
      using True layouts bins d1(3) d2(3)
      by (simp add: distribution_min_difference_with_def, metis abs_minus_commute, metis abs_minus_commute)
    then show ?thesis by blast
  next
    case False
    from min_difference_with_half [OF d2 d1(1,3) disj _ layouts(2,1)] range obtain r where
      "min_difference_with_loop (length vals1) 0 values1 d2 values2 UINT64_MAX = Inr r" "0 < r"
      "\<exists>x\<in>set vals1. \<exists>y\<in>set vals2. r = nat \<bar>x - y\<bar>" "\<forall>x\<in>set vals1. \<forall>y\<in>set vals2. r \<le> nat \<bar>x - y\<bar>"
      by blast
    then show ?thesis using False layouts bins d1(3) d2(3)
      by (auto simp: distribution_min_difference_with_def)
  qed
qed

section \<open>Properties\<close>

text \<open>C9. Collecting a non-empty sequence of values, in any order, and building the distribution gives
  access to the sorted sequence: the length of the distribution is that of the sequence, and the value
  of rank \<open>k\<close> is the \<open>k\<close>-th value in ascending order.\<close>

theorem distribution_sorts_samples:
  assumes env: "benign env" and size: "16 \<le> psize" "psize < 2 ^ 64" and xs: "xs \<noteq> []" "length xs < 2 ^ 59"
  shows "\<exists>b b' d e. distribution_initialize env psize = Inr b \<and>
    insert_seq (distribution_insert env) xs b = Inr b' \<and> distribution_build b' = Inr (d, e) \<and>
    distribution_len d = Inr (length xs) \<and> (\<forall>k<length xs. distribution_nth d k = Inr (sort xs ! k))"
proof -
  obtain b where b: "distribution_initialize env psize = Inr b" "builder_holds b {#}"
    using initialize_holds [OF size] env by (auto simp: benign_def)
  obtain b' where b': "insert_seq (distribution_insert env) xs b = Inr b'" "builder_holds b' (mset xs)"
    using samples.collect [of env b xs] env b(2) xs by auto
  obtain d where d: "distribution_build b' = Inr (d, b'\<lparr>inner := distribution_poison\<rparr>)" "dist_holds d (mset xs)"
    using build_holds [OF b'(2)] xs by auto
  then obtain vals nums where bins: "dist_bins d vals nums" and m: "mset xs = mset (contents vals nums)"
    by (auto simp: dist_holds_def)
  have sorted: "sort xs = contents vals nums"
    using m dist_bins_contents(3) [OF bins] by (intro properties_for_sort) simp_all
  have len: "sum_list nums = length xs"
    using m dist_bins_contents(1) [OF bins] by (metis size_mset)
  show ?thesis
    using b(1) b'(1) d(1) len_result [OF bins] nth_result [OF bins] sorted len by auto
qed

theorem distribution_sorts_samples_witness:
  "\<exists>b b' d e. distribution_initialize example_env 4096 = Inr b \<and>
    insert_seq (distribution_insert example_env) [5, -3, 5, 0] b = Inr b' \<and> distribution_build b' = Inr (d, e) \<and>
    distribution_len d = Inr (length [5, -3, 5, 0 :: int]) \<and>
    (\<forall>k<length [5, -3, 5, 0 :: int]. distribution_nth d k = Inr (sort [5, -3, 5, 0] ! k))"
  by (rule distribution_sorts_samples) (simp_all add: benign_def example_env_def)

text \<open>C23. Counting the samples below a value gives the number of samples that are smaller, or not
  greater; a quantile is a sample with at least the requested number of samples up to it, and fewer than
  that below it, for any rounding of the requested number that does not exceed the number of samples.\<close>

theorem distribution_cdf_exact:
  assumes "dist_holds d m"
  shows "distribution_count_below d v False = Inr (size {#x \<in># m. x < v#}) \<and>
    distribution_count_below d v True = Inr (size {#x \<in># m. x \<le> v#}) \<and>
    (ceil_times (size m) \<le> size m \<longrightarrow> (\<exists>q. distribution_quantile ceil_times d = Inr q \<and> q \<in># m \<and>
       ceil_times (size m) \<le> size {#x \<in># m. x \<le> q#} \<and>
       (0 < ceil_times (size m) \<longrightarrow> size {#x \<in># m. x < q#} < ceil_times (size m))))"
proof -
  obtain vals nums where bins: "dist_bins d vals nums" and m: "m = mset (contents vals nums)"
    using assms by (auto simp: dist_holds_def)
  let ?xs = "contents vals nums"
  note len = dist_bins_contents(1) [OF bins] and sorted = dist_bins_contents(3) [OF bins]
  have size: "size m = sum_list nums" using m len by simp
  have pos: "0 < length ?xs" using dist_bins_contents(4) [OF bins] len by simp
  have counts: "size {#x \<in># m. P x#} = length (filter P ?xs)" for P
    using m by (simp flip: mset_filter)
  have below: "distribution_count_below d v False = Inr (size {#x \<in># m. x < v#})"
    "distribution_count_below d v True = Inr (size {#x \<in># m. x \<le> v#})"
    unfolding counts count_below_result [OF bins]
    by (simp_all add: le_less)
  let ?c = "ceil_times (size m)"
  have quantile: "\<exists>q. distribution_quantile ceil_times d = Inr q \<and> q \<in># m \<and>
       ?c \<le> size {#x \<in># m. x \<le> q#} \<and> (0 < ?c \<longrightarrow> size {#x \<in># m. x < q#} < ?c)"
    if c: "?c \<le> size m"
  proof -
    define k where "k = (if ?c = 0 then 0 else ?c - 1)"
    have k: "k < length ?xs" using c pos m by (auto simp: k_def)
    have "distribution_quantile ceil_times d = distribution_nth d k"
      unfolding distribution_quantile_def len_result [OF bins] k_def size by (simp add: Let_def)
    then have "distribution_quantile ceil_times d = Inr (?xs ! k)"
      using nth_result [OF bins, of k] k len by simp
    moreover have "?xs ! k \<in># m" using k m by simp
    ultimately show ?thesis
      using filter_le_take_sorted [OF sorted k] by (auto simp: counts k_def split: if_splits)
  qed
  from below quantile show ?thesis by blast
qed

definition built_example :: distribution where
  "built_example = \<lparr>allocation = Some ([Some (-5), Some 2, Some 9, None], [Some 1, Some 4, Some 6, None]),
     num_bins = 3, capacity = 4\<rparr>"

lemma built_example_bins: "dist_bins built_example [-5, 2, 9] [1, 3, 2]"
  unfolding dist_bins_def
  by (intro conjI storesI [where vs = "[None]" and cs = "[None]"])
    (simp_all add: built_example_def DISTRIBUTION_BIN_SIZE_def well_binned_def)

lemma built_example_holds: "dist_holds built_example {#-5, 2, 2, 2, 9, 9#}"
  unfolding dist_holds_def
  by (rule exI [of _ "[-5, 2, 9]"], rule exI [of _ "[1, 3, 2]"])
    (use built_example_bins in \<open>simp add: numeral_3_eq_3 numeral_2_eq_2\<close>)

theorem distribution_cdf_exact_witness:
  "distribution_count_below built_example 2 False = Inr 1 \<and>
   distribution_count_below built_example 2 True = Inr 4 \<and>
   (\<exists>q. distribution_quantile (\<lambda>n. n div 2) built_example = Inr q)"
  using distribution_cdf_exact [OF built_example_holds, of 2 "\<lambda>n. n div 2"] by auto

text \<open>The smallest difference within a distribution is computed as the difference between its
  first two values: the loop compares every value with the first one.\<close>

theorem min_difference_is_first_gap:
  assumes "stores d vals nums" "sorted_wrt (<) vals" "vals \<noteq> [] \<Longrightarrow> last vals - hd vals \<le> INT64_MAX"
  shows "distribution_min_difference d =
    Inr (if length vals < 2 then UINT64_MAX else nat (vals ! 1 - vals ! 0))"
  using assms by (rule min_difference_result)

theorem min_difference_is_first_gap_witness:
  "distribution_min_difference
     \<lparr>allocation = Some ([Some 0, Some 10, Some 11], [Some 1, Some 1, Some 1]), num_bins = 3, capacity = 3\<rparr>
   = Inr 10"
  by (subst min_difference_is_first_gap [where vals = "[0, 10, 11]" and nums = "[1, 1, 1]"],
      rule storesI [where vs = "[]" and cs = "[]"])
    (simp_all add: DISTRIBUTION_BIN_SIZE_def INT64_MAX_def)

text \<open>The smallest difference between the values of two distributions without a common value is
  attained by a pair of values and not greater than that of any other pair, provided the values lie
  within the range of \<open>int64_t\<close>.\<close>

theorem min_difference_with_exact:
  assumes "stores d1 vals1 nums1" "sorted_wrt (<) vals1" "vals1 \<noteq> []"
    and "stores d2 vals2 nums2" "sorted_wrt (<) vals2" "vals2 \<noteq> []"
    and "set vals1 \<inter> set vals2 = {}"
    and "\<forall>y\<in>set vals1 \<union> set vals2. \<forall>z\<in>set vals1 \<union> set vals2. \<bar>y - z\<bar> \<le> INT64_MAX"
  shows "\<exists>r. distribution_min_difference_with d1 d2 = Inr r \<and>
    (\<exists>x\<in>set vals1. \<exists>y\<in>set vals2. r = nat \<bar>x - y\<bar>) \<and> (\<forall>x\<in>set vals1. \<forall>y\<in>set vals2. r \<le> nat \<bar>x - y\<bar>)"
  using assms by (rule min_difference_with_result)

theorem min_difference_with_exact_witness:
  "\<exists>r. distribution_min_difference_with example_dist (inner example_builder) = Inr r \<and>
    (\<exists>x\<in>{-5, 2, 9}. \<exists>y\<in>{4}. r = nat \<bar>x - y\<bar>) \<and> (\<forall>x\<in>{-5, 2, 9}. \<forall>y\<in>{4}. r \<le> nat \<bar>x - y\<bar>)"
proof -
  have "stores (inner example_builder) [4] [2]"
    by (rule storesI [where vs = "[]" and cs = "[]"])
      (simp_all add: example_builder_def DISTRIBUTION_BIN_SIZE_def)
  from min_difference_with_exact [OF example_dist_stores _ _ this] show ?thesis
    by (simp add: INT64_MAX_def)
qed

text \<open>Two distributions that share their smallest value: its upper neighbour in the longer one is
  overlooked, so that values at distance 1 are reported to have no difference.\<close>

theorem min_difference_with_overlooks_neighbour:
  "distribution_min_difference_with
     \<lparr>allocation = Some ([Some 0], [Some 1]), num_bins = 1, capacity = 1\<rparr>
     \<lparr>allocation = Some ([Some 0, Some 1], [Some 1, Some 1]), num_bins = 2, capacity = 2\<rparr> = Inr UINT64_MAX"
proof -
  let ?short = "\<lparr>allocation = Some ([Some 0], [Some 1]), num_bins = 1, capacity = 1\<rparr> :: distribution"
  let ?long = "\<lparr>allocation = Some ([Some 0, Some 1], [Some 1, Some 1]), num_bins = 2, capacity = 2\<rparr> :: distribution"
  have "distribution_bin_by_value ?long 0 BIN_NEAREST = Inr 0"
    by (simp add: distribution_bin_by_value_def distribution_layout_def read_cell_def)
  moreover have "neighbour_difference 0 [Some 0, Some 1] 0 2 = Inr 0"
    by (simp add: neighbour_difference_def read_cell_def int64_def INT64_MIN_def INT64_MAX_def)
  moreover have "int64 0 = Inr 0" by (simp add: int64_def INT64_MIN_def INT64_MAX_def)
  ultimately have "min_difference_with_loop (Suc 0) 0 [Some 0] ?long [Some 0, Some 1] UINT64_MAX
      = Inr UINT64_MAX"
    by (simp add: read_cell_def)
  then show ?thesis by (simp add: distribution_min_difference_with_def distribution_layout_def UINT64_MAX_def)
qed

end
