(* ===== verification/DistributionDerive.thy ===== *)
theory DistributionDerive
  imports DistributionQuery "HOL-Library.Signed_Division"
begin

text \<open>
  Distributions derived from other distributions (src/benchmark/distribution.c): resampling, scaling,
  differences and scaled ratios of random samples, and the end of the life cycle of a distribution
  (copying, recycling).

  The results of successive calls of \<open>rand()\<close> are \<open>rnd 0\<close>, \<open>rnd 1\<close> and so on.  A function that consumes
  the builder it gets returns the new distribution together with the poisoned builder.
\<close>

section \<open>Resampling\<close>

fun resample_loop ::
    "heap_env \<Rightarrow> (nat \<Rightarrow> nat) \<Rightarrow> distribution \<Rightarrow> nat \<Rightarrow> nat \<Rightarrow> distribution_builder \<Rightarrow>
     distribution_builder res" where
  "resample_loop env rnd dist 0 i builder = Inr builder"
| "resample_loop env rnd dist (Suc todo) i builder =
     bindR (distribution_choose (rnd i) dist) (\<lambda>value.
     bindR (distribution_insert env builder value) (\<lambda>builder'.
     resample_loop env rnd dist todo (Suc i) builder'))"

definition distribution_resample ::
    "heap_env \<Rightarrow> (nat \<Rightarrow> nat) \<Rightarrow> distribution_builder \<Rightarrow> distribution \<Rightarrow>
     (distribution \<times> distribution_builder) res" where
  "distribution_resample env rnd empty_builder dist =
     ensure_that (distribution_empty empty_builder)
     (bindR (distribution_len dist) (\<lambda>len.
      bindR (resample_loop env rnd dist len 0 empty_builder) distribution_build))"

section \<open>Scaling\<close>

text \<open>The number of samples of a bin, a difference of end ranks that wraps around.\<close>

definition rank_difference :: "nat \<Rightarrow> nat \<Rightarrow> nat" where
  "rank_difference end_rank prev_end_rank = size_wrap (end_rank + 2 ^ 64 - prev_end_rank)"

fun scale_loop ::
    "int \<Rightarrow> nat \<Rightarrow> layout \<Rightarrow> nat \<Rightarrow> nat \<Rightarrow> nat \<Rightarrow> layout \<Rightarrow> layout res" where
  "scale_loop factor bins dist_layout 0 dist_pos prev_end_rank l = Inr l"
| "scale_loop factor bins dist_layout (Suc todo) dist_pos prev_end_rank (values, counts) =
     bindR (read_cell (fst dist_layout) dist_pos) (\<lambda>dist_value.
     bindR (int64 (factor * dist_value)) (\<lambda>scaled_value.
     bindR (read_cell (snd dist_layout) dist_pos) (\<lambda>dist_end_rank.
     assert_that (dist_end_rank > prev_end_rank)
     (let copies = rank_difference dist_end_rank prev_end_rank;
          builder_pos = (if factor > 0 then dist_pos else bins - dist_pos - 1)
      in bindR (write_cell values builder_pos scaled_value) (\<lambda>values'.
         bindR (write_cell counts builder_pos copies) (\<lambda>counts'.
         scale_loop factor bins dist_layout todo (Suc dist_pos) dist_end_rank (values', counts')))))))"

text \<open>The special case of a zero factor: one bin that holds every sample.\<close>

definition scale_zero :: "distribution_builder \<Rightarrow> distribution \<Rightarrow> (distribution \<times> distribution_builder) res" where
  "scale_zero builder dist =
     ensure_that (capacity (inner builder) \<ge> 1)
     (bindR (distribution_layout (inner builder)) (\<lambda>(values, counts).
      bindR (write_cell values 0 0) (\<lambda>values'.
      bindR (distribution_len dist) (\<lambda>len.
      bindR (write_cell counts 0 len) (\<lambda>counts'.
      distribution_build
        (builder\<lparr>inner := (inner builder)\<lparr>allocation := Some (values', counts'), num_bins := 1\<rparr>\<rparr>))))))"

definition distribution_scale ::
    "heap_env \<Rightarrow> distribution_builder \<Rightarrow> int \<Rightarrow> distribution \<Rightarrow>
     (distribution \<times> distribution_builder) res" where
  "distribution_scale env empty_builder factor dist =
     ensure_that (distribution_empty empty_builder)
     (if factor = 0 then scale_zero empty_builder dist
      else
        let bins = num_bins dist in
        bindR (if capacity (inner empty_builder) < bins
               then bindR (distribution_allocate env (capacity dist)) (\<lambda>d.
                    Inr (empty_builder\<lparr>inner := d\<rparr>))
               else Inr empty_builder) (\<lambda>builder.
        bindR (distribution_layout dist) (\<lambda>dist_layout.
        bindR (distribution_layout (inner builder)) (\<lambda>builder_layout.
        bindR (scale_loop factor bins dist_layout bins 0 0 builder_layout) (\<lambda>l.
        distribution_build
          (builder\<lparr>inner := (inner builder)\<lparr>allocation := Some l, num_bins := num_bins dist\<rparr>\<rparr>))))))"

section \<open>Differences and ratios of samples\<close>

text \<open>Differences and ratios share the shape of their loops: for every sample of every bin of one
  distribution, \<open>op\<close> combines its value with a sample drawn from the other distribution by the next call
  of \<open>rand()\<close>, and the result is inserted.  \<open>calls\<close> counts the calls so far.\<close>

fun bin_samples_loop ::
    "heap_env \<Rightarrow> (nat \<Rightarrow> int res) \<Rightarrow> nat \<Rightarrow> nat \<Rightarrow> distribution_builder \<Rightarrow>
     (nat \<times> distribution_builder) res" where
  "bin_samples_loop env draw 0 calls builder = Inr (calls, builder)"
| "bin_samples_loop env draw (Suc todo) calls builder =
     bindR (draw calls) (\<lambda>sample.
     bindR (distribution_insert env builder sample) (\<lambda>builder'.
     bin_samples_loop env draw todo (Suc calls) builder'))"

fun samples_loop ::
    "heap_env \<Rightarrow> (int \<Rightarrow> nat \<Rightarrow> int res) \<Rightarrow> layout \<Rightarrow> nat \<Rightarrow> nat \<Rightarrow> nat \<Rightarrow> nat \<Rightarrow> distribution_builder \<Rightarrow>
     distribution_builder res" where
  "samples_loop env op l 0 pos prev_end_rank calls builder = Inr builder"
| "samples_loop env op l (Suc todo) pos prev_end_rank calls builder =
     bindR (read_cell (fst l) pos) (\<lambda>value.
     bindR (read_cell (snd l) pos) (\<lambda>end_rank.
     bindR (bin_samples_loop env (op value) (rank_difference end_rank prev_end_rank) calls builder)
       (\<lambda>(calls', builder').
     samples_loop env op l todo (Suc pos) end_rank calls' builder')))"

definition sub_sample :: "(nat \<Rightarrow> nat) \<Rightarrow> distribution \<Rightarrow> int \<Rightarrow> int \<Rightarrow> nat \<Rightarrow> int res" where
  "sub_sample rnd longer diff_sign short_value calls =
     bindR (distribution_choose (rnd calls) longer) (\<lambda>long_value.
     bindR (int64 (short_value - long_value)) (\<lambda>diff.
     int64 (diff_sign * diff)))"

definition distribution_sub ::
    "heap_env \<Rightarrow> (nat \<Rightarrow> nat) \<Rightarrow> distribution_builder \<Rightarrow> distribution \<Rightarrow> distribution \<Rightarrow>
     (distribution \<times> distribution_builder) res" where
  "distribution_sub env rnd empty_builder minuend subtrahend =
     ensure_that (distribution_empty empty_builder)
     (bindR (distribution_len minuend) (\<lambda>minuend_len.
      bindR (distribution_len subtrahend) (\<lambda>subtrahend_len.
      let (shorter, longer, diff_sign) =
            (if minuend_len \<le> subtrahend_len then (minuend, subtrahend, 1) else (subtrahend, minuend, -1))
      in bindR (distribution_layout shorter) (\<lambda>short_layout.
         bindR (samples_loop env (sub_sample rnd longer diff_sign) short_layout (num_bins shorter) 0 0 0
                  empty_builder) distribution_build))))"

text \<open>\<open>num_value * factor / denom_value\<close>: the division truncates, and division by zero is undefined.\<close>

definition scaled_ratio :: "int \<Rightarrow> int \<Rightarrow> int \<Rightarrow> int res" where
  "scaled_ratio num_value factor denom_value =
     bindR (int64 (num_value * factor)) (\<lambda>scaled.
     if denom_value = 0 then Inl UndefinedBehaviour else int64 (scaled sdiv denom_value))"

definition distribution_scaled_div ::
    "heap_env \<Rightarrow> (nat \<Rightarrow> nat) \<Rightarrow> distribution_builder \<Rightarrow> distribution \<Rightarrow> int \<Rightarrow> distribution \<Rightarrow>
     (distribution \<times> distribution_builder) res" where
  "distribution_scaled_div env rnd empty_builder num factor denom =
     ensure_that (distribution_empty empty_builder)
     (bindR (distribution_len num) (\<lambda>len1.
      bindR (distribution_len num) (\<lambda>len2.
      if len1 \<le> len2 then
        bindR (distribution_layout num) (\<lambda>num_layout.
        bindR (samples_loop env (\<lambda>num_value calls.
                 bindR (distribution_choose (rnd calls) denom) (\<lambda>denom_value.
                 scaled_ratio num_value factor denom_value))
               num_layout (num_bins num) 0 0 0 empty_builder) distribution_build)
      else
        bindR (distribution_layout denom) (\<lambda>denom_layout.
        bindR (samples_loop env (\<lambda>denom_value calls.
                 bindR (distribution_choose (rnd calls) num) (\<lambda>num_value.
                 scaled_ratio num_value factor denom_value))
               denom_layout (num_bins denom) 0 0 0 empty_builder) distribution_build))))"

section \<open>Copying and recycling\<close>

definition distribution_clone :: "heap_env \<Rightarrow> distribution \<Rightarrow> distribution res" where
  "distribution_clone env dist =
     bindR (distribution_allocate env (capacity dist)) (\<lambda>result.
     ensure_that (capacity result = capacity dist)
       (Inr (result\<lparr>allocation := allocation dist, num_bins := num_bins dist\<rparr>)))"

text \<open>The builder, and the poisoned distribution.\<close>

definition distribution_reset :: "distribution \<Rightarrow> distribution_builder \<times> distribution" where
  "distribution_reset dist =
     (\<lparr>inner = \<lparr>allocation = allocation dist, num_bins = 0, capacity = capacity dist\<rparr>\<rparr>,
      distribution_poison)"

section \<open>The loops insert a sequence of samples\<close>

lemma resample_loop_insert_seq:
  assumes "\<And>k. i \<le> k \<Longrightarrow> k < i + todo \<Longrightarrow> distribution_choose (rnd k) dist = Inr (g k)"
  shows "resample_loop env rnd dist todo i b = insert_seq (distribution_insert env) (map g [i..<i + todo]) b"
  using assms
proof (induction todo arbitrary: i b)
  case (Suc todo)
  have "[i..<i + Suc todo] = i # [Suc i..<Suc i + todo]" by (simp add: upt_conv_Cons del: upt_Suc)
  moreover have "resample_loop env rnd dist todo (Suc i)
      = insert_seq (distribution_insert env) (map g [Suc i..<Suc i + todo])"
    using Suc.prems by (intro ext Suc.IH) simp
  ultimately show ?case using Suc.prems [of i] by (simp del: upt_Suc)
qed simp

lemma bin_samples_loop_insert_seq:
  assumes "\<And>k. calls \<le> k \<Longrightarrow> k < calls + todo \<Longrightarrow> draw k = Inr (g k)"
  shows "bin_samples_loop env draw todo calls b =
    bindR (insert_seq (distribution_insert env) (map g [calls..<calls + todo]) b) (\<lambda>b'. Inr (calls + todo, b'))"
  using assms
proof (induction todo arbitrary: calls b)
  case (Suc todo)
  have "[calls..<calls + Suc todo] = calls # [Suc calls..<Suc calls + todo]"
    by (simp add: upt_conv_Cons del: upt_Suc)
  moreover have "bin_samples_loop env draw todo (Suc calls) =
      (\<lambda>b'. bindR (insert_seq (distribution_insert env) (map g [Suc calls..<Suc calls + todo]) b')
        (\<lambda>b''. Inr (Suc calls + todo, b'')))"
    using Suc.prems by (intro ext Suc.IH) simp
  ultimately show ?case using Suc.prems [of calls] by (simp add: bindR_assoc del: upt_Suc)
qed simp

lemma rank_difference_less: "a < b \<Longrightarrow> b < 2 ^ 64 \<Longrightarrow> rank_difference b a = b - a"
proof -
  assume "a < b" "b < 2 ^ 64"
  then have "b + 2 ^ 64 - a = b - a + 2 ^ 64" by simp
  then show ?thesis using \<open>b < 2 ^ 64\<close> unfolding rank_difference_def size_wrap_def
    by (simp only: mod_add_self2) simp
qed

lemma samples_loop_insert_seq:
  assumes len: "length nums = length vals" and pos: "\<forall>n\<in>set nums. 0 < n" and small: "sum_list nums < 2 ^ 64"
    and op: "\<And>k. k < sum_list nums \<Longrightarrow> op (contents vals nums ! k) k = Inr (g k)"
    and p: "p + todo = length vals"
  shows "samples_loop env op (map Some vals @ vs, map Some (sums 0 nums) @ cs) todo p
      (sum_list (take p nums)) (sum_list (take p nums)) b =
    insert_seq (distribution_insert env) (map g [sum_list (take p nums)..<sum_list nums]) b"
  using p
proof (induction todo arbitrary: p b)
  case (Suc todo)
  let ?a = "sum_list (take p nums)" and ?b = "sum_list (take (Suc p) nums)"
  have p: "p < length vals" "p < length nums" using Suc.prems len by auto
  have ab: "?a < ?b" using sum_list_take_strict_mono [OF pos, of p "Suc p"] p by simp
  have "sum_list (take (Suc p) nums) + sum_list (drop (Suc p) nums) = sum_list nums"
    by (metis append_take_drop_id sum_list_append)
  then have b: "?b \<le> sum_list nums" by simp
  have bin: "bin_samples_loop env (op (vals ! p)) (?b - ?a) ?a b =
      bindR (insert_seq (distribution_insert env) (map g [?a..<?a + (?b - ?a)]) b) (\<lambda>b'. Inr (?a + (?b - ?a), b'))"
    for b
  proof (rule bin_samples_loop_insert_seq)
    fix k assume "?a \<le> k" "k < ?a + (?b - ?a)"
    then have "contents vals nums ! k = vals ! p" "k < sum_list nums"
      using contents_nth [OF len p(1), of k] ab b by simp_all
    then show "op (vals ! p) k = Inr (g k)" using op [of k] by simp
  qed
  have "samples_loop env op (map Some vals @ vs, map Some (sums 0 nums) @ cs) (Suc todo) p ?a ?a b =
      bindR (insert_seq (distribution_insert env) (map g [?a..<?b]) b)
        (insert_seq (distribution_insert env) (map g [?b..<sum_list nums]))"
    using bin [of b] Suc.IH [of "Suc p"] Suc.prems p ab b small
    by (cases "insert_seq (distribution_insert env) (map g [?a..<?b]) b")
      (simp_all add: cell_simps sums_nth rank_difference_less)
  also have "\<dots> = insert_seq (distribution_insert env) (map g ([?a..<?b] @ [?b..<sum_list nums])) b"
    by (simp add: insert_seq_append)
  also have "[?a..<?b] @ [?b..<sum_list nums] = [?a..<sum_list nums]"
    using upt_add_eq_append [of ?a ?b "sum_list nums - ?b"] ab b by simp
  finally show ?case .
qed (use len in simp)

section \<open>Samples of derived distributions\<close>

lemma collect_and_build:
  assumes env: "benign env" and b: "builder_holds b {#}" and xs: "xs \<noteq> []" "length xs < 2 ^ 59"
  shows "\<exists>d e. bindR (insert_seq (distribution_insert env) xs b) distribution_build = Inr (d, e) \<and>
    dist_holds d (mset xs)"
proof -
  obtain b' where "insert_seq (distribution_insert env) xs b = Inr b'" "builder_holds b' (mset xs)"
    using samples.collect [of env b xs] env b xs by auto
  then show ?thesis using build_holds [of b' "mset xs"] xs by auto
qed

text \<open>The draws of a sequence of random numbers.\<close>

definition draws :: "(nat \<Rightarrow> nat) \<Rightarrow> int list \<Rightarrow> nat \<Rightarrow> int list" where
  "draws rnd xs n = map (\<lambda>k. xs ! (rnd k mod length xs)) [0..<n]"

lemma set_draws: "xs \<noteq> [] \<Longrightarrow> set (draws rnd xs n) \<subseteq> set xs"
  by (auto simp: draws_def)

lemma length_draws [simp]: "length (draws rnd xs n) = n"
  by (simp add: draws_def)

lemma choose_draw:
  assumes "dist_bins d vals nums" "k < n"
  shows "distribution_choose (rnd k) d = Inr (draws rnd (contents vals nums) n ! k)"
    "draws rnd (contents vals nums) n ! k \<in> set vals"
  using choose_result [OF assms(1), of "rnd k"] dist_bins_contents [OF assms(1)] assms(2)
  by (simp_all add: draws_def)

lemma map2_as_map_nth:
  "length xs = length ys \<Longrightarrow> map2 f xs ys = map (\<lambda>k. f (xs ! k) (ys ! k)) [0..<length xs]"
  by (rule nth_equalityI) auto

text \<open>The whole loop over one distribution, with draws from another.\<close>

lemma samples_loop_build:
  assumes env: "benign env" and b: "builder_holds b {#}"
    and bins: "dist_bins d vals nums" and other: "dist_bins d' vals' nums'"
    and layout: "distribution_layout d = Inr l"
    and op: "\<And>x y k. x \<in> set vals \<Longrightarrow> y \<in> set vals' \<Longrightarrow> distribution_choose (rnd k) d' = Inr y \<Longrightarrow>
      op x k = Inr (f x y)"
  shows "\<exists>r e. bindR (samples_loop env op l (num_bins d) 0 0 0 b) distribution_build = Inr (r, e) \<and>
    dist_holds r (mset (map2 f (contents vals nums) (draws rnd (contents vals' nums') (sum_list nums))))"
proof -
  obtain vs cs where d: "distribution_layout d = Inr (map Some vals @ vs, map Some (sums 0 nums) @ cs)"
    "num_bins d = length vals" "length nums = length vals" "0 < length vals" "\<forall>n\<in>set nums. 0 < n"
    "sum_list nums < 2 ^ 59"
    using bins by (elim dist_binsE)
  let ?xs = "contents vals nums" and ?ys = "draws rnd (contents vals' nums') (sum_list nums)"
  note len = dist_bins_contents(1) [OF bins]
  have "op (?xs ! k) k = Inr (f (?xs ! k) (?ys ! k))" if k: "k < sum_list nums" for k
  proof (rule op)
    show "?xs ! k \<in> set vals" using k len dist_bins_contents(2) [OF bins] by (metis nth_mem)
    show "?ys ! k \<in> set vals'" "distribution_choose (rnd k) d' = Inr (?ys ! k)"
      by (rule choose_draw [OF other k])+
  qed
  then have "samples_loop env op (map Some vals @ vs, map Some (sums 0 nums) @ cs) (length vals) 0
        (sum_list (take 0 nums)) (sum_list (take 0 nums)) b =
      insert_seq (distribution_insert env)
        (map (\<lambda>k. f (?xs ! k) (?ys ! k)) [sum_list (take 0 nums)..<sum_list nums]) b"
    using d by (intro samples_loop_insert_seq) auto
  moreover have "l = (map Some vals @ vs, map Some (sums 0 nums) @ cs)" using d(1) layout by simp
  ultimately have "samples_loop env op l (num_bins d) 0 0 0 b =
      insert_seq (distribution_insert env) (map (\<lambda>k. f (?xs ! k) (?ys ! k)) [0..<sum_list nums]) b"
    using d(2) by simp
  also have "map (\<lambda>k. f (?xs ! k) (?ys ! k)) [0..<sum_list nums] = map2 f ?xs ?ys"
    using len by (simp add: map2_as_map_nth)
  finally have loop: "samples_loop env op l (num_bins d) 0 0 0 b
      = insert_seq (distribution_insert env) (map2 f ?xs ?ys) b" .
  have "length (map2 f ?xs ?ys) \<noteq> 0" "length (map2 f ?xs ?ys) < 2 ^ 59"
    using len d(6) dist_bins_contents(4) [OF bins] by (simp_all del: sum_list_eq_0_iff)
  then show ?thesis unfolding loop using collect_and_build [OF env b] by (metis length_0_conv)
qed

section \<open>Scaling the bins\<close>

definition target_pos :: "int \<Rightarrow> nat \<Rightarrow> nat \<Rightarrow> nat" where
  "target_pos factor bins i = (if factor > 0 then i else bins - i - 1)"

lemma target_pos_less: "i < n \<Longrightarrow> target_pos factor n i < n"
  by (simp add: target_pos_def)

lemma target_pos_inj: "i < n \<Longrightarrow> j < n \<Longrightarrow> target_pos factor n i = target_pos factor n j \<longleftrightarrow> i = j"
  by (auto simp: target_pos_def)

text \<open>The end of the loop: bin \<open>i\<close> is in its place, scaled.\<close>

lemma scale_loop_exact:
  assumes len: "length nums = length vals" and pos: "\<forall>n\<in>set nums. 0 < n" and small: "sum_list nums < 2 ^ 64"
    and fits: "\<forall>v\<in>set vals. int64 (factor * v) = Inr (factor * v)"
    and p: "p + todo = length vals" and room: "length vals \<le> length vs" "length cs = length vs"
  shows "\<exists>vs' cs'. scale_loop factor (length vals) (map Some vals @ r, map Some (sums 0 nums) @ s) todo p
      (sum_list (take p nums)) (vs, cs) = Inr (vs', cs') \<and> length vs' = length vs \<and> length cs' = length cs \<and>
    (\<forall>i<length vals. let t = target_pos factor (length vals) i in
       (vs' ! t = (if p \<le> i then Some (factor * vals ! i) else vs ! t)) \<and>
       (cs' ! t = (if p \<le> i then Some (nums ! i) else cs ! t)))"
  using p room
proof (induction todo arbitrary: p vs cs)
  case (Suc todo)
  let ?n = "length vals" and ?t = "target_pos factor (length vals) p"
  have p: "p < ?n" "p < length nums" using Suc.prems len by auto
  have t: "?t < length vs" "?t < length cs" using target_pos_less [OF p(1), of factor] Suc.prems by auto
  have ranks: "sum_list (take p nums) < sum_list (take (Suc p) nums)"
    using sum_list_take_strict_mono [OF pos, of p "Suc p"] p by simp
  have "sum_list (take (Suc p) nums) \<le> sum_list nums"
    by (metis append_take_drop_id le_add1 sum_list_append)
  then have diff: "rank_difference (sum_list (take (Suc p) nums)) (sum_list (take p nums)) = nums ! p"
    using ranks small p by (subst rank_difference_less) (auto simp: take_Suc_conv_app_nth)
  let ?vs = "vs[?t := Some (factor * vals ! p)]" and ?cs = "cs[?t := Some (nums ! p)]"
  have step: "scale_loop factor ?n (map Some vals @ r, map Some (sums 0 nums) @ s) (Suc todo) p
      (sum_list (take p nums)) (vs, cs) =
    scale_loop factor ?n (map Some vals @ r, map Some (sums 0 nums) @ s) todo (Suc p)
      (sum_list (take (Suc p) nums)) (?vs, ?cs)"
    using p t ranks diff fits
    by (simp add: cell_simps sums_nth Let_def write_cell_def flip: target_pos_def)
  have next_p: "Suc p + todo = ?n" "?n \<le> length ?vs" "length ?cs = length ?vs" using Suc.prems by auto
  obtain vs' cs' where IH: "scale_loop factor ?n (map Some vals @ r, map Some (sums 0 nums) @ s) todo (Suc p)
      (sum_list (take (Suc p) nums)) (?vs, ?cs) = Inr (vs', cs')" "length vs' = length ?vs" "length cs' = length ?cs"
    "\<And>i. i < ?n \<Longrightarrow> vs' ! target_pos factor ?n i =
        (if Suc p \<le> i then Some (factor * vals ! i) else ?vs ! target_pos factor ?n i)"
    "\<And>i. i < ?n \<Longrightarrow> cs' ! target_pos factor ?n i =
        (if Suc p \<le> i then Some (nums ! i) else ?cs ! target_pos factor ?n i)"
    using Suc.IH [OF next_p] unfolding Let_def by blast
  have "vs' ! target_pos factor ?n i = (if p \<le> i then Some (factor * vals ! i) else vs ! target_pos factor ?n i)"
    "cs' ! target_pos factor ?n i = (if p \<le> i then Some (nums ! i) else cs ! target_pos factor ?n i)"
    if "i < ?n" for i
    using IH(4,5) [OF that] target_pos_inj [OF p(1) that, of factor] t by (auto simp: nth_list_update)
  then show ?case using IH(1-3) unfolding step Let_def by auto
qed simp

lemma mset_concat_rev: "mset (concat (rev xss)) = mset (concat xss)"
  by (induction xss) auto

lemma scaled_bins:
  assumes wb: "well_binned vals nums" and f: "factor \<noteq> 0"
  defines "g \<equiv> \<lambda>x. if factor > 0 then x else rev x" and "h \<equiv> \<lambda>x. if factor > 0 then x else rev x"
  shows "well_binned (map ((*) factor) (g vals)) (h nums)"
    "mset (contents (map ((*) factor) (g vals)) (h nums)) = image_mset ((*) factor) (mset (contents vals nums))"
proof -
  have len: "length nums = length vals" and sorted: "sorted_wrt (<) vals" and pos: "\<forall>n\<in>set nums. 0 < n"
    using wb by (auto simp: well_binned_def)
  have "sorted_wrt (<) (map ((*) factor) (g vals))"
    using sorted f by (auto simp: g_def sorted_wrt_map sorted_wrt_rev elim!: sorted_wrt_mono_rel [rotated])
  then show "well_binned (map ((*) factor) (g vals)) (h nums)"
    using len pos by (auto simp: well_binned_def g_def h_def)
  have scaled: "contents (map ((*) factor) xs) ys = map ((*) factor) (contents xs ys)" for xs ys
    by (simp add: contents_def zip_map1 map_concat o_def case_prod_unfold)
  have "mset (contents (g vals) (h nums)) = mset (contents vals nums)"
    using len by (simp add: g_def h_def contents_def zip_rev rev_map [symmetric] mset_concat_rev)
  then show "mset (contents (map ((*) factor) (g vals)) (h nums))
      = image_mset ((*) factor) (mset (contents vals nums))"
    by (simp add: scaled)
qed

lemma empty_builder_stores: "builder_holds b {#} \<longleftrightarrow> stores (inner b) [] []"
proof
  assume "builder_holds b {#}"
  then obtain vals nums where st: "stores (inner b) vals nums" "well_binned vals nums" "contents vals nums = []"
    by (auto simp: builder_holds_def)
  then have "vals = []" using set_contents [OF st(2)] by simp
  with st show "stores (inner b) [] []" by (auto simp: well_binned_def)
qed (rule fresh_builder_holds)

text \<open>Cells that hold the scaled bins, whatever order they were written in.\<close>

lemma scaled_cells:
  assumes "\<And>i. i < length xs \<Longrightarrow> cells ! target_pos factor (length xs) i = Some (f (xs ! i))"
    and "length xs \<le> length cells"
  shows "cells = map Some (map f (if factor > 0 then xs else rev xs)) @ drop (length xs) cells"
proof (rule nth_equalityI)
  fix j assume "j < length cells"
  show "cells ! j = (map Some (map f (if factor > 0 then xs else rev xs)) @ drop (length xs) cells) ! j"
  proof (cases "j < length xs")
    case True
    with assms(1) [of "target_pos factor (length xs) j"] show ?thesis
      by (auto simp: target_pos_def nth_append rev_nth split: if_splits)
  qed (use assms(2) in \<open>simp add: nth_append\<close>)
qed (use assms(2) in simp)

lemma scale_nonzero_holds:
  assumes b: "stores (inner b) [] []" and bins: "dist_bins d vals nums" and f: "factor \<noteq> 0"
    and fits: "\<forall>v\<in>set vals. int64 (factor * v) = Inr (factor * v)"
    and room: "num_bins d \<le> capacity (inner b)"
    and layouts: "distribution_layout d = Inr dl" "distribution_layout (inner b) = Inr bl"
  shows "\<exists>l r e. scale_loop factor (num_bins d) dl (num_bins d) 0 0 bl = Inr l \<and>
    distribution_build (b\<lparr>inner := (inner b)\<lparr>allocation := Some l, num_bins := num_bins d\<rparr>\<rparr>) = Inr (r, e) \<and>
    dist_holds r (image_mset ((*) factor) (mset (contents vals nums)))"
proof -
  obtain xs ys where d: "distribution_layout d = Inr (map Some vals @ xs, map Some (sums 0 nums) @ ys)"
    "num_bins d = length vals" "length nums = length vals" "0 < length vals" "\<forall>n\<in>set nums. 0 < n"
    "sum_list nums < 2 ^ 59"
    using bins by (elim dist_binsE)
  have wb: "well_binned vals nums" using bins by (simp add: dist_bins_def)
  obtain vs cs where e: "distribution_layout (inner b) = Inr (vs, cs)" "length vs = capacity (inner b)"
    "length cs = length vs" "0 < capacity (inner b)" "capacity (inner b) * DISTRIBUTION_BIN_SIZE < 2 ^ 64"
    using b by (elim storesE) simp
  let ?n = "length vals" and ?t = "target_pos factor (length vals)"
  have "?n \<le> length vs" using room d(2) e(2) by simp
  then obtain vs' cs' where loop: "scale_loop factor ?n dl ?n 0 0 bl = Inr (vs', cs')"
    "length vs' = length vs" "length cs' = length cs"
    "\<And>i. i < ?n \<Longrightarrow> vs' ! ?t i = Some (factor * vals ! i)" "\<And>i. i < ?n \<Longrightarrow> cs' ! ?t i = Some (nums ! i)"
    using scale_loop_exact [OF d(3,5) _ fits, of 0 ?n vs cs xs ys] d(1,6) layouts e by (auto simp: Let_def)
  let ?vals = "map ((*) factor) (if factor > 0 then vals else rev vals)"
    and ?nums = "if factor > 0 then nums else rev nums"
  have cells: "vs' = map Some ?vals @ drop ?n vs'" "cs' = map Some ?nums @ drop ?n cs'"
    using scaled_cells [of vals vs' factor "(*) factor"] scaled_cells [of nums cs' factor "\<lambda>x. x"]
      loop \<open>?n \<le> length vs\<close> e(3) d(3) by simp_all
  let ?b = "b\<lparr>inner := (inner b)\<lparr>allocation := Some (vs', cs'), num_bins := num_bins d\<rparr>\<rparr>"
  have "stores (inner ?b) ?vals ?nums"
    using cells loop e d(2,3) \<open>?n \<le> length vs\<close>
    by (intro storesI [where vs = "drop ?n vs'" and cs = "drop ?n cs'"]) auto
  moreover have "well_binned ?vals ?nums" "mset (contents ?vals ?nums) = image_mset ((*) factor) (mset (contents vals nums))"
    using scaled_bins [OF wb f] by simp_all
  moreover have "?vals \<noteq> []" "sum_list ?nums < 2 ^ 59" using d by auto
  ultimately show ?thesis
    using build_bins [of ?b ?vals ?nums] loop(1) d(2) unfolding dist_holds_def by (metis)
qed

lemma scale_zero_holds:
  assumes b: "stores (inner b) [] []" and bins: "dist_bins d vals nums"
  shows "\<exists>r e. scale_zero b d = Inr (r, e) \<and> dist_holds r (replicate_mset (sum_list nums) 0)"
proof -
  obtain vs cs where e: "distribution_layout (inner b) = Inr (vs, cs)" "length vs = capacity (inner b)"
    "length cs = length vs" "0 < capacity (inner b)" "capacity (inner b) * DISTRIBUTION_BIN_SIZE < 2 ^ 64"
    using b by (elim storesE) simp
  obtain v vs' c cs' where cells: "vs = v # vs'" "cs = c # cs'" using e by (cases vs; cases cs) auto
  have small: "sum_list nums < 2 ^ 59" using bins by (simp add: dist_bins_def)
  have "well_binned [0] [sum_list nums]" using dist_bins_contents(4) [OF bins] by (simp add: well_binned_def)
  let ?b = "b\<lparr>inner := (inner b)\<lparr>allocation := Some (Some 0 # vs', Some (sum_list nums) # cs'), num_bins := 1\<rparr>\<rparr>"
  have "stores (inner ?b) [0] [sum_list nums]"
    using e cells by (intro storesI [where vs = vs' and cs = cs']) auto
  with build_bins [of ?b "[0]" "[sum_list nums]"] \<open>well_binned [0] [sum_list nums]\<close> small
  obtain r where "distribution_build ?b = Inr (r, ?b\<lparr>inner := distribution_poison\<rparr>)" "dist_bins r [0] [sum_list nums]"
    by auto
  moreover have "scale_zero b d = distribution_build ?b"
    using e cells len_result [OF bins] by (simp add: scale_zero_def write_cell_def Suc_le_eq)
  moreover have "mset (contents [0] [sum_list nums]) = replicate_mset (sum_list nums) (0 :: int)" by simp
  ultimately show ?thesis unfolding dist_holds_def by metis
qed

lemma abs_sdiv_le: "\<bar>a sdiv b\<bar> \<le> \<bar>a :: int\<bar>"
proof -
  have "\<bar>a\<bar> div \<bar>b\<bar> \<le> \<bar>a\<bar>"
    using zdiv_mono2 [of "\<bar>a\<bar>" 1 "\<bar>b\<bar>"] by (cases "b = 0") auto
  then show ?thesis by (simp add: signed_divide_int_def abs_mult pos_imp_zdiv_nonneg_iff)
qed

section \<open>Properties\<close>

text \<open>C25. Scaling multiplies every sample by the factor, positive, negative or zero, as long as the
  products fit \<open>int64_t\<close>; the result is again sorted, and may need a larger allocation than the builder
  has.\<close>

theorem distribution_scale_exact:
  assumes env: "benign env" and b: "builder_holds b {#}" and d: "dist_holds d m"
    and fits: "\<forall>x\<in>set_mset m. INT64_MIN \<le> factor * x \<and> factor * x \<le> INT64_MAX"
  shows "\<exists>r e. distribution_scale env b factor d = Inr (r, e) \<and> dist_holds r (image_mset ((*) factor) m)"
proof -
  obtain vals nums where bins: "dist_bins d vals nums" and m: "m = mset (contents vals nums)"
    using d by (auto simp: dist_holds_def)
  have st: "stores (inner b) [] []" using b by (simp add: empty_builder_stores)
  then have empty: "distribution_empty b" by (simp add: distribution_empty_def stores_def)
  show ?thesis
  proof (cases "factor = 0")
    case True
    then have "(*) factor = (\<lambda>_. 0)" by auto
    then have "image_mset ((*) factor) m = replicate_mset (sum_list nums) 0"
      using m dist_bins_contents(1) [OF bins] by (simp add: image_mset_const_eq)
    then show ?thesis using scale_zero_holds [OF st bins] empty True by (simp add: distribution_scale_def)
  next
    case False
    have fits': "\<forall>v\<in>set vals. int64 (factor * v) = Inr (factor * v)"
      using fits m dist_bins_contents(2) [OF bins] by (simp add: int64_def)
    obtain dl where dl: "distribution_layout d = Inr dl" using bins by (elim dist_binsE) blast
    have cap: "num_bins d \<le> capacity d" "0 < capacity d" "capacity d * DISTRIBUTION_BIN_SIZE < 2 ^ 64"
      using bins by (auto simp: dist_bins_def stores_def)
    let ?b = "if capacity (inner b) < num_bins d then b\<lparr>inner := \<lparr>allocation =
      Some (replicate (capacity d) None, replicate (capacity d) None), num_bins = 0, capacity = capacity d\<rparr>\<rparr> else b"
    have st': "stores (inner ?b) [] []" "num_bins d \<le> capacity (inner ?b)"
      using st cap by (auto intro!: storesI [where vs = "replicate (capacity d) None" and cs = "replicate (capacity d) None"])
    then obtain bl where bl: "distribution_layout (inner ?b) = Inr bl" by (elim storesE)
    have "(if capacity (inner b) < num_bins d
         then bindR (distribution_allocate env (capacity d)) (\<lambda>d. Inr (b\<lparr>inner := d\<rparr>)) else Inr b) = Inr ?b"
      using cap env by (simp add: distribution_allocate_ok benign_def)
    then show ?thesis
      using scale_nonzero_holds [OF st'(1) bins False fits' st'(2) dl bl] empty False dl bl m
      unfolding distribution_scale_def Let_def by (auto simp del: if_split)
  qed
qed

theorem distribution_scale_exact_witness:
  "\<exists>r e. distribution_scale example_env
       \<lparr>inner = \<lparr>allocation = Some ([None], [None]), num_bins = 0, capacity = 1\<rparr>\<rparr> (-2) built_example = Inr (r, e) \<and>
     dist_holds r {#10, -4, -4, -4, -18, -18#}"
  using distribution_scale_exact [OF _ _ built_example_holds, of example_env
      "\<lparr>inner = \<lparr>allocation = Some ([None], [None]), num_bins = 0, capacity = 1\<rparr>\<rparr>" "-2"]
  by (simp add: benign_def example_env_def empty_builder_stores stores_def DISTRIBUTION_BIN_SIZE_def
      INT64_MIN_def INT64_MAX_def)

text \<open>Resampling gives a distribution with as many samples, all of them samples of the original one:
  the draws of the random number generator.\<close>

theorem distribution_resample_samples:
  assumes env: "benign env" and b: "builder_holds b {#}" and d: "dist_holds d m"
  shows "\<exists>r e. distribution_resample env rnd b d = Inr (r, e) \<and>
    dist_holds r (mset (draws rnd (sorted_list_of_multiset m) (size m))) \<and>
    set (draws rnd (sorted_list_of_multiset m) (size m)) \<subseteq> set_mset m"
proof -
  obtain vals nums where bins: "dist_bins d vals nums" and m: "m = mset (contents vals nums)"
    using d by (auto simp: dist_holds_def)
  note c = dist_bins_contents [OF bins]
  let ?ys = "draws rnd (contents vals nums) (sum_list nums)"
  have "resample_loop env rnd d (sum_list nums) 0 b =
      insert_seq (distribution_insert env) (map (\<lambda>k. ?ys ! k) [0..<0 + sum_list nums]) b"
    using choose_draw(1) [OF bins] by (intro resample_loop_insert_seq) simp
  also have "map (\<lambda>k. ?ys ! k) [0..<0 + sum_list nums] = ?ys" by (simp add: map_nth [of ?ys, simplified])
  finally have "distribution_resample env rnd b d =
      bindR (insert_seq (distribution_insert env) ?ys b) distribution_build"
    using builder_holds_empty_iff [OF b] len_result [OF bins] by (simp add: distribution_resample_def)
  moreover have "length ?ys \<noteq> 0" "length ?ys < 2 ^ 59"
    using c(4) bins by (simp_all add: dist_bins_def del: sum_list_eq_0_iff)
  ultimately obtain r e where "distribution_resample env rnd b d = Inr (r, e)" "dist_holds r (mset ?ys)"
    using collect_and_build [OF env b, of ?ys] by (metis length_0_conv)
  moreover have "sorted_list_of_multiset m = contents vals nums" using m c(3) by (simp add: sorted_sort_id)
  moreover have "size m = sum_list nums" using m c(1) by simp
  moreover have "set ?ys \<subseteq> set_mset m" using set_draws [OF c(5)] m by simp
  ultimately show ?thesis by auto
qed

definition fresh_builder :: distribution_builder where
  "fresh_builder = \<lparr>inner = \<lparr>allocation = Some (replicate 4 None, replicate 4 None), num_bins = 0, capacity = 4\<rparr>\<rparr>"

lemma fresh_builder_empty: "builder_holds fresh_builder {#}"
  by (simp add: fresh_builder_def empty_builder_stores stores_def DISTRIBUTION_BIN_SIZE_def)

lemma example_env_benign: "benign example_env"
  by (simp add: benign_def example_env_def)

theorem distribution_resample_samples_witness:
  "\<exists>r e. distribution_resample example_env (\<lambda>k. 7 * k) fresh_builder built_example = Inr (r, e) \<and>
     dist_holds r (mset (draws (\<lambda>k. 7 * k) (sorted_list_of_multiset {#-5, 2, 2, 2, 9, 9#})
       (size {#-5, 2, 2, 2, 9, 9 :: int#})))"
  using distribution_resample_samples [OF example_env_benign fresh_builder_empty built_example_holds, of "\<lambda>k. 7 * k"]
  by blast

text \<open>The difference of two distributions uses every sample of the one with fewer samples once, paired
  with draws from the other one, and the result holds the differences minuend - subtrahend of the pairs,
  as long as the differences fit \<open>int64_t\<close>.\<close>

theorem distribution_sub_samples:
  assumes env: "benign env" and b: "builder_holds b {#}" and d1: "dist_holds d1 m1" and d2: "dist_holds d2 m2"
    and fits: "\<forall>x\<in>set_mset m1. \<forall>y\<in>set_mset m2. \<bar>x - y\<bar> \<le> INT64_MAX"
  shows "\<exists>r e xs ys. distribution_sub env rnd b d1 d2 = Inr (r, e) \<and>
    length xs = length ys \<and> set xs \<subseteq> set_mset m1 \<and> set ys \<subseteq> set_mset m2 \<and>
    (if size m1 \<le> size m2 then mset xs = m1 else mset ys = m2) \<and>
    dist_holds r (mset (map2 (-) xs ys))"
proof -
  obtain v1 n1 where bins1: "dist_bins d1 v1 n1" and m1: "m1 = mset (contents v1 n1)"
    using d1 by (auto simp: dist_holds_def)
  obtain v2 n2 where bins2: "dist_bins d2 v2 n2" and m2: "m2 = mset (contents v2 n2)"
    using d2 by (auto simp: dist_holds_def)
  obtain l1 l2 where l: "distribution_layout d1 = Inr l1" "distribution_layout d2 = Inr l2"
    using bins1 bins2 by (elim dist_binsE) blast
  note c1 = dist_bins_contents [OF bins1] and c2 = dist_bins_contents [OF bins2]
  have fits': "int64 (x - y) = Inr (x - y)" "int64 (y - x) = Inr (y - x)"
    if "x \<in> set v1" "y \<in> set v2" for x y
    using fits m1 m2 that c1(2) c2(2) by (auto intro!: int64_fits simp: abs_minus_commute)
  note start = distribution_sub_def builder_holds_empty_iff [OF b] len_result [OF bins1] len_result [OF bins2]
  have sizes: "size m1 = sum_list n1" "size m2 = sum_list n2" using m1 m2 c1(1) c2(1) by simp_all
  show ?thesis
  proof (cases "sum_list n1 \<le> sum_list n2")
    case True
    let ?ys = "draws rnd (contents v2 n2) (sum_list n1)"
    have "\<exists>r e. bindR (samples_loop env (sub_sample rnd d2 1) l1 (num_bins d1) 0 0 0 b) distribution_build
        = Inr (r, e) \<and> dist_holds r (mset (map2 (-) (contents v1 n1) ?ys))"
      using fits' by (intro samples_loop_build [OF env b bins1 bins2 l(1)]) (simp add: sub_sample_def)
    moreover have "set ?ys \<subseteq> set_mset m2" using set_draws [OF c2(5)] m2 by simp
    moreover have "distribution_sub env rnd b d1 d2 =
        bindR (samples_loop env (sub_sample rnd d2 1) l1 (num_bins d1) 0 0 0 b) distribution_build"
      using True l by (simp add: start)
    moreover have "length (contents v1 n1) = length ?ys" using c1(1) by simp
    ultimately show ?thesis using True m1 sizes by (metis set_mset_mset subset_refl)
  next
    case False
    let ?xs = "draws rnd (contents v1 n1) (sum_list n2)"
    have "\<exists>r e. bindR (samples_loop env (sub_sample rnd d1 (-1)) l2 (num_bins d2) 0 0 0 b) distribution_build
        = Inr (r, e) \<and> dist_holds r (mset (map2 (\<lambda>y x. x - y) (contents v2 n2) ?xs))"
      using fits' by (intro samples_loop_build [OF env b bins2 bins1 l(2)]) (simp add: sub_sample_def)
    moreover have "map2 (\<lambda>y x. x - y) (contents v2 n2) ?xs = map2 (-) ?xs (contents v2 n2)"
      using c2(1) by (simp add: map2_as_map_nth)
    moreover have "set ?xs \<subseteq> set_mset m1" using set_draws [OF c1(5)] m1 by simp
    moreover have "distribution_sub env rnd b d1 d2 =
        bindR (samples_loop env (sub_sample rnd d1 (-1)) l2 (num_bins d2) 0 0 0 b) distribution_build"
      using False l by (simp add: start)
    moreover have "length ?xs = length (contents v2 n2)" using c2(1) by simp
    ultimately show ?thesis using False m2 sizes by (metis set_mset_mset subset_refl)
  qed
qed

theorem distribution_sub_samples_witness:
  "\<exists>r e xs ys. distribution_sub example_env (\<lambda>k. k) fresh_builder built_example built_example = Inr (r, e) \<and>
     length xs = length ys \<and> mset xs = {#-5, 2, 2, 2, 9, 9#} \<and> dist_holds r (mset (map2 (-) xs ys))"
  using distribution_sub_samples [OF example_env_benign fresh_builder_empty built_example_holds built_example_holds,
      of "\<lambda>k. k"]
  by (auto simp: INT64_MAX_def)

text \<open>The scaled ratio of two distributions always uses every sample of the numerator, paired with
  draws from the denominator, also when the denominator has fewer samples and its samples are then used
  several times.\<close>

theorem scaled_div_iterates_numerator:
  assumes env: "benign env" and b: "builder_holds b {#}" and d1: "dist_holds num m1" and d2: "dist_holds denom m2"
    and fits: "\<forall>x\<in>set_mset m1. \<forall>y\<in>set_mset m2. \<bar>x * factor\<bar> \<le> INT64_MAX \<and> y \<noteq> 0"
  shows "\<exists>r e xs ys. distribution_scaled_div env rnd b num factor denom = Inr (r, e) \<and>
    length xs = length ys \<and> mset xs = m1 \<and> set ys \<subseteq> set_mset m2 \<and>
    dist_holds r (mset (map2 (\<lambda>x y. (x * factor) sdiv y) xs ys))"
proof -
  obtain v1 n1 where bins1: "dist_bins num v1 n1" and m1: "m1 = mset (contents v1 n1)"
    using d1 by (auto simp: dist_holds_def)
  obtain v2 n2 where bins2: "dist_bins denom v2 n2" and m2: "m2 = mset (contents v2 n2)"
    using d2 by (auto simp: dist_holds_def)
  obtain l1 where l: "distribution_layout num = Inr l1" using bins1 by (elim dist_binsE) blast
  note c1 = dist_bins_contents [OF bins1] and c2 = dist_bins_contents [OF bins2]
  have ratio: "scaled_ratio x factor y = Inr ((x * factor) sdiv y)" if "x \<in> set v1" "y \<in> set v2" for x y
  proof -
    have xy: "\<bar>x * factor\<bar> \<le> INT64_MAX" "y \<noteq> 0" using fits m1 m2 that c1(2) c2(2) by auto
    have "\<bar>(x * factor) sdiv y\<bar> \<le> \<bar>x * factor\<bar>" by (rule abs_sdiv_le)
    then show ?thesis using xy by (simp add: scaled_ratio_def int64_fits)
  qed
  let ?ys = "draws rnd (contents v2 n2) (sum_list n1)"
  let ?op = "\<lambda>num_value calls. bindR (distribution_choose (rnd calls) denom) (\<lambda>denom_value.
                 scaled_ratio num_value factor denom_value)"
  have "\<exists>r e. bindR (samples_loop env ?op l1 (num_bins num) 0 0 0 b) distribution_build
      = Inr (r, e) \<and> dist_holds r (mset (map2 (\<lambda>x y. (x * factor) sdiv y) (contents v1 n1) ?ys))"
    using ratio by (intro samples_loop_build [OF env b bins1 bins2 l]) simp
  moreover have "set ?ys \<subseteq> set_mset m2" using set_draws [OF c2(5)] m2 by simp
  moreover have "distribution_scaled_div env rnd b num factor denom =
      bindR (samples_loop env ?op l1 (num_bins num) 0 0 0 b) distribution_build"
    using l by (simp add: distribution_scaled_div_def builder_holds_empty_iff [OF b] len_result [OF bins1])
  moreover have "length (contents v1 n1) = length ?ys" using c1(1) by simp
  ultimately show ?thesis using m1 by (metis (no_types, lifting))
qed

theorem scaled_div_iterates_numerator_witness:
  "\<exists>r e xs ys. distribution_scaled_div example_env (\<lambda>k. k) fresh_builder built_example 100 built_example = Inr (r, e) \<and>
     length xs = length ys \<and> mset xs = {#-5, 2, 2, 2, 9, 9#} \<and>
     dist_holds r (mset (map2 (\<lambda>x y. (x * 100) sdiv y) xs ys))"
  using scaled_div_iterates_numerator [OF example_env_benign fresh_builder_empty built_example_holds
      built_example_holds, of 100 "\<lambda>k. k"]
  by (auto simp: INT64_MAX_def)

text \<open>A copy holds the same samples as the original; a recycled distribution is an empty builder, and
  the variable it came from can no longer be read.\<close>

theorem distribution_recycling:
  assumes "dist_holds d m" "\<And>n. malloc_ok env n"
  shows "(\<exists>c. distribution_clone env d = Inr c \<and> dist_holds c m) \<and>
    builder_holds (fst (distribution_reset d)) {#} \<and>
    distribution_layout (snd (distribution_reset d)) = Inl AssertFailed \<and>
    distribution_build (distribution_discard (fst (distribution_reset d))) = Inl EnsureFailed"
proof (intro conjI)
  obtain vals nums where bins: "dist_bins d vals nums" and m: "m = mset (contents vals nums)"
    using assms(1) by (auto simp: dist_holds_def)
  have st: "stores d vals (sums 0 nums)" using bins by (simp add: dist_bins_def)
  then have "distribution_clone env d = Inr d"
    using assms(2) by (auto simp: distribution_clone_def distribution_allocate_ok stores_def)
  then show "\<exists>c. distribution_clone env d = Inr c \<and> dist_holds c m" using assms(1) by blast
  obtain vs cs where "allocation d = Some (map Some vals @ vs, map Some (sums 0 nums) @ cs)"
    "length vals + length vs = capacity d" "length cs = length vs" "length (sums 0 nums) = length vals"
    "0 < capacity d" "capacity d * DISTRIBUTION_BIN_SIZE < 2 ^ 64"
    using st by (rule storesE)
  then show "builder_holds (fst (distribution_reset d)) {#}"
    by (auto simp: empty_builder_stores distribution_reset_def stores_def)
qed (simp_all add: distribution_reset_def distribution_layout_def distribution_poison_def distribution_discard_def
    distribution_finalize_def distribution_build_def distribution_empty_def)

theorem distribution_recycling_witness:
  "(\<exists>c. distribution_clone example_env built_example = Inr c \<and> dist_holds c {#-5, 2, 2, 2, 9, 9#}) \<and>
   builder_holds (fst (distribution_reset built_example)) {#} \<and>
   distribution_layout (snd (distribution_reset built_example)) = Inl AssertFailed \<and>
   distribution_build (distribution_discard (fst (distribution_reset built_example))) = Inl EnsureFailed"
  by (rule distribution_recycling [OF built_example_holds]) (simp add: example_env_def)

end
