(* ===== verification/DistributionPool.thy ===== *)
theory DistributionPool
  imports DistributionDerive
begin

text \<open>
  Model of src/benchmark/distribution_pool.h and src/benchmark/distribution_pool.c, which keeps the
  allocations of distributions that are no longer needed for the next ones.  The pool is an array of
  builders, of which the first \<open>pool_length\<close> are initialized.  \<open>realloc\<close> may fail like \<open>malloc\<close>; it
  keeps the contents of the array.  Destroying the pool also returns the builders that were discarded.
\<close>

section \<open>Definitions\<close>

definition DISTRIBUTION_BUILDER_SIZE :: nat where
  "DISTRIBUTION_BUILDER_SIZE = 24"

record distribution_pool =
  builders :: "distribution_builder option list option"   \<comment> \<open>\<open>None\<close> for \<open>NULL\<close>\<close>
  pool_capacity :: nat
  pool_length :: nat

definition distribution_pool_initialize :: "heap_env \<Rightarrow> nat \<Rightarrow> distribution_pool res" where
  "distribution_pool_initialize env psize =
     (let cap = psize div DISTRIBUTION_BUILDER_SIZE in
      ensure_that (cap \<noteq> 0)
        (if malloc_ok env (cap * DISTRIBUTION_BUILDER_SIZE)
         then Inr \<lparr>builders = Some (replicate cap None), pool_capacity = cap, pool_length = 0\<rparr>
         else Inl ExitError))"

definition pool_builders :: "distribution_pool \<Rightarrow> distribution_builder option list res" where
  "pool_builders pool = (case builders pool of None \<Rightarrow> Inl AssertFailed | Some bs \<Rightarrow> Inr bs)"

definition distribution_pool_request ::
    "heap_env \<Rightarrow> nat \<Rightarrow> distribution_pool \<Rightarrow> (distribution_builder \<times> distribution_pool) res" where
  "distribution_pool_request env psize pool =
     bindR (pool_builders pool) (\<lambda>bs.
     if pool_length pool \<ge> 1 then
       let len = pool_length pool - 1 in
       bindR (read_cell bs len) (\<lambda>builder. Inr (builder, pool\<lparr>pool_length := len\<rparr>))
     else bindR (distribution_initialize env psize) (\<lambda>builder. Inr (builder, pool)))"

text \<open>The growth of the array.  A size that overflows \<open>size_t\<close> gives less memory than the entries take,
  and stops here already.\<close>

definition pool_grow :: "heap_env \<Rightarrow> distribution_pool \<Rightarrow> distribution_builder option list \<Rightarrow> distribution_pool res" where
  "pool_grow env pool bs =
     (let new_capacity = 2 * pool_capacity pool;
          new_size = new_capacity * DISTRIBUTION_BUILDER_SIZE
      in if new_size < 2 ^ 64
         then (if malloc_ok env new_size
               then Inr (pool\<lparr>builders := Some (bs @ replicate (pool_capacity pool) None),
                              pool_capacity := new_capacity\<rparr>)
               else Inl ExitError)
         else Inl BadAccess)"

text \<open>The pool, and the poisoned distribution.\<close>

definition distribution_pool_recycle ::
    "heap_env \<Rightarrow> distribution_pool \<Rightarrow> distribution \<Rightarrow> (distribution_pool \<times> distribution) res" where
  "distribution_pool_recycle env pool dist =
     bindR (pool_builders pool) (\<lambda>bs.
     assert_that (pool_capacity pool > 0)
     (assert_that (pool_length pool \<le> pool_capacity pool)
     (bindR (if pool_length pool = pool_capacity pool then pool_grow env pool bs else Inr pool) (\<lambda>pool1.
      assert_that (pool_length pool1 < pool_capacity pool1)
      (bindR (pool_builders pool1) (\<lambda>bs1.
       let (builder, poisoned) = distribution_reset dist in
       bindR (write_cell bs1 (pool_length pool1) builder) (\<lambda>bs2.
       Inr (pool1\<lparr>builders := Some bs2, pool_length := pool_length pool1 + 1\<rparr>, poisoned)))))))) "

fun discard_loop ::
    "nat \<Rightarrow> nat \<Rightarrow> distribution_builder option list \<Rightarrow> distribution_builder list \<Rightarrow>
     distribution_builder list res" where
  "discard_loop 0 i bs freed = Inr freed"
| "discard_loop (Suc todo) i bs freed =
     bindR (read_cell bs i) (\<lambda>builder.
     bindR (write_cell bs i (distribution_discard builder)) (\<lambda>bs'.
     discard_loop todo (Suc i) bs' (freed @ [builder])))"

text \<open>The poisoned pool, and the builders whose allocations were liberated.\<close>

definition distribution_pool_finalize :: "distribution_pool \<Rightarrow> (distribution_pool \<times> distribution_builder list) res" where
  "distribution_pool_finalize pool =
     bindR (if pool_length pool = 0 then Inr []
            else case builders pool of None \<Rightarrow> Inl BadAccess
                 | Some bs \<Rightarrow> discard_loop (pool_length pool) 0 bs []) (\<lambda>freed.
     ensure_that (builders pool \<noteq> None)
       (Inr (\<lparr>builders = None, pool_capacity = 0, pool_length = 0\<rparr>, freed)))"

section \<open>The pool as a stack of empty builders\<close>

definition pool_holds :: "distribution_pool \<Rightarrow> distribution_builder list \<Rightarrow> bool" where
  "pool_holds pool bs \<longleftrightarrow> (\<exists>rest. builders pool = Some (map Some bs @ rest) \<and>
     length bs + length rest = pool_capacity pool) \<and> pool_length pool = length bs \<and>
     0 < pool_capacity pool \<and> pool_capacity pool < 2 ^ 58 \<and> (\<forall>b\<in>set bs. builder_holds b {#})"

lemma reset_empty: "dist_holds d m \<Longrightarrow> builder_holds (fst (distribution_reset d)) {#}"
proof -
  assume "dist_holds d m"
  then obtain vals nums where "stores d vals nums" by (auto simp: dist_holds_def dist_bins_def)
  then show ?thesis
    by (auto simp: empty_builder_stores distribution_reset_def stores_def)
qed

lemma recycle_holds:
  assumes pool: "pool_holds pool bs" and d: "dist_holds d m" and env: "\<And>n. malloc_ok env n"
    and room: "length bs < 2 ^ 57"
  shows "\<exists>pool'. distribution_pool_recycle env pool d = Inr (pool', distribution_poison) \<and>
    pool_holds pool' (bs @ [fst (distribution_reset d)])"
proof -
  obtain rest where rest: "builders pool = Some (map Some bs @ rest)" "length bs + length rest = pool_capacity pool"
    "pool_length pool = length bs" "0 < pool_capacity pool" "pool_capacity pool < 2 ^ 58"
    "\<forall>b\<in>set bs. builder_holds b {#}"
    using pool by (auto simp: pool_holds_def)
  define b where "b = fst (distribution_reset d)"
  then have poison: "distribution_reset d = (b, distribution_poison)" by (simp add: distribution_reset_def)
  have b: "builder_holds b {#}" using reset_empty [OF d] b_def by simp
  obtain pool1 rest1 where pool1: "(if pool_length pool = pool_capacity pool
        then pool_grow env pool (map Some bs @ rest) else Inr pool) = Inr pool1"
    "builders pool1 = Some (map Some bs @ rest1)" "rest1 \<noteq> []" "length bs + length rest1 = pool_capacity pool1"
    "pool_length pool1 = length bs" "pool_capacity pool1 < 2 ^ 58"
  proof (cases "pool_length pool = pool_capacity pool")
    case True
    then have "pool_grow env pool (map Some bs @ rest) =
        Inr (pool\<lparr>builders := Some (map Some bs @ replicate (pool_capacity pool) None),
                  pool_capacity := 2 * pool_capacity pool\<rparr>)"
      using rest room env by (simp add: pool_grow_def Let_def DISTRIBUTION_BUILDER_SIZE_def)
    then show thesis using that rest True room by simp
  next
    case False
    then have "rest \<noteq> []" using rest by auto
    then show thesis using that [of pool rest] rest False by simp
  qed
  have "write_cell (map Some bs @ rest1) (length bs) b = Inr (map Some (bs @ [b]) @ tl rest1)"
    using pool1(3) by (intro write_cell_next) simp_all
  moreover have lt: "length bs < pool_capacity pool1" using pool1(3,4) by (cases rest1) auto
  ultimately have "distribution_pool_recycle env pool d =
      Inr (pool1\<lparr>builders := Some (map Some (bs @ [b]) @ tl rest1), pool_length := length bs + 1\<rparr>, distribution_poison)"
    using rest(2-4) pool1(2,4,5) lt
    unfolding distribution_pool_recycle_def pool_builders_def rest(1) option.case bindR_simps pool1(1) poison
    by simp
  moreover have "pool_holds (pool1\<lparr>builders := Some (map Some (bs @ [b]) @ tl rest1), pool_length := length bs + 1\<rparr>)
      (bs @ [b])"
    using pool1 rest b by (cases rest1) (auto simp: pool_holds_def)
  ultimately show ?thesis unfolding b_def by blast
qed

lemma request_holds:
  assumes pool: "pool_holds pool bs" and bs: "bs \<noteq> []"
  shows "\<exists>pool'. distribution_pool_request env psize pool = Inr (last bs, pool') \<and> pool_holds pool' (butlast bs)"
proof -
  obtain rest where rest: "builders pool = Some (map Some bs @ rest)" "length bs + length rest = pool_capacity pool"
    "pool_length pool = length bs" "0 < pool_capacity pool" "pool_capacity pool < 2 ^ 58"
    "\<forall>b\<in>set bs. builder_holds b {#}"
    using pool by (auto simp: pool_holds_def)
  have req: "distribution_pool_request env psize pool = Inr (last bs, pool\<lparr>pool_length := length bs - 1\<rparr>)"
    using rest bs by (simp add: distribution_pool_request_def pool_builders_def cell_simps last_conv_nth Suc_le_eq Let_def)
  have "map Some bs @ rest = map Some (butlast bs) @ Some (last bs) # rest"
    using bs by (induction bs) auto
  moreover obtain n where "length bs = Suc n" using bs by (cases bs) auto
  ultimately have "pool_holds (pool\<lparr>pool_length := length bs - 1\<rparr>) (butlast bs)"
    using rest by (auto simp: pool_holds_def dest: in_set_butlastD intro!: exI [of _ "Some (last bs) # rest"])
  with req show ?thesis by blast
qed

lemma discard_loop_exact:
  assumes "i + todo = length bs" "length xs = i"
  shows "discard_loop todo i (map Some (xs @ drop i bs) @ rest) freed = Inr (freed @ drop i bs)"
  using assms
proof (induction todo arbitrary: i xs freed)
  case (Suc todo)
  then have drop: "drop i bs = bs ! i # drop (Suc i) bs" by (simp add: Cons_nth_drop_Suc)
  have "write_cell (map Some (xs @ drop i bs) @ rest) i (distribution_discard (bs ! i))
      = Inr (map Some ((xs @ [distribution_discard (bs ! i)]) @ drop (Suc i) bs) @ rest)"
    using Suc.prems drop by (simp add: write_cell_def list_update_append)
  moreover have "read_cell (map Some (xs @ drop i bs) @ rest) i = Inr (bs ! i)"
    using Suc.prems drop by (simp add: read_cell_def nth_append)
  ultimately show ?case
    using Suc.IH [of "Suc i" "xs @ [distribution_discard (bs ! i)]" "freed @ [bs ! i]"] Suc.prems drop
    by (simp del: map_append append_assoc)
qed simp

section \<open>Properties\<close>

text \<open>C29. The pool is a stack of empty builders: recycling a distribution pushes its allocation, which the
  next request returns as an empty builder; a request to an empty pool gives a new builder; destroying the
  pool liberates each allocation it holds once.\<close>

theorem distribution_pool_stack:
  assumes pool: "pool_holds pool bs" and d: "dist_holds d m" and env: "\<And>n. malloc_ok env n"
    and room: "length bs < 2 ^ 57" "16 \<le> psize" "psize < 2 ^ 64"
  shows "(\<exists>pool' pool''. distribution_pool_recycle env pool d = Inr (pool', distribution_poison) \<and>
      pool_holds pool' (bs @ [fst (distribution_reset d)]) \<and>
      distribution_pool_request env psize pool' = Inr (fst (distribution_reset d), pool'') \<and> pool_holds pool'' bs) \<and>
    (\<exists>b pool'. distribution_pool_request env psize pool = Inr (b, pool') \<and> builder_holds b {#} \<and>
      pool_holds pool' (butlast bs)) \<and>
    (\<exists>pool'. distribution_pool_finalize pool = Inr (pool', bs))"
proof (intro conjI)
  obtain pool' where pool': "distribution_pool_recycle env pool d = Inr (pool', distribution_poison)"
    "pool_holds pool' (bs @ [fst (distribution_reset d)])"
    using recycle_holds [OF pool d env room(1)] by blast
  with request_holds [OF pool'(2), of env psize]
  show "\<exists>pool' pool''. distribution_pool_recycle env pool d = Inr (pool', distribution_poison) \<and>
      pool_holds pool' (bs @ [fst (distribution_reset d)]) \<and>
      distribution_pool_request env psize pool' = Inr (fst (distribution_reset d), pool'') \<and> pool_holds pool'' bs"
    by auto
  show "\<exists>b pool'. distribution_pool_request env psize pool = Inr (b, pool') \<and> builder_holds b {#} \<and>
      pool_holds pool' (butlast bs)"
  proof (cases "bs = []")
    case True
    obtain b where "distribution_initialize env psize = Inr b" "builder_holds b {#}"
      using initialize_holds [OF room(2,3) env] by blast
    with True pool show ?thesis
      by (auto simp: distribution_pool_request_def pool_builders_def pool_holds_def)
  next
    case False
    with request_holds [OF pool False, of env psize] pool show ?thesis by (auto simp: pool_holds_def)
  qed
  obtain rest where rest: "builders pool = Some (map Some bs @ rest)" "pool_length pool = length bs"
    using pool by (auto simp: pool_holds_def)
  then show "\<exists>pool'. distribution_pool_finalize pool = Inr (pool', bs)"
    using discard_loop_exact [of 0 "length bs" bs "[]" rest "[]"] by (auto simp: distribution_pool_finalize_def)
qed

theorem distribution_pool_stack_witness:
  "\<exists>pool' pool''. distribution_pool_recycle example_env
       \<lparr>builders = Some [Some fresh_builder], pool_capacity = 1, pool_length = 1\<rparr> built_example
       = Inr (pool', distribution_poison) \<and>
     distribution_pool_request example_env 4096 pool' = Inr (fst (distribution_reset built_example), pool'')"
proof -
  have "pool_holds \<lparr>builders = Some [Some fresh_builder], pool_capacity = 1, pool_length = 1\<rparr> [fresh_builder]"
    by (simp add: pool_holds_def fresh_builder_empty)
  from distribution_pool_stack [OF this built_example_holds, of example_env 4096] show ?thesis
    by (auto simp: example_env_def)
qed

end
