(* ===== verification/Numeric.thy ===== *)
theory Numeric
  imports Bits
begin

text \<open>
  Model of src/benchmark/numeric.h and src/benchmark/numeric.c: the summation of \<open>double\<close> values
  without rounding error in a fixed-point accumulator, a sign and 33 words of 64 bits.

  A \<open>double\<close> that goes into the accumulator is its 64-bit representation, since the code starts
  with a bit cast.  A \<open>double\<close> that comes out is a value of the type \<open>f64\<close>: all finite numbers of the
  format are multiples of \<open>2 powi (- 1074)\<close>, and \<open>Finite n\<close> stands for the \<open>n\<close>-th of them (both zeros are
  \<open>Finite 0\<close>).  The conversion of an integer to \<open>double\<close>, \<open>scalbn\<close> and the addition round to
  nearest, ties to even, as in the default mode of the format.

  The code adds and subtracts words through a pair of hooks.  Their contract is the locale
  \<open>word_accumulation\<close>, in which the propagation of carries and borrows is verified once; it is
  interpreted for the addition and for the subtraction hook.
\<close>

section \<open>Representation of binary64 numbers\<close>

definition FRACTION_BITS_F64 :: nat where
  "FRACTION_BITS_F64 = 52"

definition FRACTION_MASK_F64 :: u64 where
  "FRACTION_MASK_F64 = push_bit FRACTION_BITS_F64 1 - 1"

definition SIGNIFICAND_BITS_F64 :: nat where
  "SIGNIFICAND_BITS_F64 = FRACTION_BITS_F64 + 1"

definition SIGNIFICAND_MASK_F64 :: u64 where
  "SIGNIFICAND_MASK_F64 = push_bit SIGNIFICAND_BITS_F64 1 - 1"

definition EXPONENT_SHIFT_F64 :: nat where
  "EXPONENT_SHIFT_F64 = FRACTION_BITS_F64"

definition EXPONENT_BITS_F64 :: nat where
  "EXPONENT_BITS_F64 = 11"

definition EXPONENT_MASK_F64 :: u64 where
  "EXPONENT_MASK_F64 = push_bit EXPONENT_SHIFT_F64 (push_bit EXPONENT_BITS_F64 1 - 1)"

definition RAW_SUBNORMAL_EXPONENT_F64 :: u64 where
  "RAW_SUBNORMAL_EXPONENT_F64 = 0"

definition RAW_NONFINITE_EXPONENT_F64 :: u64 where
  "RAW_NONFINITE_EXPONENT_F64 = EXPONENT_MASK_F64"

definition NORMAL_EXPONENT_BIAS_F64 :: nat where
  "NORMAL_EXPONENT_BIAS_F64 = 2 ^ (EXPONENT_BITS_F64 - 1) - 1"

definition SUBNORMAL_EXPONENT_BIAS_F64 :: nat where
  "SUBNORMAL_EXPONENT_BIAS_F64 = NORMAL_EXPONENT_BIAS_F64 - 1"

definition NUM_FINITE_EXPONENTS_F64 :: nat where
  "NUM_FINITE_EXPONENTS_F64 = 2 ^ EXPONENT_BITS_F64 - 2"

definition SIGN_BIT_F64 :: u64 where
  "SIGN_BIT_F64 = push_bit (EXPONENT_SHIFT_F64 + EXPONENT_BITS_F64) 1"

section \<open>The accumulator\<close>

definition MIN_ACCUMULATOR_BITS :: nat where
  "MIN_ACCUMULATOR_BITS = SIGNIFICAND_BITS_F64 + NUM_FINITE_EXPONENTS_F64 - 1"

definition BITS_PER_ACC_WORD :: nat where
  "BITS_PER_ACC_WORD = 64"

definition NUM_ACCUMULATOR_WORDS :: nat where
  "NUM_ACCUMULATOR_WORDS = DIV_CEIL MIN_ACCUMULATOR_BITS BITS_PER_ACC_WORD"

record accumulator =
  acc_words :: "u64 list"
  highest_word_idx :: nat
  acc_negative :: bool

definition ACCUMULATOR_ZERO :: accumulator where
  "ACCUMULATOR_ZERO = \<lparr>acc_words = replicate NUM_ACCUMULATOR_WORDS 0, highest_word_idx = 0, acc_negative = False\<rparr>"

record unsigned_addend =
  addend_words :: "u64 list"
  low_word_idx :: nat

definition compute_unsigned_addend :: "u64 \<Rightarrow> nat \<Rightarrow> unsigned_addend res" where
  "compute_unsigned_addend significand zero_based_exponent =
     assert_that (significand AND SIGNIFICAND_MASK_F64 = significand) (
     assert_that (zero_based_exponent < NUM_FINITE_EXPONENTS_F64) (
     let low_idx = zero_based_exponent div BITS_PER_ACC_WORD
     in assert_that (low_idx < NUM_ACCUMULATOR_WORDS) (
     let low_bit_idx = zero_based_exponent mod BITS_PER_ACC_WORD;
         low_addend = push_bit low_bit_idx significand;
         high_addend = (if low_bit_idx \<noteq> 0 then drop_bit (BITS_PER_ACC_WORD - low_bit_idx) significand
                        else 0)
     in Inr \<lparr>addend_words = [low_addend, high_addend], low_word_idx = low_idx\<rparr>)))"

section \<open>Accumulation of words\<close>

text \<open>A hook takes the accumulator word and the contribution, and returns the carry and the new
  word.\<close>

type_synonym word_hook = "u64 \<Rightarrow> u64 \<Rightarrow> bool \<times> u64"

definition accumulate_word :: "word_hook \<Rightarrow> u64 list \<Rightarrow> nat \<Rightarrow> u64 \<Rightarrow> (bool \<times> u64 list) res" where
  "accumulate_word accumulate_return_carry ws i contribution =
     bindR (array_read ws i) (\<lambda>acc_word.
     case accumulate_return_carry acc_word contribution of (carry, new_word) \<Rightarrow>
     bindR (array_write ws i new_word) (\<lambda>ws'. Inr (carry, ws')))"

function carry_loop :: "word_hook \<Rightarrow> bool \<Rightarrow> nat \<Rightarrow> nat \<Rightarrow> u64 list \<Rightarrow> (nat \<times> u64 list) res" where
  "carry_loop accumulate_return_carry carry carry_idx highest_modified_idx ws =
     (if carry then
        if carry_idx \<ge> NUM_ACCUMULATOR_WORDS then Inl ExitError
        else bindR (accumulate_word accumulate_return_carry ws carry_idx 1) (\<lambda>(carry', ws').
             carry_loop accumulate_return_carry carry' (carry_idx + 1) carry_idx ws')
      else Inr (highest_modified_idx, ws))"
  by pat_completeness auto
termination
  by (relation "measure (\<lambda>(_, _, carry_idx, _). NUM_ACCUMULATOR_WORDS - carry_idx)") auto

declare carry_loop.simps [simp del]

definition accumulate_without_underflow ::
    "word_hook \<Rightarrow> (accumulator \<Rightarrow> nat \<Rightarrow> accumulator res) \<Rightarrow> accumulator \<Rightarrow> unsigned_addend \<Rightarrow> accumulator res" where
  "accumulate_without_underflow accumulate_return_carry update_highest_idx acc magnitude =
     (let low_idx = low_word_idx magnitude
      in assert_that (low_idx < NUM_ACCUMULATOR_WORDS) (
      let low_word = addend_words magnitude ! 0
      in bindR (accumulate_word accumulate_return_carry (acc_words acc) low_idx low_word) (\<lambda>(carry, ws).
      let high_word = addend_words magnitude ! 1 + of_bool carry;
          carry = False
      in assert_that (high_word \<ge> addend_words magnitude ! 1) (
      let high_word_idx = low_idx + 1
      in bindR
           (if high_word \<noteq> 0 then
              if high_word_idx \<ge> NUM_ACCUMULATOR_WORDS
              then assert_that (carry \<and> high_word = 1) (Inl ExitError)
              else bindR (accumulate_word accumulate_return_carry ws high_word_idx high_word) (\<lambda>(carry', ws').
                   Inr (carry', ws', high_word_idx))
            else Inr (carry, ws, low_idx)) (\<lambda>(carry, ws, highest_modified_idx).
      bindR (carry_loop accumulate_return_carry carry (highest_modified_idx + 1) highest_modified_idx ws)
        (\<lambda>(highest_modified_idx, ws).
      update_highest_idx (acc\<lparr>acc_words := ws\<rparr>) highest_modified_idx))))))"

definition add_inplace_return_carry :: word_hook where
  "add_inplace_return_carry acc_word addend = add_with_carry_u64 False acc_word addend"

definition sub_inplace_return_carry :: word_hook where
  "sub_inplace_return_carry acc_word subtrahend = subtract_with_carry_u64 False acc_word subtrahend"

definition update_highest_idx_after_add :: "accumulator \<Rightarrow> nat \<Rightarrow> accumulator res" where
  "update_highest_idx_after_add acc highest_modified_idx =
     assert_that (highest_modified_idx < NUM_ACCUMULATOR_WORDS) (
     if highest_modified_idx > highest_word_idx acc then
       bindR (array_read (acc_words acc) highest_modified_idx) (\<lambda>wrd.
       assert_that (wrd \<noteq> 0) (Inr (acc\<lparr>highest_word_idx := highest_modified_idx\<rparr>)))
     else Inr acc)"

text \<open>The search for the highest nonzero word counts down a \<open>ptrdiff_t\<close> and gives 0 when it reaches
  0 or starts below it.\<close>

fun highest_idx_loop :: "u64 list \<Rightarrow> nat \<Rightarrow> nat res" where
  "highest_idx_loop ws 0 = Inr 0"
| "highest_idx_loop ws (Suc i) =
     bindR (array_read ws (Suc i)) (\<lambda>wrd. if wrd \<noteq> 0 then Inr (Suc i) else highest_idx_loop ws i)"

definition update_highest_idx_after_sub :: "accumulator \<Rightarrow> nat \<Rightarrow> accumulator res" where
  "update_highest_idx_after_sub acc highest_modified_idx =
     assert_that (highest_modified_idx \<le> highest_word_idx acc) (
     if highest_modified_idx < highest_word_idx acc then Inr acc
     else bindR (array_read (acc_words acc) highest_modified_idx) (\<lambda>wrd.
     if wrd \<noteq> 0 then Inr acc
     else bindR (highest_idx_loop (acc_words acc) (highest_modified_idx - 1)) (\<lambda>word_idx.
     Inr (acc\<lparr>highest_word_idx := word_idx\<rparr>))))"

definition accumulator_lt_nonzero_subtrahend :: "accumulator \<Rightarrow> unsigned_addend \<Rightarrow> bool res" where
  "accumulator_lt_nonzero_subtrahend acc subtrahend =
     (let subtrahend_low_word = addend_words subtrahend ! 0;
          subtrahend_high_word = addend_words subtrahend ! 1;
          subtrahend_high_word_idx = low_word_idx subtrahend + 1
      in if highest_word_idx acc > subtrahend_high_word_idx then Inr False
         else if highest_word_idx acc < low_word_idx subtrahend then
           assert_that ((subtrahend_low_word OR subtrahend_high_word) \<noteq> 0) (Inr True)
         else
           assert_that (highest_word_idx acc = low_word_idx subtrahend \<or>
                        highest_word_idx acc = subtrahend_high_word_idx) (
           bindR (array_read (acc_words acc) (highest_word_idx acc)) (\<lambda>acc_high_word.
           if highest_word_idx acc = low_word_idx subtrahend then
             if subtrahend_high_word \<noteq> 0 then Inr True
             else Inr (acc_high_word < subtrahend_low_word)
           else
             assert_that (highest_word_idx acc = subtrahend_high_word_idx) (
             assert_that (highest_word_idx acc > 0) (
             bindR (array_read (acc_words acc) (highest_word_idx acc - 1)) (\<lambda>acc_low_word.
             if acc_high_word > subtrahend_high_word then Inr False
             else if acc_high_word < subtrahend_high_word then Inr True
             else assert_that (acc_high_word = subtrahend_high_word) (
                  Inr (acc_low_word < subtrahend_low_word))))))))"

function underflow_loop ::
    "u64 list \<Rightarrow> nat \<Rightarrow> nat \<Rightarrow> nat \<Rightarrow> bool \<Rightarrow> nat \<Rightarrow> u64 list \<Rightarrow> (bool \<times> nat \<times> u64 list) res" where
  "underflow_loop minuend_words minuend_low_idx minuend_highest_idx word_idx carry highest_idx ws =
     (if word_idx \<le> minuend_highest_idx then
        bindR (if word_idx < minuend_low_idx then Inr 0
               else array_read minuend_words (word_idx - minuend_low_idx)) (\<lambda>minuend_word.
        bindR (array_read ws word_idx) (\<lambda>acc_word.
        case subtract_with_carry_u64 carry minuend_word acc_word of (carry', difference) \<Rightarrow>
        bindR (array_write ws word_idx difference) (\<lambda>ws'.
        underflow_loop minuend_words minuend_low_idx minuend_highest_idx (word_idx + 1) carry'
          (if difference \<noteq> 0 then word_idx else highest_idx) ws')))
      else Inr (carry, highest_idx, ws))"
  by pat_completeness auto
termination
  by (relation "measure (\<lambda>(_, _, minuend_highest_idx, word_idx, _). Suc minuend_highest_idx - word_idx)") auto

declare underflow_loop.simps [simp del]

definition accumulator_subtract_with_underflow :: "accumulator \<Rightarrow> unsigned_addend \<Rightarrow> accumulator res" where
  "accumulator_subtract_with_underflow acc subtrahend =
     assert_that ((addend_words subtrahend ! 0 OR addend_words subtrahend ! 1) \<noteq> 0) (
     bindR (accumulator_lt_nonzero_subtrahend acc subtrahend) (\<lambda>less.
     assert_that less (
     let minuend_words = addend_words subtrahend;
         minuend_low_idx = low_word_idx subtrahend
     in assert_that (minuend_low_idx < NUM_ACCUMULATOR_WORDS) (
     let minuend_highest_idx = minuend_low_idx + of_bool (minuend_words ! 1 \<noteq> 0)
     in assert_that (minuend_highest_idx \<ge> highest_word_idx acc) (
     bindR (underflow_loop minuend_words minuend_low_idx minuend_highest_idx 0 False 0 (acc_words acc))
       (\<lambda>(carry, highest_idx, ws).
     assert_that (\<not> carry) (
     Inr (acc\<lparr>acc_words := ws, highest_word_idx := highest_idx,
               acc_negative := \<not> acc_negative acc\<rparr>))))))))"

definition accumulate_decoded_f64 :: "accumulator \<Rightarrow> u64 \<Rightarrow> nat \<Rightarrow> bool \<Rightarrow> accumulator res" where
  "accumulate_decoded_f64 acc significand zero_based_exponent negative =
     assert_that (significand AND SIGNIFICAND_MASK_F64 = significand) (
     assert_that (zero_based_exponent < NUM_FINITE_EXPONENTS_F64) (
     if significand = 0 then Inr acc
     else bindR (compute_unsigned_addend significand zero_based_exponent) (\<lambda>magnitude.
          if negative = acc_negative acc then
            accumulate_without_underflow add_inplace_return_carry update_highest_idx_after_add acc magnitude
          else bindR (accumulator_lt_nonzero_subtrahend acc magnitude) (\<lambda>less.
          if less then accumulator_subtract_with_underflow acc magnitude
          else accumulate_without_underflow sub_inplace_return_carry update_highest_idx_after_sub acc
                 magnitude))))"

definition accumulator_add_f64 :: "accumulator \<Rightarrow> u64 \<Rightarrow> accumulator res" where
  "accumulator_add_f64 acc value_bits =
     (let fraction = value_bits AND FRACTION_MASK_F64;
          raw_exponent = value_bits AND EXPONENT_MASK_F64;
          negative = (value_bits AND SIGN_BIT_F64 \<noteq> 0)
      in if raw_exponent = RAW_SUBNORMAL_EXPONENT_F64 then accumulate_decoded_f64 acc fraction 0 negative
         else if raw_exponent = RAW_NONFINITE_EXPONENT_F64 then Inl ExitError
         else let significand = fraction OR push_bit FRACTION_BITS_F64 1;
                  zero_based_exponent = unat (drop_bit EXPONENT_SHIFT_F64 raw_exponent - 1)
              in accumulate_decoded_f64 acc significand zero_based_exponent negative)"

section \<open>Conversion back to binary64\<close>

datatype f64 = Finite int | Infinite bool | NotANumber

fun bit_length :: "nat \<Rightarrow> nat" where
  "bit_length n = (if n = 0 then 0 else Suc (bit_length (n div 2)))"

declare bit_length.simps [simp del]

text \<open>The nearest multiple of \<open>2 ^ k\<close>, ties to the even multiple, and the nearest number of at most
  53 significant bits.\<close>

definition nearest_even :: "nat \<Rightarrow> nat \<Rightarrow> nat" where
  "nearest_even k m =
     (let q = m div 2 ^ k; r = m mod 2 ^ k
      in if 2 * r < 2 ^ k \<or> (2 * r = 2 ^ k \<and> even q) then q * 2 ^ k else (q + 1) * 2 ^ k)"

definition round_significand :: "nat \<Rightarrow> nat" where
  "round_significand m = nearest_even (bit_length m - SIGNIFICAND_BITS_F64) m"

text \<open>The number nearest to \<open>x\<close> units of \<open>2 powi (- 1074)\<close>; from \<open>2 ^ MIN_ACCUMULATOR_BITS\<close> units on the
  format has only the infinities.\<close>

definition round_f64 :: "int \<Rightarrow> f64" where
  "round_f64 x =
     (let m = round_significand (nat \<bar>x\<bar>)
      in if m \<ge> 2 ^ MIN_ACCUMULATOR_BITS then Infinite (x < 0)
         else Finite (if x < 0 then - int m else int m))"

fun f64_add :: "f64 \<Rightarrow> f64 \<Rightarrow> f64" where
  "f64_add (Finite x) (Finite y) = round_f64 (x + y)"
| "f64_add (Infinite s) (Finite y) = Infinite s"
| "f64_add (Finite x) (Infinite s) = Infinite s"
| "f64_add (Infinite s) (Infinite t) = (if s = t then Infinite s else NotANumber)"
| "f64_add _ _ = NotANumber"

fun f64_negate :: "f64 \<Rightarrow> f64" where
  "f64_negate (Finite x) = Finite (- x)"
| "f64_negate (Infinite s) = Infinite (\<not> s)"
| "f64_negate NotANumber = NotANumber"

text \<open>\<open>scalbn(word, exponent)\<close> for exponents from \<open>- 1074\<close> on: the argument is rounded to
  \<open>double\<close>, and scaling it loses no bits.\<close>

definition scalbn_u64 :: "u64 \<Rightarrow> int \<Rightarrow> f64" where
  "scalbn_u64 wrd exponent =
     round_f64 (int (round_significand (unat wrd)) *
                2 ^ nat (exponent + int (FRACTION_BITS_F64 + SUBNORMAL_EXPONENT_BIAS_F64)))"

function to_f64_loop :: "accumulator \<Rightarrow> nat \<Rightarrow> int \<Rightarrow> f64 \<Rightarrow> f64 res" where
  "to_f64_loop acc word_idx exponent result =
     (if word_idx \<le> highest_word_idx acc then
        bindR (array_read (acc_words acc) word_idx) (\<lambda>wrd.
        let magnitude = scalbn_u64 wrd exponent;
            contribution = (if acc_negative acc then f64_negate magnitude else magnitude)
        in to_f64_loop acc (word_idx + 1) (exponent + int BITS_PER_ACC_WORD) (f64_add result contribution))
      else Inr result)"
  by pat_completeness auto
termination
  by (relation "measure (\<lambda>(acc, word_idx, _). Suc (highest_word_idx acc) - word_idx)") auto

declare to_f64_loop.simps [simp del]

definition accumulator_to_f64 :: "accumulator \<Rightarrow> f64 res" where
  "accumulator_to_f64 acc =
     to_f64_loop acc 0 (- int (FRACTION_BITS_F64 + SUBNORMAL_EXPONENT_BIAS_F64)) (Finite 0)"

section \<open>Summation\<close>

fun sum_loop :: "accumulator \<Rightarrow> u64 list \<Rightarrow> accumulator res" where
  "sum_loop acc [] = Inr acc"
| "sum_loop acc (v # vs) = bindR (accumulator_add_f64 acc v) (\<lambda>acc'. sum_loop acc' vs)"

definition sum_f64 :: "u64 list \<Rightarrow> f64 res" where
  "sum_f64 vs = bindR (sum_loop ACCUMULATOR_ZERO vs) accumulator_to_f64"

section \<open>Magnitudes of word lists\<close>

definition BASE :: int where
  "BASE = 2 ^ 64"

lemma BASE_pos [simp]: "0 < BASE" "1 < BASE" "1 \<le> BASE" "0 \<le> BASE" "BASE \<noteq> 0"
  by (simp_all add: BASE_def)

definition mag :: "u64 list \<Rightarrow> int" where
  "mag ws = horner_sum uint BASE ws"

lemma mag_simps [simp]: "mag [] = 0" "mag (w # ws) = uint w + BASE * mag ws"
  by (simp_all add: mag_def)

lemma mag_append: "mag (xs @ ys) = mag xs + BASE ^ length xs * mag ys"
  by (simp add: mag_def horner_sum_append)

lemma mag_split: "n \<le> length ws \<Longrightarrow> mag ws = mag (take n ws) + BASE ^ n * mag (drop n ws)"
  using mag_append [of "take n ws" "drop n ws"] by (simp add: min_absorb2)

lemma uint_u64_bounds: "0 \<le> uint (w :: u64)" "uint w < BASE"
  using uint_lt2p [of w] by (simp_all add: BASE_def)

lemma mag_nonneg [simp]: "0 \<le> mag ws"
  by (induction ws) simp_all

lemma mag_less: "mag ws < BASE ^ length ws"
proof (induction ws)
  case (Cons w ws)
  have "mag (w # ws) < BASE + BASE * mag ws" using uint_u64_bounds(2) [of w] by simp
  also have "BASE + BASE * mag ws = BASE * (mag ws + 1)" by (simp add: distrib_left)
  also have "\<dots> \<le> BASE * BASE ^ length ws"
    using Cons.IH by (intro mult_left_mono) auto
  finally show ?case by simp
qed simp

lemma mag_update:
  "i < length ws \<Longrightarrow> mag (ws[i := w]) = mag ws + (uint w - uint (ws ! i)) * BASE ^ i"
proof (induction ws arbitrary: i)
  case (Cons v ws)
  show ?case
  proof (cases i)
    case (Suc j)
    with Cons have IH: "mag (ws[j := w]) = mag ws + (uint w - uint (ws ! j)) * BASE ^ j" by simp
    have "mag ((v # ws)[i := w]) = uint v + BASE * mag (ws[j := w])" using Suc by simp
    then show ?thesis unfolding IH using Suc by (simp add: algebra_simps)
  qed simp
qed simp

lemma mag_zero: "(\<And>i. i < length ws \<Longrightarrow> ws ! i = 0) \<Longrightarrow> mag ws = 0"
proof (induction ws)
  case (Cons w ws)
  then show ?case using Cons.prems [of 0] Cons.prems [of "Suc i" for i] by auto
qed simp

lemma mag_eq_0: "mag ws = 0 \<Longrightarrow> i < length ws \<Longrightarrow> ws ! i = 0"
proof (induction ws arbitrary: i)
  case (Cons w ws)
  have "0 \<le> BASE * mag ws" by simp
  with Cons.prems(1) have w: "uint w = 0" and "BASE * mag ws = 0"
    using uint_u64_bounds(1) [of w] unfolding mag_simps by linarith+
  then have "mag ws = 0" by simp
  then show ?case using Cons.IH Cons.prems(2) w by (cases i) (auto simp: uint_0_iff)
qed simp

lemma mag_take_less: "n \<le> length ws \<Longrightarrow> mag (take n ws) < BASE ^ n"
  using mag_less [of "take n ws"] by (simp add: min_absorb2)

lemma mag_take_Suc: "n < length ws \<Longrightarrow> mag (take (Suc n) ws) = mag (take n ws) + uint (ws ! n) * BASE ^ n"
  by (simp add: take_Suc_conv_app_nth mag_append min_absorb2)

lemma mag_below:
  assumes "h < length ws" and "\<forall>i < length ws. h < i \<longrightarrow> ws ! i = 0"
  shows "mag ws = mag (take (Suc h) ws)" and "mag ws < BASE ^ Suc h"
proof -
  have "mag (drop (Suc h) ws) = 0" using assms(2) by (intro mag_zero) auto
  then show eq: "mag ws = mag (take (Suc h) ws)" using mag_split [of "Suc h" ws] assms(1) by simp
  show "mag ws < BASE ^ Suc h"
    unfolding eq by (rule mag_take_less) (use assms(1) in simp)
qed

lemma mag_above: "i < length ws \<Longrightarrow> ws ! i \<noteq> 0 \<Longrightarrow> BASE ^ i \<le> mag ws"
proof -
  assume i: "i < length ws" "ws ! i \<noteq> 0"
  have "1 \<le> uint (ws ! i)" using i(2) uint_u64_bounds(1) [of "ws ! i"] by (simp add: uint_0_iff order_less_le flip: zless_iff_Suc_zadd) (metis int_one_le_iff_zero_less order_less_le uint_0_iff uint_u64_bounds(1))
  then have "1 * BASE ^ i \<le> uint (ws ! i) * BASE ^ i" by (intro mult_right_mono) auto
  also have "\<dots> \<le> mag (take (Suc i) ws)" using mag_take_Suc [OF i(1)] mag_nonneg [of "take i ws"] by simp
  also have "\<dots> \<le> mag ws" using mag_split [of "Suc i" ws] i(1) by simp
  finally show ?thesis by simp
qed

section \<open>Carries and borrows\<close>

lemma numeric_consts [simp]:
  "NUM_ACCUMULATOR_WORDS = 33" "BITS_PER_ACC_WORD = 64" "FRACTION_BITS_F64 = 52"
  "SIGNIFICAND_BITS_F64 = 53" "EXPONENT_SHIFT_F64 = 52" "EXPONENT_BITS_F64 = 11"
  "NUM_FINITE_EXPONENTS_F64 = 2046" "MIN_ACCUMULATOR_BITS = 2098" "SUBNORMAL_EXPONENT_BIAS_F64 = 1022"
  "RAW_SUBNORMAL_EXPONENT_F64 = 0" "FRACTION_MASK_F64 = mask 52" "SIGNIFICAND_MASK_F64 = mask 53"
  "EXPONENT_MASK_F64 = push_bit 52 (mask 11)" "RAW_NONFINITE_EXPONENT_F64 = push_bit 52 (mask 11)"
  "SIGN_BIT_F64 = push_bit 63 1"
  by (simp_all add: NUM_ACCUMULATOR_WORDS_def BITS_PER_ACC_WORD_def FRACTION_BITS_F64_def
      SIGNIFICAND_BITS_F64_def EXPONENT_SHIFT_F64_def EXPONENT_BITS_F64_def NUM_FINITE_EXPONENTS_F64_def
      MIN_ACCUMULATOR_BITS_def SUBNORMAL_EXPONENT_BIAS_F64_def NORMAL_EXPONENT_BIAS_F64_def
      RAW_SUBNORMAL_EXPONENT_F64_def FRACTION_MASK_F64_def SIGNIFICAND_MASK_F64_def
      EXPONENT_MASK_F64_def RAW_NONFINITE_EXPONENT_F64_def SIGN_BIT_F64_def DIV_CEIL_def mask_numeral)

text \<open>The contract of the hooks: a word and a carry together change by the contribution, times
  \<open>sigma\<close>, which is 1 for an addition and \<open>- 1\<close> for a subtraction.\<close>

locale word_accumulation =
  fixes hook :: word_hook and sigma :: int
  assumes sigma: "sigma = 1 \<or> sigma = - 1"
    and hook: "hook w c = (carry, w') \<Longrightarrow> uint w' = uint w + sigma * (uint c - BASE * of_bool carry)"
begin

lemma accumulate_word_result:
  assumes "i < length ws"
  obtains carry w' where "accumulate_word hook ws i c = Inr (carry, ws[i := w'])"
    and "uint w' = uint (ws ! i) + sigma * (uint c - BASE * of_bool carry)"
    and "mag (ws[i := w']) = mag ws + sigma * (uint c * BASE ^ i - of_bool carry * BASE ^ Suc i)"
proof -
  obtain carry w' where h: "hook (ws ! i) c = (carry, w')" by fastforce
  have w': "uint w' = uint (ws ! i) + sigma * (uint c - BASE * of_bool carry)" by (rule hook [OF h])
  have "accumulate_word hook ws i c = Inr (carry, ws[i := w'])"
    using assms h by (simp add: accumulate_word_def)
  moreover have "mag (ws[i := w']) = mag ws + sigma * (uint c * BASE ^ i - of_bool carry * BASE ^ Suc i)"
    using mag_update [OF assms, of w'] by (simp add: w' algebra_simps)
  ultimately show thesis using that w' by blast
qed

text \<open>The propagation of a carry ends with the exact result, unless the result leaves the range of
  the accumulator, in which case the process exits.\<close>

lemma carry_loop_result:
  assumes "length ws = 33" and "idx \<le> 33"
  shows "let total = mag ws + sigma * of_bool carry * BASE ^ idx
         in if 0 \<le> total \<and> total < BASE ^ 33
            then \<exists>hm1 ws'. carry_loop hook carry idx hm ws = Inr (hm1, ws') \<and> length ws' = 33 \<and> mag ws' = total \<and>
                   (if carry then idx \<le> hm1 \<and> hm1 < 33 \<and> uint (ws' ! hm1) = uint (ws ! hm1) + sigma \<and>
                                  (\<forall>i < 33. hm1 < i \<longrightarrow> ws' ! i = ws ! i)
                    else hm1 = hm \<and> ws' = ws)
            else carry_loop hook carry idx hm ws = Inl ExitError"
  using assms
proof (induction "33 - idx" arbitrary: idx carry hm ws)
  case 0
  then have idx: "idx = 33" by simp
  have m: "0 \<le> mag ws" "mag ws < BASE ^ 33" using mag_less [of ws] 0 by simp_all
  show ?case
  proof (cases carry)
    case True
    with sigma m have "\<not> (0 \<le> mag ws + sigma * of_bool carry * BASE ^ idx \<and>
        mag ws + sigma * of_bool carry * BASE ^ idx < BASE ^ 33)"
      unfolding idx by (elim disjE) (simp_all add: not_less)
    then show ?thesis using True idx by (simp add: carry_loop.simps Let_def)
  qed (use 0 m in \<open>simp add: carry_loop.simps Let_def\<close>)
next
  case (Suc n)
  then have idx: "idx < length ws" by simp
  show ?case
  proof (cases carry)
    case True
    obtain c w' where w: "accumulate_word hook ws idx 1 = Inr (c, ws[idx := w'])"
      and w': "uint w' = uint (ws ! idx) + sigma * (uint (1 :: u64) - BASE * of_bool c)"
      and mag: "mag (ws[idx := w']) = mag ws + sigma * (uint (1 :: u64) * BASE ^ idx - of_bool c * BASE ^ Suc idx)"
      by (rule accumulate_word_result [OF idx, of 1])
    have loop: "carry_loop hook carry idx hm ws = carry_loop hook c (Suc idx) idx (ws[idx := w'])"
      using True idx Suc.prems by (subst carry_loop.simps) (simp add: w)
    have total: "mag (ws[idx := w']) + sigma * of_bool c * BASE ^ Suc idx = mag ws + sigma * of_bool carry * BASE ^ idx"
      using mag True by (simp add: algebra_simps)
    have IH: "let total = mag (ws[idx := w']) + sigma * of_bool c * BASE ^ Suc idx
         in if 0 \<le> total \<and> total < BASE ^ 33
            then \<exists>hm1 ws'. carry_loop hook c (Suc idx) idx (ws[idx := w']) = Inr (hm1, ws') \<and> length ws' = 33 \<and> mag ws' = total \<and>
                   (if c then Suc idx \<le> hm1 \<and> hm1 < 33 \<and> uint (ws' ! hm1) = uint (ws[idx := w'] ! hm1) + sigma \<and>
                                  (\<forall>i < 33. hm1 < i \<longrightarrow> ws' ! i = ws[idx := w'] ! i)
                    else hm1 = idx \<and> ws' = ws[idx := w'])
            else carry_loop hook c (Suc idx) idx (ws[idx := w']) = Inl ExitError"
      by (rule Suc.hyps(1)) (use Suc in auto)
    show ?thesis
    proof (cases c)
      case c: True
      with IH True show ?thesis
        unfolding loop total Let_def using idx Suc.prems by (fastforce split: if_splits)
    next
      case c: False
      with IH True w' show ?thesis
        unfolding loop total Let_def using idx Suc.prems by (fastforce split: if_splits)
    qed
  next
    case False
    have "0 \<le> mag ws" "mag ws < BASE ^ 33" using mag_less [of ws] Suc by simp_all
    with False show ?thesis using Suc.prems by (simp add: carry_loop.simps Let_def)
  qed
qed

end

definition addend_value :: "unsigned_addend \<Rightarrow> int" where
  "addend_value a = mag (addend_words a) * BASE ^ low_word_idx a"

definition addend_ok :: "unsigned_addend \<Rightarrow> bool" where
  "addend_ok a \<longleftrightarrow> length (addend_words a) = 2 \<and> low_word_idx a + 1 < 33 \<and>
     uint (addend_words a ! 1) < BASE - 1 \<and> mag (addend_words a) \<noteq> 0"

lemma addend_okE:
  assumes "addend_ok a"
  obtains lo hi where "addend_words a = [lo, hi]" "low_word_idx a + 1 < 33" "uint hi < BASE - 1"
    "lo \<noteq> 0 \<or> hi \<noteq> 0" "addend_value a = uint lo * BASE ^ low_word_idx a + uint hi * BASE ^ Suc (low_word_idx a)"
proof -
  obtain lo hi where w: "addend_words a = [lo, hi]"
    using assms by (auto simp: addend_ok_def numeral_2_eq_2 length_Suc_conv)
  with assms have "low_word_idx a + 1 < 33" "uint hi < BASE - 1" "lo \<noteq> 0 \<or> hi \<noteq> 0"
    by (auto simp: addend_ok_def uint_0_iff)
  with that [OF w] show thesis by (simp add: addend_value_def w algebra_simps)
qed

text \<open>The whole accumulation: the highest modified word tells where the result is nonzero (after an
  addition) and where the accumulator was nonzero (before a subtraction).\<close>

definition accumulated :: "int \<Rightarrow> u64 list \<Rightarrow> int \<Rightarrow> u64 list \<Rightarrow> nat \<Rightarrow> bool" where
  "accumulated sigma ws sm ws' hm1 \<longleftrightarrow> length ws' = 33 \<and> mag ws' = sm \<and> hm1 < 33 \<and>
     (\<forall>i < 33. hm1 < i \<longrightarrow> ws' ! i = ws ! i) \<and> sigma * uint (ws ! hm1) < sigma * uint (ws' ! hm1)"

context word_accumulation
begin

lemma high_word_carry:
  fixes hi :: u64
  assumes "uint hi < BASE - 1"
  shows "uint (hi + of_bool carry) = uint hi + of_bool carry" and "hi + of_bool carry \<ge> hi"
proof -
  have *: "uint (hi + of_bool carry) = uint hi + of_bool carry"
    using assms by (cases carry) (simp_all add: uint_add_lem [THEN iffD1] BASE_def)
  then show "uint (hi + of_bool carry) = uint hi + of_bool carry" and "hi + of_bool carry \<ge> hi"
    by (simp_all add: word_le_def)
qed

lemma accumulate_from_high:
  assumes ws: "length ws = 33" and idx: "idx < 33" and c: "0 < uint c"
    and sm: "sm = mag ws + sigma * (uint c * BASE ^ idx)"
  shows "if 0 \<le> sm \<and> sm < BASE ^ 33
         then \<exists>hm1 ws'. bindR (accumulate_word hook ws idx c) (\<lambda>(carry, ws). carry_loop hook carry (idx + 1) idx ws) =
                Inr (hm1, ws') \<and> idx \<le> hm1 \<and> accumulated sigma ws sm ws' hm1
         else bindR (accumulate_word hook ws idx c) (\<lambda>(carry, ws). carry_loop hook carry (idx + 1) idx ws) =
                Inl ExitError"
proof -
  obtain carry w' where w: "accumulate_word hook ws idx c = Inr (carry, ws[idx := w'])"
    and w': "uint w' = uint (ws ! idx) + sigma * (uint c - BASE * of_bool carry)"
    and mag: "mag (ws[idx := w']) = mag ws + sigma * (uint c * BASE ^ idx - of_bool carry * BASE ^ Suc idx)"
    by (rule accumulate_word_result [of idx ws c]) (use ws idx in auto)
  have t: "mag (ws[idx := w']) + sigma * of_bool carry * BASE ^ (idx + 1) = sm"
    using mag by (simp add: sm algebra_simps)
  note loop = carry_loop_result [of "ws[idx := w']" "idx + 1" carry idx, unfolded t Let_def]
  have s: "sigma * sigma = 1" using sigma by auto
  show ?thesis
  proof (cases "0 \<le> sm \<and> sm < BASE ^ 33")
    case True
    then obtain hm1 ws' where l: "carry_loop hook carry (idx + 1) idx (ws[idx := w']) = Inr (hm1, ws')"
      "length ws' = 33" "mag ws' = sm"
      and hm1: "if carry then idx + 1 \<le> hm1 \<and> hm1 < 33 \<and> uint (ws' ! hm1) = uint (ws[idx := w'] ! hm1) + sigma \<and>
                  (\<forall>i < 33. hm1 < i \<longrightarrow> ws' ! i = ws[idx := w'] ! i)
                else hm1 = idx \<and> ws' = ws[idx := w']"
      using loop ws idx by auto
    have "idx \<le> hm1 \<and> hm1 < 33 \<and> (\<forall>i < 33. hm1 < i \<longrightarrow> ws' ! i = ws ! i)"
      using hm1 ws idx by (auto split: if_splits)
    moreover have "sigma * uint (ws ! hm1) < sigma * uint (ws' ! hm1)"
    proof (cases carry)
      case True
      with hm1 s show ?thesis by (simp add: distrib_left)
    next
      case False
      then have "sigma * uint w' = sigma * uint (ws ! idx) + sigma * sigma * uint c"
        using w' by (simp add: algebra_simps)
      then have "sigma * uint (ws ! idx) < sigma * uint w'" unfolding s using c by simp
      with False hm1 ws idx show ?thesis by simp
    qed
    ultimately show ?thesis using True l by (auto simp: w accumulated_def)
  next
    case False
    then show ?thesis using loop ws idx by (auto simp: w)
  qed
qed

lemma accumulate_result:
  assumes "length (acc_words acc) = 33" and a: "addend_ok a"
    and sm: "sm = mag (acc_words acc) + sigma * addend_value a"
  shows "if 0 \<le> sm \<and> sm < BASE ^ 33
         then \<exists>hm1 ws'. accumulate_without_underflow hook update acc a = update (acc\<lparr>acc_words := ws'\<rparr>) hm1 \<and>
                accumulated sigma (acc_words acc) sm ws' hm1 \<and> low_word_idx a \<le> hm1
         else accumulate_without_underflow hook update acc a = Inl ExitError"
proof -
  define ws where "ws = acc_words acc"
  define low where "low = low_word_idx a"
  obtain lo hi where words: "addend_words a = [lo, hi]" and low: "low + 1 < 33" and hi: "uint hi < BASE - 1"
    and nz: "lo \<noteq> 0 \<or> hi \<noteq> 0" and val: "addend_value a = uint lo * BASE ^ low + uint hi * BASE ^ Suc low"
    using a unfolding low_def by (rule addend_okE)
  have ws: "length ws = 33" using assms(1) by (simp add: ws_def)
  obtain carry w' where w: "accumulate_word hook ws low lo = Inr (carry, ws[low := w'])"
    and w': "uint w' = uint (ws ! low) + sigma * (uint lo - BASE * of_bool carry)"
    and mag: "mag (ws[low := w']) = mag ws + sigma * (uint lo * BASE ^ low - of_bool carry * BASE ^ Suc low)"
    by (rule accumulate_word_result [of low ws lo]) (use ws low in auto)
  define high where "high = hi + of_bool carry"
  have high: "uint high = uint hi + of_bool carry" "high \<ge> hi"
    using high_word_carry [OF hi, of carry] by (simp_all add: high_def)
  have t: "sm = mag (ws[low := w']) + sigma * (uint high * BASE ^ Suc low)"
    unfolding mag sm val high(1) by (simp add: ws_def algebra_simps)
  show ?thesis
  proof (cases "high = 0")
    case True
    have "0 \<le> uint hi" "0 \<le> (of_bool carry :: int)" by simp_all
    with high True have h: "hi = 0" "\<not> carry" by (auto simp: uint_0_iff of_bool_def split: if_splits)
    with nz have lo: "0 < uint lo" by (simp add: word_neq_0_conv word_less_def)
    have "accumulate_without_underflow hook update acc a = update (acc\<lparr>acc_words := ws[low := w']\<rparr>) low"
      using low ws h by (simp add: accumulate_without_underflow_def words w flip: ws_def low_def)
        (simp add: carry_loop.simps)
    moreover have "mag (ws[low := w']) = sm" using t True by simp
    moreover have "sigma * uint (ws ! low) < sigma * uint w'"
      using w' h lo sigma by auto
    ultimately have "accumulated sigma ws sm (ws[low := w']) low"
      and "accumulate_without_underflow hook update acc a = update (acc\<lparr>acc_words := ws[low := w']\<rparr>) low"
      using ws low by (simp_all add: accumulated_def)
    moreover have "0 \<le> sm \<and> sm < BASE ^ 33"
      using mag_less [of "ws[low := w']"] ws t True by simp
    ultimately show ?thesis by (auto simp flip: ws_def low_def)
  next
    case False
    have "accumulate_without_underflow hook update acc a =
        bindR (bindR (accumulate_word hook (ws[low := w']) (Suc low) high)
                 (\<lambda>(carry, ws). carry_loop hook carry (Suc low + 1) (Suc low) ws))
          (\<lambda>(hm1, ws'). update (acc\<lparr>acc_words := ws'\<rparr>) hm1)"
      using low high False
      by (simp add: accumulate_without_underflow_def words w Let_def bindR_assoc split_def
          flip: ws_def low_def high_def)
    moreover note accumulate_from_high [of "ws[low := w']" "Suc low" high sm]
    moreover have "0 < uint high" using False by (simp add: word_neq_0_conv word_less_def)
    moreover have "accumulated sigma (ws[low := w']) sm ws' hm1 \<Longrightarrow> Suc low \<le> hm1 \<Longrightarrow> accumulated sigma ws sm ws' hm1" for ws' hm1
      by (simp add: accumulated_def)
    ultimately show ?thesis
      using ws low t by (fastforce split: if_splits simp flip: ws_def low_def)
  qed
qed

end

interpretation add: word_accumulation add_inplace_return_carry 1
proof unfold_locales
  fix w c w' :: u64 and carry
  assume "add_inplace_return_carry w c = (carry, w')"
  then have "unat w' + 2 ^ 64 * of_bool carry = unat w + unat c"
    using add_with_carry_u64_exact [where carry = False and augend = w and addend = c] by (simp add: add_inplace_return_carry_def)
  then have "int (unat w' + 2 ^ 64 * of_bool carry) = int (unat w + unat c)" by (rule arg_cong)
  then show "uint w' = uint w + 1 * (uint c - BASE * of_bool carry)"
    by (simp add: BASE_def)
qed simp

interpretation sub: word_accumulation sub_inplace_return_carry "- 1"
proof unfold_locales
  fix w c w' :: u64 and carry
  assume "sub_inplace_return_carry w c = (carry, w')"
  then have "unat w' + unat c = unat w + 2 ^ 64 * of_bool carry"
    using subtract_with_carry_u64_exact [where carry = False and minuend = w and subtrahend = c] by (simp add: sub_inplace_return_carry_def)
  then have "int (unat w' + unat c) = int (unat w + 2 ^ 64 * of_bool carry)" by (rule arg_cong)
  then show "uint w' = uint w + - 1 * (uint c - BASE * of_bool carry)"
    by (simp add: BASE_def)
qed simp

section \<open>The accumulator as a signed integer\<close>

definition highest_word :: "u64 list \<Rightarrow> nat \<Rightarrow> bool" where
  "highest_word ws h \<longleftrightarrow> h < 33 \<and> (\<forall>i < 33. h < i \<longrightarrow> ws ! i = 0) \<and> (h = 0 \<or> ws ! h \<noteq> 0)"

definition acc_ok :: "accumulator \<Rightarrow> bool" where
  "acc_ok acc \<longleftrightarrow> length (acc_words acc) = 33 \<and> highest_word (acc_words acc) (highest_word_idx acc)"

definition acc_value :: "accumulator \<Rightarrow> int" where
  "acc_value acc = (if acc_negative acc then - mag (acc_words acc) else mag (acc_words acc))"

lemma acc_ok_bounds:
  assumes "acc_ok acc"
  shows "mag (acc_words acc) < BASE ^ Suc (highest_word_idx acc)"
    and "highest_word_idx acc \<noteq> 0 \<Longrightarrow> BASE ^ highest_word_idx acc \<le> mag (acc_words acc)"
    and "mag (acc_words acc) < BASE ^ 33"
  using assms mag_below(2) [of "highest_word_idx acc" "acc_words acc"] mag_less [of "acc_words acc"]
    mag_above [of "highest_word_idx acc" "acc_words acc"]
  by (simp_all add: acc_ok_def highest_word_def)

lemma update_after_add:
  assumes acc: "acc_ok acc" and r: "accumulated 1 (acc_words acc) sm ws' hm"
  shows "\<exists>acc'. update_highest_idx_after_add (acc\<lparr>acc_words := ws'\<rparr>) hm = Inr acc' \<and> acc_ok acc' \<and>
           mag (acc_words acc') = sm \<and> acc_negative acc' = acc_negative acc"
proof -
  have hm: "hm < 33" "length ws' = 33" and nz: "ws' ! hm \<noteq> 0"
    and same: "\<forall>i < 33. hm < i \<longrightarrow> ws' ! i = acc_words acc ! i"
    using r uint_u64_bounds(1) [of "acc_words acc ! hm"] by (auto simp: accumulated_def)
  show ?thesis
  proof (cases "hm > highest_word_idx acc")
    case True
    then have "acc_ok (acc\<lparr>acc_words := ws', highest_word_idx := hm\<rparr>)"
      using acc hm nz same by (auto simp: acc_ok_def highest_word_def)
    then show ?thesis using True hm nz r by (simp add: update_highest_idx_after_add_def accumulated_def)
  next
    case False
    have "highest_word ws' (highest_word_idx acc)"
    proof (cases "hm = highest_word_idx acc")
      case True
      then show ?thesis using acc hm nz same by (auto simp: acc_ok_def highest_word_def)
    next
      case f: False
      with False have "ws' ! highest_word_idx acc = acc_words acc ! highest_word_idx acc"
        using same acc by (simp add: acc_ok_def highest_word_def)
      then show ?thesis using False acc hm same by (auto simp: acc_ok_def highest_word_def)
    qed
    then show ?thesis using False hm r by (simp add: update_highest_idx_after_add_def accumulated_def acc_ok_def)
  qed
qed

lemma highest_idx_loop_result:
  assumes "length ws = 33" and "m < 33" and "\<forall>i < 33. m < i \<longrightarrow> ws ! i = 0"
  shows "\<exists>h. highest_idx_loop ws m = Inr h \<and> highest_word ws h"
  using assms(2,3)
proof (induction m)
  case (Suc m)
  show ?case
  proof (cases "ws ! Suc m = 0")
    case True
    with Suc.prems have "\<forall>i < 33. m < i \<longrightarrow> ws ! i = 0" by (metis Suc_lessI)
    with Suc show ?thesis using True assms(1) by simp
  qed (use Suc.prems assms(1) in \<open>auto simp: highest_word_def\<close>)
qed (use assms in \<open>auto simp: highest_word_def\<close>)

lemma update_after_sub:
  assumes acc: "acc_ok acc" and r: "accumulated (- 1) (acc_words acc) sm ws' hm"
  shows "\<exists>acc'. update_highest_idx_after_sub (acc\<lparr>acc_words := ws'\<rparr>) hm = Inr acc' \<and> acc_ok acc' \<and>
           mag (acc_words acc') = sm \<and> acc_negative acc' = acc_negative acc"
proof -
  have hm: "hm < 33" "length ws' = 33" and nz: "acc_words acc ! hm \<noteq> 0"
    and same: "\<forall>i < 33. hm < i \<longrightarrow> ws' ! i = acc_words acc ! i"
    using r uint_u64_bounds(1) [of "ws' ! hm"] by (auto simp: accumulated_def)
  have le: "hm \<le> highest_word_idx acc"
    using acc hm nz by (auto simp: acc_ok_def highest_word_def intro: leI)
  show ?thesis
  proof (cases "hm < highest_word_idx acc \<or> ws' ! hm \<noteq> 0")
    case True
    then have "highest_word ws' (highest_word_idx acc)"
      using acc hm same le by (auto simp: acc_ok_def highest_word_def le_less)
    then show ?thesis
      using True hm le r by (auto simp: update_highest_idx_after_sub_def accumulated_def acc_ok_def)
  next
    case False
    with le have eq: "hm = highest_word_idx acc" and z: "ws' ! hm = 0" by auto
    have "\<forall>i < 33. hm - 1 < i \<longrightarrow> ws' ! i = 0"
    proof (intro allI impI)
      fix i :: nat
      assume "i < 33" "hm - 1 < i"
      then consider "i = hm" | "hm < i" by linarith
      then show "ws' ! i = 0"
        using z same acc eq \<open>i < 33\<close> by cases (auto simp: acc_ok_def highest_word_def)
    qed
    then obtain h where "highest_idx_loop ws' (hm - 1) = Inr h" "highest_word ws' h"
      using highest_idx_loop_result [of ws' "hm - 1"] hm by (auto simp: less_imp_diff_less)
    then show ?thesis
      using z eq hm r by (simp add: update_highest_idx_after_sub_def accumulated_def acc_ok_def)
  qed
qed

lemma add_magnitude:
  assumes "acc_ok acc" and "addend_ok a"
  shows "if mag (acc_words acc) + addend_value a < BASE ^ 33
         then \<exists>acc'. accumulate_without_underflow add_inplace_return_carry update_highest_idx_after_add acc a = Inr acc' \<and>
                acc_ok acc' \<and> mag (acc_words acc') = mag (acc_words acc) + addend_value a \<and>
                acc_negative acc' = acc_negative acc
         else accumulate_without_underflow add_inplace_return_carry update_highest_idx_after_add acc a = Inl ExitError"
proof -
  have "0 \<le> addend_value a" by (simp add: addend_value_def)
  then show ?thesis
    using add.accumulate_result [OF _ assms(2) refl, of acc update_highest_idx_after_add] assms(1)
      update_after_add [OF assms(1)]
    by (fastforce simp: acc_ok_def split: if_splits)
qed

lemma sub_magnitude:
  assumes "acc_ok acc" and "addend_ok a" and "addend_value a \<le> mag (acc_words acc)"
  shows "\<exists>acc'. accumulate_without_underflow sub_inplace_return_carry update_highest_idx_after_sub acc a = Inr acc' \<and>
           acc_ok acc' \<and> mag (acc_words acc') = mag (acc_words acc) - addend_value a \<and>
           acc_negative acc' = acc_negative acc"
proof -
  have "0 \<le> addend_value a" by (simp add: addend_value_def)
  then show ?thesis
    using sub.accumulate_result [OF _ assms(2) refl, of acc update_highest_idx_after_sub] assms(1,3)
      update_after_sub [OF assms(1)] acc_ok_bounds(3) [OF assms(1)]
    by (fastforce simp: acc_ok_def split: if_splits)
qed

section \<open>Comparison and subtraction with underflow\<close>

lemma scaled_less:
  fixes x y p r :: int
  assumes "0 \<le> r" and "r < p"
  shows "r + x * p < y * p \<longleftrightarrow> x < y"
proof
  assume "r + x * p < y * p"
  with assms(1) have "x * p < y * p" by linarith
  then show "x < y" using assms by (simp add: mult_less_cancel_right)
next
  assume "x < y"
  then have "(x + 1) * p \<le> y * p" using assms by (intro mult_right_mono) auto
  then show "r + x * p < y * p" using assms(2) by (simp add: distrib_right)
qed

lemma two_digits_less:
  fixes a b x y :: u64
  assumes "a \<noteq> b"
  shows "uint x + uint a * BASE < uint y + uint b * BASE \<longleftrightarrow> a < b"
proof -
  have "uint x + uint a * BASE < uint y + uint b * BASE \<longleftrightarrow> uint a < uint b"
  proof (cases "uint a < uint b")
    case True
    then have "(uint a + 1) * BASE \<le> uint b * BASE" by (intro mult_right_mono) auto
    then have "uint a * BASE + BASE \<le> uint b * BASE" by (simp add: distrib_right)
    with uint_u64_bounds [of x] uint_u64_bounds [of y] True show ?thesis by linarith
  next
    case False
    with assms have "uint b + 1 \<le> uint a" by (simp add: word_uint_eq_iff)
    then have "(uint b + 1) * BASE \<le> uint a * BASE" by (intro mult_right_mono) auto
    then have "uint b * BASE + BASE \<le> uint a * BASE" by (simp add: distrib_right)
    with uint_u64_bounds [of x] uint_u64_bounds [of y] False show ?thesis by linarith
  qed
  then show ?thesis by (simp add: word_less_def)
qed

lemma addend_bounds:
  assumes "addend_ok a"
  shows "BASE ^ low_word_idx a \<le> addend_value a" and "addend_value a < BASE ^ (low_word_idx a + 2)"
    and "addend_words a ! 1 \<noteq> 0 \<Longrightarrow> BASE ^ Suc (low_word_idx a) \<le> addend_value a"
proof -
  have len: "length (addend_words a) = 2" and nz: "mag (addend_words a) \<noteq> 0"
    using assms by (simp_all add: addend_ok_def)
  have "1 \<le> mag (addend_words a)" using nz mag_nonneg [of "addend_words a"] by linarith
  then have "1 * BASE ^ low_word_idx a \<le> mag (addend_words a) * BASE ^ low_word_idx a"
    by (intro mult_right_mono) auto
  then show "BASE ^ low_word_idx a \<le> addend_value a" by (simp add: addend_value_def)
  have "mag (addend_words a) < BASE ^ 2" using mag_less [of "addend_words a"] len by simp
  then have "mag (addend_words a) * BASE ^ low_word_idx a < BASE ^ 2 * BASE ^ low_word_idx a"
    by (intro mult_strict_right_mono) auto
  then show "addend_value a < BASE ^ (low_word_idx a + 2)"
    by (simp add: addend_value_def power_add mult.commute power2_eq_square)
  assume "addend_words a ! 1 \<noteq> 0"
  then have "BASE ^ 1 \<le> mag (addend_words a)" by (intro mag_above) (simp add: len)
  then have "BASE ^ 1 * BASE ^ low_word_idx a \<le> mag (addend_words a) * BASE ^ low_word_idx a"
    by (intro mult_right_mono) auto
  then show "BASE ^ Suc (low_word_idx a) \<le> addend_value a" by (simp add: addend_value_def)
qed

lemma lt_same_index:
  assumes ok: "acc_ok acc" and a: "addend_ok a" and h: "highest_word_idx acc = low_word_idx a"
  shows "mag (acc_words acc) < addend_value a \<longleftrightarrow>
           addend_words a ! 1 \<noteq> 0 \<or> acc_words acc ! low_word_idx a < addend_words a ! 0"
proof (cases "addend_words a ! 1 = 0")
  case False
  with addend_bounds(3) [OF a] acc_ok_bounds(1) [OF ok] h show ?thesis by simp
next
  case True
  define low where "low = low_word_idx a"
  obtain lo hi where w: "addend_words a = [lo, hi]" "low + 1 < 33"
    "addend_value a = uint lo * BASE ^ low + uint hi * BASE ^ Suc low"
    using a unfolding low_def by (rule addend_okE)
  have "mag (acc_words acc) = mag (take low (acc_words acc)) + uint (acc_words acc ! low) * BASE ^ low"
    using mag_below(1) [of low "acc_words acc"] mag_take_Suc [of low "acc_words acc"] ok h
    by (simp add: acc_ok_def highest_word_def low_def)
  moreover have "mag (take low (acc_words acc)) < BASE ^ low"
    using mag_take_less [of low "acc_words acc"] ok w(2) by (simp add: acc_ok_def)
  ultimately show ?thesis
    using scaled_less [of "mag (take low (acc_words acc))" "BASE ^ low"] True w
    by (simp add: word_less_def flip: low_def)
qed

lemma lt_next_index:
  assumes ok: "acc_ok acc" and a: "addend_ok a" and h: "highest_word_idx acc = Suc (low_word_idx a)"
  shows "mag (acc_words acc) < addend_value a \<longleftrightarrow>
           (if acc_words acc ! Suc (low_word_idx a) = addend_words a ! 1
            then acc_words acc ! low_word_idx a < addend_words a ! 0
            else acc_words acc ! Suc (low_word_idx a) < addend_words a ! 1)"
proof -
  define low where "low = low_word_idx a"
  define ws where "ws = acc_words acc"
  obtain lo hi where w: "addend_words a = [lo, hi]" "low + 1 < 33"
    "addend_value a = uint lo * BASE ^ low + uint hi * BASE ^ Suc low"
    using a unfolding low_def by (rule addend_okE)
  have len: "length ws = 33" using ok by (simp add: acc_ok_def ws_def)
  have "mag ws = mag (take (Suc (Suc low)) ws)"
    using mag_below(1) [of "Suc low" ws] ok h by (simp add: acc_ok_def highest_word_def ws_def low_def)
  also have "\<dots> = mag (take low ws) + (uint (ws ! low) + uint (ws ! Suc low) * BASE) * BASE ^ low"
    using mag_take_Suc [of "Suc low" ws] mag_take_Suc [of low ws] len w(2) by (simp add: algebra_simps)
  finally have m: "mag ws = mag (take low ws) + (uint (ws ! low) + uint (ws ! Suc low) * BASE) * BASE ^ low" .
  have "addend_value a = (uint lo + uint hi * BASE) * BASE ^ low" using w(3) by (simp add: algebra_simps)
  moreover have "mag (take low ws) < BASE ^ low" using mag_take_less [of low ws] len w(2) by simp
  ultimately have "mag ws < addend_value a \<longleftrightarrow>
      uint (ws ! low) + uint (ws ! Suc low) * BASE < uint lo + uint hi * BASE"
    unfolding m by (simp add: scaled_less)
  then show ?thesis
    using w(1) two_digits_less [of "ws ! Suc low" hi "ws ! low" lo]
    by (auto simp: word_less_def simp flip: low_def ws_def)
qed

lemma lt_exact:
  assumes ok: "acc_ok acc" and a: "addend_ok a"
  shows "accumulator_lt_nonzero_subtrahend acc a = Inr (mag (acc_words acc) < addend_value a)"
proof -
  define h where "h = highest_word_idx acc"
  define low where "low = low_word_idx a"
  have bounds: "h < length (acc_words acc)" "low + 1 < 33" using ok a
    by (simp_all add: acc_ok_def highest_word_def addend_ok_def h_def low_def)
  obtain lo hi where w: "addend_words a = [lo, hi]" "lo \<noteq> 0 \<or> hi \<noteq> 0"
    using a by (rule addend_okE)
  have or: "lo OR hi \<noteq> 0" using w(2) by (metis or_eq_0_iff)
  consider "low + 1 < h" | "h < low" | "h = low" | "h = Suc low" by linarith
  then show ?thesis
  proof cases
    case 1
    then have "BASE ^ (low + 2) \<le> BASE ^ h" by (intro power_increasing) auto
    with acc_ok_bounds(2) [OF ok] addend_bounds(2) [OF a] 1
    have "\<not> mag (acc_words acc) < addend_value a" by (simp add: h_def low_def)
    then show ?thesis using 1 by (simp add: accumulator_lt_nonzero_subtrahend_def Let_def h_def low_def)
  next
    case 2
    then have "BASE ^ Suc h \<le> BASE ^ low" by (intro power_increasing) auto
    with acc_ok_bounds(1) [OF ok] addend_bounds(1) [OF a]
    have "mag (acc_words acc) < addend_value a" by (simp add: h_def low_def)
    then show ?thesis
      using 2 or w by (simp add: accumulator_lt_nonzero_subtrahend_def Let_def h_def low_def)
  next
    case 3
    then show ?thesis
      using lt_same_index [OF ok a] bounds
      by (simp add: accumulator_lt_nonzero_subtrahend_def Let_def h_def low_def)
  next
    case 4
    then show ?thesis
      using lt_next_index [OF ok a] bounds
      by (auto simp: accumulator_lt_nonzero_subtrahend_def Let_def h_def low_def)
  qed
qed

text \<open>One step of the subtraction of the accumulator from the minuend, on the words below
  \<open>word_idx\<close> that are done.\<close>

definition minuend_digit :: "u64 list \<Rightarrow> nat \<Rightarrow> nat \<Rightarrow> u64" where
  "minuend_digit ms low i = (replicate low 0 @ ms) ! i"

lemma minuend_digit_read:
  "i < low + length ms \<Longrightarrow> (if i < low then Inr 0 else array_read ms (i - low)) = Inr (minuend_digit ms low i)"
  by (simp add: minuend_digit_def nth_append)

lemma underflow_loop_result:
  assumes "length ws = 33" and "hi < 33" and "hi < low + length ms" and "idx \<le> Suc hi"
    and "\<forall>i < idx. h < i \<longrightarrow> ws ! i = 0" and "h = 0 \<or> h < idx \<and> ws ! h \<noteq> 0"
  shows "\<exists>c' h' ws'. underflow_loop ms low hi idx c h ws = Inr (c', h', ws') \<and> length ws' = 33 \<and>
           mag (take (Suc hi) ws') - of_bool c' * BASE ^ Suc hi =
             mag (take idx ws) - of_bool c * BASE ^ idx +
             (\<Sum>i \<in> {idx..<Suc hi}. (uint (minuend_digit ms low i) - uint (ws ! i)) * BASE ^ i) \<and>
           (\<forall>i < Suc hi. h' < i \<longrightarrow> ws' ! i = 0) \<and> (h' = 0 \<or> h' < Suc hi \<and> ws' ! h' \<noteq> 0) \<and>
           (\<forall>i < 33. hi < i \<longrightarrow> ws' ! i = ws ! i)"
  using assms
proof (induction "Suc hi - idx" arbitrary: idx c h ws)
  case 0
  then have idx: "idx = Suc hi" by simp
  with 0 show ?case by (auto simp: underflow_loop.simps)
next
  case (Suc n)
  then have idx: "idx \<le> hi" by simp
  define md where "md = minuend_digit ms low idx"
  obtain c1 d where sub: "subtract_with_carry_u64 c md (ws ! idx) = (c1, d)" by fastforce
  define ws1 where "ws1 = ws[idx := d]"
  define h1 where "h1 = (if d \<noteq> 0 then idx else h)"
  have read: "(if idx < low then Inr 0 else array_read ms (idx - low)) = Inr md"
    using minuend_digit_read [of idx low ms] Suc.prems(3) idx by (simp add: md_def)
  have step: "underflow_loop ms low hi idx c h ws = underflow_loop ms low hi (Suc idx) c1 h1 ws1"
    using idx Suc.prems(1,2) by (subst underflow_loop.simps) (simp add: read sub ws1_def h1_def)
  have IH: "\<exists>c' h' ws'. underflow_loop ms low hi (Suc idx) c1 h1 ws1 = Inr (c', h', ws') \<and> length ws' = 33 \<and>
           mag (take (Suc hi) ws') - of_bool c' * BASE ^ Suc hi =
             mag (take (Suc idx) ws1) - of_bool c1 * BASE ^ Suc idx +
             (\<Sum>i \<in> {Suc idx..<Suc hi}. (uint (minuend_digit ms low i) - uint (ws1 ! i)) * BASE ^ i) \<and>
           (\<forall>i < Suc hi. h' < i \<longrightarrow> ws' ! i = 0) \<and> (h' = 0 \<or> h' < Suc hi \<and> ws' ! h' \<noteq> 0) \<and>
           (\<forall>i < 33. hi < i \<longrightarrow> ws' ! i = ws1 ! i)"
    using Suc.prems Suc.hyps(2) idx
    by (intro Suc.hyps(1)) (auto simp: ws1_def h1_def nth_list_update less_Suc_eq)
  have "unat d + unat (ws ! idx) + of_bool c = unat md + 2 ^ 64 * of_bool c1"
    using subtract_with_carry_u64_exact [where carry = c and minuend = md and subtrahend = "ws ! idx"] sub
    by simp
  then have "int (unat d + unat (ws ! idx) + of_bool c) = int (unat md + 2 ^ 64 * of_bool c1)" by (rule arg_cong)
  then have d: "uint d = uint md - uint (ws ! idx) - of_bool c + BASE * of_bool c1" by (simp add: BASE_def)
  have "mag (take (Suc idx) ws1) = mag (take idx ws) + uint d * BASE ^ idx"
    using mag_take_Suc [of idx ws1] Suc.prems(1,2) idx by (simp add: ws1_def)
  then have m1: "mag (take (Suc idx) ws1) - of_bool c1 * BASE ^ Suc idx =
      mag (take idx ws) - of_bool c * BASE ^ idx + (uint md - uint (ws ! idx)) * BASE ^ idx"
    unfolding d by (simp add: algebra_simps)
  have m2: "(\<Sum>i \<in> {idx..<Suc hi}. (uint (minuend_digit ms low i) - uint (ws ! i)) * BASE ^ i) =
      (uint md - uint (ws ! idx)) * BASE ^ idx +
      (\<Sum>i \<in> {Suc idx..<Suc hi}. (uint (minuend_digit ms low i) - uint (ws1 ! i)) * BASE ^ i)"
  proof -
    have "(\<Sum>i \<in> {Suc idx..<Suc hi}. (uint (minuend_digit ms low i) - uint (ws1 ! i)) * BASE ^ i) =
        (\<Sum>i \<in> {Suc idx..<Suc hi}. (uint (minuend_digit ms low i) - uint (ws ! i)) * BASE ^ i)"
      by (rule sum.cong) (auto simp: ws1_def)
    then show ?thesis
      using sum.atLeast_Suc_lessThan [of idx "Suc hi"
          "\<lambda>i. (uint (minuend_digit ms low i) - uint (ws ! i)) * BASE ^ i"] idx
      by (simp only: md_def less_Suc_eq_le)
  qed
  have same: "\<forall>i < 33. hi < i \<longrightarrow> ws1 ! i = ws ! i" using idx by (simp add: ws1_def)
  obtain c' h' ws' where r: "underflow_loop ms low hi (Suc idx) c1 h1 ws1 = Inr (c', h', ws')" "length ws' = 33"
      "\<forall>i < Suc hi. h' < i \<longrightarrow> ws' ! i = 0" "h' = 0 \<or> h' < Suc hi \<and> ws' ! h' \<noteq> 0"
      "\<forall>i < 33. hi < i \<longrightarrow> ws' ! i = ws1 ! i"
    and m3: "mag (take (Suc hi) ws') - of_bool c' * BASE ^ Suc hi =
        mag (take (Suc idx) ws1) - of_bool c1 * BASE ^ Suc idx +
        (\<Sum>i \<in> {Suc idx..<Suc hi}. (uint (minuend_digit ms low i) - uint (ws1 ! i)) * BASE ^ i)"
    using IH by blast
  have "mag (take (Suc hi) ws') - of_bool c' * BASE ^ Suc hi =
      mag (take idx ws) - of_bool c * BASE ^ idx +
      (\<Sum>i \<in> {idx..<Suc hi}. (uint (minuend_digit ms low i) - uint (ws ! i)) * BASE ^ i)"
    unfolding m3 m1 m2 by (simp only: add.assoc)
  moreover have "\<forall>i < 33. hi < i \<longrightarrow> ws' ! i = ws ! i" using r(5) same by simp
  ultimately show ?case using r(1-4) unfolding step by blast
qed

lemma mag_take_sum: "n \<le> length ws \<Longrightarrow> mag (take n ws) = (\<Sum>i \<in> {0..<n}. uint (ws ! i) * BASE ^ i)"
proof (induction n)
  case (Suc n)
  then show ?case using mag_take_Suc [of n ws] by simp
qed simp

lemma minuend_sum:
  assumes "addend_ok a" and "hi = low_word_idx a + of_bool (addend_words a ! 1 \<noteq> 0)"
  shows "(\<Sum>i \<in> {0..<Suc hi}. uint (minuend_digit (addend_words a) (low_word_idx a) i) * BASE ^ i) = addend_value a"
proof -
  define low where "low = low_word_idx a"
  obtain l h where w: "addend_words a = [l, h]"
    "addend_value a = uint l * BASE ^ low + uint h * BASE ^ Suc low"
    using assms(1) unfolding low_def by (rule addend_okE)
  have "(\<Sum>i \<in> {0..<low}. uint (minuend_digit [l, h] low i) * BASE ^ i) = 0"
    by (intro sum.neutral) (simp add: minuend_digit_def nth_append)
  moreover have "minuend_digit [l, h] low low = l" "minuend_digit [l, h] low (Suc low) = h"
    by (simp_all add: minuend_digit_def nth_append)
  ultimately show ?thesis using w assms(2) by (cases "h = 0") (simp_all flip: low_def)
qed

lemma underflow_magnitude:
  assumes ok: "acc_ok acc" and a: "addend_ok a" and less: "mag (acc_words acc) < addend_value a"
  shows "\<exists>acc'. accumulator_subtract_with_underflow acc a = Inr acc' \<and> acc_ok acc' \<and>
           mag (acc_words acc') = addend_value a - mag (acc_words acc) \<and> acc_negative acc' = (\<not> acc_negative acc)"
proof -
  define low where "low = low_word_idx a"
  define ws where "ws = acc_words acc"
  define hi where "hi = low + of_bool (addend_words a ! 1 \<noteq> 0)"
  obtain l h where w: "addend_words a = [l, h]" "low + 1 < 33" "l \<noteq> 0 \<or> h \<noteq> 0"
    using a unfolding low_def by (rule addend_okE)
  have len: "length ws = 33" using ok by (simp add: ws_def acc_ok_def)
  have "addend_value a < BASE ^ Suc hi"
  proof (cases "h = 0")
    case True
    then have "addend_value a = uint l * BASE ^ low" by (simp add: addend_value_def w low_def)
    also have "\<dots> < BASE * BASE ^ low" using uint_u64_bounds(2) [of l] by (intro mult_strict_right_mono) auto
    finally show ?thesis using True by (simp add: hi_def w)
  qed (use addend_bounds(2) [OF a] w in \<open>simp add: hi_def flip: low_def\<close>)
  have "highest_word_idx acc \<le> hi"
  proof (rule ccontr)
    assume n: "\<not> highest_word_idx acc \<le> hi"
    then have "BASE ^ Suc hi \<le> BASE ^ highest_word_idx acc" by (intro power_increasing) auto
    with n acc_ok_bounds(2) [OF ok] less \<open>addend_value a < BASE ^ Suc hi\<close> show False by simp
  qed
  then have above: "\<forall>i < 33. hi < i \<longrightarrow> ws ! i = 0" using ok by (simp add: acc_ok_def highest_word_def ws_def)
  have hi: "hi < 33" "hi < low + length [l, h]" using w by (auto simp: hi_def)
  obtain c' h' ws' where loop: "underflow_loop [l, h] low hi 0 False 0 ws = Inr (c', h', ws')" "length ws' = 33"
      "mag (take (Suc hi) ws') - of_bool c' * BASE ^ Suc hi =
         (\<Sum>i \<in> {0..<Suc hi}. (uint (minuend_digit [l, h] low i) - uint (ws ! i)) * BASE ^ i)"
      "\<forall>i < Suc hi. h' < i \<longrightarrow> ws' ! i = 0" "h' = 0 \<or> h' < Suc hi \<and> ws' ! h' \<noteq> 0"
      "\<forall>i < 33. hi < i \<longrightarrow> ws' ! i = ws ! i"
    using underflow_loop_result [OF len hi, of 0 0 False] by auto
  have "mag (take (Suc hi) ws') - of_bool c' * BASE ^ Suc hi = addend_value a - mag (take (Suc hi) ws)"
    unfolding loop(3) using minuend_sum [OF a, of hi] mag_take_sum [of "Suc hi" ws] len hi w
    by (simp add: left_diff_distrib sum_subtractf hi_def low_def del: sum.op_ivl_Suc)
  moreover have "mag ws = mag (take (Suc hi) ws)" "mag ws' = mag (take (Suc hi) ws')"
    using mag_below(1) [of hi ws] mag_below(1) [of hi ws'] above loop(2,6) len hi by simp_all
  ultimately have diff: "mag ws' - of_bool c' * BASE ^ Suc hi = addend_value a - mag ws" by simp
  have "mag ws' < BASE ^ Suc hi" using mag_below(2) [of hi ws'] above loop(2,6) hi by simp
  with diff less have c': "\<not> c'" by (cases c') (simp_all add: ws_def)
  have "highest_word ws' h'"
    using loop(4,5,6) above hi(1) by (auto simp: highest_word_def not_less_eq)
  moreover have "accumulator_subtract_with_underflow acc a =
      Inr (acc\<lparr>acc_words := ws', highest_word_idx := h', acc_negative := \<not> acc_negative acc\<rparr>)"
    using lt_exact [OF ok a] less w loop(1) c' \<open>highest_word_idx acc \<le> hi\<close>
    by (simp add: accumulator_subtract_with_underflow_def or_eq_0_iff flip: low_def ws_def)
      (cases "h = 0"; simp add: hi_def w)
  ultimately show ?thesis using diff c' loop(2) by (simp add: acc_ok_def ws_def)
qed

section \<open>Decoding of binary64 numbers\<close>

definition f64_exponent :: "u64 \<Rightarrow> nat" where
  "f64_exponent v = unat (take_bit 11 (drop_bit 52 v))"

definition f64_finite :: "u64 \<Rightarrow> bool" where
  "f64_finite v \<longleftrightarrow> f64_exponent v \<noteq> 2047"

text \<open>The number that a finite representation stands for, in units of \<open>2 powi (- 1074)\<close>.\<close>

definition f64_magnitude :: "u64 \<Rightarrow> int" where
  "f64_magnitude v =
     (if f64_exponent v = 0 then uint (take_bit 52 v)
      else (uint (take_bit 52 v) + 2 ^ 52) * 2 ^ (f64_exponent v - 1))"

definition f64_units :: "u64 \<Rightarrow> int" where
  "f64_units v = (if bit v 63 then - f64_magnitude v else f64_magnitude v)"

lemma uint_fraction_less: "uint (take_bit 52 v) < 2 ^ 52" for v :: u64
  using take_bit_int_less_exp [of 52 "uint v"] by (simp add: unsigned_take_bit_eq)

lemma uint_drop_bit_div: "uint (drop_bit n s) = uint s div 2 ^ n" for s :: u64
  using uint_u64_bounds [of s]
  by (simp add: unsigned_drop_bit_eq drop_bit_eq_div [where 'a = int] take_bit_eq_mod [where 'a = int] BASE_def)

lemma uint_shift_split:
  fixes s :: u64
  assumes "b < 64"
  shows "uint (push_bit b s) + BASE * uint (drop_bit (64 - b) s) = uint s * 2 ^ b"
proof -
  have "uint (push_bit b s) = uint s * 2 ^ b mod BASE"
    by (simp add: unsigned_push_bit_eq push_bit_eq_mult [where 'a = int] take_bit_eq_mod [where 'a = int] BASE_def)
  moreover have "uint (drop_bit (64 - b) s) = uint s div 2 ^ (64 - b)"
    by (rule uint_drop_bit_div)
  moreover have "uint s * 2 ^ b div BASE = uint s div 2 ^ (64 - b)"
  proof -
    have B: "BASE = 2 ^ (64 - b) * 2 ^ b" using assms by (simp add: BASE_def flip: power_add)
    show ?thesis unfolding B by (rule div_mult_mult2) simp
  qed
  ultimately show ?thesis by (metis add.commute mult_div_mod_eq)
qed

lemma compute_addend:
  assumes s: "uint s < 2 ^ 53" "s \<noteq> 0" and e: "e < 2046"
  shows "\<exists>a. compute_unsigned_addend s e = Inr a \<and> addend_ok a \<and> addend_value a = uint s * 2 ^ e"
proof -
  define b where "b = e mod 64"
  define low where "low = e div 64"
  have b: "b < 64" and low: "low < 32" and eb: "e = 64 * low + b" using e by (auto simp: b_def low_def)
  have masked: "s AND mask 53 = s"
    using s(1) by (simp add: word_uint_eq_iff unsigned_take_bit_eq take_bit_eq_mod [where 'a = int]
        flip: take_bit_eq_mask)
  define a where "a = \<lparr>addend_words = [push_bit b s, if b \<noteq> 0 then drop_bit (64 - b) s else 0], low_word_idx = low\<rparr>"
  have hi: "(if b \<noteq> 0 then drop_bit (64 - b) s else 0) = drop_bit (64 - b) s"
    by simp
  have "compute_unsigned_addend s e = Inr a"
    using e low by (simp add: compute_unsigned_addend_def masked a_def flip: b_def low_def)
  moreover have m: "mag (addend_words a) = uint s * 2 ^ b"
    using uint_shift_split [OF b, of s] by (simp only: a_def hi unsigned_addend.simps mag_simps mult_zero_right add_0_right)
  moreover have "uint (drop_bit (64 - b) s) \<le> uint s"
    by (simp add: uint_drop_bit_div zdiv_mono2 [of "uint s" 1 "2 ^ (64 - b)", simplified])
  moreover have "uint s \<noteq> 0" using s(2) by (simp add: uint_0_iff)
  ultimately have "addend_ok a" using s(1) low by (simp add: addend_ok_def a_def BASE_def)
  moreover have "addend_value a = uint s * 2 ^ e"
    unfolding addend_value_def m by (simp add: a_def BASE_def eb power_add power_mult)
  ultimately show ?thesis using \<open>compute_unsigned_addend s e = Inr a\<close> by blast
qed

lemma decoded_exact:
  assumes ok: "acc_ok acc" and s: "uint s < 2 ^ 53" and e: "e < 2046"
    and v: "v = (if neg then - (uint s * 2 ^ e) else uint s * 2 ^ e)"
  shows "if \<bar>acc_value acc + v\<bar> < BASE ^ 33
         then \<exists>acc'. accumulate_decoded_f64 acc s e neg = Inr acc' \<and> acc_ok acc' \<and>
                acc_value acc' = acc_value acc + v
         else accumulate_decoded_f64 acc s e neg = Inl ExitError"
proof (cases "s = 0")
  case True
  have "\<bar>acc_value acc\<bar> < BASE ^ 33" using acc_ok_bounds(3) [OF ok] by (simp add: acc_value_def)
  then show ?thesis using True ok e v by (simp add: accumulate_decoded_f64_def)
next
  case False
  obtain a where a: "compute_unsigned_addend s e = Inr a" "addend_ok a" "addend_value a = uint s * 2 ^ e"
    using compute_addend [OF s False e] by blast
  have masked: "s AND mask 53 = s"
    using s by (simp add: word_uint_eq_iff unsigned_take_bit_eq take_bit_eq_mod [where 'a = int]
        flip: take_bit_eq_mask)
  define m where "m = mag (acc_words acc)"
  have m: "0 \<le> m" "m < BASE ^ 33" using acc_ok_bounds(3) [OF ok] by (simp_all add: m_def)
  have A: "0 \<le> addend_value a" "addend_value a < BASE ^ 33"
  proof -
    show "0 \<le> addend_value a" by (simp add: a(3))
    have "BASE ^ (low_word_idx a + 2) \<le> BASE ^ 33"
      using a(2) by (intro power_increasing) (auto simp: addend_ok_def)
    with addend_bounds(2) [OF a(2)] show "addend_value a < BASE ^ 33" by linarith
  qed
  have v: "v = (if neg then - addend_value a else addend_value a)" using v by (simp add: a(3))
  note start = accumulate_decoded_f64_def masked a(1) e False
  have val: "acc_value acc' = (if acc_negative acc' then - mag (acc_words acc') else mag (acc_words acc'))" for acc'
    by (rule acc_value_def)
  consider "neg = acc_negative acc" | "neg \<noteq> acc_negative acc" "m < addend_value a"
    | "neg \<noteq> acc_negative acc" "addend_value a \<le> m" by linarith
  then show ?thesis
  proof cases
    case 1
    have abs: "\<bar>acc_value acc + v\<bar> = m + addend_value a"
      using 1 m A by (simp add: val v flip: m_def)
    show ?thesis
      unfolding abs using 1 add_magnitude [OF ok a(2)]
      by (auto simp: start val v m_def split: if_splits)
  next
    case 2
    obtain acc' where "accumulator_subtract_with_underflow acc a = Inr acc'" "acc_ok acc'"
      "mag (acc_words acc') = addend_value a - m" "acc_negative acc' = (\<not> acc_negative acc)"
      using underflow_magnitude [OF ok a(2)] 2 by (auto simp: m_def)
    moreover have "\<bar>acc_value acc + v\<bar> < BASE ^ 33"
      using 2 m A by (simp add: val v abs_if flip: m_def)
    ultimately show ?thesis
      using 2 lt_exact [OF ok a(2)] by (simp add: start val v flip: m_def)
  next
    case 3
    obtain acc' where "accumulate_without_underflow sub_inplace_return_carry update_highest_idx_after_sub acc a = Inr acc'"
      "acc_ok acc'" "mag (acc_words acc') = m - addend_value a" "acc_negative acc' = acc_negative acc"
      using sub_magnitude [OF ok a(2)] 3 by (auto simp: m_def)
    moreover have "\<bar>acc_value acc + v\<bar> < BASE ^ 33"
      using 3 m A by (simp add: val v abs_if flip: m_def)
    ultimately show ?thesis
      using 3 lt_exact [OF ok a(2)] by (simp add: start val v flip: m_def)
  qed
qed

lemma raw_exponent_eq: "v AND push_bit 52 (mask 11) = push_bit 52 (take_bit 11 (drop_bit 52 v))" for v :: u64
  by (rule bit_word_eqI) (auto simp: bit_simps)

lemma f64_exponent_less: "f64_exponent v < 2 ^ 11"
  using take_bit_nat_less_exp [of 11 "unat (drop_bit 52 v)"] by (simp add: f64_exponent_def unsigned_take_bit_eq)

lemma raw_exponent_cases:
  fixes v :: u64
  shows "v AND push_bit 52 (mask 11) = 0 \<longleftrightarrow> f64_exponent v = 0"
    and "v AND push_bit 52 (mask 11) = push_bit 52 (mask 11) \<longleftrightarrow> \<not> f64_finite v"
    and "drop_bit 52 (v AND push_bit 52 (mask 11)) = of_nat (f64_exponent v)"
proof -
  have d: "drop_bit 52 (push_bit 52 (take_bit 11 w)) = take_bit 11 w" for w :: u64
    by (rule bit_word_eqI) (auto simp: bit_simps)
  have e: "take_bit 11 (drop_bit 52 v) = of_nat (f64_exponent v)" by (simp add: f64_exponent_def)
  show "drop_bit 52 (v AND push_bit 52 (mask 11)) = of_nat (f64_exponent v)"
    unfolding raw_exponent_eq d by (rule e)
  have inj: "push_bit 52 (take_bit 11 x) = push_bit 52 (take_bit 11 y) \<longleftrightarrow> take_bit 11 x = take_bit 11 y" for x y :: u64
    using d by metis
  have m: "push_bit 52 (mask 11) = push_bit 52 (take_bit 11 (mask 11 :: u64))" by simp
  show "v AND push_bit 52 (mask 11) = 0 \<longleftrightarrow> f64_exponent v = 0"
    using inj [of "drop_bit 52 v" 0] unfolding raw_exponent_eq by (simp add: f64_exponent_def unat_eq_zero)
  have "v AND push_bit 52 (mask 11) = push_bit 52 (mask 11) \<longleftrightarrow> take_bit 11 (drop_bit 52 v) = (mask 11 :: u64)"
    unfolding raw_exponent_eq using inj [of "drop_bit 52 v" "mask 11"] by simp
  also have "\<dots> \<longleftrightarrow> f64_exponent v = unat (mask 11 :: u64)"
    by (simp add: f64_exponent_def word_unat_eq_iff)
  finally show "v AND push_bit 52 (mask 11) = push_bit 52 (mask 11) \<longleftrightarrow> \<not> f64_finite v"
    by (simp add: f64_finite_def mask_numeral)
qed

lemma fraction_or_leading:
  "uint (take_bit 52 v OR push_bit 52 1) = uint (take_bit 52 v) + 2 ^ 52" for v :: u64
proof -
  have disjoint: "take_bit n v OR push_bit n 1 = take_bit n v + push_bit n 1" for n
    by (rule disjunctive_add [symmetric]) (auto simp: bit_simps)
  have "take_bit 52 v OR push_bit 52 1 = take_bit 52 v + push_bit 52 1" by (rule disjoint)
  moreover have "uint (take_bit 52 v) < 2 ^ 52" by (rule uint_fraction_less)
  ultimately show ?thesis by (simp add: uint_add_lem [THEN iffD1])
qed

lemma add_f64_exact:
  assumes "acc_ok acc" and fin: "f64_finite v"
  shows "if \<bar>acc_value acc + f64_units v\<bar> < BASE ^ 33
         then \<exists>acc'. accumulator_add_f64 acc v = Inr acc' \<and> acc_ok acc' \<and>
                acc_value acc' = acc_value acc + f64_units v
         else accumulator_add_f64 acc v = Inl ExitError"
proof -
  have "v AND push_bit n 1 \<noteq> 0 \<longleftrightarrow> bit v n" for n by (simp add: push_bit_of_1 and_exp_eq_0_iff_not_bit)
  then have sign: "v AND push_bit 63 1 \<noteq> 0 \<longleftrightarrow> bit v 63" by blast
  have frac: "v AND mask 52 = take_bit 52 v" by (simp add: take_bit_eq_mask)
  have small: "uint (take_bit 52 v) < 2 ^ 52" by (rule uint_fraction_less)
  show ?thesis
  proof (cases "f64_exponent v = 0")
    case True
    then have eq: "accumulator_add_f64 acc v = accumulate_decoded_f64 acc (take_bit 52 v) 0 (bit v 63)"
      using raw_exponent_cases(1) [of v] sign by (simp add: accumulator_add_f64_def frac)
    show ?thesis
      unfolding eq by (rule decoded_exact [OF assms(1)])
        (use small True in \<open>simp_all add: f64_units_def f64_magnitude_def\<close>)
  next
    case False
    have "unat (of_nat (f64_exponent v) - 1 :: u64) = f64_exponent v - 1"
      using False f64_exponent_less [of v] by (simp add: unat_sub_if' unat_of_nat word_le_nat_alt)
    then have eq: "accumulator_add_f64 acc v =
        accumulate_decoded_f64 acc (take_bit 52 v OR push_bit 52 1) (f64_exponent v - 1) (bit v 63)"
      using raw_exponent_cases [of v] sign False fin by (simp add: accumulator_add_f64_def frac)
    have s: "uint (take_bit 52 v OR push_bit 52 1) < 2 ^ 53"
      unfolding fraction_or_leading using small by simp
    have e: "f64_exponent v - 1 < 2046"
      using False fin f64_exponent_less [of v] by (simp add: f64_finite_def)
    show ?thesis
      unfolding eq by (rule decoded_exact [OF assms(1) s e])
        (simp add: False f64_units_def f64_magnitude_def fraction_or_leading del: push_bit_of_1)
  qed
qed

lemma add_f64_nonfinite: "\<not> f64_finite v \<Longrightarrow> accumulator_add_f64 acc v = Inl ExitError"
  using raw_exponent_cases [of v] by (simp add: accumulator_add_f64_def f64_finite_def)

section \<open>Rounding\<close>

text \<open>A magnitude of at most 53 significant bits is a number of the format.\<close>

definition representable :: "nat \<Rightarrow> bool" where
  "representable m \<longleftrightarrow> (\<exists>s k. m = s * 2 ^ k \<and> s < 2 ^ 53)"

lemma bit_length_le: "n < 2 ^ k \<Longrightarrow> bit_length n \<le> k"
proof (induction k arbitrary: n)
  case (Suc k)
  then have "n div 2 < 2 ^ k" by (simp add: less_mult_imp_div_less mult.commute)
  then show ?case using Suc.IH [of "n div 2"] by (subst bit_length.simps) simp
qed (simp add: bit_length.simps)

lemma nearest_even_multiple: "2 ^ k dvd m \<Longrightarrow> nearest_even k m = m"
  by (auto simp: nearest_even_def Let_def)

lemma round_significand_id:
  assumes "representable m"
  shows "round_significand m = m"
proof -
  obtain s k where m: "m = s * 2 ^ k" "s < 2 ^ 53" using assms by (auto simp: representable_def)
  have "m < 2 ^ (53 + k)" using m by (simp add: power_add)
  then have "bit_length m - 53 \<le> k" using bit_length_le [of m "53 + k"] by linarith
  then have "(2 :: nat) ^ (bit_length m - 53) dvd m" using m by (simp add: le_imp_power_dvd)
  then show ?thesis by (simp add: round_significand_def nearest_even_multiple)
qed

lemma representableI:
  assumes "2 ^ k dvd m" and "m < 2 ^ (53 + k)"
  shows "representable m"
proof -
  obtain s where s: "m = 2 ^ k * s" using assms(1) by (rule dvdE)
  with assms(2) have "s < 2 ^ 53" by (simp add: power_add)
  with s show ?thesis by (auto simp: representable_def mult.commute)
qed

lemma round_f64_id:
  assumes "representable (nat \<bar>x\<bar>)" and "nat \<bar>x\<bar> < 2 ^ 2098"
  shows "round_f64 x = Finite x"
proof -
  have "\<not> 2 ^ 2098 \<le> nat \<bar>x\<bar>" using assms(2) by (simp only: not_le simp_thms)
  then show ?thesis
    unfolding round_f64_def numeric_consts Let_def round_significand_id [OF assms(1)] by (simp only: if_False) simp
qed

text \<open>The words of a representable magnitude, and what the words below any index add up to, are
  representable as well.\<close>

lemma parts_of_representable:
  fixes m p w :: nat
  assumes "m = s * 2 ^ k" and "s < 2 ^ 53" and "m = p + (w + 2 ^ 64 * r) * 2 ^ (64 * i)"
    and "p < 2 ^ (64 * i)" and "w < 2 ^ 64"
  shows "representable p" and "representable w" and "representable (p + w * 2 ^ (64 * i))"
    and "p + w * 2 ^ (64 * i) \<le> m"
proof -
  have bound: "m < 2 ^ (53 + k)" using assms(1,2) by (simp add: power_add)
  have mod: "2 ^ k dvd m mod 2 ^ j" if "k \<le> j" for j
    using that assms(1) by (simp add: dvd_mod le_imp_power_dvd)
  have low: "representable (m mod 2 ^ j)" for j
  proof (cases "k \<le> j")
    case True
    have "m mod 2 ^ j \<le> m" by simp
    with bound have "m mod 2 ^ j < 2 ^ (53 + k)" by linarith
    with mod [OF True] show ?thesis by (rule representableI)
  next
    case False
    then have "m mod 2 ^ j = 0" using assms(1) by (simp add: le_imp_power_dvd)
    then show ?thesis by (auto simp: representable_def)
  qed
  have p: "m mod 2 ^ (64 * i) = p" using assms(3,4) by simp
  have split: "m = (p + w * 2 ^ (64 * i)) + r * 2 ^ (64 * i + 64)" using assms(3) by (simp add: power_add algebra_simps)
  have "(w + 1) * 2 ^ (64 * i) \<le> 2 ^ 64 * 2 ^ (64 * i)" using assms(5) by (intro mult_right_mono) auto
  moreover have "(w + 1) * 2 ^ (64 * i) = w * 2 ^ (64 * i) + 2 ^ (64 * i)" by (simp only: distrib_right mult_1)
  moreover have "(2 :: nat) ^ (64 * i + 64) = 2 ^ 64 * 2 ^ (64 * i)" by (simp only: power_add mult.commute)
  ultimately have "p + w * 2 ^ (64 * i) < 2 ^ (64 * i + 64)" using assms(4) by linarith
  then have pw: "m mod 2 ^ (64 * i + 64) = p + w * 2 ^ (64 * i)" using split by simp
  show "representable p" using low [of "64 * i"] p by simp
  show "representable (p + w * 2 ^ (64 * i))" using low [of "64 * i + 64"] pw by simp
  show le: "p + w * 2 ^ (64 * i) \<le> m" using split by simp
  show "representable w"
  proof (cases "k \<le> 64 * i")
    case True
    have "w * 2 ^ (64 * i) < 2 ^ (53 + k)" using le bound by linarith
    also have "\<dots> \<le> 2 ^ 53 * 2 ^ (64 * i)" using True by (simp add: power_add power_increasing)
    finally have "w < 2 ^ 53" by simp
    then show ?thesis using representableI [of 0 w] by simp
  next
    case False
    then have "p = 0" using p assms(1) by (simp add: le_imp_power_dvd)
    define j where "j = min k (64 * i + 64) - 64 * i"
    have j: "min k (64 * i + 64) = j + 64 * i" using False by (simp add: j_def)
    have "2 ^ (j + 64 * i) dvd m mod 2 ^ (64 * i + 64)"
      unfolding j [symmetric] using assms(1) by (intro dvd_mod) (auto simp: le_imp_power_dvd)
    then have "2 ^ j dvd w" using pw \<open>p = 0\<close> by (simp add: power_add)
    moreover have "w < 2 ^ (53 + j)"
    proof (cases "k \<le> 64 * i + 64")
      case True
      then have "w * 2 ^ (64 * i) < 2 ^ (53 + j) * 2 ^ (64 * i)"
        using le bound False by (simp add: j_def flip: power_add)
      then show ?thesis by simp
    next
      case F: False
      have "(2 :: nat) ^ 64 \<le> 2 ^ (53 + j)" using F by (intro power_increasing) (auto simp: j_def)
      then show ?thesis using assms(5) by linarith
    qed
    ultimately show ?thesis by (rule representableI)
  qed
qed

lemma BASE_power: "BASE ^ i = 2 ^ (64 * i)"
  by (simp add: BASE_def power_mult)

lemma words_of_representable:
  assumes rep: "representable (nat (mag ws))" and i: "i < length ws"
  shows "representable (unat (ws ! i))" and "representable (nat (mag (take (Suc i) ws)))"
    and "mag (take (Suc i) ws) \<le> mag ws" and "uint (ws ! i) * 2 ^ (64 * i) \<le> mag ws"
proof -
  define p where "p = nat (mag (take i ws))"
  define r where "r = nat (mag (drop (Suc i) ws))"
  define w where "w = unat (ws ! i)"
  have p: "int p = mag (take i ws)" and r: "int r = mag (drop (Suc i) ws)" and w: "int w = uint (ws ! i)"
    by (simp_all add: p_def r_def w_def)
  obtain s k where sk: "nat (mag ws) = s * 2 ^ k" "s < 2 ^ 53" using rep by (auto simp: representable_def)
  have "mag ws = mag (take i ws) + BASE ^ i * mag (ws ! i # drop (Suc i) ws)"
    using mag_split [of i ws] i by (simp only: Cons_nth_drop_Suc less_imp_le)
  also have "\<dots> = int (p + (w + 2 ^ 64 * r) * 2 ^ (64 * i))"
    by (simp add: p r w BASE_power mult.commute) (simp add: BASE_def)
  finally have m: "mag ws = int (p + (w + 2 ^ 64 * r) * 2 ^ (64 * i))" .
  have "int p < int (2 ^ (64 * i))" using mag_take_less [of i ws] i by (simp add: p BASE_power)
  then have p_less: "p < 2 ^ (64 * i)" by (simp only: of_nat_less_iff)
  have w_less: "w < 2 ^ 64" unfolding w_def by (rule unat_u64_less)
  have take: "mag (take (Suc i) ws) = int (p + w * 2 ^ (64 * i))"
    using mag_take_Suc [OF i] by (simp add: p w BASE_power)
  have "nat (mag ws) = p + (w + 2 ^ 64 * r) * 2 ^ (64 * i)" unfolding m by (rule nat_int)
  note parts = parts_of_representable [OF sk this p_less w_less]
  show "representable (unat (ws ! i))" using parts(2) by (simp only: w_def)
  show "representable (nat (mag (take (Suc i) ws)))" using parts(3) unfolding take nat_int .
  have "int (p + w * 2 ^ (64 * i)) \<le> int (nat (mag ws))" using parts(4) by (simp only: of_nat_le_iff)
  then show le: "mag (take (Suc i) ws) \<le> mag ws" by (simp add: take)
  have "uint (ws ! i) * 2 ^ (64 * i) \<le> mag (take (Suc i) ws)"
    using mag_take_Suc [OF i] by (simp add: BASE_power)
  with le show "uint (ws ! i) * 2 ^ (64 * i) \<le> mag ws" by linarith
qed

lemma scalbn_exact:
  assumes "representable (unat w)" and "uint w * 2 ^ (64 * i) < 2 ^ 2098"
  shows "scalbn_u64 w (int (64 * i) - 1074) = Finite (uint w * 2 ^ (64 * i))"
proof -
  obtain s k where "unat w = s * 2 ^ k" "s < 2 ^ 53" using assms(1) by (auto simp: representable_def)
  then have "unat w * 2 ^ (64 * i) = s * 2 ^ (k + 64 * i)" "s < 2 ^ 53" by (simp_all add: power_add)
  then have "representable (unat w * 2 ^ (64 * i))" unfolding representable_def by blast
  moreover have "nat \<bar>uint w * 2 ^ (64 * i)\<bar> = unat w * 2 ^ (64 * i)"
    by (simp add: nat_mult_distrib nat_power_eq)
  moreover have "nat \<bar>uint w * 2 ^ (64 * i)\<bar> < 2 ^ 2098"
    using assms(2) by (simp add: nat_less_iff)
  ultimately have "round_f64 (uint w * 2 ^ (64 * i)) = Finite (uint w * 2 ^ (64 * i))"
    by (intro round_f64_id) simp_all
  moreover have "nat (64 * int i) = 64 * i" by (simp add: nat_mult_distrib)
  ultimately show ?thesis by (simp add: scalbn_u64_def round_significand_id [OF assms(1)])
qed

lemma to_f64_loop_exact:
  assumes len: "length (acc_words acc) = 33" and h: "highest_word_idx acc < 33"
    and rep: "representable (nat (mag (acc_words acc)))" and bound: "mag (acc_words acc) < 2 ^ 2098"
    and i: "i \<le> Suc (highest_word_idx acc)"
    and sg: "sg = (if acc_negative acc then - 1 else (1 :: int))"
  shows "to_f64_loop acc i (int (64 * i) - 1074) (Finite (sg * mag (take i (acc_words acc)))) =
           Inr (Finite (sg * mag (take (Suc (highest_word_idx acc)) (acc_words acc))))"
  using i
proof (induction "Suc (highest_word_idx acc) - i" arbitrary: i)
  case 0
  then have "i = Suc (highest_word_idx acc)" by simp
  then show ?case by (simp add: to_f64_loop.simps)
next
  case (Suc n)
  define ws where "ws = acc_words acc"
  have i: "i \<le> highest_word_idx acc" "i < length ws" using Suc.hyps(2) len h by (auto simp: ws_def)
  note parts = words_of_representable [OF rep [folded ws_def] i(2)]
  have step: "mag (take (Suc i) ws) = mag (take i ws) + uint (ws ! i) * 2 ^ (64 * i)"
    using mag_take_Suc [OF i(2)] by (simp add: BASE_power)
  have scal: "scalbn_u64 (ws ! i) (int (64 * i) - 1074) = Finite (uint (ws ! i) * 2 ^ (64 * i))"
    using parts(1,4) bound by (intro scalbn_exact) (auto simp: ws_def)
  have "round_f64 (sg * mag (take (Suc i) ws)) = Finite (sg * mag (take (Suc i) ws))"
  proof (rule round_f64_id)
    have "\<bar>sg * mag (take (Suc i) ws)\<bar> = mag (take (Suc i) ws)" using sg by auto
    then show "representable (nat \<bar>sg * mag (take (Suc i) ws)\<bar>)" "nat \<bar>sg * mag (take (Suc i) ws)\<bar> < 2 ^ 2098"
      using parts(2,3) bound by (simp_all add: nat_less_iff ws_def)
  qed
  then have add: "f64_add (Finite (sg * mag (take i ws)))
      (if acc_negative acc then f64_negate (Finite (uint (ws ! i) * 2 ^ (64 * i)))
       else Finite (uint (ws ! i) * 2 ^ (64 * i))) = Finite (sg * mag (take (Suc i) ws))"
    unfolding step by (cases "acc_negative acc") (simp_all add: sg)
  have nxt: "int (64 * i) - 1074 + int 64 = int (64 * Suc i) - 1074" by simp
  have "to_f64_loop acc i (int (64 * i) - 1074) (Finite (sg * mag (take i ws))) =
      to_f64_loop acc (Suc i) (int (64 * Suc i) - 1074) (Finite (sg * mag (take (Suc i) ws)))"
    using i by (subst to_f64_loop.simps) (simp only: scal add nxt numeric_consts Let_def if_True array_read_in bindR_simps
        Suc_eq_plus1 [symmetric] flip: ws_def)
  then show ?case using Suc by (simp only: ws_def)
qed

lemma to_f64_exact:
  assumes ok: "acc_ok acc" and rep: "representable (nat \<bar>acc_value acc\<bar>)" and "\<bar>acc_value acc\<bar> < 2 ^ 2098"
  shows "accumulator_to_f64 acc = Inr (Finite (acc_value acc))"
proof -
  have abs: "\<bar>acc_value acc\<bar> = mag (acc_words acc)" by (simp add: acc_value_def)
  have "mag (acc_words acc) = mag (take (Suc (highest_word_idx acc)) (acc_words acc))"
    using mag_below(1) [of "highest_word_idx acc" "acc_words acc"] ok by (simp add: acc_ok_def highest_word_def)
  moreover have "to_f64_loop acc 0 (int (64 * 0) - 1074)
      (Finite ((if acc_negative acc then - 1 else 1) * mag (take 0 (acc_words acc)))) =
      Inr (Finite ((if acc_negative acc then - 1 else 1) * mag (take (Suc (highest_word_idx acc)) (acc_words acc))))"
    by (rule to_f64_loop_exact) (use assms in \<open>simp_all add: abs acc_ok_def highest_word_def\<close>)
  ultimately show ?thesis by (simp add: accumulator_to_f64_def acc_value_def)
qed

lemma zero_accumulator: "acc_ok ACCUMULATOR_ZERO" "acc_value ACCUMULATOR_ZERO = 0"
proof -
  show "acc_ok ACCUMULATOR_ZERO" by (simp add: acc_ok_def highest_word_def ACCUMULATOR_ZERO_def)
  have "mag (replicate n 0) = 0" for n by (rule mag_zero) simp
  then show "acc_value ACCUMULATOR_ZERO = 0" by (simp add: acc_value_def ACCUMULATOR_ZERO_def)
qed

lemma sum_loop_exact:
  assumes "acc_ok acc" and "\<forall>v \<in> set vs. f64_finite v"
    and "\<forall>n \<le> length vs. \<bar>acc_value acc + sum_list (map f64_units (take n vs))\<bar> < BASE ^ 33"
  shows "\<exists>acc'. sum_loop acc vs = Inr acc' \<and> acc_ok acc' \<and> acc_value acc' = acc_value acc + sum_list (map f64_units vs)"
  using assms
proof (induction vs arbitrary: acc)
  case (Cons v vs)
  have "\<bar>acc_value acc + f64_units v\<bar> < BASE ^ 33" using Cons.prems(3) [rule_format, of 1] by simp
  then obtain acc1 where acc1: "accumulator_add_f64 acc v = Inr acc1" "acc_ok acc1"
      "acc_value acc1 = acc_value acc + f64_units v"
    using add_f64_exact [OF Cons.prems(1), of v] Cons.prems(2) by auto
  have "\<bar>acc_value acc1 + sum_list (map f64_units (take n vs))\<bar> < BASE ^ 33" if "n \<le> length vs" for n
    using Cons.prems(3) [rule_format, of "Suc n"] that by (simp add: acc1(3) add.assoc)
  then have "\<exists>acc'. sum_loop acc1 vs = Inr acc' \<and> acc_ok acc' \<and>
      acc_value acc' = acc_value acc1 + sum_list (map f64_units vs)"
    using Cons.IH [OF acc1(2)] Cons.prems(2) by simp
  then show ?case using acc1 by (auto simp: add.assoc)
qed simp

lemma sum_f64_result:
  assumes "\<forall>v \<in> set vs. f64_finite v"
    and "\<forall>n \<le> length vs. \<bar>sum_list (map f64_units (take n vs))\<bar> < BASE ^ 33"
    and "representable (nat \<bar>sum_list (map f64_units vs)\<bar>)" and "\<bar>sum_list (map f64_units vs)\<bar> < 2 ^ 2098"
  shows "sum_f64 vs = Inr (Finite (sum_list (map f64_units vs)))"
proof -
  obtain acc where "sum_loop ACCUMULATOR_ZERO vs = Inr acc" "acc_ok acc"
      "acc_value acc = sum_list (map f64_units vs)"
    using sum_loop_exact [OF zero_accumulator(1) assms(1)] assms(2) by (auto simp: zero_accumulator(2))
  then show ?thesis using to_f64_exact [of acc] assms(3,4) by (simp add: sum_f64_def)
qed

lemma f64_magnitude_representable:
  assumes "f64_finite v"
  shows "representable (nat (f64_magnitude v))" and "0 \<le> f64_magnitude v" and "f64_magnitude v < 2 ^ 2098"
proof -
  define f where "f = unat (take_bit 52 v)"
  have "uint (take_bit 52 v) = int f" by (simp add: f_def)
  then have f: "int f < 2 ^ 52" using uint_fraction_less [of v] by linarith
  then have f': "f < 2 ^ 52" by simp
  define s where "s = (if f64_exponent v = 0 then f else f + 2 ^ 52)"
  define k where "k = f64_exponent v - 1"
  have m: "f64_magnitude v = int (s * 2 ^ k)"
    by (simp add: f64_magnitude_def s_def k_def f_def)
  have s: "s < 2 ^ 53" using f' by (simp add: s_def)
  then show "representable (nat (f64_magnitude v))" unfolding m nat_int representable_def by blast
  show "0 \<le> f64_magnitude v" unfolding m by simp
  have "k \<le> 2045" using assms f64_exponent_less [of v] by (simp add: k_def f64_finite_def)
  then have "s * 2 ^ k < 2 ^ 53 * 2 ^ 2045"
    using s by (intro mult_less_le_imp_less power_increasing) auto
  then have "s * 2 ^ k < 2 ^ 2098" by (simp only: flip: power_add) simp
  then have "int (s * 2 ^ k) < int (2 ^ 2098)" by (simp only: of_nat_less_iff)
  then show "f64_magnitude v < 2 ^ 2098" unfolding m by (simp only: of_nat_power of_nat_numeral)
qed

lemma mag_inject: "length xs = length ys \<Longrightarrow> mag xs = mag ys \<Longrightarrow> xs = ys"
proof (induction xs ys rule: list_induct2)
  case (Cons x xs y ys)
  have "mag (w # ws) mod BASE = uint w" for w :: u64 and ws
    using uint_u64_bounds [of w] by (simp only: mag_simps mod_mult_self2 mod_pos_pos_trivial)
  then have xy: "uint x = uint y" using Cons.prems by metis
  with Cons.prems have "mag xs = mag ys" by simp
  with Cons.IH xy show ?case by (simp add: word_uint_eq_iff)
qed simp

lemma highest_word_unique: "highest_word ws h \<Longrightarrow> highest_word ws h' \<Longrightarrow> h = h'"
  by (auto simp: highest_word_def) (metis linorder_neqE_nat)+

lemma acc_ok_unique:
  assumes "acc_ok a" and "acc_ok b" and "acc_value a = acc_value b" and "acc_value a \<noteq> 0"
  shows "a = (b :: accumulator)"
proof -
  have "acc_negative acc \<longleftrightarrow> acc_value acc < 0" if "acc_value acc \<noteq> 0" for acc
    using that mag_nonneg [of "acc_words acc"] by (cases "acc_negative acc") (auto simp: acc_value_def order_less_le dest: antisym [OF _ mag_nonneg])
  then have neg: "acc_negative a = acc_negative b" using assms(3,4) by simp
  with assms(3) have "mag (acc_words a) = mag (acc_words b)" by (auto simp: acc_value_def split: if_splits)
  then have "acc_words a = acc_words b" using assms(1,2) by (intro mag_inject) (simp_all add: acc_ok_def)
  with assms(1,2) neg show ?thesis
    using highest_word_unique by (auto simp: acc_ok_def intro!: accumulator.equality)
qed

lemma to_f64_loop_step:
  assumes "i \<le> highest_word_idx acc" and "i < length (acc_words acc)"
  shows "to_f64_loop acc i e r =
           to_f64_loop acc (i + 1) (e + 64)
             (f64_add r (if acc_negative acc then f64_negate (scalbn_u64 (acc_words acc ! i) e)
                         else scalbn_u64 (acc_words acc ! i) e))"
  using assms by (subst to_f64_loop.simps) (simp add: Let_def)

lemma to_f64_loop_end: "highest_word_idx acc < i \<Longrightarrow> to_f64_loop acc i e r = Inr r"
  by (simp add: to_f64_loop.simps)

lemma scalbn_examples:
  "scalbn_u64 1 (- 1074) = Finite 1" 
  "scalbn_u64 0x8000000000000400 (- 1010) = Finite (2 ^ 127)"
  by (simp_all add: scalbn_u64_def round_f64_def round_significand_def nearest_even_def Let_def bit_length.simps)

lemma round_example: "round_f64 (2 ^ 127 + 1) = Finite (2 ^ 127)"
  "round_f64 1 = Finite 1" 
  "round_f64 (2 ^ 127 + 2 ^ 74 + 1) = Finite (2 ^ 127 + 2 ^ 75)"
  by (simp_all add: round_f64_def round_significand_def nearest_even_def Let_def bit_length.simps)

definition tie_accumulator :: accumulator where
  "tie_accumulator = \<lparr>acc_words = 1 # 0x8000000000000400 # replicate 31 0, highest_word_idx = 1, acc_negative = False\<rparr>"

lemma tie_accumulator: "acc_ok tie_accumulator" "acc_value tie_accumulator = 2 ^ 127 + 2 ^ 74 + 1"
  "accumulator_to_f64 tie_accumulator = Inr (Finite (2 ^ 127))"
proof -
  show "acc_ok tie_accumulator"
    by (auto simp: tie_accumulator_def acc_ok_def highest_word_def nth_Cons split: nat.splits)
  have "mag (replicate 31 0) = 0" by (rule mag_zero) simp
  then show "acc_value tie_accumulator = 2 ^ 127 + 2 ^ 74 + 1"
    by (simp add: tie_accumulator_def acc_value_def BASE_def)
  show "accumulator_to_f64 tie_accumulator = Inr (Finite (2 ^ 127))"
    unfolding accumulator_to_f64_def numeric_consts
    by (subst to_f64_loop_step, simp add: tie_accumulator_def, simp add: tie_accumulator_def,
        subst to_f64_loop_step, simp add: tie_accumulator_def, simp add: tie_accumulator_def,
        subst to_f64_loop_end, simp add: tie_accumulator_def)
      (simp add: tie_accumulator_def scalbn_examples round_example [simplified])
qed

section \<open>Properties\<close>

text \<open>C12. An accumulator is a signed integer of 33 words to which \<open>accumulator_add_f64\<close> adds a number
  exactly: for every well-formed accumulator and every finite number no assertion fails, no word
  outside the accumulator is touched, and the call returns a well-formed accumulator whose value is the
  exact sum, unless the magnitude of the sum does not fit into the words, in which case the process
  exits with an error.  It also exits for infinities and NaNs.\<close>

theorem accumulator_adds_exactly:
  assumes "acc_ok acc"
  shows "if f64_finite v \<and> \<bar>acc_value acc + f64_units v\<bar> < BASE ^ NUM_ACCUMULATOR_WORDS
         then \<exists>acc'. accumulator_add_f64 acc v = Inr acc' \<and> acc_ok acc' \<and>
                acc_value acc' = acc_value acc + f64_units v
         else accumulator_add_f64 acc v = Inl ExitError"
  using add_f64_exact [OF assms, of v] add_f64_nonfinite [of v acc] by (cases "f64_finite v") auto

theorem accumulator_adds_exactly_witness:
  "acc_ok ACCUMULATOR_ZERO \<and> f64_finite 5 \<and>
   (\<exists>acc'. accumulator_add_f64 ACCUMULATOR_ZERO 5 = Inr acc' \<and> acc_ok acc' \<and> acc_value acc' = 5)"
proof -
  have v: "f64_finite 5" "f64_units 5 = 5"
    by (simp_all add: f64_finite_def f64_units_def f64_magnitude_def f64_exponent_def)
  have "(5 :: int) < BASE ^ 1" by (simp add: BASE_def)
  also have "\<dots> \<le> BASE ^ NUM_ACCUMULATOR_WORDS" by (intro power_increasing) auto
  finally show ?thesis
    using accumulator_adds_exactly [OF zero_accumulator(1), of 5] v zero_accumulator by simp
qed

text \<open>C19. \<open>sum_f64\<close> returns the exact sum of its finite arguments, in whatever order they come, when
  this sum is a number of the format and no partial sum leaves the 33 words of the accumulator; there
  is no accumulation and no cancelation error.\<close>

theorem sum_f64_exact:
  assumes "\<forall>v \<in> set vs. f64_finite v"
    and "\<forall>n \<le> length vs. \<bar>sum_list (map f64_units (take n vs))\<bar> < BASE ^ NUM_ACCUMULATOR_WORDS"
    and "representable (nat \<bar>sum_list (map f64_units vs)\<bar>)"
    and "\<bar>sum_list (map f64_units vs)\<bar> < 2 ^ MIN_ACCUMULATOR_BITS"
  shows "sum_f64 vs = Inr (Finite (sum_list (map f64_units vs)))"
  by (rule sum_f64_result) (use assms in \<open>simp_all only: numeric_consts\<close>)

theorem sum_f64_exact_witness:
  "sum_f64 [0x0010000000000000, 0x8000000000000001, 5] = Inr (Finite (2 ^ 52 + 4))"
proof -
  let ?vs = "[0x0010000000000000, 0x8000000000000001, 5] :: u64 list"
  have v: "f64_units 0x0010000000000000 = 2 ^ 52" "f64_units 0x8000000000000001 = - 1" "f64_units 5 = 5"
    by (simp_all add: f64_units_def f64_magnitude_def f64_exponent_def)
  have f: "\<forall>v \<in> set ?vs. f64_finite v" by (simp add: f64_finite_def f64_exponent_def)
  have "BASE ^ 1 \<le> BASE ^ NUM_ACCUMULATOR_WORDS" by (intro power_increasing) auto
  then have big: "x < 2 ^ 64 \<Longrightarrow> x < BASE ^ NUM_ACCUMULATOR_WORDS" for x by (simp add: BASE_def)
  have bounds: "\<bar>sum_list (map f64_units (take n ?vs))\<bar> < 2 ^ 64" if "n \<le> length ?vs" for n
  proof -
    have "n = 0 \<or> n = 1 \<or> n = 2 \<or> n = 3" using that by (simp only: list.size) linarith
    then show ?thesis by (elim disjE) (simp_all add: v)
  qed
  have sum: "sum_list (map f64_units ?vs) = 2 ^ 52 + 4" by (simp add: v)
  have rep: "representable (nat \<bar>sum_list (map f64_units ?vs)\<bar>)"
    unfolding sum representable_def by (rule exI [of _ "2 ^ 52 + 4"], rule exI [of _ 0]) simp
  have "(2 :: int) ^ 53 \<le> 2 ^ MIN_ACCUMULATOR_BITS" by (intro power_increasing) auto
  then have "\<bar>sum_list (map f64_units ?vs)\<bar> < 2 ^ MIN_ACCUMULATOR_BITS" unfolding sum by simp
  with sum_f64_exact [OF f _ rep] bounds [THEN big] show ?thesis unfolding sum by blast
qed

text \<open>A single finite number goes through the accumulator unchanged.\<close>

theorem sum_f64_single:
  assumes "f64_finite v"
  shows "sum_f64 [v] = Inr (Finite (f64_units v))"
proof -
  note m = f64_magnitude_representable [OF assms]
  have abs: "\<bar>f64_units v\<bar> = f64_magnitude v" using m(2) by (simp add: f64_units_def)
  have "(2 :: int) ^ 2098 \<le> BASE ^ 33" unfolding BASE_power by (intro power_increasing) auto
  then have b: "\<bar>sum_list (map f64_units (take n [v]))\<bar> < BASE ^ 33" for n
    using m(2,3) by (cases n) (auto simp only: take_0 take_Suc_Cons list.map sum_list.Nil sum_list.Cons take_Nil
        add_0_right abs abs_zero zero_less_power BASE_pos)
  have sum: "sum_list (map f64_units [v]) = f64_units v" by simp
  show ?thesis
    using sum_f64_result [of "[v]", unfolded sum abs] assms m b by (simp only: list.set ball_simps simp_thms)
qed

theorem sum_f64_single_witness:
  "f64_finite 0x8010000000000003 \<and> sum_f64 [0x8010000000000003] = Inr (Finite (- (2 ^ 52 + 3)))"
proof -
  have "f64_finite 0x8010000000000003" by (simp add: f64_finite_def f64_exponent_def)
  then show ?thesis
    using sum_f64_single [of "0x8010000000000003"]
    by (simp add: f64_units_def f64_magnitude_def f64_exponent_def)
qed

text \<open>C37. The conversion of the accumulator adds up words that were rounded one by one, which is not
  the correct rounding of the exact sum: for the sum of \<open>2 ^ 127\<close>, \<open>2 ^ 74\<close> and 1 units the exact value
  lies above the midpoint of two neighbours, and \<open>sum_f64\<close> returns the lower one.\<close>

theorem sum_f64_misrounds:
  "map f64_units [0x04C0000000000000, 0x0170000000000000, 1] = [2 ^ 127, 2 ^ 74, 1] \<and>
   sum_f64 [0x04C0000000000000, 0x0170000000000000, 1] = Inr (Finite (2 ^ 127)) \<and>
   round_f64 (2 ^ 127 + 2 ^ 74 + 1) = Finite (2 ^ 127 + 2 ^ 75)"
proof (intro conjI)
  let ?vs = "[0x04C0000000000000, 0x0170000000000000, 1] :: u64 list"
  show units: "map f64_units ?vs = [2 ^ 127, 2 ^ 74, 1]"
    by (simp add: f64_units_def f64_magnitude_def f64_exponent_def)
  have fin: "\<forall>v \<in> set ?vs. f64_finite v" by (simp add: f64_finite_def f64_exponent_def)
  have "BASE ^ 2 \<le> BASE ^ 33" by (intro power_increasing) auto
  then have big: "x < 2 ^ 128 \<Longrightarrow> x < BASE ^ 33" for x by (simp add: BASE_def)
  have "\<bar>sum_list (map f64_units (take n ?vs))\<bar> < 2 ^ 128" if "n \<le> length ?vs" for n
  proof -
    have "n = 0 \<or> n = 1 \<or> n = 2 \<or> n = 3" using that by (simp only: list.size) linarith
    then show ?thesis unfolding take_map [symmetric] units by (elim disjE) simp_all
  qed
  then obtain acc where acc: "sum_loop ACCUMULATOR_ZERO ?vs = Inr acc" "acc_ok acc"
      "acc_value acc = sum_list (map f64_units ?vs)"
    using sum_loop_exact [OF zero_accumulator(1) fin] big by (auto simp: zero_accumulator(2))
  have "acc = tie_accumulator"
    by (rule acc_ok_unique [OF acc(2) tie_accumulator(1)]) (unfold acc(3) units tie_accumulator(2), simp_all)
  then show "sum_f64 ?vs = Inr (Finite (2 ^ 127))"
    using tie_accumulator(3) by (simp only: sum_f64_def acc(1) bindR_simps)
qed (rule round_example)

end
