(* ===== verification/OutlierFilter.thy ===== *)
theory OutlierFilter
  imports DistributionPool
begin

text \<open>
  Model of src/benchmark/outlier_filter.h and src/benchmark/outlier_filter.c, which remove the bins of low
  density from a histogram: relative weights of the bins, their distribution on a logarithmic scale, the
  threshold that keeps the number of rejected values below a fraction of all values, and the
  compaction of the histogram.

  The weights are doubles, and scores come from functions of the C mathematics library.  The operations
  on doubles are the fields of a record \<open>arith\<close> over an arbitrary type of doubles: the definitions apply
  them in the order of the source, and the theorems hold for every arithmetic that satisfies their
  hypotheses.  The builder and the distribution in the union of a \<open>recyclable_distribution\<close> have the same
  representation, so that the union is one distribution.
\<close>

section \<open>Data\<close>

record 'd arith =
  literal :: "nat \<Rightarrow> nat \<Rightarrow> 'd"   \<comment> \<open>the constant with this numerator and denominator\<close>
  minus_infinity :: 'd
  of_unsigned :: "nat \<Rightarrow> 'd"
  of_signed :: "int \<Rightarrow> 'd"
  to_unsigned :: "'d \<Rightarrow> nat"
  to_signed :: "'d \<Rightarrow> int"
  d_less :: "'d \<Rightarrow> 'd \<Rightarrow> bool"
  d_le :: "'d \<Rightarrow> 'd \<Rightarrow> bool"
  d_add :: "'d \<Rightarrow> 'd \<Rightarrow> 'd"
  d_sub :: "'d \<Rightarrow> 'd \<Rightarrow> 'd"
  d_mul :: "'d \<Rightarrow> 'd \<Rightarrow> 'd"
  d_div :: "'d \<Rightarrow> 'd \<Rightarrow> 'd"
  d_neg :: "'d \<Rightarrow> 'd"
  d_pow :: "'d \<Rightarrow> 'd \<Rightarrow> 'd"
  d_log2 :: "'d \<Rightarrow> 'd"
  d_exp2 :: "'d \<Rightarrow> 'd"
  d_round :: "'d \<Rightarrow> 'd"
  d_floor :: "'d \<Rightarrow> 'd"
  d_fmax :: "'d \<Rightarrow> 'd \<Rightarrow> 'd"

definition d_zero :: "'d arith \<Rightarrow> 'd" where
  "d_zero A = literal A 0 1"

definition d_one :: "'d arith \<Rightarrow> 'd" where
  "d_one A = literal A 1 1"

definition NEIGHBOR_CONTRIBUTION :: "'d arith \<Rightarrow> 'd" where
  "NEIGHBOR_CONTRIBUTION A = d_div A (d_one A) (literal A 4 1)"

definition NEIGHBOR_DECAY :: "'d arith \<Rightarrow> 'd" where
  "NEIGHBOR_DECAY A = literal A 2 1"

definition OUTLIER_THRESHOLD :: "'d arith \<Rightarrow> 'd" where
  "OUTLIER_THRESHOLD A = literal A 2 100"

definition MAX_OUTLIER_FRACTION :: "'d arith \<Rightarrow> 'd" where
  "MAX_OUTLIER_FRACTION A = literal A 5 100"

definition LOG2_SCALE :: "'d arith \<Rightarrow> 'd" where
  "LOG2_SCALE A = literal A 1000 1"

record recyclable_distribution =
  recyclable :: distribution
  is_built :: bool

text \<open>\<open>bin_weights\<close> is \<open>None\<close> for a null pointer, a cell is \<open>None\<close> until it is written.\<close>

record 'd outlier_filter =
  bin_weights :: "'d option list option"
  bin_capacity :: nat
  last_scores :: recyclable_distribution
  last_rejections :: recyclable_distribution

definition malloc_weights :: "heap_env \<Rightarrow> nat \<Rightarrow> 'd option list option" where
  "malloc_weights env n = (if malloc_ok env (n * 8) then Some (replicate n None) else None)"

definition read_weight :: "'d outlier_filter \<Rightarrow> nat \<Rightarrow> 'd res" where
  "read_weight flt i = (case bin_weights flt of None \<Rightarrow> Inl BadAccess | Some ws \<Rightarrow> read_cell ws i)"

definition write_weight :: "'d outlier_filter \<Rightarrow> nat \<Rightarrow> 'd \<Rightarrow> 'd outlier_filter res" where
  "write_weight flt i w =
     (case bin_weights flt of
        None \<Rightarrow> Inl BadAccess
      | Some ws \<Rightarrow> bindR (write_cell ws i w) (\<lambda>ws'. Inr (flt\<lparr>bin_weights := Some ws'\<rparr>)))"

definition outlier_filter_initialize :: "heap_env \<Rightarrow> nat \<Rightarrow> 'd outlier_filter res" where
  "outlier_filter_initialize env psize =
     (let capacity = psize div 8;
          weights = malloc_weights env capacity
      in bindR (distribution_initialize env psize) (\<lambda>scores.
      bindR (distribution_initialize env psize) (\<lambda>rejections.
      Inr \<lparr>bin_weights = weights, bin_capacity = capacity,
           last_scores = \<lparr>recyclable = inner scores, is_built = False\<rparr>,
           last_rejections = \<lparr>recyclable = inner rejections, is_built = False\<rparr>\<rparr>)))"

definition outlier_filter_last_scores :: "'d outlier_filter \<Rightarrow> distribution res" where
  "outlier_filter_last_scores flt =
     ensure_that (is_built (last_scores flt)) (Inr (recyclable (last_scores flt)))"

definition outlier_filter_last_rejections :: "'d outlier_filter \<Rightarrow> distribution option" where
  "outlier_filter_last_rejections flt =
     (if is_built (last_rejections flt) then Some (recyclable (last_rejections flt)) else None)"

definition finalize_recyclable :: "recyclable_distribution \<Rightarrow> recyclable_distribution" where
  "finalize_recyclable r =
     (if is_built r then r\<lparr>recyclable := distribution_finalize (recyclable r)\<rparr>
      else r\<lparr>recyclable := inner (distribution_discard \<lparr>inner = recyclable r\<rparr>)\<rparr>)"

definition outlier_filter_finalize :: "'d outlier_filter \<Rightarrow> 'd outlier_filter" where
  "outlier_filter_finalize flt =
     flt\<lparr>bin_weights := None, bin_capacity := 0,
            last_scores := finalize_recyclable (last_scores flt),
            last_rejections := finalize_recyclable (last_rejections flt)\<rparr>"

section \<open>Relative weights\<close>

definition neighbor_weight :: "'d arith \<Rightarrow> 'd \<Rightarrow> 'd \<Rightarrow> 'd" where
  "neighbor_weight A rel_count rel_distance =
     d_mul A rel_count (d_pow A rel_distance (d_neg A (NEIGHBOR_DECAY A)))"

text \<open>The loop over the bins from the second one on, which weights the bin in front of it.  The result
  holds the state after the last turn.\<close>

record 'd weights_state =
  current_value :: int
  rel_current_count :: 'd
  rel_prev_count :: 'd
  rel_prev_distance :: 'd
  max_weight :: 'd

fun weights_loop ::
    "'d arith \<Rightarrow> layout \<Rightarrow> 'd \<Rightarrow> 'd \<Rightarrow> nat \<Rightarrow> nat \<Rightarrow> 'd weights_state \<Rightarrow> 'd outlier_filter \<Rightarrow>
     ('d weights_state \<times> 'd outlier_filter) res" where
  "weights_loop A l count_norm distance_norm 0 bin st flt = Inr (st, flt)"
| "weights_loop A l count_norm distance_norm (Suc todo) bin st flt =
     bindR (read_cell (fst l) bin) (\<lambda>next_value.
     assert_that (next_value > current_value st) (
     bindR (int64 (next_value - current_value st)) (\<lambda>distance_to_next.
     let rel_next_distance = d_mul A distance_norm (of_unsigned A (nat distance_to_next))
     in bindR (read_cell (snd l) bin) (\<lambda>next_count.
     let rel_next_count = d_mul A count_norm (of_unsigned A next_count);
         neighbor_share = d_div A (NEIGHBOR_CONTRIBUTION A) (literal A 2 1);
         self_share = d_sub A (d_one A) (NEIGHBOR_CONTRIBUTION A);
         prev_weight = neighbor_weight A (rel_prev_count st) (rel_prev_distance st);
         next_weight = neighbor_weight A rel_next_count rel_next_distance;
         current_weight = d_add A (d_add A (d_mul A neighbor_share prev_weight)
                                           (d_mul A self_share (rel_current_count st)))
                                  (d_mul A neighbor_share next_weight)
     in bindR (write_weight flt (bin - 1) current_weight) (\<lambda>flt'.
     weights_loop A l count_norm distance_norm todo (Suc bin)
       \<lparr>current_value = next_value, rel_current_count = rel_next_count,
        rel_prev_count = rel_current_count st, rel_prev_distance = rel_next_distance,
        max_weight = (if d_less A (max_weight st) current_weight then current_weight else max_weight st)\<rparr>
       flt')))))"

fun normalize_loop :: "'d arith \<Rightarrow> 'd \<Rightarrow> nat \<Rightarrow> nat \<Rightarrow> 'd outlier_filter \<Rightarrow> 'd outlier_filter res" where
  "normalize_loop A weight_norm 0 bin flt = Inr flt"
| "normalize_loop A weight_norm (Suc todo) bin flt =
     bindR (read_weight flt bin) (\<lambda>w.
     bindR (write_weight flt bin (d_mul A w weight_norm)) (\<lambda>flt'.
     normalize_loop A weight_norm todo (Suc bin) flt'))"

definition ensure_weights :: "heap_env \<Rightarrow> nat \<Rightarrow> 'd outlier_filter \<Rightarrow> 'd outlier_filter" where
  "ensure_weights env n flt =
     (if bin_capacity flt < n
      then flt\<lparr>bin_weights := malloc_weights env n, bin_capacity := n\<rparr> else flt)"

definition compute_rel_weights ::
    "'d arith \<Rightarrow> heap_env \<Rightarrow> 'd outlier_filter \<Rightarrow> distribution_builder \<Rightarrow> 'd outlier_filter res" where
  "compute_rel_weights A env flt target =
     (let n = num_bins (inner target);
          flt = ensure_weights env n flt
      in ensure_that (n \<ge> 1) (
      if n = 1 then
        ensure_that (bin_capacity flt \<ge> 1) (write_weight flt 0 (d_one A))
      else
        ensure_that (n \<ge> 2) (
        bindR (distribution_layout (inner target)) (\<lambda>target_layout.
        bindR (distribution_min_difference (inner target)) (\<lambda>min_distance.
        bindR (distribution_max_count target) (\<lambda>max_count.
        let count_norm = d_div A (d_one A) (of_unsigned A max_count);
            distance_norm = d_div A (d_one A) (of_unsigned A min_distance);
            neighbor_share = d_div A (NEIGHBOR_CONTRIBUTION A) (literal A 2 1);
            self_share = d_sub A (d_one A) (NEIGHBOR_CONTRIBUTION A)
        in bindR (read_cell (fst target_layout) 0) (\<lambda>first_value.
        bindR (read_cell (snd target_layout) 0) (\<lambda>first_count.
        bindR (weights_loop A target_layout count_norm distance_norm (n - 1) 1
                 \<lparr>current_value = first_value,
                  rel_current_count = d_mul A count_norm (of_unsigned A first_count),
                  rel_prev_count = d_zero A,
                  rel_prev_distance = d_mul A distance_norm (of_unsigned A UINT64_MAX),
                  max_weight = minus_infinity A\<rparr>
                 flt) (\<lambda>(st, flt).
        let prev_weight = neighbor_weight A (rel_prev_count st) (rel_prev_distance st);
            last_weight = d_add A (d_mul A neighbor_share prev_weight)
                                  (d_mul A self_share (rel_current_count st))
        in bindR (write_weight flt (n - 1) last_weight) (\<lambda>flt.
        let max_weight' = (if d_less A (max_weight st) last_weight then last_weight else max_weight st);
            weight_norm = d_div A (d_one A) max_weight'
        in normalize_loop A weight_norm n 0 flt))))))))))"

section \<open>Scores\<close>

definition unit_interval :: "'d arith \<Rightarrow> 'd \<Rightarrow> bool" where
  "unit_interval A w \<longleftrightarrow> d_le A (d_zero A) w \<and> d_le A w (d_one A)"

definition rel_weight_to_score :: "'d arith \<Rightarrow> 'd \<Rightarrow> int res" where
  "rel_weight_to_score A rel_weight =
     assert_that (unit_interval A rel_weight) (
     let unbounded_score = d_round A (d_mul A (LOG2_SCALE A) (d_log2 A rel_weight))
     in assert_that (d_le A unbounded_score (d_zero A)) (
     Inr (to_signed A (d_fmax A unbounded_score (of_signed A INT64_MIN)))))"

definition score_to_rel_weight :: "'d arith \<Rightarrow> int \<Rightarrow> 'd res" where
  "score_to_rel_weight A score =
     assert_that (score \<le> 0) (
     let rel_weight = d_exp2 A (d_div A (of_signed A score) (LOG2_SCALE A))
     in assert_that (unit_interval A rel_weight) (Inr rel_weight))"

definition recycle_builder :: "recyclable_distribution \<Rightarrow> distribution_builder" where
  "recycle_builder r =
     (if is_built r then fst (distribution_reset (recyclable r)) else \<lparr>inner = recyclable r\<rparr>)"

fun scores_loop ::
    "'d arith \<Rightarrow> heap_env \<Rightarrow> 'd outlier_filter \<Rightarrow> layout \<Rightarrow> nat \<Rightarrow> nat \<Rightarrow> distribution_builder \<Rightarrow>
     distribution_builder res" where
  "scores_loop A env flt l 0 bin builder = Inr builder"
| "scores_loop A env flt l (Suc todo) bin builder =
     bindR (read_weight flt bin) (\<lambda>rel_weight.
     assert_that (unit_interval A rel_weight) (
     bindR (rel_weight_to_score A rel_weight) (\<lambda>score.
     bindR (read_cell (snd l) bin) (\<lambda>copies.
     bindR (distribution_insert_copies env builder score copies) (\<lambda>builder'.
     scores_loop A env flt l todo (Suc bin) builder')))))"

definition compute_scores ::
    "'d arith \<Rightarrow> heap_env \<Rightarrow> 'd outlier_filter \<Rightarrow> distribution_builder \<Rightarrow> 'd outlier_filter res" where
  "compute_scores A env flt target =
     (let n = num_bins (inner target)
      in ensure_that (n \<le> bin_capacity flt) (
      bindR (distribution_layout (inner target)) (\<lambda>target_layout.
      bindR (scores_loop A env flt target_layout n 0 (recycle_builder (last_scores flt))) (\<lambda>builder.
      bindR (distribution_build builder) (\<lambda>(scores, _).
      Inr (flt\<lparr>last_scores := \<lparr>recyclable = scores, is_built = True\<rparr>\<rparr>))))))"

definition max_outliers :: "'d arith \<Rightarrow> nat \<Rightarrow> nat" where
  "max_outliers A num_inputs =
     to_unsigned A (d_floor A (d_mul A (MAX_OUTLIER_FRACTION A) (of_unsigned A num_inputs)))"

text \<open>The values that only log messages use are left out; reads of memory for them are not.\<close>

definition compute_weight_threshold :: "'d arith \<Rightarrow> 'd outlier_filter \<Rightarrow> 'd res" where
  "compute_weight_threshold A flt =
     ensure_that (d_less A (d_zero A) (OUTLIER_THRESHOLD A)) (
     ensure_that (d_less A (OUTLIER_THRESHOLD A) (d_one A)) (
     bindR (rel_weight_to_score A (OUTLIER_THRESHOLD A)) (\<lambda>outlier_score.
     ensure_that (is_built (last_scores flt)) (
     let scores = recyclable (last_scores flt)
     in bindR (distribution_layout scores) (\<lambda>(sorted_values, end_ranks).
     bindR (distribution_bin_by_value scores outlier_score BIN_BELOW) (\<lambda>last_outlier_pos.
     if last_outlier_pos = PTRDIFF_MIN then Inr (d_zero A)
     else
       ensure_that (last_outlier_pos \<ge> 0) (
       bindR (read_cell end_ranks (nat last_outlier_pos)) (\<lambda>num_outliers.
       bindR (distribution_len scores) (\<lambda>num_inputs.
       ensure_that (d_less A (d_zero A) (MAX_OUTLIER_FRACTION A)) (
       ensure_that (d_less A (MAX_OUTLIER_FRACTION A) (d_one A)) (
       if num_outliers \<le> max_outliers A num_inputs then
         bindR (read_cell sorted_values (nat last_outlier_pos)) (\<lambda>max_score.
         bindR (score_to_rel_weight A max_score) (\<lambda>_. Inr (OUTLIER_THRESHOLD A)))
       else
         bindR (distribution_bin_by_rank scores (max_outliers A num_inputs)) (\<lambda>max_bin.
         bindR (read_cell end_ranks max_bin) (\<lambda>end_rank.
         if end_rank > max_outliers A num_inputs \<and> max_bin = 0 then Inr (d_zero A)
         else
           let max_bin' = (if end_rank > max_outliers A num_inputs then max_bin - 1 else max_bin)
           in bindR (read_cell sorted_values max_bin') (\<lambda>max_score.
           ensure_that (max_score \<le> 0) (
           bindR (score_to_rel_weight A max_score) (\<lambda>max_rel_weight.
           ensure_that (d_le A (d_zero A) max_rel_weight) (
           ensure_that (d_le A max_rel_weight (d_one A)) (
           bindR (read_cell end_ranks max_bin') (\<lambda>_.
           Inr max_rel_weight)))))))))))))))))))"

section \<open>Rejection\<close>

fun reject_loop ::
    "'d arith \<Rightarrow> heap_env \<Rightarrow> 'd outlier_filter \<Rightarrow> 'd \<Rightarrow> nat \<Rightarrow> nat \<Rightarrow> nat \<Rightarrow> layout \<Rightarrow> distribution_builder \<Rightarrow>
     (nat \<times> layout \<times> distribution_builder) res" where
  "reject_loop A env flt threshold 0 input_bin num_deleted_bins l builder = Inr (num_deleted_bins, l, builder)"
| "reject_loop A env flt threshold (Suc todo) input_bin num_deleted_bins (values, counts) builder =
     bindR (read_cell values input_bin) (\<lambda>value.
     bindR (read_cell counts input_bin) (\<lambda>copies.
     bindR (read_weight flt input_bin) (\<lambda>rel_weight.
     if d_less A threshold rel_weight then
       bindR (if num_deleted_bins > 0 then
                bindR (write_cell values (input_bin - num_deleted_bins) value) (\<lambda>values'.
                bindR (write_cell counts (input_bin - num_deleted_bins) copies) (\<lambda>counts'.
                Inr (values', counts')))
              else Inr (values, counts)) (\<lambda>l'.
       reject_loop A env flt threshold todo (Suc input_bin) num_deleted_bins l' builder)
     else
       bindR (distribution_insert_copies env builder value copies) (\<lambda>builder'.
       reject_loop A env flt threshold todo (Suc input_bin) (num_deleted_bins + 1) (values, counts) builder'))))"

text \<open>When the rejections of the previous call are recycled, \<open>is_built\<close> keeps its value.\<close>

definition reject_bins ::
    "'d arith \<Rightarrow> heap_env \<Rightarrow> 'd outlier_filter \<Rightarrow> distribution_builder \<Rightarrow> 'd \<Rightarrow>
     ('d outlier_filter \<times> distribution_builder) res" where
  "reject_bins A env flt target threshold =
     (let builder = recycle_builder (last_rejections flt);
          n = num_bins (inner target)
      in ensure_that (n \<le> bin_capacity flt) (
      bindR (distribution_layout (inner target)) (\<lambda>target_layout.
      bindR (reject_loop A env flt threshold n 0 0 target_layout builder) (\<lambda>(num_deleted_bins, l, builder').
      let target' = target\<lparr>inner := (inner target)\<lparr>allocation := Some l, num_bins := n - num_deleted_bins\<rparr>\<rparr>
      in if num_deleted_bins > 0 then
           bindR (distribution_build builder') (\<lambda>(rejections, _).
           Inr (flt\<lparr>last_rejections := \<lparr>recyclable = rejections, is_built = True\<rparr>\<rparr>, target'))
         else
           Inr (flt\<lparr>last_rejections := (last_rejections flt)\<lparr>recyclable := inner builder'\<rparr>\<rparr>, target')))))"

definition outlier_filter_apply ::
    "'d arith \<Rightarrow> heap_env \<Rightarrow> 'd outlier_filter \<Rightarrow> distribution_builder \<Rightarrow>
     ('d outlier_filter \<times> distribution_builder) res" where
  "outlier_filter_apply A env flt target =
     ensure_that (\<not> distribution_empty target) (
     bindR (compute_rel_weights A env flt target) (\<lambda>filter1.
     bindR (compute_scores A env filter1 target) (\<lambda>filter2.
     bindR (compute_weight_threshold A filter2) (\<lambda>threshold.
     reject_bins A env filter2 target threshold))))"

section \<open>Weighted bins\<close>

text \<open>A bin with its value, count and relative weight.\<close>

type_synonym 'd bin = "int \<times> nat \<times> 'd"

definition bin_values :: "'d bin list \<Rightarrow> int list" where
  "bin_values bs = map fst bs"

definition bin_counts :: "'d bin list \<Rightarrow> nat list" where
  "bin_counts bs = map (\<lambda>b. fst (snd b)) bs"

definition weights :: "'d bin list \<Rightarrow> 'd list" where
  "weights bs = map (\<lambda>b. snd (snd b)) bs"

definition samples :: "'d bin list \<Rightarrow> int multiset" where
  "samples bs = mset (contents (bin_values bs) (bin_counts bs))"

lemmas bin_lists = bin_values_def bin_counts_def weights_def

lemma bin_lists_simps [simp]:
  "bin_values [] = []" "bin_counts [] = []" "weights [] = []"
  "bin_values (b # bs) = fst b # bin_values bs" "bin_counts (b # bs) = fst (snd b) # bin_counts bs"
  "weights (b # bs) = snd (snd b) # weights bs"
  "length (bin_values bs) = length bs" "length (bin_counts bs) = length bs" "length (weights bs) = length bs"
  by (simp_all add: bin_lists)

lemma samples_simps [simp]:
  "samples [] = {#}" "samples ((v, n, w) # bs) = replicate_mset n v + samples bs"
  by (simp_all add: samples_def)

lemma size_samples: "size (samples bs) = sum_list (bin_counts bs)"
  by (simp add: samples_def length_contents)

lemma samples_partition: "samples (filter P bs) + samples (filter (\<lambda>b. \<not> P b) bs) = samples bs"
proof (induction bs)
  case (Cons b bs)
  then show ?case by (cases b) auto
qed simp

text \<open>The weights that a filter holds, in front of unused cells.\<close>

definition holds_weights :: "'d outlier_filter \<Rightarrow> 'd list \<Rightarrow> bool" where
  "holds_weights flt ws \<longleftrightarrow> (\<exists>r. bin_weights flt = Some (map Some ws @ r)) \<and> length ws \<le> bin_capacity flt"

lemma read_weight_held: "holds_weights flt ws \<Longrightarrow> i < length ws \<Longrightarrow> read_weight flt i = Inr (ws ! i)"
  by (auto simp: holds_weights_def read_weight_def cell_simps)

section \<open>Compaction\<close>

lemma compact_cell:
  assumes "length junk = del" and "0 < del"
  shows "write_cell (map Some ks @ junk @ map Some (v # vs) @ r) (length ks) v =
           Inr (map Some (ks @ [v]) @ (tl junk @ [Some v]) @ map Some vs @ r)"
  using assms by (cases junk) (simp_all add: write_cell_next)

lemma reject_loop_holds:
  assumes env: "benign env" and w: "holds_weights flt (ws0 @ weights bs)"
    and pos: "\<forall>n \<in> set (bin_counts bs). 0 < n" and room: "size m + size (samples bs) < 2 ^ 59"
    and b: "builder_holds b m"
    and junk: "length j1 = del" "length j2 = del" "length kn = length kv" "length ws0 = length kv + del"
  shows "\<exists>j1' j2' b' del'. reject_loop A env flt t (length bs) (length ws0) del
             (map Some kv @ j1 @ map Some (bin_values bs) @ r1, map Some kn @ j2 @ map Some (bin_counts bs) @ r2) b =
           Inr (del', (map Some (kv @ bin_values (filter (\<lambda>b. d_less A t (snd (snd b))) bs)) @ j1' @ r1,
                 map Some (kn @ bin_counts (filter (\<lambda>b. d_less A t (snd (snd b))) bs)) @ j2' @ r2), b') \<and>
           length j1' = del' \<and> length j2' = del' \<and>
           del' = del + length (filter (\<lambda>b. \<not> d_less A t (snd (snd b))) bs) \<and>
           builder_holds b' (m + samples (filter (\<lambda>b. \<not> d_less A t (snd (snd b))) bs))"
  using w pos room b junk
proof (induction bs arbitrary: ws0 m b j1 j2 del kv kn)
  case (Cons x bs)
  obtain v n u where x: "x = (v, n, u)" by (cases x)
  let ?P = "\<lambda>b :: 'a bin. d_less A t (snd (snd b))"
  let ?l = "(map Some kv @ j1 @ map Some (v # bin_values bs) @ r1, map Some kn @ j2 @ map Some (n # bin_counts bs) @ r2)"
  have w': "holds_weights flt ((ws0 @ [u]) @ weights bs)" using Cons.prems(1) x by simp
  have reads: "read_cell (fst ?l) (length ws0) = Inr v" "read_cell (snd ?l) (length ws0) = Inr n"
    "read_weight flt (length ws0) = Inr u"
    using Cons.prems(5-8) read_weight_held [OF Cons.prems(1), of "length ws0"]
    by (simp_all add: x read_cell_def nth_append)
  show ?case
  proof (cases "d_less A t u")
    case True
    obtain j1' j2' where j: "length j1' = del" "length j2' = del"
      and step: "reject_loop A env flt t (length (x # bs)) (length ws0) del ?l b =
        reject_loop A env flt t (length bs) (length (ws0 @ [u])) del
          (map Some (kv @ [v]) @ j1' @ map Some (bin_values bs) @ r1,
           map Some (kn @ [n]) @ j2' @ map Some (bin_counts bs) @ r2) b"
    proof (cases "del = 0")
      case True
      show thesis
        by (rule that [of "[]" "[]"])
          (use \<open>d_less A t u\<close> True reads Cons.prems(5-8) in \<open>simp_all\<close>)
    next
      case False
      have "length ws0 - del = length kv" "length ws0 - del = length kn" using Cons.prems(5-8) by simp_all
      note writes = compact_cell [OF Cons.prems(5), of kv v "bin_values bs" r1]
        compact_cell [OF Cons.prems(6), of kn n "bin_counts bs" r2]
      show thesis
        by (rule that [of "tl j1 @ [Some v]" "tl j2 @ [Some n]"])
          (use \<open>d_less A t u\<close> False reads Cons.prems(5-8) writes in \<open>simp_all\<close>)
    qed
    have "\<exists>j1'' j2'' b' del'. reject_loop A env flt t (length bs) (length (ws0 @ [u])) del
             (map Some (kv @ [v]) @ j1' @ map Some (bin_values bs) @ r1,
              map Some (kn @ [n]) @ j2' @ map Some (bin_counts bs) @ r2) b =
           Inr (del', (map Some ((kv @ [v]) @ bin_values (filter ?P bs)) @ j1'' @ r1,
                 map Some ((kn @ [n]) @ bin_counts (filter ?P bs)) @ j2'' @ r2), b') \<and>
           length j1'' = del' \<and> length j2'' = del' \<and> del' = del + length (filter (\<lambda>b. \<not> ?P b) bs) \<and>
           builder_holds b' (m + samples (filter (\<lambda>b. \<not> ?P b) bs))"
      by (rule Cons.IH [OF w']) (use Cons.prems x j in \<open>auto simp: size_samples\<close>)
    then show ?thesis using step True x by simp
  next
    case False
    have n: "0 < n" using Cons.prems(2) x by simp
    obtain b1 where b1: "distribution_insert_copies env b v n = Inr b1" "builder_holds b1 (m + replicate_mset n v)"
      using insert_copies_holds [of env m b n v] env Cons.prems(3,4) n x
      by (auto simp: benign_def size_samples)
    have step: "reject_loop A env flt t (length (x # bs)) (length ws0) del ?l b =
        reject_loop A env flt t (length bs) (length (ws0 @ [u])) (del + 1)
          (map Some kv @ (j1 @ [Some v]) @ map Some (bin_values bs) @ r1,
           map Some kn @ (j2 @ [Some n]) @ map Some (bin_counts bs) @ r2) b1"
      using False reads b1 by simp
    have "\<exists>j1'' j2'' b' del'. reject_loop A env flt t (length bs) (length (ws0 @ [u])) (del + 1)
             (map Some kv @ (j1 @ [Some v]) @ map Some (bin_values bs) @ r1,
              map Some kn @ (j2 @ [Some n]) @ map Some (bin_counts bs) @ r2) b1 =
           Inr (del', (map Some (kv @ bin_values (filter ?P bs)) @ j1'' @ r1,
                 map Some (kn @ bin_counts (filter ?P bs)) @ j2'' @ r2), b') \<and>
           length j1'' = del' \<and> length j2'' = del' \<and> del' = del + 1 + length (filter (\<lambda>b. \<not> ?P b) bs) \<and>
           builder_holds b' (m + replicate_mset n v + samples (filter (\<lambda>b. \<not> ?P b) bs))"
      by (rule Cons.IH [OF w']) (use Cons.prems x b1 in \<open>auto simp: size_samples\<close>)
    then show ?thesis using step False x by (simp add: add.assoc)
  qed
qed auto

text \<open>The bins of a histogram, and what a slot for a recycled distribution may hold.\<close>

definition target_bins :: "distribution_builder \<Rightarrow> 'd bin list \<Rightarrow> bool" where
  "target_bins b bs \<longleftrightarrow> stores (inner b) (bin_values bs) (bin_counts bs) \<and> well_binned (bin_values bs) (bin_counts bs)"

definition slot_ok :: "recyclable_distribution \<Rightarrow> bool" where
  "slot_ok r \<longleftrightarrow> builder_holds (recycle_builder r) {#}"

lemmas slot_recycled = iffD1 [OF slot_ok_def]

lemma slot_built: "is_built r \<Longrightarrow> dist_holds (recyclable r) m \<Longrightarrow> slot_ok r"
  using reset_empty by (simp add: slot_ok_def recycle_builder_def)

text \<open>A slot that holds an empty builder can be recycled, whatever its flag says.\<close>

lemma slot_empty:
  assumes "builder_holds \<lparr>inner = recyclable r\<rparr> {#}"
  shows "slot_ok r"
proof -
  obtain vals nums where st: "stores (recyclable r) vals nums" using assms by (auto simp: builder_holds_def)
  have "builder_holds (fst (distribution_reset (recyclable r))) {#}"
    using st by (auto simp: empty_builder_stores distribution_reset_def stores_def)
  then show ?thesis using assms by (simp add: slot_ok_def recycle_builder_def)
qed

lemma target_holds: "target_bins b bs \<Longrightarrow> builder_holds b (samples bs)"
  by (auto simp: target_bins_def builder_holds_def samples_def)

lemma well_binned_filter:
  "well_binned (bin_values bs) (bin_counts bs) \<Longrightarrow> well_binned (bin_values (filter P bs)) (bin_counts (filter P bs))"
  by (auto simp: well_binned_def bin_lists sorted_wrt_map sorted_wrt_filter)

lemma samples_empty_iff: "well_binned (bin_values bs) (bin_counts bs) \<Longrightarrow> samples bs = {#} \<longleftrightarrow> bs = []"
  using set_contents [of "bin_values bs" "bin_counts bs"] by (cases bs) (auto simp: samples_def)

lemma reject_bins_holds:
  assumes env: "benign env" and target: "target_bins target bs" and w: "holds_weights flt (weights bs)"
    and slot: "slot_ok (last_rejections flt)" and room: "size (samples bs) < 2 ^ 59"
    and rejected_def: "rejected = filter (\<lambda>b. \<not> d_less A t (snd (snd b))) bs"
  shows "\<exists>slot' target'. reject_bins A env flt target t = Inr (flt\<lparr>last_rejections := slot'\<rparr>, target') \<and>
    target_bins target' (filter (\<lambda>b. d_less A t (snd (snd b))) bs) \<and>
    (if rejected = [] then is_built slot' = is_built (last_rejections flt) \<and> builder_holds \<lparr>inner = recyclable slot'\<rparr> {#}
     else is_built slot' \<and> dist_holds (recyclable slot') (samples rejected))"
proof -
  let ?kept = "filter (\<lambda>b. d_less A t (snd (snd b))) bs"
  have st: "stores (inner target) (bin_values bs) (bin_counts bs)" and wb: "well_binned (bin_values bs) (bin_counts bs)"
    using target by (simp_all add: target_bins_def)
  obtain vs cs where d: "allocation (inner target) = Some (map Some (bin_values bs) @ vs, map Some (bin_counts bs) @ cs)"
    "length (bin_values bs) + length vs = capacity (inner target)" "length cs = length vs"
    "num_bins (inner target) = length bs" "0 < capacity (inner target)"
    "capacity (inner target) * DISTRIBUTION_BIN_SIZE < 2 ^ 64"
    using st by (rule storesE) simp
  have pos: "\<forall>n \<in> set (bin_counts bs). 0 < n" using wb by (simp add: well_binned_def)
  obtain j1 j2 b' where loop: "reject_loop A env flt t (length bs) 0 0
      (map Some (bin_values bs) @ vs, map Some (bin_counts bs) @ cs) (recycle_builder (last_rejections flt)) =
      Inr (length rejected, (map Some (bin_values ?kept) @ j1 @ vs, map Some (bin_counts ?kept) @ j2 @ cs), b')"
    "length j1 = length rejected" "length j2 = length rejected" "builder_holds b' (samples rejected)"
    using reject_loop_holds [OF env, of flt "[]" bs "{#}" "recycle_builder (last_rejections flt)" "[]" 0 "[]" "[]" "[]" A t vs cs]
      w pos room slot_recycled [OF slot] by (auto simp: rejected_def)
  have len: "length ?kept + length rejected = length bs"
    unfolding rejected_def by (rule sum_length_filter_compl)
  define target' where "target' = target\<lparr>inner := (inner target)\<lparr>allocation :=
      Some (map Some (bin_values ?kept) @ j1 @ vs, map Some (bin_counts ?kept) @ j2 @ cs),
      num_bins := length bs - length rejected\<rparr>\<rparr>"
  have "stores (inner target') (bin_values ?kept) (bin_counts ?kept)"
    by (rule storesI [of _ _ "j1 @ vs" _ "j2 @ cs"]) (use d loop(2,3) len in \<open>simp_all add: target'_def\<close>)
  then have tb: "target_bins target' ?kept"
    using well_binned_filter [OF wb] by (simp add: target_bins_def)
  have cap: "length bs \<le> bin_capacity flt" using w by (simp add: holds_weights_def)
  show ?thesis
  proof (cases "rejected = []")
    case True
    then have "reject_bins A env flt target t =
        Inr (flt\<lparr>last_rejections := (last_rejections flt)\<lparr>recyclable := inner b'\<rparr>\<rparr>, target')"
      using d cap loop(1) by (simp add: reject_bins_def target'_def)
    then show ?thesis
      using tb True loop(4)
      by (intro exI [of _ "(last_rejections flt)\<lparr>recyclable := inner b'\<rparr>"] exI [of _ target'])
        (simp add: builder_holds_def)
  next
    case False
    have wbr: "well_binned (bin_values rejected) (bin_counts rejected)"
      unfolding rejected_def by (rule well_binned_filter [OF wb])
    have "size (samples rejected) < 2 ^ 59"
      using arg_cong [OF samples_partition [of "\<lambda>b. \<not> d_less A t (snd (snd b))" bs], of size] room
      by (simp add: rejected_def)
    then obtain e where "distribution_build b' = Inr (e, b'\<lparr>inner := distribution_poison\<rparr>)" "dist_holds e (samples rejected)"
      using build_holds [OF loop(4)] False samples_empty_iff [OF wbr] by auto
    moreover from this(1) have "reject_bins A env flt target t =
        Inr (flt\<lparr>last_rejections := \<lparr>recyclable = e, is_built = True\<rparr>\<rparr>, target')"
      using d cap loop(1) False by (simp add: reject_bins_def target'_def)
    ultimately show ?thesis using tb False by auto
  qed
qed

section \<open>Distribution of the scores\<close>

definition score_of :: "'d arith \<Rightarrow> 'd \<Rightarrow> int" where
  "score_of A w = (case rel_weight_to_score A w of Inl _ \<Rightarrow> 0 | Inr s \<Rightarrow> s)"

definition rescore :: "'d arith \<Rightarrow> 'd bin \<Rightarrow> 'd bin" where
  "rescore A b = (score_of A (snd (snd b)), snd b)"

text \<open>What the filter relies on: the constants are in their ranges; a relative weight has a score that
  is not positive; scores grow with the weights; and the weight computed from a score separates the weights
  of this score and below from those of greater scores.\<close>

definition score_laws :: "'d arith \<Rightarrow> bool" where
  "score_laws A \<longleftrightarrow>
     unit_interval A (OUTLIER_THRESHOLD A) \<and>
     d_less A (d_zero A) (OUTLIER_THRESHOLD A) \<and> d_less A (OUTLIER_THRESHOLD A) (d_one A) \<and>
     d_less A (d_zero A) (MAX_OUTLIER_FRACTION A) \<and> d_less A (MAX_OUTLIER_FRACTION A) (d_one A) \<and>
     (\<forall>w. unit_interval A w \<longrightarrow> (\<exists>s \<le> 0. rel_weight_to_score A w = Inr s)) \<and>
     (\<forall>w w'. unit_interval A w \<and> unit_interval A w' \<and> \<not> d_less A w' w \<longrightarrow> score_of A w \<le> score_of A w') \<and>
     (\<forall>w. unit_interval A w \<longrightarrow> (\<exists>t. score_to_rel_weight A (score_of A w) = Inr t \<and> unit_interval A t \<and>
        (\<forall>w'. unit_interval A w' \<and> \<not> d_less A t w' \<longrightarrow> score_of A w' \<le> score_of A w)))"

lemma score_law:
  assumes "score_laws A" and "unit_interval A w"
  shows "rel_weight_to_score A w = Inr (score_of A w)" and "score_of A w \<le> 0"
  using assms by (auto simp: score_laws_def score_of_def)

lemma scores_loop_holds:
  assumes laws: "score_laws A" and env: "benign env" and w: "holds_weights flt (ws0 @ weights bs)"
    and unit: "\<forall>w \<in> set (weights bs). unit_interval A w"
    and pos: "\<forall>n \<in> set (bin_counts bs). 0 < n" and room: "size m + size (samples bs) < 2 ^ 59"
    and b: "builder_holds b m" and ns0: "length ns0 = length ws0"
  shows "\<exists>b'. scores_loop A env flt (vs, map Some (ns0 @ bin_counts bs) @ r) (length bs) (length ws0) b = Inr b' \<and>
           builder_holds b' (m + samples (map (rescore A) bs))"
  using w unit pos room b ns0
proof (induction bs arbitrary: ws0 ns0 m b)
  case (Cons x bs)
  obtain v n u where x: "x = (v, n, u)" by (cases x)
  have u: "unit_interval A u" and n: "0 < n" using Cons.prems(2,3) x by simp_all
  have reads: "read_weight flt (length ws0) = Inr u"
    "read_cell (map Some (ns0 @ bin_counts (x # bs)) @ r) (length ws0) = Inr n"
    using read_weight_held [OF Cons.prems(1), of "length ws0"] Cons.prems(6) by (simp_all add: x read_cell_def nth_append)
  obtain b1 where b1: "distribution_insert_copies env b (score_of A u) n = Inr b1"
      "builder_holds b1 (m + replicate_mset n (score_of A u))"
    using insert_copies_holds [of env m b n "score_of A u"] env Cons.prems(4,5) n x
    by (auto simp: benign_def size_samples)
  have w': "holds_weights flt ((ws0 @ [u]) @ weights bs)" using Cons.prems(1) x by simp
  have "\<exists>b'. scores_loop A env flt (vs, map Some ((ns0 @ [n]) @ bin_counts bs) @ r) (length bs) (length (ws0 @ [u])) b1 =
      Inr b' \<and> builder_holds b' (m + replicate_mset n (score_of A u) + samples (map (rescore A) bs))"
    by (rule Cons.IH [OF w']) (use Cons.prems x b1 in \<open>auto simp: size_samples\<close>)
  moreover have "rescore A x = (score_of A u, n, u)" by (simp add: x rescore_def)
  ultimately show ?case
    using reads b1(1) u score_law [OF laws u] by (simp add: x add.assoc)
qed simp

lemma rescored_counts [simp]: "bin_counts (map (rescore A) bs) = bin_counts bs"
  by (simp add: bin_counts_def rescore_def)

lemma compute_scores_holds:
  assumes laws: "score_laws A" and env: "benign env" and target: "target_bins target bs" "bs \<noteq> []"
    and w: "holds_weights flt (weights bs)" and unit: "\<forall>w \<in> set (weights bs). unit_interval A w"
    and slot: "slot_ok (last_scores flt)" and room: "size (samples bs) < 2 ^ 59"
  shows "\<exists>d. compute_scores A env flt target = Inr (flt\<lparr>last_scores := \<lparr>recyclable = d, is_built = True\<rparr>\<rparr>) \<and>
    dist_holds d (samples (map (rescore A) bs))"
proof -
  have st: "stores (inner target) (bin_values bs) (bin_counts bs)" and wb: "well_binned (bin_values bs) (bin_counts bs)"
    using target by (simp_all add: target_bins_def)
  obtain vs cs where d: "distribution_layout (inner target) = Inr (map Some (bin_values bs) @ vs, map Some (bin_counts bs) @ cs)"
    "num_bins (inner target) = length bs" using st by (rule storesE) simp
  have pos: "\<forall>n \<in> set (bin_counts bs). 0 < n" using wb by (simp add: well_binned_def)
  obtain b' where b': "scores_loop A env flt (map Some (bin_values bs) @ vs, map Some (bin_counts bs) @ cs) (length bs) 0
      (recycle_builder (last_scores flt)) = Inr b'" "builder_holds b' (samples (map (rescore A) bs))"
    using scores_loop_holds [OF laws env, of flt "[]" bs "{#}" "recycle_builder (last_scores flt)" "[]"
        "map Some (bin_values bs) @ vs" cs] w unit pos room slot_recycled [OF slot] by auto
  have size: "size (samples (map (rescore A) bs)) = size (samples bs)" by (simp add: size_samples)
  have "0 < size (samples bs)" using samples_empty_iff [OF wb] target(2) by (simp add: nonempty_has_size)
  then obtain e where "distribution_build b' = Inr (e, b'\<lparr>inner := distribution_poison\<rparr>)"
      "dist_holds e (samples (map (rescore A) bs))"
    using build_holds [OF b'(2)] room size by (auto simp flip: size_eq_0_iff_empty)
  moreover have "length bs \<le> bin_capacity flt" using w by (simp add: holds_weights_def)
  ultimately show ?thesis using d b'(1) by (intro exI [of _ e]) (simp add: compute_scores_def)
qed

section \<open>The threshold\<close>

lemma samples_up_to:
  assumes "well_binned vals nums" and "i < length vals"
  shows "size (filter_mset (\<lambda>s. s \<le> vals ! i) (mset (contents vals nums))) = sum_list (take (Suc i) nums)"
proof -
  have sorted: "sorted_wrt (<) vals" using assms(1) by (simp add: well_binned_def)
  have "bins_below vals (vals ! i) = i"
    by (rule bins_below_eqI [OF sorted]) (use assms(2) sorted in \<open>auto simp: sorted_wrt_iff_nth_less le_less\<close>)
  then have "bins_below vals (vals ! i + 1) = Suc i" using bins_below_Suc [OF sorted] assms(2) by simp
  moreover have "(\<lambda>s. s \<le> vals ! i) = (\<lambda>s. s < vals ! i + 1)" by auto
  ultimately show ?thesis using length_filter_contents [OF assms(1), of "vals ! i + 1"] by (simp flip: size_mset mset_filter)
qed

lemma threshold_result:
  assumes laws: "score_laws A" and built: "last_scores flt = \<lparr>recyclable = d, is_built = True\<rparr>"
    and d: "dist_holds d S" and scored: "\<forall>s \<in># S. \<exists>w. unit_interval A w \<and> s = score_of A w"
  shows "\<exists>t P. compute_weight_threshold A flt = Inr t \<and>
    (\<forall>w. unit_interval A w \<and> d_less A (d_zero A) w \<and> \<not> d_less A t w \<longrightarrow> P (score_of A w)) \<and>
    size (filter_mset P S) \<le> max_outliers A (size S)"
proof -
  obtain vals nums where bins: "dist_bins d vals nums" and S: "S = mset (contents vals nums)"
    using d by (auto simp: dist_holds_def)
  obtain vs cs where l: "distribution_layout d = Inr (map Some vals @ vs, map Some (sums 0 nums) @ cs)"
    "num_bins d = length vals" "length nums = length vals" "0 < length vals" "sorted_wrt (<) vals"
    using bins by (rule dist_binsE) blast
  have wb: "well_binned vals nums" and st: "stores d vals (sums 0 nums)" using bins by (simp_all add: dist_bins_def)
  have upto_i: "size (filter_mset (\<lambda>s. s \<le> vals ! i) S) = sum_list (take (Suc i) nums)" if "i < length vals" for i
    unfolding S by (rule samples_up_to [OF wb that])
  have size: "size S = sum_list nums" using l(3) by (simp add: S length_contents)
  have mem_S: "vals ! i \<in># S" if "i < length vals" for i using set_contents [OF wb] that by (simp add: S)
  have len: "distribution_len d = Inr (size S)" using len_result [OF bins] size by simp
  define out where "out = score_of A (OUTLIER_THRESHOLD A)"
  have const_laws: "unit_interval A (OUTLIER_THRESHOLD A)"
    "d_less A (d_zero A) (OUTLIER_THRESHOLD A)" "d_less A (OUTLIER_THRESHOLD A) (d_one A)"
    "d_less A (d_zero A) (MAX_OUTLIER_FRACTION A)" "d_less A (MAX_OUTLIER_FRACTION A) (d_one A)"
    using laws by (simp_all add: score_laws_def)
  have mono: "score_of A w \<le> out" if "unit_interval A w" "\<not> d_less A (OUTLIER_THRESHOLD A) w" for w
    using laws that const_laws(1) unfolding score_laws_def out_def by blast
  have inverse_score: "\<exists>t. score_to_rel_weight A (vals ! i) = Inr t \<and> unit_interval A t \<and>
      (\<forall>w. unit_interval A w \<and> \<not> d_less A t w \<longrightarrow> score_of A w \<le> vals ! i) \<and> vals ! i \<le> 0" if "i < length vals" for i
    using laws scored mem_S [OF that] score_law(2) [OF laws] unfolding score_laws_def by metis
  let ?cap = "max_outliers A (size S)"
  note start = compute_weight_threshold_def const_laws score_law [OF laws const_laws(1)] built l(1) len
  consider (none) "distribution_bin_by_value d out BIN_BELOW = Inr PTRDIFF_MIN"
    | (some) i where "i < length vals" "distribution_bin_by_value d out BIN_BELOW = Inr (int i)"
        "vals ! i \<le> out" "\<forall>j < length vals. i < j \<longrightarrow> out < vals ! j"
    using bin_below_bounds [OF st l(5), of out] by blast
  then show ?thesis
  proof cases
    case none
    then have "compute_weight_threshold A flt = Inr (d_zero A)" by (simp add: start flip: out_def)
    then show ?thesis by (intro exI [of _ "d_zero A"] exI [of _ "\<lambda>_. False"]) auto
  next
    case some
    have cell: "read_cell (map Some (sums 0 nums) @ cs) i = Inr (sum_list (take (Suc i) nums))" if "i < length vals" for i
      using that l(3) by (simp add: cell_simps sums_nth)
    show ?thesis
    proof (cases "sum_list (take (Suc i) nums) \<le> ?cap")
      case True
      have pos: "int i \<noteq> PTRDIFF_MIN" by (simp add: PTRDIFF_MIN_def)
      have "compute_weight_threshold A flt = Inr (OUTLIER_THRESHOLD A)"
        using some(1,2) True pos cell [OF some(1)] inverse_score [OF some(1)]
        by (auto simp: start cell_simps simp flip: out_def)
      moreover have "filter_mset (\<lambda>s. s \<le> out) S = filter_mset (\<lambda>s. s \<le> vals ! i) S"
      proof (rule filter_mset_cong [OF refl])
        fix s assume "s \<in># S"
        then obtain j where j: "j < length vals" "s = vals ! j" using set_contents [OF wb] by (auto simp: S in_set_conv_nth)
        show "s \<le> out \<longleftrightarrow> s \<le> vals ! i"
        proof (cases "j \<le> i")
          case True
          then have "vals ! j \<le> vals ! i"
            using l(5) some(1) by (cases "j = i") (auto simp: sorted_wrt_iff_nth_less less_imp_le)
          then show ?thesis using j some(3) by simp
        next
          case False
          then show ?thesis using j some(3,4) by force
        qed
      qed
      ultimately show ?thesis
        using True mono upto_i [OF some(1)] by (intro exI [of _ "OUTLIER_THRESHOLD A"] exI [of _ "\<lambda>s. s \<le> out"]) auto
    next
      case False
      have "sum_list (take (Suc i) nums) \<le> sum_list nums"
        using sum_list_append [of "take (Suc i) nums" "drop (Suc i) nums"] by (simp del: sum_list_append)
      then have "?cap < sum_list nums" using False by simp
      then obtain k where k: "k < length vals" "distribution_bin_by_rank d ?cap = Inr k"
          "sum_list (take k nums) \<le> ?cap" "?cap < sum_list (take (Suc k) nums)"
        using bin_by_rank_result [OF bins] by blast
      have pos: "int i \<noteq> PTRDIFF_MIN" by (simp add: PTRDIFF_MIN_def)
      show ?thesis
      proof (cases "k = 0")
        case True
        then have "compute_weight_threshold A flt = Inr (d_zero A)"
          using some(1,2) False pos cell [OF some(1)] cell [OF k(1)] k by (simp add: start flip: out_def)
        then show ?thesis by (intro exI [of _ "d_zero A"] exI [of _ "\<lambda>_. False"]) auto
      next
        case kpos: False
        then obtain j where j: "k = Suc j" "j < length vals" using k(1) by (cases k) auto
        obtain t where t: "score_to_rel_weight A (vals ! j) = Inr t" "unit_interval A t"
            "\<forall>w. unit_interval A w \<and> \<not> d_less A t w \<longrightarrow> score_of A w \<le> vals ! j" "vals ! j \<le> 0"
          using inverse_score [OF j(2)] by blast
        have "compute_weight_threshold A flt = Inr t"
          using some(1,2) False pos cell [OF some(1)] cell [OF k(1)] cell [OF j(2)] k j t
          by (simp add: start cell_simps unit_interval_def flip: out_def)
        then show ?thesis
          using t(3) k(3) j(1) upto_i [OF j(2)] by (intro exI [of _ t] exI [of _ "\<lambda>s. s \<le> vals ! j"]) auto
      qed
    qed
  qed
qed

section \<open>The relative weights\<close>

text \<open>Reference definition of the weights: the weight of a bin is made of its relative count and of those
  of its neighbours, which decay with the distance; all weights are divided by the largest one.\<close>

definition rel_count :: "'d arith \<Rightarrow> 'd \<Rightarrow> nat \<Rightarrow> 'd" where
  "rel_count A count_norm n = d_mul A count_norm (of_unsigned A n)"

definition self_part :: "'d arith \<Rightarrow> 'd \<Rightarrow> 'd \<Rightarrow> 'd \<Rightarrow> 'd" where
  "self_part A prev_count prev_distance current_count =
     d_add A (d_mul A (d_div A (NEIGHBOR_CONTRIBUTION A) (literal A 2 1)) (neighbor_weight A prev_count prev_distance))
             (d_mul A (d_sub A (d_one A) (NEIGHBOR_CONTRIBUTION A)) current_count)"

fun raw_weights :: "'d arith \<Rightarrow> 'd \<Rightarrow> 'd \<Rightarrow> 'd \<Rightarrow> 'd \<Rightarrow> int \<Rightarrow> nat \<Rightarrow> (int \<times> nat) list \<Rightarrow> 'd list" where
  "raw_weights A cn dn prev_count prev_distance v n [] = [self_part A prev_count prev_distance (rel_count A cn n)]"
| "raw_weights A cn dn prev_count prev_distance v n ((v', n') # bs) =
     (let distance = d_mul A dn (of_unsigned A (nat (v' - v)))
      in d_add A (self_part A prev_count prev_distance (rel_count A cn n))
           (d_mul A (d_div A (NEIGHBOR_CONTRIBUTION A) (literal A 2 1))
              (neighbor_weight A (rel_count A cn n') distance))
         # raw_weights A cn dn (rel_count A cn n) distance v' n' bs)"

definition greatest :: "'d arith \<Rightarrow> 'd list \<Rightarrow> 'd" where
  "greatest A ws = fold (\<lambda>w m. if d_less A m w then w else m) ws (minus_infinity A)"

fun rel_weights :: "'d arith \<Rightarrow> int list \<Rightarrow> nat list \<Rightarrow> 'd list" where
  "rel_weights A (v # v' # vals) (n # n' # nums) =
     (let cn = d_div A (d_one A) (of_unsigned A (fold max (n # n' # nums) 0));
          dn = d_div A (d_one A) (of_unsigned A (nat (v' - v)));
          raw = raw_weights A cn dn (d_zero A) (d_mul A dn (of_unsigned A UINT64_MAX)) v n (zip (v' # vals) (n' # nums))
      in map (\<lambda>w. d_mul A w (d_div A (d_one A) (greatest A raw))) raw)"
| "rel_weights A _ _ = [d_one A]"

lemma length_raw_weights [simp]: "length (raw_weights A cn dn pc pd v n bs) = Suc (length bs)"
  by (induction bs arbitrary: pc pd v n) (auto simp: Let_def)

lemma max_count_loop_exact:
  assumes "\<forall>n \<in> set nums. 0 < n"
  shows "max_count_loop (length nums) (length pre) m (map Some (pre @ nums) @ r) = Inr (fold max nums m)"
  using assms
proof (induction nums arbitrary: pre m)
  case (Cons n nums)
  have read: "read_cell (map Some (pre @ n # nums) @ r) (length pre) = Inr n" by (simp add: read_cell_def nth_append)
  have "max_count_loop (length nums) (length (pre @ [n])) (max n m) (map Some ((pre @ [n]) @ nums) @ r) =
      Inr (fold max nums (max n m))" using Cons by (intro Cons.IH) simp
  moreover have larger: "(if m < n then n else m) = max n m" by simp
  ultimately show ?case using read Cons.prems by (simp add: larger)
qed simp

lemma write_weight_next:
  assumes "bin_weights flt = Some (map Some ws @ r)" and "r \<noteq> []" and "i = length ws"
  shows "write_weight flt i w = Inr (flt\<lparr>bin_weights := Some (map Some (ws @ [w]) @ tl r)\<rparr>)"
  using assms by (simp add: write_weight_def cell_simps)

lemma weights_loop_result:
  assumes "\<forall>b \<in> set bs. 0 < snd b" and "sorted_wrt (<) (v # map fst bs)"
    and "\<forall>x \<in> set (map fst bs). x - v \<le> INT64_MAX"
    and "bin_weights flt = Some (map Some ws @ r)" and "length bs < length r"
    and "length ws = length pre" and "length pre' = length pre"
    and "rel_current_count st = rel_count A cn n" and "current_value st = v"
  shows "\<exists>st'. weights_loop A (map Some (pre @ v # map fst bs) @ s1, map Some (pre' @ n # map snd bs) @ s2) cn dn
             (length bs) (Suc (length pre)) st flt =
           Inr (st', flt\<lparr>bin_weights := Some (map Some (ws @ butlast
             (raw_weights A cn dn (rel_prev_count st) (rel_prev_distance st) v n bs)) @ drop (length bs) r)\<rparr>) \<and>
           self_part A (rel_prev_count st') (rel_prev_distance st') (rel_current_count st') =
             last (raw_weights A cn dn (rel_prev_count st) (rel_prev_distance st) v n bs) \<and>
           max_weight st' = fold (\<lambda>w m. if d_less A m w then w else m)
             (butlast (raw_weights A cn dn (rel_prev_count st) (rel_prev_distance st) v n bs)) (max_weight st)"
  using assms
proof (induction bs arbitrary: v n pre pre' ws r flt st)
  case (Cons b bs)
  obtain v' n' where b: "b = (v', n')" by (cases b)
  let ?raw = "raw_weights A cn dn (rel_prev_count st) (rel_prev_distance st) v n (b # bs)"
  let ?d = "d_mul A dn (of_unsigned A (nat (v' - v)))"
  define w where "w = hd ?raw"
  let ?l = "(map Some (pre @ v # map fst (b # bs)) @ s1, map Some (pre' @ n # map snd (b # bs)) @ s2)"
  let ?st = "\<lparr>current_value = v', rel_current_count = rel_count A cn n', rel_prev_count = rel_count A cn n,
    rel_prev_distance = ?d, max_weight = (if d_less A (max_weight st) w then w else max_weight st)\<rparr>"
  let ?flt = "flt\<lparr>bin_weights := Some (map Some (ws @ [w]) @ tl r)\<rparr>"
  let ?tail = "raw_weights A cn dn (rel_count A cn n) ?d v' n' bs"
  have raw: "?raw = w # ?tail" by (simp add: b Let_def w_def)
  have reads: "read_cell (fst ?l) (Suc (length pre)) = Inr v'" "read_cell (snd ?l) (Suc (length pre)) = Inr n'"
    using Cons.prems(7) by (simp_all add: b read_cell_def nth_append)
  have range: "v < v'" "int64 (v' - v) = Inr (v' - v)"
    using Cons.prems(2,3) by (simp_all add: b int64_def INT64_MIN_def)
  have written: "write_weight flt (length pre) w = Inr ?flt"
    by (rule write_weight_next) (use Cons.prems(4-6) in auto)
  have step: "weights_loop A ?l cn dn (length (b # bs)) (Suc (length pre)) st flt =
      weights_loop A (map Some ((pre @ [v]) @ v' # map fst bs) @ s1, map Some ((pre' @ [n]) @ n' # map snd bs) @ s2) cn dn
        (length bs) (Suc (length (pre @ [v]))) ?st ?flt"
    using reads range written Cons.prems(8,9)
    by (simp add: b Let_def self_part_def rel_count_def w_def)
  have "\<exists>st'. weights_loop A (map Some ((pre @ [v]) @ v' # map fst bs) @ s1, map Some ((pre' @ [n]) @ n' # map snd bs) @ s2) cn dn
        (length bs) (Suc (length (pre @ [v]))) ?st ?flt =
      Inr (st', ?flt\<lparr>bin_weights := Some (map Some ((ws @ [w]) @ butlast
          (raw_weights A cn dn (rel_prev_count ?st) (rel_prev_distance ?st) v' n' bs)) @ drop (length bs) (tl r))\<rparr>) \<and>
      self_part A (rel_prev_count st') (rel_prev_distance st') (rel_current_count st') =
        last (raw_weights A cn dn (rel_prev_count ?st) (rel_prev_distance ?st) v' n' bs) \<and>
      max_weight st' = fold (\<lambda>w m. if d_less A m w then w else m)
        (butlast (raw_weights A cn dn (rel_prev_count ?st) (rel_prev_distance ?st) v' n' bs)) (max_weight ?st)"
    by (rule Cons.IH) (use Cons.prems in \<open>auto simp: b\<close>)
  moreover have "?tail \<noteq> []" using length_raw_weights by (metis length_0_conv nat.distinct(1))
  ultimately show ?case
    unfolding step raw by (simp add: drop_Suc)
qed auto

lemma normalize_loop_result:
  assumes "bin_weights flt = Some (map Some (done @ ws) @ r)"
  shows "normalize_loop A norm (length ws) (length done) flt =
           Inr (flt\<lparr>bin_weights := Some (map Some (done @ map (\<lambda>w. d_mul A w norm) ws) @ r)\<rparr>)"
  using assms
proof (induction ws arbitrary: "done" flt)
  case (Cons w ws)
  let ?flt = "flt\<lparr>bin_weights := Some (map Some ((done @ [d_mul A w norm]) @ ws) @ r)\<rparr>"
  have "read_weight flt (length done) = Inr w"
    using Cons.prems by (simp add: read_weight_def read_cell_def nth_append)
  moreover have "write_weight flt (length done) (d_mul A w norm) = Inr ?flt"
    using Cons.prems by (simp add: write_weight_def write_cell_def list_update_append)
  moreover have "normalize_loop A norm (length ws) (length (done @ [d_mul A w norm])) ?flt =
      Inr (?flt\<lparr>bin_weights := Some (map Some ((done @ [d_mul A w norm]) @ map (\<lambda>w. d_mul A w norm) ws) @ r)\<rparr>)"
    by (rule Cons.IH) simp
  ultimately show ?case by simp
qed simp

text \<open>A filter whose storage of weights has the recorded capacity.\<close>

definition weights_room :: "'d outlier_filter \<Rightarrow> bool" where
  "weights_room flt \<longleftrightarrow> (\<exists>cells. bin_weights flt = Some cells \<and> length cells = bin_capacity flt)"

lemma ensure_weights_room:
  assumes "weights_room flt" and "malloc_ok env (n * 8)"
  shows "\<exists>cells. bin_weights (ensure_weights env n flt) = Some cells \<and> n \<le> length cells \<and>
           length cells = bin_capacity (ensure_weights env n flt)"
  using assms by (auto simp: weights_room_def ensure_weights_def malloc_weights_def)

lemma ensure_weights_slots [simp]:
  "last_scores (ensure_weights env n flt) = last_scores flt"
  "last_rejections (ensure_weights env n flt) = last_rejections flt"
  by (simp_all add: ensure_weights_def)

lemma compute_rel_weights_result:
  assumes env: "\<And>n. malloc_ok env n" and room: "weights_room flt"
    and st: "stores (inner target) vals nums" and wb: "well_binned vals nums" and ne: "vals \<noteq> []"
    and range: "last vals - hd vals \<le> INT64_MAX"
  shows "\<exists>flt'. compute_rel_weights A env flt target = Inr flt' \<and> holds_weights flt' (rel_weights A vals nums) \<and>
    weights_room flt' \<and> last_scores flt' = last_scores flt \<and> last_rejections flt' = last_rejections flt"
proof -
  define flt0 where "flt0 = ensure_weights env (length vals) flt"
  obtain cells where cells: "bin_weights flt0 = Some cells" "length vals \<le> length cells" "length cells = bin_capacity flt0"
    using ensure_weights_room [OF room env] unfolding flt0_def by blast
  have slots: "last_scores flt0 = last_scores flt" "last_rejections flt0 = last_rejections flt" by (simp_all add: flt0_def)
  obtain s1 s2 where d: "distribution_layout (inner target) = Inr (map Some vals @ s1, map Some nums @ s2)"
    "length nums = length vals" "num_bins (inner target) = length vals"
    using st by (rule storesE) simp
  have sorted: "sorted_wrt (<) vals" and pos: "\<forall>n \<in> set nums. 0 < n" using wb by (simp_all add: well_binned_def)
  obtain v vs n ns where vn: "vals = v # vs" "nums = n # ns" using ne d(2) by (cases vals; cases nums) auto
  show ?thesis
  proof (cases vs)
    case Nil
    then have "ns = []" using d(2) vn by simp
    have "write_weight flt0 0 (d_one A) = Inr (flt0\<lparr>bin_weights := Some (map Some ([] @ [d_one A]) @ tl cells)\<rparr>)"
      by (rule write_weight_next) (use cells vn in auto)
    moreover have "compute_rel_weights A env flt target = write_weight flt0 0 (d_one A)"
      using d vn Nil cells by (simp add: compute_rel_weights_def flt0_def Let_def)
    ultimately show ?thesis
      using cells vn Nil \<open>ns = []\<close> slots by (auto simp: holds_weights_def weights_room_def)
  next
    case (Cons v' vs')
    then obtain n' ns' where ns: "ns = n' # ns'" using d(2) vn by (cases ns) auto
    let ?bs = "zip vs ns"
    have bs: "map fst ?bs = vs" "map snd ?bs = ns" "length ?bs = length vs" using d(2) vn by simp_all
    define cn where "cn = d_div A (d_one A) (of_unsigned A (fold max nums 0))"
    define dn where "dn = d_div A (d_one A) (of_unsigned A (nat (v' - v)))"
    define st0 where "st0 = \<lparr>current_value = v, rel_current_count = rel_count A cn n, rel_prev_count = d_zero A,
      rel_prev_distance = d_mul A dn (of_unsigned A UINT64_MAX), max_weight = minus_infinity A\<rparr>"
    define raw where "raw = raw_weights A cn dn (d_zero A) (d_mul A dn (of_unsigned A UINT64_MAX)) v n ?bs"
    have raw_len: "length raw = length vals" using bs vn by (simp add: raw_def)
    have max: "distribution_max_count target = Inr (fold max nums 0)"
      using max_count_loop_exact [OF pos, of "[]" 0 s2] d by (simp add: distribution_max_count_def)
    have min: "distribution_min_difference (inner target) = Inr (nat (v' - v))"
      using min_difference_result [OF st sorted range] vn Cons by simp
    have le_last: "x \<le> last vals" if "x \<in> set vals" for x
      using that sorted by (induction vals) (auto dest: less_imp_le)
    have bpos: "\<forall>b \<in> set ?bs. 0 < snd b" using pos vn(2) by (auto dest!: set_zip_rightD)
    have "x - v \<le> INT64_MAX" if "x \<in> set vs" for x using le_last [of x] that range vn by simp
    then obtain st1 where loop: "weights_loop A (map Some vals @ s1, map Some nums @ s2) cn dn (length vs) 1 st0 flt0 =
        Inr (st1, flt0\<lparr>bin_weights := Some (map Some (butlast raw) @ drop (length vs) cells)\<rparr>)"
        "self_part A (rel_prev_count st1) (rel_prev_distance st1) (rel_current_count st1) = last raw"
        "max_weight st1 = fold (\<lambda>w m. if d_less A m w then w else m) (butlast raw) (minus_infinity A)"
      using weights_loop_result [of ?bs v flt0 "[]" cells "[]" "[]" st0 A cn n s1 s2 dn] bs bpos sorted vn cells
      by (auto simp: st0_def raw_def)
    let ?flt1 = "flt0\<lparr>bin_weights := Some (map Some raw @ tl (drop (length vs) cells))\<rparr>"
    have "raw \<noteq> []" using raw_len vn by auto
    have "length (butlast raw) = length vs" using raw_len vn by simp
    then have last: "write_weight (flt0\<lparr>bin_weights := Some (map Some (butlast raw) @ drop (length vs) cells)\<rparr>)
        (length vals - 1) (last raw) = Inr ?flt1"
      using write_weight_next [of "flt0\<lparr>bin_weights := Some (map Some (butlast raw) @ drop (length vs) cells)\<rparr>"
          "butlast raw" "drop (length vs) cells" "length vals - 1" "last raw"] cells vn \<open>raw \<noteq> []\<close> by (simp del: map_append)
    have great: "(if d_less A (max_weight st1) (last raw) then last raw else max_weight st1) = greatest A raw"
      using loop(3) append_butlast_last_id [OF \<open>raw \<noteq> []\<close>] fold_append [of "\<lambda>w m. if d_less A m w then w else m" "butlast raw" "[last raw]"]
      by (simp add: greatest_def)
    let ?norm = "d_div A (d_one A) (greatest A raw)"
    have rel: "rel_weights A vals nums = map (\<lambda>w. d_mul A w ?norm) raw"
      by (simp add: vn Cons ns raw_def cn_def dn_def Let_def)
    have normal: "normalize_loop A ?norm (length vals) 0 ?flt1 =
        Inr (?flt1\<lparr>bin_weights := Some (map Some (rel_weights A vals nums) @ tl (drop (length vs) cells))\<rparr>)"
      using normalize_loop_result [of ?flt1 "[]" raw "tl (drop (length vs) cells)" A ?norm] raw_len
      by (simp add: rel)
    have reads: "read_cell (map Some vals @ s1) 0 = Inr v" "read_cell (map Some nums @ s2) 0 = Inr n"
      by (simp_all add: vn read_cell_def)
    have sizes: "length vals \<ge> 2" "length vals - 1 = length vs" using vn Cons by simp_all
    have "compute_rel_weights A env flt target =
        bindR (weights_loop A (map Some vals @ s1, map Some nums @ s2) cn dn (length vs) 1 st0 flt0) (\<lambda>(st, flt).
        bindR (write_weight flt (length vals - 1)
          (self_part A (rel_prev_count st) (rel_prev_distance st) (rel_current_count st))) (\<lambda>flt.
        normalize_loop A (d_div A (d_one A)
          (if d_less A (max_weight st) (self_part A (rel_prev_count st) (rel_prev_distance st) (rel_current_count st))
           then self_part A (rel_prev_count st) (rel_prev_distance st) (rel_current_count st) else max_weight st))
          (length vals) 0 flt))"
      unfolding compute_rel_weights_def d(1) max min Let_def self_part_def st0_def rel_count_def cn_def dn_def
        flt0_def d(3) sizes(2)
      using sizes(1) reads by simp
    then have "compute_rel_weights A env flt target = normalize_loop A ?norm (length vals) 0 ?flt1"
      unfolding loop(1) by (simp only: bindR_simps prod.case last loop(2) great)
    then show ?thesis
      unfolding normal using cells slots raw_len arg_cong [OF rel, of length] vn
      by (auto simp: holds_weights_def weights_room_def)
  qed
qed

section \<open>The whole filter\<close>

text \<open>The hypotheses of the filter: the arithmetic has the laws above, allocations succeed, the storage of
  weights and both slots are as an earlier call or the initialization leaves them, and the relative weights
  of the bins are positive and at most one.\<close>

definition filter_ready :: "'d outlier_filter \<Rightarrow> bool" where
  "filter_ready flt \<longleftrightarrow> weights_room flt \<and> slot_ok (last_scores flt) \<and> slot_ok (last_rejections flt)"

definition weighable :: "'d arith \<Rightarrow> int list \<Rightarrow> nat list \<Rightarrow> bool" where
  "weighable A vals nums \<longleftrightarrow> well_binned vals nums \<and> vals \<noteq> [] \<and> last vals - hd vals \<le> INT64_MAX \<and>
     sum_list nums < 2 ^ 59 \<and> (\<forall>w \<in> set (rel_weights A vals nums). unit_interval A w \<and> d_less A (d_zero A) w)"

lemma length_rel_weights:
  "length nums = length vals \<Longrightarrow> vals \<noteq> [] \<Longrightarrow> length (rel_weights A vals nums) = length vals"
  by (induction A vals nums rule: rel_weights.induct) (auto simp: Let_def Suc_le_eq split: list.splits)

definition bins_of :: "'d arith \<Rightarrow> int list \<Rightarrow> nat list \<Rightarrow> 'd bin list" where
  "bins_of A vals nums = zip vals (zip nums (rel_weights A vals nums))"

lemma bins_of_lists:
  assumes "length nums = length vals" and "vals \<noteq> []"
  shows "bin_values (bins_of A vals nums) = vals" and "bin_counts (bins_of A vals nums) = nums"
    and "weights (bins_of A vals nums) = rel_weights A vals nums"
proof -
  have eq: "(\<lambda>b. fst (snd b)) = fst \<circ> snd" "(\<lambda>b. snd (snd b)) = snd \<circ> snd" by auto
  show "bin_values (bins_of A vals nums) = vals" "bin_counts (bins_of A vals nums) = nums"
    "weights (bins_of A vals nums) = rel_weights A vals nums"
    using assms length_rel_weights [OF assms, of A]
    by (simp_all add: bin_lists bins_of_def eq flip: map_map)
qed

lemma filter_replicate: "filter_mset P (replicate_mset n x) = (if P x then replicate_mset n x else {#})"
  by (induction n) auto

lemma rescored_size:
  assumes "\<forall>b \<in> set bs. Q b \<longrightarrow> P (score_of A (snd (snd b)))"
  shows "size (samples (filter Q bs)) \<le> size (filter_mset P (samples (map (rescore A) bs)))"
  using assms
proof (induction bs)
  case (Cons b bs)
  then show ?case by (cases b) (auto simp: rescore_def filter_replicate)
qed simp

lemma rescored_member:
  assumes "s \<in># samples (map (rescore A) bs)"
  shows "\<exists>b \<in> set bs. s = score_of A (snd (snd b))"
  using assms
proof (induction bs)
  case (Cons b bs)
  then show ?case by (cases b) (auto simp: rescore_def split: if_splits)
qed simp

lemma outlier_filter_apply_result:
  assumes laws: "score_laws A" and env: "benign env" and ready: "filter_ready flt"
    and st: "stores (inner target) vals nums" and ok: "weighable A vals nums"
  shows "\<exists>t flt' target'. outlier_filter_apply A env flt target = Inr (flt', target') \<and> filter_ready flt' \<and>
    is_built (last_scores flt') \<and> dist_holds (recyclable (last_scores flt')) (samples (map (rescore A) (bins_of A vals nums))) \<and>
    target_bins target' (filter (\<lambda>b. d_less A t (snd (snd b))) (bins_of A vals nums)) \<and>
    (let rejected = filter (\<lambda>b. \<not> d_less A t (snd (snd b))) (bins_of A vals nums)
     in size (samples rejected) \<le> max_outliers A (sum_list nums) \<and>
        (if rejected = [] then is_built (last_rejections flt') = is_built (last_rejections flt) \<and>
           builder_holds \<lparr>inner = recyclable (last_rejections flt')\<rparr> {#}
         else is_built (last_rejections flt') \<and> dist_holds (recyclable (last_rejections flt')) (samples rejected)))"
proof -
  let ?bs = "bins_of A vals nums"
  have wb: "well_binned vals nums" and ne: "vals \<noteq> []" and range: "last vals - hd vals \<le> INT64_MAX"
    and room: "sum_list nums < 2 ^ 59"
    and unit: "\<And>w. w \<in> set (rel_weights A vals nums) \<Longrightarrow> unit_interval A w \<and> d_less A (d_zero A) w"
    using ok by (auto simp: weighable_def)
  have len: "length nums = length vals" using wb by (simp add: well_binned_def)
  note lists = bins_of_lists [OF len ne, of A]
  have target: "target_bins target ?bs" "?bs \<noteq> []" using st wb lists ne by (auto simp: target_bins_def)
  have weights: "unit_interval A (snd (snd b)) \<and> d_less A (d_zero A) (snd (snd b))" if "b \<in> set ?bs" for b
  proof -
    have "snd (snd b) \<in> set (weights ?bs)" using that by (simp add: weights_def)
    then show ?thesis using unit lists(3) by simp
  qed
  have nonempty: "\<not> distribution_empty target"
    using st ne by (auto simp: distribution_empty_def elim: storesE)
  obtain flt1 where f1: "compute_rel_weights A env flt target = Inr flt1" "holds_weights flt1 (weights ?bs)"
      "last_scores flt1 = last_scores flt" "last_rejections flt1 = last_rejections flt" "weights_room flt1"
    using compute_rel_weights_result [OF _ _ st wb ne range] ready env unfolding filter_ready_def benign_def lists by blast
  obtain d where f2: "compute_scores A env flt1 target = Inr (flt1\<lparr>last_scores := \<lparr>recyclable = d, is_built = True\<rparr>\<rparr>)"
      "dist_holds d (samples (map (rescore A) ?bs))"
    using compute_scores_holds [OF laws env target f1(2)] weights ready f1(3) room lists
    by (auto simp: filter_ready_def size_samples weights_def)
  let ?flt2 = "flt1\<lparr>last_scores := \<lparr>recyclable = d, is_built = True\<rparr>\<rparr>"
  have scored: "\<forall>s \<in># samples (map (rescore A) ?bs). \<exists>w. unit_interval A w \<and> s = score_of A w"
    using rescored_member weights by blast
  obtain t P where t: "compute_weight_threshold A ?flt2 = Inr t"
      "\<forall>w. unit_interval A w \<and> d_less A (d_zero A) w \<and> \<not> d_less A t w \<longrightarrow> P (score_of A w)"
      "size (filter_mset P (samples (map (rescore A) ?bs))) \<le> max_outliers A (size (samples (map (rescore A) ?bs)))"
    using threshold_result [OF laws _ f2(2) scored, of ?flt2] by auto
  let ?rejected = "filter (\<lambda>b. \<not> d_less A t (snd (snd b))) ?bs"
  have "size (samples ?rejected) \<le> size (filter_mset P (samples (map (rescore A) ?bs)))"
    by (rule rescored_size) (use weights t(2) in blast)
  then have few: "size (samples ?rejected) \<le> max_outliers A (sum_list nums)"
    using t(3) lists by (simp add: size_samples)
  obtain slot' target' where r: "reject_bins A env ?flt2 target t = Inr (?flt2\<lparr>last_rejections := slot'\<rparr>, target')"
      "target_bins target' (filter (\<lambda>b. d_less A t (snd (snd b))) ?bs)"
      "if ?rejected = [] then is_built slot' = is_built (last_rejections flt1) \<and> builder_holds \<lparr>inner = recyclable slot'\<rparr> {#}
       else is_built slot' \<and> dist_holds (recyclable slot') (samples ?rejected)"
    using reject_bins_holds [OF env target(1), of ?flt2 ?rejected A t] f1(2,4) ready room lists
    by (auto simp: filter_ready_def size_samples holds_weights_def)
  have "slot_ok slot'" using r(3) slot_built slot_empty by (metis (no_types, lifting))
  moreover have "slot_ok \<lparr>recyclable = d, is_built = True\<rparr>" by (rule slot_built [of _ "samples (map (rescore A) ?bs)"]) (simp_all add: f2(2))
  ultimately have ready': "filter_ready (?flt2\<lparr>last_rejections := slot'\<rparr>)"
    using f1(5) by (simp add: filter_ready_def weights_room_def)
  have "outlier_filter_apply A env flt target = Inr (?flt2\<lparr>last_rejections := slot'\<rparr>, target')"
    using nonempty f1(1) f2(1) t(1) r(1) by (simp add: outlier_filter_apply_def)
  then show ?thesis
    using r(2,3) few f1(4) ready' f2(2) unfolding Let_def
    by (intro exI [of _ t] exI [of _ "?flt2\<lparr>last_rejections := slot'\<rparr>"] exI [of _ target']) (auto split: if_splits)
qed

lemma outlier_filter_initialize_ready:
  assumes "16 \<le> psize" and "psize < 2 ^ 64" and "\<And>n. malloc_ok env n"
  shows "\<exists>flt :: 'd outlier_filter. outlier_filter_initialize env psize = Inr flt \<and> filter_ready flt \<and>
    outlier_filter_last_rejections flt = None"
proof -
  obtain b where "distribution_initialize env psize = Inr b" "builder_holds b {#}"
    using initialize_holds [OF assms] by blast
  then show ?thesis
    by (auto simp: outlier_filter_initialize_def malloc_weights_def assms(3) filter_ready_def weights_room_def
        slot_ok_def recycle_builder_def outlier_filter_last_rejections_def Let_def empty_builder_stores)
qed

text \<open>Fixed point numbers with three digits in place of doubles, with a linear function in place of the
  logarithm: an arithmetic with the laws of scores that evaluates.\<close>

definition fixed_point :: "int arith" where
  "fixed_point = \<lparr>literal = (\<lambda>n d. 1000 * int n div int d), minus_infinity = - 1000000,
     of_unsigned = (\<lambda>n. 1000 * int n), of_signed = (\<lambda>s. 1000 * s),
     to_unsigned = (\<lambda>x. nat (x div 1000)), to_signed = (\<lambda>x. x div 1000),
     d_less = (<), d_le = (\<le>), d_add = (+), d_sub = (-),
     d_mul = (\<lambda>x y. x * y div 1000), d_div = (\<lambda>x y. 1000 * x div y), d_neg = uminus,
     d_pow = (\<lambda>x _. 1000000000 div (x * x)), d_log2 = (\<lambda>w. w - 1000), d_exp2 = (\<lambda>x. x + 1000),
     d_round = (\<lambda>x. (x + 500) div 1000 * 1000), d_floor = (\<lambda>x. x div 1000 * 1000), d_fmax = max\<rparr>"

lemma fixed_point_ops:
  "literal fixed_point n d = 1000 * int n div int d" "minus_infinity fixed_point = - 1000000"
  "of_unsigned fixed_point n = 1000 * int n" "d_less fixed_point = (<)" "d_add fixed_point = (+)"
  "d_sub fixed_point = (-)" "d_mul fixed_point x y = x * y div 1000" "d_div fixed_point x y = 1000 * x div y"
  "d_pow fixed_point x y = 1000000000 div (x * x)"
  by (simp_all add: fixed_point_def)

lemma fixed_point_scores:
  assumes "0 \<le> w" and "w \<le> 1000"
  shows "rel_weight_to_score fixed_point w = Inr (w - 1000)"
    and "score_to_rel_weight fixed_point (w - 1000) = Inr w"
proof -
  have "(1000 * w - 999500) div 1000 = (500 + (w - 1000) * 1000) div 1000" by (simp add: algebra_simps)
  also have "\<dots> = w - 1000" by (subst div_mult_self1) simp_all
  finally have rounded: "(1000 * w - 999500) div 1000 = w - 1000" .
  then show "rel_weight_to_score fixed_point w = Inr (w - 1000)" "score_to_rel_weight fixed_point (w - 1000) = Inr w"
    using assms
    by (simp_all add: rel_weight_to_score_def score_to_rel_weight_def fixed_point_def unit_interval_def d_zero_def
      d_one_def LOG2_SCALE_def INT64_MIN_def)
qed

lemma fixed_point_laws: "score_laws fixed_point"
proof -
  have unit: "unit_interval fixed_point w \<longleftrightarrow> 0 \<le> w \<and> w \<le> 1000" for w
    by (simp add: unit_interval_def fixed_point_def d_zero_def d_one_def)
  have less: "d_less fixed_point = (<)" by (simp add: fixed_point_def)
  have score: "score_of fixed_point w = w - 1000" if "0 \<le> w" "w \<le> 1000" for w
    using fixed_point_scores [OF that] by (simp add: score_of_def)
  have constants: "OUTLIER_THRESHOLD fixed_point = 20" "MAX_OUTLIER_FRACTION fixed_point = 50"
    "d_zero fixed_point = 0" "d_one fixed_point = 1000"
    by (simp_all add: OUTLIER_THRESHOLD_def MAX_OUTLIER_FRACTION_def d_zero_def d_one_def fixed_point_def)
  show ?thesis
    unfolding score_laws_def unit less constants using fixed_point_scores score by auto
qed

text \<open>C10. The outlier filter splits the values of a histogram: it returns, with a threshold such that the
  histogram keeps the bins of greater relative weight and the distribution of rejections holds the others, no value
  is lost or invented, at most the tolerated fraction of the values is rejected, and the filter is ready for
  another call.\<close>

theorem outlier_filter_partitions:
  assumes "score_laws A" and "benign env" and "filter_ready flt" and "stores (inner target) vals nums"
    and "weighable A vals nums"
  shows "\<exists>threshold flt' target'. outlier_filter_apply A env flt target = Inr (flt', target') \<and> filter_ready flt' \<and>
    (let kept = filter (\<lambda>(_, _, w). d_less A threshold w) (bins_of A vals nums);
         rejected = filter (\<lambda>(_, _, w). \<not> d_less A threshold w) (bins_of A vals nums)
     in builder_holds target' (samples kept) \<and> samples kept + samples rejected = mset (contents vals nums) \<and>
        size (samples rejected) \<le> max_outliers A (sum_list nums) \<and>
        (rejected \<noteq> [] \<longrightarrow> (\<exists>d. outlier_filter_last_rejections flt' = Some d \<and> dist_holds d (samples rejected))))"
proof -
  have len: "length nums = length vals" "vals \<noteq> []" using assms(5) by (auto simp: weighable_def well_binned_def)
  have all: "samples (bins_of A vals nums) = mset (contents vals nums)"
    by (simp add: samples_def bins_of_lists [OF len])
  obtain t flt' target' where r: "outlier_filter_apply A env flt target = Inr (flt', target')" "filter_ready flt'"
      "target_bins target' (filter (\<lambda>b. d_less A t (snd (snd b))) (bins_of A vals nums))"
      "size (samples (filter (\<lambda>b. \<not> d_less A t (snd (snd b))) (bins_of A vals nums))) \<le> max_outliers A (sum_list nums)"
      "filter (\<lambda>b. \<not> d_less A t (snd (snd b))) (bins_of A vals nums) \<noteq> [] \<Longrightarrow> is_built (last_rejections flt') \<and>
        dist_holds (recyclable (last_rejections flt')) (samples (filter (\<lambda>b. \<not> d_less A t (snd (snd b))) (bins_of A vals nums)))"
    using outlier_filter_apply_result [OF assms] unfolding Let_def by (metis (no_types, lifting))
  show ?thesis
    using r target_holds [OF r(3)] samples_partition [of "\<lambda>b. d_less A t (snd (snd b))" "bins_of A vals nums"] all
    by (intro exI [of _ t] exI [of _ flt'] exI [of _ target'])
      (simp add: Let_def case_prod_unfold outlier_filter_last_rejections_def)
qed

definition noisy_builder :: distribution_builder where
  "noisy_builder = \<lparr>inner = \<lparr>allocation = Some ([Some 10, Some 11, Some 500, None], [Some 50, Some 49, Some 1, None]),
     num_bins = 3, capacity = 4\<rparr>\<rparr>"

definition fresh_filter :: "int outlier_filter" where
  "fresh_filter = \<lparr>bin_weights = Some [None, None], bin_capacity = 2,
     last_scores = \<lparr>recyclable = inner fresh_builder, is_built = False\<rparr>,
     last_rejections = \<lparr>recyclable = inner fresh_builder, is_built = False\<rparr>\<rparr>"

lemma noisy_builder_stores: "stores (inner noisy_builder) [10, 11, 500] [50, 49, 1]"
  by (simp add: noisy_builder_def stores_def DISTRIBUTION_BIN_SIZE_def)

lemma fresh_filter_ready: "filter_ready fresh_filter"
proof -
  have "slot_ok \<lparr>recyclable = inner fresh_builder, is_built = False\<rparr>"
    using fresh_builder_empty by (intro slot_empty) (simp add: empty_builder_stores)
  then show ?thesis by (simp add: fresh_filter_def filter_ready_def weights_room_def)
qed

lemma noisy_weights: "rel_weights fixed_point [10, 11, 500] [50, 49, 1] = [999, 985, 17]"
proof -
  have constants: "NEIGHBOR_CONTRIBUTION fixed_point = 250" "NEIGHBOR_DECAY fixed_point = 2000"
    "d_zero fixed_point = 0" "d_one fixed_point = 1000" "literal fixed_point 2 1 = 2000"
    by (simp_all add: NEIGHBOR_CONTRIBUTION_def NEIGHBOR_DECAY_def d_zero_def d_one_def fixed_point_ops)
  have count: "rel_count fixed_point 20 50 = 1000" "rel_count fixed_point 20 49 = 980" "rel_count fixed_point 20 (Suc 0) = 20"
    by (simp_all add: rel_count_def fixed_point_ops)
  have decay: "neighbor_weight fixed_point 0 (1000 * int UINT64_MAX) = 0" "neighbor_weight fixed_point 980 1000 = 980"
    "neighbor_weight fixed_point 1000 1000 = 1000" "neighbor_weight fixed_point 20 489000 = 0"
    "neighbor_weight fixed_point 980 489000 = 0"
    by (simp_all add: neighbor_weight_def fixed_point_ops)
  have self: "self_part fixed_point 0 (1000 * int UINT64_MAX) 1000 = 750" "self_part fixed_point 1000 1000 980 = 860"
    "self_part fixed_point 980 489000 20 = 15"
    unfolding self_part_def constants decay by (simp_all add: fixed_point_ops)
  have raw: "raw_weights fixed_point 20 1000 0 (1000 * int UINT64_MAX) 10 50 [(11, 49), (500, 1)] = [872, 860, 15]"
    by (simp add: Let_def constants count decay self fixed_point_ops)
  have norms: "d_div fixed_point 1000 (of_unsigned fixed_point (fold max [50, 49, 1] 0)) = 20"
    "d_div fixed_point 1000 (of_unsigned fixed_point (nat (11 - 10))) = 1000"
    "d_mul fixed_point 1000 (of_unsigned fixed_point UINT64_MAX) = 1000 * int UINT64_MAX"
    by (simp_all add: fixed_point_ops)
  have top: "greatest fixed_point [872, 860, 15] = 872" by (simp add: greatest_def fixed_point_ops)
  show ?thesis
    unfolding rel_weights.simps Let_def constants norms zip_Cons_Cons zip_Nil raw top by (simp add: fixed_point_ops)
qed

lemma noisy_weighable: "weighable fixed_point [10, 11, 500] [50, 49, 1]"
  unfolding weighable_def noisy_weights
  by (simp add: well_binned_def INT64_MAX_def unit_interval_def d_zero_def d_one_def fixed_point_def)

theorem outlier_filter_partitions_witness:
  "\<exists>(threshold :: int) flt' target'. outlier_filter_apply fixed_point example_env fresh_filter noisy_builder = Inr (flt', target') \<and>
     filter_ready flt' \<and>
     builder_holds target' (samples (filter (\<lambda>(_, _, w). threshold < w) [(10, 50, 999), (11, 49, 985), (500, 1, 17)])) \<and>
     size (samples (filter (\<lambda>(_, _, w). \<not> threshold < w) [(10, 50, 999), (11, 49, 985), (500, 1, 17)])) \<le> 5"
proof -
  have bins: "bins_of fixed_point [10, 11, 500] [50, 49, 1] = [(10, 50, 999), (11, 49, 985), (500, 1, 17)]"
    unfolding bins_of_def noisy_weights by simp
  have most: "max_outliers fixed_point (sum_list [50, 49, 1]) = 5"
    by (simp add: max_outliers_def MAX_OUTLIER_FRACTION_def fixed_point_def)
  have less: "d_less fixed_point = (<)" by (simp add: fixed_point_def)
  show ?thesis
    using outlier_filter_partitions [OF fixed_point_laws example_env_benign fresh_filter_ready noisy_builder_stores
        noisy_weighable]
    unfolding bins most less Let_def by blast
qed

text \<open>C38. Once a call has rejected values, a later call that rejects none leaves the flag set over the emptied
  builder: the accessor of the last rejections then returns a distribution without bins, which the queries on distributions
  refuse, instead of a null pointer.  Calls on fewer values than it takes to tolerate one outlier are such calls.\<close>

theorem outlier_filter_stale_rejections:
  assumes "score_laws A" and "benign env" and "filter_ready flt" and "stores (inner target) vals nums"
    and "weighable A vals nums" and "is_built (last_rejections flt)"
  shows "\<exists>flt' target'. outlier_filter_apply A env flt target = Inr (flt', target') \<and>
    (num_bins (inner target') = num_bins (inner target) \<longrightarrow>
       (\<exists>d. outlier_filter_last_rejections flt' = Some d \<and> num_bins d = 0 \<and> distribution_len d = Inl AssertFailed)) \<and>
    (max_outliers A (sum_list nums) = 0 \<longrightarrow> num_bins (inner target') = num_bins (inner target))"
proof -
  let ?bs = "bins_of A vals nums"
  have len: "length nums = length vals" "vals \<noteq> []" "well_binned vals nums"
    using assms(5) by (auto simp: weighable_def well_binned_def)
  note lists = bins_of_lists [OF len(1,2), of A]
  obtain t flt' target' where r: "outlier_filter_apply A env flt target = Inr (flt', target')"
      "target_bins target' (filter (\<lambda>b. d_less A t (snd (snd b))) ?bs)"
      "size (samples (filter (\<lambda>b. \<not> d_less A t (snd (snd b))) ?bs)) \<le> max_outliers A (sum_list nums)"
      "filter (\<lambda>b. \<not> d_less A t (snd (snd b))) ?bs = [] \<Longrightarrow> is_built (last_rejections flt') = is_built (last_rejections flt) \<and>
         builder_holds \<lparr>inner = recyclable (last_rejections flt')\<rparr> {#}"
    using outlier_filter_apply_result [OF assms(1-5)] unfolding Let_def by (metis (no_types, lifting))
  let ?kept = "filter (\<lambda>b. d_less A t (snd (snd b))) ?bs" and ?rejected = "filter (\<lambda>b. \<not> d_less A t (snd (snd b))) ?bs"
  have "length ?bs = length vals" using arg_cong [OF lists(1), of length] by simp
  then have count: "num_bins (inner target') = num_bins (inner target) \<longleftrightarrow> ?rejected = []"
    using r(2) assms(4) sum_length_filter_compl [of "\<lambda>b. d_less A t (snd (snd b))" ?bs]
    by (auto simp: target_bins_def stores_def simp flip: length_0_conv simp del: length_0_conv)
  have stale: "\<exists>d. outlier_filter_last_rejections flt' = Some d \<and> num_bins d = 0 \<and> distribution_len d = Inl AssertFailed"
    if "?rejected = []"
    using r(4) [OF that] assms(6)
    by (auto simp: outlier_filter_last_rejections_def empty_builder_stores stores_def distribution_len_def)
  have "?rejected = []" if "max_outliers A (sum_list nums) = 0"
  proof -
    have "well_binned (bin_values ?rejected) (bin_counts ?rejected)"
      by (rule well_binned_filter) (use len(3) lists in simp)
    then show ?thesis using r(3) that samples_empty_iff by auto
  qed
  then show ?thesis using r(1) count stale by (intro exI [of _ flt'] exI [of _ target']) simp
qed

definition used_filter :: "int outlier_filter" where
  "used_filter = fresh_filter\<lparr>last_rejections := \<lparr>recyclable = built_example, is_built = True\<rparr>\<rparr>"

definition constant_builder :: distribution_builder where
  "constant_builder = \<lparr>inner = \<lparr>allocation = Some ([Some 7], [Some 10]), num_bins = 1, capacity = 1\<rparr>\<rparr>"

theorem outlier_filter_stale_rejections_witness:
  "\<exists>flt' target' d. outlier_filter_apply fixed_point example_env used_filter constant_builder = Inr (flt', target') \<and>
     outlier_filter_last_rejections flt' = Some d \<and> distribution_len d = Inl AssertFailed"
proof -
  have "filter_ready used_filter"
    using fresh_filter_ready slot_built [of "\<lparr>recyclable = built_example, is_built = True\<rparr>", OF _ ] built_example_holds
    by (auto simp: filter_ready_def used_filter_def weights_room_def)
  moreover have "stores (inner constant_builder) [7] [10]"
    by (simp add: constant_builder_def stores_def DISTRIBUTION_BIN_SIZE_def)
  moreover have "weighable fixed_point [7] [10]"
    by (simp add: weighable_def well_binned_def INT64_MAX_def unit_interval_def d_zero_def d_one_def fixed_point_def)
  moreover have "max_outliers fixed_point (sum_list [10]) = 0"
    by (simp add: max_outliers_def MAX_OUTLIER_FRACTION_def fixed_point_def)
  ultimately show ?thesis
    using outlier_filter_stale_rejections [OF fixed_point_laws example_env_benign, of used_filter constant_builder "[7]" "[10]"]
    by (auto simp: used_filter_def)
qed

end
