(* ===== verification/Statistics.thy ===== *)
theory Statistics
  imports OutlierFilter
begin

text \<open>
  Model of src/benchmark/statistics.h and src/benchmark/statistics.c without the formatting of log messages: the mean and the
  quantiles of a distribution, and confidence intervals for them from resampled distributions.

  Doubles are those of an arbitrary arithmetic, to which the square root, the ceiling and the sum of an array are added;
  the sum stands for \<open>sum_f64\<close>, which the theory \<open>Numeric\<close> models on the bits of doubles.  The draws of the random number
  generator for each resample are arguments.
\<close>

section \<open>Data\<close>

record 'd statistics_arith =
  doubles :: "'d arith"
  d_sqrt :: "'d \<Rightarrow> 'd"
  d_ceil :: "'d \<Rightarrow> 'd"
  sum_doubles :: "'d list \<Rightarrow> 'd res"

definition CONFIDENCE :: "'d arith \<Rightarrow> 'd" where
  "CONFIDENCE A = literal A 95 100"

definition DISPERSION_EXCLUDED_FRACTION :: "'d arith \<Rightarrow> 'd" where
  "DISPERSION_EXCLUDED_FRACTION A = literal A 5 100"

definition NUM_RESAMPLES :: nat where
  "NUM_RESAMPLES = 201"

definition CENTER_START_QUANTILE :: "'d arith \<Rightarrow> 'd" where
  "CENTER_START_QUANTILE A = d_div A (DISPERSION_EXCLUDED_FRACTION A) (literal A 2 1)"

definition CENTER_END_QUANTILE :: "'d arith \<Rightarrow> 'd" where
  "CENTER_END_QUANTILE A = d_sub A (d_one A) (d_div A (DISPERSION_EXCLUDED_FRACTION A) (literal A 2 1))"

definition LOW_TAIL_QUANTILE :: "'d arith \<Rightarrow> 'd" where
  "LOW_TAIL_QUANTILE A = DISPERSION_EXCLUDED_FRACTION A"

definition HIGH_TAIL_QUANTILE :: "'d arith \<Rightarrow> 'd" where
  "HIGH_TAIL_QUANTILE A = d_sub A (d_one A) (DISPERSION_EXCLUDED_FRACTION A)"

record 'd estimate =
  sample :: 'd
  low :: 'd
  high :: 'd

record 'd statistics =
  center_start :: "'d estimate"
  low_tail_bound :: "'d estimate"
  mean :: "'d estimate"
  high_tail_bound :: "'d estimate"
  center_end :: "'d estimate"
  center_width :: "'d estimate"

datatype statistic_id = CENTER_START | LOW_TAIL_BOUND | MEAN | HIGH_TAIL_BOUND | CENTER_END | CENTER_WIDTH

record 'd analyzer =
  resample_builder :: distribution_builder
  mean_accumulators :: "'d option list option"
  mean_capacity :: nat
  resampled :: "statistic_id \<Rightarrow> 'd option list"

section \<open>Estimates\<close>

definition relative_dispersion :: "'d arith \<Rightarrow> 'd estimate \<Rightarrow> 'd" where
  "relative_dispersion A e = d_mul A (d_div A (d_sub A (high e) (low e)) (sample e)) (literal A 100 1)"

definition estimate_iteration_duration :: "'d statistics_arith \<Rightarrow> 'd estimate \<Rightarrow> nat \<Rightarrow> 'd estimate" where
  "estimate_iteration_duration S batch_mean batch_size =
     (let A = doubles S;
          s = d_div A (sample batch_mean) (of_unsigned A batch_size);
          stddev_norm = d_div A (d_one A) (d_sqrt S (of_unsigned A batch_size))
      in \<lparr>sample = s,
          low = d_sub A s (d_mul A (d_sub A (sample batch_mean) (low batch_mean)) stddev_norm),
          high = d_add A s (d_mul A (d_sub A (high batch_mean) (sample batch_mean)) stddev_norm)\<rparr>)"

section \<open>Mean\<close>

definition analyzer_initialize :: "heap_env \<Rightarrow> nat \<Rightarrow> 'd analyzer res" where
  "analyzer_initialize env psize =
     bindR (distribution_initialize env psize) (\<lambda>builder.
     let capacity = psize div 8
     in ensure_that (capacity \<noteq> 0) (
     Inr \<lparr>resample_builder = builder, mean_accumulators = malloc_weights env capacity, mean_capacity = capacity,
          resampled = (\<lambda>_. replicate NUM_RESAMPLES None)\<rparr>))"

definition analyzer_finalize :: "'d analyzer \<Rightarrow> 'd analyzer" where
  "analyzer_finalize an =
     an\<lparr>resample_builder := distribution_discard (resample_builder an), mean_capacity := 0, mean_accumulators := None\<rparr>"

fun mean_loop ::
    "'d arith \<Rightarrow> 'd \<Rightarrow> int option list \<times> nat option list \<Rightarrow> nat \<Rightarrow> nat \<Rightarrow> nat \<Rightarrow> 'd option list \<Rightarrow> 'd option list res" where
  "mean_loop A len_norm l 0 bin prev_end_rank acc = Inr acc"
| "mean_loop A len_norm l (Suc todo) bin prev_end_rank acc =
     bindR (read_cell (fst l) bin) (\<lambda>v.
     bindR (read_cell (snd l) bin) (\<lambda>curr_end_rank.
     let copies = rank_difference curr_end_rank prev_end_rank;
         rel_count = d_mul A (of_unsigned A copies) len_norm
     in bindR (write_cell acc bin (d_mul A rel_count (of_signed A v))) (\<lambda>acc'.
     mean_loop A len_norm l todo (Suc bin) curr_end_rank acc')))"

fun read_cells :: "'a option list \<Rightarrow> 'a list res" where
  "read_cells [] = Inr []"
| "read_cells (None # cs) = Inl UndefinedBehaviour"
| "read_cells (Some x # cs) = bindR (read_cells cs) (\<lambda>xs. Inr (x # xs))"

definition ensure_accumulators :: "heap_env \<Rightarrow> nat \<Rightarrow> 'd analyzer \<Rightarrow> 'd analyzer" where
  "ensure_accumulators env n an =
     (if mean_capacity an < n then an\<lparr>mean_accumulators := malloc_weights env n, mean_capacity := n\<rparr> else an)"

definition analyze_mean :: "'d statistics_arith \<Rightarrow> heap_env \<Rightarrow> 'd analyzer \<Rightarrow> distribution \<Rightarrow> ('d \<times> 'd analyzer) res" where
  "analyze_mean S env an dist =
     (let A = doubles S;
          n = num_bins dist
      in ensure_that (n \<noteq> 0) (
      let an = ensure_accumulators env n an
      in bindR (distribution_layout dist) (\<lambda>l.
      bindR (distribution_len dist) (\<lambda>len.
      let len_norm = d_div A (d_one A) (of_unsigned A len)
      in case mean_accumulators an of
           None \<Rightarrow> Inl BadAccess
         | Some acc \<Rightarrow>
             bindR (mean_loop A len_norm l n 0 0 acc) (\<lambda>acc'.
             bindR (read_cells (take n acc')) (\<lambda>xs.
             bindR (sum_doubles S xs) (\<lambda>total.
             Inr (total, an\<lparr>mean_accumulators := Some acc'\<rparr>))))))))"

section \<open>Confidence intervals\<close>

definition compare_f64 :: "'d arith \<Rightarrow> 'd \<Rightarrow> 'd \<Rightarrow> int" where
  "compare_f64 A d1 d2 = (if d_less A d1 d2 then - 1 else if d_less A d2 d1 then 1 else 0)"

text \<open>\<open>qsort\<close> of an array of doubles.\<close>

fun insert_f64 :: "'d arith \<Rightarrow> 'd \<Rightarrow> 'd list \<Rightarrow> 'd list" where
  "insert_f64 A x [] = [x]"
| "insert_f64 A x (y # ys) = (if compare_f64 A x y \<le> 0 then x # y # ys else y # insert_f64 A x ys)"

definition qsort_f64 :: "'d arith \<Rightarrow> 'd list \<Rightarrow> 'd list" where
  "qsort_f64 A xs = foldr (insert_f64 A) xs []"

definition low_idx :: "'d arith \<Rightarrow> nat" where
  "low_idx A = to_unsigned A (d_round A (d_mul A (d_div A (d_sub A (d_one A) (CONFIDENCE A)) (literal A 2 1))
     (of_unsigned A (NUM_RESAMPLES - 1))))"

definition high_idx :: "'d arith \<Rightarrow> nat" where
  "high_idx A = to_unsigned A (d_round A (d_mul A (d_div A (d_add A (d_one A) (CONFIDENCE A)) (literal A 2 1))
     (of_unsigned A (NUM_RESAMPLES - 1))))"

definition set_result_confidence :: "'d arith \<Rightarrow> statistic_id \<Rightarrow> 'd estimate \<Rightarrow> 'd analyzer \<Rightarrow> ('d estimate \<times> 'd analyzer) res" where
  "set_result_confidence A stat est an =
     bindR (read_cells (resampled an stat)) (\<lambda>xs.
     let sorted_xs = map Some (qsort_f64 A xs)
     in bindR (read_cell sorted_xs (low_idx A)) (\<lambda>l.
     bindR (read_cell sorted_xs (high_idx A)) (\<lambda>h.
     Inr (est\<lparr>low := l, high := h\<rparr>, an\<lparr>resampled := (resampled an)(stat := sorted_xs)\<rparr>))))"

definition quantile :: "'d statistics_arith \<Rightarrow> 'd \<Rightarrow> distribution \<Rightarrow> int res" where
  "quantile S p dist =
     assert_that (d_le (doubles S) (d_zero (doubles S)) p \<and> d_le (doubles S) p (d_one (doubles S)))
     (distribution_quantile (\<lambda>len. to_unsigned (doubles S) (d_ceil S (d_mul (doubles S) p (of_unsigned (doubles S) len)))) dist)"

definition write_statistic :: "statistic_id \<Rightarrow> nat \<Rightarrow> 'd \<Rightarrow> 'd analyzer \<Rightarrow> 'd analyzer res" where
  "write_statistic stat run x an =
     bindR (write_cell (resampled an stat) run x) (\<lambda>cells. Inr (an\<lparr>resampled := (resampled an)(stat := cells)\<rparr>))"

definition resample_step ::
    "'d statistics_arith \<Rightarrow> heap_env \<Rightarrow> (nat \<Rightarrow> nat) \<Rightarrow> distribution \<Rightarrow> nat \<Rightarrow> 'd analyzer \<Rightarrow> 'd analyzer res" where
  "resample_step S env rnd dist run an =
     (let A = doubles S
      in bindR (distribution_resample env rnd (resample_builder an) dist) (\<lambda>(resample, builder).
      bindR (analyze_mean S env (an\<lparr>resample_builder := builder\<rparr>) resample) (\<lambda>(avg, an).
      bindR (write_statistic MEAN run avg an) (\<lambda>an.
      bindR (quantile S (CENTER_START_QUANTILE A) resample) (\<lambda>start.
      bindR (write_statistic CENTER_START run (of_signed A start) an) (\<lambda>an.
      bindR (quantile S (LOW_TAIL_QUANTILE A) resample) (\<lambda>low_tail.
      bindR (write_statistic LOW_TAIL_BOUND run (of_signed A low_tail) an) (\<lambda>an.
      bindR (quantile S (HIGH_TAIL_QUANTILE A) resample) (\<lambda>high_tail.
      bindR (write_statistic HIGH_TAIL_BOUND run (of_signed A high_tail) an) (\<lambda>an.
      bindR (quantile S (CENTER_END_QUANTILE A) resample) (\<lambda>stop_value.
      bindR (write_statistic CENTER_END run (of_signed A stop_value) an) (\<lambda>an.
      bindR (int64 (stop_value - start)) (\<lambda>width.
      bindR (write_statistic CENTER_WIDTH run (of_signed A width) an) (\<lambda>an.
      Inr (an\<lparr>resample_builder := fst (distribution_reset resample)\<rparr>)))))))))))))))"

fun resamples_loop ::
    "'d statistics_arith \<Rightarrow> heap_env \<Rightarrow> (nat \<Rightarrow> nat \<Rightarrow> nat) \<Rightarrow> distribution \<Rightarrow> nat \<Rightarrow> nat \<Rightarrow> 'd analyzer \<Rightarrow> 'd analyzer res" where
  "resamples_loop S env rnds dist 0 run an = Inr an"
| "resamples_loop S env rnds dist (Suc todo) run an =
     bindR (resample_step S env (rnds run) dist run an) (\<lambda>an'. resamples_loop S env rnds dist todo (Suc run) an')"

definition analyzer_apply ::
    "'d statistics_arith \<Rightarrow> heap_env \<Rightarrow> (nat \<Rightarrow> nat \<Rightarrow> nat) \<Rightarrow> 'd analyzer \<Rightarrow> distribution \<Rightarrow> ('d statistics \<times> 'd analyzer) res" where
  "analyzer_apply S env rnds an dist =
     (let A = doubles S;
          plain = (\<lambda>x. \<lparr>sample = x, low = x, high = x\<rparr>)
      in bindR (quantile S (CENTER_START_QUANTILE A) dist) (\<lambda>start.
      bindR (quantile S (LOW_TAIL_QUANTILE A) dist) (\<lambda>low_tail.
      bindR (analyze_mean S env an dist) (\<lambda>(avg, an).
      bindR (quantile S (HIGH_TAIL_QUANTILE A) dist) (\<lambda>high_tail.
      bindR (quantile S (CENTER_END_QUANTILE A) dist) (\<lambda>stop_value.
      bindR (resamples_loop S env rnds dist NUM_RESAMPLES 0 an) (\<lambda>an.
      bindR (set_result_confidence A CENTER_START (plain (of_signed A start)) an) (\<lambda>(e1, an).
      bindR (set_result_confidence A LOW_TAIL_BOUND (plain (of_signed A low_tail)) an) (\<lambda>(e2, an).
      bindR (set_result_confidence A MEAN (plain avg) an) (\<lambda>(e3, an).
      bindR (set_result_confidence A HIGH_TAIL_BOUND (plain (of_signed A high_tail)) an) (\<lambda>(e4, an).
      bindR (set_result_confidence A CENTER_END (plain (of_signed A stop_value)) an) (\<lambda>(e5, an).
      bindR (set_result_confidence A CENTER_WIDTH (plain (d_sub A (of_signed A stop_value) (of_signed A start))) an) (\<lambda>(e6, an).
      Inr (\<lparr>center_start = e1, low_tail_bound = e2, mean = e3, high_tail_bound = e4, center_end = e5, center_width = e6\<rparr>,
           an))))))))))))))"


section \<open>Mean contributions\<close>

definition contributions :: "'d arith \<Rightarrow> 'd \<Rightarrow> int list \<Rightarrow> nat list \<Rightarrow> 'd list" where
  "contributions A norm vals nums = map2 (\<lambda>v n. d_mul A (d_mul A (of_unsigned A n) norm) (of_signed A v)) vals nums"

lemma mean_loop_result:
  assumes "length nums = length vals" and "\<forall>n \<in> set nums. 0 < n" and "k + sum_list nums < 2 ^ 64"
    and "length pre = length xs" and "length pre' = length xs" and "length vals \<le> length r"
  shows "mean_loop A norm (map Some (pre @ vals) @ s1, map Some (pre' @ sums k nums) @ s2) (length vals) (length xs) k
      (map Some xs @ r) = Inr (map Some (xs @ contributions A norm vals nums) @ drop (length vals) r)"
  using assms
proof (induction vals arbitrary: nums pre pre' xs r k)
  case (Cons v vals)
  obtain n ns where n: "nums = n # ns" using Cons.prems(1) by (cases nums) auto
  let ?x = "d_mul A (d_mul A (of_unsigned A n) norm) (of_signed A v)"
  have diff: "rank_difference (k + n) k = n"
    using rank_difference_less [of k "k + n"] Cons.prems(2,3) n by simp
  have reads: "read_cell (map Some (pre @ v # vals) @ s1) (length xs) = Inr v"
    "read_cell (map Some (pre' @ sums k nums) @ s2) (length xs) = Inr (k + n)"
    using Cons.prems(4,5) by (simp_all add: n read_cell_def nth_append)
  have "write_cell (map Some xs @ r) (length xs) ?x = Inr (map Some (xs @ [?x]) @ tl r)"
    using Cons.prems(6) by (cases r) (simp_all add: write_cell_def list_update_append)
  moreover have "mean_loop A norm (map Some ((pre @ [v]) @ vals) @ s1, map Some ((pre' @ [k + n]) @ sums (k + n) ns) @ s2) (length vals)
      (length (xs @ [?x])) (k + n) (map Some (xs @ [?x]) @ tl r) =
      Inr (map Some ((xs @ [?x]) @ contributions A norm vals ns) @ drop (length vals) (tl r))"
    by (rule Cons.IH) (use Cons.prems n in auto)
  ultimately show ?case using reads diff by (simp add: n Let_def contributions_def drop_Suc)
qed (simp add: contributions_def)

lemma read_cells_some [simp]: "read_cells (map Some xs) = Inr xs"
  by (induction xs) simp_all

definition accumulators_room :: "'d analyzer \<Rightarrow> bool" where
  "accumulators_room an \<longleftrightarrow> (\<exists>acc. mean_accumulators an = Some acc \<and> length acc = mean_capacity an)"

lemma ensure_accumulators_room:
  assumes "accumulators_room an" and "malloc_ok env (n * 8)"
  shows "\<exists>acc. mean_accumulators (ensure_accumulators env n an) = Some acc \<and>
    length acc = mean_capacity (ensure_accumulators env n an) \<and> n \<le> length acc"
  using assms by (auto simp: accumulators_room_def ensure_accumulators_def malloc_weights_def)

text \<open>The mean is the sum of the contributions of the bins.\<close>

lemma analyze_mean_result:
  assumes bins: "dist_bins d vals nums" and env: "benign env" and room: "accumulators_room an"
    and total: "sum_doubles S (contributions (doubles S) (d_div (doubles S) (d_one (doubles S)) (of_unsigned (doubles S) (sum_list nums)))
      vals nums) = Inr avg"
  shows "\<exists>an'. analyze_mean S env an d = Inr (avg, an') \<and> accumulators_room an' \<and> resample_builder an' = resample_builder an \<and>
    resampled an' = resampled an"
proof -
  obtain vs cs where l: "distribution_layout d = Inr (map Some vals @ vs, map Some (sums 0 nums) @ cs)"
    "num_bins d = length vals" "length nums = length vals" "0 < length vals" "\<forall>n \<in> set nums. 0 < n" "sum_list nums < 2 ^ 59"
    using bins by (rule dist_binsE) blast
  let ?an = "ensure_accumulators env (length vals) an"
  let ?A = "doubles S" let ?norm = "d_div ?A (d_one ?A) (of_unsigned ?A (sum_list nums))"
  obtain acc where acc: "mean_accumulators ?an = Some acc" "length acc = mean_capacity ?an" "length vals \<le> length acc"
    using ensure_accumulators_room [OF room, of env "length vals"] env unfolding benign_def by blast
  let ?acc = "map Some (contributions ?A ?norm vals nums) @ drop (length vals) acc"
  have "mean_loop ?A ?norm (map Some vals @ vs, map Some (sums 0 nums) @ cs) (length vals) 0 0 acc = Inr ?acc"
    using mean_loop_result [of nums vals 0 "[]" "[]" "[]" acc ?A ?norm vs cs] l(3,5,6) acc(3) by simp
  moreover have len: "length (contributions ?A ?norm vals nums) = length vals" using l(3) by (simp add: contributions_def)
  ultimately have "analyze_mean S env an d = Inr (avg, ?an\<lparr>mean_accumulators := Some ?acc\<rparr>)"
    using l acc(1) len_result [OF bins] total by (simp add: analyze_mean_def Let_def)
  moreover have "accumulators_room (?an\<lparr>mean_accumulators := Some ?acc\<rparr>)"
    using acc len by (simp add: accumulators_room_def)
  ultimately show ?thesis by (auto simp: ensure_accumulators_def)
qed

section \<open>Sorting\<close>

definition in_order :: "'d arith \<Rightarrow> 'd \<Rightarrow> 'd \<Rightarrow> bool" where
  "in_order A x y \<longleftrightarrow> \<not> d_less A y x"

text \<open>A set of doubles, such as those that are not NaN, on which the comparison is a total order.\<close>

definition ordered :: "'d arith \<Rightarrow> ('d \<Rightarrow> bool) \<Rightarrow> bool" where
  "ordered A number \<longleftrightarrow> (\<forall>x y. number x \<and> number y \<longrightarrow> in_order A x y \<or> in_order A y x) \<and>
     (\<forall>x y z. number x \<and> number y \<and> number z \<and> in_order A x y \<and> in_order A y z \<longrightarrow> in_order A x z)"

lemma mset_insert_f64 [simp]: "mset (insert_f64 A x ys) = add_mset x (mset ys)"
  by (induction ys) auto

lemma mset_qsort_f64 [simp]: "mset (qsort_f64 A xs) = mset xs"
  by (induction xs) (simp_all add: qsort_f64_def)

lemma set_insert_f64 [simp]: "set (insert_f64 A x ys) = insert x (set ys)"
  by (metis mset_insert_f64 set_mset_add_mset_insert set_mset_mset)

lemma set_qsort_f64 [simp]: "set (qsort_f64 A xs) = set xs"
  by (metis mset_qsort_f64 set_mset_mset)

lemma length_qsort_f64 [simp]: "length (qsort_f64 A xs) = length xs"
  by (metis mset_qsort_f64 size_mset)

lemma insert_f64_sorted:
  assumes "ordered A number" and "number x" and "\<forall>y \<in> set ys. number y" and "sorted_wrt (in_order A) ys"
  shows "sorted_wrt (in_order A) (insert_f64 A x ys)"
  using assms(3,4)
proof (induction ys)
  case (Cons y ys)
  have order: "\<And>a b. number a \<Longrightarrow> number b \<Longrightarrow> in_order A a b \<or> in_order A b a"
    "\<And>a b c. number a \<Longrightarrow> number b \<Longrightarrow> number c \<Longrightarrow> in_order A a b \<Longrightarrow> in_order A b c \<Longrightarrow> in_order A a c"
    using assms(1) unfolding ordered_def by blast+
  show ?case
  proof (cases "compare_f64 A x y \<le> 0")
    case True
    then have xy: "in_order A x y"
      using order(1) [of x y] assms(2) Cons.prems(1) by (auto simp: compare_f64_def in_order_def split: if_splits)
    have "in_order A x z" if "z \<in> set ys" for z
      by (rule order(2) [of x y z]) (use xy that Cons.prems assms(2) in auto)
    then show ?thesis using True xy Cons.prems by simp
  next
    case False
    then have "in_order A y x" by (auto simp: compare_f64_def in_order_def split: if_splits)
    then show ?thesis using False Cons by auto
  qed
qed simp

lemma qsort_f64_sorted:
  assumes "ordered A number" and "\<forall>x \<in> set xs. number x"
  shows "sorted_wrt (in_order A) (qsort_f64 A xs)"
  using assms(2)
proof (induction xs)
  case (Cons x xs)
  then have "sorted_wrt (in_order A) (insert_f64 A x (qsort_f64 A xs))"
    using insert_f64_sorted [OF assms(1), of x "qsort_f64 A xs"] by simp
  then show ?case by (simp add: qsort_f64_def)
qed (simp add: qsort_f64_def)


lemma sorted_wrt_in_order_nth:
  assumes "ordered A number" and "\<forall>x \<in> set xs. number x" and "sorted_wrt (in_order A) xs" and "i \<le> j" and "j < length xs"
  shows "in_order A (xs ! i) (xs ! j)"
proof (cases "i = j")
  case True
  have "number (xs ! i)" using assms(2,4,5) by simp
  then show ?thesis using assms(1) True unfolding ordered_def by blast
next
  case False
  then show ?thesis using assms(3,4,5) by (simp add: sorted_wrt_iff_nth_less)
qed

text \<open>A confidence interval consists of two values of the resampled statistic, in order.\<close>

lemma set_result_confidence_result:
  assumes "ordered A number" and "\<forall>x \<in> set xs. number x" and "resampled an stat = map Some xs" and "length xs = NUM_RESAMPLES"
    and "low_idx A \<le> high_idx A" and "high_idx A < NUM_RESAMPLES"
  shows "\<exists>l h. set_result_confidence A stat est an = Inr (est\<lparr>low := l, high := h\<rparr>,
      an\<lparr>resampled := (resampled an)(stat := map Some (qsort_f64 A xs))\<rparr>) \<and> l \<in> set xs \<and> h \<in> set xs \<and> in_order A l h"
proof -
  let ?ys = "qsort_f64 A xs"
  have idx: "low_idx A < length ?ys" "high_idx A < length ?ys" using assms(4-6) by simp_all
  have "in_order A (?ys ! low_idx A) (?ys ! high_idx A)"
    by (rule sorted_wrt_in_order_nth [OF assms(1) _ qsort_f64_sorted [OF assms(1,2)] assms(5)]) (use assms(2) idx in simp_all)
  moreover have "?ys ! low_idx A \<in> set xs" "?ys ! high_idx A \<in> set xs" using nth_mem [OF idx(1)] nth_mem [OF idx(2)] by simp_all
  moreover have "set_result_confidence A stat est an = Inr (est\<lparr>low := ?ys ! low_idx A, high := ?ys ! high_idx A\<rparr>,
      an\<lparr>resampled := (resampled an)(stat := map Some ?ys)\<rparr>)"
    using assms(3) idx by (simp add: set_result_confidence_def read_cell_def Let_def)
  ultimately show ?thesis by blast
qed

section \<open>The analysis\<close>

definition ceil_times :: "'d statistics_arith \<Rightarrow> 'd \<Rightarrow> nat \<Rightarrow> nat" where
  "ceil_times S p len = to_unsigned (doubles S) (d_ceil S (d_mul (doubles S) p (of_unsigned (doubles S) len)))"

definition int64_value :: "int \<Rightarrow> bool" where
  "int64_value v \<longleftrightarrow> INT64_MIN \<le> v \<and> v \<le> INT64_MAX"

text \<open>What the analysis relies on: numbers are in order, signed integers are numbers, the contributions of the bins of
  a distribution have a sum that is a number, quantiles are asked for probabilities and select at most all values, and the
  indices of the interval are in range and in order.\<close>

definition probability :: "'d statistics_arith \<Rightarrow> 'd \<Rightarrow> bool" where
  "probability S p \<longleftrightarrow> d_le (doubles S) (d_zero (doubles S)) p \<and> d_le (doubles S) p (d_one (doubles S)) \<and>
     (\<forall>n < 2 ^ 59. ceil_times S p n \<le> n)"

definition statistics_laws :: "'d statistics_arith \<Rightarrow> ('d \<Rightarrow> bool) \<Rightarrow> bool" where
  "statistics_laws S number \<longleftrightarrow> ordered (doubles S) number \<and>
     (\<forall>v. int64_value v \<longrightarrow> number (of_signed (doubles S) v)) \<and>
     (\<forall>vals nums. well_binned vals nums \<and> vals \<noteq> [] \<and> sum_list nums < 2 ^ 59 \<and> (\<forall>v \<in> set vals. int64_value v) \<longrightarrow>
        (\<exists>t. sum_doubles S (contributions (doubles S)
           (d_div (doubles S) (d_one (doubles S)) (of_unsigned (doubles S) (sum_list nums))) vals nums) = Inr t \<and> number t)) \<and>
     (\<forall>p \<in> {CENTER_START_QUANTILE (doubles S), LOW_TAIL_QUANTILE (doubles S), HIGH_TAIL_QUANTILE (doubles S),
            CENTER_END_QUANTILE (doubles S)}. probability S p) \<and>
     low_idx (doubles S) \<le> high_idx (doubles S) \<and> high_idx (doubles S) < NUM_RESAMPLES"

lemma statistics_lawsD:
  assumes "statistics_laws S number"
  shows "ordered (doubles S) number" and "int64_value v \<Longrightarrow> number (of_signed (doubles S) v)"
    and "probability S (CENTER_START_QUANTILE (doubles S))" and "probability S (LOW_TAIL_QUANTILE (doubles S))"
    and "probability S (HIGH_TAIL_QUANTILE (doubles S))" and "probability S (CENTER_END_QUANTILE (doubles S))"
    and "low_idx (doubles S) \<le> high_idx (doubles S)" and "high_idx (doubles S) < NUM_RESAMPLES"
  using assms unfolding statistics_laws_def by blast+

lemma quantile_member:
  assumes "dist_holds d m" and "probability S p"
  shows "\<exists>q. quantile S p d = Inr q \<and> q \<in># m"
proof -
  obtain vals nums where bins: "dist_bins d vals nums" and m: "m = mset (contents vals nums)"
    using assms(1) by (auto simp: dist_holds_def)
  define k where "k = (if ceil_times S p (sum_list nums) = 0 then 0 else ceil_times S p (sum_list nums) - 1)"
  have k: "k < sum_list nums"
    using assms(2) dist_bins_contents(4) [OF bins] bins
    by (auto simp: k_def probability_def dist_bins_def simp del: sum_list_eq_0_iff)
  have "quantile S p d = distribution_nth d k"
    unfolding quantile_def distribution_quantile_def len_result [OF bins] k_def ceil_times_def
    using assms(2) by (simp add: Let_def probability_def)
  then have "quantile S p d = Inr (contents vals nums ! k)" using nth_result [OF bins k] by simp
  moreover have "contents vals nums ! k \<in># m" using k m dist_bins_contents(1) [OF bins] by simp
  ultimately show ?thesis by blast
qed

lemma mean_number:
  assumes laws: "statistics_laws S number" and d: "dist_holds d m" and env: "benign env" and room: "accumulators_room an"
    and vals64: "\<forall>v \<in># m. int64_value v"
  shows "\<exists>avg an'. analyze_mean S env an d = Inr (avg, an') \<and> number avg \<and> accumulators_room an' \<and>
    resample_builder an' = resample_builder an \<and> resampled an' = resampled an"
proof -
  obtain vals nums where bins: "dist_bins d vals nums" and m: "m = mset (contents vals nums)" using d by (auto simp: dist_holds_def)
  have "\<forall>v \<in> set vals. int64_value v" using vals64 m dist_bins_contents(2) [OF bins] by simp
  then obtain avg where "sum_doubles S (contributions (doubles S)
      (d_div (doubles S) (d_one (doubles S)) (of_unsigned (doubles S) (sum_list nums))) vals nums) = Inr avg" "number avg"
    using laws bins unfolding statistics_laws_def dist_bins_def by blast
  then show ?thesis using analyze_mean_result [OF bins env room] by blast
qed

text \<open>An analyzer between two calls, and the values that a statistic may take over a set of samples.\<close>

definition analyzer_ready :: "'d analyzer \<Rightarrow> bool" where
  "analyzer_ready an \<longleftrightarrow> builder_holds (resample_builder an) {#} \<and> accumulators_room an \<and>
     (\<forall>s. length (resampled an s) = NUM_RESAMPLES)"

fun possible :: "'d arith \<Rightarrow> ('d \<Rightarrow> bool) \<Rightarrow> int multiset \<Rightarrow> statistic_id \<Rightarrow> 'd \<Rightarrow> bool" where
  "possible A number m MEAN x = number x"
| "possible A number m CENTER_WIDTH x = (\<exists>a b. a \<in># m \<and> b \<in># m \<and> x = of_signed A (b - a))"
| "possible A number m s x = (\<exists>a. a \<in># m \<and> x = of_signed A a)"

lemma write_statistic_next:
  assumes "resampled an s = map Some xs @ r" and "r \<noteq> []" and "run = length xs"
  shows "write_statistic s run x an = Inr (an\<lparr>resampled := (resampled an)(s := map Some (xs @ [x]) @ tl r)\<rparr>)"
  using assms by (cases r) (simp_all add: write_statistic_def write_cell_def list_update_append)


definition filled :: "'d arith \<Rightarrow> ('d \<Rightarrow> bool) \<Rightarrow> int multiset \<Rightarrow> nat \<Rightarrow> 'd analyzer \<Rightarrow> bool" where
  "filled A number m run an \<longleftrightarrow> builder_holds (resample_builder an) {#} \<and> accumulators_room an \<and>
     (\<forall>s. \<exists>xs r. resampled an s = map Some xs @ r \<and> length xs = run \<and> run + length r = NUM_RESAMPLES \<and>
        (\<forall>x \<in> set xs. possible A number m s x))"

lemma write_all:
  assumes "\<And>s. resampled an s = map Some (f s) @ r s" and "\<And>s. r s \<noteq> []" and "\<And>s. length (f s) = run"
  shows "bindR (write_statistic MEAN run (x MEAN) an) (\<lambda>an.
      bindR (write_statistic CENTER_START run (x CENTER_START) an) (\<lambda>an.
      bindR (write_statistic LOW_TAIL_BOUND run (x LOW_TAIL_BOUND) an) (\<lambda>an.
      bindR (write_statistic HIGH_TAIL_BOUND run (x HIGH_TAIL_BOUND) an) (\<lambda>an.
      bindR (write_statistic CENTER_END run (x CENTER_END) an) (\<lambda>an.
      bindR (write_statistic CENTER_WIDTH run (x CENTER_WIDTH) an) k))))) =
    k (an\<lparr>resampled := (\<lambda>s. map Some (f s @ [x s]) @ tl (r s))\<rparr>)"
proof -
  have all: "((((((resampled an)(MEAN := c MEAN))(CENTER_START := c CENTER_START))(LOW_TAIL_BOUND := c LOW_TAIL_BOUND))
      (HIGH_TAIL_BOUND := c HIGH_TAIL_BOUND))(CENTER_END := c CENTER_END))(CENTER_WIDTH := c CENTER_WIDTH) = c" for c
    by (rule ext) (rename_tac s, case_tac s; simp)
  have eq: "map Some (f s @ [x s]) @ tl (r s) = map Some (f s) @ Some (x s) # tl (r s)" for s by simp
  show ?thesis
    using assms
    by (simp add: write_statistic_next [where xs = "f _" and r = "r _"] flip: all [of "\<lambda>s. map Some (f s) @ Some (x s) # tl (r s)"])
qed

lemma resample_step_filled:
  assumes laws: "statistics_laws S number" and env: "benign env" and d: "dist_holds d m"
    and vals64: "\<forall>v \<in># m. int64_value v" and range: "\<forall>a \<in># m. \<forall>b \<in># m. int64_value (b - a)"
    and an: "filled (doubles S) number m run an" and run: "run < NUM_RESAMPLES"
  shows "\<exists>an'. resample_step S env rnd d run an = Inr an' \<and> filled (doubles S) number m (Suc run) an'"
proof -
  let ?A = "doubles S"
  have b: "builder_holds (resample_builder an) {#}" and room: "accumulators_room an" using an by (simp_all add: filled_def)
  obtain f r where f: "\<And>s. resampled an s = map Some (f s) @ r s" "\<And>s. length (f s) = run"
      "\<And>s. run + length (r s) = NUM_RESAMPLES" "\<And>s x. x \<in> set (f s) \<Longrightarrow> possible ?A number m s x"
    using an unfolding filled_def by metis
  have r: "r s \<noteq> []" for s using f(3) [of s] run by auto
  let ?draws = "draws rnd (sorted_list_of_multiset m) (size m)"
  obtain e b' where e: "distribution_resample env rnd (resample_builder an) d = Inr (e, b')" "dist_holds e (mset ?draws)"
      "set ?draws \<subseteq> set_mset m"
    using distribution_resample_samples [OF env b d] by blast
  obtain avg an1 where mean: "analyze_mean S env (an\<lparr>resample_builder := b'\<rparr>) e = Inr (avg, an1)" "number avg" "accumulators_room an1"
      "resampled an1 = resampled an"
    using mean_number [OF laws e(2) env, of "an\<lparr>resample_builder := b'\<rparr>"] room vals64 e(3) by (auto simp: accumulators_room_def)
  have q: "\<exists>q. quantile S p e = Inr q \<and> q \<in># m" if "probability S p" for p
    using quantile_member [OF e(2) that] e(3) by auto
  note p = statistics_lawsD(3-6) [OF laws]
  obtain q1 q2 q3 q4 where qs: "quantile S (CENTER_START_QUANTILE ?A) e = Inr q1" "q1 \<in># m"
      "quantile S (LOW_TAIL_QUANTILE ?A) e = Inr q2" "q2 \<in># m" "quantile S (HIGH_TAIL_QUANTILE ?A) e = Inr q3" "q3 \<in># m"
      "quantile S (CENTER_END_QUANTILE ?A) e = Inr q4" "q4 \<in># m"
    using q [OF p(1)] q [OF p(2)] q [OF p(3)] q [OF p(4)] by blast
  have width: "int64 (q4 - q1) = Inr (q4 - q1)"
    using range qs(2,8) by (simp add: int64_def int64_value_def)
  define x where "x = (\<lambda>s. case s of MEAN \<Rightarrow> avg | CENTER_START \<Rightarrow> of_signed ?A q1 | LOW_TAIL_BOUND \<Rightarrow> of_signed ?A q2
    | HIGH_TAIL_BOUND \<Rightarrow> of_signed ?A q3 | CENTER_END \<Rightarrow> of_signed ?A q4 | CENTER_WIDTH \<Rightarrow> of_signed ?A (q4 - q1))"
  have x: "avg = x MEAN" "of_signed ?A q1 = x CENTER_START" "of_signed ?A q2 = x LOW_TAIL_BOUND" "of_signed ?A q3 = x HIGH_TAIL_BOUND"
    "of_signed ?A q4 = x CENTER_END" "of_signed ?A (q4 - q1) = x CENTER_WIDTH" by (simp_all add: x_def)
  have poss: "possible ?A number m s (x s)" for s using mean(2) qs by (cases s) (auto simp: x_def)
  let ?an = "an1\<lparr>resampled := (\<lambda>s. map Some (f s @ [x s]) @ tl (r s)), resample_builder := fst (distribution_reset e)\<rparr>"
  have "resample_step S env rnd d run an = Inr ?an"
    using write_all [of an1 f r run x "\<lambda>an. Inr (an\<lparr>resample_builder := fst (distribution_reset e)\<rparr>)"] f(1,2) r mean(4)
    by (simp add: resample_step_def e(1) mean(1) qs width x)
  moreover have "\<exists>xs r'. resampled ?an s = map Some xs @ r' \<and> length xs = Suc run \<and> Suc run + length r' = NUM_RESAMPLES \<and>
      (\<forall>y \<in> set xs. possible ?A number m s y)" for s
  proof -
    obtain c r' where "r s = c # r'" using r [of s] by (cases "r s") auto
    then show ?thesis using f(2,3) [of s] f(4) [of _ s] poss [of s] by (intro exI [of _ "f s @ [x s]"] exI [of _ r']) auto
  qed
  moreover have "builder_holds (resample_builder ?an) {#}" using reset_empty [OF e(2)] by simp
  moreover have "accumulators_room ?an" using mean(3) by (simp add: accumulators_room_def)
  ultimately show ?thesis by (simp add: filled_def)
qed

lemma resamples_loop_filled:
  assumes "statistics_laws S number" and "benign env" and "dist_holds d m"
    and "\<forall>v \<in># m. int64_value v" and "\<forall>a \<in># m. \<forall>b \<in># m. int64_value (b - a)"
    and "filled (doubles S) number m run an" and "run + todo = NUM_RESAMPLES"
  shows "\<exists>an'. resamples_loop S env rnds d todo run an = Inr an' \<and> filled (doubles S) number m NUM_RESAMPLES an'"
  using assms(6,7)
proof (induction todo arbitrary: run an)
  case (Suc todo)
  obtain an1 where an1: "resample_step S env (rnds run) d run an = Inr an1" "filled (doubles S) number m (Suc run) an1"
    using resample_step_filled [OF assms(1-5) Suc.prems(1), of "rnds run"] Suc.prems(2) by auto
  then show ?case using Suc.IH [OF an1(2)] Suc.prems(2) by simp
qed simp


definition estimates :: "'d statistics \<Rightarrow> statistic_id \<Rightarrow> 'd estimate" where
  "estimates stats s = (case s of CENTER_START \<Rightarrow> center_start stats | LOW_TAIL_BOUND \<Rightarrow> low_tail_bound stats | MEAN \<Rightarrow> mean stats
     | HIGH_TAIL_BOUND \<Rightarrow> high_tail_bound stats | CENTER_END \<Rightarrow> center_end stats | CENTER_WIDTH \<Rightarrow> center_width stats)"

lemma possible_number:
  assumes "statistics_laws S number" and "\<forall>v \<in># m. int64_value v" and "\<forall>a \<in># m. \<forall>b \<in># m. int64_value (b - a)"
    and "possible (doubles S) number m s x"
  shows "number x"
  using assms(2-4) statistics_lawsD(2) [OF assms(1)] by (cases s) auto

lemma confidence_filled:
  assumes laws: "statistics_laws S number" and vals64: "\<forall>v \<in># m. int64_value v" "\<forall>a \<in># m. \<forall>b \<in># m. int64_value (b - a)"
    and an: "filled (doubles S) number m NUM_RESAMPLES an"
  shows "\<exists>l h an'. set_result_confidence (doubles S) s est an = Inr (est\<lparr>low := l, high := h\<rparr>, an') \<and>
    possible (doubles S) number m s l \<and> possible (doubles S) number m s h \<and> in_order (doubles S) l h \<and>
    filled (doubles S) number m NUM_RESAMPLES an'"
proof -
  let ?A = "doubles S"
  obtain xs where xs: "resampled an s = map Some xs" "length xs = NUM_RESAMPLES" "\<forall>x \<in> set xs. possible ?A number m s x"
    using an unfolding filled_def by (metis add_cancel_right_right append_Nil2 length_0_conv)
  note l = statistics_lawsD(1,7,8) [OF laws]
  have "\<forall>x \<in> set xs. number x" using xs(3) possible_number [OF laws vals64] by blast
  from set_result_confidence_result [OF l(1) this xs(1,2) l(2,3), of est]
  obtain lo hi where r: "set_result_confidence ?A s est an = Inr (est\<lparr>low := lo, high := hi\<rparr>,
      an\<lparr>resampled := (resampled an)(s := map Some (qsort_f64 ?A xs))\<rparr>)" "lo \<in> set xs" "hi \<in> set xs" "in_order ?A lo hi" by blast
  have "\<exists>ys r. ((resampled an)(s := map Some (qsort_f64 ?A xs))) t = map Some ys @ r \<and> length ys = NUM_RESAMPLES \<and>
      NUM_RESAMPLES + length r = NUM_RESAMPLES \<and> (\<forall>x \<in> set ys. possible ?A number m t x)" for t
  proof (cases "t = s")
    case True
    then show ?thesis using xs by (intro exI [of _ "qsort_f64 ?A xs"] exI [of _ "[]"]) simp
  next
    case False
    then show ?thesis using an unfolding filled_def by simp
  qed
  then have "filled ?A number m NUM_RESAMPLES (an\<lparr>resampled := (resampled an)(s := map Some (qsort_f64 ?A xs))\<rparr>)"
    using an by (simp add: filled_def accumulators_room_def)
  then show ?thesis using r xs(3) by blast
qed

lemma filled_ready: "filled A number m n an \<Longrightarrow> analyzer_ready an"
  unfolding filled_def analyzer_ready_def by (metis length_append length_map)

lemma ready_filled: "analyzer_ready an \<Longrightarrow> filled A number m 0 an"
  by (auto simp: filled_def analyzer_ready_def)




definition fixed_point_statistics :: "int statistics_arith" where
  "fixed_point_statistics = \<lparr>doubles = fixed_point, d_sqrt = (\<lambda>x. x), d_ceil = (\<lambda>x. (x + 999) div 1000 * 1000),
     sum_doubles = (\<lambda>xs. Inr (sum_list xs))\<rparr>"

lemma fixed_point_ceil: "p \<le> 1000 \<Longrightarrow> ceil_times fixed_point_statistics p n \<le> n"
proof -
  assume p: "p \<le> 1000"
  have "p * (1000 * int n) div 1000 \<le> 1000 * int n"
    using mult_right_mono [OF p, of "int n"] by simp
  then have "(p * (1000 * int n) div 1000 + 999) div 1000 \<le> (1000 * int n + 999) div 1000" by (intro zdiv_mono1) simp_all
  then have "(p * (1000 * int n) div 1000 + 999) div 1000 \<le> int n" by simp
  then show ?thesis by (simp add: ceil_times_def fixed_point_statistics_def fixed_point_def)
qed

lemma fixed_point_probability: "0 \<le> p \<Longrightarrow> p \<le> 1000 \<Longrightarrow> probability fixed_point_statistics p"
  using fixed_point_ceil [of p]
  by (simp add: probability_def fixed_point_statistics_def d_zero_def d_one_def fixed_point_def)

lemma fixed_point_statistics_laws: "statistics_laws fixed_point_statistics (\<lambda>_. True)"
proof -
  have d: "doubles fixed_point_statistics = fixed_point" by (simp add: fixed_point_statistics_def)
  have "ordered fixed_point (\<lambda>_. True)" by (auto simp: ordered_def in_order_def fixed_point_ops)
  moreover have "low_idx fixed_point = 5" "high_idx fixed_point = 195"
    by (simp_all add: low_idx_def high_idx_def CONFIDENCE_def NUM_RESAMPLES_def d_one_def fixed_point_def)
  moreover have "probability fixed_point_statistics (CENTER_START_QUANTILE fixed_point)" "probability fixed_point_statistics (LOW_TAIL_QUANTILE fixed_point)"
    "probability fixed_point_statistics (HIGH_TAIL_QUANTILE fixed_point)" "probability fixed_point_statistics (CENTER_END_QUANTILE fixed_point)"
    by (rule fixed_point_probability; simp add: CENTER_START_QUANTILE_def LOW_TAIL_QUANTILE_def HIGH_TAIL_QUANTILE_def CENTER_END_QUANTILE_def
        DISPERSION_EXCLUDED_FRACTION_def d_one_def fixed_point_def)+
  moreover have "sum_doubles fixed_point_statistics xs = Inr (sum_list xs)" for xs by (simp add: fixed_point_statistics_def)
  ultimately show ?thesis by (simp add: statistics_laws_def d NUM_RESAMPLES_def)
qed

definition fresh_analyzer :: "int analyzer" where
  "fresh_analyzer = \<lparr>resample_builder = fresh_builder, mean_accumulators = Some [None, None], mean_capacity = 2,
     resampled = (\<lambda>_. replicate NUM_RESAMPLES None)\<rparr>"


lemma analyzer_initialize_ready:
  assumes "16 \<le> psize" and "psize < 2 ^ 64" and "\<And>n. malloc_ok env n"
  shows "\<exists>an :: 'd analyzer. analyzer_initialize env psize = Inr an \<and> analyzer_ready an"
proof -
  obtain b where "distribution_initialize env psize = Inr b" "builder_holds b {#}"
    using initialize_holds [OF assms] by blast
  moreover have "0 < psize div 8" using assms(1) by (simp add: div_greater_zero_iff)
  ultimately show ?thesis
    using assms(3) by (auto simp: analyzer_initialize_def analyzer_ready_def accumulators_room_def malloc_weights_def Let_def)
qed

end
