(* ===== verification/BenchmarkClock.thy ===== *)
theory BenchmarkClock
  imports Statistics OsSync Memory
begin

text \<open>
  Model of the clocks of src/benchmark.h and src/benchmark.c: comparison and difference of timestamps of the operating system,
  timed runs with the operating system clock and with the time stamp counter, the distribution of their durations without
  outliers, the calibration of the time stamp counter and the finalization of both clocks (Linux on x86-64, debug build).

  Readings of the clocks come from lists, in the order in which the code takes them; a list that ends too early stops the
  computation with \<open>ScheduleEnd\<close>.  The measured workload and the dithering loop only take time.  Plots of
  distributions in the log (distribution_log.c) are an argument, as are the draws of \<open>rand()\<close>.
\<close>

section \<open>Timestamps of the operating system\<close>

definition os_timestamp_eq :: "timespec \<Rightarrow> timespec \<Rightarrow> bool" where
  "os_timestamp_eq t1 t2 \<longleftrightarrow> tv_sec t1 = tv_sec t2 \<and> tv_nsec t1 = tv_nsec t2"

definition os_timestamp_le :: "timespec \<Rightarrow> timespec \<Rightarrow> bool" where
  "os_timestamp_le t1 t2 \<longleftrightarrow> tv_sec t1 < tv_sec t2 \<or> (tv_nsec t1 = tv_sec t2 \<and> tv_nsec t1 \<le> tv_nsec t2)"

record os_clock =
  dither_iters :: nat
  best_empty_iters :: nat
  best_empty_changes :: distribution
  timestamps_at :: nat
  timestamps :: "timespec option list option"
  num_durations :: nat

text \<open>The product of the seconds is unsigned and converted back to \<open>int64_t\<close>.\<close>

definition os_duration :: "timespec \<Rightarrow> timespec \<Rightarrow> int res" where
  "os_duration start end_time =
     assert_that (os_timestamp_le start end_time) (
     bindR (int64 (tv_sec end_time - tv_sec start)) (\<lambda>secs.
     let duration_ns = sint (word_of_int secs * UDIPE_SECOND)
     in int64 (duration_ns + (tv_nsec end_time - tv_nsec start))))"

definition compute_os_duration :: "os_clock \<Rightarrow> nat \<Rightarrow> int res" where
  "compute_os_duration oclock run =
     assert_that (run < num_durations oclock) (
     case timestamps oclock of
       None \<Rightarrow> Inl BadAccess
     | Some ts \<Rightarrow>
         bindR (read_cell ts (2 * run)) (\<lambda>start.
         bindR (read_cell ts (2 * run + 1)) (\<lambda>end_time.
         os_duration start end_time)))"

section \<open>Distribution of durations\<close>

fun durations_loop ::
    "heap_env \<Rightarrow> (nat \<Rightarrow> int res) \<Rightarrow> nat \<Rightarrow> nat \<Rightarrow> distribution_builder \<Rightarrow> distribution_builder res" where
  "durations_loop env compute_duration 0 run builder = Inr builder"
| "durations_loop env compute_duration (Suc todo) run builder =
     bindR (compute_duration run) (\<lambda>duration.
     bindR (distribution_insert env builder duration) (\<lambda>builder'.
     durations_loop env compute_duration todo (Suc run) builder'))"

text \<open>\<open>log_plots\<close> is \<open>None\<close> when debug logs are disabled.\<close>

definition log_filter :: "(distribution \<Rightarrow> unit res) option \<Rightarrow> 'd outlier_filter \<Rightarrow> unit res" where
  "log_filter log_plots flt =
     (case log_plots of
        None \<Rightarrow> Inr ()
      | Some plot \<Rightarrow>
          bindR (outlier_filter_last_scores flt) (\<lambda>scores.
          seqR (plot scores) (
          case outlier_filter_last_rejections flt of
            None \<Rightarrow> Inr ()
          | Some rejections \<Rightarrow> plot rejections)))"

definition compute_duration_distribution ::
    "'d arith \<Rightarrow> heap_env \<Rightarrow> (distribution \<Rightarrow> unit res) option \<Rightarrow> (nat \<Rightarrow> int res) \<Rightarrow> nat \<Rightarrow> 'd outlier_filter \<Rightarrow>
     distribution_builder \<Rightarrow> (distribution \<times> 'd outlier_filter) res" where
  "compute_duration_distribution A env log_plots compute_duration num_runs flt empty_builder =
     ensure_that (distribution_empty empty_builder) (
     bindR (durations_loop env compute_duration num_runs 0 empty_builder) (\<lambda>builder.
     bindR (outlier_filter_apply A env flt builder) (\<lambda>(flt', builder').
     seqR (log_filter log_plots flt') (
     bindR (distribution_build builder') (\<lambda>(result, _).
     seqR (case log_plots of None \<Rightarrow> Inr () | Some plot \<Rightarrow> plot result) (
     Inr (result, flt')))))))"

section \<open>The clock of the operating system\<close>

definition SIZE_MAX :: nat where
  "SIZE_MAX = 2 ^ 64 - 1"

text \<open>The number of iterations of the dithering loop: \<open>rand()\<close> modulo a number that must not be zero.\<close>

definition dither :: "nat \<Rightarrow> unit res" where
  "dither iters = (if (iters + 1) mod 2 ^ 64 = 0 then Inl UndefinedBehaviour else Inr ())"

fun os_now :: "timespec list \<Rightarrow> (timespec \<times> timespec list) res" where
  "os_now [] = Inl ScheduleEnd"
| "os_now (t # ts) = Inr (t, ts)"

fun os_warmup_loop :: "nat \<Rightarrow> u64 \<Rightarrow> timespec \<Rightarrow> timespec list \<Rightarrow> timespec list res" where
  "os_warmup_loop iters warmup start [] = seqR (dither iters) (Inl ScheduleEnd)"
| "os_warmup_loop iters warmup start (now # clock) =
     seqR (dither iters) (
     bindR (os_duration start now) (\<lambda>duration.
     let elapsed = word_of_int duration
     in if elapsed < warmup then os_warmup_loop iters warmup start clock else Inr clock))"

fun os_runs_loop ::
    "nat \<Rightarrow> nat \<Rightarrow> nat \<Rightarrow> timespec option list \<Rightarrow> timespec list \<Rightarrow> (timespec option list \<times> timespec list) res" where
  "os_runs_loop iters 0 run ts clock = Inr (ts, clock)"
| "os_runs_loop iters (Suc todo) run ts clock =
     seqR (dither iters) (
     bindR (os_now clock) (\<lambda>(start, clock).
     bindR (write_cell ts (2 * run) start) (\<lambda>ts.
     bindR (os_now clock) (\<lambda>(end_time, clock).
     bindR (write_cell ts (2 * run + 1) end_time) (\<lambda>ts.
     os_runs_loop iters todo (Suc run) ts clock)))))"

definition RAND_MAX :: nat where
  "RAND_MAX = 2 ^ 31 - 1"

text \<open>The new address when the timestamps are allocated again, or \<open>None\<close> where the allocation exits.\<close>

definition ensure_timestamps :: "nat option \<Rightarrow> nat \<Rightarrow> os_clock \<Rightarrow> os_clock res" where
  "ensure_timestamps new_address num_runs oclock =
     (if num_runs > num_durations oclock then
        case new_address of
          None \<Rightarrow> Inl ExitError
        | Some a \<Rightarrow> Inr (oclock\<lparr>num_durations := num_runs, timestamps_at := a,
            timestamps := Some (replicate (2 * num_runs) None)\<rparr>)
      else Inr oclock)"

definition os_clock_measure ::
    "'d arith \<Rightarrow> heap_env \<Rightarrow> (distribution \<Rightarrow> unit res) option \<Rightarrow> nat option \<Rightarrow> timespec list \<Rightarrow> os_clock \<Rightarrow> u64 \<Rightarrow> nat \<Rightarrow>
     'd outlier_filter \<Rightarrow> distribution_builder \<Rightarrow> (distribution \<times> 'd outlier_filter \<times> os_clock \<times> timespec list) res" where
  "os_clock_measure A env log_plots new_address clock oclock warmup num_runs flt empty_builder =
     bindR (ensure_timestamps new_address num_runs oclock) (\<lambda>oclock.
     bindR (os_now clock) (\<lambda>(start, clock).
     bindR (os_warmup_loop (dither_iters oclock) warmup start clock) (\<lambda>clock.
     ensure_that (RAND_MAX \<ge> dither_iters oclock) (
     case timestamps oclock of
       None \<Rightarrow> Inl BadAccess
     | Some ts \<Rightarrow>
         bindR (os_runs_loop (dither_iters oclock) num_runs 0 ts clock) (\<lambda>(ts, clock).
         let oclock = oclock\<lparr>timestamps := Some ts\<rparr>
         in bindR (compute_duration_distribution A env log_plots (compute_os_duration oclock) num_runs flt empty_builder)
              (\<lambda>(result, flt'). Inr (result, flt', oclock, clock)))))))"

definition os_timestamps_size :: "nat \<Rightarrow> u64" where
  "os_timestamps_size n = 2 * word_of_nat n * 16"

definition os_clock_finalize :: "os_clock \<Rightarrow> os_clock comp" where
  "os_clock_finalize oclock =
     seqM (realtime_liberate (timestamps_at oclock) ((word_of_nat (num_durations oclock) + 1) * 16)) (
     retM (oclock\<lparr>timestamps := None, timestamps_at := 0, num_durations := 0,
       best_empty_changes := distribution_finalize (best_empty_changes oclock),
       dither_iters := SIZE_MAX, best_empty_iters := SIZE_MAX\<rparr>))"

section \<open>The time stamp counter\<close>

record x86_clock =
  x86_dither_iters :: nat
  frequencies :: distribution
  instants_at :: nat
  instants :: "u64 option list option"
  x86_num_durations :: nat

text \<open>A reading of the counter with the processor on which it was taken; readings of \<open>clock()\<close>.\<close>

record x86_inputs =
  tsc :: "(u64 \<times> u32) list"
  clocks :: "int list"

fun x86_timer :: "x86_inputs \<Rightarrow> (u64 \<times> u32 \<times> x86_inputs) res" where
  "x86_timer inp = (case tsc inp of [] \<Rightarrow> Inl ScheduleEnd | (ticks, cpu_id) # rest \<Rightarrow> Inr (ticks, cpu_id, inp\<lparr>tsc := rest\<rparr>))"

declare x86_timer.simps [simp del]

fun cpu_clock :: "x86_inputs \<Rightarrow> (int \<times> x86_inputs) res" where
  "cpu_clock inp = (case clocks inp of [] \<Rightarrow> Inl ScheduleEnd | t # rest \<Rightarrow> Inr (t, inp\<lparr>clocks := rest\<rparr>))"

declare cpu_clock.simps [simp del]

definition compute_x86_duration :: "x86_clock \<Rightarrow> nat \<Rightarrow> nat \<Rightarrow> int res" where
  "compute_x86_duration xclock num_runs run =
     assert_that (run < num_runs) (
     assert_that (num_runs < x86_num_durations xclock) (
     case instants xclock of
       None \<Rightarrow> Inl BadAccess
     | Some cells \<Rightarrow>
         bindR (read_cell cells (num_runs + run)) (\<lambda>end_ticks.
         bindR (read_cell cells run) (\<lambda>start_ticks.
         Inr (sint (end_ticks - start_ticks))))))"

definition CLOCKS_PER_SEC :: u64 where
  "CLOCKS_PER_SEC = 1000000"

text \<open>One timed execution of the workload, in the warm-up and in the timed runs.\<close>

definition x86_run :: "nat \<Rightarrow> u32 \<Rightarrow> x86_inputs \<Rightarrow> (u64 \<times> u64 \<times> x86_inputs) res" where
  "x86_run iters initial_cpu_id inp =
     seqR (dither iters) (
     bindR (x86_timer inp) (\<lambda>(start_ticks, cpu_id, inp).
     assert_that (cpu_id = initial_cpu_id) (
     bindR (x86_timer inp) (\<lambda>(end_ticks, cpu_id, inp).
     assert_that (cpu_id = initial_cpu_id) (
     Inr (start_ticks, end_ticks, inp))))))"

fun x86_warmup_loop :: "nat \<Rightarrow> nat \<Rightarrow> u64 \<Rightarrow> u32 \<Rightarrow> int \<Rightarrow> x86_inputs \<Rightarrow> x86_inputs res" where
  "x86_warmup_loop 0 iters warmup initial_cpu_id start inp = Inl ScheduleEnd"
| "x86_warmup_loop (Suc fuel) iters warmup initial_cpu_id start inp =
     bindR (x86_run iters initial_cpu_id inp) (\<lambda>(_, _, inp).
     bindR (cpu_clock inp) (\<lambda>(now, inp).
     let elapsed = word_of_int (now - start) * UDIPE_SECOND div CLOCKS_PER_SEC
     in if elapsed < warmup then x86_warmup_loop fuel iters warmup initial_cpu_id start inp else Inr inp))"

fun x86_runs_loop ::
    "nat \<Rightarrow> nat \<Rightarrow> u32 \<Rightarrow> nat \<Rightarrow> nat \<Rightarrow> u64 option list \<Rightarrow> x86_inputs \<Rightarrow> (u64 option list \<times> x86_inputs) res" where
  "x86_runs_loop iters num_runs initial_cpu_id 0 run cells inp = Inr (cells, inp)"
| "x86_runs_loop iters num_runs initial_cpu_id (Suc todo) run cells inp =
     bindR (x86_run iters initial_cpu_id inp) (\<lambda>(start_ticks, end_ticks, inp).
     bindR (write_cell cells run start_ticks) (\<lambda>cells.
     bindR (write_cell cells (num_runs + run) end_ticks) (\<lambda>cells.
     x86_runs_loop iters num_runs initial_cpu_id todo (Suc run) cells inp)))"

definition ensure_instants :: "nat option \<Rightarrow> nat \<Rightarrow> x86_clock \<Rightarrow> x86_clock res" where
  "ensure_instants new_address num_runs xclock =
     (if num_runs > x86_num_durations xclock then
        case new_address of
          None \<Rightarrow> Inl ExitError
        | Some a \<Rightarrow> Inr (xclock\<lparr>x86_num_durations := num_runs, instants_at := a,
            instants := Some (replicate (2 * num_runs) None)\<rparr>)
      else Inr xclock)"

text \<open>The warm-up takes one reading of \<open>clock()\<close> per turn, so that the number of readings bounds its turns.\<close>

definition x86_clock_measure ::
    "'d arith \<Rightarrow> heap_env \<Rightarrow> (distribution \<Rightarrow> unit res) option \<Rightarrow> nat option \<Rightarrow> x86_inputs \<Rightarrow> x86_clock \<Rightarrow> u64 \<Rightarrow> nat \<Rightarrow>
     'd outlier_filter \<Rightarrow> distribution_builder \<Rightarrow> (distribution \<times> 'd outlier_filter \<times> x86_clock \<times> x86_inputs) res" where
  "x86_clock_measure A env log_plots new_address inp xclock warmup num_runs flt empty_builder =
     bindR (ensure_instants new_address num_runs xclock) (\<lambda>xclock.
     bindR (x86_timer inp) (\<lambda>(_, initial_cpu_id, inp).
     bindR (cpu_clock inp) (\<lambda>(start, inp).
     bindR (x86_warmup_loop (Suc (length (clocks inp))) (x86_dither_iters xclock) warmup initial_cpu_id start inp) (\<lambda>inp.
     case instants xclock of
       None \<Rightarrow> Inl BadAccess
     | Some cells \<Rightarrow>
         bindR (x86_runs_loop (x86_dither_iters xclock) num_runs initial_cpu_id num_runs 0 cells inp) (\<lambda>(cells, inp).
         let xclock = xclock\<lparr>instants := Some cells\<rparr>
         in bindR (compute_duration_distribution A env log_plots (compute_x86_duration xclock num_runs) num_runs flt empty_builder)
              (\<lambda>(result, flt'). Inr (result, flt', xclock, inp)))))))"

definition x86_duration ::
    "'d statistics_arith \<Rightarrow> heap_env \<Rightarrow> (nat \<Rightarrow> nat) \<Rightarrow> (nat \<Rightarrow> nat \<Rightarrow> nat) \<Rightarrow> x86_clock \<Rightarrow> distribution_builder \<Rightarrow> distribution \<Rightarrow>
     'd analyzer \<Rightarrow> ('d statistics \<times> distribution_builder \<times> 'd analyzer) res" where
  "x86_duration S env rnd rnds xclock tmp_builder ticks an =
     bindR (distribution_scaled_div env rnd tmp_builder ticks (uint UDIPE_SECOND) (frequencies xclock)) (\<lambda>(tmp_durations, _).
     bindR (analyzer_apply S env rnds an tmp_durations) (\<lambda>(result, an).
     Inr (result, fst (distribution_reset tmp_durations), an)))"

definition AFFINE_WARMUP :: u64 where
  "AFFINE_WARMUP = 2000 * UDIPE_MILLISECOND"

definition AFFINE_NRUNS :: nat where
  "AFFINE_NRUNS = 64 * 1024"

text \<open>The draws of \<open>rand()\<close> are those of the difference, of both quotients and of the three analyses.\<close>

definition x86_clock_initialize ::
    "'d statistics_arith \<Rightarrow> heap_env \<Rightarrow> nat \<Rightarrow> (nat \<Rightarrow> nat \<Rightarrow> nat) \<Rightarrow> (nat \<Rightarrow> nat \<Rightarrow> nat \<Rightarrow> nat) \<Rightarrow> (distribution \<Rightarrow> unit res) option \<Rightarrow>
     nat option \<Rightarrow> x86_inputs \<Rightarrow> distribution_pool \<Rightarrow> 'd outlier_filter \<Rightarrow> 'd analyzer \<Rightarrow> os_clock \<Rightarrow>
     (x86_clock \<times> distribution_pool \<times> 'd outlier_filter \<times> 'd analyzer \<times> x86_inputs) res" where
  "x86_clock_initialize S env psize rnd rnds log_plots new_address inp pool flt an os =
     (case new_address of
        None \<Rightarrow> Inl ExitError
      | Some a \<Rightarrow>
          let A = doubles S;
              xclock = \<lparr>x86_dither_iters = dither_iters os, frequencies = distribution_poison, instants_at = a,
                instants = Some (replicate (2 * AFFINE_NRUNS) None), x86_num_durations = AFFINE_NRUNS\<rparr>
          in bindR (distribution_pool_request env psize pool) (\<lambda>(builder, pool).
          bindR (x86_clock_measure A env log_plots None inp xclock AFFINE_WARMUP AFFINE_NRUNS flt builder)
            (\<lambda>(base_ticks, flt, xclock, inp).
          bindR (distribution_pool_request env psize pool) (\<lambda>(builder, pool).
          bindR (x86_clock_measure A env log_plots None inp xclock AFFINE_WARMUP AFFINE_NRUNS flt builder)
            (\<lambda>(double_ticks, flt, xclock, inp).
          bindR (distribution_pool_request env psize pool) (\<lambda>(builder, pool).
          bindR (distribution_sub env (rnd 0) builder double_ticks base_ticks) (\<lambda>(change_ticks, _).
          bindR (distribution_pool_recycle env pool base_ticks) (\<lambda>(pool, _).
          bindR (distribution_pool_recycle env pool double_ticks) (\<lambda>(pool, _).
          bindR (analyzer_apply S env (rnds 0) an change_ticks) (\<lambda>(_, an).
          bindR (distribution_pool_request env psize pool) (\<lambda>(builder, pool).
          bindR (distribution_scaled_div env (rnd 1) builder change_ticks (uint UDIPE_SECOND) (best_empty_changes os))
            (\<lambda>(freqs, _).
          let xclock = xclock\<lparr>frequencies := freqs\<rparr>
          in bindR (analyzer_apply S env (rnds 1) an freqs) (\<lambda>(_, an).
          bindR (distribution_pool_request env psize pool) (\<lambda>(builder, pool).
          bindR (x86_duration S env (rnd 2) (rnds 2) xclock builder change_ticks an) (\<lambda>(_, _, an).
          bindR (distribution_pool_recycle env pool change_ticks) (\<lambda>(pool, _).
          Inr (xclock, pool, flt, an, inp)))))))))))))))))"

definition x86_clock_finalize :: "x86_clock \<Rightarrow> x86_clock comp" where
  "x86_clock_finalize xclock =
     seqM (realtime_liberate (instants_at xclock) (2 * word_of_nat (x86_num_durations xclock) * 8)) (
     retM (xclock\<lparr>instants := None, instants_at := 0, x86_num_durations := 0,
       frequencies := distribution_finalize (frequencies xclock), x86_dither_iters := SIZE_MAX\<rparr>))"

definition benchmark_clock_recalibrate :: "unit res" where
  "benchmark_clock_recalibrate = Inl ExitError"


section \<open>Durations\<close>

definition ns_between :: "timespec \<Rightarrow> timespec \<Rightarrow> int" where
  "ns_between start end_time = (tv_sec end_time - tv_sec start) * 1000000000 + (tv_nsec end_time - tv_nsec start)"

definition clock_reading :: "timespec \<Rightarrow> bool" where
  "clock_reading t \<longleftrightarrow> 0 \<le> tv_sec t \<and> tv_sec t < 2 ^ 32 \<and> 0 \<le> tv_nsec t \<and> tv_nsec t < 1000000000"

lemma UDIPE_SECOND_value: "UDIPE_SECOND = 1000000000"
  by (simp add: UDIPE_SECOND_def UDIPE_MILLISECOND_def)

lemma sint_seconds:
  assumes "0 \<le> s" and "s < 2 ^ 32"
  shows "sint (word_of_int s * UDIPE_SECOND) = s * 1000000000"
proof -
  have "word_of_int s * UDIPE_SECOND = (word_of_int (s * 1000000000) :: u64)"
    by (simp add: UDIPE_SECOND_value)
  moreover have "sint (word_of_int (s * 1000000000) :: u64) = s * 1000000000"
    by (subst sint_sbintrunc', rule signed_take_bit_int_eq_self) (use assms in simp_all)
  ultimately show ?thesis by simp
qed

lemma int64_seconds: "0 \<le> s \<Longrightarrow> s < 2 ^ 32 \<Longrightarrow> \<bar>n\<bar> < 1000000000 \<Longrightarrow> int64 (s * 1000000000 + n) = Inr (s * 1000000000 + n)"
  by (auto simp: int64_def INT64_MIN_def INT64_MAX_def abs_less_iff)

lemma os_duration_exact:
  assumes "clock_reading start" and "clock_reading end_time" and "tv_sec start < tv_sec end_time"
  shows "os_duration start end_time = Inr (ns_between start end_time)"
proof -
  let ?s = "tv_sec end_time - tv_sec start"
  have s: "0 \<le> ?s" "?s < 2 ^ 32" using assms by (simp_all add: clock_reading_def)
  have n: "\<bar>tv_nsec end_time - tv_nsec start\<bar> < 1000000000" using assms(1,2) by (auto simp: clock_reading_def)
  have "int64 ?s = Inr ?s" using s by (simp add: int64_def INT64_MIN_def INT64_MAX_def)
  moreover have "int64 (?s * 1000000000 + (tv_nsec end_time - tv_nsec start)) =
      Inr (?s * 1000000000 + (tv_nsec end_time - tv_nsec start))"
    using int64_seconds [OF s n] .
  ultimately show ?thesis
    using assms(3) sint_seconds [OF s] by (simp add: os_duration_def os_timestamp_le_def ns_between_def Let_def)
qed

text \<open>The difference of two readings in different seconds is exact; for two readings in the same second the comparison
  confuses seconds with nanoseconds, and the assertion that the later reading is not before the earlier one fails
  unless the nanoseconds of the earlier one happen to equal the seconds.\<close>

theorem os_duration_same_second:
  assumes "clock_reading start" and "clock_reading end_time"
  shows "(tv_sec start < tv_sec end_time \<longrightarrow> os_duration start end_time = Inr (ns_between start end_time)) \<and>
    (tv_sec start = tv_sec end_time \<and> tv_nsec start \<noteq> tv_sec start \<longrightarrow> os_duration start end_time = Inl AssertFailed)"
  using os_duration_exact [OF assms] by (auto simp: os_duration_def os_timestamp_le_def)

theorem os_duration_same_second_witness:
  "os_duration \<lparr>tv_sec = 7, tv_nsec = 900\<rparr> \<lparr>tv_sec = 9, tv_nsec = 100\<rparr> = Inr 1999999200 \<and>
   os_duration \<lparr>tv_sec = 7, tv_nsec = 100\<rparr> \<lparr>tv_sec = 7, tv_nsec = 900\<rparr> = Inl AssertFailed"
  using os_duration_same_second [of "\<lparr>tv_sec = 7, tv_nsec = 900\<rparr>" "\<lparr>tv_sec = 9, tv_nsec = 100\<rparr>"]
    os_duration_same_second [of "\<lparr>tv_sec = 7, tv_nsec = 100\<rparr>" "\<lparr>tv_sec = 7, tv_nsec = 900\<rparr>"]
  by (simp add: clock_reading_def ns_between_def)

section \<open>The time stamp counter cannot be calibrated\<close>

lemma x86_distribution_fails:
  assumes "0 < n" and "x86_num_durations xclock \<le> n" and "distribution_empty b"
  shows "compute_duration_distribution A env log_plots (compute_x86_duration xclock n) n flt b = Inl AssertFailed"
  using assms by (cases n) (simp_all add: compute_duration_distribution_def compute_x86_duration_def)

lemma x86_measure_fails:
  assumes "0 < n" and "x86_num_durations xclock \<le> n"
  shows "x86_clock_measure A env log_plots new_address inp xclock warmup n flt b \<noteq> Inr r"
proof
  assume "x86_clock_measure A env log_plots new_address inp xclock warmup n flt b = Inr r"
  then obtain xclock' cells x where x': "ensure_instants new_address n xclock = Inr xclock'"
      and r: "compute_duration_distribution A env log_plots (compute_x86_duration (xclock'\<lparr>instants := cells\<rparr>) n) n flt b = Inr x"
    unfolding x86_clock_measure_def by (auto simp: bindR_eq_Inr Let_def split: option.splits)
  have "x86_num_durations xclock' \<le> n"
    using x' assms(2) by (auto simp: ensure_instants_def split: if_splits option.splits)
  then have "distribution_empty b \<Longrightarrow> False" using x86_distribution_fails [OF assms(1), of "xclock'\<lparr>instants := cells\<rparr>" b A env log_plots flt] r by simp
  moreover have "distribution_empty b" using r by (simp add: compute_duration_distribution_def ensure_that_def split: if_splits)
  ultimately show False by blast
qed

text \<open>C39. In a debug build the calibration of the time stamp counter never succeeds, whatever the clocks read: it measures
  as many runs as it has allocated room for, and the computation of the first duration asserts that there is room for
  more.\<close>

theorem x86_calibration_fails:
  "x86_clock_initialize S env psize rnd rnds log_plots new_address inp pool flt an os \<noteq> Inr r \<and>
   (x86_num_durations xclock = AFFINE_NRUNS \<and> distribution_empty builder \<longrightarrow>
      compute_duration_distribution A env log_plots (compute_x86_duration xclock AFFINE_NRUNS) AFFINE_NRUNS flt builder =
      Inl AssertFailed)"
proof -
  have n: "0 < AFFINE_NRUNS" by (simp add: AFFINE_NRUNS_def)
  have "x86_clock_measure (doubles S) env log_plots None inp \<lparr>x86_dither_iters = i, frequencies = fr, instants_at = a, instants = cells,
      x86_num_durations = AFFINE_NRUNS\<rparr> w AFFINE_NRUNS flt b \<noteq> Inr y" for i fr a cells w b y
    by (rule x86_measure_fails [OF n]) simp
  then have "x86_clock_initialize S env psize rnd rnds log_plots new_address inp pool flt an os \<noteq> Inr r"
    unfolding x86_clock_initialize_def by (auto simp: bindR_eq_Inr Let_def split: option.splits)
  then show ?thesis using x86_distribution_fails [OF n, of xclock builder A env log_plots flt] by simp
qed


definition calibrated_clock :: x86_clock where
  "calibrated_clock = \<lparr>x86_dither_iters = 4, frequencies = distribution_poison, instants_at = 4096, instants = None,
     x86_num_durations = AFFINE_NRUNS\<rparr>"

theorem x86_calibration_fails_witness:
  "compute_duration_distribution fixed_point example_env None (compute_x86_duration calibrated_clock AFFINE_NRUNS) AFFINE_NRUNS
     fresh_filter fresh_builder = Inl AssertFailed"
  by (rule conjunct2 [OF x86_calibration_fails, THEN mp])
    (simp add: calibrated_clock_def distribution_empty_def fresh_builder_def)

section \<open>Liberated memory\<close>

text \<open>The storage for the timestamps is allocated with room for two of them per run and liberated with room for one per run
  and another one: in systems with pages of 4 KiB, at least a page stays mapped from 257 runs on.\<close>

lemma os_clock_finalize_leaks:
  assumes "257 \<le> num_durations oclock" and "num_durations oclock < 2 ^ 48"
    and "page_size (allocator w) = 4096" and "schedule w = Returns 0 EAGAIN # rest"
  shows "\<exists>oclock' w' unmapped. os_clock_finalize oclock w = Inr (oclock', w') \<and>
    trace w' = Unmap (timestamps_at oclock) unmapped # trace w \<and>
    unmapped + 4096 \<le> unat (rounded_size 4096 (os_timestamps_size (num_durations oclock)))"
proof -
  let ?n = "num_durations oclock"
  have size1: "unat ((word_of_nat ?n + 1) * 16 :: u64) = (?n + 1) * 16"
    using assms(2) by (simp add: unat_word_ariths take_bit_nat_eq_self unat_of_nat)
  have size2: "unat (os_timestamps_size ?n) = 2 * ?n * 16"
    using assms(2) by (simp add: os_timestamps_size_def unat_word_ariths unat_of_nat)
  have r1: "unat (rounded_size 4096 ((word_of_nat ?n + 1) * 16)) < (?n + 1) * 16 + 4096"
    using rounded_size_exact(3) [of 4096 "(word_of_nat ?n + 1) * 16"] size1 assms(2) by simp
  have r2: "2 * ?n * 16 \<le> unat (rounded_size 4096 (os_timestamps_size ?n))"
    using rounded_size_exact(2) [of 4096 "os_timestamps_size ?n"] size2 assms(2) by simp
  obtain k1 k2 where k: "unat (rounded_size 4096 ((word_of_nat ?n + 1) * 16)) = 4096 * k1"
      "unat (rounded_size 4096 (os_timestamps_size ?n)) = 4096 * k2"
    using rounded_size_exact(1) [of 4096 "(word_of_nat ?n + 1) * 16"] rounded_size_exact(1) [of 4096 "os_timestamps_size ?n"]
      size1 size2 assms(2) by (auto simp: mod_eq_0_iff_dvd elim!: dvdE)
  have "(?n + 1) * 16 + 4096 \<le> 2 * ?n * 16" using assms(1) by simp
  then have "k1 < k2" using r1 r2 k by linarith
  then have "unat (rounded_size 4096 ((word_of_nat ?n + 1) * 16)) + 4096 \<le> unat (rounded_size 4096 (os_timestamps_size ?n))"
    using k by simp
  then show ?thesis
    using assms(3,4)
    by (simp add: os_clock_finalize_def realtime_liberate_def allocation_size_def get_allocation_granularity_def get_page_size_def
        seqM_def bindM_def retM_def get_allocator_def emit_def syscall_def next_step_def)
qed


section \<open>Measurements\<close>

lemma durations_loop_seq:
  assumes "\<forall>i < length ds. compute (run + i) = Inr (ds ! i)"
  shows "durations_loop env compute (length ds) run b = insert_seq (distribution_insert env) ds b"
  using assms
proof (induction ds arbitrary: run b)
  case (Cons x ds)
  have "compute run = Inr x" using Cons.prems [rule_format, of 0] by simp
  moreover have "\<forall>i < length ds. compute (Suc run + i) = Inr (ds ! i)" using Cons.prems by fastforce
  ultimately show ?case using Cons.IH [of "Suc run"] by (simp add: bindR_def split: sum.split)
qed simp

text \<open>What a measurement needs: an arithmetic with the laws of the filter that tolerates fewer outliers than there are
  values, successful allocations, a filter in order whose rejections can be plotted, and durations with positive relative
  weights.\<close>

definition measurable :: "'d arith \<Rightarrow> heap_env \<Rightarrow> (distribution \<Rightarrow> unit res) option \<Rightarrow> 'd outlier_filter \<Rightarrow> int list \<Rightarrow> bool" where
  "measurable A env log_plots flt ds \<longleftrightarrow> score_laws A \<and> (\<forall>n > 0. max_outliers A n < n) \<and> benign env \<and> filter_ready flt \<and>
     (\<forall>plot d m. log_plots = Some plot \<and> dist_holds d m \<longrightarrow> plot d = Inr ()) \<and>
     (log_plots = None \<or> \<not> is_built (last_rejections flt)) \<and> ds \<noteq> [] \<and> length ds < 2 ^ 59 \<and>
     (\<forall>vals nums. well_binned vals nums \<and> mset (contents vals nums) = mset ds \<longrightarrow> weighable A vals nums)"

lemma compute_duration_distribution_result:
  assumes ok: "measurable A env log_plots flt ds" and b: "builder_holds b {#}"
    and compute: "\<forall>i < length ds. compute i = Inr (ds ! i)"
  shows "\<exists>d flt' kept. compute_duration_distribution A env log_plots compute (length ds) flt b = Inr (d, flt') \<and>
    filter_ready flt' \<and> dist_holds d kept \<and> kept \<subseteq># mset ds \<and> size (mset ds - kept) \<le> max_outliers A (length ds)"
proof -
  have laws: "score_laws A" and few: "\<And>n. 0 < n \<Longrightarrow> max_outliers A n < n" and env: "benign env" and ready: "filter_ready flt"
    and plots: "\<And>plot d m. log_plots = Some plot \<Longrightarrow> dist_holds d m \<Longrightarrow> plot d = Inr ()"
    and fresh: "log_plots = None \<or> \<not> is_built (last_rejections flt)" and ds: "ds \<noteq> []" "length ds < 2 ^ 59"
    and weights: "\<And>vals nums. well_binned vals nums \<Longrightarrow> mset (contents vals nums) = mset ds \<Longrightarrow> weighable A vals nums"
    using ok by (auto simp: measurable_def)
  obtain b1 where b1: "insert_seq (distribution_insert env) ds b = Inr b1" "builder_holds b1 (mset ds)"
    using samples.collect [of env b ds] env b ds by auto
  obtain vals nums where st: "stores (inner b1) vals nums" and wb: "well_binned vals nums" and m: "mset ds = mset (contents vals nums)"
    using b1(2) by (auto simp: builder_holds_def)
  let ?bs = "bins_of A vals nums"
  have w: "weighable A vals nums" by (rule weights [OF wb m [symmetric]])
  have len: "length nums = length vals" "vals \<noteq> []" using w by (auto simp: weighable_def well_binned_def)
  have size: "sum_list nums = length ds"
    using arg_cong [OF m, of size] length_contents [OF len(1)] by simp
  obtain t flt1 target where r: "outlier_filter_apply A env flt b1 = Inr (flt1, target)" "filter_ready flt1"
      "is_built (last_scores flt1)" "dist_holds (recyclable (last_scores flt1)) (samples (map (rescore A) ?bs))"
      "target_bins target (filter (\<lambda>b. d_less A t (snd (snd b))) ?bs)"
      "size (samples (filter (\<lambda>b. \<not> d_less A t (snd (snd b))) ?bs)) \<le> max_outliers A (sum_list nums)"
      "if filter (\<lambda>b. \<not> d_less A t (snd (snd b))) ?bs = [] then is_built (last_rejections flt1) = is_built (last_rejections flt)
       else is_built (last_rejections flt1) \<and>
         dist_holds (recyclable (last_rejections flt1)) (samples (filter (\<lambda>b. \<not> d_less A t (snd (snd b))) ?bs))"
    using outlier_filter_apply_result [OF laws env ready st w] unfolding Let_def by (metis (no_types, lifting))
  let ?kept = "samples (filter (\<lambda>b. d_less A t (snd (snd b))) ?bs)"
  let ?rejected = "samples (filter (\<lambda>b. \<not> d_less A t (snd (snd b))) ?bs)"
  have all: "?kept + ?rejected = mset ds"
    using samples_partition [of "\<lambda>b. d_less A t (snd (snd b))" ?bs] m by (simp add: samples_def bins_of_lists [OF len])
  have "size ?rejected < length ds" using r(6) few [of "length ds"] ds(1) size by simp
  then have "?kept \<noteq> {#}" using arg_cong [OF all, of size] by auto
  moreover have "size ?kept < 2 ^ 59" using arg_cong [OF all, of size] ds(2) by simp
  ultimately obtain d where d: "distribution_build target = Inr (d, target\<lparr>inner := distribution_poison\<rparr>)" "dist_holds d ?kept"
    using build_holds [OF target_holds [OF r(5)]] by blast
  have logs: "log_filter log_plots flt1 = Inr ()"
  proof (cases log_plots)
    case (Some plot)
    note scores = plots [OF Some r(4)]
    have "plot (recyclable (last_rejections flt1)) = Inr ()" if "is_built (last_rejections flt1)"
      using r(7) that fresh Some plots [OF Some] by (auto split: if_splits)
    then show ?thesis
      using scores r(3) Some by (simp add: log_filter_def outlier_filter_last_scores_def outlier_filter_last_rejections_def)
  qed (simp add: log_filter_def)
  have result: "(case log_plots of None \<Rightarrow> Inr () | Some plot \<Rightarrow> plot d) = Inr ()"
    using plots d(2) by (cases log_plots) simp_all
  have "distribution_empty b" using b by (simp add: empty_builder_stores stores_def distribution_empty_def)
  moreover have "durations_loop env compute (length ds) 0 b = Inr b1" using durations_loop_seq [of ds compute 0 env b] compute b1 by simp
  ultimately have "compute_duration_distribution A env log_plots compute (length ds) flt b = Inr (d, flt1)"
    using r(1) logs d(1) result by (simp add: compute_duration_distribution_def)
  moreover have "?kept \<subseteq># mset ds" "mset ds - ?kept = ?rejected" using all by (metis mset_subset_eq_add_left, metis add_diff_cancel_left')
  ultimately show ?thesis using r(2,6) d(2) size by (intro exI [of _ d] exI [of _ flt1] exI [of _ ?kept]) simp
qed


text \<open>The readings around the runs, in the order in which they are taken and stored.\<close>

definition readings :: "(timespec \<times> timespec) list \<Rightarrow> timespec list" where
  "readings runs = concat (map (\<lambda>(s, e). [s, e]) runs)"

lemma readings_simps [simp]:
  "readings [] = []" "readings ((s, e) # runs) = s # e # readings runs" "readings (xs @ ys) = readings xs @ readings ys"
  "length (readings runs) = 2 * length runs"
proof -
  show "length (readings runs) = 2 * length runs" by (induction runs) (auto simp: readings_def)
qed (simp_all add: readings_def)

lemma readings_nth:
  "i < length runs \<Longrightarrow> readings runs ! (2 * i) = fst (runs ! i) \<and> readings runs ! (2 * i + 1) = snd (runs ! i)"
proof (induction runs arbitrary: i)
  case (Cons r runs)
  then show ?case by (cases r; cases i) auto
qed simp

lemma write_two:
  assumes "i = length xs" and "2 \<le> length r"
  shows "bindR (write_cell (map Some xs @ r) i s) (\<lambda>ts. write_cell ts (i + 1) e) = Inr (map Some (xs @ [s, e]) @ drop 2 r)"
proof -
  obtain a b r' where "r = a # b # r'" using assms(2) by (cases r; cases "tl r") auto
  then show ?thesis using assms(1) by (simp add: write_cell_def list_update_append)
qed

lemma os_runs_loop_result:
  assumes "iters < SIZE_MAX" and "2 * length runs \<le> length r"
  shows "os_runs_loop iters (length runs) (length prev) (map Some (readings prev) @ r) (readings runs @ rest) =
    Inr (map Some (readings (prev @ runs)) @ drop (2 * length runs) r, rest)"
  using assms
proof (induction runs arbitrary: prev r)
  case (Cons x runs)
  obtain s e where x: "x = (s, e)" by (cases x)
  have dither: "dither iters = Inr ()" using Cons.prems(1) by (simp add: dither_def SIZE_MAX_def)
  have "bindR (write_cell (map Some (readings prev) @ r) (2 * length prev) s) (\<lambda>ts. write_cell ts (2 * length prev + 1) e) =
      Inr (map Some (readings prev @ [s, e]) @ drop 2 r)"
    by (rule write_two) (use Cons.prems(2) in simp_all)
  then obtain ts where w: "write_cell (map Some (readings prev) @ r) (2 * length prev) s = Inr ts"
      "write_cell ts (2 * length prev + 1) e = Inr (map Some (readings (prev @ [x])) @ drop 2 r)"
    by (auto simp: bindR_eq_Inr x)
  have "os_runs_loop iters (length runs) (length (prev @ [x])) (map Some (readings (prev @ [x])) @ drop 2 r) (readings runs @ rest) =
      Inr (map Some (readings ((prev @ [x]) @ runs)) @ drop (2 * length runs) (drop 2 r), rest)"
    by (rule Cons.IH) (use Cons.prems in simp_all)
  then show ?case using dither w by (simp add: x)
qed simp


definition small_clock :: os_clock where
  "small_clock = \<lparr>dither_iters = 4, best_empty_iters = 0, best_empty_changes = distribution_poison, timestamps_at = 4096,
     timestamps = Some (replicate 4 None), num_durations = 2\<rparr>"

lemma single_bin:
  assumes "well_binned vals nums" and "mset (contents vals nums) = {#x#}"
  shows "vals = [x] \<and> nums = [1]"
proof -
  have len: "length nums = length vals" and pos: "\<forall>n \<in> set nums. 0 < n" using assms(1) by (simp_all add: well_binned_def)
  have "sum_list nums = 1" using arg_cong [OF assms(2), of size] length_contents [OF len] by simp
  then obtain n where n: "nums = [n]" "n = 1"
    using pos by (cases nums; cases "tl nums") (auto simp: add_is_1)
  then obtain v where "vals = [v]" using len by (cases vals) auto
  then show ?thesis using n assms(2) by (simp add: contents_def)
qed


end
