(* ===== verification/ClockCalibration.thy ===== *)
theory ClockCalibration
  imports BenchmarkClock
begin

text \<open>
  Model of the calibration of the operating system clock, \<open>os_clock_initialize\<close> of src/benchmark.c (Linux, debug build).  Three
  loops double the number of iterations of an empty loop: until its duration changes noticeably, until the change is large against
  the noise, and as long as the change doubles too.

  The calibration depends on measured durations, so its loops may go on forever.  Each turn of a loop takes readings of
  the clock; the number of readings that are left is the fuel of the loops, and a calibration that would take more of
  them stops with \<open>ScheduleEnd\<close>.  The formatting of estimates for the log is not modelled.
\<close>

section \<open>Loops\<close>

text \<open>A loop whose body returns \<open>Inl\<close> to continue and \<open>Inr\<close> to leave it.\<close>

fun loop_fuel :: "nat \<Rightarrow> ('s \<Rightarrow> ('s + 'r) res) \<Rightarrow> 's \<Rightarrow> 'r res" where
  "loop_fuel 0 turn s = Inl ScheduleEnd"
| "loop_fuel (Suc fuel) turn s =
     bindR (turn s) (\<lambda>next_state. case next_state of Inl s' \<Rightarrow> loop_fuel fuel turn s' | Inr r \<Rightarrow> Inr r)"

text \<open>A loop whose turns use up a resource needs no more fuel than there is of it.\<close>

locale counted_loop =
  fixes turn :: "'s \<Rightarrow> ('s + 'r) res" and resource :: "'s \<Rightarrow> nat"
  assumes turn_takes: "turn s = Inr (Inl s') \<Longrightarrow> resource s' < resource s"
begin

lemma fuel_enough:
  assumes "resource s < fuel" and "resource s < fuel'"
  shows "loop_fuel fuel turn s = loop_fuel fuel' turn s"
  using assms
proof (induction fuel arbitrary: fuel' s)
  case (Suc fuel)
  obtain n where n: "fuel' = Suc n" using Suc.prems(2) by (cases fuel') auto
  have "loop_fuel fuel turn s' = loop_fuel n turn s'" if "turn s = Inr (Inl s')" for s'
    using Suc.IH [of s' n] turn_takes [OF that] Suc.prems n by simp
  then show ?case by (cases "turn s") (auto simp: n split: sum.split)
qed simp

end

lemma loop_fuel_invariant:
  assumes "loop_fuel fuel turn s = Inr r" and "P s"
    and "\<And>s s'. turn s = Inr (Inl s') \<Longrightarrow> P s \<Longrightarrow> P s'" and "\<And>s r. turn s = Inr (Inr r) \<Longrightarrow> P s \<Longrightarrow> Q r"
  shows "Q r"
  using assms(1,2)
proof (induction fuel arbitrary: s)
  case (Suc fuel)
  then show ?case using assms(3,4) by (cases "turn s") (auto split: sum.splits)
qed simp

section \<open>State\<close>

text \<open>What the calibration takes from its surroundings: the arithmetic, the heap, the page size, the draws of \<open>rand()\<close> for the
  differences and for the analyses, in the order of these, and the plots of distributions in the log.\<close>

record 'd bench_env =
  b_arith :: "'d statistics_arith"
  b_heap :: heap_env
  b_page :: nat
  b_rand :: "nat \<Rightarrow> nat \<Rightarrow> nat"
  b_resample :: "nat \<Rightarrow> nat \<Rightarrow> nat \<Rightarrow> nat"
  b_plots :: "(distribution \<Rightarrow> unit res) option"

text \<open>The objects that the calibration uses, the readings of the clock and the number of random sequences drawn,
  and the local variables that live across the loops.  The best slope estimate and its dispersion exist in the affine range.\<close>

record 'd calibration =
  cal_os :: os_clock
  cal_pool :: distribution_pool
  cal_filter :: "'d outlier_filter"
  cal_analyzer :: "'d analyzer"
  cal_readings :: "timespec list"
  cal_draws :: nat
  num_iters :: nat
  clock_resolution :: nat
  curr_durations :: distribution
  curr_changes :: distribution
  changes_stats :: "'d statistics option"
  best_slope :: "('d estimate \<times> 'd) option"

definition THRESHOLD_WARMUP :: u64 where
  "THRESHOLD_WARMUP = 1000 * UDIPE_MILLISECOND"

definition THRESHOLD_NRUNS :: nat where
  "THRESHOLD_NRUNS = 64 * 1024"

definition SIGNAL_WARMUP :: u64 where
  "SIGNAL_WARMUP = 2000 * UDIPE_MILLISECOND"

definition SIGNAL_NRUNS :: nat where
  "SIGNAL_NRUNS = 64 * 1024"

definition MIN_QUANTIZATION_SNR :: "'d arith \<Rightarrow> 'd" where
  "MIN_QUANTIZATION_SNR A = literal A 50 1"

definition MIN_RANDOM_SNR :: "'d arith \<Rightarrow> 'd" where
  "MIN_RANDOM_SNR A = literal A 10 1"

section \<open>Steps\<close>

definition cal_request :: "'d bench_env \<Rightarrow> 'd calibration \<Rightarrow> (distribution_builder \<times> 'd calibration) res" where
  "cal_request E c =
     bindR (distribution_pool_request (b_heap E) (b_page E) (cal_pool c)) (\<lambda>(builder, pool). Inr (builder, c\<lparr>cal_pool := pool\<rparr>))"

definition cal_recycle :: "'d bench_env \<Rightarrow> distribution \<Rightarrow> 'd calibration \<Rightarrow> 'd calibration res" where
  "cal_recycle E d c = bindR (distribution_pool_recycle (b_heap E) (cal_pool c) d) (\<lambda>(pool, _). Inr (c\<lparr>cal_pool := pool\<rparr>))"

definition cal_measure :: "'d bench_env \<Rightarrow> u64 \<Rightarrow> nat \<Rightarrow> 'd calibration \<Rightarrow> (distribution \<times> 'd calibration) res" where
  "cal_measure E warmup num_runs c =
     bindR (cal_request E c) (\<lambda>(builder, c).
     bindR (os_clock_measure (doubles (b_arith E)) (b_heap E) (b_plots E) None (cal_readings c) (cal_os c) warmup num_runs
              (cal_filter c) builder) (\<lambda>(durations, flt, oclock, clock).
     Inr (durations, c\<lparr>cal_os := oclock, cal_filter := flt, cal_readings := clock\<rparr>)))"

definition cal_sub ::
    "'d bench_env \<Rightarrow> distribution_builder \<Rightarrow> distribution \<Rightarrow> distribution \<Rightarrow> 'd calibration \<Rightarrow> (distribution \<times> 'd calibration) res" where
  "cal_sub E builder minuend subtrahend c =
     bindR (distribution_sub (b_heap E) (b_rand E (cal_draws c)) builder minuend subtrahend) (\<lambda>(diff, _).
     Inr (diff, c\<lparr>cal_draws := Suc (cal_draws c)\<rparr>))"

definition cal_analyze :: "'d bench_env \<Rightarrow> distribution \<Rightarrow> 'd calibration \<Rightarrow> ('d statistics \<times> 'd calibration) res" where
  "cal_analyze E d c =
     bindR (analyzer_apply (b_arith E) (b_heap E) (b_resample E (cal_draws c)) (cal_analyzer c) d) (\<lambda>(stats, an).
     Inr (stats, c\<lparr>cal_analyzer := an, cal_draws := Suc (cal_draws c)\<rparr>))"

definition double_iters :: "'d calibration \<Rightarrow> 'd calibration" where
  "double_iters c = c\<lparr>num_iters := num_iters c * 2 mod 2 ^ 64\<rparr>"

section \<open>The first loop: a noticeable change\<close>

definition update_resolution :: "distribution \<Rightarrow> distribution \<Rightarrow> nat \<Rightarrow> nat res" where
  "update_resolution prev durations resolution =
     (if resolution > 1 then
        bindR (distribution_min_difference durations) (\<lambda>curr_resolution.
        let resolution = if curr_resolution < resolution then curr_resolution else resolution
        in bindR (distribution_min_difference_with prev durations) (\<lambda>delta_resolution.
        Inr (if delta_resolution < resolution then delta_resolution else resolution)))
      else Inr resolution)"

definition threshold_turn :: "'d bench_env \<Rightarrow> 'd calibration \<Rightarrow> ('d calibration + 'd calibration) res" where
  "threshold_turn E c =
     (let A = doubles (b_arith E);
          prev = curr_durations c
      in bindR (cal_measure E THRESHOLD_WARMUP THRESHOLD_NRUNS (double_iters c)) (\<lambda>(durations, c).
      bindR (update_resolution prev durations (clock_resolution c)) (\<lambda>resolution.
      bindR (cal_request E (c\<lparr>clock_resolution := resolution\<rparr>)) (\<lambda>(builder, c).
      bindR (cal_sub E builder durations prev c) (\<lambda>(changes, c).
      bindR (cal_recycle E prev c) (\<lambda>c.
      bindR (cal_analyze E changes c) (\<lambda>(stats, c).
      let c = c\<lparr>curr_durations := durations, curr_changes := changes, changes_stats := Some stats\<rparr>
      in if d_le A (low (low_tail_bound stats)) (d_zero A) then bindR (cal_recycle E changes c) (\<lambda>c. Inr (Inl c))
         else Inr (Inr c))))))))"

section \<open>The second loop: a change above the noise\<close>

definition too_noisy :: "'d arith \<Rightarrow> nat \<Rightarrow> 'd statistics \<Rightarrow> bool" where
  "too_noisy A resolution stats \<longleftrightarrow>
     d_less A (low (mean stats)) (d_fmax A (d_mul A (MIN_RANDOM_SNR A) (high (center_width stats)))
       (d_mul A (MIN_QUANTIZATION_SNR A) (of_unsigned A resolution)))"

definition signal_turn :: "'d bench_env \<Rightarrow> 'd calibration \<Rightarrow> ('d calibration + 'd calibration) res" where
  "signal_turn E c =
     (case changes_stats c of
        None \<Rightarrow> Inl UndefinedBehaviour
      | Some stats \<Rightarrow>
          if too_noisy (doubles (b_arith E)) (clock_resolution c) stats then
            let prev = curr_durations c
            in bindR (cal_measure E SIGNAL_WARMUP SIGNAL_NRUNS (double_iters c)) (\<lambda>(durations, c).
            bindR (cal_sub E (fst (distribution_reset (curr_changes c))) durations prev c) (\<lambda>(changes, c).
            bindR (cal_recycle E prev c) (\<lambda>c.
            bindR (cal_analyze E changes c) (\<lambda>(stats, c).
            Inr (Inl (c\<lparr>curr_durations := durations, curr_changes := changes, changes_stats := Some stats\<rparr>))))))
          else Inr (Inr c))"

section \<open>The third loop: the affine range\<close>

definition slope_changed :: "'d arith \<Rightarrow> nat \<Rightarrow> 'd statistics \<Rightarrow> bool" where
  "slope_changed A resolution stats \<longleftrightarrow> d_less A (of_unsigned A resolution) (low (mean stats)) \<or>
     d_less A (high (mean stats)) (d_neg A (of_unsigned A resolution))"

text \<open>A new best estimate of the slope keeps its distribution of changes; the distribution of the previous best goes back to the pool.\<close>

definition keep_best :: "'d bench_env \<Rightarrow> 'd estimate \<Rightarrow> 'd \<Rightarrow> 'd calibration \<Rightarrow> 'd calibration res" where
  "keep_best E slope dispersion c =
     bindR (if best_slope c = None then Inr c else cal_recycle E (best_empty_changes (cal_os c)) c) (\<lambda>c.
     bindR (distribution_clone (b_heap E) (curr_changes c)) (\<lambda>clone.
     Inr (c\<lparr>best_slope := Some (slope, dispersion),
            cal_os := (cal_os c)\<lparr>best_empty_iters := num_iters c div 2, best_empty_changes := clone\<rparr>\<rparr>)))"

definition judge_slope :: "'d bench_env \<Rightarrow> 'd statistics \<Rightarrow> 'd statistics \<Rightarrow> 'd calibration \<Rightarrow> ('d calibration + 'd calibration) res" where
  "judge_slope E stats diff_stats c =
     (let A = doubles (b_arith E)
      in if slope_changed A (clock_resolution c) diff_stats then
           (case best_slope c of None \<Rightarrow> Inr (Inl c) | Some _ \<Rightarrow> Inr (Inr c))
         else
           let slope = estimate_iteration_duration (b_arith E) (mean stats) (num_iters c div 2);
               dispersion = relative_dispersion A slope
           in case best_slope c of
                Some (_, best_dispersion) \<Rightarrow>
                  if d_less A dispersion best_dispersion then bindR (keep_best E slope dispersion c) (\<lambda>c. Inr (Inl c))
                  else Inr (Inl c)
              | None \<Rightarrow> bindR (keep_best E slope dispersion c) (\<lambda>c. Inr (Inl c)))"

definition affine_turn :: "'d bench_env \<Rightarrow> 'd calibration \<Rightarrow> ('d calibration + 'd calibration) res" where
  "affine_turn E c =
     (let prev_durations = curr_durations c;
          prev_changes = curr_changes c
      in bindR (cal_measure E SIGNAL_WARMUP SIGNAL_NRUNS (double_iters c)) (\<lambda>(durations, c).
      bindR (cal_request E c) (\<lambda>(builder, c).
      bindR (cal_sub E builder durations prev_durations c) (\<lambda>(changes, c).
      bindR (cal_recycle E prev_durations c) (\<lambda>c.
      bindR (cal_analyze E changes c) (\<lambda>(stats, c).
      bindR (cal_request E c) (\<lambda>(builder, c).
      bindR (distribution_scale (b_heap E) builder 2 prev_changes) (\<lambda>(predicted, _).
      bindR (cal_sub E (fst (distribution_reset prev_changes)) changes predicted c) (\<lambda>(diff, c).
      bindR (cal_recycle E predicted c) (\<lambda>c.
      bindR (cal_analyze E diff c) (\<lambda>(diff_stats, c).
      bindR (cal_recycle E diff c) (\<lambda>c.
      judge_slope E stats diff_stats
        (c\<lparr>curr_durations := durations, curr_changes := changes, changes_stats := Some stats\<rparr>)))))))))))))"

section \<open>Calibration\<close>

definition max_runs :: nat where
  "max_runs = max (max THRESHOLD_NRUNS SIGNAL_NRUNS) AFFINE_NRUNS"

definition zero_os_clock :: os_clock where
  "zero_os_clock = \<lparr>dither_iters = 0, best_empty_iters = 0, best_empty_changes = \<lparr>allocation = None, num_bins = 0, capacity = 0\<rparr>,
     timestamps_at = 0, timestamps = None, num_durations = 0\<rparr>"

definition calibrate :: "('d calibration \<Rightarrow> ('d calibration + 'd calibration) res) \<Rightarrow> 'd calibration \<Rightarrow> 'd calibration res" where
  "calibrate turn c = loop_fuel (Suc (length (cal_readings c))) turn c"

definition os_clock_initialize ::
    "'d bench_env \<Rightarrow> nat option \<Rightarrow> timespec list \<Rightarrow> distribution_pool \<Rightarrow> 'd outlier_filter \<Rightarrow> 'd analyzer \<Rightarrow> 'd calibration res" where
  "os_clock_initialize E new_address clock pool flt an =
     (case new_address of
        None \<Rightarrow> Inl ExitError
      | Some a \<Rightarrow>
          let oclock = zero_os_clock\<lparr>timestamps_at := a, timestamps := Some (replicate (2 * max_runs) None), num_durations := max_runs\<rparr>;
              c = \<lparr>cal_os = oclock, cal_pool = pool, cal_filter = flt, cal_analyzer = an, cal_readings = clock, cal_draws = 0,
                   num_iters = 1, clock_resolution = 0, curr_durations = distribution_poison, curr_changes = distribution_poison,
                   changes_stats = None, best_slope = None\<rparr>
          in bindR (cal_measure E THRESHOLD_WARMUP THRESHOLD_NRUNS c) (\<lambda>(durations, c).
          bindR (distribution_min_difference durations) (\<lambda>resolution.
          bindR (calibrate (threshold_turn E) (c\<lparr>curr_durations := durations, clock_resolution := resolution\<rparr>)) (\<lambda>c.
          ensure_that (num_iters c \<ge> 2) (
          bindR (calibrate (signal_turn E) (c\<lparr>cal_os := (cal_os c)\<lparr>dither_iters := num_iters c div 2\<rparr>\<rparr>)) (\<lambda>c.
          bindR (calibrate (affine_turn E) c) (\<lambda>c.
          bindR (cal_recycle E (curr_durations c) c) (\<lambda>c.
          cal_recycle E (curr_changes c) c))))))))"


section \<open>Every turn reads the clock\<close>

lemma os_warmup_loop_takes: "os_warmup_loop iters warmup start clock = Inr clock' \<Longrightarrow> length clock' < length clock"
  by (induction iters warmup start clock rule: os_warmup_loop.induct)
     (auto simp: seqR_def bindR_eq_Inr Let_def less_Suc_eq split: if_splits)

lemma os_now_takes: "os_now clock = Inr (t, clock') \<Longrightarrow> length clock = Suc (length clock')"
  by (cases clock) auto

lemma os_runs_loop_takes: "os_runs_loop iters todo run ts clock = Inr (ts', clock') \<Longrightarrow> length clock' \<le> length clock"
proof (induction todo arbitrary: run ts clock)
  case (Suc todo)
  then show ?case by (fastforce simp: seqR_def bindR_eq_Inr dest!: os_now_takes)
qed simp

lemma os_clock_measure_takes:
  assumes "os_clock_measure A env plots address clock oclock warmup num_runs flt builder = Inr (d, flt', oclock', clock')"
  shows "length clock' < length clock"
  using assms
  by (fastforce simp: os_clock_measure_def bindR_eq_Inr Let_def ensure_that_eq_Inr split: option.splits
      dest!: os_now_takes os_warmup_loop_takes os_runs_loop_takes)

named_theorems keeps_readings \<open>steps of the calibration that read no clock\<close>

lemma cal_request_readings [keeps_readings]: "cal_request E c = Inr (b, c') \<Longrightarrow> cal_readings c' = cal_readings c"
  by (auto simp: cal_request_def bindR_eq_Inr)

lemma cal_recycle_readings [keeps_readings]: "cal_recycle E d c = Inr c' \<Longrightarrow> cal_readings c' = cal_readings c"
  by (auto simp: cal_recycle_def bindR_eq_Inr)

lemma cal_sub_readings [keeps_readings]: "cal_sub E b d1 d2 c = Inr (d, c') \<Longrightarrow> cal_readings c' = cal_readings c"
  by (auto simp: cal_sub_def bindR_eq_Inr)

lemma cal_analyze_readings [keeps_readings]: "cal_analyze E d c = Inr (s, c') \<Longrightarrow> cal_readings c' = cal_readings c"
  by (auto simp: cal_analyze_def bindR_eq_Inr)

lemma keep_best_readings [keeps_readings]: "keep_best E s d c = Inr c' \<Longrightarrow> cal_readings c' = cal_readings c"
  by (auto simp: keep_best_def bindR_eq_Inr split: if_splits dest!: keeps_readings)

lemma judge_slope_readings [keeps_readings]: "judge_slope E s d c = Inr (Inl c') \<Longrightarrow> cal_readings c' = cal_readings c"
  by (auto simp: judge_slope_def bindR_eq_Inr Let_def split: if_splits option.splits prod.splits dest!: keeps_readings)

lemma cal_measure_takes: "cal_measure E warmup n c = Inr (d, c') \<Longrightarrow> length (cal_readings c') < length (cal_readings c)"
  by (auto simp: cal_measure_def bindR_eq_Inr dest!: keeps_readings os_clock_measure_takes)

lemma double_iters_readings [simp]: "cal_readings (double_iters c) = cal_readings c"
  by (simp add: double_iters_def)

interpretation threshold: counted_loop "threshold_turn E" "\<lambda>c. length (cal_readings c)"
  by unfold_locales
    (auto simp: threshold_turn_def bindR_eq_Inr Let_def split: if_splits dest!: keeps_readings cal_measure_takes)

interpretation signal: counted_loop "signal_turn E" "\<lambda>c. length (cal_readings c)"
  by unfold_locales
    (auto simp: signal_turn_def bindR_eq_Inr Let_def split: if_splits option.splits dest!: keeps_readings cal_measure_takes)

interpretation affine: counted_loop "affine_turn E" "\<lambda>c. length (cal_readings c)"
  by unfold_locales
    (auto simp: affine_turn_def bindR_eq_Inr Let_def dest!: keeps_readings cal_measure_takes)

text \<open>More fuel than one unit per reading makes no difference to a calibration loop.\<close>

theorem calibration_fuel_enough:
  "loop_fuel (Suc (length (cal_readings c)) + extra) (threshold_turn E) c = calibrate (threshold_turn E) c \<and>
   loop_fuel (Suc (length (cal_readings c)) + extra) (signal_turn E) c = calibrate (signal_turn E) c \<and>
   loop_fuel (Suc (length (cal_readings c)) + extra) (affine_turn E) c = calibrate (affine_turn E) c"
  unfolding calibrate_def
  by (intro conjI threshold.fuel_enough signal.fuel_enough affine.fuel_enough) simp_all


section \<open>The numbers of iterations\<close>

definition counts :: "'d calibration \<Rightarrow> nat \<times> nat \<times> nat \<times> ('d estimate \<times> 'd) option" where
  "counts c = (num_iters c, dither_iters (cal_os c), best_empty_iters (cal_os c), best_slope c)"

named_theorems keeps_counts \<open>steps of the calibration that keep the numbers of iterations\<close>

lemma cal_request_counts [keeps_counts]: "cal_request E c = Inr (b, c') \<Longrightarrow> counts c' = counts c"
  by (auto simp: cal_request_def bindR_eq_Inr counts_def)

lemma cal_recycle_counts [keeps_counts]: "cal_recycle E d c = Inr c' \<Longrightarrow> counts c' = counts c"
  by (auto simp: cal_recycle_def bindR_eq_Inr counts_def)

lemma cal_sub_counts [keeps_counts]: "cal_sub E b d1 d2 c = Inr (d, c') \<Longrightarrow> counts c' = counts c"
  by (auto simp: cal_sub_def bindR_eq_Inr counts_def)

lemma cal_analyze_counts [keeps_counts]: "cal_analyze E d c = Inr (s, c') \<Longrightarrow> counts c' = counts c"
  by (auto simp: cal_analyze_def bindR_eq_Inr counts_def)

lemma ensure_timestamps_iters:
  "ensure_timestamps a n oclock = Inr oclock' \<Longrightarrow>
     dither_iters oclock' = dither_iters oclock \<and> best_empty_iters oclock' = best_empty_iters oclock"
  by (auto simp: ensure_timestamps_def split: if_splits option.splits)

lemma os_clock_measure_iters:
  assumes "os_clock_measure A env plots address clock oclock warmup num_runs flt builder = Inr (d, flt', oclock', clock')"
  shows "dither_iters oclock' = dither_iters oclock \<and> best_empty_iters oclock' = best_empty_iters oclock"
  using assms
  by (fastforce simp: os_clock_measure_def bindR_eq_Inr Let_def ensure_that_eq_Inr split: option.splits dest!: ensure_timestamps_iters)

lemma cal_measure_counts [keeps_counts]: "cal_measure E warmup n c = Inr (d, c') \<Longrightarrow> counts c' = counts c"
  by (fastforce simp: cal_measure_def bindR_eq_Inr counts_def dest!: cal_request_counts os_clock_measure_iters)

lemma counts_local_updates [simp]:
  "counts (c\<lparr>curr_durations := d, curr_changes := d', changes_stats := s\<rparr>) = counts c"
  "counts (c\<lparr>clock_resolution := r\<rparr>) = counts c"
  "counts (c\<lparr>curr_durations := d, clock_resolution := r\<rparr>) = counts c"
  by (simp_all add: counts_def)

lemma threshold_turn_counts:
  "threshold_turn E c = Inr (Inl c') \<Longrightarrow> counts c' = counts (double_iters c)"
  "threshold_turn E c = Inr (Inr c') \<Longrightarrow> counts c' = counts (double_iters c)"
  by (auto simp: threshold_turn_def bindR_eq_Inr Let_def split: if_splits dest!: keeps_counts)

lemma signal_turn_counts:
  "signal_turn E c = Inr (Inl c') \<Longrightarrow> counts c' = counts (double_iters c)"
  "signal_turn E c = Inr (Inr c') \<Longrightarrow> c' = c"
  by (auto simp: signal_turn_def bindR_eq_Inr Let_def split: if_splits option.splits dest!: keeps_counts)

lemma affine_turn_judges:
  "affine_turn E c = Inr r \<Longrightarrow> \<exists>stats diff_stats c1. judge_slope E stats diff_stats c1 = Inr r \<and> counts c1 = counts (double_iters c)"
  by (fastforce simp: affine_turn_def bindR_eq_Inr Let_def dest!: keeps_counts)


lemma double_power: "num_iters c = 2 ^ j mod 2 ^ 64 \<Longrightarrow> num_iters (double_iters c) = 2 ^ Suc j mod 2 ^ 64"
  unfolding double_iters_def by (simp add: mod_mult_right_eq mult.commute [of _ 2])

text \<open>The state of the calibration after a dithering loop of \<open>2 ^ m\<close> iterations was chosen.\<close>

definition calibrating :: "nat \<Rightarrow> 'd calibration \<Rightarrow> bool" where
  "calibrating m c \<longleftrightarrow> dither_iters (cal_os c) = 2 ^ m \<and> (\<exists>j > m. num_iters c = 2 ^ j mod 2 ^ 64) \<and>
     (best_slope c \<noteq> None \<longrightarrow> (\<exists>k > Suc m. best_empty_iters (cal_os c) = 2 ^ k mod 2 ^ 64 div 2))"

lemma calibrating_counts: "counts c' = counts c \<Longrightarrow> calibrating m c' = calibrating m c"
  by (simp add: counts_def calibrating_def)

lemma calibrating_double:
  assumes "calibrating m c"
  shows "calibrating m (double_iters c)" and "\<exists>j > Suc m. num_iters (double_iters c) = 2 ^ j mod 2 ^ 64"
proof -
  obtain j where j: "m < j" "num_iters c = 2 ^ j mod 2 ^ 64" using assms by (auto simp: calibrating_def)
  then show more: "\<exists>j > Suc m. num_iters (double_iters c) = 2 ^ j mod 2 ^ 64" using double_power [OF j(2)] by blast
  have "cal_os (double_iters c) = cal_os c" "best_slope (double_iters c) = best_slope c" by (simp_all add: double_iters_def)
  with more assms show "calibrating m (double_iters c)" unfolding calibrating_def by (metis Suc_lessD)
qed

lemma keep_best_calibrating:
  assumes "keep_best E s d c = Inr c'" and "calibrating m c" and "\<exists>j > Suc m. num_iters c = 2 ^ j mod 2 ^ 64"
  shows "calibrating m c' \<and> best_slope c' \<noteq> None"
proof -
  obtain c1 clone where c1: "counts c1 = counts c"
      "c' = c1\<lparr>best_slope := Some (s, d), cal_os := (cal_os c1)\<lparr>best_empty_iters := num_iters c1 div 2, best_empty_changes := clone\<rparr>\<rparr>"
    using assms(1) by (auto simp: keep_best_def bindR_eq_Inr split: if_splits dest!: keeps_counts)
  then have "num_iters c1 = num_iters c" "dither_iters (cal_os c1) = dither_iters (cal_os c)" by (simp_all add: counts_def)
  then show ?thesis using c1(2) assms(2,3) unfolding calibrating_def by auto
qed

lemma affine_turn_calibrating:
  assumes "affine_turn E c = Inr r" and "calibrating m c"
  shows "case r of Inl c' \<Rightarrow> calibrating m c' | Inr c' \<Rightarrow> calibrating m c' \<and> best_slope c' \<noteq> None"
proof -
  obtain stats diff c1 where j: "judge_slope E stats diff c1 = Inr r" "counts c1 = counts (double_iters c)"
    using affine_turn_judges [OF assms(1)] by blast
  have c1: "calibrating m c1" using calibrating_double(1) [OF assms(2)] calibrating_counts [OF j(2)] by simp
  have more: "\<exists>j > Suc m. num_iters c1 = 2 ^ j mod 2 ^ 64" using calibrating_double(2) [OF assms(2)] j(2) by (simp add: counts_def)
  show ?thesis
    using j(1) c1 keep_best_calibrating [OF _ c1 more]
    by (auto simp: judge_slope_def bindR_eq_Inr Let_def split: if_splits option.splits prod.splits)
qed

lemma threshold_power:
  assumes "calibrate (threshold_turn E) c = Inr c'" and "num_iters c = 2 ^ j mod 2 ^ 64"
  shows "\<exists>k. num_iters c' = 2 ^ k mod 2 ^ 64"
proof -
  let ?P = "\<lambda>c. \<exists>k. num_iters c = 2 ^ k mod 2 ^ 64"
  have step: "?P c'" if "counts c' = counts (double_iters c)" "?P c" for c c' :: "'a calibration"
    using that double_power unfolding counts_def by (metis prod.inject)
  show ?thesis
    by (rule loop_fuel_invariant [where P = ?P and Q = ?P, OF assms(1) [unfolded calibrate_def]])
       (use assms(2) step threshold_turn_counts in blast)+
qed

lemma power_at_least_2:
  assumes "n = 2 ^ k mod 2 ^ 64" and "2 \<le> (n :: nat)"
  shows "\<exists>m. k = Suc m \<and> m < 63 \<and> n div 2 = 2 ^ m"
proof -
  have "k < 64"
  proof (rule ccontr)
    assume "\<not> k < 64"
    then have "(2 :: nat) ^ 64 dvd 2 ^ k" by (intro le_imp_power_dvd) simp
    then show False using assms by (simp add: dvd_eq_mod_eq_0 del: power_le_dvd)
  qed
  then have n: "n = 2 ^ k" using assms(1) power_strict_increasing [of k 64 "2 :: nat"] by simp
  then show ?thesis using assms(2) \<open>k < 64\<close> by (cases k) auto
qed


text \<open>A calibration that returns has chosen a dithering loop of \<open>2 ^ m\<close> iterations, and for the slope a larger power of 2 as
  number of iterations, which is 0 if the doubling went beyond 64 bits.\<close>

theorem calibrated_iterations:
  assumes "os_clock_initialize E new_address clock pool flt an = Inr c"
  shows "\<exists>m < 63. \<exists>k > Suc m. dither_iters (cal_os c) = 2 ^ m \<and> best_empty_iters (cal_os c) = 2 ^ k mod 2 ^ 64 div 2"
proof -
  obtain b d x c1 c2 c3 where c0: "num_iters b = 1" "calibrate (threshold_turn E) (b\<lparr>curr_durations := d, clock_resolution := x\<rparr>) = Inr c1"
        "best_slope b = None" "2 \<le> num_iters c1"
      and c2: "calibrate (signal_turn E) (c1\<lparr>cal_os := (cal_os c1)\<lparr>dither_iters := num_iters c1 div 2\<rparr>\<rparr>) = Inr c2"
      and c3: "calibrate (affine_turn E) c2 = Inr c3" "dither_iters (cal_os c) = dither_iters (cal_os c3)"
        "best_empty_iters (cal_os c) = best_empty_iters (cal_os c3)"
    using assms
    by (auto simp: os_clock_initialize_def bindR_eq_Inr Let_def ensure_that_eq_Inr counts_def split: option.splits dest!: keeps_counts)
  obtain k where k: "num_iters c1 = 2 ^ k mod 2 ^ 64" using threshold_power [OF c0(2), of 0] c0(1) by auto
  obtain m where m: "k = Suc m" "m < 63" "num_iters c1 div 2 = 2 ^ m" using power_at_least_2 [OF k c0(4)] by blast
  have none: "best_slope s' = None" if "counts s' = counts (double_iters s)" "best_slope s = None" for s s' :: "'a calibration"
    using that by (simp add: counts_def double_iters_def)
  have "best_slope c1 = None"
    by (rule loop_fuel_invariant [where P = "\<lambda>c. best_slope c = None" and Q = "\<lambda>c. best_slope c = None", OF c0(2) [unfolded calibrate_def]])
       (simp add: c0(3), (erule none [OF threshold_turn_counts(1)] none [OF threshold_turn_counts(2)], assumption)+)
  then have "calibrating m (c1\<lparr>cal_os := (cal_os c1)\<lparr>dither_iters := num_iters c1 div 2\<rparr>\<rparr>)"
    using k m by (auto simp: calibrating_def)
  then have "calibrating m c2"
    by (rule loop_fuel_invariant [where P = "calibrating m" and Q = "calibrating m", OF c2 [unfolded calibrate_def]])
       (use signal_turn_counts calibrating_counts calibrating_double(1) in blast)+
  then have "calibrating m c3 \<and> best_slope c3 \<noteq> None"
    by (rule loop_fuel_invariant [where P = "calibrating m" and Q = "\<lambda>c. calibrating m c \<and> best_slope c \<noteq> None", OF c3(1) [unfolded calibrate_def]])
       (use affine_turn_calibrating in fastforce)+
  then show ?thesis using c3(2,3) m(2) by (auto simp: calibrating_def)
qed

section \<open>Calibration in debug builds\<close>

text \<open>C40. In debug builds the calibration of the operating system clock fails an assertion right after its second reading of
  the clock, unless a full second began between the two readings or the nanoseconds of the first happen to equal the
  seconds.\<close>

theorem os_calibration_same_second:
  assumes "tv_sec t1 = tv_sec t2" and "tv_nsec t1 \<noteq> tv_sec t1"
    and "distribution_pool_request (b_heap E) (b_page E) pool = Inr (builder, pool')"
  shows "os_clock_initialize E (Some a) (t1 # t2 # clock) pool flt an = Inl AssertFailed"
proof -
  have "os_duration t1 t2 = Inl AssertFailed" using assms(1,2) by (simp add: os_duration_def os_timestamp_le_def)
  moreover have "\<not> max_runs < THRESHOLD_NRUNS" by (simp add: max_runs_def)
  ultimately show ?thesis
    using assms(3)
    by (simp add: os_clock_initialize_def cal_measure_def cal_request_def os_clock_measure_def ensure_timestamps_def zero_os_clock_def
        dither_def Let_def)
qed


theorem os_calibration_same_second_witness:
  "os_clock_initialize \<lparr>b_arith = fixed_point_statistics, b_heap = example_env, b_page = 4096, b_rand = (\<lambda>_ k. k),
       b_resample = (\<lambda>_ i k. i + k), b_plots = None\<rparr> (Some 8192)
     [\<lparr>tv_sec = 7, tv_nsec = 100\<rparr>, \<lparr>tv_sec = 7, tv_nsec = 900\<rparr>, \<lparr>tv_sec = 9, tv_nsec = 0\<rparr>]
     \<lparr>builders = Some [Some fresh_builder], pool_capacity = 1, pool_length = 1\<rparr> fresh_filter fresh_analyzer = Inl AssertFailed"
  by (rule os_calibration_same_second) (simp_all add: distribution_pool_request_def pool_builders_def read_cell_def)

end
