(* ===== verification/Logging.thy ===== *)
theory Logging
  imports World
begin

text \<open>
  Model of src/scope.h (tracked scopes and their destructors), src/log.h and src/log.c (log levels, filtering,
  logger scopes, configuration from the environment, the default callback), in debug builds on Linux.

  A thread has its stack of scope guards, a linked list of constants on the call stack, and a pointer to its
  current logger, an address in a store of loggers.  Each call of a logging callback is recorded with its arguments;
  the text that the default callback writes is a function of such a record, of the clock and of the thread name.
  Formatting of messages (\<open>vsnprintf\<close>) and comparison of strings (\<open>strcmp\<close>) are arguments.
\<close>

section \<open>Log levels\<close>

text \<open>The last constructor stands for a number outside the enumeration.\<close>

datatype udipe_log_level =
    UDIPE_TRACE | UDIPE_DEBUG | UDIPE_INFO | UDIPE_WARN | UDIPE_ERROR | UDIPE_DEFAULT_LOG_LEVEL
  | Invalid_level nat

fun level_code :: "udipe_log_level \<Rightarrow> nat" where
  "level_code UDIPE_DEFAULT_LOG_LEVEL = 0"
| "level_code UDIPE_TRACE = 1"
| "level_code UDIPE_DEBUG = 2"
| "level_code UDIPE_INFO = 3"
| "level_code UDIPE_WARN = 4"
| "level_code UDIPE_ERROR = 5"
| "level_code (Invalid_level n) = n + 6"

fun log_level_name :: "udipe_log_level \<Rightarrow> bool \<Rightarrow> string res" where
  "log_level_name UDIPE_TRACE allow_default = Inr ''TRACE''"
| "log_level_name UDIPE_DEBUG allow_default = Inr ''DEBUG''"
| "log_level_name UDIPE_INFO allow_default = Inr ''INFO''"
| "log_level_name UDIPE_WARN allow_default = Inr ''WARN''"
| "log_level_name UDIPE_ERROR allow_default = Inr ''ERROR''"
| "log_level_name UDIPE_DEFAULT_LOG_LEVEL allow_default = (if allow_default then Inr ''DEFAULT'' else Inl ExitError)"
| "log_level_name (Invalid_level n) allow_default = Inl ExitError"

definition udipe_log_level_name :: "udipe_log_level \<Rightarrow> string res" where
  "udipe_log_level_name level = log_level_name level True"

section \<open>Loggers and scopes\<close>

datatype log_callback = default_callback | user_callback nat

text \<open>\<open>udipe_log_config_t\<close>; a null callback is \<open>None\<close>, a null context is 0.\<close>

record logger =
  callback :: "log_callback option"
  log_context :: nat
  min_level :: udipe_log_level
  max_debug_depth :: nat

datatype scope_destructor = debug_function_return | restore_thread_logger

datatype pointer = Null | Function_name string | Logger_at nat

datatype scope_guard =
  Scope_guard (next_scope: "scope_guard option") (func: string) (destructor: "scope_destructor option")
    (destructor_context: pointer)

record scope_tracker =
  top_scope :: "scope_guard option"
  nesting_depth :: nat

record log_record =
  to_callback :: log_callback
  with_context :: nat
  log_level :: udipe_log_level
  log_depth :: nat
  location :: string
  message :: string

record log_thread =
  tracker :: scope_tracker
  thread_logger :: "nat option"
  loggers :: "nat \<Rightarrow> logger option"
  emitted :: "log_record list"

definition global_scope_depth :: "log_thread \<Rightarrow> nat" where
  "global_scope_depth st = nesting_depth (tracker st)"

definition bias_scope_depth :: "nat \<Rightarrow> log_thread \<Rightarrow> log_thread res" where
  "bias_scope_depth depth st =
     assert_that (nesting_depth (tracker st) = 0) (Inr (st\<lparr>tracker := (tracker st)\<lparr>nesting_depth := depth\<rparr>\<rparr>))"

definition is_inside_local_scope :: "string \<Rightarrow> log_thread \<Rightarrow> bool" where
  "is_inside_local_scope f st = (case top_scope (tracker st) of None \<Rightarrow> False | Some guard \<Rightarrow> func guard = f)"

definition scope_start_with_destructor ::
    "string \<Rightarrow> scope_destructor option \<Rightarrow> pointer \<Rightarrow> log_thread \<Rightarrow> scope_guard \<times> log_thread" where
  "scope_start_with_destructor f d ctx st =
     (let guard = Scope_guard (top_scope (tracker st)) f d ctx
      in (guard, st\<lparr>tracker := \<lparr>top_scope = Some guard, nesting_depth = nesting_depth (tracker st) + 1\<rparr>\<rparr>))"

definition scope_guard_finalize ::
    "(scope_destructor \<Rightarrow> pointer \<Rightarrow> log_thread \<Rightarrow> log_thread res) \<Rightarrow> scope_guard \<Rightarrow> log_thread \<Rightarrow> log_thread res" where
  "scope_guard_finalize call guard st =
     assert_that (nesting_depth (tracker st) \<ge> 1) (
     let st = st\<lparr>tracker := (tracker st)\<lparr>nesting_depth := nesting_depth (tracker st) - 1\<rparr>\<rparr>
     in assert_that (destructor guard \<noteq> None \<or> destructor_context guard = Null) (
     bindR (case destructor guard of None \<Rightarrow> Inr st | Some d \<Rightarrow> call d (destructor_context guard) st) (\<lambda>st.
     Inr (st\<lparr>tracker := (tracker st)\<lparr>top_scope := next_scope guard\<rparr>\<rparr>))))"

section \<open>Log calls\<close>

definition validate_log :: "udipe_log_level \<Rightarrow> log_thread \<Rightarrow> unit res" where
  "validate_log level st =
     assert_that (thread_logger st \<noteq> None) (
     case level of
       UDIPE_DEFAULT_LOG_LEVEL \<Rightarrow> Inl ExitError
     | Invalid_level _ \<Rightarrow> Inl ExitError
     | _ \<Rightarrow> Inr ())"

definition deref_logger :: "log_thread \<Rightarrow> logger res" where
  "deref_logger st =
     (case thread_logger st of
        None \<Rightarrow> Inl BadAccess
      | Some p \<Rightarrow> (case loggers st p of None \<Rightarrow> Inl BadAccess | Some lg \<Rightarrow> Inr lg))"

definition log_enabled :: "udipe_log_level \<Rightarrow> log_thread \<Rightarrow> bool res" where
  "log_enabled level st =
     seqR (validate_log level st) (
     bindR (deref_logger st) (\<lambda>lg.
     if level_code level < level_code (min_level lg) then Inr False
     else case level of
       UDIPE_TRACE \<Rightarrow> Inr (global_scope_depth st \<le> max_debug_depth lg)
     | UDIPE_DEBUG \<Rightarrow> Inr (global_scope_depth st \<le> max_debug_depth lg)
     | UDIPE_INFO \<Rightarrow> Inr True
     | UDIPE_WARN \<Rightarrow> Inr True
     | UDIPE_ERROR \<Rightarrow> Inr True
     | _ \<Rightarrow> Inl ExitError))"

definition call_callback :: "udipe_log_level \<Rightarrow> string \<Rightarrow> string \<Rightarrow> log_thread \<Rightarrow> log_thread res" where
  "call_callback level loc msg st =
     bindR (deref_logger st) (\<lambda>lg.
     case callback lg of
       None \<Rightarrow> Inl BadAccess
     | Some cb \<Rightarrow> Inr (st\<lparr>emitted := emitted st @
         [\<lparr>to_callback = cb, with_context = log_context lg, log_level = level, log_depth = global_scope_depth st,
           location = loc, message = msg\<rparr>]\<rparr>))"

definition udipe_log :: "string \<Rightarrow> udipe_log_level \<Rightarrow> string \<Rightarrow> log_thread \<Rightarrow> log_thread res" where
  "udipe_log f level msg st =
     assert_that (is_inside_local_scope f st) (
     bindR (log_enabled level st) (\<lambda>enabled.
     if enabled then call_callback level f msg st else Inr st))"

text \<open>Arguments of a format, and the text that \<open>vsnprintf\<close> generates or \<open>None\<close> when it returns a negative
  number.\<close>

datatype log_arg = Str string | Num nat | Address "nat option" | Callback log_callback

type_synonym printf = "string \<Rightarrow> log_arg list \<Rightarrow> string option"

definition logf_impl :: "printf \<Rightarrow> udipe_log_level \<Rightarrow> string \<Rightarrow> string \<Rightarrow> log_arg list \<Rightarrow> log_thread \<Rightarrow> log_thread res" where
  "logf_impl vsnprintf level loc format args st =
     (case vsnprintf format args of
        None \<Rightarrow> Inl ExitError
      | Some text \<Rightarrow>
          let message_size = 1 + length text;
              msg = take (message_size - 1) text
          in call_callback level loc msg st)"

definition udipe_logf ::
    "printf \<Rightarrow> string \<Rightarrow> udipe_log_level \<Rightarrow> string \<Rightarrow> log_arg list \<Rightarrow> log_thread \<Rightarrow> log_thread res" where
  "udipe_logf vsnprintf f level format args st =
     assert_that (is_inside_local_scope f st) (
     bindR (log_enabled level st) (\<lambda>enabled.
     if enabled then logf_impl vsnprintf level f format args st else Inr st))"

section \<open>Destructors and logged scopes\<close>

text \<open>A scope without destructor around a body.\<close>

definition plain_scope :: "string \<Rightarrow> (log_thread \<Rightarrow> log_thread res) \<Rightarrow> log_thread \<Rightarrow> log_thread res" where
  "plain_scope f body st =
     (let (guard, st) = scope_start_with_destructor f None Null st
      in bindR (body st) (scope_guard_finalize (\<lambda>_ _ st. Inr st) guard))"

fun logger_pointer :: "nat option \<Rightarrow> pointer" where
  "logger_pointer None = Null"
| "logger_pointer (Some p) = Logger_at p"

fun call_destructor :: "printf \<Rightarrow> scope_destructor \<Rightarrow> pointer \<Rightarrow> log_thread \<Rightarrow> log_thread res" where
  "call_destructor vsnprintf debug_function_return (Function_name f) st =
     plain_scope ''debug_function_return''
       (udipe_logf vsnprintf ''debug_function_return'' UDIPE_DEBUG ''Returning from %s.'' [Str f]) st"
| "call_destructor vsnprintf debug_function_return _ st = Inl UndefinedBehaviour"
| "call_destructor vsnprintf restore_thread_logger (Function_name f) st = Inl UndefinedBehaviour"
| "call_destructor vsnprintf restore_thread_logger Null st =
     bindR (plain_scope ''restore_thread_logger'' (\<lambda>st.
       udipe_logf vsnprintf ''restore_thread_logger'' UDIPE_DEBUG ''Disabled logger %p, back to %p.''
         [Address (thread_logger st), Address None] st) st) (\<lambda>st. Inr (st\<lparr>thread_logger := None\<rparr>))"
| "call_destructor vsnprintf restore_thread_logger (Logger_at p) st =
     bindR (plain_scope ''restore_thread_logger'' (\<lambda>st.
       udipe_logf vsnprintf ''restore_thread_logger'' UDIPE_DEBUG ''Disabled logger %p, back to %p.''
         [Address (thread_logger st), Address (Some p)] st) st) (\<lambda>st. Inr (st\<lparr>thread_logger := Some p\<rparr>))"

definition scoped ::
    "printf \<Rightarrow> string \<Rightarrow> scope_destructor \<Rightarrow> pointer \<Rightarrow> (log_thread \<Rightarrow> ('a \<times> log_thread) res) \<Rightarrow> log_thread \<Rightarrow>
     ('a \<times> log_thread) res" where
  "scoped vsnprintf f d ctx body st =
     (let (guard, st) = scope_start_with_destructor f (Some d) ctx st
      in bindR (body st) (\<lambda>(x, st).
         bindR (scope_guard_finalize (call_destructor vsnprintf) guard st) (\<lambda>st. Inr (x, st))))"

definition logged_function ::
    "printf \<Rightarrow> string \<Rightarrow> string \<Rightarrow> log_arg list \<Rightarrow> (log_thread \<Rightarrow> ('a \<times> log_thread) res) \<Rightarrow> log_thread \<Rightarrow>
     ('a \<times> log_thread) res" where
  "logged_function vsnprintf f args_format args body =
     scoped vsnprintf f debug_function_return (Function_name f) (\<lambda>st.
       bindR (udipe_logf vsnprintf f UDIPE_DEBUG (''Called %s('' @ args_format @ '').'') (Str f # args) st) body)"

definition logger_scope ::
    "printf \<Rightarrow> string \<Rightarrow> nat \<Rightarrow> (log_thread \<Rightarrow> ('a \<times> log_thread) res) \<Rightarrow> log_thread \<Rightarrow> ('a \<times> log_thread) res" where
  "logger_scope vsnprintf f logger_ptr body st =
     (let prev_logger = thread_logger st;
          st = st\<lparr>thread_logger := Some logger_ptr\<rparr>
      in scoped vsnprintf f restore_thread_logger (logger_pointer prev_logger) (\<lambda>st.
           bindR (udipe_logf vsnprintf f UDIPE_DEBUG ''Enabled logger %p.'' [Address (Some logger_ptr)] st) body) st)"

record logger_parent_state =
  parent_logger :: "nat option"
  parent_scope_depth :: nat

definition logger_save_parent :: "log_thread \<Rightarrow> logger_parent_state" where
  "logger_save_parent st = \<lparr>parent_logger = thread_logger st, parent_scope_depth = global_scope_depth st\<rparr>"

definition logger_init_child :: "logger_parent_state \<Rightarrow> log_thread \<Rightarrow> log_thread res" where
  "logger_init_child state st = bias_scope_depth (parent_scope_depth state) (st\<lparr>thread_logger := parent_logger state\<rparr>)"

definition logger_finalize :: "printf \<Rightarrow> nat \<Rightarrow> log_thread \<Rightarrow> log_thread res" where
  "logger_finalize vsnprintf p st =
     (let curr_logger = thread_logger st
      in bindR (logger_scope vsnprintf ''logger_finalize'' p (\<lambda>st.
           bindR (udipe_log ''logger_finalize'' UDIPE_DEBUG ''Poisoning logger...'' st) (\<lambda>st.
           ensure_that (curr_logger \<noteq> Some p) (Inr ((), st)))) st) (\<lambda>(_, st).
         case loggers st p of
           None \<Rightarrow> Inl BadAccess
         | Some lg \<Rightarrow> Inr (st\<lparr>loggers := (loggers st)(p \<mapsto>
             \<lparr>callback = None, log_context = 0, min_level = UDIPE_TRACE, max_debug_depth = 0\<rparr>)\<rparr>)))"

section \<open>Configuration from the environment\<close>

text \<open>What the C library computes from byte strings: the difference of the first bytes that differ (the
  result of \<open>strcmp\<close> in glibc and musl), and \<open>strtoul\<close> to the base ten with the number, the length of what was
  consumed and whether \<open>errno\<close> was set to \<open>ERANGE\<close>.\<close>

fun strcmp_bytes :: "string \<Rightarrow> string \<Rightarrow> int" where
  "strcmp_bytes [] [] = 0"
| "strcmp_bytes (a # as) [] = of_char a"
| "strcmp_bytes [] (b # bs) = - of_char b"
| "strcmp_bytes (a # as) (b # bs) = (if a = b then strcmp_bytes as bs else of_char a - of_char b)"

definition isspace :: "char \<Rightarrow> bool" where
  "isspace c \<longleftrightarrow> of_char c \<in> {32, 9, 10, 11, 12, 13 :: nat}"

definition isdigit :: "char \<Rightarrow> bool" where
  "isdigit c \<longleftrightarrow> (48 :: nat) \<le> of_char c \<and> of_char c \<le> (57 :: nat)"

definition digit_value :: "char \<Rightarrow> nat" where
  "digit_value c = of_char c - 48"

definition number_value :: "string \<Rightarrow> nat" where
  "number_value s = foldl (\<lambda>n c. 10 * n + digit_value c) 0 s"

definition ULONG_MAX :: nat where
  "ULONG_MAX = 2 ^ 64 - 1"

definition strtoul :: "string \<Rightarrow> nat \<times> nat \<times> bool" where
  "strtoul s =
     (let spaces = length (takeWhile isspace s);
          rest = drop spaces s;
          negative = (rest \<noteq> [] \<and> hd rest = CHR ''-'');
          sign = (if rest \<noteq> [] \<and> (hd rest = CHR ''-'' \<or> hd rest = CHR ''+'') then 1 else 0);
          digits = takeWhile isdigit (drop sign rest);
          n = number_value digits;
          consumed = spaces + sign + length digits
      in if digits = [] then (0, 0, False)
         else if n > ULONG_MAX then (ULONG_MAX, consumed, True)
         else (if negative then (2 ^ 64 - n) mod 2 ^ 64 else n, consumed, False))"

record log_environment =
  strcmp :: "string \<Rightarrow> string \<Rightarrow> int"
  log_level_var :: "string option"    \<comment> \<open>\<open>getenv("UDIPE_LOG_LEVEL")\<close>\<close>
  log_depth_var :: "string option"    \<comment> \<open>\<open>getenv("UDIPE_LOG_DEPTH")\<close>\<close>
  isatty_stderr :: bool

definition matches_either :: "(string \<Rightarrow> string \<Rightarrow> int) \<Rightarrow> string \<Rightarrow> string \<Rightarrow> string \<Rightarrow> bool" where
  "matches_either cmp s upper lower \<longleftrightarrow> and (cmp s upper) (cmp s lower) = 0"

definition parse_log_level :: "(string \<Rightarrow> string \<Rightarrow> int) \<Rightarrow> string \<Rightarrow> udipe_log_level res" where
  "parse_log_level cmp s =
     (if matches_either cmp s ''ERROR'' ''error'' then Inr UDIPE_ERROR
      else if matches_either cmp s ''WARNING'' ''warning'' then Inr UDIPE_WARN
      else if matches_either cmp s ''INFO'' ''info'' then Inr UDIPE_INFO
      else if matches_either cmp s ''DEBUG'' ''debug'' then Inr UDIPE_DEBUG
      else if matches_either cmp s ''TRACE'' ''trace'' then Inr UDIPE_TRACE
      else Inl ExitError)"

definition select_log_level :: "log_environment \<Rightarrow> udipe_log_level \<Rightarrow> udipe_log_level res" where
  "select_log_level env level =
     (case level of
        UDIPE_DEFAULT_LOG_LEVEL \<Rightarrow>
          (case log_level_var env of None \<Rightarrow> Inr UDIPE_DEBUG | Some level_str \<Rightarrow> parse_log_level (strcmp env) level_str)
      | Invalid_level _ \<Rightarrow> Inl ExitError
      | _ \<Rightarrow> Inr level)"

definition select_log_depth :: "log_environment \<Rightarrow> nat \<Rightarrow> nat res" where
  "select_log_depth env depth =
     (if depth = 0 then
        case log_depth_var env of
          None \<Rightarrow> Inr 2
        | Some depth_str \<Rightarrow>
            let expected_len = length depth_str;
                (n, end_pos, erange) = strtoul depth_str
            in if end_pos \<noteq> expected_len then assert_that erange (Inl ExitError) else Inr n
      else Inr depth)"

text \<open>The callback, and the new value of \<open>stderr_is_tty\<close> when it is set.\<close>

definition select_callback ::
    "log_environment \<Rightarrow> log_callback option \<Rightarrow> nat \<Rightarrow> (log_callback \<times> bool option) res" where
  "select_callback env cb ctx =
     (case cb of
        Some cb \<Rightarrow> Inr (cb, None)
      | None \<Rightarrow> if ctx \<noteq> 0 then Inl ExitError else Inr (default_callback, Some (isatty_stderr env)))"

definition logger_initialize ::
    "printf \<Rightarrow> log_environment \<Rightarrow> nat \<Rightarrow> logger \<Rightarrow> log_thread \<Rightarrow> (logger \<times> bool option \<times> log_thread) res" where
  "logger_initialize vsnprintf env local config st =
     bindR (select_log_level env (min_level config)) (\<lambda>level.
     bindR (select_log_depth env (max_debug_depth config)) (\<lambda>depth.
     bindR (select_callback env (callback config) (log_context config)) (\<lambda>(cb, tty).
     let lg = config\<lparr>callback := Some cb, min_level := level, max_debug_depth := depth\<rparr>;
         callback_kind = (if callback config = None then ''default'' else ''user'');
         st = st\<lparr>loggers := (loggers st)(local \<mapsto> lg)\<rparr>
     in bindR (logger_scope vsnprintf ''logger_initialize'' local (\<lambda>st.
          bindR (log_level_name level False) (\<lambda>level_name.
          bindR (udipe_logf vsnprintf ''logger_initialize'' UDIPE_INFO
              ''Set up logger using %s callback %p with context %p, min level %s and max debug depth %zu.''
              [Str callback_kind, Callback cb,
               Address (Some (log_context lg)), Str level_name, Num depth] st) (\<lambda>st.
          Inr ((), st)))) st) (\<lambda>(_, st). Inr (lg, tty, st)))))"

section \<open>The default callback\<close>

text \<open>Differences of \<open>time_t\<close> are converted to \<open>size_t\<close>.\<close>

definition log_timestamp :: "timespec \<Rightarrow> timespec \<Rightarrow> (nat \<times> nat) res" where
  "log_timestamp startup now =
     assert_that (tv_sec now > tv_sec startup \<or> tv_nsec now \<ge> tv_nsec startup) (
     let secs = nat ((tv_sec now - tv_sec startup) mod 2 ^ 64)
     in if tv_nsec now \<ge> tv_nsec startup
        then Inr (secs, nat ((tv_nsec now - tv_nsec startup) div 1000))
        else Inr (nat ((int secs - 1) mod 2 ^ 64), nat (1000 * 1000 - (tv_nsec startup - tv_nsec now) div 1000)))"

definition ESC :: char where
  "ESC = char_of (27 :: nat)"

fun level_color :: "udipe_log_level \<Rightarrow> string res" where
  "level_color UDIPE_TRACE = Inr (ESC # ''[36m'')"
| "level_color UDIPE_DEBUG = Inr (ESC # ''[34m'')"
| "level_color UDIPE_INFO = Inr (ESC # ''[32m'')"
| "level_color UDIPE_WARN = Inr (ESC # ''[93;1m'')"
| "level_color UDIPE_ERROR = Inr (ESC # ''[91;1m'')"
| "level_color _ = Inl ExitError"

definition depth_color :: "nat \<Rightarrow> nat \<Rightarrow> string" where
  "depth_color depth max_depth =
     (if depth < max_depth then ESC # ''[0m'' else if depth = max_depth then ESC # ''[0;32m'' else ESC # ''[0;93;1m'')"

text \<open>The conversions \<open>%5zu\<close>, \<open>%06zu\<close>, \<open>%5s\<close> and \<open>%zu\<close>.\<close>

fun decimal :: "nat \<Rightarrow> string" where
  "decimal n = (if n < 10 then [char_of (48 + n)] else decimal (n div 10) @ [char_of (48 + n mod 10)])"

declare decimal.simps [simp del]

definition pad :: "char \<Rightarrow> nat \<Rightarrow> string \<Rightarrow> string" where
  "pad c width s = replicate (width - length s) c @ s"

definition default_log_callback ::
    "timespec \<Rightarrow> bool \<Rightarrow> nat \<Rightarrow> timespec \<Rightarrow> string \<Rightarrow> log_record \<Rightarrow> string res" where
  "default_log_callback startup use_colors max_depth now thread_name r =
     bindR (log_timestamp startup now) (\<lambda>(secs, microsecs).
     bindR (log_level_name (log_level r) False) (\<lambda>level_name.
     bindR (if use_colors then level_color (log_level r) else Inr []) (\<lambda>color.
     let stamp = pad CHR '' '' 5 (decimal secs) @ ''.'' @ pad CHR ''0'' 6 (decimal microsecs);
         name = pad CHR '' '' 5 level_name;
         depth = decimal (log_depth r)
     in Inr (if use_colors
             then ''['' @ stamp @ '' '' @ color @ name @ '' '' @ depth_color (log_depth r) max_depth @ depth @ [ESC] @ ''[0m] '' @
                  [ESC] @ ''[33m'' @ thread_name @ '' '' @ location r @ '': '' @ color @ message r @ [ESC] @ ''[0m'' @ [CHR 0x0A]
             else ''['' @ stamp @ '' '' @ name @ '' '' @ depth @ ''] '' @ thread_name @ '' '' @ location r @ '': '' @
                  message r @ [CHR 0x0A]))))"

section \<open>Scopes bracket their logs\<close>

text \<open>The records that a message of level \<open>UDIPE_DEBUG\<close> leads to, at a given depth.\<close>

definition debug_records :: "logger \<Rightarrow> nat \<Rightarrow> string \<Rightarrow> string \<Rightarrow> log_record list" where
  "debug_records lg depth f text =
     (if level_code (min_level lg) \<le> 2 \<and> depth \<le> max_debug_depth lg
      then [\<lparr>to_callback = the (callback lg), with_context = log_context lg, log_level = UDIPE_DEBUG, log_depth = depth,
             location = f, message = text\<rparr>] else [])"

definition uses_logger :: "log_thread \<Rightarrow> nat \<Rightarrow> logger \<Rightarrow> bool" where
  "uses_logger st p lg \<longleftrightarrow> thread_logger st = Some p \<and> loggers st p = Some lg \<and> callback lg \<noteq> None"

lemma uses_logger_update [simp]:
  "uses_logger (st\<lparr>tracker := t\<rparr>) p lg = uses_logger st p lg"
  "uses_logger (st\<lparr>emitted := e\<rparr>) p lg = uses_logger st p lg"
  by (simp_all add: uses_logger_def)

lemma debug_logf:
  assumes "uses_logger st p lg" and "top_scope (tracker st) = Some guard" and "func guard = f"
    and "vsnprintf format args = Some text"
  shows "udipe_logf vsnprintf f UDIPE_DEBUG format args st =
    Inr (st\<lparr>emitted := emitted st @ debug_records lg (nesting_depth (tracker st)) f text\<rparr>)"
  using assms
  by (auto simp: udipe_logf_def is_inside_local_scope_def log_enabled_def validate_log_def deref_logger_def
      uses_logger_def logf_impl_def call_callback_def global_scope_depth_def debug_records_def)

lemma debug_log:
  assumes "uses_logger st p lg" and "top_scope (tracker st) = Some guard" and "func guard = f"
  shows "udipe_log f UDIPE_DEBUG text st =
    Inr (st\<lparr>emitted := emitted st @ debug_records lg (nesting_depth (tracker st)) f text\<rparr>)"
  using assms
  by (auto simp: udipe_log_def is_inside_local_scope_def log_enabled_def validate_log_def deref_logger_def
      uses_logger_def call_callback_def global_scope_depth_def debug_records_def)

lemma plain_scope_debug:
  assumes "uses_logger st p lg" and "vsnprintf format args = Some text"
  shows "plain_scope f (udipe_logf vsnprintf f UDIPE_DEBUG format args) st =
    Inr (st\<lparr>emitted := emitted st @ debug_records lg (nesting_depth (tracker st) + 1) f text\<rparr>)"
  using assms by (simp add: plain_scope_def scope_start_with_destructor_def Let_def debug_logf scope_guard_finalize_def)

text \<open>A body that leaves the scopes and loggers of its thread as they are and adds log records.\<close>

definition logs :: "(log_thread \<Rightarrow> ('a \<times> log_thread) res) \<Rightarrow> log_thread \<Rightarrow> 'a \<Rightarrow> log_record list \<Rightarrow> bool" where
  "logs body st x rs \<longleftrightarrow> body st = Inr (x, st\<lparr>emitted := emitted st @ rs\<rparr>)"

definition entered :: "string \<Rightarrow> scope_destructor \<Rightarrow> pointer \<Rightarrow> log_thread \<Rightarrow> log_thread" where
  "entered f d ctx st = snd (scope_start_with_destructor f (Some d) ctx st)"

lemma entered_fields [simp]:
  "nesting_depth (tracker (entered f d ctx st)) = Suc (nesting_depth (tracker st))"
  "top_scope (tracker (entered f d ctx st)) = Some (Scope_guard (top_scope (tracker st)) f (Some d) ctx)"
  "uses_logger (entered f d ctx st) p lg = uses_logger st p lg"
  "emitted (entered f d ctx st) = emitted st"
  "thread_logger (entered f d ctx st) = thread_logger st" "loggers (entered f d ctx st) = loggers st"
  by (simp_all add: entered_def scope_start_with_destructor_def Let_def uses_logger_def)

lemma entered_emitted [simp]: "(entered f d ctx st)\<lparr>emitted := e\<rparr> = entered f d ctx (st\<lparr>emitted := e\<rparr>)"
  by (simp add: entered_def scope_start_with_destructor_def Let_def)

lemma debug_then:
  assumes "uses_logger st p lg" and "vsnprintf format args = Some text"
    and "logs body (entered f d ctx (st\<lparr>emitted := emitted st @ debug_records lg (nesting_depth (tracker st) + 1) f text\<rparr>)) x rs"
  shows "bindR (udipe_logf vsnprintf f UDIPE_DEBUG format args (entered f d ctx st)) body =
    Inr (x, entered f d ctx (st\<lparr>emitted := emitted st @ debug_records lg (nesting_depth (tracker st) + 1) f text @ rs\<rparr>))"
proof -
  have "udipe_logf vsnprintf f UDIPE_DEBUG format args (entered f d ctx st) =
      Inr ((entered f d ctx st)\<lparr>emitted := emitted st @ debug_records lg (nesting_depth (tracker st) + 1) f text\<rparr>)"
    by (subst debug_logf [of _ p lg "Scope_guard (top_scope (tracker st)) f (Some d) ctx" _ _ _ _ "text"]) (use assms in simp_all)
  then show ?thesis
    using assms(3) by (simp add: logs_def)
qed

text \<open>C21. A logged function reports its call and its return at the depth of its own logs, and between both
  reports stand the logs of its body; afterwards the stack of scopes, the depth and the logger are as
  before.\<close>

theorem logged_function_brackets:
  assumes "uses_logger st p lg"
    and "vsnprintf (''Called %s('' @ args_format @ '').'') (Str f # args) = Some called"
    and "vsnprintf ''Returning from %s.'' [Str f] = Some returned"
    and "logs body (entered f debug_function_return (Function_name f)
           (st\<lparr>emitted := emitted st @ debug_records lg (global_scope_depth st + 1) f called\<rparr>)) x rs"
  shows "logged_function vsnprintf f args_format args body st =
    Inr (x, st\<lparr>emitted := emitted st @ debug_records lg (global_scope_depth st + 1) f called @ rs @
      debug_records lg (global_scope_depth st + 1) ''debug_function_return'' returned\<rparr>)"
proof -
  let ?d = "debug_function_return" and ?ctx = "Function_name f" and ?n = "nesting_depth (tracker st) + 1"
  have start: "scope_start_with_destructor f (Some ?d) ?ctx st =
      (Scope_guard (top_scope (tracker st)) f (Some ?d) ?ctx, entered f ?d ?ctx st)"
    by (simp add: entered_def scope_start_with_destructor_def Let_def)
  note body = debug_then [of st p lg vsnprintf "''Called %s('' @ args_format @ '').''" "Str f # args" called body f ?d ?ctx x rs,
      OF assms(1,2) assms(4) [unfolded global_scope_depth_def]]
  have return: "plain_scope ''debug_function_return''
      (udipe_logf vsnprintf ''debug_function_return'' UDIPE_DEBUG ''Returning from %s.'' [Str f]) st' =
      Inr (st'\<lparr>emitted := emitted st' @ debug_records lg (nesting_depth (tracker st') + 1) ''debug_function_return'' returned\<rparr>)"
    if "uses_logger st' p lg" for st'
    by (rule plain_scope_debug) (use that assms(3) in simp_all)
  show ?thesis
    using assms(1)
    by (simp add: logged_function_def scoped_def start body [simplified] scope_guard_finalize_def Let_def return global_scope_depth_def)
qed


text \<open>A logger that reports everything down to depth 3, and formatting that keeps the format.\<close>

definition plain_logger :: logger where
  "plain_logger = \<lparr>callback = Some default_callback, log_context = 0, min_level = UDIPE_DEBUG, max_debug_depth = 3\<rparr>"

definition idle_thread :: log_thread where
  "idle_thread = \<lparr>tracker = \<lparr>top_scope = None, nesting_depth = 0\<rparr>, thread_logger = Some 8,
     loggers = [8 \<mapsto> plain_logger], emitted = []\<rparr>"

theorem logged_function_brackets_witness:
  "logged_function (\<lambda>format _. Some format) ''f'' ''%p'' [Address None]
     (logged_function (\<lambda>format _. Some format) ''g'' '''' [] (\<lambda>st. Inr (7 :: nat, st))) idle_thread =
   Inr (7, idle_thread\<lparr>emitted :=
     debug_records plain_logger 1 ''f'' ''Called %s(%p).'' @
     (debug_records plain_logger 2 ''g'' ''Called %s().'' @
      debug_records plain_logger 2 ''debug_function_return'' ''Returning from %s.'') @
     debug_records plain_logger 1 ''debug_function_return'' ''Returning from %s.''\<rparr>)"
proof -
  let ?pf = "\<lambda>format _. Some format :: string option"
  have idle: "uses_logger idle_thread 8 plain_logger" "global_scope_depth idle_thread = 0" "emitted idle_thread = []"
    by (simp_all add: idle_thread_def uses_logger_def plain_logger_def global_scope_depth_def)
  let ?st = "entered ''f'' debug_function_return (Function_name ''f'')
    (idle_thread\<lparr>emitted := debug_records plain_logger 1 ''f'' ''Called %s(%p).''\<rparr>)"
  have "global_scope_depth ?st = 1" using idle(2) by (simp add: global_scope_depth_def)
  then have "logged_function ?pf ''g'' '''' [] (\<lambda>st. Inr (7 :: nat, st)) ?st =
      Inr (7, ?st\<lparr>emitted := emitted ?st @ debug_records plain_logger 2 ''g'' ''Called %s().'' @ [] @
        debug_records plain_logger 2 ''debug_function_return'' ''Returning from %s.''\<rparr>)"
    by (subst logged_function_brackets [of _ 8 plain_logger _ _ _ _ "''Called %s().''" "''Returning from %s.''" _ 7 "[]"])
      (use idle in \<open>simp_all add: logs_def numeral_2_eq_2\<close>)
  then have "logs (logged_function ?pf ''g'' '''' [] (\<lambda>st. Inr (7 :: nat, st))) ?st 7
      (debug_records plain_logger 2 ''g'' ''Called %s().'' @
       debug_records plain_logger 2 ''debug_function_return'' ''Returning from %s.'')"
    by (simp add: logs_def)
  then show ?thesis
    using logged_function_brackets [of idle_thread 8 plain_logger ?pf "''%p''" "''f''" "[Address None]" "''Called %s(%p).''"
        "''Returning from %s.''" "logged_function ?pf ''g'' '''' [] (\<lambda>st. Inr (7 :: nat, st))" 7] idle
    by simp
qed

text \<open>A logger scope reports to its own logger and gives the thread its previous logger back.\<close>

lemma logger_scope_restores:
  assumes "loggers st p = Some lg" and "callback lg \<noteq> None"
    and "vsnprintf ''Enabled logger %p.'' [Address (Some p)] = Some enabled"
    and "vsnprintf ''Disabled logger %p, back to %p.'' [Address (Some p), Address (thread_logger st)] = Some disabled"
    and "logs body (entered f restore_thread_logger (logger_pointer (thread_logger st))
           (st\<lparr>thread_logger := Some p, emitted := emitted st @ debug_records lg (global_scope_depth st + 1) f enabled\<rparr>)) x rs"
  shows "logger_scope vsnprintf f p body st =
    Inr (x, st\<lparr>emitted := emitted st @ debug_records lg (global_scope_depth st + 1) f enabled @ rs @
      debug_records lg (global_scope_depth st + 1) ''restore_thread_logger'' disabled\<rparr>)"
proof -
  let ?d = "restore_thread_logger" and ?ctx = "logger_pointer (thread_logger st)" and ?st = "st\<lparr>thread_logger := Some p\<rparr>"
  have uses: "uses_logger ?st p lg" using assms(1,2) by (simp add: uses_logger_def)
  have start: "scope_start_with_destructor f (Some ?d) ?ctx ?st =
      (Scope_guard (top_scope (tracker st)) f (Some ?d) ?ctx, entered f ?d ?ctx ?st)"
    by (simp add: entered_def scope_start_with_destructor_def Let_def)
  have body: "bindR (udipe_logf vsnprintf f UDIPE_DEBUG ''Enabled logger %p.'' [Address (Some p)] (entered f ?d ?ctx ?st)) body =
      Inr (x, entered f ?d ?ctx (?st\<lparr>emitted := emitted ?st @ debug_records lg (nesting_depth (tracker ?st) + 1) f enabled @ rs\<rparr>))"
    by (rule debug_then) (use uses assms in \<open>simp_all add: global_scope_depth_def\<close>)
  have restored: "call_destructor vsnprintf ?d ?ctx st' =
      Inr (st'\<lparr>thread_logger := thread_logger st, emitted := emitted st' @
        debug_records lg (nesting_depth (tracker st') + 1) ''restore_thread_logger'' disabled\<rparr>)"
    if u: "uses_logger st' p lg" for st'
  proof -
    have "udipe_logf vsnprintf ''restore_thread_logger'' UDIPE_DEBUG ''Disabled logger %p, back to %p.''
        [Address (Some p), Address (thread_logger st)] (snd (scope_start_with_destructor ''restore_thread_logger'' None Null st')) =
      Inr ((snd (scope_start_with_destructor ''restore_thread_logger'' None Null st'))\<lparr>emitted := emitted st' @
        debug_records lg (nesting_depth (tracker st') + 1) ''restore_thread_logger'' disabled\<rparr>)"
      by (subst debug_logf [of _ p lg "Scope_guard (top_scope (tracker st')) ''restore_thread_logger'' None Null" _ _ _ _ disabled])
        (use u assms(4) in \<open>simp_all add: scope_start_with_destructor_def Let_def\<close>)
    moreover have "thread_logger (snd (scope_start_with_destructor ''restore_thread_logger'' None Null st')) = Some p"
      using u by (simp add: scope_start_with_destructor_def Let_def uses_logger_def)
    ultimately show ?thesis
      by (cases "thread_logger st")
        (simp_all add: plain_scope_def scope_start_with_destructor_def Let_def scope_guard_finalize_def)
  qed
  show ?thesis
    using uses
    by (simp add: logger_scope_def scoped_def start body scope_guard_finalize_def Let_def restored global_scope_depth_def)
qed


section \<open>The level from the environment\<close>

text \<open>With a \<open>strcmp\<close> that only returns -1, 0 and 1, exactly the names in upper case and in lower case are
  accepted.\<close>

lemma sign_and_zero: "x \<in> {- 1, 0, 1} \<Longrightarrow> y \<in> {- 1, 0, 1} \<Longrightarrow> and x y = 0 \<longleftrightarrow> x = 0 \<or> y = (0 :: int)"
  by auto

lemma parse_log_level_signs:
  assumes "\<And>a b. cmp a b \<in> {- 1, 0, 1}" and "\<And>a b. cmp a b = 0 \<longleftrightarrow> a = b"
  shows "parse_log_level cmp s =
    (if s \<in> {''ERROR'', ''error''} then Inr UDIPE_ERROR else if s \<in> {''WARNING'', ''warning''} then Inr UDIPE_WARN
     else if s \<in> {''INFO'', ''info''} then Inr UDIPE_INFO else if s \<in> {''DEBUG'', ''debug''} then Inr UDIPE_DEBUG
     else if s \<in> {''TRACE'', ''trace''} then Inr UDIPE_TRACE else Inl ExitError)"
proof -
  have "matches_either cmp s a b \<longleftrightarrow> s \<in> {a, b}" for a b
    using sign_and_zero [OF assms(1) assms(1), of s a s b] assms(2) by (simp add: matches_either_def)
  then show ?thesis by (simp add: parse_log_level_def)
qed

lemma strcmp_bytes_prefix [simp]: "strcmp_bytes (p @ a) (p @ b) = strcmp_bytes a b"
  by (induction p) simp_all

lemma strcmp_bytes_at:
  assumes "k < length t" and "c \<noteq> t ! k"
  shows "strcmp_bytes (take k t @ c # rest) t = of_char c - of_char (t ! k)"
proof -
  have "t = take k t @ (t ! k) # drop (Suc k) t" using assms(1) by (simp add: Cons_nth_drop_Suc)
  then have "strcmp_bytes (take k t @ c # rest) t = strcmp_bytes (take k t @ c # rest) (take k t @ (t ! k) # drop (Suc k) t)"
    by simp
  then show ?thesis using assms(2) by simp
qed

lemma small_and_high: "0 \<le> n \<Longrightarrow> n < 32 \<Longrightarrow> and n (- 32) = (0 :: int)"
proof -
  assume n: "0 \<le> n" "n < 32"
  have "(- 32 :: int) = not (mask 5)" by (simp add: mask_eq_exp_minus_1 not_int_def)
  moreover have "take_bit 5 n = n" using n by (simp add: take_bit_eq_mod)
  moreover have "and (take_bit 5 n) (not (mask 5)) = 0" by (rule bit_eqI) (simp add: bit_simps)
  ultimately show ?thesis by simp
qed

definition level_names :: "(string \<times> string \<times> udipe_log_level) list" where
  "level_names = [(''ERROR'', ''error'', UDIPE_ERROR), (''WARNING'', ''warning'', UDIPE_WARN), (''INFO'', ''info'', UDIPE_INFO),
     (''DEBUG'', ''debug'', UDIPE_DEBUG), (''TRACE'', ''trace'', UDIPE_TRACE)]"

lemma small_difference_matches:
  assumes "0 < k" and "k < length upper" and "of_char (upper ! k) < (of_char c :: int)"
    and "of_char c < (of_char (upper ! k) + 32 :: int)"
    and "lower \<noteq> []" and "of_char (hd lower) = (of_char (hd upper) + 32 :: int)"
  shows "matches_either strcmp_bytes (take k upper @ c # rest) upper lower"
proof -
  obtain u us l ls where ul: "upper = u # us" "lower = l # ls" using assms(2,5) by (cases upper; cases lower) auto
  have "u \<noteq> l" using assms(6) ul by auto
  then have "strcmp_bytes (take k upper @ c # rest) lower = - 32"
    using assms(1,6) ul by (cases k) auto
  moreover have "strcmp_bytes (take k upper @ c # rest) upper = of_char c - of_char (upper ! k)"
    by (rule strcmp_bytes_at) (use assms(2,3) in auto)
  ultimately show ?thesis
    using small_and_high [of "of_char c - of_char (upper ! k)"] assms(3,4) by (simp add: matches_either_def)
qed


lemma first_byte_differs:
  assumes "a \<noteq> u" and "a \<noteq> l"
  shows "matches_either strcmp_bytes (a # s) (u # us) (l # ls) \<longleftrightarrow>
    and (of_char a - of_char u) (of_char a - of_char l) = (0 :: int)"
  using assms by (simp add: matches_either_def)

lemma other_first_letters:
  "\<not> matches_either strcmp_bytes (CHR ''W'' # s) ''ERROR'' ''error''"
  "\<not> matches_either strcmp_bytes (CHR ''I'' # s) ''ERROR'' ''error''"
  "\<not> matches_either strcmp_bytes (CHR ''I'' # s) ''WARNING'' ''warning''"
  "\<not> matches_either strcmp_bytes (CHR ''D'' # s) ''ERROR'' ''error''"
  "\<not> matches_either strcmp_bytes (CHR ''D'' # s) ''WARNING'' ''warning''"
  "\<not> matches_either strcmp_bytes (CHR ''D'' # s) ''INFO'' ''info''"
  "\<not> matches_either strcmp_bytes (CHR ''T'' # s) ''ERROR'' ''error''"
  "\<not> matches_either strcmp_bytes (CHR ''T'' # s) ''WARNING'' ''warning''"
  "\<not> matches_either strcmp_bytes (CHR ''T'' # s) ''INFO'' ''info''"
  "\<not> matches_either strcmp_bytes (CHR ''T'' # s) ''DEBUG'' ''debug''"
  by (simp_all add: first_byte_differs)

lemma WARN_refused: "parse_log_level strcmp_bytes ''WARN'' = Inl ExitError"
  by (simp add: parse_log_level_def matches_either_def)

text \<open>With a \<open>strcmp\<close> that returns the difference of the first bytes that differ, the level variable is
  also set by strings that only start like a name in upper case: the next character may be any of the 31 following
  ones, and anything may follow.  The short name \<open>WARN\<close>, in contrast, by which the library itself calls this
  level, is refused.\<close>

theorem log_level_var_loose:
  assumes "(upper, lower, level) \<in> set level_names" and "0 < k" and "k < length upper"
    and "of_char (upper ! k) < (of_char c :: int)" and "of_char c < (of_char (upper ! k) + 32 :: int)"
  shows "parse_log_level strcmp_bytes (take k upper @ c # rest) = Inr level \<and>
    bindR (udipe_log_level_name UDIPE_WARN) (parse_log_level strcmp_bytes) = Inl ExitError"
proof -
  have "lower \<noteq> [] \<and> of_char (hd lower) = (of_char (hd upper) + 32 :: int)"
    using assms(1) by (auto simp: level_names_def)
  then have m: "matches_either strcmp_bytes (take k upper @ c # rest) upper lower"
    by (intro small_difference_matches [OF assms(2-5)]) simp_all
  obtain s where s: "take k upper @ c # rest = hd upper # s"
    using assms(2,3) by (cases k; cases upper) simp_all
  have "parse_log_level strcmp_bytes (hd upper # s) = Inr level"
    using assms(1) m unfolding s level_names_def
    by (elim set_ConsD [elim_format] disjE) (simp_all add: parse_log_level_def other_first_letters)
  then show ?thesis using s WARN_refused by (simp add: udipe_log_level_name_def)
qed

theorem log_level_var_loose_witness:
  "parse_log_level strcmp_bytes ''DEFAULT'' = Inr UDIPE_DEBUG \<and>
   bindR (udipe_log_level_name UDIPE_WARN) (parse_log_level strcmp_bytes) = Inl ExitError"
  using log_level_var_loose [of "''DEBUG''" "''debug''" UDIPE_DEBUG 2 "CHR ''F''" "''AULT''"]
  by (simp add: level_names_def)


section \<open>Timestamps\<close>

definition valid_time :: "timespec \<Rightarrow> bool" where
  "valid_time t \<longleftrightarrow> 0 \<le> tv_nsec t \<and> tv_nsec t < 1000000000"

definition elapsed_ns :: "timespec \<Rightarrow> timespec \<Rightarrow> int" where
  "elapsed_ns startup now = (tv_sec now - tv_sec startup) * 1000000000 + (tv_nsec now - tv_nsec startup)"

text \<open>The timestamp of a log is the time since startup to the microsecond, but its fraction may reach a whole
  second, which takes seven digits: exactly when the nanoseconds of the clock are less than a microsecond below those
  of the startup time.\<close>

theorem log_timestamp_bounds:
  assumes "valid_time startup" and "valid_time now" and "0 \<le> elapsed_ns startup now"
    and "tv_sec now - tv_sec startup < 2 ^ 64"
  shows "\<exists>secs microsecs. log_timestamp startup now = Inr (secs, microsecs) \<and>
    \<bar>1000 * (1000000 * int secs + int microsecs) - elapsed_ns startup now\<bar> < 1000 \<and> microsecs \<le> 1000000 \<and>
    (microsecs = 1000000 \<longleftrightarrow> tv_nsec now < tv_nsec startup \<and> tv_nsec startup - tv_nsec now < 1000)"
proof -
  define s n where "s = tv_sec now - tv_sec startup" and "n = tv_nsec now - tv_nsec startup"
  have n: "- 1000000000 < n" "n < 1000000000" using assms(1,2) by (simp_all add: valid_time_def n_def)
  have e: "elapsed_ns startup now = s * 1000000000 + n" by (simp add: elapsed_ns_def s_def n_def)
  have pos: "0 \<le> s * 1000000000 + n" and bound: "s < 2 ^ 64" using assms(3,4) e by (simp_all add: s_def)
  have order: "tv_nsec now \<ge> tv_nsec startup \<longleftrightarrow> 0 \<le> n" "tv_nsec now < tv_nsec startup \<longleftrightarrow> n < 0"
    "tv_nsec startup - tv_nsec now = - n" "tv_sec now > tv_sec startup \<longleftrightarrow> 0 < s" by (auto simp: s_def n_def)
  have parts: "1000 * (m div 1000) \<le> m" "m < 1000 * (m div 1000) + 1000" for m :: int
    using pos_mod_bound [of 1000 m] pos_mod_sign [of 1000 m] mult_div_mod_eq [of 1000 m] by linarith+
  show ?thesis
  proof (cases "0 \<le> n")
    case True
    have "0 \<le> s" using pos n(2) by linarith
    moreover from this have "log_timestamp startup now = Inr (nat s, nat (n div 1000))"
      using True bound unfolding log_timestamp_def order by (simp add: s_def [symmetric] n_def [symmetric])
    moreover have "0 \<le> n div 1000" "n div 1000 < 1000000" using True n(2) parts [of n] by linarith+
    ultimately show ?thesis using parts [of n] True unfolding e order by auto
  next
    case False
    have "1 \<le> s" using pos False by linarith
    moreover from this have "log_timestamp startup now = Inr (nat (s - 1), nat (1000000 - - n div 1000))"
      using False bound unfolding log_timestamp_def order by (simp add: s_def [symmetric] n_def [symmetric])
    moreover have "0 \<le> - n div 1000" "- n div 1000 \<le> 1000000" "- n div 1000 = 0 \<longleftrightarrow> - n < 1000"
      using False n(1) parts [of "- n"] by linarith+
    ultimately show ?thesis using parts [of "- n"] False unfolding e order
      by (intro exI [of _ "nat (s - 1)"] exI [of _ "nat (1000000 - - n div 1000)"]) auto
  qed
qed

theorem log_timestamp_bounds_witness:
  "\<exists>secs. log_timestamp \<lparr>tv_sec = 5, tv_nsec = 500\<rparr> \<lparr>tv_sec = 7, tv_nsec = 0\<rparr> = Inr (secs, 1000000)"
  using log_timestamp_bounds [of "\<lparr>tv_sec = 5, tv_nsec = 500\<rparr>" "\<lparr>tv_sec = 7, tv_nsec = 0\<rparr>"]
  by (auto simp: valid_time_def elapsed_ns_def)


section \<open>The depth from the environment\<close>

lemma decimal_step:
  "decimal n = (if n < 10 then [] else decimal (n div 10)) @ [char_of (48 + n mod 10)]"
  by (subst decimal.simps) simp

lemma digit_char: "d < 10 \<Longrightarrow> isdigit (char_of (48 + d)) \<and> digit_value (char_of (48 + d)) = d"
  by (simp add: isdigit_def digit_value_def)

lemma decimal_digits: "(\<forall>c \<in> set (decimal n). isdigit c) \<and> number_value (decimal n) = n \<and> decimal n \<noteq> []"
proof (induction n rule: decimal.induct)
  case (1 n)
  have last: "isdigit (char_of (48 + n mod 10))" "digit_value (char_of (48 + n mod 10)) = n mod 10"
    using digit_char [of "n mod 10"] by simp_all
  show ?case
  proof (cases "n < 10")
    case True
    then show ?thesis using last by (subst (1 2 3) decimal_step) (simp add: number_value_def)
  next
    case False
    then show ?thesis using last 1 by (subst (1 2 3) decimal_step) (simp add: number_value_def)
  qed
qed

lemma digit_not_space_or_sign: "isdigit c \<Longrightarrow> \<not> isspace c \<and> c \<noteq> CHR ''-'' \<and> c \<noteq> CHR ''+''"
  by (auto simp: isdigit_def isspace_def)

lemma strtoul_decimal:
  assumes "n \<le> ULONG_MAX" and "tail = [] \<or> \<not> isdigit (hd tail)"
  shows "strtoul (decimal n @ tail) = (n, length (decimal n), False)"
proof -
  have d: "\<forall>c \<in> set (decimal n). isdigit c" "number_value (decimal n) = n" "decimal n \<noteq> []" using decimal_digits by auto
  then obtain a as where a: "decimal n = a # as" "isdigit a" by (cases "decimal n") auto
  have "takeWhile isdigit (decimal n @ tail) = decimal n @ takeWhile isdigit tail" using d(1) by (simp add: takeWhile_append2)
  moreover have "takeWhile isdigit tail = []" using assms(2) by (cases tail) auto
  ultimately have t: "takeWhile isdigit (decimal n @ tail) = decimal n" by simp
  show ?thesis
    using digit_not_space_or_sign [OF a(2)] t d assms(1) unfolding strtoul_def by (simp add: a Let_def)
qed

text \<open>A depth in decimal digits is read back; with a rest that is no digit the check of \<open>errno\<close> fails, since
  \<open>strtoul\<close> does not set it then, in place of the message about the invalid value; an empty variable is taken for the depth 0.\<close>

theorem log_depth_var_cases:
  assumes "n < 2 ^ 64" and "\<not> isdigit c"
  shows "select_log_depth (env\<lparr>log_depth_var := Some (decimal n)\<rparr>) 0 = Inr n \<and>
    select_log_depth (env\<lparr>log_depth_var := Some (decimal n @ c # rest)\<rparr>) 0 = Inl AssertFailed \<and>
    select_log_depth (env\<lparr>log_depth_var := Some []\<rparr>) 0 = Inr 0"
proof -
  have n: "n \<le> ULONG_MAX" using assms(1) by (simp add: ULONG_MAX_def)
  show ?thesis
    using strtoul_decimal [OF n, of "[]"] strtoul_decimal [OF n, of "c # rest"] assms(2)
    by (simp add: select_log_depth_def Let_def) (simp add: strtoul_def Let_def)
qed

definition plain_environment :: log_environment where
  "plain_environment = \<lparr>strcmp = strcmp_bytes, log_level_var = None, log_depth_var = None, isatty_stderr = False\<rparr>"

theorem log_depth_var_cases_witness:
  "select_log_depth (plain_environment\<lparr>log_depth_var := Some (decimal 12)\<rparr>) 0 = Inr 12 \<and>
   select_log_depth (plain_environment\<lparr>log_depth_var := Some (decimal 12 @ ''k'')\<rparr>) 0 = Inl AssertFailed"
  using log_depth_var_cases [of 12 "CHR ''k''" plain_environment "[]"] by (simp add: isdigit_def)

section \<open>Initialization\<close>

lemma selected_level_valid:
  assumes "select_log_level env l = Inr level"
  shows "level \<noteq> UDIPE_DEFAULT_LOG_LEVEL \<and> (\<forall>n. level \<noteq> Invalid_level n)"
  using assms
  by (auto simp: select_log_level_def parse_log_level_def split: udipe_log_level.splits option.splits if_splits)

lemma log_level_name_valid:
  "level \<noteq> UDIPE_DEFAULT_LOG_LEVEL \<Longrightarrow> (\<forall>n. level \<noteq> Invalid_level n) \<Longrightarrow> \<exists>s. log_level_name level False = Inr s"
  by (cases level) simp_all

lemma info_logf:
  assumes "uses_logger st p lg" and "top_scope (tracker st) = Some guard" and "func guard = f"
    and "vsnprintf format args = Some text"
  shows "\<exists>rs. udipe_logf vsnprintf f UDIPE_INFO format args st = Inr (st\<lparr>emitted := emitted st @ rs\<rparr>) \<and> length rs \<le> 1"
proof -
  let ?r = "\<lparr>to_callback = the (callback lg), with_context = log_context lg, log_level = UDIPE_INFO,
    log_depth = nesting_depth (tracker st), location = f, message = text\<rparr>"
  have "udipe_logf vsnprintf f UDIPE_INFO format args st =
      Inr (st\<lparr>emitted := emitted st @ (if level_code (min_level lg) \<le> 3 then [?r] else [])\<rparr>)"
    using assms
    by (auto simp: udipe_logf_def is_inside_local_scope_def log_enabled_def validate_log_def deref_logger_def
        uses_logger_def logf_impl_def call_callback_def global_scope_depth_def)
  then show ?thesis by (intro exI [of _ "if level_code (min_level lg) \<le> 3 then [?r] else []"]) simp
qed


text \<open>A configuration whose level, depth and callback can be selected gives a logger with these, and afterwards the
  scopes, the depth and the logger of the thread are as before; with unset variables and an all-zero configuration it
  is the default callback with debug logs down to depth 2.\<close>

theorem logger_initialize_sound:
  assumes total: "\<And>format args. vsnprintf format args \<noteq> None"
    and level: "select_log_level env (min_level config) = Inr level"
    and depth: "select_log_depth env (max_debug_depth config) = Inr depth"
    and cb: "select_callback env (callback config) (log_context config) = Inr (cb, tty)"
    and lg: "lg = config\<lparr>callback := Some cb, min_level := level, max_debug_depth := depth\<rparr>"
  shows "(\<exists>rs. logger_initialize vsnprintf env local config st =
      Inr (lg, tty, st\<lparr>loggers := (loggers st)(local \<mapsto> lg), emitted := emitted st @ rs\<rparr>)) \<and>
    level \<in> {UDIPE_TRACE, UDIPE_DEBUG, UDIPE_INFO, UDIPE_WARN, UDIPE_ERROR} \<and>
    (config = \<lparr>callback = None, log_context = 0, min_level = UDIPE_DEFAULT_LOG_LEVEL, max_debug_depth = 0\<rparr> \<and>
     log_level_var env = None \<and> log_depth_var env = None \<longrightarrow>
       lg = \<lparr>callback = Some default_callback, log_context = 0, min_level = UDIPE_DEBUG, max_debug_depth = 2\<rparr>)"
proof -
  have valid: "level \<in> {UDIPE_TRACE, UDIPE_DEBUG, UDIPE_INFO, UDIPE_WARN, UDIPE_ERROR}"
    using selected_level_valid [OF level] by (cases level) auto
  obtain name where name: "log_level_name level False = Inr name"
    using log_level_name_valid selected_level_valid [OF level] by blast
  let ?f = "''logger_initialize''" and ?st = "st\<lparr>loggers := (loggers st)(local \<mapsto> lg)\<rparr>"
  let ?kind = "if callback config = None then ''default'' else ''user''"
  let ?format = "''Set up logger using %s callback %p with context %p, min level %s and max debug depth %zu.''"
  let ?args = "[Str ?kind, Callback cb, Address (Some (log_context lg)), Str name, Num depth]"
  let ?body = "\<lambda>st. bindR (log_level_name level False) (\<lambda>level_name.
      bindR (udipe_logf vsnprintf ?f UDIPE_INFO ?format
        [Str ?kind, Callback cb, Address (Some (log_context lg)), Str level_name, Num depth] st) (\<lambda>st. Inr ((), st)))"
  obtain enabled where enabled: "vsnprintf ''Enabled logger %p.'' [Address (Some local)] = Some enabled" using total by blast
  obtain disabled where disabled:
    "vsnprintf ''Disabled logger %p, back to %p.'' [Address (Some local), Address (thread_logger ?st)] = Some disabled"
    using total by blast
  obtain msg where msg: "vsnprintf ?format ?args = Some msg" using total by blast
  have cb_some: "callback lg \<noteq> None" by (simp add: lg)
  let ?inside = "entered ?f restore_thread_logger (logger_pointer (thread_logger ?st))
      (?st\<lparr>thread_logger := Some local, emitted := emitted ?st @ debug_records lg (global_scope_depth ?st + 1) ?f enabled\<rparr>)"
  have "uses_logger ?inside local lg" using cb_some by (simp add: uses_logger_def)
  from info_logf [of ?inside local lg _ ?f vsnprintf ?format ?args msg, OF this _ _ msg] obtain rs where
    "udipe_logf vsnprintf ?f UDIPE_INFO ?format ?args ?inside = Inr (?inside\<lparr>emitted := emitted ?inside @ rs\<rparr>)" by auto
  then have "logs ?body ?inside () rs" by (simp add: logs_def name)
  then have "logger_scope vsnprintf ?f local ?body ?st =
    Inr ((), ?st\<lparr>emitted := emitted ?st @ debug_records lg (global_scope_depth ?st + 1) ?f enabled @ rs @
      debug_records lg (global_scope_depth ?st + 1) ''restore_thread_logger'' disabled\<rparr>)"
    by (intro logger_scope_restores [OF _ cb_some enabled disabled]) simp_all
  moreover have "logger_initialize vsnprintf env local config st =
      bindR (logger_scope vsnprintf ?f local ?body ?st) (\<lambda>(_, st). Inr (lg, tty, st))"
    by (simp only: logger_initialize_def level depth cb bindR_simps prod.case Let_def lg)
  ultimately have "\<exists>rs. logger_initialize vsnprintf env local config st =
      Inr (lg, tty, st\<lparr>loggers := (loggers st)(local \<mapsto> lg), emitted := emitted st @ rs\<rparr>)" by auto
  moreover have "config = \<lparr>callback = None, log_context = 0, min_level = UDIPE_DEFAULT_LOG_LEVEL, max_debug_depth = 0\<rparr> \<and>
     log_level_var env = None \<and> log_depth_var env = None \<longrightarrow>
       lg = \<lparr>callback = Some default_callback, log_context = 0, min_level = UDIPE_DEBUG, max_debug_depth = 2\<rparr>"
    using level depth cb lg by (auto simp: select_log_level_def select_log_depth_def select_callback_def)
  ultimately show ?thesis using valid by blast
qed

theorem logger_initialize_sound_witness:
  "\<exists>rs. logger_initialize (\<lambda>format _. Some format) plain_environment 9
      \<lparr>callback = None, log_context = 0, min_level = UDIPE_DEFAULT_LOG_LEVEL, max_debug_depth = 0\<rparr> idle_thread =
    Inr (\<lparr>callback = Some default_callback, log_context = 0, min_level = UDIPE_DEBUG, max_debug_depth = 2\<rparr>, Some False,
      idle_thread\<lparr>loggers := (loggers idle_thread)(9 \<mapsto>
        \<lparr>callback = Some default_callback, log_context = 0, min_level = UDIPE_DEBUG, max_debug_depth = 2\<rparr>), emitted := rs\<rparr>)"
  using logger_initialize_sound [of "\<lambda>format _. Some format" plain_environment
      "\<lparr>callback = None, log_context = 0, min_level = UDIPE_DEFAULT_LOG_LEVEL, max_debug_depth = 0\<rparr>"
      UDIPE_DEBUG 2 default_callback "Some False" _ 9 idle_thread, OF _ _ _ _ refl]
  by (simp add: select_log_level_def select_log_depth_def select_callback_def plain_environment_def idle_thread_def)

text \<open>Finalization poisons a logger that is not in use on the thread, and refuses the one in use.\<close>

lemma logger_finalize_result:
  assumes total: "\<And>format args. vsnprintf format args \<noteq> None" and "loggers st p = Some lg" and "callback lg \<noteq> None"
    and other: "thread_logger st \<noteq> Some p"
  shows "\<exists>rs. logger_finalize vsnprintf p st = Inr (st\<lparr>loggers := (loggers st)(p \<mapsto>
      \<lparr>callback = None, log_context = 0, min_level = UDIPE_TRACE, max_debug_depth = 0\<rparr>), emitted := emitted st @ rs\<rparr>)"
proof -
  let ?f = "''logger_finalize''"
  let ?body = "\<lambda>st'. bindR (udipe_log ?f UDIPE_DEBUG ''Poisoning logger...'' st') (\<lambda>st'.
      ensure_that (thread_logger st \<noteq> Some p) (Inr ((), st')))"
  obtain enabled where enabled: "vsnprintf ''Enabled logger %p.'' [Address (Some p)] = Some enabled" using total by blast
  obtain disabled where disabled:
    "vsnprintf ''Disabled logger %p, back to %p.'' [Address (Some p), Address (thread_logger st)] = Some disabled"
    using total by blast
  let ?inside = "entered ?f restore_thread_logger (logger_pointer (thread_logger st))
      (st\<lparr>thread_logger := Some p, emitted := emitted st @ debug_records lg (global_scope_depth st + 1) ?f enabled\<rparr>)"
  have "uses_logger ?inside p lg" using assms(2,3) by (simp add: uses_logger_def)
  then have "logs ?body ?inside () (debug_records lg (nesting_depth (tracker ?inside)) ?f ''Poisoning logger...'')"
    using other by (simp add: logs_def debug_log)
  from logger_scope_restores [OF assms(2,3) enabled disabled this]
  obtain rs where "logger_scope vsnprintf ?f p ?body st = Inr ((), st\<lparr>emitted := emitted st @ rs\<rparr>)" by blast
  then show ?thesis using assms(2) by (intro exI [of _ rs]) (simp add: logger_finalize_def Let_def)
qed

end
