(* ===== verification/ThreadNames.thy ===== *)
theory ThreadNames
  imports Allocator "HOL-Library.Sublist"
begin

text \<open>
  Model of src/thread_name.c on Linux, where the kernel keeps the name of a thread and each thread owns a buffer in
  reference counted thread-specific storage, and of src/name_filter.c, the selection of tests and benchmarks by name.
  A byte of a buffer is \<open>None\<close> until it is written.  Allocations and system calls succeed or fail as the
  environment says.
\<close>

section \<open>State\<close>

definition MAX_THREAD_NAME_LEN :: nat where
  "MAX_THREAD_NAME_LEN = 15"

definition MAX_THREAD_NAME_SIZE :: nat where
  "MAX_THREAD_NAME_SIZE = MAX_THREAD_NAME_LEN + 1"

record thread_name =
  name_capacity :: nat
  name_bytes :: "char option list"

record name_env =
  malloc_name :: "nat \<Rightarrow> nat option"              \<comment> \<open>address for a size\<close>
  realloc_name :: "nat \<Rightarrow> nat \<Rightarrow> nat option"      \<comment> \<open>address for an address and a size\<close>
  tss_set_succeeds :: bool
  prctl_result :: int

text \<open>The name that the kernel keeps, the buffers, and the storage key: the slot of this thread and the
  number of references with the flag for reachability.\<close>

record name_state =
  kernel_name :: string
  name_buffers :: "nat \<Rightarrow> thread_name option"
  name_slot :: "nat option"
  name_refs :: u64

section \<open>The storage key\<close>

definition name_key_create_slot :: "name_env \<Rightarrow> (name_state \<Rightarrow> (nat \<times> name_state) res) \<Rightarrow> name_state \<Rightarrow> (nat \<times> name_state) res" where
  "name_key_create_slot env constructor st =
     (let old = name_refs st;
          st = st\<lparr>name_refs := old + 1\<rparr>
      in assert_that (old AND REFCOUNTED_TSS_REACHABLE \<noteq> 0) (
      assert_that ((old + 1) AND REFCOUNTED_TSS_REACHABLE \<noteq> 0) (
      bindR (constructor st) (\<lambda>(result, st).
      assert_that (result \<noteq> 0) (
      assert_that (name_slot st = None) (
      if tss_set_succeeds env then Inr (result, st\<lparr>name_slot := Some result\<rparr>) else Inl ExitError))))))"

definition name_key_acquire :: "name_env \<Rightarrow> (name_state \<Rightarrow> (nat \<times> name_state) res) \<Rightarrow> name_state \<Rightarrow> (nat \<times> name_state) res" where
  "name_key_acquire env constructor st =
     assert_that (name_refs st OR REFCOUNTED_TSS_REACHABLE \<noteq> 0) (
     case name_slot st of
       Some result \<Rightarrow> Inr (result, st)
     | None \<Rightarrow> name_key_create_slot env constructor st)"

definition name_key_write :: "name_env \<Rightarrow> nat \<Rightarrow> name_state \<Rightarrow> name_state res" where
  "name_key_write env new st =
     assert_that (name_refs st OR REFCOUNTED_TSS_REACHABLE \<noteq> 0) (
     assert_that (name_slot st \<noteq> None) (
     if tss_set_succeeds env then Inr (st\<lparr>name_slot := Some new\<rparr>) else Inl ExitError))"

definition name_key_release :: "name_state \<Rightarrow> (bool \<times> name_state) res" where
  "name_key_release st =
     assert_that (name_slot st = None) (
     let old = name_refs st;
         st = st\<lparr>name_refs := old - 1\<rparr>
     in assert_that (old \<noteq> 0) (Inr (\<not> old > 1, st)))"

section \<open>Buffers\<close>

definition thread_name_size :: "nat \<Rightarrow> nat" where
  "thread_name_size capacity = 8 + capacity"

definition allocate_thread_name :: "name_env \<Rightarrow> nat \<Rightarrow> name_state \<Rightarrow> (nat \<times> name_state) res" where
  "allocate_thread_name env capacity st =
     (case malloc_name env (thread_name_size capacity) of
        None \<Rightarrow> Inl ExitError
      | Some a \<Rightarrow> Inr (a, st\<lparr>name_buffers := (name_buffers st)(a \<mapsto>
          \<lparr>name_capacity = capacity, name_bytes = replicate capacity None\<rparr>)\<rparr>))"

definition deref_name :: "nat \<Rightarrow> name_state \<Rightarrow> thread_name res" where
  "deref_name a st = (case name_buffers st a of None \<Rightarrow> Inl BadAccess | Some name \<Rightarrow> Inr name)"

definition ensure_thread_name_capacity :: "name_env \<Rightarrow> nat \<Rightarrow> name_state \<Rightarrow> (nat \<times> name_state) res" where
  "ensure_thread_name_capacity env capacity st =
     (let capacity = (if capacity < MAX_THREAD_NAME_SIZE then MAX_THREAD_NAME_SIZE else capacity)
      in bindR (name_key_acquire env (allocate_thread_name env capacity) st) (\<lambda>(a, st).
      bindR (deref_name a st) (\<lambda>name.
      if name_capacity name < capacity then
        case realloc_name env a (thread_name_size capacity) of
          None \<Rightarrow> Inl ExitError
        | Some a' \<Rightarrow>
            let st = st\<lparr>name_buffers := (name_buffers st)(a := None, a' \<mapsto>
                  \<lparr>name_capacity = name_capacity name,
                   name_bytes = name_bytes name @ replicate (capacity - length (name_bytes name)) None\<rparr>)\<rparr>
            in bindR (if a' \<noteq> a then name_key_write env a' st else Inr st) (\<lambda>st.
            bindR (deref_name a' st) (\<lambda>name.
            Inr (a', st\<lparr>name_buffers := (name_buffers st)(a' \<mapsto> name\<lparr>name_capacity := capacity\<rparr>)\<rparr>)))
      else Inr (a, st))))"

definition thread_name_finalize :: "nat \<Rightarrow> name_state \<Rightarrow> name_state res" where
  "thread_name_finalize a st =
     bindR (deref_name a st) (\<lambda>name.
     if name_capacity name = 0 then Inl ExitError
     else bindR (name_key_release (st\<lparr>name_buffers := (name_buffers st)(a := None)\<rparr>)) (\<lambda>(_, st). Inr st))"

section \<open>Setting and reading the name\<close>

definition FIRST_PRINTABLE_ASCII :: nat where
  "FIRST_PRINTABLE_ASCII = 0x21"

definition LAST_PRINTABLE_ASCII :: nat where
  "LAST_PRINTABLE_ASCII = 0x7e"

fun check_name_loop :: "string \<Rightarrow> unit res" where
  "check_name_loop [] = Inr ()"
| "check_name_loop (c # cs) =
     ensure_that (of_char c \<ge> FIRST_PRINTABLE_ASCII) (
     ensure_that (of_char c \<le> LAST_PRINTABLE_ASCII) (check_name_loop cs))"

text \<open>The kernel keeps at most 15 bytes of a name, and stores them with a NUL in 16 bytes.\<close>

definition set_thread_name :: "name_env \<Rightarrow> string \<Rightarrow> name_state \<Rightarrow> name_state res" where
  "set_thread_name env name st =
     ensure_that (length name > 0) (
     ensure_that (length name \<le> MAX_THREAD_NAME_LEN) (
     seqR (check_name_loop name) (
     if prctl_result env < 0 then Inl ExitError else Inr (st\<lparr>kernel_name := take 15 name\<rparr>))))"

definition NUL :: char where
  "NUL = CHR 0x00"

definition stored_name :: "string \<Rightarrow> char option list" where
  "stored_name s = map Some (s @ replicate (16 - length s) NUL)"

definition get_thread_name :: "name_env \<Rightarrow> name_state \<Rightarrow> (nat \<times> name_state) res" where
  "get_thread_name env st =
     bindR (ensure_thread_name_capacity env MAX_THREAD_NAME_SIZE st) (\<lambda>(a, st).
     bindR (deref_name a st) (\<lambda>name.
     assert_that (name_capacity name \<ge> MAX_THREAD_NAME_SIZE) (
     if prctl_result env < 0 then Inl ExitError
     else if length (name_bytes name) < 16 then Inl BadAccess
     else Inr (a, st\<lparr>name_buffers := (name_buffers st)(a \<mapsto>
       name\<lparr>name_bytes := stored_name (kernel_name st) @ drop 16 (name_bytes name)\<rparr>)\<rparr>))))"

text \<open>The C string at the start of a buffer: \<open>None\<close> when a byte before its NUL is not written or there is no
  NUL.\<close>

fun c_string :: "char option list \<Rightarrow> string option" where
  "c_string [] = None"
| "c_string (None # bs) = None"
| "c_string (Some c # bs) = (if c = NUL then Some [] else map_option (Cons c) (c_string bs))"

section \<open>Name filters\<close>

text \<open>The position of the first occurrence, as \<open>strstr\<close> finds it.\<close>

fun strstr :: "string \<Rightarrow> string \<Rightarrow> nat option" where
  "strstr [] t = (if t = [] then Some 0 else None)"
| "strstr (c # s) t = (if take (length t) (c # s) = t then Some 0 else map_option Suc (strstr s t))"

definition name_filter_initialize :: "bool \<Rightarrow> string \<Rightarrow> string res" where
  "name_filter_initialize strdup_succeeds key = (if strdup_succeeds then Inr key else Inl ExitError)"

definition name_filter_matches :: "string option \<Rightarrow> string \<Rightarrow> bool res" where
  "name_filter_matches flt name =
     (case flt of None \<Rightarrow> Inl BadAccess | Some key \<Rightarrow> Inr (strstr name key \<noteq> None))"

definition name_filter_finalize :: "string option \<Rightarrow> string option" where
  "name_filter_finalize flt = None"

section \<open>Names are valid, buffers are large enough\<close>

definition valid_name :: "string \<Rightarrow> bool" where
  "valid_name s \<longleftrightarrow> 0 < length s \<and> length s \<le> 15 \<and> (\<forall>c \<in> set s. 0x21 \<le> (of_char c :: nat) \<and> (of_char c :: nat) \<le> 0x7e)"

text \<open>The slot of the thread is empty or holds a buffer with room for a name of the kernel.\<close>

definition names_ok :: "name_state \<Rightarrow> bool" where
  "names_ok st \<longleftrightarrow> name_refs st AND REFCOUNTED_TSS_REACHABLE \<noteq> 0 \<and> length (kernel_name st) \<le> 15 \<and>
     NUL \<notin> set (kernel_name st) \<and>
     (case name_slot st of
        None \<Rightarrow> (name_refs st + 1) AND REFCOUNTED_TSS_REACHABLE \<noteq> 0
      | Some a \<Rightarrow> \<exists>name. name_buffers st a = Some name \<and> 16 \<le> name_capacity name \<and>
          length (name_bytes name) = name_capacity name)"

definition serves_names :: "name_env \<Rightarrow> bool" where
  "serves_names env \<longleftrightarrow> (\<forall>n. \<exists>a. malloc_name env n = Some a \<and> a \<noteq> 0) \<and> tss_set_succeeds env \<and> 0 \<le> prctl_result env"

lemma check_name_loop_iff:
  "check_name_loop s = (if \<forall>c \<in> set s. 0x21 \<le> (of_char c :: nat) \<and> (of_char c :: nat) \<le> 0x7e then Inr () else Inl EnsureFailed)"
  by (induction s) (auto simp: FIRST_PRINTABLE_ASCII_def LAST_PRINTABLE_ASCII_def ensure_that_def)

lemma set_thread_name_iff:
  "set_thread_name env s st =
    (if \<not> valid_name s then Inl EnsureFailed
     else if prctl_result env < 0 then Inl ExitError else Inr (st\<lparr>kernel_name := s\<rparr>))"
  by (auto simp: set_thread_name_def check_name_loop_iff valid_name_def MAX_THREAD_NAME_LEN_def ensure_that_def)

lemma valid_name_no_NUL: "valid_name s \<Longrightarrow> NUL \<notin> set s"
  by (auto simp: valid_name_def NUL_def)

lemma c_string_stored:
  assumes "NUL \<notin> set s" and "length s \<le> 15"
  shows "c_string (stored_name s @ r) = Some s"
proof -
  have "c_string (map Some (s @ replicate (Suc n) NUL) @ r) = Some s" for n using assms(1) by (induction s) auto
  moreover obtain n where "16 - length s = Suc n" using assms(2) by (cases "16 - length s") auto
  ultimately show ?thesis by (simp add: stored_name_def)
qed


lemma reachable_or: "(refs OR REFCOUNTED_TSS_REACHABLE \<noteq> 0) = True" for refs :: u64
  by (simp add: REFCOUNTED_TSS_REACHABLE_def or_eq_0_iff)

lemma ensure_capacity_room:
  assumes env: "serves_names env" and ok: "names_ok st"
  shows "\<exists>a st' name. ensure_thread_name_capacity env MAX_THREAD_NAME_SIZE st = Inr (a, st') \<and> names_ok st' \<and>
    name_slot st' = Some a \<and> name_buffers st' a = Some name \<and> 16 \<le> name_capacity name \<and>
    length (name_bytes name) = name_capacity name \<and> kernel_name st' = kernel_name st \<and>
    name_refs st' = name_refs st + (if name_slot st = None then 1 else 0) \<and>
    (name_slot st \<noteq> None \<longrightarrow> st' = st)"
proof (cases "name_slot st")
  case None
  obtain a where a: "malloc_name env (thread_name_size 16) = Some a" "a \<noteq> 0" "tss_set_succeeds env"
    using env by (auto simp: serves_names_def)
  have refs: "name_refs st AND REFCOUNTED_TSS_REACHABLE \<noteq> 0" "(name_refs st + 1) AND REFCOUNTED_TSS_REACHABLE \<noteq> 0"
    using ok None by (simp_all add: names_ok_def)
  show ?thesis
    using None a refs ok
    by (simp add: reachable_or ensure_thread_name_capacity_def name_key_acquire_def name_key_create_slot_def allocate_thread_name_def
        MAX_THREAD_NAME_SIZE_def MAX_THREAD_NAME_LEN_def Let_def deref_name_def names_ok_def)
next
  case (Some a)
  obtain name where "name_buffers st a = Some name" "16 \<le> name_capacity name"
      "length (name_bytes name) = name_capacity name"
    using ok Some by (auto simp: names_ok_def)
  then show ?thesis
    using Some ok
    by (simp add: reachable_or ensure_thread_name_capacity_def name_key_acquire_def MAX_THREAD_NAME_SIZE_def MAX_THREAD_NAME_LEN_def
        Let_def deref_name_def)
qed

lemma get_thread_name_result:
  assumes env: "serves_names env" and ok: "names_ok st"
  shows "\<exists>a st' name. get_thread_name env st = Inr (a, st') \<and> names_ok st' \<and> name_slot st' = Some a \<and>
    name_buffers st' a = Some name \<and> c_string (name_bytes name) = Some (kernel_name st) \<and> 0 < name_capacity name \<and>
    kernel_name st' = kernel_name st \<and> name_refs st' = name_refs st + (if name_slot st = None then 1 else 0) \<and>
    (name_slot st = None \<or> name_slot st = Some a)"
proof -
  obtain a st1 name where e: "ensure_thread_name_capacity env MAX_THREAD_NAME_SIZE st = Inr (a, st1)" "names_ok st1"
      "name_slot st1 = Some a" "name_buffers st1 a = Some name" "16 \<le> name_capacity name"
      "length (name_bytes name) = name_capacity name" "kernel_name st1 = kernel_name st"
      "name_refs st1 = name_refs st + (if name_slot st = None then 1 else 0)" "name_slot st \<noteq> None \<longrightarrow> st1 = st"
    using ensure_capacity_room [OF assms] by blast
  let ?name = "name\<lparr>name_bytes := stored_name (kernel_name st) @ drop 16 (name_bytes name)\<rparr>"
  let ?st = "st1\<lparr>name_buffers := (name_buffers st1)(a \<mapsto> ?name)\<rparr>"
  have kernel: "length (kernel_name st) \<le> 15" "NUL \<notin> set (kernel_name st)" using ok by (simp_all add: names_ok_def)
  have "get_thread_name env st = Inr (a, ?st)"
    using e env by (simp add: get_thread_name_def deref_name_def MAX_THREAD_NAME_SIZE_def MAX_THREAD_NAME_LEN_def serves_names_def)
  moreover have "length (stored_name (kernel_name st)) = 16" using kernel by (simp add: stored_name_def)
  ultimately show ?thesis
    using e c_string_stored [OF kernel(2,1)]
    by (intro exI [of _ a] exI [of _ ?st] exI [of _ ?name]) (auto simp: names_ok_def)
qed

text \<open>C22. A thread name is accepted exactly when it has 1 to 15 printable ASCII characters without spaces; a name that was
  set is read back, in a buffer that stays the same from call to call.\<close>

theorem thread_name_roundtrip:
  assumes "serves_names env" and "names_ok st"
  shows "(\<not> valid_name name \<longrightarrow> set_thread_name env name st = Inl EnsureFailed) \<and>
    (valid_name name \<longrightarrow> (\<exists>st1 a st2 buffer. set_thread_name env name st = Inr st1 \<and> names_ok st1 \<and>
       get_thread_name env st1 = Inr (a, st2) \<and> names_ok st2 \<and> name_buffers st2 a = Some buffer \<and>
       c_string (name_bytes buffer) = Some name \<and> (\<forall>b. name_slot st = Some b \<longrightarrow> a = b)))"
proof (cases "valid_name name")
  case True
  let ?st = "st\<lparr>kernel_name := name\<rparr>"
  have "names_ok ?st" using assms(2) True valid_name_no_NUL [OF True] by (auto simp: names_ok_def valid_name_def split: option.splits)
  moreover have "set_thread_name env name st = Inr ?st"
    using True assms(1) by (simp add: set_thread_name_iff serves_names_def)
  ultimately show ?thesis using get_thread_name_result [OF assms(1), of ?st] True by fastforce
next
  case False
  then show ?thesis by (simp add: set_thread_name_iff)
qed

definition plain_names :: name_env where
  "plain_names = \<lparr>malloc_name = (\<lambda>_. Some 64), realloc_name = (\<lambda>a _. Some a), tss_set_succeeds = True, prctl_result = 0\<rparr>"

definition new_thread :: name_state where
  "new_thread = \<lparr>kernel_name = ''main'', name_buffers = (\<lambda>_. None), name_slot = None, name_refs = REFCOUNTED_TSS_REACHABLE\<rparr>"

lemma plain_names_serves: "serves_names plain_names"
  by (simp add: plain_names_def serves_names_def)

lemma new_thread_ok: "names_ok new_thread"
  by (simp add: names_ok_def new_thread_def REFCOUNTED_TSS_REACHABLE_def NUL_def)

theorem thread_name_roundtrip_witness:
  "set_thread_name plain_names ''two words'' new_thread = Inl EnsureFailed \<and>
   (\<exists>st1 a st2 buffer. set_thread_name plain_names ''udp_cx_89ABCDEF'' new_thread = Inr st1 \<and>
      get_thread_name plain_names st1 = Inr (a, st2) \<and> name_buffers st2 a = Some buffer \<and>
      c_string (name_bytes buffer) = Some ''udp_cx_89ABCDEF'')"
proof -
  have valid: "\<not> valid_name ''two words''" "valid_name ''udp_cx_89ABCDEF''" by (simp_all add: valid_name_def)
  show ?thesis
    using thread_name_roundtrip [OF plain_names_serves new_thread_ok, of "''two words''"]
      thread_name_roundtrip [OF plain_names_serves new_thread_ok, of "''udp_cx_89ABCDEF''"] valid by blast
qed

text \<open>When a thread with a name buffer ends, the destructor of its slot frees the buffer and gives the
  reference to the key back.\<close>

lemma thread_name_released:
  assumes "serves_names env" and "names_ok st" and "name_slot st = None"
    and "get_thread_name env st = Inr (a, st')"
  shows "\<exists>st''. thread_name_finalize a (st'\<lparr>name_slot := None\<rparr>) = Inr st'' \<and> name_buffers st'' a = None \<and>
    name_refs st'' = name_refs st"
proof -
  obtain name where n: "name_buffers st' a = Some name" "0 < name_capacity name" "name_refs st' = name_refs st + 1"
    using get_thread_name_result [OF assms(1,2)] assms(3,4) by auto
  have "(name_refs st + 1) AND REFCOUNTED_TSS_REACHABLE \<noteq> 0" using assms(2,3) by (simp add: names_ok_def)
  then have "name_refs st + 1 \<noteq> 0" by (metis and_zero_eq zero_and_eq)
  then show ?thesis using n by (simp add: thread_name_finalize_def deref_name_def name_key_release_def Let_def)
qed

section \<open>Name filters select by substring\<close>

lemma strstr_sublist: "strstr s t \<noteq> None \<longleftrightarrow> sublist t s"
proof (induction s)
  case (Cons c s)
  have "take (length t) (c # s) = t \<longleftrightarrow> prefix t (c # s)"
    by (metis append_eq_conv_conj append_take_drop_id prefixE prefixI)
  then show ?case using Cons by (auto simp: sublist_Cons_right)
qed (auto simp: sublist_Nil_right)


text \<open>A filter lets exactly the names pass that contain its key; a finalized filter cannot be used.\<close>

lemma name_filter_selects:
  "bindR (name_filter_initialize True key) (\<lambda>f. name_filter_matches (Some f) name) = Inr (sublist key name) \<and>
   name_filter_matches (name_filter_finalize (Some key)) name = Inl BadAccess"
  using strstr_sublist [of name key]
  by (auto simp: name_filter_initialize_def name_filter_matches_def name_filter_finalize_def)

end
