(* ===== verification/Spec2Isabelle.thy ===== *)
theory Spec2Isabelle
  imports BitArray FutureApi ConnectOptions Buffers DistributionPool Numeric ClockCalibration Logging ThreadNames
begin

text \<open>
  A model of udipe, a C library for asynchronous UDP networking, with the theorems that make its
  parts correct.  The library hands its work to futures: a future has a 32-bit status word that
  threads update with atomic operations, an operating system object that can be polled (an eventfd,
  a timerfd or an epoll instance), and data that depends on its type.  Futures come from an allocator
  with a cache per thread and one per context.  Network threads use pools of packet buffers and of
  connection options.  A benchmark library collects durations in histograms and sums up doubles.

  \<^bold>\<open>Theories.\<close>
  \<^item> \<open>Prelude\<close>: the results of fallible code (\<open>stop\<close>: a failed assertion, a failed \<open>ensure\<close>, an exit
    with an error, undefined behaviour, a bad memory access, the end of the schedule), array
    accesses, machine words, shared lemmas.
  \<^item> \<open>Bits\<close> (src/bits.[ch]) and \<open>BitArray\<close> (src/bit_array.h): bit tricks, carry chains, entropy
    packing; arrays of bits in 64-bit words against their meaning as a map from positions to bits.
  \<^item> \<open>FutureStatus\<close> (src/future/status.h, state.h, outcome.h, type.h, status_ops.c): the bitfield and
    word views of a status and the consistency check, with \<open>valid_status\<close> as its specification.
  \<^item> \<open>World\<close>: one thread of the library, the futures and the allocator in memory, and the schedule of
    what the other threads and the operating system do; a state and error monad with weakest
    preconditions (\<open>wp\<close>, simplification rules \<open>wp_simps\<close>).
  \<^item> \<open>OsSync\<close> (duration.h, stopwatch.h, address_wait.c, fd.h, event.h, timer.h, inpoll.[ch],
    latched_inpoll.[ch]): the operating system objects.
  \<^item> \<open>StatusOps\<close> (status_ops.h): atomic operations on status words, the compare-exchange loop
    \<open>cas_loop\<close>, the protocol of status changes, and the locale \<open>status_update\<close>: a loop whose body
    proposes changes that follow a relation writes only such changes.
  \<^item> \<open>FutureWait\<close> (wait.c): waiting for a future of every type; interprets \<open>status_update\<close> for its loops.
  \<^item> \<open>PointerCache\<close>, \<open>PageTransfer\<close>, \<open>CachePair\<close> (allocator/pointer_cache.[ch]): the pool of unused futures, a
    doubly linked list of pages of pointers, as a stack (locale \<open>future_pool\<close>); how pages move between
    the stacks of a thread and of the context; spilling one into the other.
  \<^item> \<open>SyncCaches\<close> (allocator/sync_caches.[ch]): the rings of recycled events and inpolls, as bounded stacks.
  \<^item> \<open>Memory\<close> (memory.[ch]): page-aligned locked memory, rounding of sizes, the memory locking limit.
  \<^item> \<open>Allocator\<close> (allocator.c, storage_page.[ch], refcounted_tss.[ch], thread_cache.c, context_cache.c): the
    operations of the allocator.  \<open>AllocatorSpec\<close>: what they promise (locale \<open>future_store\<close>, interpreted
    on them): no future is lost or handed out twice.  \<open>Consumption\<close>: allocation takes the schedule from the
    front.
  \<^item> \<open>ThreadCache\<close> (thread_cache.c, context_cache.c, context.c): the destructors of a thread and of a context as
    two concurrent programs on five flags (locale \<open>transition_system\<close>), and the reference count of the
    thread-specific storage.
  \<^item> \<open>FutureApi\<close> (future.c): the public operations, from the start of a custom future to its end, on top
    of all of the above.

  \<^item> \<open>ConnectOptions\<close> (connect.[ch]): the lock-free allocator of connection options; other threads change its
    mask before every access.
  \<^item> \<open>Buffers\<close> (buffer.[ch]): configuration and use of the pool of packet buffers; the locale \<open>slot_pool\<close> serves
    a sequence of requests from a set of slots and is interpreted on the pool.
  \<^item> \<open>Distribution\<close>, \<open>DistributionQuery\<close>, \<open>DistributionDerive\<close>, \<open>DistributionPool\<close> (benchmark/distribution.[ch],
    distribution_pool.[ch]): histograms of 64-bit values against the multiset of their samples (locale
    \<open>sample_builder\<close>, interpreted on the insertion); ranks, quantiles and differences; resampling, scaling,
    subtraction; the stack of recycled histograms.
  \<^item> \<open>Numeric\<close> (benchmark/numeric.[ch]): the exact accumulator for doubles against signed integers; the locale
    \<open>word_accumulation\<close> holds the propagation of carries and is interpreted on the addition and the
    subtraction of words.
  \<^item> \<open>OutlierFilter\<close> (benchmark/outlier_filter.[ch]): relative weights of the bins of a histogram, their scores, the
    threshold and the compaction, over a record of operations on doubles.
  \<^item> \<open>Statistics\<close> (benchmark/statistics.[ch]): the mean and quantiles of a histogram, and confidence intervals from the
    sorted statistics of 201 resampled histograms, over the operations on doubles with what it relies on in
    \<open>statistics_laws\<close>.
  \<^item> \<open>BenchmarkClock\<close> (benchmark.[ch]): durations, measurements with the clock of the operating system and with the
    time stamp counter, on top of histograms, their pool, the outlier filter and the statistics.
  \<^item> \<open>ClockCalibration\<close> (\<open>os_clock_initialize\<close> of benchmark.c): the three loops that calibrate the clock of the operating system
    by the statistics of repeated measurements; the locale \<open>counted_loop\<close> bounds their turns by the readings of the clock
    and is interpreted on each of them.
  \<^item> \<open>Logging\<close> (scope.h, log.[ch]): scopes with destructors, log levels, loggers, their configuration from the
    environment, the default callback.
  \<^item> \<open>ThreadNames\<close> (thread_name.[ch], name_filter.[ch]): thread names and their buffers, selection by substring.

  \<^bold>\<open>State and operations.\<close>  A C function is a definition of the same name; a loop inside of it has a
  definition of its own.  \<open>udipe_future\<close> is the record of a future, addressed by a \<open>fid\<close>; \<open>allocator_state\<close> holds
  the thread-local cache of the running thread and the cache of its context.  An output parameter is
  returned next to the result.  Assertions are checked, as in a debug build.

  \<^bold>\<open>Concurrency.\<close>  The schedule lists, before each atomic access, the writes of other threads to status
  words; theorems quantify over the schedule.  Where the interplay of two functions matters (the two
  destructors of a thread cache), both are step functions and all interleavings are considered.

  \<^bold>\<open>Parameters.\<close>  What the code asks of the outside is an argument: the results of system calls (in the
  schedule), \<open>rand()\<close>, the hwloc topology, the callback of a configuration, and, in \<open>heap_env\<close>, whether
  \<open>malloc\<close> succeeds and what a read in front of an allocation gives.  The outlier filter takes the operations on
  doubles as a record \<open>arith\<close>, with what it relies on in \<open>score_laws\<close>; readings of clocks are lists; the formatting of log
  messages and \<open>strcmp\<close> are functions.

  \<^bold>\<open>Bounds.\<close>  A loop that depends on other threads consumes at least one step of the schedule per turn, so
  the length of the schedule is enough fuel; running out of it gives \<open>ScheduleEnd\<close>, as does a schedule
  that ends.  The readings of a clock bound its calibration in the same way.  Loops over a cache have the number of its slots or pages as fuel.  The loop that doubles
  the memory locking limit is a partial function, since it may not end.  Histograms are limited to
  \<open>2 ^ 59\<close> samples, so that the size of a doubled allocation fits \<open>size_t\<close>; the accumulator has 33 words, and
  its overflow is a branch of the theorem.

  \<^bold>\<open>What is shown.\<close>  Status words: the two views agree, the consistency check is exact, waits and public
  operations follow the protocol, a waiter is counted once.  Bit arrays and bit utilities: functional
  correctness against reference definitions.  Allocator: caches are stacks, allocation and liberation
  conserve futures, recycled objects come back as they were, finalization closes everything.  Life cycle:
  a custom future returns its payload, a canceled one reports it; caches are freed once under every
  interleaving; the last user frees the context.  Pools: buffers in hand are disjoint, an allocation of
  options claims exactly one of them.  Benchmark library: histograms refine multisets, searches and ranks
  agree with the sorted sequence of samples, sums of doubles are exact integers until they are rounded, the
  outlier filter splits a histogram without loss, a measurement returns the durations of its runs, and the
  ends of a confidence interval are resampled statistics in order.  Logging: functions
  bracket their logs and restore the scopes, loggers are configured as asked; thread names are read back.
  Theorems of kind error prove what the code does wrong
  in the situations they describe.

  \<^bold>\<open>What is not modelled.\<close>  Memory orderings (atomic accesses are sequentially consistent), the Windows
  and macOS variants, release builds, the composition of a context from its parts (hwloc
  topology, logger), the contents of connection options and of buffers, the unfinished network threads
  and their command queue, the plots of histograms and the formatting of estimates in the log, the harness that names
  and selects benchmarks, the unit tests.
\<close>

end
